(* ===== verification/Prelude.thy ===== *)
theory Prelude
  imports Main "HOL-Library.Word"
begin

unbundle bit_operations_syntax

text \<open>
  Shared ground of the development: the machine types of the C code, the outcome of a C call,
  the sequencing of fallible calls over an explicit state, and byte/word conversions with their
  laws.  No definition here models a particular C function; the component theories do.
\<close>

section \<open>Machine types\<close>

type_synonym byte = "8 word"
type_synonym u16 = "16 word"
type_synonym u32 = "32 word"
type_synonym u64 = "64 word"
type_synonym size_t = "64 word"

named_theorems bytes_simps \<open>conversions between byte strings and words\<close>
named_theorems act_simps \<open>evaluation of sequenced calls\<close>

section \<open>Outcomes of C calls and their sequencing\<close>

text \<open>
  A C function that reports success by a boolean (or 0/1) result and otherwise works on a state
  is a function from the state to an outcome and the new state.  \<open>Ok\<close> is a return of true with
  the values of the output parameters, \<open>Fail\<close> a return of false, \<open>Ub\<close> a step the C standard
  leaves undefined (a read or write outside its object, a call through a null pointer), and
  \<open>NoFuel\<close> marks a recursion that was cut off before it returned.  The state after a failed call
  is kept: the C code leaves its effects in place too.
\<close>

datatype 'a outcome = Ok 'a | Fail | Ub | NoFuel

type_synonym ('a, 's) act = "'s \<Rightarrow> 'a outcome \<times> 's"

definition ret :: "'a \<Rightarrow> ('a, 's) act" where
  "ret x = (\<lambda>s. (Ok x, s))"

definition fail :: "('a, 's) act" where
  "fail = (\<lambda>s. (Fail, s))"

definition undef :: "('a, 's) act" where
  "undef = (\<lambda>s. (Ub, s))"

text \<open>\<open>seq m f\<close> is \<open>if (!m(...)) return false; f(...)\<close>.\<close>

definition seq :: "('a, 's) act \<Rightarrow> ('a \<Rightarrow> ('b, 's) act) \<Rightarrow> ('b, 's) act" where
  "seq m f = (\<lambda>s. case m s of
     (Ok x, s') \<Rightarrow> f x s'
   | (Fail, s') \<Rightarrow> (Fail, s')
   | (Ub, s') \<Rightarrow> (Ub, s')
   | (NoFuel, s') \<Rightarrow> (NoFuel, s'))"

definition update :: "('s \<Rightarrow> 's) \<Rightarrow> (unit, 's) act" where
  "update f = (\<lambda>s. (Ok (), f s))"

definition query :: "('s \<Rightarrow> 'a) \<Rightarrow> ('a, 's) act" where
  "query f = (\<lambda>s. (Ok (f s), s))"

lemma act_run [act_simps]:
  "ret x s = (Ok x, s)" "fail s = (Fail, s)" "undef s = (Ub, s)"
  "update f s = (Ok (), f s)" "query g s = (Ok (g s), s)"
  by (simp_all add: ret_def fail_def undef_def update_def query_def)

lemma seq_run [act_simps]:
  "m s = (Ok x, s') \<Longrightarrow> seq m f s = f x s'"
  "m s = (Fail, s') \<Longrightarrow> seq m f s = (Fail, s')"
  "m s = (Ub, s') \<Longrightarrow> seq m f s = (Ub, s')"
  "m s = (NoFuel, s') \<Longrightarrow> seq m f s = (NoFuel, s')"
  by (simp_all add: seq_def)

lemma seq_step: "m s = (Ok x, s') \<Longrightarrow> f x s' = r \<Longrightarrow> seq m f s = r"
  by (simp add: seq_def)

lemma seq_basic [act_simps]:
  "seq (ret x) f = f x" "seq fail f = fail" "seq undef f = undef"
  "seq (update g) h s = h () (g s)" "seq (query q) k s = k (q s) s"
  by (simp_all add: seq_def ret_def fail_def undef_def update_def query_def)

lemma seq_assoc: "seq (seq m f) g = seq m (\<lambda>x. seq (f x) g)"
  by (rule ext) (simp add: seq_def split: prod.split outcome.split)

lemma seq_ret [simp]: "seq m ret = m"
  by (rule ext) (simp add: seq_def ret_def split: prod.split outcome.split)

lemma seq_OkE:
  assumes "seq m f s = (Ok y, t)"
  obtains x u where "m s = (Ok x, u)" "f x u = (Ok y, t)"
  using assms by (auto simp: seq_def split: prod.splits outcome.splits)

lemma seq_cases:
  assumes "seq m f s = (r, t)"
  obtains (step) x u where "m s = (Ok x, u)" "f x u = (r, t)"
  | (stop) q where "m s = (q, t)" "\<nexists>x. q = Ok x" "\<nexists>x. r = Ok x" "q = Fail \<longleftrightarrow> r = Fail"
      "q = Ub \<longleftrightarrow> r = Ub" "q = NoFuel \<longleftrightarrow> r = NoFuel"
  using assms by (auto simp: seq_def split: prod.splits outcome.splits)

text \<open>
  A relation between the state before and after a call, for every outcome that returns.  It is
  closed under sequencing when it is a preorder; this carries the frame and monotonicity lemmas
  of the components.
\<close>

definition preserves :: "('s \<Rightarrow> 's \<Rightarrow> bool) \<Rightarrow> ('a, 's) act \<Rightarrow> bool" where
  "preserves R m \<longleftrightarrow> (\<forall>s. R s (snd (m s)))"

lemma preservesD: "preserves R m \<Longrightarrow> m s = (r, t) \<Longrightarrow> R s t"
  by (metis preserves_def snd_conv)

lemma preservesI: "(\<And>s r t. m s = (r, t) \<Longrightarrow> R s t) \<Longrightarrow> preserves R m"
  unfolding preserves_def by (metis prod.collapse)

lemma preserves_seq:
  assumes "transp R" "preserves R m" "\<And>x. preserves R (f x)"
  shows "preserves R (seq m f)"
proof (rule preservesI)
  fix s r t
  assume "seq m f s = (r, t)"
  then show "R s t"
  proof (cases rule: seq_cases)
    case (step x u)
    then show ?thesis using assms by (blast dest: preservesD transpD)
  next
    case (stop q)
    then show ?thesis using assms by (blast dest: preservesD)
  qed
qed

lemma preserves_basic:
  assumes "reflp R"
  shows "preserves R (ret x)" "preserves R fail" "preserves R undef" "preserves R (query g)"
  using assms by (simp_all add: preserves_def act_simps reflpD)

section \<open>Byte strings and words\<close>

definition le_bytes :: "nat \<Rightarrow> 'a::len word \<Rightarrow> byte list" where
  "le_bytes n w = map (\<lambda>i. ucast (drop_bit (8 * i) w)) [0..<n]"

fun le_val :: "byte list \<Rightarrow> 'a::len word" where
  "le_val [] = 0"
| "le_val (b # bs) = ucast b OR push_bit 8 (le_val bs)"

definition be_val :: "byte list \<Rightarrow> 'a::len word" where
  "be_val bs = foldl (\<lambda>acc b. push_bit 8 acc OR ucast b) 0 bs"

definition be_bytes :: "nat \<Rightarrow> 'a::len word \<Rightarrow> byte list" where
  "be_bytes n w = rev (le_bytes n w)"

lemma length_le_bytes [simp]: "length (le_bytes n w) = n"
  by (simp add: le_bytes_def)

lemma length_be_bytes [simp]: "length (be_bytes n w) = n"
  by (simp add: be_bytes_def)

lemma le_bytes_0 [simp]: "le_bytes 0 w = []"
  by (simp add: le_bytes_def)

lemma le_bytes_Suc [bytes_simps]: "le_bytes (Suc n) w = ucast w # le_bytes n (drop_bit 8 w)"
  by (rule nth_equalityI)
    (auto simp: le_bytes_def nth_Cons drop_bit_drop_bit add.commute algebra_simps
      simp del: upt_Suc split: nat.split)

lemma nth_le_bytes: "i < n \<Longrightarrow> le_bytes n w ! i = ucast (drop_bit (8 * i) w)"
  by (simp add: le_bytes_def)

lemma be_val_Nil [simp]: "be_val [] = 0"
  by (simp add: be_val_def)

lemma be_val_snoc [bytes_simps]: "be_val (bs @ [b]) = push_bit 8 (be_val bs) OR ucast b"
  by (simp add: be_val_def)

lemma be_val_rev: "be_val bs = le_val (rev bs)"
proof (induction bs rule: rev_induct)
  case Nil
  show ?case by simp
next
  case (snoc b bs)
  then show ?case by (simp add: be_val_snoc or.commute)
qed

lemma bit_le_val:
  "bit (le_val bs :: 'a::len word) k \<longleftrightarrow>
     k < LENGTH('a) \<and> k div 8 < length bs \<and> bit (bs ! (k div 8)) (k mod 8)"
proof (induction bs arbitrary: k)
  case Nil
  show ?case by simp
next
  case (Cons b bs)
  show ?case
  proof (cases "k < 8")
    case True
    then show ?thesis by (auto simp: bit_simps)
  next
    case False
    then have "k div 8 = Suc ((k - 8) div 8)" "k mod 8 = (k - 8) mod 8"
      by (simp_all add: le_div_geq le_mod_geq)
    with False show ?thesis
      using Cons.IH [of "k - 8"] bit_imp_le_length [of b k] by (auto simp: bit_simps)
  qed
qed

lemma le_val_le_bytes [bytes_simps]:
  fixes w :: "'a::len word"
  shows "le_val (le_bytes n w) = take_bit (8 * n) w"
proof (rule bit_word_eqI)
  fix k
  assume k: "k < LENGTH('a)"
  show "bit (le_val (le_bytes n w) :: 'a word) k \<longleftrightarrow> bit (take_bit (8 * n) w) k"
    using k by (auto simp: bit_le_val nth_le_bytes bit_simps div_less_iff_less_mult mult.commute)
qed

lemma le_bytes_le_val [bytes_simps]:
  assumes "8 * length bs \<le> LENGTH('a::len)"
  shows "le_bytes (length bs) (le_val bs :: 'a word) = bs"
proof (rule nth_equalityI)
  fix i
  assume "i < length (le_bytes (length bs) (le_val bs :: 'a word))"
  then have i: "i < length bs" by simp
  show "le_bytes (length bs) (le_val bs :: 'a word) ! i = bs ! i"
  proof (rule bit_word_eqI)
    fix k :: nat
    assume k: "k < LENGTH(8)"
    then have k8: "k < 8" by simp
    have "(8 * i + k) div 8 = i" "(8 * i + k) mod 8 = k"
      using k8 by (simp_all add: div_mult_self4 mod_mult_self4)
    moreover have "8 * i + k < LENGTH('a)"
      using assms i k8 by linarith
    ultimately show "bit (le_bytes (length bs) (le_val bs :: 'a word) ! i) k = bit (bs ! i) k"
      using i k8 by (simp add: nth_le_bytes bit_simps bit_le_val)
  qed
qed simp

lemma be_val_be_bytes [bytes_simps]:
  fixes w :: "'a::len word"
  shows "be_val (be_bytes n w) = take_bit (8 * n) w"
  by (simp add: be_val_rev be_bytes_def le_val_le_bytes)

lemma be_bytes_be_val [bytes_simps]:
  assumes "8 * length bs \<le> LENGTH('a::len)"
  shows "be_bytes (length bs) (be_val bs :: 'a word) = bs"
  using le_bytes_le_val [of "rev bs", where 'a = 'a] assms
  by (simp add: be_bytes_def be_val_rev)

lemma unat_drop_bit: "unat (drop_bit n w) = unat w div 2 ^ n"
  by (simp only: unat_drop_bit_eq) (simp only: drop_bit_eq_div)

text \<open>
  Bits of the masks the code uses, on the integer numerals to which the simplifier reduces
  the bits of a word numeral.
\<close>

lemma bit_low_mask: "bit (2 ^ m - 1 :: int) n \<longleftrightarrow> n < m"
  by (simp add: bit_mask_iff flip: mask_eq_exp_minus_1)

lemma bit_pow: "bit (2 ^ m :: int) n \<longleftrightarrow> n = m"
  by (auto simp: bit_exp_iff)

lemma bit_masks [bit_simps]:
  "bit (0x7F :: int) n \<longleftrightarrow> n < 7" "bit (0xFF :: int) n \<longleftrightarrow> n < 8"
  "bit (0x3F :: int) n \<longleftrightarrow> n < 6" "bit (0x1F :: int) n \<longleftrightarrow> n < 5"
  "bit (0x80 :: int) n \<longleftrightarrow> n = 7" "bit (7 :: int) n \<longleftrightarrow> n < 3"
  using bit_low_mask [of 7 n] bit_low_mask [of 8 n] bit_low_mask [of 6 n] bit_low_mask [of 5 n]
    bit_low_mask [of 3 n]
    bit_pow [of 7 n] by simp_all

lemma bit_shifted_mask: "bit (push_bit l (2 ^ m - 1) :: int) n \<longleftrightarrow> l \<le> n \<and> n < l + m"
  by (auto simp: bit_push_bit_iff bit_low_mask)

lemma bit_shifted_masks [bit_simps]:
  "bit (0x70 :: int) n \<longleftrightarrow> 4 \<le> n \<and> n < 7" "bit (0xE0 :: int) n \<longleftrightarrow> 5 \<le> n \<and> n < 8"
  using bit_shifted_mask [of 4 3 n] bit_shifted_mask [of 5 3 n] by simp_all

lemma take_bit_unat_self: "unat w < 2 ^ n \<Longrightarrow> take_bit n w = (w :: 'a::len word)"
  by (simp add: word_unat_eq_iff unsigned_take_bit_eq take_bit_nat_eq_self)

lemma unat_lt_of_bits: "(\<And>k. bit w k \<Longrightarrow> k < n) \<Longrightarrow> unat (w :: 'a::len word) < 2 ^ n"
proof -
  assume "\<And>k. bit w k \<Longrightarrow> k < n"
  then have "take_bit n w = w" by (intro bit_word_eqI) (auto simp: bit_simps)
  then show ?thesis by (metis take_bit_nat_less_exp unsigned_take_bit_eq)
qed

lemma bit_lt_of_unat: "unat (w :: 'a::len word) < 2 ^ n \<Longrightarrow> bit w k \<Longrightarrow> k < n"
  by (metis bit_take_bit_iff take_bit_unat_self)

lemma byte_high_bit: "(b :: byte) AND 0x80 = 0 \<longleftrightarrow> b < 0x80"
proof -
  have "(b :: byte) AND 0x80 = 0 \<longleftrightarrow> \<not> bit b 7"
    using and_exp_eq_0_iff_not_bit [of b 7] by simp
  also have "\<dots> \<longleftrightarrow> unat b < 2 ^ 7"
  proof
    assume h: "\<not> bit b 7"
    show "unat b < 2 ^ 7"
    proof (rule unat_lt_of_bits)
      fix k
      assume "bit b k"
      moreover from this have "k < 8" using bit_imp_le_length [of b k] by simp
      ultimately show "k < 7" using h by (cases "k = 7") auto
    qed
  next
    assume "unat b < 2 ^ 7"
    then show "\<not> bit b 7" using bit_lt_of_unat [of b 7 7] by auto
  qed
  finally show ?thesis by (simp add: word_less_nat_alt)
qed

lemma unat_drop_bit_less:
  fixes w :: "'a::len word"
  assumes "w \<noteq> 0" "0 < n"
  shows "unat (drop_bit n w) < unat w"
proof -
  have "unat (drop_bit n w) = unat w div 2 ^ n"
    by (simp only: unat_drop_bit_eq) (simp only: drop_bit_eq_div)
  moreover have "0 < unat w" "1 < (2 :: nat) ^ n"
    using assms one_less_power [of "2 :: nat" n] by (simp_all add: unat_gt_0)
  ultimately show ?thesis by simp
qed

lemma unat_of_nat_lt: "n < 2 ^ LENGTH('a::len) \<Longrightarrow> unat (of_nat n :: 'a word) = n"
  by (simp add: unat_of_nat)

lemma unat_less: "unat (w :: 'a::len word) < 2 ^ LENGTH('a)"
  by (rule unsigned_less)

lemma fst_seq_Fail: "fst (m s) = Fail \<Longrightarrow> fst (seq m f s) = Fail"
  by (cases "m s") (auto simp: seq_def)

text \<open>Overlaying a byte string on a memory block.\<close>

definition overlay :: "byte list \<Rightarrow> nat \<Rightarrow> byte list \<Rightarrow> byte list" where
  "overlay mem pos bs = take pos mem @ bs @ drop (pos + length bs) mem"

lemma length_overlay [simp]:
  "pos + length bs \<le> length mem \<Longrightarrow> length (overlay mem pos bs) = length mem"
  by (simp add: overlay_def)

lemma overlay_append:
  "pos + length as + length bs \<le> length mem \<Longrightarrow>
   overlay (overlay mem pos as) (pos + length as) bs = overlay mem pos (as @ bs)"
  by (simp add: overlay_def ac_simps)

lemma overlay_Nil [simp]: "overlay mem pos [] = mem"
  by (simp add: overlay_def)

lemma nth_overlay_outside:
  "pos + length bs \<le> length mem \<Longrightarrow> i < pos \<or> pos + length bs \<le> i \<Longrightarrow> i < length mem \<Longrightarrow>
   overlay mem pos bs ! i = mem ! i"
  by (auto simp: overlay_def nth_append)

lemma overlay_inside:
  "pos + length bs \<le> length mem \<Longrightarrow> take (length bs) (drop pos (overlay mem pos bs)) = bs"
  by (simp add: overlay_def)

lemma take_bit_ge [bytes_simps]:
  "LENGTH('a::len) \<le> n \<Longrightarrow> take_bit n (w :: 'a word) = w"
  by (simp add: take_bit_word_eq_self)

text \<open>Groups of seven bits with a continuation bit, as varints and base-128 integers have them.\<close>

lemma code_byte_bits:
  fixes v :: u64
  defines "b \<equiv> (ucast (v AND 0x7F) OR 0x80 :: byte)"
  shows "b AND 0x80 \<noteq> 0" "ucast (b AND 0x7F) = (v AND 0x7F :: u64)"
    "ucast (b AND 0x7F) = (ucast v AND 0x7F :: u32)" "b AND 0x7F = 0 \<longleftrightarrow> v AND 0x7F = 0"
proof -
  have "bit (b AND 0x80) 7" by (simp add: b_def bit_simps)
  then show "b AND 0x80 \<noteq> 0" by auto
  have m: "b AND 0x7F = ucast (v AND 0x7F)"
    by (rule bit_word_eqI) (auto simp: b_def bit_simps)
  show u: "ucast (b AND 0x7F) = (v AND 0x7F :: u64)"
    and "ucast (b AND 0x7F) = (ucast v AND 0x7F :: u32)"
    by (rule bit_word_eqI, auto simp: m bit_simps)+
  show "b AND 0x7F = 0 \<longleftrightarrow> v AND 0x7F = 0"
    using m u by (metis unsigned_0)
qed

lemma split_low7: "v AND 0x7F OR push_bit 7 (drop_bit 7 v) = (v :: u64)"
proof (rule bit_word_eqI)
  fix n
  show "bit (v AND 0x7F OR push_bit 7 (drop_bit 7 v)) n \<longleftrightarrow> bit v n" if "n < LENGTH(64)"
    using that by (cases "n < 7") (auto simp: bit_simps)
qed

lemma split_high57:
  fixes v :: u64
  assumes "drop_bit 57 v = 0"
  shows "drop_bit 7 (push_bit 7 v OR ucast (b AND 0x7F :: byte)) = v"
    "ucast ((push_bit 7 v OR ucast (b AND 0x7F)) AND 0x7F) = b AND 0x7F"
    "push_bit 7 v OR ucast (b AND 0x7F) = 0 \<longleftrightarrow> v = 0 \<and> b AND 0x7F = 0"
proof -
  have hi: "\<not> bit v n" if "57 \<le> n" for n
  proof -
    have "bit (drop_bit 57 v) (n - 57) = bit v n" using that by (simp add: bit_drop_bit_eq)
    then show ?thesis using assms by simp
  qed
  show d: "drop_bit 7 (push_bit 7 v OR ucast (b AND 0x7F :: byte)) = v"
  proof (rule bit_word_eqI)
    fix n
    assume "n < LENGTH(64)"
    then show "bit (drop_bit 7 (push_bit 7 v OR ucast (b AND 0x7F :: byte))) n = bit v n"
      using hi [of n] by (cases "n < 57") (auto simp: bit_simps)
  qed
  show m: "ucast ((push_bit 7 v OR ucast (b AND 0x7F)) AND 0x7F) = b AND 0x7F"
    by (rule bit_word_eqI) (auto simp: bit_simps)
  show "push_bit 7 v OR ucast (b AND 0x7F) = 0 \<longleftrightarrow> v = 0 \<and> b AND 0x7F = 0"
  proof
    assume "push_bit 7 v OR ucast (b AND 0x7F) = 0"
    then show "v = 0 \<and> b AND 0x7F = 0" using d m by (metis drop_bit_of_0 and_zero_eq ucast_0 zero_and_eq)
  qed simp
qed

section \<open>The C library\<close>

text \<open>\<open>qsort\<close> of the C library, as an insertion sort.\<close>

fun qsort_insert :: "('a \<Rightarrow> 'a \<Rightarrow> int) \<Rightarrow> 'a \<Rightarrow> 'a list \<Rightarrow> 'a list" where
  "qsort_insert cmp x [] = [x]"
| "qsort_insert cmp x (y # ys) = (if cmp x y \<le> 0 then x # y # ys else y # qsort_insert cmp x ys)"

definition qsort :: "('a \<Rightarrow> 'a \<Rightarrow> int) \<Rightarrow> 'a list \<Rightarrow> 'a list" where
  "qsort cmp xs = foldr (qsort_insert cmp) xs []"

end
