(* ===== verification/Pb_Types.thy ===== *)
theory Pb_Types
  imports Prelude
begin

text \<open>
  The data of nanopb (pb.h) as the CocoaPods build configures it: PB_FIELD_32BIT (so
  \<open>pb_size_t\<close> is a 32-bit integer), PB_ENABLE_MALLOC, no PB_NO_ERRMSG, no PB_BUFFER_ONLY.
  The input and output streams of pb_decode.h and pb_encode.h are records; the pair of the
  callback pointer and the \<open>void *state\<close> it interprets is one value: the memory-buffer
  callback with its position in the buffer, or a caller's callback with the caller's state.
\<close>

section \<open>Field types\<close>

type_synonym pb_size_t = "32 word"
type_synonym pb_type_t = "8 word"

definition PB_LTYPE :: "pb_type_t \<Rightarrow> pb_type_t" where "PB_LTYPE x = x AND 0x0F"
definition PB_HTYPE :: "pb_type_t \<Rightarrow> pb_type_t" where "PB_HTYPE x = x AND 0x30"
definition PB_ATYPE :: "pb_type_t \<Rightarrow> pb_type_t" where "PB_ATYPE x = x AND 0xC0"

abbreviation (input) PB_LTYPE_BOOL :: pb_type_t where "PB_LTYPE_BOOL \<equiv> 0x00"
abbreviation (input) PB_LTYPE_VARINT :: pb_type_t where "PB_LTYPE_VARINT \<equiv> 0x01"
abbreviation (input) PB_LTYPE_UVARINT :: pb_type_t where "PB_LTYPE_UVARINT \<equiv> 0x02"
abbreviation (input) PB_LTYPE_SVARINT :: pb_type_t where "PB_LTYPE_SVARINT \<equiv> 0x03"
abbreviation (input) PB_LTYPE_FIXED32 :: pb_type_t where "PB_LTYPE_FIXED32 \<equiv> 0x04"
abbreviation (input) PB_LTYPE_FIXED64 :: pb_type_t where "PB_LTYPE_FIXED64 \<equiv> 0x05"
abbreviation (input) PB_LTYPE_LAST_PACKABLE :: pb_type_t where "PB_LTYPE_LAST_PACKABLE \<equiv> 0x05"
abbreviation (input) PB_LTYPE_BYTES :: pb_type_t where "PB_LTYPE_BYTES \<equiv> 0x06"
abbreviation (input) PB_LTYPE_STRING :: pb_type_t where "PB_LTYPE_STRING \<equiv> 0x07"
abbreviation (input) PB_LTYPE_SUBMESSAGE :: pb_type_t where "PB_LTYPE_SUBMESSAGE \<equiv> 0x08"
abbreviation (input) PB_LTYPE_EXTENSION :: pb_type_t where "PB_LTYPE_EXTENSION \<equiv> 0x09"
abbreviation (input) PB_LTYPE_FIXED_LENGTH_BYTES :: pb_type_t where
  "PB_LTYPE_FIXED_LENGTH_BYTES \<equiv> 0x0A"
abbreviation (input) PB_HTYPE_REQUIRED :: pb_type_t where "PB_HTYPE_REQUIRED \<equiv> 0x00"
abbreviation (input) PB_HTYPE_OPTIONAL :: pb_type_t where "PB_HTYPE_OPTIONAL \<equiv> 0x10"
abbreviation (input) PB_HTYPE_REPEATED :: pb_type_t where "PB_HTYPE_REPEATED \<equiv> 0x20"
abbreviation (input) PB_HTYPE_ONEOF :: pb_type_t where "PB_HTYPE_ONEOF \<equiv> 0x30"
abbreviation (input) PB_ATYPE_STATIC :: pb_type_t where "PB_ATYPE_STATIC \<equiv> 0x00"
abbreviation (input) PB_ATYPE_POINTER :: pb_type_t where "PB_ATYPE_POINTER \<equiv> 0x80"
abbreviation (input) PB_ATYPE_CALLBACK :: pb_type_t where "PB_ATYPE_CALLBACK \<equiv> 0x40"

abbreviation (input) PB_SIZE_MAX :: pb_size_t where "PB_SIZE_MAX \<equiv> 0xFFFFFFFF"

text \<open>
  The wire type is an enum in the source, but \<open>pb_decode_tag\<close> casts any three bits to it, so it is
  kept as an integer; the four enumerators have names.
\<close>

type_synonym pb_wire_type_t = "32 word"

abbreviation (input) PB_WT_VARINT :: pb_wire_type_t where "PB_WT_VARINT \<equiv> 0"
abbreviation (input) PB_WT_64BIT :: pb_wire_type_t where "PB_WT_64BIT \<equiv> 1"
abbreviation (input) PB_WT_STRING :: pb_wire_type_t where "PB_WT_STRING \<equiv> 2"
abbreviation (input) PB_WT_32BIT :: pb_wire_type_t where "PB_WT_32BIT \<equiv> 5"

section \<open>Field descriptors\<close>

text \<open>
  The \<open>ptr\<close> member of a descriptor is null, or points to the descriptor array of a submessage
  (named here by its index in the table of all descriptor arrays, since message types may be
  recursive), or to the bytes of a default value.
\<close>

datatype pb_ptr = PtrNull | PtrFields nat | PtrDefault "byte list"

record pb_field_t =
  tag :: pb_size_t
  ftype :: pb_type_t
  data_offset :: pb_size_t
  size_offset :: pb_size_t
  data_size :: pb_size_t
  array_size :: pb_size_t
  fptr :: pb_ptr

text \<open>\<open>PB_LAST_FIELD\<close>, the terminator of every descriptor array.\<close>

definition PB_LAST_FIELD :: pb_field_t where
  "PB_LAST_FIELD = \<lparr>tag = 0, ftype = 0, data_offset = 0, size_offset = 0, data_size = 0,
     array_size = 0, fptr = PtrNull\<rparr>"

section \<open>Streams\<close>

text \<open>
  The sink of an output stream: a null callback (a sizing stream), the memory-buffer callback
  \<open>buf_write\<close> with the whole destination array and the offset its state pointer has reached, or a
  caller's callback with its state.  The callback of a caller receives the bytes and returns its
  boolean and its new state (pb_encode.h gives it \<open>state\<close> for its own use and no other member).
\<close>

datatype 's osink =
    Sizing
  | BufSink "byte list" nat
  | UserSink "'s \<Rightarrow> byte list \<Rightarrow> bool \<times> 's" 's

record 's pb_ostream_t =
  sink :: "'s osink"
  max_size :: size_t
  bytes_written :: size_t
  o_errmsg :: "string option"

text \<open>
  The source of an input stream: \<open>buf_read\<close> with the bytes of the buffer from the state pointer on,
  or a caller's callback, which receives the count and returns its boolean, the bytes it stored
  and its new state.  \<open>bytes_left\<close> is a \<open>size_t\<close> that the code only ever decreases by amounts it
  has compared with it, so a natural number describes it exactly.
\<close>

datatype 's isource =
    BufSource "byte list"
  | UserSource "'s \<Rightarrow> nat \<Rightarrow> bool \<times> byte list \<times> 's" 's

record 's pb_istream_t =
  source :: "'s isource"
  bytes_left :: nat
  i_errmsg :: "string option"

text \<open>\<open>PB_RETURN_ERROR\<close>: the first message is kept.\<close>

definition set_error :: "string \<Rightarrow> string option \<Rightarrow> string option" where
  "set_error msg e = (case e of None \<Rightarrow> Some msg | Some m \<Rightarrow> Some m)"

definition o_error :: "string \<Rightarrow> ('a, 's pb_ostream_t) act" where
  "o_error msg = (\<lambda>s. (Fail, s\<lparr>o_errmsg := set_error msg (o_errmsg s)\<rparr>))"

definition i_error :: "string \<Rightarrow> ('a, 's pb_istream_t) act" where
  "i_error msg = (\<lambda>s. (Fail, s\<lparr>i_errmsg := set_error msg (i_errmsg s)\<rparr>))"

end
