(* ===== verification/Pb_Ostream.thy ===== *)
theory Pb_Ostream
  imports Pb_Types
begin

text \<open>
  The output side of nanopb below the message level (pb_encode.c): \<open>pb_write\<close> and the encoders
  of varints, zigzag varints, fixed-width integers, tags and length-prefixed strings.

  The lemmas give each encoder one byte string it emits: on a memory buffer with enough room it
  appends exactly these bytes, on a sizing stream it counts them, and without room it fails
  and leaves the bytes outside the stream's limit alone.
\<close>

section \<open>Writing to a stream\<close>

text \<open>\<open>buf_write\<close>: copy to the state pointer and advance it.\<close>

definition buf_write :: "byte list \<Rightarrow> nat \<Rightarrow> byte list \<Rightarrow> (byte list \<times> nat) option" where
  "buf_write mem pos bs =
     (if pos + length bs \<le> length mem
      then Some (overlay mem pos bs, pos + length bs)
      else None)"

definition pb_ostream_from_buffer :: "byte list \<Rightarrow> size_t \<Rightarrow> 's pb_ostream_t" where
  "pb_ostream_from_buffer buf bufsize =
     \<lparr>sink = BufSink buf 0, max_size = bufsize, bytes_written = 0, o_errmsg = None\<rparr>"

definition PB_OSTREAM_SIZING :: "'s pb_ostream_t" where
  "PB_OSTREAM_SIZING = \<lparr>sink = Sizing, max_size = 0, bytes_written = 0, o_errmsg = None\<rparr>"

text \<open>
  The call \<open>stream->callback(stream, buf, count)\<close> with a non-null callback.  The buffer is
  \<open>None\<close> for a null pointer; reading \<open>count\<close> bytes from a null or shorter source, or storing past
  the end of the destination array, is undefined.
\<close>

definition ostream_callback :: "byte list option \<Rightarrow> nat \<Rightarrow> (bool, 's pb_ostream_t) act" where
  "ostream_callback buf count = (\<lambda>s.
     case buf of None \<Rightarrow> (Ub, s)
     | Some bs \<Rightarrow> if length bs < count then (Ub, s) else
        (case sink s of
           Sizing \<Rightarrow> (Ub, s)
         | BufSink mem pos \<Rightarrow>
             (case buf_write mem pos (take count bs) of
                None \<Rightarrow> (Ub, s)
              | Some (mem', pos') \<Rightarrow> (Ok True, s\<lparr>sink := BufSink mem' pos'\<rparr>))
         | UserSink f st \<Rightarrow>
             (case f st (take count bs) of (ok, st') \<Rightarrow> (Ok ok, s\<lparr>sink := UserSink f st'\<rparr>))))"

definition is_sizing :: "'s pb_ostream_t \<Rightarrow> bool" where
  "is_sizing s \<longleftrightarrow> (case sink s of Sizing \<Rightarrow> True | _ \<Rightarrow> False)"

definition pb_write :: "byte list option \<Rightarrow> size_t \<Rightarrow> (unit, 's pb_ostream_t) act" where
  "pb_write buf count = (\<lambda>s.
     if count > 0 \<and> \<not> is_sizing s then
       (if bytes_written s + count < bytes_written s \<or> bytes_written s + count > max_size s
        then o_error ''stream full'' s
        else seq (ostream_callback buf (unat count))
               (\<lambda>ok. if ok then update (\<lambda>s. s\<lparr>bytes_written := bytes_written s + count\<rparr>)
                     else o_error ''io error'') s)
     else (Ok (), s\<lparr>bytes_written := bytes_written s + count\<rparr>))"

section \<open>Encoding integers, tags and strings\<close>

text \<open>The \<open>while (value)\<close> loop of \<open>pb_encode_varint\<close>: the bytes it stores in its buffer.\<close>

function varint_loop :: "u64 \<Rightarrow> byte list" where
  "varint_loop value =
     (if value = 0 then [] else (ucast (value AND 0x7F) OR 0x80) # varint_loop (drop_bit 7 value))"
  by pat_completeness auto
termination
proof (relation "measure unat")
  fix v :: u64
  assume "v \<noteq> 0"
  then show "(drop_bit 7 v, v) \<in> measure unat"
    using unat_drop_bit_less [of v 7] by simp
qed simp

declare varint_loop.simps [simp del]

definition mask_last :: "byte list \<Rightarrow> byte list" where
  "mask_last bs = butlast bs @ [last bs AND 0x7F]"

definition pb_encode_varint :: "u64 \<Rightarrow> (unit, 's pb_ostream_t) act" where
  "pb_encode_varint value =
     (if value \<le> 0x7F then pb_write (Some [ucast value]) 1
      else (let buffer = varint_loop value
            in pb_write (Some (mask_last buffer)) (of_nat (length buffer))))"

definition zigzag :: "u64 \<Rightarrow> u64" where
  "zigzag value = (if sint value < 0 then NOT (push_bit 1 value) else push_bit 1 value)"

definition pb_encode_svarint :: "u64 \<Rightarrow> (unit, 's pb_ostream_t) act" where
  "pb_encode_svarint value = pb_encode_varint (zigzag value)"

definition pb_encode_fixed32 :: "u32 \<Rightarrow> (unit, 's pb_ostream_t) act" where
  "pb_encode_fixed32 val = pb_write (Some
     [ucast (val AND 0xFF), ucast (drop_bit 8 val AND 0xFF),
      ucast (drop_bit 16 val AND 0xFF), ucast (drop_bit 24 val AND 0xFF)]) 4"

definition pb_encode_fixed64 :: "u64 \<Rightarrow> (unit, 's pb_ostream_t) act" where
  "pb_encode_fixed64 val = pb_write (Some
     [ucast (val AND 0xFF), ucast (drop_bit 8 val AND 0xFF),
      ucast (drop_bit 16 val AND 0xFF), ucast (drop_bit 24 val AND 0xFF),
      ucast (drop_bit 32 val AND 0xFF), ucast (drop_bit 40 val AND 0xFF),
      ucast (drop_bit 48 val AND 0xFF), ucast (drop_bit 56 val AND 0xFF)]) 8"

definition pb_encode_tag :: "pb_wire_type_t \<Rightarrow> u32 \<Rightarrow> (unit, 's pb_ostream_t) act" where
  "pb_encode_tag wiretype field_number =
     pb_encode_varint (push_bit 3 (ucast field_number) OR ucast wiretype)"

definition pb_encode_tag_for_field :: "pb_field_t \<Rightarrow> (unit, 's pb_ostream_t) act" where
  "pb_encode_tag_for_field field =
     (let l = PB_LTYPE (ftype field) in
      if l = PB_LTYPE_BOOL \<or> l = PB_LTYPE_VARINT \<or> l = PB_LTYPE_UVARINT \<or> l = PB_LTYPE_SVARINT
      then pb_encode_tag PB_WT_VARINT (tag field)
      else if l = PB_LTYPE_FIXED32 then pb_encode_tag PB_WT_32BIT (tag field)
      else if l = PB_LTYPE_FIXED64 then pb_encode_tag PB_WT_64BIT (tag field)
      else if l = PB_LTYPE_BYTES \<or> l = PB_LTYPE_STRING \<or> l = PB_LTYPE_SUBMESSAGE \<or>
              l = PB_LTYPE_FIXED_LENGTH_BYTES
      then pb_encode_tag PB_WT_STRING (tag field)
      else o_error ''invalid field type'')"

definition pb_encode_string :: "byte list option \<Rightarrow> size_t \<Rightarrow> (unit, 's pb_ostream_t) act" where
  "pb_encode_string buffer n = seq (pb_encode_varint n) (\<lambda>_. pb_write buffer n)"

section \<open>The bytes an encoder emits\<close>

text \<open>
  \<open>ostream_ok\<close> is the contract of \<open>pb_ostream_from_buffer\<close> kept along a run: the bytes that may
  still be written fit between the state pointer and the end of the destination array.
\<close>

definition ostream_ok :: "'s pb_ostream_t \<Rightarrow> bool" where
  "ostream_ok s \<longleftrightarrow> (case sink s of
     Sizing \<Rightarrow> True
   | BufSink mem pos \<Rightarrow> bytes_written s \<le> max_size s \<and>
       pos + (unat (max_size s) - unat (bytes_written s)) \<le> length mem
   | UserSink _ _ \<Rightarrow> False)"

definition room :: "nat \<Rightarrow> 's pb_ostream_t \<Rightarrow> bool" where
  "room n s \<longleftrightarrow> (case sink s of
     Sizing \<Rightarrow> True
   | _ \<Rightarrow> unat (bytes_written s) + n \<le> unat (max_size s))"

definition emit :: "byte list \<Rightarrow> 's pb_ostream_t \<Rightarrow> 's pb_ostream_t" where
  "emit bs s = s\<lparr>
     sink := (case sink s of
         BufSink mem pos \<Rightarrow> BufSink (overlay mem pos bs) (pos + length bs)
       | k \<Rightarrow> k),
     bytes_written := bytes_written s + of_nat (length bs)\<rparr>"

definition emits :: "(unit, 's pb_ostream_t) act \<Rightarrow> byte list \<Rightarrow> bool" where
  "emits m bs \<longleftrightarrow> (\<forall>s. ostream_ok s \<longrightarrow>
     (if room (length bs) s then m s = (Ok (), emit bs s) else fst (m s) = Fail))"

lemma emitsD:
  assumes "emits m bs" "ostream_ok s"
  shows "room (length bs) s \<Longrightarrow> m s = (Ok (), emit bs s)"
    and "\<not> room (length bs) s \<Longrightarrow> fst (m s) = Fail"
  using assms by (auto simp: emits_def split: if_splits)

lemma unat_written:
  assumes "ostream_ok s" "room n s" "\<not> is_sizing s"
  shows "unat (bytes_written s + of_nat n) = unat (bytes_written s) + n"
proof -
  have "unat (bytes_written s) + n \<le> unat (max_size s)"
    using assms by (auto simp: room_def is_sizing_def split: osink.splits)
  then have lt: "unat (bytes_written s) + n < 2 ^ LENGTH(64)"
    using unat_less [of "max_size s"] by linarith
  have "unat (of_nat n :: size_t) = n"
    using lt by (intro unat_of_nat_lt) linarith
  with lt show ?thesis
    by (subst unat_add_lem [THEN iffD1]) simp_all
qed

lemma emit_simps [simp]:
  "max_size (emit bs s) = max_size s"
  "bytes_written (emit bs s) = bytes_written s + of_nat (length bs)"
  "o_errmsg (emit bs s) = o_errmsg s"
  "is_sizing (emit bs s) = is_sizing s"
  by (simp_all add: emit_def is_sizing_def split: osink.split)

lemma ostream_ok_emit:
  assumes "ostream_ok s" "room (length bs) s"
  shows "ostream_ok (emit bs s)"
proof (cases "is_sizing s")
  case True
  then show ?thesis by (simp add: ostream_ok_def emit_def is_sizing_def split: osink.splits)
next
  case False
  then show ?thesis using assms unat_written [OF assms False]
    by (auto simp: ostream_ok_def emit_def room_def is_sizing_def word_le_nat_alt
        split: osink.splits)
qed

lemma room_emit:
  assumes "ostream_ok s" "room m s" "length bs = m"
  shows "room n (emit bs s) \<longleftrightarrow> room (m + n) s"
proof (cases "is_sizing s")
  case True
  then show ?thesis by (simp add: room_def emit_def is_sizing_def split: osink.splits)
next
  case False
  then show ?thesis using assms unat_written [OF assms(1,2) False]
    by (auto simp: emit_def room_def is_sizing_def split: osink.splits)
qed

lemma room_mono: "room n s \<Longrightarrow> m \<le> n \<Longrightarrow> room m s"
  by (auto simp: room_def split: osink.splits)

lemma emit_append:
  assumes "ostream_ok s" "room (length as + length bs) s"
  shows "emit bs (emit as s) = emit (as @ bs) s"
  using assms
  by (auto simp: emit_def ostream_ok_def room_def overlay_append word_le_nat_alt add.assoc
      split: osink.splits)

lemma emit_Nil [simp]: "emit [] s = s"
  by (simp add: emit_def split: osink.split)

lemma emits_seq:
  assumes "emits m as" "emits k bs"
  shows "emits (seq m (\<lambda>_. k)) (as @ bs)"
  unfolding emits_def
proof (intro allI impI)
  fix s :: "'a pb_ostream_t"
  assume ok: "ostream_ok s"
  show "if room (length (as @ bs)) s then seq m (\<lambda>_. k) s = (Ok (), emit (as @ bs) s)
        else fst (seq m (\<lambda>_. k) s) = Fail"
  proof (cases "room (length as) s")
    case True
    then have m: "m s = (Ok (), emit as s)" and ok': "ostream_ok (emit as s)"
      and rm: "room (length bs) (emit as s) \<longleftrightarrow> room (length (as @ bs)) s"
      using assms(1) ok by (auto dest: emitsD simp: ostream_ok_emit room_emit)
    then show ?thesis
      using emitsD [OF assms(2) ok'] emit_append [OF ok] by (simp add: act_simps)
  next
    case False
    then have "fst (m s) = Fail" using assms(1) ok by (auto dest: emitsD)
    moreover have "\<not> room (length (as @ bs)) s" using False room_mono by fastforce
    ultimately show ?thesis by (simp add: fst_seq_Fail)
  qed
qed

lemma emits_ret: "emits (ret ()) []"
  by (simp add: emits_def act_simps ostream_ok_def room_def word_le_nat_alt split: osink.splits)

lemma pb_write_emits:
  assumes len: "length bs < 2 ^ 64"
  shows "emits (pb_write (Some bs) (of_nat (length bs))) bs"
  unfolding emits_def
proof (intro allI impI)
  fix s :: "'a pb_ostream_t"
  assume ok: "ostream_ok s"
  have n: "unat (of_nat (length bs) :: size_t) = length bs"
    using len by (intro unat_of_nat_lt) simp
  show "if room (length bs) s then pb_write (Some bs) (of_nat (length bs)) s = (Ok (), emit bs s)
        else fst (pb_write (Some bs) (of_nat (length bs)) s) = Fail"
  proof (cases "bs = [] \<or> is_sizing s")
    case True
    then show ?thesis using ok
      by (auto simp: pb_write_def emit_def room_def is_sizing_def ostream_ok_def word_le_nat_alt
          split: osink.splits)
  next
    case False
    then obtain mem pos where mem: "sink s = BufSink mem pos"
      using ok by (auto simp: ostream_ok_def is_sizing_def split: osink.splits)
    have pos: "(of_nat (length bs) :: size_t) > 0"
      using False n by (simp add: word_less_nat_alt)
    show ?thesis
    proof (cases "room (length bs) s")
      case True
      note w = unat_written [OF ok True] and False
      have "\<not> (bytes_written s + of_nat (length bs) < bytes_written s \<or>
               bytes_written s + of_nat (length bs) > max_size s)"
        using w False True mem by (auto simp: word_less_nat_alt room_def)
      then show ?thesis using False True mem ok n pos
        by (simp add: pb_write_def ostream_callback_def act_simps emit_def room_def buf_write_def
            is_sizing_def ostream_ok_def word_le_nat_alt seq_def)
    next
      case F: False
      have "bytes_written s + of_nat (length bs) < bytes_written s \<or>
            bytes_written s + of_nat (length bs) > max_size s"
      proof (rule ccontr)
        assume c: "\<not> ?thesis"
        then have "unat (bytes_written s + of_nat (length bs)) = unat (bytes_written s) + length bs"
          using n by (metis not_less word_le_nat_alt unat_plus_simple)
        then show False using c F mem by (simp add: room_def word_less_nat_alt)
      qed
      then show ?thesis using False F pos by (simp add: pb_write_def o_error_def)
    qed
  qed
qed

section \<open>The codes of the encoders\<close>

text \<open>The byte string of each encoder; the varint code in its recursive reading.\<close>

function varint_code :: "u64 \<Rightarrow> byte list" where
  "varint_code v =
     (if v \<le> 0x7F then [ucast v] else (ucast (v AND 0x7F) OR 0x80) # varint_code (drop_bit 7 v))"
  by pat_completeness auto
termination
proof (relation "measure unat")
  fix v :: u64
  assume "\<not> v \<le> 0x7F"
  then have "v \<noteq> 0" by auto
  then show "(drop_bit 7 v, v) \<in> measure unat"
    using unat_drop_bit_less [of v 7] by simp
qed simp

declare varint_code.simps [simp del]

lemma varint_code_not_Nil [simp]: "varint_code v \<noteq> []"
  by (subst varint_code.simps) simp

lemma varint_loop_Nil [simp]: "varint_loop v = [] \<longleftrightarrow> v = 0"
  by (subst varint_loop.simps) simp

lemma drop_bit_7_eq_0: "drop_bit 7 (v :: u64) = 0 \<longleftrightarrow> v \<le> 0x7F"
proof -
  have "drop_bit 7 v = 0 \<longleftrightarrow> unat v div 128 = 0"
    using unat_drop_bit [of 7 v] by (simp flip: unat_eq_zero)
  also have "\<dots> \<longleftrightarrow> unat v \<le> 127" by arith
  finally show ?thesis by (simp add: word_le_nat_alt)
qed

lemma and_7F_small: "(v :: u64) \<le> 0x7F \<Longrightarrow> v AND 0x7F = v"
proof -
  assume "v \<le> 0x7F"
  then have "drop_bit 7 v = 0" by (simp add: drop_bit_7_eq_0)
  then have "take_bit 7 v = v" by (metis bits_ident add.left_neutral push_bit_of_0 add_0)
  then show ?thesis by (simp add: take_bit_eq_mask mask_numeral)
qed

lemma or_80_and_7F: "((b :: byte) AND 0x7F OR 0x80) AND 0x7F = b AND 0x7F"
  by (rule bit_word_eqI) (auto simp: bit_simps)

lemma ucast_and_7F: "ucast ((v :: u64) AND 0x7F) = (ucast v :: byte) AND 0x7F"
  by (rule bit_word_eqI) (auto simp: bit_simps)

lemma mask_last_varint_loop: "v \<noteq> 0 \<Longrightarrow> mask_last (varint_loop v) = varint_code v"
proof (induction v rule: varint_loop.induct)
  case (1 v)
  show ?case
  proof (cases "v \<le> 0x7F")
    case True
    then have loop: "varint_loop v = [ucast (v AND 0x7F) OR 0x80]"
      using "1.prems" by (simp add: varint_loop.simps [of v] drop_bit_7_eq_0)
    have "(ucast (v AND 0x7F) OR 0x80) AND 0x7F = (ucast v :: byte)"
      using True by (metis and_7F_small ucast_and_7F or_80_and_7F)
    with True show ?thesis
      by (simp only: loop mask_last_def varint_code.simps [of v]) simp
  next
    case False
    then have nz: "drop_bit 7 v \<noteq> 0" by (simp add: drop_bit_7_eq_0)
    then have "mask_last (varint_loop v) =
        (ucast (v AND 0x7F) OR 0x80) # mask_last (varint_loop (drop_bit 7 v))"
      using "1.prems" by (subst varint_loop.simps) (simp add: mask_last_def)
    then show ?thesis using 1 nz False by (simp add: varint_code.simps [of v])
  qed
qed

lemma length_mask_last: "bs \<noteq> [] \<Longrightarrow> length (mask_last bs) = length bs"
  by (simp add: mask_last_def)

lemma length_varint_code_bound:
  assumes "unat v < 2 ^ (7 * n)" "0 < n"
  shows "length (varint_code v) \<le> n"
  using assms
proof (induction v arbitrary: n rule: varint_code.induct)
  case (1 v)
  show ?case
  proof (cases "v \<le> 0x7F")
    case True
    then show ?thesis using "1.prems" by (simp add: varint_code.simps [of v])
  next
    case False
    have lt: "unat v < 2 ^ (7 * n)" using "1.prems" by simp
    have big: "128 \<le> unat v" using False by (simp add: word_le_nat_alt)
    have n: "1 < n"
    proof (rule ccontr)
      assume "\<not> 1 < n"
      with "1.prems" have "n = 1" by simp
      with lt big show False by simp
    qed
    then obtain m where m: "n = Suc m" "0 < m" by (cases n) auto
    have "unat (drop_bit 7 v) < 2 ^ (7 * m)"
      using lt m by (simp only: unat_drop_bit) (simp add: power_add less_mult_imp_div_less)
    from "1.IH" [OF False this] m "1.prems" show ?thesis
      using False by (simp add: varint_code.simps [of v])
  qed
qed

lemma length_varint_code_le: "length (varint_code v) \<le> 10"
  using length_varint_code_bound [of v 10] unat_less [of v] by simp

lemma length_varint_loop_le: "length (varint_loop v) \<le> 10"
proof (cases "v = 0")
  case True
  then show ?thesis by (simp add: varint_loop.simps [of 0])
next
  case False
  then have "length (varint_loop v) = length (varint_code v)"
    by (metis length_mask_last mask_last_varint_loop varint_loop_Nil)
  then show ?thesis using length_varint_code_le [of v] by simp
qed

named_theorems emits_intros \<open>the byte string of each encoder\<close>

lemma pb_encode_varint_emits [emits_intros]: "emits (pb_encode_varint v) (varint_code v)"
proof (cases "v \<le> 0x7F")
  case True
  then show ?thesis
    using pb_write_emits [of "[ucast v]"] by (simp add: pb_encode_varint_def varint_code.simps [of v])
next
  case False
  then have "v \<noteq> 0" by auto
  then have "length (varint_loop v) = length (varint_code v)"
    by (metis length_mask_last mask_last_varint_loop varint_loop_Nil)
  then show ?thesis using False \<open>v \<noteq> 0\<close> pb_write_emits [of "varint_code v"]
      length_varint_code_le [of v]
    by (simp add: pb_encode_varint_def Let_def mask_last_varint_loop)
qed

lemma pb_encode_svarint_emits [emits_intros]:
  "emits (pb_encode_svarint v) (varint_code (zigzag v))"
  by (simp add: pb_encode_svarint_def pb_encode_varint_emits)

lemma fixed32_bytes:
  "[ucast (v AND 0xFF), ucast (drop_bit 8 v AND 0xFF), ucast (drop_bit 16 v AND 0xFF),
    ucast (drop_bit 24 v AND 0xFF)] = le_bytes 4 (v :: u32)"
proof -
  have m: "ucast (w AND 0xFF) = (ucast w :: byte)" for w :: u32
    by (rule bit_word_eqI) (auto simp: bit_simps)
  show ?thesis by (simp only: m) (simp add: le_bytes_def upt_rec)
qed

lemma fixed64_bytes:
  "[ucast (v AND 0xFF), ucast (drop_bit 8 v AND 0xFF), ucast (drop_bit 16 v AND 0xFF),
    ucast (drop_bit 24 v AND 0xFF), ucast (drop_bit 32 v AND 0xFF), ucast (drop_bit 40 v AND 0xFF),
    ucast (drop_bit 48 v AND 0xFF), ucast (drop_bit 56 v AND 0xFF)] = le_bytes 8 (v :: u64)"
proof -
  have m: "ucast (w AND 0xFF) = (ucast w :: byte)" for w :: u64
    by (rule bit_word_eqI) (auto simp: bit_simps)
  show ?thesis by (simp only: m) (simp add: le_bytes_def upt_rec)
qed

lemma pb_encode_fixed32_emits [emits_intros]: "emits (pb_encode_fixed32 v) (le_bytes 4 v)"
  using pb_write_emits [of "le_bytes 4 v"]
  by (simp only: pb_encode_fixed32_def fixed32_bytes) simp

lemma pb_encode_fixed64_emits [emits_intros]: "emits (pb_encode_fixed64 v) (le_bytes 8 v)"
  using pb_write_emits [of "le_bytes 8 v"]
  by (simp only: pb_encode_fixed64_def fixed64_bytes) simp

definition tag_code :: "pb_wire_type_t \<Rightarrow> u32 \<Rightarrow> byte list" where
  "tag_code wiretype field_number =
     varint_code (push_bit 3 (ucast field_number) OR ucast wiretype)"

lemma pb_encode_tag_emits [emits_intros]: "emits (pb_encode_tag wt n) (tag_code wt n)"
  by (simp add: pb_encode_tag_def tag_code_def pb_encode_varint_emits)

definition string_code :: "byte list \<Rightarrow> byte list" where
  "string_code bs = varint_code (of_nat (length bs)) @ bs"

lemma pb_encode_string_emits [emits_intros]:
  assumes "length bs < 2 ^ 64"
  shows "emits (pb_encode_string (Some bs) (of_nat (length bs))) (string_code bs)"
  unfolding pb_encode_string_def string_code_def
  by (intro emits_seq pb_encode_varint_emits pb_write_emits assms)

end
