(* ===== verification/Pb_Istream.thy ===== *)
theory Pb_Istream
  imports Pb_Types
begin

text \<open>
  The input side of nanopb below the message level (pb_decode.c): reading and skipping, the varint
  decoders, tags, skipping of unknown fields, and the substreams of length-delimited fields.
\<close>

section \<open>Reading\<close>

text \<open>
  \<open>buf_read\<close>: advance the state pointer, and copy the bytes unless the destination is null.  The
  result holds the bytes stored and the new state; reading past the end of the buffer is undefined.
\<close>

definition buf_read :: "bool \<Rightarrow> nat \<Rightarrow> byte list \<Rightarrow> (byte list \<times> byte list) option" where
  "buf_read want count src =
     (if count \<le> length src then Some (if want then take count src else [], drop count src)
      else None)"

definition pb_istream_from_buffer :: "byte list \<Rightarrow> nat \<Rightarrow> 's pb_istream_t" where
  "pb_istream_from_buffer buf bufsize =
     \<lparr>source = BufSource buf, bytes_left = bufsize, i_errmsg = None\<rparr>"

definition is_buf_read :: "'s pb_istream_t \<Rightarrow> bool" where
  "is_buf_read s \<longleftrightarrow> (case source s of BufSource _ \<Rightarrow> True | _ \<Rightarrow> False)"

text \<open>
  The call \<open>stream->callback(stream, buf, count)\<close>.  The result is the callback's boolean and the
  bytes stored in the destination.  A caller's callback that claims success must have stored
  \<open>count\<close> bytes: the code goes on to read all of them.
\<close>

definition istream_callback :: "bool \<Rightarrow> nat \<Rightarrow> (bool \<times> byte list, 's pb_istream_t) act" where
  "istream_callback want count = (\<lambda>s.
     case source s of
       BufSource src \<Rightarrow>
         (case buf_read want count src of
            None \<Rightarrow> (Ub, s)
          | Some (bs, src') \<Rightarrow> (Ok (True, bs), s\<lparr>source := BufSource src'\<rparr>))
     | UserSource f st \<Rightarrow>
         (case f st count of (ok, bs, st') \<Rightarrow>
            if ok \<and> length bs \<noteq> count then (Ub, s\<lparr>source := UserSource f st'\<rparr>)
            else (Ok (ok, bs), s\<lparr>source := UserSource f st'\<rparr>)))"

text \<open>
  The part of \<open>pb_read\<close> behind the skipping of input: the check of \<open>bytes_left\<close>, the callback, the
  update of \<open>bytes_left\<close>.  The boolean is the return value of the C function, the list the bytes
  stored in the destination (a failing callback may have stored some).
\<close>

definition pb_read_core :: "bool \<Rightarrow> nat \<Rightarrow> (bool \<times> byte list, 's pb_istream_t) act" where
  "pb_read_core want count = (\<lambda>s.
     if count = 0 then (Ok (True, []), s)
     else if bytes_left s < count
     then (Ok (False, []), s\<lparr>i_errmsg := set_error ''end-of-stream'' (i_errmsg s)\<rparr>)
     else seq (istream_callback want count) (\<lambda>(ok, bs).
            if ok then seq (update (\<lambda>s. s\<lparr>bytes_left := bytes_left s - count\<rparr>)) (\<lambda>_. ret (True, bs))
            else seq (update (\<lambda>s. s\<lparr>i_errmsg := set_error ''io error'' (i_errmsg s)\<rparr>))
                   (\<lambda>_. ret (False, bs))) s)"

text \<open>The loop that skips input of a caller's stream in blocks of 16 bytes.\<close>

fun pb_read_skip :: "nat \<Rightarrow> (bool \<times> byte list, 's pb_istream_t) act" where
  "pb_read_skip count =
     (if count > 16
      then seq (pb_read_core True 16) (\<lambda>(ok, bs).
             if ok then pb_read_skip (count - 16) else ret (False, []))
      else seq (pb_read_core True count) (\<lambda>(ok, bs). ret (ok, [])))"

declare pb_read_skip.simps [simp del]

definition pb_read_status :: "bool \<Rightarrow> nat \<Rightarrow> (bool \<times> byte list, 's pb_istream_t) act" where
  "pb_read_status want count = (\<lambda>s.
     if count = 0 then (Ok (True, []), s)
     else if \<not> want \<and> \<not> is_buf_read s then pb_read_skip count s
     else pb_read_core want count s)"

text \<open>
  \<open>pb_read\<close> as its callers use it: the bytes read, or failure.  The first argument says whether the
  destination is a buffer or a null pointer.
\<close>

definition pb_read :: "bool \<Rightarrow> nat \<Rightarrow> (byte list, 's pb_istream_t) act" where
  "pb_read want count =
     seq (pb_read_status want count) (\<lambda>(ok, bs). if ok then ret bs else fail)"

definition pb_readbyte :: "(byte, 's pb_istream_t) act" where
  "pb_readbyte = (\<lambda>s.
     if bytes_left s = 0 then i_error ''end-of-stream'' s
     else seq (istream_callback True 1) (\<lambda>(ok, bs).
            if ok then seq (update (\<lambda>s. s\<lparr>bytes_left := bytes_left s - 1\<rparr>)) (\<lambda>_. ret (hd bs))
            else i_error ''io error'') s)"

lemma pb_readbyte_decreases:
  "pb_readbyte s = (Ok b, t) \<Longrightarrow> bytes_left t < bytes_left s"
  by (auto simp: pb_readbyte_def i_error_def istream_callback_def seq_def update_def ret_def
      split: if_splits prod.splits isource.splits option.splits outcome.splits)

section \<open>Varints\<close>

text \<open>
  The do-while loop of \<open>pb_decode_varint32_eof\<close>.  \<open>bitpos\<close> is a \<open>uint_fast8_t\<close>, eight bits wide on
  the platforms the project builds for, and its addition wraps.  The result holds the value, the
  position after the last byte and the last byte.
\<close>

function varint32_loop :: "8 word \<Rightarrow> u32 \<Rightarrow> (u32 \<times> 8 word \<times> byte, 's pb_istream_t) act" where
  "varint32_loop bitpos result s =
     (case pb_readbyte s of
        (Ok b, s') \<Rightarrow>
          if bitpos \<ge> 32 \<and> b AND 0x7F \<noteq> 0 \<and>
             (drop_bit 31 result = 0 \<or> b \<noteq> (if bitpos < 63 then 0xFF else 0x01))
          then i_error ''varint overflow'' s'
          else
            (let result' = (if bitpos \<ge> 32 then result
                            else result OR push_bit (unat bitpos) (ucast (b AND 0x7F)));
                 bitpos' = bitpos + 7
             in if b AND 0x80 \<noteq> 0 then varint32_loop bitpos' result' s'
                else (Ok (result', bitpos', b), s'))
      | (Fail, s') \<Rightarrow> (Fail, s')
      | (Ub, s') \<Rightarrow> (Ub, s')
      | (NoFuel, s') \<Rightarrow> (NoFuel, s'))"
  by pat_completeness auto
termination
  by (relation "measure (\<lambda>(_, _, s). bytes_left s)")
    (auto dest: pb_readbyte_decreases [OF sym])

declare varint32_loop.simps [simp del]

text \<open>
  \<open>pb_decode_varint32_eof\<close> returns a boolean, stores the value, and sets \<open>*eof\<close> when the stream was
  at its end; the result is the optional value and the new value of the flag.
\<close>

definition pb_decode_varint32_eof :: "(u32 option \<times> bool, 's pb_istream_t) act" where
  "pb_decode_varint32_eof = (\<lambda>s.
     case pb_readbyte s of
       (Ok b, s') \<Rightarrow>
         if b AND 0x80 = 0 then (Ok (Some (ucast b), False), s')
         else
           (case varint32_loop 7 (ucast (b AND 0x7F)) s' of
              (Ok (result, bitpos, b'), s'') \<Rightarrow>
                if bitpos = 35 \<and> b' AND 0x70 \<noteq> 0
                then (Ok (None, False), s''\<lparr>i_errmsg := set_error ''varint overflow'' (i_errmsg s'')\<rparr>)
                else (Ok (Some result, False), s'')
            | (Fail, s'') \<Rightarrow> (Ok (None, False), s'')
            | (Ub, s'') \<Rightarrow> (Ub, s'')
            | (NoFuel, s'') \<Rightarrow> (NoFuel, s''))
     | (Fail, s') \<Rightarrow> (Ok (None, bytes_left s' = 0), s')
     | (Ub, s') \<Rightarrow> (Ub, s')
     | (NoFuel, s') \<Rightarrow> (NoFuel, s'))"

definition pb_decode_varint32 :: "(u32, 's pb_istream_t) act" where
  "pb_decode_varint32 = seq pb_decode_varint32_eof
     (\<lambda>(v, _). case v of None \<Rightarrow> fail | Some result \<Rightarrow> ret result)"

text \<open>The do-while loop of \<open>pb_decode_varint\<close>.\<close>

function varint_dec_loop :: "8 word \<Rightarrow> u64 \<Rightarrow> (u64, 's pb_istream_t) act" where
  "varint_dec_loop bitpos result s =
     (if bitpos \<ge> 64 then i_error ''varint overflow'' s
      else case pb_readbyte s of
        (Ok b, s') \<Rightarrow>
          (let result' = result OR push_bit (unat bitpos) (ucast (b AND 0x7F)); bitpos' = bitpos + 7
           in if b AND 0x80 \<noteq> 0 then varint_dec_loop bitpos' result' s' else (Ok result', s'))
      | (Fail, s') \<Rightarrow> (Fail, s')
      | (Ub, s') \<Rightarrow> (Ub, s')
      | (NoFuel, s') \<Rightarrow> (NoFuel, s'))"
  by pat_completeness auto
termination
  by (relation "measure (\<lambda>(_, _, s). bytes_left s)")
    (auto dest: pb_readbyte_decreases [OF sym])

declare varint_dec_loop.simps [simp del]

definition pb_decode_varint :: "(u64, 's pb_istream_t) act" where
  "pb_decode_varint = varint_dec_loop 0 0"

definition pb_decode_svarint :: "(u64, 's pb_istream_t) act" where
  "pb_decode_svarint = seq pb_decode_varint (\<lambda>v.
     ret (if v AND 1 \<noteq> 0 then NOT (drop_bit 1 v) else drop_bit 1 v))"

section \<open>Fixed-width integers\<close>

definition pb_decode_fixed32 :: "(u32, 's pb_istream_t) act" where
  "pb_decode_fixed32 = seq (pb_read True 4) (\<lambda>bytes. ret
     (push_bit 0 (ucast (bytes ! 0)) OR push_bit 8 (ucast (bytes ! 1)) OR
      push_bit 16 (ucast (bytes ! 2)) OR push_bit 24 (ucast (bytes ! 3))))"

definition pb_decode_fixed64 :: "(u64, 's pb_istream_t) act" where
  "pb_decode_fixed64 = seq (pb_read True 8) (\<lambda>bytes. ret
     (push_bit 0 (ucast (bytes ! 0)) OR push_bit 8 (ucast (bytes ! 1)) OR
      push_bit 16 (ucast (bytes ! 2)) OR push_bit 24 (ucast (bytes ! 3)) OR
      push_bit 32 (ucast (bytes ! 4)) OR push_bit 40 (ucast (bytes ! 5)) OR
      push_bit 48 (ucast (bytes ! 6)) OR push_bit 56 (ucast (bytes ! 7))))"

section \<open>Tags and unknown fields\<close>

lemma pb_read_core_left:
  "pb_read_core want count s = (Ok (True, bs), t) \<Longrightarrow> bytes_left t = bytes_left s - count"
  by (auto simp: pb_read_core_def istream_callback_def seq_def update_def ret_def
      split: if_splits prod.splits isource.splits option.splits outcome.splits)

lemma pb_read_True_left:
  "pb_read True count s = (Ok bs, t) \<Longrightarrow> bytes_left t = bytes_left s - count \<and> count \<le> bytes_left s"
  by (auto simp: pb_read_def pb_read_status_def pb_read_core_def istream_callback_def seq_def
      update_def ret_def fail_def
      split: if_splits prod.splits isource.splits option.splits outcome.splits)

function pb_skip_varint :: "(unit, 's pb_istream_t) act" where
  "pb_skip_varint s =
     (case pb_read True 1 s of
        (Ok bs, s') \<Rightarrow> if hd bs AND 0x80 \<noteq> 0 then pb_skip_varint s' else (Ok (), s')
      | (Fail, s') \<Rightarrow> (Fail, s')
      | (Ub, s') \<Rightarrow> (Ub, s')
      | (NoFuel, s') \<Rightarrow> (NoFuel, s'))"
  by pat_completeness auto
termination
  by (relation "measure bytes_left") (auto dest: pb_read_True_left [OF sym])

declare pb_skip_varint.simps [simp del]

definition pb_skip_string :: "(unit, 's pb_istream_t) act" where
  "pb_skip_string = seq pb_decode_varint32 (\<lambda>len. seq (pb_read False (unat len)) (\<lambda>_. ret ()))"

text \<open>
  \<open>pb_decode_tag\<close>: the optional pair of wire type and tag, and the \<open>eof\<close> flag, which is also set
  by a zero tag.
\<close>

definition pb_decode_tag :: "((pb_wire_type_t \<times> u32) option \<times> bool, 's pb_istream_t) act" where
  "pb_decode_tag = seq pb_decode_varint32_eof (\<lambda>(v, eof).
     case v of
       None \<Rightarrow> ret (None, eof)
     | Some temp \<Rightarrow>
         if temp = 0 then ret (None, True)
         else ret (Some (temp AND 7, drop_bit 3 temp), eof))"

definition pb_skip_field :: "pb_wire_type_t \<Rightarrow> (unit, 's pb_istream_t) act" where
  "pb_skip_field wire_type =
     (if wire_type = PB_WT_VARINT then pb_skip_varint
      else if wire_type = PB_WT_64BIT then seq (pb_read False 8) (\<lambda>_. ret ())
      else if wire_type = PB_WT_STRING then pb_skip_string
      else if wire_type = PB_WT_32BIT then seq (pb_read False 4) (\<lambda>_. ret ())
      else i_error ''invalid wire_type'')"

text \<open>
  \<open>read_raw_value\<close>: the raw bytes of a scalar, for a callback; \<open>max_size\<close> is the size of the caller's
  buffer on entry and the length of the result the size on return.  The loop of the varint case
  stops with failure, and no message, when the buffer is full.
\<close>

fun raw_varint_loop :: "nat \<Rightarrow> byte list \<Rightarrow> (byte list, 's pb_istream_t) act" where
  "raw_varint_loop 0 buf = fail"
| "raw_varint_loop (Suc space) buf = seq (pb_read True 1) (\<lambda>bs.
     if hd bs AND 0x80 \<noteq> 0 then raw_varint_loop space (buf @ bs) else ret (buf @ bs))"

definition read_raw_value :: "pb_wire_type_t \<Rightarrow> nat \<Rightarrow> (byte list, 's pb_istream_t) act" where
  "read_raw_value wire_type max_sz =
     (if wire_type = PB_WT_VARINT then raw_varint_loop max_sz []
      else if wire_type = PB_WT_64BIT then pb_read True 8
      else if wire_type = PB_WT_32BIT then pb_read True 4
      else i_error ''invalid wire_type'')"

section \<open>Substreams\<close>

definition pb_make_string_substream :: "('s pb_istream_t, 's pb_istream_t) act" where
  "pb_make_string_substream = seq pb_decode_varint32 (\<lambda>size. \<lambda>s.
     if bytes_left s < unat size then i_error ''parent stream too short'' s
     else (Ok (s\<lparr>bytes_left := unat size\<rparr>), s\<lparr>bytes_left := bytes_left s - unat size\<rparr>))"

text \<open>
  \<open>pb_close_string_substream\<close>: what is left of the substream is skipped, then the parent takes over
  the substream's state and message.
\<close>

definition pb_close_string_substream :: "'s pb_istream_t \<Rightarrow> (unit, 's pb_istream_t) act" where
  "pb_close_string_substream substream = (\<lambda>s.
     let (r, sub) = (if bytes_left substream \<noteq> 0
                     then pb_read False (bytes_left substream) substream
                     else (Ok [], substream))
     in case r of
          Ok _ \<Rightarrow> (Ok (), s\<lparr>source := source sub, i_errmsg := i_errmsg sub\<rparr>)
        | Fail \<Rightarrow> (Fail, s)
        | Ub \<Rightarrow> (Ub, s)
        | NoFuel \<Rightarrow> (NoFuel, s))"

section \<open>The bytes a decoder consumes\<close>

text \<open>
  \<open>parses m bs x\<close>: on a memory-buffer stream whose next bytes are \<open>bs\<close>, the call \<open>m\<close> succeeds with
  result \<open>x\<close> and consumes exactly \<open>bs\<close>.  It composes along sequencing.
\<close>

abbreviation istream_at :: "byte list \<Rightarrow> nat \<Rightarrow> string option \<Rightarrow> 's pb_istream_t" where
  "istream_at bs n e \<equiv> \<lparr>source = BufSource bs, bytes_left = n, i_errmsg = e\<rparr>"

definition parses :: "('a, 's pb_istream_t) act \<Rightarrow> byte list \<Rightarrow> 'a \<Rightarrow> bool" where
  "parses m bs x \<longleftrightarrow> (\<forall>rest n e. length bs \<le> n \<longrightarrow>
     m (istream_at (bs @ rest) n e) = (Ok x, istream_at rest (n - length bs) e))"

named_theorems parses_intros \<open>the bytes each decoder consumes\<close>

lemma parsesD:
  "parses m bs x \<Longrightarrow> length bs \<le> n \<Longrightarrow>
   m (istream_at (bs @ rest) n e) = (Ok x, istream_at rest (n - length bs) e)"
  by (simp add: parses_def)

lemma parses_ret [parses_intros]: "parses (ret x) [] x"
  by (simp add: parses_def act_simps)

lemma parses_seq:
  assumes "parses m as x" "parses (f x) bs y"
  shows "parses (seq m f) (as @ bs) y"
  using assms by (auto simp: parses_def seq_def)

lemma parses_seq_ret:
  assumes "parses m as x" "f x = ret y"
  shows "parses (seq m f) as y"
  using parses_seq [OF assms(1), of f "[]" y] assms(2) by (simp add: parses_ret)

lemma pb_readbyte_step [simp]:
  "0 < n \<Longrightarrow> pb_readbyte (istream_at (b # bs) n e) = (Ok b, istream_at bs (n - 1) e)"
  by (simp add: pb_readbyte_def istream_callback_def buf_read_def seq_def update_def ret_def)

lemma pb_readbyte_end [simp]:
  "pb_readbyte (istream_at bs 0 e) = (Fail, istream_at bs 0 (set_error ''end-of-stream'' e))"
  by (simp add: pb_readbyte_def i_error_def)

lemma pb_read_parses [parses_intros]:
  "parses (pb_read want (length bs)) bs (if want then bs else [])"
  by (auto simp: parses_def pb_read_def pb_read_status_def pb_read_core_def istream_callback_def
      buf_read_def is_buf_read_def seq_def update_def ret_def)

lemma pb_read_parses_n:
  "length bs = n \<Longrightarrow> parses (pb_read want n) bs (if want then bs else [])"
  using pb_read_parses [of want bs] by simp

end
