(* ===== verification/Pb_Varint.thy ===== *)
theory Pb_Varint
  imports Pb_Ostream Pb_Istream
begin

text \<open>
  The varint codec of nanopb: what the encoder of pb_encode.c writes, the decoders of pb_decode.c
  read back.  The 64-bit decoder inverts the encoder on every value; the 32-bit decoder inverts it
  on the values of 32 bits and on sign-extended negative ones.
\<close>

lemma small_byte:
  fixes v :: u64
  assumes "v \<le> 0x7F"
  shows "(ucast v :: byte) AND 0x80 = 0" "(ucast v :: byte) AND 0x7F = ucast v"
    "(ucast (ucast v :: byte) :: u64) = v" "(ucast (ucast v :: byte) :: u32) = ucast v"
proof -
  have "bit (v AND 0x7F) n \<Longrightarrow> n < 7" for n by (simp add: bit_simps)
  then have b: "bit v n \<Longrightarrow> n < 7" for n using and_7F_small [OF assms] by simp
  show "(ucast v :: byte) AND 0x80 = 0" "(ucast v :: byte) AND 0x7F = ucast v"
    "(ucast (ucast v :: byte) :: u64) = v" "(ucast (ucast v :: byte) :: u32) = ucast v"
    by (rule bit_word_eqI, auto simp: bit_simps dest: b)+
qed

lemma push_split:
  "push_bit n (v AND 0x7F) OR push_bit (n + 7) (drop_bit 7 v) = push_bit n (v :: u64)"
proof -
  have "push_bit n (v AND 0x7F OR push_bit 7 (drop_bit 7 v)) = push_bit n v"
    by (simp only: split_low7)
  then show ?thesis by (simp add: push_bit_or add.commute)
qed

lemma unat_bitpos_step:
  "unat bp + 7 < 256 \<Longrightarrow> unat (bp + 7 :: 8 word) = unat bp + 7"
  by (subst unat_add_lem [THEN iffD1]) simp_all

lemma unat_shift7:
  "unat (drop_bit 7 v) * 2 ^ (k + 7) \<le> unat (v :: u64) * 2 ^ k"
  by (simp only: unat_drop_bit) (simp add: power_add mult.commute)

lemma shift_room:
  assumes "\<not> v \<le> (0x7F :: u64)" "unat v * 2 ^ k < 2 ^ m"
  shows "k + 7 < m"
proof -
  have "128 * 2 ^ k \<le> unat v * 2 ^ k" using assms(1) by (simp add: word_le_nat_alt)
  from le_less_trans [OF this assms(2)] have "(2 :: nat) ^ (7 + k) < 2 ^ m" by (simp add: power_add)
  then show ?thesis by (simp add: add.commute)
qed

section \<open>The 64-bit decoder\<close>

lemma varint_dec_loop_parses:
  assumes "unat bp < 64" "unat v * 2 ^ unat bp < 2 ^ 64"
  shows "parses (varint_dec_loop bp r :: (u64, 's pb_istream_t) act) (varint_code v) (r OR push_bit (unat bp) v)"
  using assms
proof (induction v arbitrary: bp r rule: varint_code.induct)
  case (1 v)
  have bp: "\<not> 64 \<le> bp" using "1.prems" by (simp add: word_le_nat_alt)
  show ?case
  proof (cases "v \<le> 0x7F")
    case True
    then show ?thesis using bp small_byte [OF True]
      by (simp add: parses_def varint_code.simps [of v] varint_dec_loop.simps [of bp])
  next
    case False
    let ?b = "ucast (v AND 0x7F) OR 0x80 :: byte"
    note room = shift_room [OF False "1.prems"(2)]
    have bp7: "unat (bp + 7) = unat bp + 7" using room by (intro unat_bitpos_step) simp
    have "parses (varint_dec_loop (bp + 7) (r OR push_bit (unat bp) (v AND 0x7F))
          :: (u64, 's pb_istream_t) act)
        (varint_code (drop_bit 7 v))
        ((r OR push_bit (unat bp) (v AND 0x7F)) OR push_bit (unat (bp + 7)) (drop_bit 7 v))"
      by (rule "1.IH" [OF False])
        (use room bp7 unat_shift7 [of v "unat bp"] "1.prems"(2) in simp_all)
    then have IH: "parses (varint_dec_loop (bp + 7) (r OR push_bit (unat bp) (v AND 0x7F))
          :: (u64, 's pb_istream_t) act)
        (varint_code (drop_bit 7 v)) (r OR push_bit (unat bp) v)"
      by (simp only: bp7 or.assoc push_split)
    show ?thesis using bp parsesD [OF IH] False
      by (simp add: parses_def varint_code.simps [of v] varint_dec_loop.simps [of bp]
          code_byte_bits Let_def)
  qed
qed

lemma pb_decode_varint_parses [parses_intros]: "parses pb_decode_varint (varint_code v) v"
  using varint_dec_loop_parses [of 0 v 0] unat_less [of v] by (simp add: pb_decode_varint_def)

section \<open>The 32-bit decoder\<close>

lemma drop_bit_31: "drop_bit 31 (r :: u32) = 0 \<longleftrightarrow> \<not> bit r 31"
proof
  assume "drop_bit 31 r = 0"
  then have "\<not> bit (drop_bit 31 r) 0" by simp
  then show "\<not> bit r 31" by (simp add: bit_simps)
next
  assume r: "\<not> bit r 31"
  have "\<not> bit r (n + 31)" for n
    using r bit_imp_le_length [of r "n + 31"] by (cases n) auto
  then show "drop_bit 31 r = 0" by (auto simp: bit_eq_iff bit_simps add.commute)
qed

text \<open>The loop on one more byte of a code: a continuation byte and a last byte.\<close>

definition group_ok :: "8 word \<Rightarrow> u32 \<Rightarrow> byte \<Rightarrow> bool" where
  "group_ok bp r b \<longleftrightarrow> bp < 32 \<or> b AND 0x7F = 0 \<or>
     (bit r 31 \<and> b = (if bp < 63 then 0xFF else 0x01))"

definition group_add :: "8 word \<Rightarrow> u32 \<Rightarrow> byte \<Rightarrow> u32" where
  "group_add bp r b = (if 32 \<le> bp then r else r OR push_bit (unat bp) (ucast (b AND 0x7F)))"

lemma varint32_loop_step:
  assumes "0 < n"
  shows "varint32_loop bp r (istream_at (b # bs) n e) =
     (if group_ok bp r b
      then (if b AND 0x80 \<noteq> 0 then varint32_loop (bp + 7) (group_add bp r b) (istream_at bs (n - 1) e)
            else (Ok (group_add bp r b, bp + 7, b), istream_at bs (n - 1) e))
      else (Fail, istream_at bs (n - 1) (set_error ''varint overflow'' e)))"
  using assms
  by (subst varint32_loop.simps)
    (auto simp: group_ok_def group_add_def drop_bit_31 Let_def i_error_def not_le)

lemma varint32_high_fail:
  assumes "bp \<in> {35, 42, 49, 56, 63}" "v \<noteq> 0" "unat v * 2 ^ unat bp < 2 ^ 63"
    "length (varint_code v) \<le> n"
  shows "fst (varint32_loop bp r (istream_at (varint_code v @ rest) n e)) = Fail"
  using assms
proof (induction v arbitrary: bp r n rule: varint_code.induct)
  case (1 v)
  have n: "0 < n" using "1.prems"(4) by (cases n) auto
  show ?case
  proof (cases "v \<le> 0x7F")
    case True
    have ne: "bp \<noteq> 63" using "1.prems"(2,3) by (auto simp: unat_eq_zero)
    have "(ucast v :: byte) \<noteq> 0"
      using "1.prems"(2) small_byte(3) [OF True] by (metis unsigned_0)
    moreover have "(ucast v :: byte) \<noteq> 0xFF"
    proof
      assume "(ucast v :: byte) = 0xFF"
      then have "(ucast v :: byte) AND 0x80 \<noteq> 0" by simp
      then show False using small_byte(1) [OF True] by simp
    qed
    ultimately have "\<not> group_ok bp r (ucast v)"
      using "1.prems"(1) ne small_byte(2) [OF True] by (auto simp: group_ok_def)
    then show ?thesis using n True by (simp add: varint_code.simps [of v] varint32_loop_step)
  next
    case False
    let ?b = "ucast (v AND 0x7F) OR 0x80 :: byte"
    have room: "unat bp + 7 < 63" using shift_room [OF False "1.prems"(3)] .
    then have bp': "bp + 7 \<in> {35, 42, 49, 56, 63}" using "1.prems"(1) by auto
    have "unat (bp + 7) = unat bp + 7" using room by (intro unat_bitpos_step) simp
    then have lt: "unat (drop_bit 7 v) * 2 ^ unat (bp + 7) < 2 ^ 63"
      using unat_shift7 [of v "unat bp"] "1.prems"(3) by simp
    have len: "length (varint_code (drop_bit 7 v)) \<le> n - 1"
      using "1.prems"(4) False by (simp add: varint_code.simps [of v])
    have "drop_bit 7 v \<noteq> 0" using False by (simp add: drop_bit_7_eq_0)
    from "1.IH" [OF False bp' this lt len] n False show ?thesis
      by (simp add: varint_code.simps [of v] varint32_loop_step code_byte_bits)
  qed
qed

lemma varint32_high_sign:
  assumes "bp \<in> {35, 42, 49, 56, 63}" "bit r 31" "unat v = 2 ^ (64 - unat bp) - 1"
    "length (varint_code v) \<le> n"
  shows "varint32_loop bp r (istream_at (varint_code v @ rest) n e) =
    (Ok (r, 70, 1), istream_at rest (n - length (varint_code v)) e)"
  using assms
proof (induction v arbitrary: bp n rule: varint_code.induct)
  case (1 v)
  have n: "0 < n" using "1.prems"(4) by (cases n) auto
  show ?case
  proof (cases "bp = 63")
    case True
    then have v: "v = 1" using "1.prems"(3) by (intro word_unat_eq_iff [THEN iffD2]) simp
    have "varint_code 1 = [1]" by (subst varint_code.simps) simp
    then show ?thesis using n True v "1.prems"(2)
      by (simp add: varint32_loop_step group_ok_def group_add_def)
  next
    case False
    have bp: "unat bp \<in> {35, 42, 49, 56}" and bp': "bp + 7 \<in> {35, 42, 49, 56, 63}"
      and bp7: "unat (bp + 7) = unat bp + 7"
      using "1.prems"(1) False by auto
    have big: "\<not> v \<le> 0x7F" using bp "1.prems"(3) by (auto simp: word_le_nat_alt)
    have ones: "v AND 0x7F = 0x7F"
    proof -
      have "unat (take_bit 7 v) = unat v mod 128"
        by (simp add: take_bit_eq_mod unat_mod)
      also have "\<dots> = 127" using bp "1.prems"(3) by auto
      finally have "unat (take_bit 7 v) = unat (0x7F :: u64)" by simp
      then have "take_bit 7 v = 0x7F" by (simp only: word_unat_eq_iff)
      then show ?thesis by (simp add: take_bit_eq_mask mask_numeral)
    qed
    have v': "unat (drop_bit 7 v) = 2 ^ (64 - unat (bp + 7)) - 1"
      using bp "1.prems"(3) by (auto simp only: unat_drop_bit bp7) simp_all
    have len: "length (varint_code (drop_bit 7 v)) \<le> n - 1"
      using "1.prems"(4) big by (simp add: varint_code.simps [of v])
    have "varint_code v = 0xFF # varint_code (drop_bit 7 v)"
      using big ones by (simp add: varint_code.simps [of v])
    then show ?thesis using "1.IH" [OF big bp' "1.prems"(2) v' len] n False "1.prems"(1,2)
      by (auto simp add: varint32_loop_step group_ok_def group_add_def)
  qed
qed

text \<open>The first five groups: a value of 32 bits, a larger one, a sign-extended one.\<close>

lemma ucast_push_split:
  "push_bit n (ucast v AND 0x7F) OR push_bit (n + 7) (ucast (drop_bit 7 v)) =
   push_bit n (ucast (v :: u64) :: u32)"
proof -
  have "push_bit n (ucast (v AND 0x7F OR push_bit 7 (drop_bit 7 v)) :: u32) = push_bit n (ucast v)"
    by (simp only: split_low7)
  moreover have "ucast (v AND 0x7F OR push_bit 7 (drop_bit 7 v)) =
      (ucast v AND 0x7F OR push_bit 7 (ucast (drop_bit 7 v)) :: u32)"
    by (rule bit_word_eqI) (auto simp: bit_simps)
  ultimately show ?thesis by (simp add: push_bit_or add.commute)
qed

lemma low_bitpos:
  assumes "bp \<in> {7, 14, 21, 28 :: 8 word}"
  shows "bp < 32" "unat (bp + 7) = unat bp + 7" "unat bp \<in> {7, 14, 21, 28}"
  using assms by auto

lemma varint32_low_ok:
  assumes "bp \<in> {7, 14, 21, 28}" "unat v * 2 ^ unat bp < 2 ^ 32" "length (varint_code v) \<le> n"
  shows "\<exists>bp' b. varint32_loop bp r (istream_at (varint_code v @ rest) n e :: 's pb_istream_t) =
      (Ok (r OR push_bit (unat bp) (ucast v), bp', b), istream_at rest (n - length (varint_code v)) e)
    \<and> (bp' = 35 \<longrightarrow> b AND 0x70 = 0)"
  using assms
proof (induction v arbitrary: bp r n rule: varint_code.induct)
  case (1 v)
  note bp = low_bitpos [OF "1.prems"(1)]
  have n: "0 < n" using "1.prems"(3) by (cases n) auto
  show ?case
  proof (cases "v \<le> 0x7F")
    case True
    have "bp + 7 = 35 \<longrightarrow> (ucast v :: byte) AND 0x70 = 0"
    proof
      assume "bp + 7 = 35"
      then have "bp = 28" using "1.prems"(1) by auto
      then have "unat v < 2 ^ 4" using "1.prems"(2) by simp
      then have "take_bit 4 v = v" by (rule take_bit_unat_self)
      then have "\<not> bit v k" if "4 \<le> k" for k using that by (metis bit_take_bit_iff not_le)
      then show "(ucast v :: byte) AND 0x70 = 0" by (auto simp: bit_eq_iff bit_simps)
    qed
    then show ?thesis using n bp True small_byte [OF True]
      by (simp add: varint_code.simps [of v] varint32_loop_step group_ok_def group_add_def
          not_le linorder_not_less [symmetric])
  next
    case False
    have room: "unat bp + 7 < 32" using shift_room [OF False "1.prems"(2)] .
    then have bp': "bp + 7 \<in> {7, 14, 21, 28}" using "1.prems"(1) by auto
    have lt: "unat (drop_bit 7 v) * 2 ^ unat (bp + 7) < 2 ^ 32"
      using unat_shift7 [of v "unat bp"] "1.prems"(2) bp(2) by simp
    have len: "length (varint_code (drop_bit 7 v)) \<le> n - 1"
      using "1.prems"(3) False by (simp add: varint_code.simps [of v])
    let ?r = "r OR push_bit (unat bp) (ucast v AND 0x7F)"
    have res: "?r OR push_bit (unat (bp + 7)) (ucast (drop_bit 7 v)) = r OR push_bit (unat bp) (ucast v)"
      by (simp only: bp(2) or.assoc ucast_push_split)
    have "\<not> 32 \<le> bp" using bp(1) by simp
    then show ?thesis using "1.IH" [OF False bp' lt len, of ?r] n False bp(1)
      unfolding res
      by (simp add: varint_code.simps [of v] varint32_loop_step group_ok_def group_add_def code_byte_bits)
  qed
qed

lemma varint32_low_fail:
  assumes "bp \<in> {7, 14, 21, 28}" "2 ^ 32 \<le> unat v * 2 ^ unat bp" "unat v * 2 ^ unat bp < 2 ^ 63"
    "length (varint_code v) \<le> n"
  shows "fst (varint32_loop bp r (istream_at (varint_code v @ rest) n e :: 's pb_istream_t)) = Fail \<or>
    (\<exists>r' b t. varint32_loop bp r (istream_at (varint_code v @ rest) n e :: 's pb_istream_t) =
       (Ok (r', 35, b), t) \<and> b AND 0x70 \<noteq> 0)"
  using assms
proof (induction v arbitrary: bp r n rule: varint_code.induct)
  case (1 v)
  note bp = low_bitpos [OF "1.prems"(1)]
  have n: "0 < n" using "1.prems"(4) by (cases n) auto
  show ?case
  proof (cases "v \<le> 0x7F")
    case True
    then have v: "unat v \<le> 127" by (simp add: word_le_nat_alt)
    have "bp = 28"
      using "1.prems"(1,2) v by auto
    then have "16 \<le> unat v" using "1.prems"(2) by simp
    have "(ucast v :: byte) AND 0x70 \<noteq> 0"
    proof
      assume z: "(ucast v :: byte) AND 0x70 = 0"
      have "\<not> bit v k" if "4 \<le> k" for k
      proof (cases "k < 7")
        case True
        then have "\<not> bit ((ucast v :: byte) AND 0x70) k" using z by simp
        then show ?thesis using True that by (simp add: bit_simps)
      next
        case False
        then show ?thesis using and_7F_small [OF \<open>v \<le> 0x7F\<close>]
          by (metis and.commute bit_and_iff bit_masks(1) bit_numeral_word_iff)
      qed
      then have lt4: "bit v k \<Longrightarrow> k < 4" for k by (meson not_le)
      have "take_bit 4 v = v" by (rule bit_word_eqI) (auto simp: bit_simps dest: lt4)
      then have "unat v < 2 ^ 4" by (metis take_bit_nat_less_exp unsigned_take_bit_eq)
      with \<open>16 \<le> unat v\<close> show False by simp
    qed
    then show ?thesis using n \<open>bp = 28\<close> True small_byte [OF True]
      by (simp add: varint_code.simps [of v] varint32_loop_step group_ok_def group_add_def)
  next
    case False
    let ?b = "ucast (v AND 0x7F) OR 0x80 :: byte"
    let ?r = "group_add bp r ?b"
    have step: "varint32_loop bp r (istream_at (varint_code v @ rest) n e :: 's pb_istream_t) =
      varint32_loop (bp + 7) ?r (istream_at (varint_code (drop_bit 7 v) @ rest) (n - 1) e)"
      using n False bp(1)
      by (simp add: varint_code.simps [of v] varint32_loop_step group_ok_def code_byte_bits)
    have len: "length (varint_code (drop_bit 7 v)) \<le> n - 1"
      using "1.prems"(4) False by (simp add: varint_code.simps [of v])
    have hi: "unat (drop_bit 7 v) * 2 ^ unat (bp + 7) < 2 ^ 63"
      using unat_shift7 [of v "unat bp"] "1.prems"(3) bp(2) by simp
    show ?thesis
    proof (cases "bp = 28")
      case True
      then have "fst (varint32_loop (bp + 7) ?r
          (istream_at (varint_code (drop_bit 7 v) @ rest) (n - 1) e :: 's pb_istream_t)) = Fail"
        using varint32_high_fail [of "bp + 7" "drop_bit 7 v"] hi len False
        by (simp add: drop_bit_7_eq_0)
      then show ?thesis by (simp only: step simp_thms)
    next
      case F: False
      then have bp': "bp + 7 \<in> {7, 14, 21, 28}" using "1.prems"(1) by auto
      have "2 ^ 32 \<le> unat (drop_bit 7 v) * 2 ^ unat (bp + 7)"
        using "1.prems"(1,2) F unfolding bp(2) unat_drop_bit by auto
      from "1.IH" [OF False bp' this hi len] show ?thesis by (simp only: step)
    qed
  qed
qed

lemma varint32_low_sign:
  assumes "bp \<in> {7, 14, 21, 28}"
    "2 ^ (64 - unat bp) - 2 ^ (31 - unat bp) \<le> unat v" "unat v < 2 ^ (64 - unat bp)"
    "length (varint_code v) \<le> n"
  shows "varint32_loop bp r (istream_at (varint_code v @ rest) n e :: 's pb_istream_t) =
      (Ok (r OR push_bit (unat bp) (ucast v), 70, 1), istream_at rest (n - length (varint_code v)) e)"
  using assms
proof (induction v arbitrary: bp r n rule: varint_code.induct)
  case (1 v)
  note bp = low_bitpos [OF "1.prems"(1)]
  have n: "0 < n" using "1.prems"(4) by (cases n) auto
  have big: "\<not> v \<le> 0x7F" using "1.prems"(1,2) by (auto simp: word_le_nat_alt)
  let ?r = "r OR push_bit (unat bp) (ucast v AND 0x7F)"
  have step: "varint32_loop bp r (istream_at (varint_code v @ rest) n e :: 's pb_istream_t) =
    varint32_loop (bp + 7) ?r (istream_at (varint_code (drop_bit 7 v) @ rest) (n - 1) e)"
    using n big bp(1)
    by (simp add: varint_code.simps [of v] varint32_loop_step group_ok_def group_add_def
        code_byte_bits)
  have len: "length (varint_code (drop_bit 7 v)) \<le> n - 1"
    "n - 1 - length (varint_code (drop_bit 7 v)) = n - length (varint_code v)"
    using "1.prems"(4) big by (simp_all add: varint_code.simps [of v])
  have res: "?r OR push_bit (unat (bp + 7)) (ucast (drop_bit 7 v)) = r OR push_bit (unat bp) (ucast v)"
    by (simp only: bp(2) or.assoc ucast_push_split)
  show ?case
  proof (cases "bp = 28")
    case True
    have v': "unat (drop_bit 7 v) = 2 ^ (64 - unat (bp + 7)) - 1"
      using "1.prems"(2,3) True unfolding unat_drop_bit by simp
    have "68719476728 \<le> unat v" "unat v < 68719476736" using "1.prems"(2,3) True by simp_all
    then have "8 \<le> unat v mod 16" by presburger
    then have "odd (unat v div 8)" by presburger
    then have "bit (unat v) 3" by (simp add: bit_iff_odd)
    then have "bit v 3" by (simp add: bit_unsigned_iff)
    then have b31: "bit ?r 31" using True by (auto simp: bit_simps)
    have "push_bit 28 (w AND 0x7F) = push_bit 28 w" for w :: u32
    proof (rule bit_word_eqI)
      show "bit (push_bit 28 (w AND 0x7F)) k \<longleftrightarrow> bit (push_bit 28 w) k" if "k < LENGTH(32)" for k
        using that by (simp only: bit_push_bit_iff bit_and_iff) (auto simp: bit_simps)
    qed
    then have same: "?r = r OR push_bit (unat bp) (ucast v)"
      using True by (simp del: push_bit_and)
    have bp7: "bp + 7 \<in> {35, 42, 49, 56, 63}" using True by simp
    show ?thesis
      by (simp only: step varint32_high_sign [OF bp7 b31 v' len(1)] len(2)) (simp only: same)
  next
    case False
    then have bp': "bp + 7 \<in> {7, 14, 21, 28}" using "1.prems"(1) by auto
    have "2 ^ (64 - unat (bp + 7)) - 2 ^ (31 - unat (bp + 7)) \<le> unat (drop_bit 7 v)"
      "unat (drop_bit 7 v) < 2 ^ (64 - unat (bp + 7))"
      using "1.prems"(1-3) False unfolding bp(2) unat_drop_bit by auto
    from "1.IH" [OF big bp' this len(1), of ?r] show ?thesis by (simp only: step res len(2))
  qed
qed

text \<open>The whole decoder on a code of the encoder.\<close>

lemma pb_decode_varint32_code:
  assumes "length (varint_code v) \<le> n"
  shows "unat v < 2 ^ 32 \<or> 2 ^ 64 - 2 ^ 31 \<le> unat v \<Longrightarrow>
      pb_decode_varint32 (istream_at (varint_code v @ rest) n e :: 's pb_istream_t) =
        (Ok (ucast v), istream_at rest (n - length (varint_code v)) e)"
    and "2 ^ 32 \<le> unat v \<Longrightarrow> unat v < 2 ^ 63 \<Longrightarrow>
      fst (pb_decode_varint32 (istream_at (varint_code v @ rest) n e :: 's pb_istream_t)) = Fail"
proof -
  have n: "0 < n" using assms by (cases n) auto
  let ?s = "istream_at (varint_code v @ rest) n e :: 's pb_istream_t"
  let ?v' = "drop_bit 7 v"
  let ?L = "varint32_loop 7 (ucast v AND 0x7F) (istream_at (varint_code ?v' @ rest) (n - 1) e :: 's pb_istream_t)"
  have eof: "pb_decode_varint32_eof ?s =
     (case ?L of
        (Ok (result, bitpos, b'), s'') \<Rightarrow>
          if bitpos = 35 \<and> b' AND 0x70 \<noteq> 0
          then (Ok (None, False), s''\<lparr>i_errmsg := set_error ''varint overflow'' (i_errmsg s'')\<rparr>)
          else (Ok (Some result, False), s'')
      | (Fail, s'') \<Rightarrow> (Ok (None, False), s'')
      | (Ub, s'') \<Rightarrow> (Ub, s'')
      | (NoFuel, s'') \<Rightarrow> (NoFuel, s''))" if "\<not> v \<le> 0x7F"
    using n that
    by (simp add: pb_decode_varint32_eof_def varint_code.simps [of v] code_byte_bits)
  have len: "length (varint_code ?v') \<le> n - 1"
    "n - Suc (length (varint_code ?v')) = n - length (varint_code v)" if "\<not> v \<le> 0x7F"
    using assms that by (simp_all add: varint_code.simps [of v])
  have res: "ucast v AND 0x7F OR push_bit 7 (ucast ?v') = (ucast v :: u32)"
    using ucast_push_split [of 0 v] by simp
  have v': "unat ?v' = unat v div 128" by (simp add: unat_drop_bit)
  show "pb_decode_varint32 ?s = (Ok (ucast v), istream_at rest (n - length (varint_code v)) e)"
    if ok: "unat v < 2 ^ 32 \<or> 2 ^ 64 - 2 ^ 31 \<le> unat v"
  proof (cases "v \<le> 0x7F")
    case True
    then show ?thesis using n small_byte [OF True]
      by (simp add: pb_decode_varint32_def pb_decode_varint32_eof_def varint_code.simps [of v]
          seq_def ret_def)
  next
    case False
    show ?thesis using ok
    proof
      assume "unat v < 2 ^ 32"
      then have "unat ?v' * 2 ^ unat (7 :: 8 word) < 2 ^ 32" using v' by simp
      from varint32_low_ok [of 7, OF _ this len(1) [OF False], of "ucast v AND 0x7F" rest e,
          where 's = 's] False
      show ?thesis
        by (auto simp add: pb_decode_varint32_def eof seq_def ret_def res len(2))
    next
      assume "2 ^ 64 - 2 ^ 31 \<le> unat v"
      then have "2 ^ (64 - unat (7 :: 8 word)) - 2 ^ (31 - unat (7 :: 8 word)) \<le> unat ?v'"
        "unat ?v' < 2 ^ (64 - unat (7 :: 8 word))"
        using v' unat_less [of v] by simp_all
      from varint32_low_sign [of 7, OF _ this len(1) [OF False], of "ucast v AND 0x7F" rest e,
          where 's = 's] False
      show ?thesis
        by (simp add: pb_decode_varint32_def eof seq_def ret_def res len(2))
    qed
  qed
  show "fst (pb_decode_varint32 ?s) = Fail" if lo: "2 ^ 32 \<le> unat v" and hi: "unat v < 2 ^ 63"
  proof -
    have big: "\<not> v \<le> 0x7F" using lo by (simp add: word_le_nat_alt)
    have "2 ^ 32 \<le> unat ?v' * 2 ^ unat (7 :: 8 word)" "unat ?v' * 2 ^ unat (7 :: 8 word) < 2 ^ 63"
      using lo hi v' by simp_all
    from varint32_low_fail [of 7, OF _ this len(1) [OF big], of "ucast v AND 0x7F" rest e,
          where 's = 's] big
    show ?thesis
      by (cases ?L) (auto simp add: pb_decode_varint32_def eof seq_def ret_def fail_def)
  qed
qed

text \<open>
  A code of ten bytes: the groups at the bit positions 35 to 56 must be all zeros or all ones, and bit 31
  must be set.  The decoder does not look at bits 32 to 34.
\<close>

primrec filled :: "nat \<Rightarrow> u64 \<Rightarrow> bool" where
  "filled 0 w \<longleftrightarrow> True"
| "filled (Suc m) w \<longleftrightarrow> w AND 0x7F \<in> {0, 0x7F} \<and> filled m (drop_bit 7 w)"

lemma varint32_loop_more:
  assumes "\<not> w \<le> 0x7F" "length (varint_code w) \<le> n"
  defines "b \<equiv> ucast (w AND 0x7F) OR 0x80 :: byte"
  shows "varint32_loop bp r (istream_at (varint_code w @ rest) n e :: 's pb_istream_t) =
    (if group_ok bp r b
     then varint32_loop (bp + 7) (group_add bp r b) (istream_at (varint_code (drop_bit 7 w) @ rest) (n - 1) e)
     else (Fail, istream_at (varint_code (drop_bit 7 w) @ rest) (n - 1) (set_error ''varint overflow'' e)))"
    "length (varint_code (drop_bit 7 w)) \<le> n - 1"
    "n - 1 - length (varint_code (drop_bit 7 w)) = n - length (varint_code w)"
proof -
  have code: "varint_code w = b # varint_code (drop_bit 7 w)"
    using assms(1) by (simp add: varint_code.simps [of w] b_def)
  have n: "0 < n" using assms(2) code by simp
  have b: "b AND 0x80 \<noteq> 0" by (simp add: b_def code_byte_bits)
  show "varint32_loop bp r (istream_at (varint_code w @ rest) n e :: 's pb_istream_t) =
    (if group_ok bp r b
     then varint32_loop (bp + 7) (group_add bp r b) (istream_at (varint_code (drop_bit 7 w) @ rest) (n - 1) e)
     else (Fail, istream_at (varint_code (drop_bit 7 w) @ rest) (n - 1) (set_error ''varint overflow'' e)))"
    unfolding code append_Cons varint32_loop_step [OF n] using b by simp
  show "length (varint_code (drop_bit 7 w)) \<le> n - 1"
    "n - 1 - length (varint_code (drop_bit 7 w)) = n - length (varint_code w)"
    using assms(2) by (simp_all add: code)
qed

lemma varint32_high_group:
  "(ucast (w AND 0x7F :: u64) OR 0x80 :: byte) AND 0x7F = 0 \<longleftrightarrow> w AND 0x7F = 0"
  "(ucast (w AND 0x7F :: u64) OR 0x80 :: byte) = 0xFF \<longleftrightarrow> w AND 0x7F = 0x7F"
proof -
  show "(ucast (w AND 0x7F) OR 0x80 :: byte) AND 0x7F = 0 \<longleftrightarrow> w AND 0x7F = 0"
  proof
    assume "(ucast (w AND 0x7F) OR 0x80 :: byte) AND 0x7F = 0"
    then have "(ucast ((ucast (w AND 0x7F) OR 0x80 :: byte) AND 0x7F) :: u64) = 0" by simp
    moreover have "(ucast ((ucast (w AND 0x7F) OR 0x80 :: byte) AND 0x7F) :: u64) = w AND 0x7F"
      by (rule bit_word_eqI) (auto simp: bit_simps)
    ultimately show "w AND 0x7F = 0" by simp
  qed simp
  show "(ucast (w AND 0x7F) OR 0x80 :: byte) = 0xFF \<longleftrightarrow> w AND 0x7F = 0x7F"
  proof
    assume "(ucast (w AND 0x7F) OR 0x80 :: byte) = 0xFF"
    then have "(ucast ((ucast (w AND 0x7F) OR 0x80 :: byte) AND 0x7F) :: u64) = 0x7F" by simp
    moreover have "(ucast ((ucast (w AND 0x7F) OR 0x80 :: byte) AND 0x7F) :: u64) = w AND 0x7F"
      by (rule bit_word_eqI) (auto simp: bit_simps)
    ultimately show "w AND 0x7F = 0x7F" by simp
  qed simp
qed

lemma varint32_high:
  assumes "m \<le> 4" "unat bp + 7 * m = 63" "2 ^ (7 * m) \<le> unat w" "unat w < 2 ^ (7 * m + 1)" "length (varint_code w) \<le> n"
  shows "bit r 31 \<and> filled m w \<Longrightarrow>
      varint32_loop bp r (istream_at (varint_code w @ rest) n e :: 's pb_istream_t) =
        (Ok (r, 70, 1), istream_at rest (n - length (varint_code w)) e)"
    and "\<not> (bit r 31 \<and> filled m w) \<Longrightarrow>
      fst (varint32_loop bp r (istream_at (varint_code w @ rest) n e :: 's pb_istream_t)) = Fail"
proof -
  let ?run = "\<lambda>m bp w n. varint32_loop bp r (istream_at (varint_code w @ rest) n e :: 's pb_istream_t)"
  have "(if bit r 31 \<and> filled m w then ?run m bp w n = (Ok (r, 70, 1), istream_at rest (n - length (varint_code w)) e)
      else fst (?run m bp w n) = Fail)"
    using assms
  proof (induction m arbitrary: bp w n)
    case 0
    then have "bp = 63" "w = 1" by (simp_all add: word_unat_eq_iff)
    moreover have "varint_code 1 = [1]" by (subst varint_code.simps) simp
    ultimately show ?case using 0 by (simp add: varint32_loop_step group_ok_def group_add_def)
  next
    case (Suc m)
    have "(128 :: nat) \<le> 2 ^ (7 * Suc m)" using power_increasing [of 7 "7 * Suc m" "2 :: nat"] by simp
    then have big: "\<not> w \<le> 0x7F" using Suc.prems(3) by (simp add: word_le_nat_alt)
    note more = varint32_loop_more [OF big Suc.prems(5)]
    have bp: "unat bp = 56 - 7 * m" using Suc.prems(2) by simp
    have bp7: "unat (bp + 7) = unat bp + 7" using bp by (intro unat_bitpos_step) simp
    have ge: "bp < 32 \<longleftrightarrow> False" "bp < 63" using bp Suc.prems(1) by (simp_all add: word_less_nat_alt)
    have "2 ^ (7 * m) \<le> unat (drop_bit 7 w)" "unat (drop_bit 7 w) < 2 ^ (7 * m + 1)"
      using Suc.prems(3,4) by (simp_all add: unat_drop_bit power_add)
    moreover have "m \<le> 4" "unat (bp + 7) + 7 * m = 63" using Suc.prems(1,2) bp7 by simp_all
    ultimately have IH: "if bit r 31 \<and> filled m (drop_bit 7 w)
        then ?run m (bp + 7) (drop_bit 7 w) (n - 1) = (Ok (r, 70, 1), istream_at rest (n - 1 - length (varint_code (drop_bit 7 w))) e)
        else fst (?run m (bp + 7) (drop_bit 7 w) (n - 1)) = Fail"
      using more(2) by (intro Suc.IH)
    have add: "group_add bp r b = r" for b using ge by (simp add: group_add_def not_less [symmetric])
    have ok: "group_ok bp r (ucast (w AND 0x7F) OR 0x80) \<longleftrightarrow> w AND 0x7F = 0 \<or> (bit r 31 \<and> w AND 0x7F = 0x7F)"
      unfolding group_ok_def varint32_high_group ge(1) using ge(2) by (simp add: varint32_high_group)
    show ?case
      unfolding more(1) add ok filled.simps
      using IH more(3) by (auto split: if_splits)
  qed
  then show "bit r 31 \<and> filled m w \<Longrightarrow> ?run m bp w n = (Ok (r, 70, 1), istream_at rest (n - length (varint_code w)) e)"
    and "\<not> (bit r 31 \<and> filled m w) \<Longrightarrow> fst (?run m bp w n) = Fail"
    by (simp_all split: if_splits)
qed

lemma push_28: "push_bit 28 (w AND 0x7F) = push_bit 28 w" for w :: u32
proof (rule bit_word_eqI)
  show "bit (push_bit 28 (w AND 0x7F)) k \<longleftrightarrow> bit (push_bit 28 w) k" if "k < LENGTH(32)" for k
    using that by (simp only: bit_push_bit_iff bit_and_iff) (auto simp: bit_simps)
qed

lemma varint32_low_ten:
  assumes "bp \<in> {7, 14, 21, 28}" "2 ^ (63 - unat bp) \<le> unat w" "unat w < 2 ^ (64 - unat bp)" "length (varint_code w) \<le> n"
  defines "acc \<equiv> \<lambda>r. bit (r OR push_bit (unat bp) (ucast w)) 31 \<and> filled 4 (drop_bit (35 - unat bp) w)"
  shows "if acc r
    then varint32_loop bp r (istream_at (varint_code w @ rest) n e :: 's pb_istream_t) =
      (Ok (r OR push_bit (unat bp) (ucast w), 70, 1), istream_at rest (n - length (varint_code w)) e)
    else fst (varint32_loop bp r (istream_at (varint_code w @ rest) n e :: 's pb_istream_t)) = Fail"
  using assms(1-4) unfolding acc_def
proof (induction w arbitrary: bp r n rule: varint_code.induct)
  case (1 v)
  note bp = low_bitpos [OF "1.prems"(1)]
  have big: "\<not> v \<le> 0x7F" using "1.prems"(1,2) by (auto simp: word_le_nat_alt)
  let ?r = "r OR push_bit (unat bp) (ucast v AND 0x7F)"
  note more = varint32_loop_more [OF big "1.prems"(4)]
  have b7: "(ucast ((ucast (v AND 0x7F) OR 0x80 :: byte) AND 0x7F) :: u32) = ucast v AND 0x7F"
    by (rule bit_word_eqI) (auto simp: bit_simps)
  have step: "varint32_loop bp r (istream_at (varint_code v @ rest) n e :: 's pb_istream_t) =
    varint32_loop (bp + 7) ?r (istream_at (varint_code (drop_bit 7 v) @ rest) (n - 1) e)"
    unfolding more(1) using bp(1) by (simp add: group_ok_def group_add_def b7 not_le)
  have res: "?r OR push_bit (unat (bp + 7)) (ucast (drop_bit 7 v)) = r OR push_bit (unat bp) (ucast v)"
    by (simp only: bp(2) or.assoc ucast_push_split)
  show ?case
  proof (cases "bp = 28")
    case True
    have same: "?r = r OR push_bit (unat bp) (ucast v)"
      using True push_28 [of "ucast v"] by (simp del: push_bit_and)
    have w: "2 ^ (7 * 4) \<le> unat (drop_bit 7 v)" "unat (drop_bit 7 v) < 2 ^ (7 * 4 + 1)" "unat (bp + 7) + 7 * 4 = 63"
      using "1.prems"(2,3) True by (simp_all add: unat_drop_bit)
    have d: "35 - unat bp = 7" using True by simp
    show ?thesis
      using varint32_high [OF order_refl w(3,1,2) more(2), of ?r rest e, where 's = 's]
      unfolding step more(3) d by (simp only: same) simp
  next
    case False
    then have bp': "bp + 7 \<in> {7, 14, 21, 28}" using "1.prems"(1) by auto
    have w: "2 ^ (63 - unat (bp + 7)) \<le> unat (drop_bit 7 v)" "unat (drop_bit 7 v) < 2 ^ (64 - unat (bp + 7))"
      using "1.prems"(1-3) False unfolding bp(2) unat_drop_bit by auto
    have "35 - unat bp = (35 - unat (bp + 7)) + 7" using bp' bp(2,3) by auto
    then have d: "drop_bit (35 - unat (bp + 7)) (drop_bit 7 v) = drop_bit (35 - unat bp) v" by simp
    from "1.IH" [OF big bp' w more(2), of ?r] show ?thesis by (simp only: step res more(3) d)
  qed
qed

text \<open>The values whose code the 32-bit decoder accepts.\<close>

definition varint32_accepts :: "u64 \<Rightarrow> bool" where
  "varint32_accepts v \<longleftrightarrow> unat v < 2 ^ 32 \<or>
     (2 ^ 63 \<le> unat v \<and> bit v 31 \<and> (\<forall>k \<in> {35, 42, 49, 56}. drop_bit k v AND 0x7F \<in> {0, 0x7F}))"

lemma filled_drop: "filled 4 (drop_bit 35 v) \<longleftrightarrow> (\<forall>k \<in> {35, 42, 49, 56}. drop_bit k v AND 0x7F \<in> {0, 0x7F})"
  by (simp add: numeral_eq_Suc)

lemma pb_decode_varint32_ten:
  assumes "length (varint_code v) \<le> n" "2 ^ 63 \<le> unat v"
  shows "if varint32_accepts v
    then pb_decode_varint32 (istream_at (varint_code v @ rest) n e :: 's pb_istream_t) =
        (Ok (ucast v), istream_at rest (n - length (varint_code v)) e)
    else fst (pb_decode_varint32 (istream_at (varint_code v @ rest) n e :: 's pb_istream_t)) = Fail"
proof -
  have big: "\<not> v \<le> 0x7F" using assms(2) by (simp add: word_le_nat_alt)
  let ?v' = "drop_bit 7 v"
  have code: "varint_code v = (ucast (v AND 0x7F) OR 0x80) # varint_code ?v'"
    using big by (simp add: varint_code.simps [of v])
  have n: "0 < n" using assms(1) code by simp
  have len: "length (varint_code ?v') \<le> n - 1" "n - 1 - length (varint_code ?v') = n - length (varint_code v)"
    using assms(1) by (simp_all add: code)
  have res: "(ucast v AND 0x7F) OR push_bit (unat (7 :: 8 word)) (ucast ?v') = (ucast v :: u32)"
    using ucast_push_split [of 0 v] by simp
  have w: "2 ^ (63 - unat (7 :: 8 word)) \<le> unat ?v'" "unat ?v' < 2 ^ (64 - unat (7 :: 8 word))"
    using assms(2) unat_less [of v] by (simp_all add: unat_drop_bit)
  have b31: "bit (ucast v :: u32) 31 = bit v 31" by (simp add: bit_simps)
  have d: "drop_bit (35 - unat (7 :: 8 word)) ?v' = drop_bit 35 v" by simp
  have acc: "varint32_accepts v \<longleftrightarrow> bit v 31 \<and> filled 4 (drop_bit 35 v)"
    using assms(2) by (simp add: varint32_accepts_def filled_drop)
  have b7: "ucast ((ucast (v AND 0x7F) OR 0x80 :: byte) AND 0x7F) = (ucast v AND 0x7F :: u32)"
    by (rule bit_word_eqI) (auto simp: bit_simps)
  have "(7 :: 8 word) \<in> {7, 14, 21, 28}" by simp
  from varint32_low_ten [OF this w len(1), of "ucast v AND 0x7F" rest e, where 's = 's]
  have loop: "if varint32_accepts v
      then varint32_loop 7 (ucast v AND 0x7F) (istream_at (varint_code ?v' @ rest) (n - 1) e :: 's pb_istream_t) =
        (Ok (ucast v, 70, 1), istream_at rest (n - length (varint_code v)) e)
      else fst (varint32_loop 7 (ucast v AND 0x7F) (istream_at (varint_code ?v' @ rest) (n - 1) e :: 's pb_istream_t)) = Fail"
    by (simp only: res d b31 len(2) acc)
  show ?thesis
    using loop n by (cases "varint32_loop 7 (ucast v AND 0x7F) (istream_at (varint_code ?v' @ rest) (n - 1) e :: 's pb_istream_t)")
      (auto simp add: code code_byte_bits b7 pb_decode_varint32_def pb_decode_varint32_eof_def seq_def ret_def fail_def
        split: if_splits)
qed

lemma pb_decode_varint32_exact:
  assumes "length (varint_code v) \<le> n"
  shows "if varint32_accepts v
    then pb_decode_varint32 (istream_at (varint_code v @ rest) n e :: 's pb_istream_t) =
        (Ok (ucast v), istream_at rest (n - length (varint_code v)) e)
    else fst (pb_decode_varint32 (istream_at (varint_code v @ rest) n e :: 's pb_istream_t)) = Fail"
proof (cases "2 ^ 63 \<le> unat v")
  case True
  then show ?thesis by (rule pb_decode_varint32_ten [OF assms])
next
  case False
  then show ?thesis
    using pb_decode_varint32_code [OF assms, of rest e, where 's = 's] by (simp add: varint32_accepts_def not_le not_less)
qed

lemma sign_extended_accepted:
  assumes "2 ^ 64 - 2 ^ 31 \<le> unat v"
  shows "varint32_accepts v"
  using pb_decode_varint32_code(1) [of v "length (varint_code v)" "[]" None, where 's = nat]
    pb_decode_varint32_exact [of v "length (varint_code v)" "[]" None, where 's = nat] assms
  by (simp split: if_splits)

end
