(* ===== verification/Pb_Codec.thy ===== *)
theory Pb_Codec
  imports Pb_Varint
begin

text \<open>
  The interface between the two halves of nanopb: a pair of an encoder and a decoder that agree on
  one byte code.  The locale derives the memory round trip and the round trip of sequences once;
  the scalar codecs of pb_encode.c and pb_decode.c interpret it.  The theory also holds the laws of
  skipping and of substreams.
\<close>

section \<open>Codecs over nanopb streams\<close>

fun put_all :: "('a \<Rightarrow> (unit, 's) act) \<Rightarrow> 'a list \<Rightarrow> (unit, 's) act" where
  "put_all put [] = ret ()"
| "put_all put (x # xs) = seq (put x) (\<lambda>_. put_all put xs)"

fun get_all :: "('a, 's) act \<Rightarrow> nat \<Rightarrow> ('a list, 's) act" where
  "get_all get 0 = ret []"
| "get_all get (Suc n) = seq get (\<lambda>x. seq (get_all get n) (\<lambda>xs. ret (x # xs)))"

locale stream_codec =
  fixes put :: "'a \<Rightarrow> (unit, 'o pb_ostream_t) act"
    and get :: "('a, 'i pb_istream_t) act"
    and code :: "'a \<Rightarrow> byte list"
    and valid :: "'a \<Rightarrow> bool"
  assumes put_emits: "valid x \<Longrightarrow> emits (put x) (code x)"
    and get_parses: "valid x \<Longrightarrow> parses get (code x) x"
begin

lemma put_buffer:
  assumes "valid x" "length (code x) \<le> unat bufsize" "unat bufsize \<le> length buf"
  shows "put x (pb_ostream_from_buffer buf bufsize) =
    (Ok (), emit (code x) (pb_ostream_from_buffer buf bufsize))"
  by (rule emitsD(1) [OF put_emits])
    (use assms in \<open>simp_all add: ostream_ok_def room_def pb_ostream_from_buffer_def\<close>)

lemma get_buffer:
  assumes "valid x"
  shows "get (pb_istream_from_buffer (code x @ rest) (length (code x))) =
    (Ok x, pb_istream_from_buffer rest 0)"
  using parsesD [OF get_parses [OF assms], of "length (code x)" rest None]
  by (simp add: pb_istream_from_buffer_def)

lemma memory_roundtrip:
  assumes "valid x" "length (code x) \<le> unat bufsize" "unat bufsize \<le> length buf"
  shows "\<exists>t mem. put x (pb_ostream_from_buffer buf bufsize) = (Ok (), t) \<and>
    sink t = BufSink mem (length (code x)) \<and> unat (bytes_written t) = length (code x) \<and>
    drop (length (code x)) mem = drop (length (code x)) buf \<and>
    get (pb_istream_from_buffer mem (unat (bytes_written t))) =
      (Ok x, pb_istream_from_buffer (drop (length (code x)) buf) 0)"
proof -
  let ?t = "emit (code x) (pb_ostream_from_buffer buf bufsize :: 'o pb_ostream_t)"
  have len: "unat (of_nat (length (code x)) :: size_t) = length (code x)"
    using assms(2) unat_less [of bufsize] by (intro unat_of_nat_lt) simp
  have "sink ?t = BufSink (code x @ drop (length (code x)) buf) (length (code x))"
    "bytes_written ?t = of_nat (length (code x))"
    by (simp_all add: emit_def pb_ostream_from_buffer_def overlay_def)
  with put_buffer [OF assms] get_buffer [OF assms(1)] len show ?thesis by auto
qed

lemma put_all_emits: "list_all valid xs \<Longrightarrow> emits (put_all put xs) (concat (map code xs))"
  by (induction xs) (auto intro: emits_ret emits_seq put_emits)

lemma get_all_parses: "list_all valid xs \<Longrightarrow> parses (get_all get (length xs)) (concat (map code xs)) xs"
proof (induction xs)
  case Nil
  show ?case by (simp add: parses_ret)
next
  case (Cons x xs)
  then have "parses (seq (get_all get (length xs)) (\<lambda>ys. ret (x # ys))) (concat (map code xs)) (x # xs)"
    by (intro parses_seq_ret) simp_all
  with Cons.prems show ?case by (auto intro: parses_seq get_parses)
qed

lemma code_prefix_free:
  assumes "valid x" "valid y" "code x @ as = code y @ bs"
  shows "x = y" "as = bs"
proof -
  let ?n = "length (code x) + length (code y)"
  have X: "get (istream_at (code x @ as) ?n None :: 'i pb_istream_t) =
      (Ok x, istream_at as (?n - length (code x)) None)"
    by (rule parsesD [OF get_parses [OF assms(1)]]) simp
  have Y: "get (istream_at (code y @ bs) ?n None :: 'i pb_istream_t) =
      (Ok y, istream_at bs (?n - length (code y)) None)"
    by (rule parsesD [OF get_parses [OF assms(2)]]) simp
  from trans [OF X [unfolded assms(3), symmetric] Y]
  show "x = y" "as = bs" by simp_all
qed

end

section \<open>The scalar codecs\<close>

lemma bit_zigzag: "bit (zigzag v) n \<longleftrightarrow> n < 64 \<and> ((1 \<le> n \<and> bit v (n - 1)) \<noteq> bit v 63)"
proof -
  have neg: "sint v < 0 \<longleftrightarrow> bit v 63" using bit_last_iff [of v] by simp
  have "bit (push_bit 1 v) n \<longleftrightarrow> n < 64 \<and> 1 \<le> n \<and> bit v (n - 1)"
    by (simp only: bit_push_bit_iff possible_bit_word) auto
  then show ?thesis
    by (simp only: zigzag_def neg if_distrib [of "\<lambda>w. bit w n"] bit_not_iff possible_bit_word) auto
qed

lemma zigzag_inverse:
  "(if zigzag v AND 1 \<noteq> 0 then NOT (drop_bit 1 (zigzag v)) else drop_bit 1 (zigzag v)) = v"
proof -
  have "zigzag v AND 1 \<noteq> 0 \<longleftrightarrow> bit (zigzag v) 0"
    by (simp add: and_one_eq bit_0 odd_iff_mod_2_eq_one)
  then have "zigzag v AND 1 \<noteq> 0 \<longleftrightarrow> bit v 63" by (simp add: bit_zigzag)
  moreover have "NOT (drop_bit 1 (zigzag v)) = v" if "bit v 63"
  proof (rule bit_word_eqI)
    show "bit (NOT (drop_bit 1 (zigzag v))) n \<longleftrightarrow> bit v n" if "n < LENGTH(64)" for n
      using that \<open>bit v 63\<close>
      by (simp only: bit_not_iff bit_drop_bit_eq bit_zigzag possible_bit_word comp_def)
        (cases "n = 63", auto)
  qed
  moreover have "drop_bit 1 (zigzag v) = v" if "\<not> bit v 63"
  proof (rule bit_word_eqI)
    show "bit (drop_bit 1 (zigzag v)) n \<longleftrightarrow> bit v n" if "n < LENGTH(64)" for n
      using that \<open>\<not> bit v 63\<close>
      by (simp only: bit_drop_bit_eq bit_zigzag comp_def) (cases "n = 63", auto)
  qed
  ultimately show ?thesis by simp
qed

lemma pb_decode_svarint_parses [parses_intros]:
  "parses pb_decode_svarint (varint_code (zigzag v)) v"
  unfolding pb_decode_svarint_def
  by (rule parses_seq_ret [OF pb_decode_varint_parses]) (simp only: zigzag_inverse)

lemma le_bytes_4_nth: "le_bytes 4 w = [b0, b1, b2, b3] \<Longrightarrow>
  push_bit 0 (ucast b0) OR push_bit 8 (ucast b1) OR push_bit 16 (ucast b2) OR
  push_bit 24 (ucast b3) = (w :: u32)"
proof -
  assume "le_bytes 4 w = [b0, b1, b2, b3]"
  then have "le_val [b0, b1, b2, b3] = take_bit 32 w" using le_val_le_bytes [of 4 w] by simp
  then show ?thesis by (simp add: take_bit_ge push_bit_or)
qed

lemma le_bytes_8_nth: "le_bytes 8 w = [b0, b1, b2, b3, b4, b5, b6, b7] \<Longrightarrow>
  push_bit 0 (ucast b0) OR push_bit 8 (ucast b1) OR push_bit 16 (ucast b2) OR
  push_bit 24 (ucast b3) OR push_bit 32 (ucast b4) OR push_bit 40 (ucast b5) OR
  push_bit 48 (ucast b6) OR push_bit 56 (ucast b7) = (w :: u64)"
proof -
  assume "le_bytes 8 w = [b0, b1, b2, b3, b4, b5, b6, b7]"
  then have "le_val [b0, b1, b2, b3, b4, b5, b6, b7] = take_bit 64 w"
    using le_val_le_bytes [of 8 w] by simp
  then show ?thesis by (simp add: take_bit_ge push_bit_or)
qed

lemma pb_decode_fixed32_parses [parses_intros]: "parses pb_decode_fixed32 (le_bytes 4 v) v"
proof -
  have b: "le_bytes 4 v = [ucast v, ucast (drop_bit 8 v), ucast (drop_bit 16 v), ucast (drop_bit 24 v)]"
    by (simp add: le_bytes_def upt_rec)
  show ?thesis unfolding pb_decode_fixed32_def
    by (rule parses_seq_ret [OF pb_read_parses_n]) (use b le_bytes_4_nth [OF b] in simp_all)
qed

lemma pb_decode_fixed64_parses [parses_intros]: "parses pb_decode_fixed64 (le_bytes 8 v) v"
proof -
  have b: "le_bytes 8 v = [ucast v, ucast (drop_bit 8 v), ucast (drop_bit 16 v), ucast (drop_bit 24 v), ucast (drop_bit 32 v), ucast (drop_bit 40 v), ucast (drop_bit 48 v), ucast (drop_bit 56 v)]"
    by (simp add: le_bytes_def upt_rec)
  show ?thesis unfolding pb_decode_fixed64_def
    by (rule parses_seq_ret [OF pb_read_parses_n]) (use b le_bytes_8_nth [OF b] in simp_all)
qed

lemma pb_decode_varint32_parses [parses_intros]:
  "unat v < 2 ^ 32 \<Longrightarrow> parses pb_decode_varint32 (varint_code v) (ucast v)"
  by (simp add: parses_def pb_decode_varint32_code)

interpretation varint: stream_codec pb_encode_varint pb_decode_varint varint_code "\<lambda>_. True"
  by unfold_locales (rule emits_intros parses_intros)+

interpretation svarint: stream_codec pb_encode_svarint pb_decode_svarint
    "\<lambda>v. varint_code (zigzag v)" "\<lambda>_. True"
  by unfold_locales (rule emits_intros parses_intros)+

interpretation fixed32: stream_codec pb_encode_fixed32 pb_decode_fixed32 "le_bytes 4" "\<lambda>_. True"
  by unfold_locales (rule emits_intros parses_intros)+

interpretation fixed64: stream_codec pb_encode_fixed64 pb_decode_fixed64 "le_bytes 8" "\<lambda>_. True"
  by unfold_locales (rule emits_intros parses_intros)+

section \<open>Skipping and substreams\<close>

lemma pb_read_step:
  "0 < n \<Longrightarrow> pb_read True (Suc 0) (istream_at (b # bs) n e) = (Ok [b], istream_at bs (n - 1) e)"
  using parsesD [OF pb_read_parses [of True "[b]"], of n bs e] by simp

lemma pb_skip_varint_parses [parses_intros]: "parses pb_skip_varint (varint_code v) ()"
proof (induction v rule: varint_code.induct)
  case (1 v)
  show ?case
  proof (cases "v \<le> 0x7F")
    case True
    then show ?thesis using small_byte(1) [OF True]
      by (simp add: parses_def varint_code.simps [of v] pb_skip_varint.simps pb_read_step)
  next
    case False
    then show ?thesis using "1.IH" [OF False]
      by (simp add: parses_def varint_code.simps [of v] pb_read_step code_byte_bits
          pb_skip_varint.simps [of "istream_at (_ # _) _ _"])
  qed
qed

lemma pb_read_False_parses: "length bs = n \<Longrightarrow> parses (seq (pb_read False n) (\<lambda>_. ret ())) bs ()"
  by (rule parses_seq_ret [OF pb_read_parses_n]) simp_all

lemma unat_length: "length bs < 2 ^ 32 \<Longrightarrow> unat (of_nat (length bs) :: u64) = length bs"
  by (rule unat_of_nat_lt) simp

lemma length_word:
  "length bs < 2 ^ 32 \<Longrightarrow> unat (ucast (of_nat (length bs) :: u64) :: u32) = length bs"
  by (simp only: unsigned_ucast_eq unat_length) (simp add: take_bit_nat_eq_self)

lemma pb_decode_length_parses:
  "length bs < 2 ^ 32 \<Longrightarrow>
   parses pb_decode_varint32 (varint_code (of_nat (length bs))) (ucast (of_nat (length bs) :: u64))"
  by (rule pb_decode_varint32_parses) (simp add: unat_length)

lemma pb_skip_string_parses [parses_intros]:
  "length bs < 2 ^ 32 \<Longrightarrow> parses pb_skip_string (string_code bs) ()"
  unfolding pb_skip_string_def string_code_def
  by (rule parses_seq [OF pb_decode_length_parses])
    (simp_all add: pb_read_False_parses length_word)

lemma varint32_eof_of_varint32:
  assumes "pb_decode_varint32 s = (Ok x, t)"
  shows "pb_decode_varint32_eof s = (Ok (Some x, False), t)"
  using assms
  by (auto simp: pb_decode_varint32_def pb_decode_varint32_eof_def seq_def ret_def fail_def
      split: prod.splits outcome.splits option.splits if_splits)

lemma varint32_eof_parses:
  "parses (pb_decode_varint32 :: (u32, 's pb_istream_t) act) bs x \<Longrightarrow>
   parses (pb_decode_varint32_eof :: (u32 option \<times> bool, 's pb_istream_t) act) bs (Some x, False)"
  by (simp add: parses_def varint32_eof_of_varint32)

lemma tag_value:
  fixes n :: u32 and wt :: u32
  assumes "unat n < 2 ^ 29" "unat wt < 2 ^ 3"
  defines "v \<equiv> push_bit 3 (ucast n) OR ucast wt :: u64"
  shows "unat v < 2 ^ 32" "ucast v AND 7 = wt" "drop_bit 3 (ucast v) = n"
proof -
  note wt = bit_lt_of_unat [OF assms(2)] and n = bit_lt_of_unat [OF assms(1)]
  have v: "bit v k \<longleftrightarrow> k < 64 \<and> (3 \<le> k \<and> bit n (k - 3) \<or> bit wt k)" for k
    using bit_imp_le_length [of n "k - 3"] bit_imp_le_length [of wt k] by (auto simp: v_def bit_simps)
  show "unat v < 2 ^ 32"
    by (rule unat_lt_of_bits) (auto simp: v dest!: wt n)
  show "ucast v AND 7 = wt"
  proof (rule bit_word_eqI)
    show "bit (ucast v AND 7 :: u32) k \<longleftrightarrow> bit wt k" if "k < LENGTH(32)" for k
      using that wt [of k] by (auto simp: bit_and_iff bit_unsigned_iff v bit_masks)
  qed
  show "drop_bit 3 (ucast v) = n"
  proof (rule bit_word_eqI)
    show "bit (drop_bit 3 (ucast v) :: u32) k \<longleftrightarrow> bit n k" if "k < LENGTH(32)" for k
      using that wt [of "3 + k"] n [of k] by (auto simp: bit_drop_bit_eq bit_unsigned_iff v)
  qed
qed

lemma pb_decode_tag_parses [parses_intros]:
  assumes "unat n < 2 ^ 29" "unat wt < 2 ^ 3" "n \<noteq> 0"
  shows "parses pb_decode_tag (tag_code wt n) (Some (wt, n), False)"
proof -
  let ?v = "push_bit 3 (ucast n) OR ucast wt :: u64"
  note v = tag_value [OF assms(1,2)]
  have "(ucast ?v :: u32) \<noteq> 0" using v(3) assms(3) by auto
  then show ?thesis unfolding pb_decode_tag_def tag_code_def
    by (intro parses_seq_ret [OF varint32_eof_parses [OF pb_decode_varint32_parses [OF v(1)]]])
      (simp only: prod.case option.case if_False v(2,3) \<open>ucast ?v \<noteq> 0\<close>)
qed

lemma uint_zigzag: "uint (zigzag v) = (if 0 \<le> sint v then 2 * sint v else - 2 * sint v - 1)"
proof -
  have v: "v = word_of_int (sint v)" by simp
  have range: "- (2 ^ 63) \<le> sint v" "sint v < 2 ^ 63"
    using sint_range_size [of v] by (simp_all add: word_size)
  have "push_bit 1 v = word_of_int (2 * sint v)"
    by (subst v) (simp add: push_bit_eq_mult mult.commute)
  then have "zigzag v = word_of_int (if 0 \<le> sint v then 2 * sint v else - 2 * sint v - 1)"
    by (simp add: zigzag_def not_eq_complement)
  then show ?thesis using range by (simp add: uint_word_of_int)
qed

lemma zigzag_short:
  assumes "0 < k" "- (2 ^ (7 * k - 1)) \<le> sint v" "sint v < 2 ^ (7 * k - 1)"
  shows "length (varint_code (zigzag v)) \<le> k"
proof -
  obtain j where j: "7 * k = Suc j" using assms(1) by (cases "7 * k") auto
  have "(2 :: int) ^ (7 * k) = 2 * 2 ^ (7 * k - 1)" unfolding j by simp
  then have "uint (zigzag v) < 2 ^ (7 * k)" using assms(2,3) unfolding uint_zigzag by auto
  then have "int (unat (zigzag v)) < int (2 ^ (7 * k))" by simp
  then have "unat (zigzag v) < 2 ^ (7 * k)" by (simp only: of_nat_less_iff)
  then show ?thesis using assms(1) by (rule length_varint_code_bound)
qed

section \<open>Properties of the scalar layer\<close>

text \<open>
  C6. Varint round trip through memory.  Encoding any 64-bit value into a buffer of at least ten
  bytes succeeds, writes between one and ten bytes and nothing behind them, and decoding the bytes
  written returns the value and leaves nothing unread.
\<close>

theorem varint_memory_roundtrip:
  assumes "10 \<le> unat bufsize" "unat bufsize \<le> length buf"
  shows "\<exists>t mem n. pb_encode_varint v (pb_ostream_from_buffer buf bufsize) = (Ok (), t) \<and>
    sink t = BufSink mem n \<and> 1 \<le> n \<and> n \<le> 10 \<and> unat (bytes_written t) = n \<and>
    drop n mem = drop n buf \<and>
    pb_decode_varint (pb_istream_from_buffer mem n) =
      (Ok v, pb_istream_from_buffer (drop n buf) 0)"
proof -
  have "length (varint_code v) \<le> unat bufsize" "1 \<le> length (varint_code v)"
    using assms(1) length_varint_code_le [of v] by (simp_all add: Suc_le_eq)
  then show ?thesis
    using varint.memory_roundtrip [of v bufsize buf] assms(2) length_varint_code_le [of v] by auto
qed

theorem varint_memory_roundtrip_witness:
  "\<exists>t mem n. pb_encode_varint 300 (pb_ostream_from_buffer (replicate 16 0) 12 :: nat pb_ostream_t) =
      (Ok (), t) \<and>
    sink t = BufSink mem n \<and> 1 \<le> n \<and> n \<le> 10 \<and> unat (bytes_written t) = n \<and>
    drop n mem = drop n (replicate 16 0) \<and>
    pb_decode_varint (pb_istream_from_buffer mem n :: nat pb_istream_t) =
      (Ok 300, pb_istream_from_buffer (drop n (replicate 16 0)) 0)"
  by (rule varint_memory_roundtrip) simp_all

text \<open>
  Zigzag varint round trip.  The same for signed values, whose encoding maps a value of small
  magnitude to a short code: the code of a value in the range of n payload groups has at most n
  bytes.
\<close>

theorem svarint_memory_roundtrip:
  assumes "10 \<le> unat bufsize" "unat bufsize \<le> length buf"
  shows "\<exists>t mem n. pb_encode_svarint v (pb_ostream_from_buffer buf bufsize) = (Ok (), t) \<and>
    sink t = BufSink mem n \<and> unat (bytes_written t) = n \<and>
    (\<forall>k>0. - (2 ^ (7 * k - 1)) \<le> sint v \<and> sint v < 2 ^ (7 * k - 1) \<longrightarrow> n \<le> k) \<and>
    pb_decode_svarint (pb_istream_from_buffer mem n) =
      (Ok v, pb_istream_from_buffer (drop n buf) 0)"
proof -
  have "length (varint_code (zigzag v)) \<le> unat bufsize"
    using assms(1) length_varint_code_le [of "zigzag v"] by simp
  from svarint.memory_roundtrip [of v bufsize buf, OF _ this assms(2)]
  show ?thesis using zigzag_short [of _ v] by auto
qed

theorem svarint_memory_roundtrip_witness:
  "\<exists>t mem n. pb_encode_svarint (- 3) (pb_ostream_from_buffer (replicate 10 0) 10 :: nat pb_ostream_t) =
      (Ok (), t) \<and>
    sink t = BufSink mem n \<and> unat (bytes_written t) = n \<and>
    (\<forall>k>0. - (2 ^ (7 * k - 1)) \<le> sint (- 3 :: u64) \<and> sint (- 3 :: u64) < 2 ^ (7 * k - 1) \<longrightarrow> n \<le> k) \<and>
    pb_decode_svarint (pb_istream_from_buffer mem n :: nat pb_istream_t) =
      (Ok (- 3), pb_istream_from_buffer (drop n (replicate 10 0)) 0)"
  by (rule svarint_memory_roundtrip) simp_all

text \<open>
  C7. Fixed-width round trip.  The fixed32 and fixed64 codecs write exactly four and eight bytes,
  least significant first, and read them back.
\<close>

theorem fixed_memory_roundtrip:
  assumes "8 \<le> unat bufsize" "unat bufsize \<le> length buf"
  shows "(\<exists>t. pb_encode_fixed32 w (pb_ostream_from_buffer buf bufsize :: 'o pb_ostream_t) = (Ok (), t) \<and>
      sink t = BufSink (le_bytes 4 w @ drop 4 buf) 4 \<and> bytes_written t = 4 \<and>
      pb_decode_fixed32 (pb_istream_from_buffer (le_bytes 4 w @ drop 4 buf) 4) =
        (Ok w, pb_istream_from_buffer (drop 4 buf) 0)) \<and>
    (\<exists>t. pb_encode_fixed64 v (pb_ostream_from_buffer buf bufsize :: 'o pb_ostream_t) = (Ok (), t) \<and>
      sink t = BufSink (le_bytes 8 v @ drop 8 buf) 8 \<and> bytes_written t = 8 \<and>
      pb_decode_fixed64 (pb_istream_from_buffer (le_bytes 8 v @ drop 8 buf) 8) =
        (Ok v, pb_istream_from_buffer (drop 8 buf) 0))"
proof -
  let ?s = "pb_ostream_from_buffer buf bufsize :: 'o pb_ostream_t"
  have "emit (le_bytes 4 w) ?s = ?s\<lparr>sink := BufSink (le_bytes 4 w @ drop 4 buf) 4, bytes_written := 4\<rparr>"
    "emit (le_bytes 8 v) ?s = ?s\<lparr>sink := BufSink (le_bytes 8 v @ drop 8 buf) 8, bytes_written := 8\<rparr>"
    by (simp_all add: emit_def pb_ostream_from_buffer_def overlay_def)
  moreover have "pb_encode_fixed32 w ?s = (Ok (), emit (le_bytes 4 w) ?s)"
    "pb_encode_fixed64 v ?s = (Ok (), emit (le_bytes 8 v) ?s)"
    by (rule fixed32.put_buffer fixed64.put_buffer; use assms in simp)+
  ultimately show ?thesis
    using fixed32.get_buffer [of w "drop 4 buf"] fixed64.get_buffer [of v "drop 8 buf"] by simp
qed

theorem fixed_memory_roundtrip_witness:
  "(\<exists>t. pb_encode_fixed32 1 (pb_ostream_from_buffer (replicate 9 7) 8 :: nat pb_ostream_t) = (Ok (), t) \<and>
      sink t = BufSink (le_bytes 4 (1 :: u32) @ drop 4 (replicate 9 7)) 4 \<and> bytes_written t = 4 \<and>
      pb_decode_fixed32 (pb_istream_from_buffer (le_bytes 4 (1 :: u32) @ drop 4 (replicate 9 7)) 4
          :: nat pb_istream_t) = (Ok 1, pb_istream_from_buffer (drop 4 (replicate 9 7)) 0)) \<and>
    (\<exists>t. pb_encode_fixed64 2 (pb_ostream_from_buffer (replicate 9 7) 8 :: nat pb_ostream_t) = (Ok (), t) \<and>
      sink t = BufSink (le_bytes 8 (2 :: u64) @ drop 8 (replicate 9 7)) 8 \<and> bytes_written t = 8 \<and>
      pb_decode_fixed64 (pb_istream_from_buffer (le_bytes 8 (2 :: u64) @ drop 8 (replicate 9 7)) 8
          :: nat pb_istream_t) = (Ok 2, pb_istream_from_buffer (drop 8 (replicate 9 7)) 0))"
  by (rule fixed_memory_roundtrip) simp_all

text \<open>
  C8. The 32-bit decoder on the codes of the 64-bit encoder, for every 64-bit value.  It accepts the values
  of 32 bits and, of those with bit 63 set, the ones with bit 31 set whose bits 35 to 62 come in groups of
  seven that are all zeros or all ones; it returns their low 32 bits.  Sign-extended negative values are
  among them, and so are values that are neither, as bits 32 to 34 are not looked at and a group of zeros is
  taken for padding.  All other values are reported as an overflow.
\<close>

theorem varint32_of_varint:
  assumes "10 \<le> unat bufsize" "unat bufsize \<le> length buf"
  shows "\<exists>t mem n. pb_encode_varint v (pb_ostream_from_buffer buf bufsize :: 'o pb_ostream_t) = (Ok (), t) \<and>
    sink t = BufSink mem n \<and> unat (bytes_written t) = n \<and>
    (if unat v < 2 ^ 32 \<or>
        (2 ^ 63 \<le> unat v \<and> bit v 31 \<and> (\<forall>k \<in> {35, 42, 49, 56}. drop_bit k v AND 0x7F \<in> {0, 0x7F}))
     then pb_decode_varint32 (pb_istream_from_buffer mem n :: 's pb_istream_t) =
         (Ok (ucast v), pb_istream_from_buffer (drop n buf) 0)
     else fst (pb_decode_varint32 (pb_istream_from_buffer mem n :: 's pb_istream_t)) = Fail) \<and>
    (2 ^ 64 - 2 ^ 31 \<le> unat v \<longrightarrow> varint32_accepts v)"
proof -
  let ?n = "length (varint_code v)"
  have n: "?n \<le> unat bufsize" using assms(1) length_varint_code_le [of v] by simp
  have len: "unat (of_nat ?n :: size_t) = ?n"
    using length_varint_code_le [of v] by (intro unat_of_nat_lt) simp
  have put: "pb_encode_varint v (pb_ostream_from_buffer buf bufsize :: 'o pb_ostream_t) =
      (Ok (), emit (varint_code v) (pb_ostream_from_buffer buf bufsize))"
    by (rule varint.put_buffer) (use n assms in simp_all)
  let ?t = "emit (varint_code v) (pb_ostream_from_buffer buf bufsize) :: 'o pb_ostream_t"
  let ?mem = "varint_code v @ drop ?n buf"
  have st: "sink ?t = BufSink ?mem ?n" "unat (bytes_written ?t) = ?n"
    using len by (simp_all add: emit_def pb_ostream_from_buffer_def overlay_def)
  have "if varint32_accepts v
     then pb_decode_varint32 (pb_istream_from_buffer ?mem ?n :: 's pb_istream_t) =
         (Ok (ucast v), pb_istream_from_buffer (drop ?n buf) 0)
     else fst (pb_decode_varint32 (pb_istream_from_buffer ?mem ?n :: 's pb_istream_t)) = Fail"
    using pb_decode_varint32_exact [of v ?n "drop ?n buf" None, where 's = 's]
    by (simp add: pb_istream_from_buffer_def)
  moreover have "drop ?n ?mem = drop ?n buf" by simp
  ultimately show ?thesis
    unfolding varint32_accepts_def [symmetric] using put st sign_extended_accepted [of v] by blast
qed

theorem varint32_of_varint_witness:
  "\<exists>t mem n. pb_encode_varint 0x8000000080000000 (pb_ostream_from_buffer (replicate 10 0) 10 :: nat pb_ostream_t) =
      (Ok (), t) \<and> sink t = BufSink mem n \<and>
    pb_decode_varint32 (pb_istream_from_buffer mem n :: nat pb_istream_t) =
         (Ok 0x80000000, pb_istream_from_buffer (drop n (replicate 10 0)) 0)"
proof -
  have acc: "unat (0x8000000080000000 :: u64) < 2 ^ 32 \<or> (2 ^ 63 \<le> unat (0x8000000080000000 :: u64) \<and>
      bit (0x8000000080000000 :: u64) 31 \<and>
      (\<forall>k \<in> {35, 42, 49, 56}. drop_bit k (0x8000000080000000 :: u64) AND 0x7F \<in> {0, 0x7F}))"
    by (simp add: bit_numeral_word_iff)
  have low: "(ucast (0x8000000080000000 :: u64) :: u32) = 0x80000000" by simp
  have "10 \<le> unat (10 :: size_t)" "unat (10 :: size_t) \<le> length (replicate 10 (0 :: byte))" by simp_all
  note w = varint32_of_varint [OF this, of "0x8000000080000000", where 'o = nat and 's = nat]
  show ?thesis using w by (simp only: if_P [OF acc] low) blast
qed

text \<open>
  The 32-bit decoder is laxer than its comments say on codes no encoder writes.  Five bytes with a
  set bit above the 32nd are an overflow, but the same bytes padded with a further zero group
  are accepted and the high bits dropped; and the eight-bit bit position wraps, so that a code
  of 38 bytes is accepted with its last group added at bit 3.
\<close>

lemma varint32_overflow_detected:
  "fst (pb_decode_varint32 (pb_istream_from_buffer [0x80, 0x80, 0x80, 0x80, 0x10] 5)) = Fail"
  by (simp add: pb_istream_from_buffer_def pb_decode_varint32_def pb_decode_varint32_eof_def
      varint32_loop_step group_ok_def group_add_def act_simps seq_def)

lemma varint32_overflow_missed:
  "fst (pb_decode_varint32 (pb_istream_from_buffer [0x80, 0x80, 0x80, 0x80, 0x90, 0x00] 6)) = Ok 0"
  "fst (pb_decode_varint (pb_istream_from_buffer [0x80, 0x80, 0x80, 0x80, 0x90, 0x00] 6)) = Ok (2 ^ 32)"
  by (simp_all add: pb_istream_from_buffer_def pb_decode_varint32_def pb_decode_varint32_eof_def
      varint32_loop_step group_ok_def group_add_def act_simps seq_def pb_decode_varint_def
      varint_dec_loop.simps)

lemma varint32_position_wraps:
  "fst (pb_decode_varint32 (pb_istream_from_buffer (0x81 # replicate 36 0x80 @ [0x01]) 38
    :: nat pb_istream_t)) = Ok 9"
  by code_simp

definition wire_value :: "pb_wire_type_t \<Rightarrow> byte list \<Rightarrow> bool" where
  "wire_value wt bs \<longleftrightarrow>
     wt = PB_WT_VARINT \<and> (\<exists>v. bs = varint_code v) \<or>
     wt = PB_WT_64BIT \<and> length bs = 8 \<or>
     wt = PB_WT_STRING \<and> (\<exists>str. bs = string_code str \<and> length str < 2 ^ 32) \<or>
     wt = PB_WT_32BIT \<and> length bs = 4"

lemma pb_skip_field_parses:
  assumes "wire_value wt bs"
  shows "parses (pb_skip_field wt) bs ()"
  using assms unfolding wire_value_def pb_skip_field_def
  by (auto intro: pb_skip_varint_parses pb_skip_string_parses pb_read_False_parses)

text \<open>
  C9. Tags and the skipping of unknown fields.  The tag written for a field number below 2^29 is
  read back with its wire type, and \<open>pb_skip_field\<close> on that wire type then consumes exactly the value
  that the encoder of the wire type writes: a varint, four or eight bytes, or a length-prefixed
  string.  An unknown wire type is an error that consumes nothing.
\<close>

theorem tag_then_skip:
  assumes "0 < n" "unat n < 2 ^ 29" "wire_value wt bs"
    "left = length (tag_code wt n) + length bs"
  shows "emits (pb_encode_tag wt n :: (unit, 'o pb_ostream_t) act) (tag_code wt n) \<and>
    (let (r, s) = pb_decode_tag (pb_istream_from_buffer (tag_code wt n @ bs @ rest) left
        :: 's pb_istream_t)
     in r = Ok (Some (wt, n), False) \<and>
        pb_skip_field wt s = (Ok (), pb_istream_from_buffer rest 0) \<and>
        (\<forall>w. w \<notin> {PB_WT_VARINT, PB_WT_64BIT, PB_WT_STRING, PB_WT_32BIT} \<longrightarrow>
           pb_skip_field w s = (Fail, s\<lparr>i_errmsg := Some ''invalid wire_type''\<rparr>)))"
proof -
  have wt: "unat wt < 2 ^ 3" using assms(3) by (auto simp: wire_value_def)
  have "n \<noteq> 0" using assms(1) by auto
  from parsesD [OF pb_decode_tag_parses [OF assms(2) wt this], of left "bs @ rest" None]
  have tag: "pb_decode_tag (istream_at (tag_code wt n @ bs @ rest) left None :: 's pb_istream_t) =
      (Ok (Some (wt, n), False), istream_at (bs @ rest) (length bs) None)"
    using assms(4) by simp
  have skip: "pb_skip_field wt (istream_at (bs @ rest) (length bs) None :: 's pb_istream_t) =
      (Ok (), istream_at rest 0 None)"
    using parsesD [OF pb_skip_field_parses [OF assms(3)], of "length bs" rest None] by simp
  show ?thesis
    by (simp add: pb_istream_from_buffer_def tag skip pb_encode_tag_emits)
      (simp add: pb_skip_field_def i_error_def set_error_def)
qed

theorem tag_then_skip_witness:
  "emits (pb_encode_tag 0 5 :: (unit, nat pb_ostream_t) act) (tag_code 0 5) \<and>
    (let (r, s) = pb_decode_tag (pb_istream_from_buffer (tag_code 0 5 @ varint_code 300 @ [9])
        (length (tag_code 0 5) + length (varint_code 300)) :: nat pb_istream_t)
     in r = Ok (Some (0, 5), False) \<and>
        pb_skip_field 0 s = (Ok (), pb_istream_from_buffer [9] 0) \<and>
        (\<forall>w. w \<notin> {PB_WT_VARINT, PB_WT_64BIT, PB_WT_STRING, PB_WT_32BIT} \<longrightarrow>
           pb_skip_field w s = (Fail, s\<lparr>i_errmsg := Some ''invalid wire_type''\<rparr>)))"
  by (rule tag_then_skip) (auto simp: wire_value_def)

text \<open>
  C10. Substreams of length-delimited fields.  On a stream holding a length-prefixed string, opening
  a substream limits it to the string and takes the string off the parent's count; whatever part of
  the substream is read, closing it puts the parent right behind the string.  A length beyond
  the end of the parent is an error.
\<close>

theorem substream_bracket:
  assumes "length str < 2 ^ 32" "length (string_code str) \<le> left" "k \<le> length str"
  shows "let parent = pb_istream_from_buffer (string_code str @ rest) left :: 's pb_istream_t;
             sub = istream_at (str @ rest) (length str) None;
             parent' = istream_at (str @ rest) (left - length (string_code str)) None
    in pb_make_string_substream parent = (Ok sub, parent') \<and>
       (\<forall>e. pb_close_string_substream (istream_at (drop k str @ rest) (length str - k) e) parent' =
          (Ok (), istream_at rest (left - length (string_code str)) e)) \<and>
       (\<forall>short < length str.
          fst (pb_make_string_substream (pb_istream_from_buffer (string_code str @ rest)
             (length (string_code str) - length str + short) :: 's pb_istream_t)) = Fail)"
proof -
  let ?c = "varint_code (of_nat (length str))"
  have step: "pb_decode_varint32 (istream_at (string_code str @ rest) n e :: 's pb_istream_t) =
      (Ok (ucast (of_nat (length str) :: u64)), istream_at (str @ rest) (n - length ?c) e)"
    if "length ?c \<le> n" for n e
    using parsesD [OF pb_decode_length_parses [OF assms(1)], of n "str @ rest" e] that
    by (simp add: string_code_def)
  have close: "pb_read False (length str - k) (istream_at (drop k str @ rest) (length str - k) e
      :: 's pb_istream_t) = (Ok [], istream_at rest 0 e)" for e
    using parsesD [OF pb_read_parses_n [of "drop k str" "length str - k" False],
      of "length str - k" rest e] by simp
  have len: "length (string_code str) = length ?c + length str" by (simp add: string_code_def)
  show ?thesis
    unfolding Let_def pb_make_string_substream_def pb_istream_from_buffer_def
    using assms step close
    by (auto simp: seq_def length_word len pb_close_string_substream_def i_error_def)
qed

theorem substream_bracket_witness:
  "let parent = pb_istream_from_buffer (string_code [1, 2, 3] @ [4]) 5 :: nat pb_istream_t;
             sub = istream_at ([1, 2, 3] @ [4]) (length [1, 2, 3 :: byte]) None;
             parent' = istream_at ([1, 2, 3] @ [4]) (5 - length (string_code [1, 2, 3])) None
    in pb_make_string_substream parent = (Ok sub, parent') \<and>
       (\<forall>e. pb_close_string_substream
            (istream_at (drop 1 [1, 2, 3] @ [4]) (length [1, 2, 3 :: byte] - 1) e) parent' =
          (Ok (), istream_at [4] (5 - length (string_code [1, 2, 3])) e)) \<and>
       (\<forall>short < length [1, 2, 3 :: byte].
          fst (pb_make_string_substream (pb_istream_from_buffer (string_code [1, 2, 3] @ [4])
             (length (string_code [1, 2, 3]) - length [1, 2, 3 :: byte] + short)
               :: nat pb_istream_t)) = Fail)"
  by (rule substream_bracket) (simp_all add: string_code_def varint_code.simps)

end
