(* ===== verification/Pb_Memory.thy ===== *)
theory Pb_Memory
  imports Pb_Types
begin

text \<open>
  The memory nanopb's message structures live in: a partial function from 64-bit addresses to bytes,
  little-endian, with pointers of eight bytes (the arm64 and x86_64 targets of the app), so that the
  pointer arithmetic of the iterator and the casts of the encoder and the decoder are arithmetic and
  accesses of the model.  Reading or writing an address that is not mapped is undefined.
\<close>

type_synonym addr = "64 word"
type_synonym mem = "addr \<rightharpoonup> byte"

fun rd :: "mem \<Rightarrow> addr \<Rightarrow> nat \<Rightarrow> byte list option" where
  "rd m a 0 = Some []"
| "rd m a (Suc n) = (case m a of None \<Rightarrow> None
     | Some b \<Rightarrow> (case rd m (a + 1) n of None \<Rightarrow> None | Some bs \<Rightarrow> Some (b # bs)))"

fun wr :: "mem \<Rightarrow> addr \<Rightarrow> byte list \<Rightarrow> mem option" where
  "wr m a [] = Some m"
| "wr m a (b # bs) = (case m a of None \<Rightarrow> None | Some _ \<Rightarrow> wr (m(a \<mapsto> b)) (a + 1) bs)"

definition rdw :: "mem \<Rightarrow> addr \<Rightarrow> nat \<Rightarrow> 'a::len word option" where
  "rdw m a n = map_option le_val (rd m a n)"

definition wrw :: "mem \<Rightarrow> addr \<Rightarrow> nat \<Rightarrow> 'a::len word \<Rightarrow> mem option" where
  "wrw m a n v = wr m a (le_bytes n v)"

abbreviation rd16 :: "mem \<Rightarrow> addr \<Rightarrow> u16 option" where "rd16 m a \<equiv> rdw m a 2"
abbreviation rd32 :: "mem \<Rightarrow> addr \<Rightarrow> u32 option" where "rd32 m a \<equiv> rdw m a 4"
abbreviation rd64 :: "mem \<Rightarrow> addr \<Rightarrow> u64 option" where "rd64 m a \<equiv> rdw m a 8"

text \<open>A read inside a call: undefined when it leaves the mapped memory.\<close>

definition load :: "'a option \<Rightarrow> ('a, 's) act" where
  "load x = (case x of None \<Rightarrow> undef | Some v \<Rightarrow> ret v)"

text \<open>The addresses of a block of \<open>n\<close> bytes.\<close>

definition block :: "addr \<Rightarrow> nat \<Rightarrow> addr set" where
  "block a n = (\<lambda>i. a + of_nat i) ` {..<n}"

lemma block_Suc: "block a (Suc n) = insert a (block (a + 1) n)"
proof -
  have "{..<Suc n} = insert 0 (Suc ` {..<n})" by (auto simp: less_Suc_eq_0_disj)
  then show ?thesis by (auto simp: block_def image_image algebra_simps)
qed

lemma block_0 [simp]: "block a 0 = {}"
  by (simp add: block_def)

lemma block_mono: "m \<le> n \<Longrightarrow> block a m \<subseteq> block a n"
  by (auto simp: block_def)

lemma block_add: "block (a + of_nat k) n \<subseteq> block a (k + n)"
proof
  fix p
  assume "p \<in> block (a + of_nat k) n"
  then obtain i where "i < n" "p = a + of_nat k + of_nat i" unfolding block_def by blast
  then have "p = a + of_nat (k + i)" "k + i < k + n" by simp_all
  then show "p \<in> block a (k + n)" unfolding block_def by blast
qed

lemma not_in_next_block: "n < 2 ^ 64 \<Longrightarrow> a \<notin> block (a + 1) n"
proof
  assume n: "n < 2 ^ 64" and "a \<in> block (a + 1) n"
  then obtain i where i: "i < n" "a = a + 1 + of_nat i" by (auto simp: block_def)
  then have "(of_nat (Suc i) :: addr) = 0" by (simp add: algebra_simps)
  moreover have "unat (of_nat (Suc i) :: addr) = Suc i"
    using i(1) n by (intro unat_of_nat_lt) simp
  ultimately show False by simp
qed

lemma length_rd: "rd m a n = Some bs \<Longrightarrow> length bs = n"
  by (induction n arbitrary: a bs) (auto split: option.splits)

lemma rd_mapped: "rd m a n \<noteq> None \<longleftrightarrow> block a n \<subseteq> dom m"
proof (induction n arbitrary: a)
  case (Suc n)
  then show ?case
    using Suc [of "a + 1"] by (cases "m a"; cases "rd m (a + 1) n") (auto simp: block_Suc)
qed simp

lemma wr_mapped: "wr m a bs \<noteq> None \<longleftrightarrow> block a (length bs) \<subseteq> dom m"
proof (induction bs arbitrary: m a)
  case Nil
  show ?case by simp
next
  case (Cons b bs)
  have "dom (m(a \<mapsto> b)) = dom m" if "m a \<noteq> None" using that by auto
  then show ?case
    using Cons [of "m(a \<mapsto> b)" "a + 1"]
    by (auto simp: block_Suc simp del: fun_upd_apply split: option.splits)
qed

lemma wr_dom: "wr m a bs = Some m' \<Longrightarrow> dom m' = dom m"
  by (induction m a bs rule: wr.induct) (auto split: option.splits)

lemma wr_outside: "wr m a bs = Some m' \<Longrightarrow> p \<notin> block a (length bs) \<Longrightarrow> m' p = m p"
  by (induction m a bs rule: wr.induct) (auto simp: block_Suc split: option.splits)

lemma rd_cong: "(\<And>p. p \<in> block a n \<Longrightarrow> m p = m' p) \<Longrightarrow> rd m a n = rd m' a n"
proof (induction n arbitrary: a)
  case (Suc n)
  have "rd m (a + 1) n = rd m' (a + 1) n" using Suc by (simp add: block_Suc)
  moreover have "m a = m' a" using Suc.prems by (simp add: block_Suc)
  ultimately show ?case by (simp only: rd.simps)
qed simp

lemma rd_wr_same: "wr m a bs = Some m' \<Longrightarrow> length bs \<le> 2 ^ 64 \<Longrightarrow> rd m' a (length bs) = Some bs"
proof (induction m a bs rule: wr.induct)
  case 1
  then show ?case by simp
next
  case (2 m a b bs)
  then have wr: "wr (m(a \<mapsto> b)) (a + 1) bs = Some m'" by (auto split: option.splits)
  then have "m' a = Some b"
    using wr_outside [OF wr, of a] not_in_next_block [of "length bs" a] 2 by simp
  with 2 wr show ?case by (auto simp del: fun_upd_apply split: option.splits)
qed

end
