(* ===== verification/Pb_Iter.thy ===== *)
theory Pb_Iter
  imports Pb_Memory
begin

text \<open>
  The field iterator over message structures (pb_common.c) and the descriptor macros of pb.h.  The
  lemmas show that the iterator finds the members of a C structure at their addresses, and that its
  searches end and are exact.
\<close>

section \<open>The field iterator\<close>

text \<open>
  A descriptor array is a list without its terminator; the element behind the last one is
  \<open>PB_LAST_FIELD\<close>.  The decoder sometimes points \<open>pSize\<close> at a local variable of its own
  (\<open>fixed_count_size\<close> of \<open>pb_decode_noinit\<close>), which is not part of memory.
\<close>

datatype size_ptr = InMem addr | FixedCount

record pb_field_iter_t =
  start :: "pb_field_t list"
  pos :: nat
  required_field_index :: nat
  dest_struct :: addr
  pData :: addr
  pSize :: size_ptr

definition field_at :: "pb_field_t list \<Rightarrow> nat \<Rightarrow> pb_field_t" where
  "field_at fs i = (if i < length fs then fs ! i else PB_LAST_FIELD)"

abbreviation iter_field :: "pb_field_iter_t \<Rightarrow> pb_field_t" where
  "iter_field it \<equiv> field_at (start it) (pos it)"

definition pb_field_iter_begin :: "pb_field_t list \<Rightarrow> addr \<Rightarrow> bool \<times> pb_field_iter_t" where
  "pb_field_iter_begin fs dest =
     (let f = field_at fs 0; d = dest + ucast (data_offset f)
      in (tag f \<noteq> 0,
          \<lparr>start = fs, pos = 0, required_field_index = 0, dest_struct = dest, pData = d,
           pSize = InMem (d + scast (size_offset f))\<rparr>))"

definition pb_field_iter_next :: "pb_field_iter_t \<Rightarrow> bool \<times> pb_field_iter_t" where
  "pb_field_iter_next it =
     (let prev_field = iter_field it; cur = field_at (start it) (pos it + 1)
      in if tag prev_field = 0 then (False, it)
         else if tag cur = 0
         then (False, snd (pb_field_iter_begin (start it) (dest_struct it)))
         else if PB_HTYPE (ftype prev_field) = PB_HTYPE_ONEOF \<and>
                 PB_HTYPE (ftype cur) = PB_HTYPE_ONEOF \<and> data_offset cur = PB_SIZE_MAX
         then (True, it\<lparr>pos := pos it + 1\<rparr>)
         else
           (let prev_size = (
                  if PB_ATYPE (ftype prev_field) = PB_ATYPE_STATIC \<and>
                     PB_HTYPE (ftype prev_field) = PB_HTYPE_REPEATED
                  then ucast (data_size prev_field) * ucast (array_size prev_field)
                  else if PB_ATYPE (ftype prev_field) = PB_ATYPE_POINTER then 8
                  else ucast (data_size prev_field));
                d = pData it + prev_size + ucast (data_offset cur)
            in (True, it\<lparr>pos := pos it + 1,
                  required_field_index := required_field_index it +
                    (if PB_HTYPE (ftype prev_field) = PB_HTYPE_REQUIRED then 1 else 0),
                  pData := d, pSize := InMem (d + scast (size_offset cur))\<rparr>)))"

text \<open>
  The do-while loops of \<open>pb_field_iter_find\<close> and of \<open>find_extension_field\<close> step around the array
  until they are back where they began.  The search stops within one round; one unit of fuel per
  field and one more is enough (\<open>iter_search_total\<close>), and running out is \<open>None\<close>.
\<close>

fun iter_search :: "nat \<Rightarrow> (pb_field_t \<Rightarrow> bool) \<Rightarrow> nat \<Rightarrow> pb_field_iter_t \<Rightarrow>
    (bool \<times> pb_field_iter_t) option" where
  "iter_search 0 wanted first it = None"
| "iter_search (Suc fuel) wanted first it =
     (if wanted (iter_field it) then Some (True, it)
      else (let it' = snd (pb_field_iter_next it)
            in if pos it' = first then Some (False, it') else iter_search fuel wanted first it'))"

definition pb_field_iter_find :: "u32 \<Rightarrow> pb_field_iter_t \<Rightarrow> (bool \<times> pb_field_iter_t) option" where
  "pb_field_iter_find t it = iter_search (Suc (length (start it)))
     (\<lambda>f. tag f = t \<and> PB_LTYPE (ftype f) \<noteq> PB_LTYPE_EXTENSION) (pos it) it"

definition find_extension_field :: "pb_field_iter_t \<Rightarrow> (bool \<times> pb_field_iter_t) option" where
  "find_extension_field it = iter_search (Suc (length (start it)))
     (\<lambda>f. PB_LTYPE (ftype f) = PB_LTYPE_EXTENSION) (pos it) it"

text \<open>
  The loop \<open>do { ... } while (pb_field_iter_next(&iter))\<close> of the encoder and of the decoder; its body
  returns false to leave the loop early.
\<close>

lemma iter_next_measure:
  "fst (pb_field_iter_next it) \<Longrightarrow>
   length (start (snd (pb_field_iter_next it))) - pos (snd (pb_field_iter_next it)) <
   length (start it) - pos it"
  by (auto simp: pb_field_iter_next_def field_at_def PB_LAST_FIELD_def Let_def split: if_splits)

function iter_while :: "(pb_field_iter_t \<Rightarrow> (bool, 's) act) \<Rightarrow> pb_field_iter_t \<Rightarrow> (bool, 's) act" where
  "iter_while body it = seq (body it) (\<lambda>go.
     if \<not> go then ret False
     else if fst (pb_field_iter_next it) then iter_while body (snd (pb_field_iter_next it))
     else ret True)"
  by pat_completeness auto
termination
  by (relation "measure (\<lambda>(body, it). length (start it) - pos it)") (auto intro: iter_next_measure)

declare iter_while.simps [simp del]

section \<open>Walking over a structure\<close>

text \<open>The iterator after \<open>i\<close> successful steps from the beginning.\<close>

fun iter_at :: "pb_field_t list \<Rightarrow> addr \<Rightarrow> nat \<Rightarrow> pb_field_iter_t" where
  "iter_at fs d 0 = snd (pb_field_iter_begin fs d)"
| "iter_at fs d (Suc i) = snd (pb_field_iter_next (iter_at fs d i))"

text \<open>A descriptor array without an early terminator.\<close>

definition tags_ok :: "pb_field_t list \<Rightarrow> bool" where
  "tags_ok fs \<longleftrightarrow> (\<forall>f \<in> set fs. tag f \<noteq> 0)"

lemma tag_field_at: "tags_ok fs \<Longrightarrow> tag (field_at fs i) = 0 \<longleftrightarrow> length fs \<le> i"
  by (auto simp: tags_ok_def field_at_def PB_LAST_FIELD_def)

lemma iter_at_static:
  assumes "tags_ok fs" "i < length fs"
  shows "start (iter_at fs d i) = fs" "dest_struct (iter_at fs d i) = d" "pos (iter_at fs d i) = i"
  using assms(2)
proof (induction i)
  case 0
  { case 1 show ?case by (simp add: pb_field_iter_begin_def Let_def) }
  { case 2 show ?case by (simp add: pb_field_iter_begin_def Let_def) }
  { case 3 show ?case by (simp add: pb_field_iter_begin_def Let_def) }
next
  case (Suc i)
  have i: "start (iter_at fs d i) = fs" "dest_struct (iter_at fs d i) = d"
    "pos (iter_at fs d i) = i" if "Suc i < length fs"
    using Suc that by simp_all
  { case 1 show ?case using i 1 assms(1)
      by (auto simp: pb_field_iter_next_def Let_def tag_field_at) }
  { case 2 show ?case using i 2 assms(1)
      by (auto simp: pb_field_iter_next_def Let_def tag_field_at) }
  { case 3 show ?case using i 3 assms(1)
      by (auto simp: pb_field_iter_next_def Let_def tag_field_at) }
qed

lemma iter_next_at:
  assumes "tags_ok fs" "i < length fs"
  shows "pb_field_iter_next (iter_at fs d i) =
    (if Suc i < length fs then (True, iter_at fs d (Suc i)) else (False, iter_at fs d 0))"
  using assms iter_at_static [OF assms, of d]
  by (auto simp: pb_field_iter_next_def Let_def tag_field_at)

text \<open>The cyclic successor of a position, and the search along it.\<close>

definition next_pos :: "nat \<Rightarrow> nat \<Rightarrow> nat" where
  "next_pos n i = (if Suc i < n then Suc i else 0)"

lemma iter_next_pos:
  assumes "tags_ok fs" "i < length fs"
  shows "snd (pb_field_iter_next (iter_at fs d i)) = iter_at fs d (next_pos (length fs) i)"
  using iter_next_at [OF assms] by (simp add: next_pos_def del: iter_at.simps)

text \<open>Positions still to visit before the search is back at \<open>first\<close>.\<close>

definition ahead :: "nat \<Rightarrow> nat \<Rightarrow> nat \<Rightarrow> nat set" where
  "ahead n first i = (if first \<le> i then {i..<n} \<union> {..<first} else {i..<first})"

lemma ahead_step:
  assumes "i < n" "first < n" "next_pos n i \<noteq> first"
  shows "ahead n first i = insert i (ahead n first (next_pos n i))"
    "i \<notin> ahead n first (next_pos n i)"
  using assms by (auto simp: ahead_def next_pos_def split: if_splits)

lemma card_ahead_le: "first < n \<Longrightarrow> i < n \<Longrightarrow> card (ahead n first i) \<le> n"
proof -
  assume "first < n" "i < n"
  then have "ahead n first i \<subseteq> {..<n}" by (auto simp: ahead_def split: if_splits)
  then show ?thesis using card_mono [of "{..<n}" "ahead n first i"] by simp
qed

lemma ahead_last:
  "i < n \<Longrightarrow> first < n \<Longrightarrow> next_pos n i = first \<Longrightarrow> ahead n first i = {i}"
  by (auto simp: ahead_def next_pos_def split: if_splits)

lemma iter_search_at:
  assumes "tags_ok fs" "i < length fs" "first < length fs"
    "card (ahead (length fs) first i) < fuel"
  shows "\<exists>j. j < length fs \<and>
     iter_search fuel wanted first (iter_at fs d i) =
       Some (\<exists>k \<in> ahead (length fs) first i. wanted (fs ! k), iter_at fs d j) \<and>
     (if \<exists>k \<in> ahead (length fs) first i. wanted (fs ! k)
      then wanted (fs ! j) \<and> j \<in> ahead (length fs) first i else j = first)"
  using assms(2,4)
proof (induction fuel arbitrary: i)
  case 0
  then show ?case by simp
next
  case (Suc fuel)
  let ?n = "length fs" and ?i' = "next_pos (length fs) i"
  note st = iter_at_static [OF assms(1) Suc.prems(1), of d]
  have f: "iter_field (iter_at fs d i) = fs ! i" using st Suc.prems by (simp add: field_at_def)
  have i': "?i' < ?n" using Suc.prems(1) by (auto simp: next_pos_def)
  have in_ahead: "i \<in> ahead ?n first i" using Suc.prems(1) by (auto simp: ahead_def)
  show ?case
  proof (cases "wanted (fs ! i)")
    case True
    then show ?thesis using f in_ahead Suc.prems(1) by auto
  next
    case False
    have pos': "pos (iter_at fs d ?i') = ?i'" using iter_at_static(3) [OF assms(1) i'] .
    show ?thesis
    proof (cases "?i' = first")
      case True
      then show ?thesis using False f pos' assms(3) ahead_last [OF Suc.prems(1) assms(3) True]
        by (auto simp: iter_next_pos [OF assms(1) Suc.prems(1)] Let_def)
    next
      case F: False
      note step = ahead_step [OF Suc.prems(1) assms(3) F]
      have "finite (ahead ?n first ?i')" by (simp add: ahead_def)
      then have "card (ahead ?n first ?i') < fuel" using Suc.prems(2) step by simp
      from Suc.IH [OF i' this] obtain j where "j < length fs"
        "iter_search fuel wanted first (iter_at fs d ?i') =
           Some (\<exists>k \<in> ahead ?n first ?i'. wanted (fs ! k), iter_at fs d j)"
        "if \<exists>k \<in> ahead ?n first ?i'. wanted (fs ! k)
         then wanted (fs ! j) \<and> j \<in> ahead ?n first ?i' else j = first" by blast
      then show ?thesis using False F f pos' step(1)
        by (intro exI [of _ j])
          (simp add: iter_next_pos [OF assms(1) Suc.prems(1)] Let_def split: if_splits)
    qed
  qed
qed

lemma ahead_all: "i < n \<Longrightarrow> ahead n i i = {..<n}"
  by (auto simp: ahead_def)

lemma iter_search_total:
  assumes "tags_ok fs" "i < length fs"
  shows "\<exists>j. j < length fs \<and>
     iter_search (Suc (length fs)) wanted i (iter_at fs d i) =
       Some (\<exists>f \<in> set fs. wanted f, iter_at fs d j) \<and>
     (if \<exists>f \<in> set fs. wanted f then wanted (fs ! j) else j = i)"
proof -
  have "(\<exists>k \<in> ahead (length fs) i i. wanted (fs ! k)) \<longleftrightarrow> (\<exists>f \<in> set fs. wanted f)"
    using assms(2) by (simp add: ahead_all Bex_def in_set_conv_nth) blast
  moreover have "card (ahead (length fs) i i) < Suc (length fs)"
    using card_ahead_le [OF assms(2) assms(2)] by simp
  moreover from iter_search_at [OF assms assms(2) this, of wanted d] obtain j where
    "j < length fs"
    "iter_search (Suc (length fs)) wanted i (iter_at fs d i) =
       Some (\<exists>k \<in> ahead (length fs) i i. wanted (fs ! k), iter_at fs d j)"
    "if \<exists>k \<in> ahead (length fs) i i. wanted (fs ! k)
     then wanted (fs ! j) \<and> j \<in> ahead (length fs) i i else j = i" by blast
  ultimately show ?thesis
    by (intro exI [of _ j]) (simp del: iter_search.simps split: if_splits)
qed

section \<open>Descriptors of a C structure\<close>

text \<open>
  The macros of pb.h that fill in a descriptor from the layout of the structure.  A member is given
  by its \<open>offsetof\<close>, its \<open>sizeof\<close>, the size of its first element (\<open>m[0]\<close>, for a pointer the
  pointee) and the offset of its companion (\<open>has_m\<close>, \<open>m_count\<close> or the \<open>which_u\<close> of its union).
\<close>

record pb_member =
  m_offset :: nat
  m_size :: nat
  m_elem :: nat
  m_companion :: nat

datatype pb_rules = REQUIRED | OPTIONAL | SINGULAR | REPEATED | REPEATED_FIXED_COUNT | ONEOF
datatype pb_allocation = STATIC | POINTER | CALLBACK
datatype pb_placement = FIRST | OTHER | UNION

fun PB_DATAOFFSET :: "pb_placement \<Rightarrow> pb_member \<Rightarrow> pb_member \<Rightarrow> pb_size_t" where
  "PB_DATAOFFSET FIRST m1 m2 = of_nat (m_offset m1)"
| "PB_DATAOFFSET OTHER m1 m2 =
     ucast (of_nat (m_offset m1) - of_nat (m_offset m2) - of_nat (m_size m2) :: size_t)"
| "PB_DATAOFFSET UNION m1 m2 = PB_SIZE_MAX"

definition pb_delta :: "nat \<Rightarrow> nat \<Rightarrow> 32 word" where
  "pb_delta m1 m2 = of_nat m1 - of_nat m2"

fun PB_HTYPE_OF :: "pb_rules \<Rightarrow> pb_type_t" where
  "PB_HTYPE_OF REQUIRED = PB_HTYPE_REQUIRED"
| "PB_HTYPE_OF OPTIONAL = PB_HTYPE_OPTIONAL"
| "PB_HTYPE_OF SINGULAR = PB_HTYPE_OPTIONAL"
| "PB_HTYPE_OF REPEATED = PB_HTYPE_REPEATED"
| "PB_HTYPE_OF REPEATED_FIXED_COUNT = PB_HTYPE_REPEATED"
| "PB_HTYPE_OF ONEOF = PB_HTYPE_ONEOF"

fun PB_ATYPE_OF :: "pb_allocation \<Rightarrow> pb_type_t" where
  "PB_ATYPE_OF STATIC = PB_ATYPE_STATIC"
| "PB_ATYPE_OF POINTER = PB_ATYPE_POINTER"
| "PB_ATYPE_OF CALLBACK = PB_ATYPE_CALLBACK"

text \<open>Whether the descriptor points at a companion of the member, and what its sizes are.\<close>

fun has_companion :: "pb_rules \<Rightarrow> pb_allocation \<Rightarrow> bool" where
  "has_companion OPTIONAL alloc = (alloc = STATIC)"
| "has_companion REPEATED alloc = (alloc = STATIC \<or> alloc = POINTER)"
| "has_companion ONEOF alloc = True"
| "has_companion rules alloc = False"

definition is_array :: "pb_rules \<Rightarrow> pb_allocation \<Rightarrow> bool" where
  "is_array rules alloc \<longleftrightarrow> (rules = REPEATED \<or> rules = REPEATED_FIXED_COUNT) \<and> alloc = STATIC"

definition PB_FIELD :: "pb_size_t \<Rightarrow> pb_type_t \<Rightarrow> pb_rules \<Rightarrow> pb_allocation \<Rightarrow> pb_placement \<Rightarrow>
    pb_member \<Rightarrow> pb_member \<Rightarrow> pb_ptr \<Rightarrow> pb_field_t" where
  "PB_FIELD t ltype rules alloc placement m prev p =
     \<lparr>tag = t, ftype = PB_ATYPE_OF alloc OR PB_HTYPE_OF rules OR ltype,
      data_offset = PB_DATAOFFSET placement m prev,
      size_offset = (if has_companion rules alloc then pb_delta (m_companion m) (m_offset m) else 0),
      data_size = of_nat (if is_array rules alloc \<or> alloc = POINTER then m_elem m else m_size m),
      array_size = of_nat (if is_array rules alloc then m_size m div m_elem m else 0),
      fptr = p\<rparr>"

lemma PB_TYPE_fields:
  assumes "PB_LTYPE l = l"
  shows "PB_HTYPE (PB_ATYPE_OF a OR PB_HTYPE_OF r OR l) = PB_HTYPE_OF r"
    "PB_ATYPE (PB_ATYPE_OF a OR PB_HTYPE_OF r OR l) = PB_ATYPE_OF a"
    "PB_LTYPE (PB_ATYPE_OF a OR PB_HTYPE_OF r OR l) = l"
proof -
  have l: "l AND 0x0F = l" using assms by (simp add: PB_LTYPE_def)
  have "l AND 0x30 = (l AND 0x0F) AND 0x30" "l AND 0xC0 = (l AND 0x0F) AND 0xC0" by (simp_all add: l)
  then have z: "l AND 0x30 = 0" "l AND 0xC0 = 0" by (simp_all add: and.assoc)
  show "PB_HTYPE (PB_ATYPE_OF a OR PB_HTYPE_OF r OR l) = PB_HTYPE_OF r"
    by (cases a; cases r) (simp_all add: PB_HTYPE_def bit.conj_disj_distrib2 z)
  show "PB_ATYPE (PB_ATYPE_OF a OR PB_HTYPE_OF r OR l) = PB_ATYPE_OF a"
    by (cases a; cases r) (simp_all add: PB_ATYPE_def bit.conj_disj_distrib2 z)
  show "PB_LTYPE (PB_ATYPE_OF a OR PB_HTYPE_OF r OR l) = l"
    by (cases a; cases r) (simp_all add: PB_LTYPE_def bit.conj_disj_distrib2 l)
qed

text \<open>
  A structure as its declarations in order, the descriptor array the generator writes for it, and
  when the declarations are a C structure: members follow one another, the members of a union
  share their place and their \<open>which_\<close> companion, and everything lies within two gigabytes.
\<close>

record pb_decl =
  d_tag :: pb_size_t
  d_ltype :: pb_type_t
  d_rules :: pb_rules
  d_alloc :: pb_allocation
  d_place :: pb_placement
  d_member :: pb_member
  d_ptr :: pb_ptr

definition pb_descriptor :: "pb_decl list \<Rightarrow> nat \<Rightarrow> pb_field_t" where
  "pb_descriptor ds i = (let e = ds ! i in
     PB_FIELD (d_tag e) (d_ltype e) (d_rules e) (d_alloc e) (d_place e) (d_member e)
       (d_member (ds ! (i - 1))) (d_ptr e))"

definition pb_descriptors :: "pb_decl list \<Rightarrow> pb_field_t list" where
  "pb_descriptors ds = map (pb_descriptor ds) [0..<length ds]"

definition decl_ok :: "pb_decl \<Rightarrow> bool" where
  "decl_ok e \<longleftrightarrow> d_tag e \<noteq> 0 \<and> PB_LTYPE (d_ltype e) = d_ltype e \<and>
     m_offset (d_member e) < 2 ^ 31 \<and> m_size (d_member e) < 2 ^ 31 \<and>
     m_companion (d_member e) < 2 ^ 31 \<and>
     (d_alloc e = POINTER \<longrightarrow> m_size (d_member e) = 8) \<and>
     (is_array (d_rules e) (d_alloc e) \<longrightarrow> m_elem (d_member e) dvd m_size (d_member e))"

definition follows :: "pb_decl \<Rightarrow> pb_decl \<Rightarrow> bool" where
  "follows prev e \<longleftrightarrow>
     (d_place e = OTHER \<and>
        m_offset (d_member prev) + m_size (d_member prev) \<le> m_offset (d_member e)) \<or>
     (d_place e = UNION \<and> d_rules prev = ONEOF \<and> d_rules e = ONEOF \<and>
        m_offset (d_member e) = m_offset (d_member prev) \<and>
        m_companion (d_member e) = m_companion (d_member prev))"

definition layout_ok :: "pb_decl list \<Rightarrow> bool" where
  "layout_ok ds \<longleftrightarrow> (\<forall>e \<in> set ds. decl_ok e) \<and> (ds \<noteq> [] \<longrightarrow> d_place (hd ds) = FIRST) \<and>
     (\<forall>i < length ds - 1. follows (ds ! i) (ds ! Suc i))"

lemma pb_descriptors_nth [simp]:
  "length (pb_descriptors ds) = length ds"
  "i < length ds \<Longrightarrow> field_at (pb_descriptors ds) i = pb_descriptor ds i"
  by (simp_all add: pb_descriptors_def field_at_def)

lemma layout_tags_ok: "layout_ok ds \<Longrightarrow> tags_ok (pb_descriptors ds)"
  by (auto simp: layout_ok_def tags_ok_def pb_descriptors_def pb_descriptor_def PB_FIELD_def
      decl_ok_def Let_def)

lemma ucast_of_nat_32: "n < 2 ^ 32 \<Longrightarrow> (ucast (of_nat n :: 32 word) :: 64 word) = of_nat n"
  by (simp add: word_unat_eq_iff unat_of_nat unsigned_ucast_eq unsigned_take_bit_eq
      take_bit_nat_eq_self)

lemma ucast_of_nat_64: "n < 2 ^ 32 \<Longrightarrow> (ucast (of_nat n :: 64 word) :: 32 word) = of_nat n"
  by (simp add: word_unat_eq_iff unat_of_nat unsigned_ucast_eq unsigned_take_bit_eq
      take_bit_nat_eq_self)

lemma scast_delta:
  assumes "a < 2 ^ 31" "b < 2 ^ 31"
  shows "(scast (pb_delta a b) :: 64 word) = of_nat a - of_nat b"
proof -
  have "pb_delta a b = word_of_int (int a - int b)" by (simp add: pb_delta_def)
  then have "sint (pb_delta a b) = signed_take_bit 31 (int a - int b)"
    by (simp only: sint_sbintrunc') simp
  also have "\<dots> = int a - int b" using assms by (intro signed_take_bit_int_eq_self) simp_all
  finally show ?thesis by (simp add: scast_eq)
qed

lemma data_offset_OTHER:
  assumes "m_offset p + m_size p \<le> m_offset m" "m_offset m < 2 ^ 31"
  shows "(ucast (PB_DATAOFFSET OTHER m p) :: 64 word) = of_nat (m_offset m - (m_offset p + m_size p))"
    "PB_DATAOFFSET OTHER m p \<noteq> PB_SIZE_MAX"
proof -
  let ?k = "m_offset m - (m_offset p + m_size p)"
  have k: "?k < 2 ^ 31" using assms(2) by simp
  have "(of_nat (m_offset m) - of_nat (m_offset p) - of_nat (m_size p) :: size_t) = of_nat ?k"
    using assms(1) by (simp add: of_nat_diff)
  then have eq: "PB_DATAOFFSET OTHER m p = ucast (of_nat ?k :: size_t)" by simp
  have u: "PB_DATAOFFSET OTHER m p = of_nat ?k"
    using k unfolding eq by (intro ucast_of_nat_64) simp
  then show "(ucast (PB_DATAOFFSET OTHER m p) :: 64 word) = of_nat ?k"
    using k by (simp only: u) (rule ucast_of_nat_32, simp)
  have "unat (of_nat ?k :: pb_size_t) = ?k" using k by (intro unat_of_nat_lt) simp
  then show "PB_DATAOFFSET OTHER m p \<noteq> PB_SIZE_MAX"
    using k u by (auto simp: word_unat_eq_iff)
qed

text \<open>The amount by which the iterator passes over a member is the size of the member.\<close>

definition prev_size :: "pb_field_t \<Rightarrow> size_t" where
  "prev_size f =
     (if PB_ATYPE (ftype f) = PB_ATYPE_STATIC \<and> PB_HTYPE (ftype f) = PB_HTYPE_REPEATED
      then ucast (data_size f) * ucast (array_size f)
      else if PB_ATYPE (ftype f) = PB_ATYPE_POINTER then 8 else ucast (data_size f))"

lemma prev_size_member:
  assumes "decl_ok (ds ! i)"
  shows "prev_size (pb_descriptor ds i) = of_nat (m_size (d_member (ds ! i)))"
proof -
  let ?e = "ds ! i" and ?m = "d_member (ds ! i)"
  have l: "PB_LTYPE (d_ltype ?e) = d_ltype ?e" using assms by (simp add: decl_ok_def)
  have sz: "m_size ?m < 2 ^ 31" using assms by (simp add: decl_ok_def)
  have arr: "is_array (d_rules ?e) (d_alloc ?e) \<longleftrightarrow>
      PB_ATYPE_OF (d_alloc ?e) = PB_ATYPE_STATIC \<and> PB_HTYPE_OF (d_rules ?e) = PB_HTYPE_REPEATED"
    by (cases "d_rules ?e"; cases "d_alloc ?e") (simp_all add: is_array_def)
  have ptr: "PB_ATYPE_OF (d_alloc ?e) = PB_ATYPE_POINTER \<longleftrightarrow> d_alloc ?e = POINTER"
    by (cases "d_alloc ?e") simp_all
  have ps: "prev_size (pb_descriptor ds i) =
     (if is_array (d_rules ?e) (d_alloc ?e)
      then ucast (of_nat (m_elem ?m) :: pb_size_t) * ucast (of_nat (m_size ?m div m_elem ?m) :: pb_size_t)
      else if d_alloc ?e = POINTER then 8 else ucast (of_nat (m_size ?m) :: pb_size_t))"
    unfolding prev_size_def pb_descriptor_def PB_FIELD_def Let_def pb_field_t.select_convs
      PB_TYPE_fields [OF l] arr [symmetric] ptr by simp
  show ?thesis
  proof (cases "is_array (d_rules ?e) (d_alloc ?e)")
    case True
    then have dvd: "m_elem ?m dvd m_size ?m" using assms by (simp add: decl_ok_def)
    show ?thesis
    proof (cases "m_size ?m = 0")
      case True
      then show ?thesis using \<open>is_array _ _\<close> by (simp add: ps)
    next
      case False
      then have "m_elem ?m \<le> m_size ?m" using dvd by (simp add: dvd_imp_le)
      moreover have "m_size ?m div m_elem ?m < 2 ^ 32"
        using sz by (rule order.strict_trans2 [OF le_less_trans [OF div_le_dividend]]) simp
      moreover have "(of_nat (m_elem ?m) * of_nat (m_size ?m div m_elem ?m) :: size_t)
          = of_nat (m_size ?m)"
        using dvd by (simp flip: of_nat_mult)
      ultimately show ?thesis using True sz
        by (simp add: ps ucast_of_nat_32 del: of_nat_mult)
    qed
  next
    case False
    then show ?thesis using assms sz by (simp add: ps ucast_of_nat_32 decl_ok_def)
  qed
qed

lemma pb_field_iter_next_step:
  fixes ds :: "pb_decl list" and d :: addr and i :: nat
  assumes "layout_ok ds" "Suc i < length ds"
  defines "it \<equiv> iter_at (pb_descriptors ds) d i" and "cur \<equiv> pb_descriptor ds (Suc i)"
  shows "d_place (ds ! Suc i) = UNION \<Longrightarrow> iter_at (pb_descriptors ds) d (Suc i) = it\<lparr>pos := Suc i\<rparr>"
    "d_place (ds ! Suc i) = OTHER \<Longrightarrow>
       pData (iter_at (pb_descriptors ds) d (Suc i)) =
         pData it + prev_size (pb_descriptor ds i) + ucast (data_offset cur)"
    "d_place (ds ! Suc i) = OTHER \<Longrightarrow>
       pSize (iter_at (pb_descriptors ds) d (Suc i)) =
         InMem (pData (iter_at (pb_descriptors ds) d (Suc i)) + scast (size_offset cur))"
proof -
  note tags = layout_tags_ok [OF assms(1)]
  note st = iter_at_static [OF tags, of i d, folded it_def]
  have i: "i < length (pb_descriptors ds)" using assms(2) by simp
  have ok: "decl_ok (ds ! i)" "decl_ok (ds ! Suc i)" "follows (ds ! i) (ds ! Suc i)"
    using assms(1,2) by (auto simp: layout_ok_def)
  have l: "PB_LTYPE (d_ltype (ds ! k)) = d_ltype (ds ! k)" if "k = i \<or> k = Suc i" for k
    using ok that by (auto simp: decl_ok_def)
  have fld: "field_at (start it) i = pb_descriptor ds i" "field_at (start it) (Suc i) = cur"
    using st i assms(2) by (simp_all add: cur_def)
  have nz: "tag (pb_descriptor ds i) \<noteq> 0" "tag cur \<noteq> 0"
    using ok by (simp_all add: cur_def pb_descriptor_def PB_FIELD_def Let_def decl_ok_def)
  have ht: "PB_HTYPE (ftype (pb_descriptor ds k)) = PB_HTYPE_OF (d_rules (ds ! k))"
    if "k = i \<or> k = Suc i" for k
    by (simp add: pb_descriptor_def PB_FIELD_def Let_def PB_TYPE_fields [OF l [OF that]])
  have off: "data_offset cur = PB_DATAOFFSET (d_place (ds ! Suc i)) (d_member (ds ! Suc i))
      (d_member (ds ! i))"
    by (simp add: cur_def pb_descriptor_def PB_FIELD_def Let_def)
  show "iter_at (pb_descriptors ds) d (Suc i) = it\<lparr>pos := Suc i\<rparr>"
    if "d_place (ds ! Suc i) = UNION"
    using that ok(3) st i fld nz ht [of i] ht [of "Suc i"] off
    by (simp add: pb_field_iter_next_def Let_def follows_def cur_def it_def)
  have no_union: "data_offset cur \<noteq> PB_SIZE_MAX" if "d_place (ds ! Suc i) = OTHER"
    using that ok off data_offset_OTHER(2) [of "d_member (ds ! i)" "d_member (ds ! Suc i)"]
    by (simp add: follows_def decl_ok_def)
  show "pData (iter_at (pb_descriptors ds) d (Suc i)) =
      pData it + prev_size (pb_descriptor ds i) + ucast (data_offset cur)"
    "pSize (iter_at (pb_descriptors ds) d (Suc i)) =
      InMem (pData (iter_at (pb_descriptors ds) d (Suc i)) + scast (size_offset cur))"
    if "d_place (ds ! Suc i) = OTHER"
    using st i fld nz no_union [OF that]
    by (simp_all add: pb_field_iter_next_def Let_def prev_size_def it_def [symmetric])
qed

lemma iter_at_layout:
  assumes "layout_ok ds" "i < length ds"
  shows "pos (iter_at (pb_descriptors ds) d i) = i \<and>
    pData (iter_at (pb_descriptors ds) d i) = d + of_nat (m_offset (d_member (ds ! i))) \<and>
    (has_companion (d_rules (ds ! i)) (d_alloc (ds ! i)) \<longrightarrow>
       pSize (iter_at (pb_descriptors ds) d i) = InMem (d + of_nat (m_companion (d_member (ds ! i))))) \<and>
    (\<not> has_companion (d_rules (ds ! i)) (d_alloc (ds ! i)) \<longrightarrow>
       pSize (iter_at (pb_descriptors ds) d i) = InMem (pData (iter_at (pb_descriptors ds) d i)))"
  using assms(2)
proof (induction i)
  case 0
  then have ok: "decl_ok (ds ! 0)" "d_place (ds ! 0) = FIRST"
    using assms(1) by (auto simp: layout_ok_def hd_conv_nth)
  have "field_at (pb_descriptors ds) 0 = pb_descriptor ds 0" using 0 by simp
  then show ?case using ok
    by (simp add: pb_field_iter_begin_def Let_def pb_descriptor_def PB_FIELD_def decl_ok_def
        ucast_of_nat_32 scast_delta)
next
  case (Suc i)
  have i: "i < length ds" using Suc.prems by simp
  have ok: "decl_ok (ds ! i)" "decl_ok (ds ! Suc i)" "follows (ds ! i) (ds ! Suc i)"
    using assms(1) Suc.prems by (auto simp: layout_ok_def)
  note step = pb_field_iter_next_step [OF assms(1) Suc.prems, of d]
  have pos: "pos (iter_at (pb_descriptors ds) d (Suc i)) = Suc i"
    using iter_at_static(3) [OF layout_tags_ok [OF assms(1)]] Suc.prems
    by (simp del: iter_at.simps)
  show ?case
  proof (cases "d_place (ds ! Suc i) = UNION")
    case True
    then show ?thesis
      using step(1) Suc.IH [OF i] ok(3) by (simp add: follows_def del: iter_at.simps)
  next
    case False
    then have pl: "d_place (ds ! Suc i) = OTHER" and
      le: "m_offset (d_member (ds ! i)) + m_size (d_member (ds ! i)) \<le> m_offset (d_member (ds ! Suc i))"
      using ok(3) by (auto simp: follows_def)
    have "pData (iter_at (pb_descriptors ds) d (Suc i)) =
        d + of_nat (m_offset (d_member (ds ! i))) + of_nat (m_size (d_member (ds ! i))) +
        of_nat (m_offset (d_member (ds ! Suc i)) -
          (m_offset (d_member (ds ! i)) + m_size (d_member (ds ! i))))"
      using step(2) [OF pl] Suc.IH [OF i] prev_size_member [OF ok(1)] data_offset_OTHER(1) [OF le] ok(2) pl
      by (simp add: pb_descriptor_def PB_FIELD_def Let_def decl_ok_def
          del: iter_at.simps PB_DATAOFFSET.simps)
    then have data: "pData (iter_at (pb_descriptors ds) d (Suc i)) =
        d + of_nat (m_offset (d_member (ds ! Suc i)))"
      using le by (simp add: of_nat_diff del: iter_at.simps)
    moreover have "scast (size_offset (pb_descriptor ds (Suc i))) =
        (of_nat (m_companion (d_member (ds ! Suc i))) - of_nat (m_offset (d_member (ds ! Suc i))) :: addr)"
      if "has_companion (d_rules (ds ! Suc i)) (d_alloc (ds ! Suc i))"
      using that ok(2) by (simp add: pb_descriptor_def PB_FIELD_def Let_def scast_delta decl_ok_def)
    moreover have "size_offset (pb_descriptor ds (Suc i)) = 0"
      if "\<not> has_companion (d_rules (ds ! Suc i)) (d_alloc (ds ! Suc i))"
      using that by (simp add: pb_descriptor_def PB_FIELD_def Let_def)
    ultimately show ?thesis using pos step(3) [OF pl] by (auto simp del: iter_at.simps)
  qed
qed

section \<open>Properties\<close>

text \<open>
  C4. For a descriptor array that the PB_FIELD macros of pb.h fill in from the layout of a C structure
  (members in order, unions sharing their place), the iterator of pb_common.c visits the descriptors
  in order, at every one of them \<open>pData\<close> is the address of the member itself, and where the member
  has a companion (has_, _count or which_) \<open>pSize\<close> is the address of the companion.
\<close>

theorem iterator_follows_layout:
  assumes "layout_ok ds" "i < length ds"
  shows "pos (iter_at (pb_descriptors ds) d i) = i \<and>
    pData (iter_at (pb_descriptors ds) d i) = d + of_nat (m_offset (d_member (ds ! i))) \<and>
    (has_companion (d_rules (ds ! i)) (d_alloc (ds ! i)) \<longrightarrow>
       pSize (iter_at (pb_descriptors ds) d i) = InMem (d + of_nat (m_companion (d_member (ds ! i)))))"
  using iter_at_layout [OF assms] by simp

text \<open>
  A structure with a required member, an optional array behind padding and a union of two pointers.
\<close>

definition sample_decls :: "pb_decl list" where
  "sample_decls =
    [\<lparr>d_tag = 1, d_ltype = PB_LTYPE_UVARINT, d_rules = REQUIRED, d_alloc = STATIC, d_place = FIRST,
       d_member = \<lparr>m_offset = 0, m_size = 4, m_elem = 4, m_companion = 0\<rparr>, d_ptr = PtrNull\<rparr>,
     \<lparr>d_tag = 2, d_ltype = PB_LTYPE_FIXED64, d_rules = REPEATED, d_alloc = STATIC, d_place = OTHER,
       d_member = \<lparr>m_offset = 8, m_size = 24, m_elem = 8, m_companion = 4\<rparr>, d_ptr = PtrNull\<rparr>,
     \<lparr>d_tag = 3, d_ltype = PB_LTYPE_STRING, d_rules = ONEOF, d_alloc = POINTER, d_place = OTHER,
       d_member = \<lparr>m_offset = 40, m_size = 8, m_elem = 1, m_companion = 32\<rparr>, d_ptr = PtrNull\<rparr>,
     \<lparr>d_tag = 4, d_ltype = PB_LTYPE_BYTES, d_rules = ONEOF, d_alloc = POINTER, d_place = UNION,
       d_member = \<lparr>m_offset = 40, m_size = 8, m_elem = 1, m_companion = 32\<rparr>, d_ptr = PtrNull\<rparr>]"

lemma sample_layout_ok: "layout_ok sample_decls"
  by (simp add: layout_ok_def sample_decls_def decl_ok_def follows_def is_array_def PB_LTYPE_def
      less_Suc_eq nth_Cons split: nat.split)

lemma length_sample: "length sample_decls = 4" by code_simp

theorem iterator_follows_layout_witness:
  "pData (iter_at (pb_descriptors sample_decls) 0x1000 3) = 0x1028 \<and>
   pSize (iter_at (pb_descriptors sample_decls) 0x1000 3) = InMem 0x1020"
  using iterator_follows_layout [OF sample_layout_ok, of 3 "0x1000"] length_sample
  by (simp add: sample_decls_def del: iter_at.simps)

text \<open>
  On an array without fields the search only sees the terminator, whose tag is 0 and whose type is that
  of a boolean.
\<close>

lemma iter_search_empty:
  "pb_field_iter_find t (iter_at [] d 0) = Some (t = 0, iter_at [] d 0)"
  "find_extension_field (iter_at [] d 0) = Some (False, iter_at [] d 0)"
  by (auto simp: pb_field_iter_find_def find_extension_field_def pb_field_iter_begin_def
      pb_field_iter_next_def field_at_def PB_LAST_FIELD_def PB_LTYPE_def Let_def)

text \<open>
  C5. Searching always ends, within one round, and is exact on every array that has a field: from any
  position, \<open>pb_field_iter_find\<close> comes back on a field with the wanted number when the array has one that
  is not an extension placeholder, and on the field it started from with the result false when it has
  none; \<open>find_extension_field\<close> likewise for the placeholders.  On an array without fields the search
  ends too, but the number 0 is found there, at the terminator; other numbers and placeholders are not.
\<close>

theorem iterator_search_exact:
  assumes "tags_ok fs" "i < length fs \<or> fs = [] \<and> i = 0"
  shows "(\<exists>j < max 1 (length fs). pb_field_iter_find t (iter_at fs d i) =
       Some ((\<exists>f \<in> set fs. tag f = t \<and> PB_LTYPE (ftype f) \<noteq> PB_LTYPE_EXTENSION) \<or> fs = [] \<and> t = 0, iter_at fs d j) \<and>
       (if \<exists>f \<in> set fs. tag f = t \<and> PB_LTYPE (ftype f) \<noteq> PB_LTYPE_EXTENSION
        then tag (fs ! j) = t \<and> PB_LTYPE (ftype (fs ! j)) \<noteq> PB_LTYPE_EXTENSION else j = i)) \<and>
    (\<exists>j < max 1 (length fs). find_extension_field (iter_at fs d i) =
       Some (\<exists>f \<in> set fs. PB_LTYPE (ftype f) = PB_LTYPE_EXTENSION, iter_at fs d j) \<and>
       (if \<exists>f \<in> set fs. PB_LTYPE (ftype f) = PB_LTYPE_EXTENSION
        then PB_LTYPE (ftype (fs ! j)) = PB_LTYPE_EXTENSION else j = i))"
proof (cases "fs = []")
  case True
  then show ?thesis using assms(2) by (simp add: iter_search_empty del: iter_at.simps)
next
  case False
  then have i: "i < length fs" and len: "max 1 (length fs) = length fs" using assms(2) by (cases fs; simp)+
  show ?thesis
    unfolding len pb_field_iter_find_def find_extension_field_def iter_at_static [OF assms(1) i]
      eq_False [THEN iffD2, OF False] simp_thms
    by (intro conjI iter_search_total [OF assms(1) i, unfolded conj_assoc])
qed

theorem iterator_search_exact_witness:
  "pb_field_iter_find 4 (iter_at (pb_descriptors sample_decls) 0x1000 2) \<noteq> None \<and>
   find_extension_field (iter_at (pb_descriptors sample_decls) 0x1000 2) \<noteq> None"
  using iterator_search_exact [OF layout_tags_ok [OF sample_layout_ok], of 2 4 "0x1000"] length_sample
  by auto

end
