(* ===== verification/Pb_Encode.thy ===== *)
theory Pb_Encode
  imports Pb_Ostream Pb_Iter
begin

text \<open>
  The message level of pb_encode.c: from a structure in memory and its descriptor array to calls of
  the stream encoders.  The memory is not changed by encoding.  \<open>pb_encode\<close> calls itself for
  submessages, so every function between the two calls takes the recursive call as the argument
  \<open>enc\<close>, and \<open>pb_encode\<close> closes the knot with one unit of fuel per nesting level (also used for the
  nesting of the proto3 default check and for the length of an extension list, which a cyclic list
  would make infinite).  Running out is the outcome \<open>NoFuel\<close>.
\<close>

section \<open>What the structures point to\<close>

text \<open>
  Descriptor arrays and single descriptors are constants of the program and are not kept in the
  memory; function pointers are addresses whose code is a parameter: the \<open>encode\<close> member of a
  \<open>pb_callback_t\<close> (called with the descriptor and the address of \<open>arg\<close>) and the \<open>encode\<close> member of
  a \<open>pb_extension_type_t\<close> (called with the address of the extension).
\<close>

record 's pb_enc_env =
  e_tables :: "nat \<Rightarrow> pb_field_t list"
  e_ext_arg :: "addr \<Rightarrow> pb_field_t option"
  e_encode :: "addr \<Rightarrow> pb_field_t \<Rightarrow> addr \<Rightarrow> (unit, 's pb_ostream_t) act"
  e_ext_encode :: "addr \<Rightarrow> addr \<Rightarrow> (unit, 's pb_ostream_t) act"

type_synonym 's pb_encode_t = "pb_field_t list \<Rightarrow> addr \<Rightarrow> (unit, 's pb_ostream_t) act"
type_synonym 's pb_encoder_t = "pb_field_t \<Rightarrow> addr \<Rightarrow> (unit, 's pb_ostream_t) act"

section \<open>Encoders of single values\<close>

definition safe_read_bool :: "mem \<Rightarrow> addr \<Rightarrow> bool option" where
  "safe_read_bool M p = map_option (\<lambda>b. b \<noteq> 0) (M p)"

definition pb_enc_bool :: "mem \<Rightarrow> 's pb_encoder_t" where
  "pb_enc_bool M field src =
     seq (load (safe_read_bool M src)) (\<lambda>b. pb_encode_varint (if b then 1 else 0))"

text \<open>The integer reads shared by the varint encoders; \<open>None\<close> outside is an unmapped address.\<close>

definition read_sint :: "mem \<Rightarrow> pb_size_t \<Rightarrow> addr \<Rightarrow> (u64, 's pb_ostream_t) act" where
  "read_sint M data_sz src =
     (if data_sz = 1 then seq (load (M src)) (\<lambda>v. ret (scast v))
      else if data_sz = 2 then seq (load (rd16 M src)) (\<lambda>v. ret (scast v))
      else if data_sz = 4 then seq (load (rd32 M src)) (\<lambda>v. ret (scast v))
      else if data_sz = 8 then load (rd64 M src)
      else o_error ''invalid data_size'')"

definition read_uint :: "mem \<Rightarrow> pb_size_t \<Rightarrow> addr \<Rightarrow> (u64, 's pb_ostream_t) act" where
  "read_uint M data_sz src =
     (if data_sz = 1 then seq (load (M src)) (\<lambda>v. ret (ucast v))
      else if data_sz = 2 then seq (load (rd16 M src)) (\<lambda>v. ret (ucast v))
      else if data_sz = 4 then seq (load (rd32 M src)) (\<lambda>v. ret (ucast v))
      else if data_sz = 8 then load (rd64 M src)
      else o_error ''invalid data_size'')"

definition pb_enc_varint :: "mem \<Rightarrow> 's pb_encoder_t" where
  "pb_enc_varint M field src = seq (read_sint M (data_size field) src) pb_encode_varint"

definition pb_enc_uvarint :: "mem \<Rightarrow> 's pb_encoder_t" where
  "pb_enc_uvarint M field src = seq (read_uint M (data_size field) src) pb_encode_varint"

definition pb_enc_svarint :: "mem \<Rightarrow> 's pb_encoder_t" where
  "pb_enc_svarint M field src = seq (read_sint M (data_size field) src) pb_encode_svarint"

definition pb_enc_fixed32 :: "mem \<Rightarrow> 's pb_encoder_t" where
  "pb_enc_fixed32 M field src = seq (load (rd32 M src)) pb_encode_fixed32"

definition pb_enc_fixed64 :: "mem \<Rightarrow> 's pb_encoder_t" where
  "pb_enc_fixed64 M field src = seq (load (rd64 M src)) pb_encode_fixed64"

text \<open>\<open>PB_BYTES_ARRAY_T_ALLOCSIZE\<close>: the bytes follow the 32-bit size.\<close>

definition PB_BYTES_ARRAY_T_ALLOCSIZE :: "size_t \<Rightarrow> size_t" where
  "PB_BYTES_ARRAY_T_ALLOCSIZE n = n + 4"

definition pb_enc_bytes :: "mem \<Rightarrow> 's pb_encoder_t" where
  "pb_enc_bytes M field src =
     (if src = 0 then pb_encode_string None 0
      else seq (load (rd32 M src)) (\<lambda>sz.
        let allocsize = PB_BYTES_ARRAY_T_ALLOCSIZE (ucast sz)
        in if allocsize < ucast sz \<or>
              PB_ATYPE (ftype field) = PB_ATYPE_STATIC \<and> allocsize > ucast (data_size field)
           then o_error ''bytes size exceeded''
           else pb_encode_string (rd M (src + 4) (unat sz)) (ucast sz)))"

text \<open>The hand-written \<open>strnlen\<close> of \<open>pb_enc_string\<close>.\<close>

function strnlen_loop :: "mem \<Rightarrow> addr \<Rightarrow> size_t \<Rightarrow> size_t \<Rightarrow> size_t option" where
  "strnlen_loop M p lim sz =
     (if sz < lim then
        (case M p of None \<Rightarrow> None
         | Some b \<Rightarrow> if b \<noteq> 0 then strnlen_loop M (p + 1) lim (sz + 1) else Some sz)
      else Some sz)"
  by pat_completeness auto
termination
proof (relation "measure (\<lambda>(M, p, lim, sz). unat lim - unat sz)")
  fix M :: mem and p and lim sz :: size_t and b
  assume lt: "sz < lim"
  then have "unat (sz + 1) = unat sz + 1"
    using unat_less [of lim] by (simp add: word_less_nat_alt unat_word_ariths)
  then show "((M, p + 1, lim, sz + 1), (M, p, lim, sz)) \<in> measure (\<lambda>(M, p, lim, sz). unat lim - unat sz)"
    using lt by (simp add: word_less_nat_alt)
qed simp

declare strnlen_loop.simps [simp del]

definition pb_enc_string :: "mem \<Rightarrow> 's pb_encoder_t" where
  "pb_enc_string M field src =
     (let lim = (if PB_ATYPE (ftype field) = PB_ATYPE_POINTER then - 1 else ucast (data_size field))
      in if src = 0 then pb_encode_string None 0
         else seq (load (strnlen_loop M src lim 0))
                (\<lambda>sz. pb_encode_string (rd M src (unat sz)) sz))"

definition pb_enc_fixed_length_bytes :: "mem \<Rightarrow> 's pb_encoder_t" where
  "pb_enc_fixed_length_bytes M field src =
     pb_encode_string (rd M src (unat (data_size field))) (ucast (data_size field))"

section \<open>Submessages\<close>

text \<open>
  A first pass on a sizing stream; \<open>keep\<close> tells whether its error message becomes the stream's.
\<close>

definition sizing_pass :: "bool \<Rightarrow> (unit, 's pb_ostream_t) act \<Rightarrow> (size_t, 's pb_ostream_t) act" where
  "sizing_pass keep m = (\<lambda>s. case m PB_OSTREAM_SIZING of
      (Ok _, t) \<Rightarrow> (Ok (bytes_written t), s)
    | (Fail, t) \<Rightarrow> (Fail, if keep then s\<lparr>o_errmsg := o_errmsg t\<rparr> else s)
    | (Ub, t) \<Rightarrow> (Ub, s)
    | (NoFuel, t) \<Rightarrow> (NoFuel, s))"

definition pb_encode_submessage :: "'s pb_encode_t \<Rightarrow> 's pb_encode_t" where
  "pb_encode_submessage enc fs src =
     seq (sizing_pass True (enc fs src)) (\<lambda>sz.
     seq (pb_encode_varint sz) (\<lambda>_ s.
       if is_sizing s then pb_write None sz s
       else if bytes_written s + sz > max_size s then o_error ''stream full'' s
       else (case enc fs src
                 \<lparr>sink = sink s, max_size = sz, bytes_written = 0, o_errmsg = None\<rparr> of
          (status, sub) \<Rightarrow>
            (let s' = s\<lparr>bytes_written := bytes_written s + bytes_written sub,
                        sink := sink sub, o_errmsg := o_errmsg sub\<rparr>
             in if status = Ub \<or> status = NoFuel then (status, s')
                else if bytes_written sub \<noteq> sz then o_error ''submsg size changed'' s'
                else (status, s')))))"

definition pb_enc_submessage :: "'s pb_enc_env \<Rightarrow> 's pb_encode_t \<Rightarrow> 's pb_encoder_t" where
  "pb_enc_submessage E enc field src = (case fptr field of
      PtrNull \<Rightarrow> o_error ''invalid field descriptor''
    | PtrFields t \<Rightarrow> pb_encode_submessage enc (e_tables E t) src
    | PtrDefault _ \<Rightarrow> undef)"

text \<open>
  \<open>PB_ENCODERS\<close>, indexed by the LTYPE; calling through its null entry and indexing past its
  eleven entries are undefined.
\<close>

definition PB_ENCODERS :: "'s pb_enc_env \<Rightarrow> mem \<Rightarrow> 's pb_encode_t \<Rightarrow> pb_type_t \<Rightarrow> 's pb_encoder_t" where
  "PB_ENCODERS E M enc l =
     (if l = PB_LTYPE_BOOL then pb_enc_bool M
      else if l = PB_LTYPE_VARINT then pb_enc_varint M
      else if l = PB_LTYPE_UVARINT then pb_enc_uvarint M
      else if l = PB_LTYPE_SVARINT then pb_enc_svarint M
      else if l = PB_LTYPE_FIXED32 then pb_enc_fixed32 M
      else if l = PB_LTYPE_FIXED64 then pb_enc_fixed64 M
      else if l = PB_LTYPE_BYTES then pb_enc_bytes M
      else if l = PB_LTYPE_STRING then pb_enc_string M
      else if l = PB_LTYPE_SUBMESSAGE then pb_enc_submessage E enc
      else if l = PB_LTYPE_FIXED_LENGTH_BYTES then pb_enc_fixed_length_bytes M
      else (\<lambda>field src. undef))"

section \<open>Arrays\<close>

text \<open>The \<open>for\<close> loops over the entries, \<open>p\<close> advancing by \<open>data_size\<close>.\<close>

fun encode_entries :: "(addr \<Rightarrow> (unit, 's pb_ostream_t) act) \<Rightarrow> size_t \<Rightarrow> addr \<Rightarrow> nat \<Rightarrow>
    (unit, 's pb_ostream_t) act" where
  "encode_entries body stride p 0 = ret ()"
| "encode_entries body stride p (Suc n) =
     seq (body p) (\<lambda>_. encode_entries body stride (p + stride) n)"

definition encode_array :: "mem \<Rightarrow> pb_field_t \<Rightarrow> addr \<Rightarrow> size_t \<Rightarrow> 's pb_encoder_t \<Rightarrow>
    (unit, 's pb_ostream_t) act" where
  "encode_array M field pdata count func =
     (let l = PB_LTYPE (ftype field); stride = ucast (data_size field) in
      if count = 0 then ret ()
      else if PB_ATYPE (ftype field) \<noteq> PB_ATYPE_POINTER \<and> count > ucast (array_size field)
      then o_error ''array max size exceeded''
      else if l \<le> PB_LTYPE_LAST_PACKABLE then
        seq (pb_encode_tag PB_WT_STRING (tag field)) (\<lambda>_.
        seq (if l = PB_LTYPE_FIXED32 then ret (4 * count)
             else if l = PB_LTYPE_FIXED64 then ret (8 * count)
             else sizing_pass False (encode_entries (func field) stride pdata (unat count))) (\<lambda>sz.
        seq (pb_encode_varint sz) (\<lambda>_ s.
          if is_sizing s then pb_write None sz s
          else encode_entries (func field) stride pdata (unat count) s)))
      else
        encode_entries (\<lambda>p. seq (pb_encode_tag_for_field field) (\<lambda>_.
            if PB_ATYPE (ftype field) = PB_ATYPE_POINTER \<and>
               (l = PB_LTYPE_STRING \<or> l = PB_LTYPE_BYTES)
            then seq (load (rd64 M p)) (func field)
            else func field p)) stride pdata (unat count))"

section \<open>The proto3 default check\<close>

text \<open>The byte loop of the catch-all branch.\<close>

fun all_zero :: "mem \<Rightarrow> addr \<Rightarrow> nat \<Rightarrow> (bool, 's) act" where
  "all_zero M p 0 = ret True"
| "all_zero M p (Suc n) = seq (load (M p)) (\<lambda>b. if b \<noteq> 0 then ret False else all_zero M (p + 1) n)"

fun pb_check_proto3_default_value ::
    "nat \<Rightarrow> (nat \<Rightarrow> pb_field_t list) \<Rightarrow> mem \<Rightarrow> pb_field_t \<Rightarrow> addr \<Rightarrow> (bool, 's) act" where
  "pb_check_proto3_default_value 0 T M field pdata = (\<lambda>s. (NoFuel, s))"
| "pb_check_proto3_default_value (Suc n) T M field pdata =
     (let h = PB_HTYPE (ftype field); a = PB_ATYPE (ftype field); l = PB_LTYPE (ftype field);
          psize = pdata + scast (size_offset field) in
      if h = PB_HTYPE_REQUIRED then ret False
      else if h = PB_HTYPE_REPEATED \<and> size_offset field \<noteq> 0
      then seq (load (rd32 M psize)) (\<lambda>c. ret (c = 0))
      else if h = PB_HTYPE_REPEATED \<and> a = PB_ATYPE_STATIC then ret False
      else if h = PB_HTYPE_ONEOF then seq (load (rd32 M psize)) (\<lambda>c. ret (c = 0))
      else if h = PB_HTYPE_OPTIONAL \<and> size_offset field \<noteq> 0
      then seq (load (safe_read_bool M psize)) (\<lambda>b. ret (\<not> b))
      else if a = PB_ATYPE_STATIC \<and> l = PB_LTYPE_BYTES
      then seq (load (rd32 M pdata)) (\<lambda>c. ret (c = 0))
      else if a = PB_ATYPE_STATIC \<and> l = PB_LTYPE_STRING
      then seq (load (M pdata)) (\<lambda>b. ret (b = 0))
      else if a = PB_ATYPE_STATIC \<and> l = PB_LTYPE_FIXED_LENGTH_BYTES
      then ret (data_size field = 0)
      else if a = PB_ATYPE_STATIC \<and> l = PB_LTYPE_SUBMESSAGE
      then (case fptr field of
          PtrFields t \<Rightarrow>
            (case pb_field_iter_begin (T t) pdata of (nonempty, it) \<Rightarrow>
              if nonempty
              then iter_while (\<lambda>it. pb_check_proto3_default_value n T M (iter_field it) (pData it)) it
              else ret True)
        | _ \<Rightarrow> undef)
      else if a = PB_ATYPE_POINTER \<and> l > PB_LTYPE_LAST_PACKABLE
      then seq (load (rd64 M pdata)) (\<lambda>p. ret (p = 0))
      else all_zero M pdata (unat (data_size field)))"

section \<open>Fields\<close>

definition encode_basic_field :: "nat \<Rightarrow> 's pb_enc_env \<Rightarrow> mem \<Rightarrow> 's pb_encode_t \<Rightarrow> 's pb_encoder_t" where
  "encode_basic_field n E M enc field pdata =
     (let h = PB_HTYPE (ftype field); a = PB_ATYPE (ftype field); l = PB_LTYPE (ftype field);
          func = PB_ENCODERS E M enc l; psize = pdata + scast (size_offset field) in
      if l > PB_LTYPE_FIXED_LENGTH_BYTES then undef
      else
        seq (if size_offset field = 0 \<and> h = PB_HTYPE_OPTIONAL
             then seq (pb_check_proto3_default_value n (e_tables E) M field pdata) (\<lambda>d. ret (\<not> d))
             else ret True) (\<lambda>has0.
        seq (if a = PB_ATYPE_POINTER then seq (load (rd64 M pdata)) (\<lambda>p. ret (p, p \<noteq> 0))
             else ret (pdata, has0)) (\<lambda>(src, implicit_has).
        if h = PB_HTYPE_REQUIRED then
          (if src = 0 then o_error ''missing required field''
           else seq (pb_encode_tag_for_field field) (\<lambda>_. func field src))
        else if h = PB_HTYPE_OPTIONAL then
          seq (if size_offset field \<noteq> 0 then load (safe_read_bool M psize) else ret implicit_has)
            (\<lambda>present. if present then seq (pb_encode_tag_for_field field) (\<lambda>_. func field src)
                       else ret ())
        else if h = PB_HTYPE_REPEATED then
          seq (if size_offset field \<noteq> 0 then load (rd32 M psize) else ret (array_size field))
            (\<lambda>count. encode_array M field src (ucast count) func)
        else if h = PB_HTYPE_ONEOF then
          seq (if size_offset field \<noteq> 0 then load (rd32 M psize) else undef)
            (\<lambda>which. if which = tag field
               then seq (pb_encode_tag_for_field field) (\<lambda>_. func field src)
               else ret ())
        else o_error ''invalid field type'')))"

text \<open>A \<open>pb_callback_t\<close> is the function pointer and, behind it, \<open>arg\<close>.\<close>

definition or_error :: "(unit, 's pb_ostream_t) act \<Rightarrow> string \<Rightarrow> (unit, 's pb_ostream_t) act" where
  "or_error m msg = (\<lambda>s. case m s of (Fail, s') \<Rightarrow> o_error msg s' | r \<Rightarrow> r)"

definition encode_callback_field :: "'s pb_enc_env \<Rightarrow> mem \<Rightarrow> 's pb_encoder_t" where
  "encode_callback_field E M field pdata =
     seq (load (rd64 M pdata)) (\<lambda>funcs.
       if funcs \<noteq> 0 then or_error (e_encode E funcs field (pdata + 8)) ''callback error''
       else ret ())"

definition encode_field :: "nat \<Rightarrow> 's pb_enc_env \<Rightarrow> mem \<Rightarrow> 's pb_encode_t \<Rightarrow> 's pb_encoder_t" where
  "encode_field n E M enc field pdata =
     (let a = PB_ATYPE (ftype field) in
      if a = PB_ATYPE_STATIC \<or> a = PB_ATYPE_POINTER then encode_basic_field n E M enc field pdata
      else if a = PB_ATYPE_CALLBACK then encode_callback_field E M field pdata
      else o_error ''invalid field type'')"

text \<open>
  A \<open>pb_extension_t\<close> holds its type, dest, next and found members at offsets 0, 8, 16 and 24, and
  a \<open>pb_extension_type_t\<close> its decode, encode and arg members at offsets 0, 8 and 16.
\<close>

definition default_extension_encoder :: "nat \<Rightarrow> 's pb_enc_env \<Rightarrow> mem \<Rightarrow> 's pb_encode_t \<Rightarrow> addr \<Rightarrow>
    (unit, 's pb_ostream_t) act" where
  "default_extension_encoder n E M enc extension =
     seq (load (rd64 M extension)) (\<lambda>type.
     seq (load (rd64 M (type + 16))) (\<lambda>arg.
     seq (load (e_ext_arg E arg)) (\<lambda>field.
     if PB_ATYPE (ftype field) = PB_ATYPE_POINTER then encode_field n E M enc field (extension + 8)
     else seq (load (rd64 M (extension + 8))) (encode_field n E M enc field))))"

fun encode_extensions :: "nat \<Rightarrow> nat \<Rightarrow> 's pb_enc_env \<Rightarrow> mem \<Rightarrow> 's pb_encode_t \<Rightarrow> addr \<Rightarrow>
    (unit, 's pb_ostream_t) act" where
  "encode_extensions 0 n E M enc extension = (\<lambda>s. (NoFuel, s))"
| "encode_extensions (Suc k) n E M enc extension =
     (if extension = 0 then ret ()
      else seq (load (rd64 M extension)) (\<lambda>type.
           seq (load (rd64 M (type + 8))) (\<lambda>encode.
           seq (if encode \<noteq> 0 then e_ext_encode E encode extension
                else default_extension_encoder n E M enc extension) (\<lambda>_.
           seq (load (rd64 M (extension + 16))) (encode_extensions k n E M enc)))))"

definition encode_extension_field :: "nat \<Rightarrow> 's pb_enc_env \<Rightarrow> mem \<Rightarrow> 's pb_encode_t \<Rightarrow> addr \<Rightarrow>
    (unit, 's pb_ostream_t) act" where
  "encode_extension_field n E M enc pdata =
     seq (load (rd64 M pdata)) (encode_extensions n n E M enc)"

section \<open>Messages\<close>

fun pb_encode :: "nat \<Rightarrow> 's pb_enc_env \<Rightarrow> mem \<Rightarrow> pb_field_t list \<Rightarrow> addr \<Rightarrow>
    (unit, 's pb_ostream_t) act" where
  "pb_encode 0 E M fs src = (\<lambda>s. (NoFuel, s))"
| "pb_encode (Suc n) E M fs src =
     (case pb_field_iter_begin fs src of (nonempty, it) \<Rightarrow>
       if \<not> nonempty then ret ()
       else seq (iter_while (\<lambda>it. seq
              (if PB_LTYPE (ftype (iter_field it)) = PB_LTYPE_EXTENSION
               then encode_extension_field n E M (pb_encode n E M) (pData it)
               else encode_field n E M (pb_encode n E M) (iter_field it) (pData it))
              (\<lambda>_. ret True)) it) (\<lambda>_. ret ()))"

definition pb_encode_delimited :: "nat \<Rightarrow> 's pb_enc_env \<Rightarrow> mem \<Rightarrow> pb_field_t list \<Rightarrow> addr \<Rightarrow>
    (unit, 's pb_ostream_t) act" where
  "pb_encode_delimited n E M fs src = pb_encode_submessage (pb_encode n E M) fs src"

definition pb_encode_nullterminated :: "nat \<Rightarrow> 's pb_enc_env \<Rightarrow> mem \<Rightarrow> pb_field_t list \<Rightarrow> addr \<Rightarrow>
    (unit, 's pb_ostream_t) act" where
  "pb_encode_nullterminated n E M fs src =
     seq (pb_encode n E M fs src) (\<lambda>_. pb_write (Some [0]) 1)"

definition pb_get_encoded_size :: "nat \<Rightarrow> 's pb_enc_env \<Rightarrow> mem \<Rightarrow> pb_field_t list \<Rightarrow> addr \<Rightarrow>
    size_t outcome" where
  "pb_get_encoded_size n E M fs src =
     (case pb_encode n E M fs src PB_OSTREAM_SIZING of
        (Ok _, s) \<Rightarrow> Ok (bytes_written s) | (Fail, s) \<Rightarrow> Fail | (Ub, s) \<Rightarrow> Ub | (NoFuel, s) \<Rightarrow> NoFuel)"

end
