(* ===== verification/Pb_Encode_Spec.thy ===== *)
theory Pb_Encode_Spec
  imports Pb_Encode
begin

text \<open>
  What the message encoder writes, as a pure function from a structure in memory to its protobuf
  encoding, and the proof that the two-pass, substream-based encoder of pb_encode.c implements it.
\<close>

section \<open>The encoding of a structure\<close>

definition cat :: "byte list option \<Rightarrow> byte list option \<Rightarrow> byte list option" where
  "cat a b = Option.bind a (\<lambda>x. map_option (\<lambda>y. x @ y) b)"

definition sint_at :: "mem \<Rightarrow> pb_size_t \<Rightarrow> addr \<Rightarrow> u64 option" where
  "sint_at M n p =
     (if n = 1 then map_option scast (M p) else if n = 2 then map_option scast (rd16 M p)
      else if n = 4 then map_option scast (rd32 M p) else if n = 8 then rd64 M p else None)"

definition uint_at :: "mem \<Rightarrow> pb_size_t \<Rightarrow> addr \<Rightarrow> u64 option" where
  "uint_at M n p =
     (if n = 1 then map_option ucast (M p) else if n = 2 then map_option ucast (rd16 M p)
      else if n = 4 then map_option ucast (rd32 M p) else if n = 8 then rd64 M p else None)"

text \<open>The bytes of a C string of at most \<open>lim\<close> characters.\<close>

definition c_string :: "mem \<Rightarrow> addr \<Rightarrow> size_t \<Rightarrow> byte list option" where
  "c_string M p lim = Option.bind (strnlen_loop M p lim 0) (\<lambda>n. rd M p (unat n))"

text \<open>The value of one field or array entry, without its key.\<close>

definition value_code :: "(nat \<Rightarrow> pb_field_t list) \<Rightarrow> mem \<Rightarrow>
    (pb_field_t list \<Rightarrow> addr \<Rightarrow> byte list option) \<Rightarrow> pb_field_t \<Rightarrow> addr \<Rightarrow> byte list option" where
  "value_code T M msg f src = (let l = PB_LTYPE (ftype f) in
     if l = PB_LTYPE_BOOL then map_option (\<lambda>b. varint_code (if b then 1 else 0)) (safe_read_bool M src)
     else if l = PB_LTYPE_VARINT then map_option varint_code (sint_at M (data_size f) src)
     else if l = PB_LTYPE_UVARINT then map_option varint_code (uint_at M (data_size f) src)
     else if l = PB_LTYPE_SVARINT
     then map_option (\<lambda>v. varint_code (zigzag v)) (sint_at M (data_size f) src)
     else if l = PB_LTYPE_FIXED32 then rd M src 4
     else if l = PB_LTYPE_FIXED64 then rd M src 8
     else if l = PB_LTYPE_BYTES then
       (if src = 0 then Some (string_code [])
        else Option.bind (rd32 M src) (\<lambda>n.
          if PB_ATYPE (ftype f) = PB_ATYPE_STATIC \<and> unat (data_size f) < unat n + 4 then None
          else map_option string_code (rd M (src + 4) (unat n))))
     else if l = PB_LTYPE_STRING then
       (if src = 0 then Some (string_code [])
        else map_option string_code (c_string M src
          (if PB_ATYPE (ftype f) = PB_ATYPE_POINTER then - 1 else ucast (data_size f))))
     else if l = PB_LTYPE_SUBMESSAGE then
       (case fptr f of PtrFields t \<Rightarrow> map_option string_code (msg (T t) src) | _ \<Rightarrow> None)
     else if l = PB_LTYPE_FIXED_LENGTH_BYTES
     then map_option string_code (rd M src (unat (data_size f)))
     else None)"

definition wire_type_of :: "pb_type_t \<Rightarrow> pb_wire_type_t option" where
  "wire_type_of l =
     (if l = PB_LTYPE_BOOL \<or> l = PB_LTYPE_VARINT \<or> l = PB_LTYPE_UVARINT \<or> l = PB_LTYPE_SVARINT
      then Some PB_WT_VARINT
      else if l = PB_LTYPE_FIXED32 then Some PB_WT_32BIT
      else if l = PB_LTYPE_FIXED64 then Some PB_WT_64BIT
      else if l = PB_LTYPE_BYTES \<or> l = PB_LTYPE_STRING \<or> l = PB_LTYPE_SUBMESSAGE \<or>
              l = PB_LTYPE_FIXED_LENGTH_BYTES then Some PB_WT_STRING
      else None)"

definition key_code :: "pb_field_t \<Rightarrow> byte list option" where
  "key_code f = map_option (\<lambda>wt. tag_code wt (tag f)) (wire_type_of (PB_LTYPE (ftype f)))"

fun entries_code :: "(addr \<Rightarrow> byte list option) \<Rightarrow> size_t \<Rightarrow> addr \<Rightarrow> nat \<Rightarrow> byte list option" where
  "entries_code g stride p 0 = Some []"
| "entries_code g stride p (Suc n) = cat (g p) (entries_code g stride (p + stride) n)"

text \<open>Scalars are packed behind one key; other entries carry a key each.\<close>

definition array_code :: "mem \<Rightarrow> pb_field_t \<Rightarrow> addr \<Rightarrow> nat \<Rightarrow> (addr \<Rightarrow> byte list option) \<Rightarrow>
    byte list option" where
  "array_code M f src count val = (let l = PB_LTYPE (ftype f); stride = ucast (data_size f) in
     if count = 0 then Some []
     else if PB_ATYPE (ftype f) \<noteq> PB_ATYPE_POINTER \<and> unat (array_size f) < count then None
     else if l \<le> PB_LTYPE_LAST_PACKABLE
     then cat (Some (tag_code PB_WT_STRING (tag f)))
            (map_option string_code (entries_code val stride src count))
     else entries_code (\<lambda>p. cat (key_code f)
            (if PB_ATYPE (ftype f) = PB_ATYPE_POINTER \<and> (l = PB_LTYPE_STRING \<or> l = PB_LTYPE_BYTES)
             then Option.bind (rd64 M p) val else val p)) stride src count)"

definition proto3_default :: "nat \<Rightarrow> (nat \<Rightarrow> pb_field_t list) \<Rightarrow> mem \<Rightarrow> pb_field_t \<Rightarrow> addr \<Rightarrow>
    bool option" where
  "proto3_default n T M f p =
     (case pb_check_proto3_default_value n T M f p () of (Ok d, _) \<Rightarrow> Some d | _ \<Rightarrow> None)"

text \<open>A field with static or pointer allocation: what it adds to the message.\<close>

definition basic_code :: "nat \<Rightarrow> (nat \<Rightarrow> pb_field_t list) \<Rightarrow> mem \<Rightarrow>
    (pb_field_t list \<Rightarrow> addr \<Rightarrow> byte list option) \<Rightarrow> pb_field_t \<Rightarrow> addr \<Rightarrow> byte list option" where
  "basic_code n T M msg f p =
     (let h = PB_HTYPE (ftype f); psize = p + scast (size_offset f);
          pointer = (PB_ATYPE (ftype f) = PB_ATYPE_POINTER); val = value_code T M msg f in
      Option.bind (if size_offset f = 0 \<and> h = PB_HTYPE_OPTIONAL
                   then map_option (\<lambda>d. \<not> d) (proto3_default n T M f p) else Some True) (\<lambda>nonzero.
      Option.bind (if pointer then rd64 M p else Some p) (\<lambda>src.
      if h = PB_HTYPE_REQUIRED then (if src = 0 then None else cat (key_code f) (val src))
      else if h = PB_HTYPE_OPTIONAL then
        Option.bind (if size_offset f \<noteq> 0 then safe_read_bool M psize
                     else Some (if pointer then src \<noteq> 0 else nonzero))
          (\<lambda>present. if present then cat (key_code f) (val src) else Some [])
      else if h = PB_HTYPE_REPEATED then
        Option.bind (if size_offset f \<noteq> 0 then rd32 M psize else Some (array_size f))
          (\<lambda>count. array_code M f src (unat count) val)
      else
        Option.bind (if size_offset f \<noteq> 0 then rd32 M psize else None)
          (\<lambda>which. if which = tag f then cat (key_code f) (val src) else Some []))))"

text \<open>
  The user's encode callbacks are described by the codes they stand for: \<open>cb\<close> for the \<open>encode\<close>
  member of a callback field, \<open>xcb\<close> for the one of an extension type.
\<close>

definition field_code :: "nat \<Rightarrow> (nat \<Rightarrow> pb_field_t list) \<Rightarrow>
    (addr \<Rightarrow> pb_field_t \<Rightarrow> addr \<Rightarrow> byte list option) \<Rightarrow> mem \<Rightarrow>
    (pb_field_t list \<Rightarrow> addr \<Rightarrow> byte list option) \<Rightarrow> pb_field_t \<Rightarrow> addr \<Rightarrow> byte list option" where
  "field_code n T cb M msg f p = (let a = PB_ATYPE (ftype f) in
     if a = PB_ATYPE_STATIC \<or> a = PB_ATYPE_POINTER
     then (if PB_LTYPE (ftype f) \<le> PB_LTYPE_FIXED_LENGTH_BYTES then basic_code n T M msg f p else None)
     else if a = PB_ATYPE_CALLBACK
     then Option.bind (rd64 M p) (\<lambda>funcs. if funcs = 0 then Some [] else cb funcs f (p + 8))
     else None)"

fun extensions_code :: "nat \<Rightarrow> (addr \<Rightarrow> pb_field_t option) \<Rightarrow> (addr \<Rightarrow> addr \<Rightarrow> byte list option) \<Rightarrow> mem \<Rightarrow>
    (pb_field_t \<Rightarrow> addr \<Rightarrow> byte list option) \<Rightarrow> addr \<Rightarrow> byte list option" where
  "extensions_code 0 X xcb M fld ext = None"
| "extensions_code (Suc k) X xcb M fld ext =
     (if ext = 0 then Some []
      else Option.bind (rd64 M ext) (\<lambda>type. Option.bind (rd64 M (type + 8)) (\<lambda>encode.
        cat (if encode \<noteq> 0 then xcb encode ext
             else Option.bind (rd64 M (type + 16)) (\<lambda>arg. Option.bind (X arg) (\<lambda>f.
               if PB_ATYPE (ftype f) = PB_ATYPE_POINTER then fld f (ext + 8)
               else Option.bind (rd64 M (ext + 8)) (fld f))))
            (Option.bind (rd64 M (ext + 16)) (extensions_code k X xcb M fld)))))"

fun msg_code :: "nat \<Rightarrow> 's pb_enc_env \<Rightarrow> (addr \<Rightarrow> pb_field_t \<Rightarrow> addr \<Rightarrow> byte list option) \<Rightarrow>
    (addr \<Rightarrow> addr \<Rightarrow> byte list option) \<Rightarrow> mem \<Rightarrow> pb_field_t list \<Rightarrow> addr \<Rightarrow> byte list option" where
  "msg_code 0 E cb xcb M fs src = None"
| "msg_code (Suc n) E cb xcb M fs src =
     (if tags_ok fs then
        foldr cat (map (\<lambda>i. let f = fs ! i; p = pData (iter_at fs src i);
              fld = field_code n (e_tables E) cb M (msg_code n E cb xcb M) in
            if PB_LTYPE (ftype f) = PB_LTYPE_EXTENSION
            then Option.bind (rd64 M p) (extensions_code n (e_ext_arg E) xcb M fld)
            else fld f p) [0..<length fs]) (Some [])
      else None)"

section \<open>Emitting a code\<close>

text \<open>
  A stream before an error, with a limit that fits an object; on such a stream a call that encodes
  a byte string of less than \<open>2 ^ 63\<close> bytes does exactly that.
\<close>

definition ready :: "'s pb_ostream_t \<Rightarrow> bool" where
  "ready s \<longleftrightarrow> ostream_ok s \<and> unat (max_size s) < 2 ^ 63 \<and> o_errmsg s = None"

definition encodes :: "(unit, 's pb_ostream_t) act \<Rightarrow> byte list option \<Rightarrow> bool" where
  "encodes m r \<longleftrightarrow> (\<forall>bs s. r = Some bs \<longrightarrow> length bs < 2 ^ 63 \<longrightarrow> ready s \<longrightarrow>
     (if room (length bs) s then m s = (Ok (), emit bs s) else fst (m s) = Fail))"

lemma encodesD:
  assumes "encodes m (Some bs)" "length bs < 2 ^ 63" "ready s"
  shows "room (length bs) s \<Longrightarrow> m s = (Ok (), emit bs s)"
    and "\<not> room (length bs) s \<Longrightarrow> fst (m s) = Fail"
  using assms by (auto simp: encodes_def split: if_splits)

lemma encodesI:
  assumes "\<And>bs s. r = Some bs \<Longrightarrow> length bs < 2 ^ 63 \<Longrightarrow> ready s \<Longrightarrow>
    (if room (length bs) s then m s = (Ok (), emit bs s) else fst (m s) = Fail)"
  shows "encodes m r"
  using assms by (simp add: encodes_def)

lemma ready_emit: "ready s \<Longrightarrow> room (length bs) s \<Longrightarrow> ready (emit bs s)"
  by (simp add: ready_def ostream_ok_emit)

named_theorems enc_intros \<open>which code a call encodes\<close>

lemma encodes_emits: "emits m bs \<Longrightarrow> encodes m (Some bs)"
  by (simp add: encodes_def emits_def ready_def)

lemma encodes_None [enc_intros]: "encodes m None"
  by (simp add: encodes_def)

lemma encodes_ret [enc_intros]: "encodes (ret ()) (Some [])"
  by (rule encodes_emits) (rule emits_ret)

lemma cat_Some: "cat a b = Some r \<longleftrightarrow> (\<exists>x y. a = Some x \<and> b = Some y \<and> r = x @ y)"
  by (auto simp: cat_def bind_eq_Some_conv)

lemma encodes_seq [enc_intros]:
  assumes "encodes m a" "encodes k b"
  shows "encodes (seq m (\<lambda>_. k)) (cat a b)"
proof (rule encodesI)
  fix bs and s :: "'a pb_ostream_t"
  assume "cat a b = Some bs" and len: "length bs < 2 ^ 63" and s: "ready s"
  then obtain x y where ab: "a = Some x" "b = Some y" and bs: "bs = x @ y" by (auto simp: cat_Some)
  have lx: "length x < 2 ^ 63" "length y < 2 ^ 63" using len bs by simp_all
  have ok: "ostream_ok s" using s by (simp add: ready_def)
  note m = encodesD [OF assms(1) [unfolded ab] lx(1) s]
  show "if room (length bs) s then seq m (\<lambda>_. k) s = (Ok (), emit bs s)
        else fst (seq m (\<lambda>_. k) s) = Fail"
  proof (cases "room (length x) s")
    case True
    note k = encodesD [OF assms(2) [unfolded ab] lx(2) ready_emit [OF s True]]
    show ?thesis
      using True m k room_emit [OF ok True refl, of "length y"] emit_append [OF ok, of x y] bs
      by (auto simp: act_simps)
  next
    case False
    moreover have "\<not> room (length bs) s" using False room_mono bs by fastforce
    ultimately show ?thesis using m by (simp add: fst_seq_Fail)
  qed
qed

lemma encodes_load [enc_intros]:
  assumes "\<And>v. x = Some v \<Longrightarrow> encodes (f v) (g v)"
  shows "encodes (seq (load x) f) (Option.bind x g)"
  using assms by (cases x) (auto simp: load_def seq_basic enc_intros)

lemma encodes_if [enc_intros]:
  "(b \<Longrightarrow> encodes m r) \<Longrightarrow> (\<not> b \<Longrightarrow> encodes m' r') \<Longrightarrow>
   encodes (if b then m else m') (if b then r else r')"
  by simp

section \<open>The encoders of values\<close>

lemma load_simps [act_simps]: "load None = undef" "load (Some v) = ret v"
  by (simp_all add: load_def)

lemma encodes_sint:
  assumes "\<And>v. emits (k v) (c v)"
  shows "encodes (seq (read_sint M n src) k) (map_option c (sint_at M n src))"
  using assms
  by (cases "M src"; cases "rd16 M src"; cases "rd32 M src"; cases "rd64 M src")
    (auto simp: read_sint_def sint_at_def load_simps seq_basic intro!: encodes_emits encodes_None)

lemma encodes_uint:
  assumes "\<And>v. emits (k v) (c v)"
  shows "encodes (seq (read_uint M n src) k) (map_option c (uint_at M n src))"
  using assms
  by (cases "M src"; cases "rd16 M src"; cases "rd32 M src"; cases "rd64 M src")
    (auto simp: read_uint_def uint_at_def load_simps seq_basic intro!: encodes_emits encodes_None)

lemma encodes_fixed32: "encodes (pb_enc_fixed32 M f src) (rd M src 4)"
proof (cases "rd M src 4")
  case None
  then show ?thesis by (simp add: encodes_None)
next
  case (Some bs)
  then have "le_bytes 4 (le_val bs :: u32) = bs"
    using le_bytes_le_val [of bs, where 'a = 32] length_rd [OF Some] by simp
  then show ?thesis using Some pb_encode_fixed32_emits [of "le_val bs"]
    by (auto simp: pb_enc_fixed32_def rdw_def act_simps intro: encodes_emits)
qed

lemma encodes_fixed64: "encodes (pb_enc_fixed64 M f src) (rd M src 8)"
proof (cases "rd M src 8")
  case None
  then show ?thesis by (simp add: encodes_None)
next
  case (Some bs)
  then have "le_bytes 8 (le_val bs :: u64) = bs"
    using le_bytes_le_val [of bs, where 'a = 64] length_rd [OF Some] by simp
  then show ?thesis using Some pb_encode_fixed64_emits [of "le_val bs"]
    by (auto simp: pb_enc_fixed64_def rdw_def act_simps intro: encodes_emits)
qed

lemma encodes_string:
  "encodes (pb_encode_string (rd M src (unat n)) n) (map_option string_code (rd M src (unat n)))"
proof (cases "rd M src (unat n)")
  case None
  then show ?thesis by (simp add: encodes_None)
next
  case (Some bs)
  then have len: "length bs = unat n" by (rule length_rd)
  then have lt: "length bs < 2 ^ 64" and n: "of_nat (length bs) = n" using unat_less [of n] by simp_all
  show ?thesis unfolding Some option.map
    by (rule encodes_emits) (rule pb_encode_string_emits [OF lt, unfolded n])
qed

lemma encodes_null_string: "encodes (pb_encode_string None 0) (Some (string_code []))"
proof (rule encodes_emits)
  have "emits (pb_write None 0) []"
    by (auto simp: emits_def pb_write_def emit_def room_def ostream_ok_def word_le_nat_alt
        split: osink.splits)
  from emits_seq [OF pb_encode_varint_emits this]
  show "emits (pb_encode_string None 0) (string_code [])"
    by (simp add: pb_encode_string_def string_code_def)
qed

lemma encodes_bytes:
  "encodes (pb_enc_bytes M f src)
     (if src = 0 then Some (string_code [])
      else Option.bind (rd32 M src) (\<lambda>n.
        if PB_ATYPE (ftype f) = PB_ATYPE_STATIC \<and> unat (data_size f) < unat n + 4 then None
        else map_option string_code (rd M (src + 4) (unat n))))"
proof -
  have alloc: "unat (PB_BYTES_ARRAY_T_ALLOCSIZE (ucast n)) = unat n + 4" for n :: u32
    using unat_less [of n]
    by (simp add: PB_BYTES_ARRAY_T_ALLOCSIZE_def unat_word_ariths unsigned_ucast_eq
        unsigned_take_bit_eq take_bit_nat_eq_self)
  have u: "unat (ucast n :: size_t) = unat n" for n :: u32
    using unat_less [of n] by (simp add: unsigned_ucast_eq unsigned_take_bit_eq take_bit_nat_eq_self)
  have str: "encodes (pb_encode_string (rd M (src + 4) (unat n)) (ucast n))
      (map_option string_code (rd M (src + 4) (unat n)))" for n :: u32
    using encodes_string [of M "src + 4" "ucast n"] by (simp add: u)
  show ?thesis
    unfolding pb_enc_bytes_def Let_def
    by (intro encodes_if encodes_load encodes_null_string)
      (auto simp: word_less_nat_alt alloc u intro: str encodes_None)
qed

lemma encodes_c_string:
  "encodes (pb_enc_string M f src)
     (if src = 0 then Some (string_code [])
      else map_option string_code (c_string M src
        (if PB_ATYPE (ftype f) = PB_ATYPE_POINTER then - 1 else ucast (data_size f))))"
proof -
  have eq: "map_option string_code (c_string M src lim) =
      Option.bind (strnlen_loop M src lim 0) (\<lambda>n. map_option string_code (rd M src (unat n)))" for lim
    by (cases "strnlen_loop M src lim 0") (simp_all add: c_string_def)
  show ?thesis
    unfolding pb_enc_string_def Let_def eq
    by (intro encodes_if encodes_load encodes_null_string encodes_string)
qed

lemma encodes_fixed_length:
  "encodes (pb_enc_fixed_length_bytes M f src) (map_option string_code (rd M src (unat (data_size f))))"
proof -
  have u: "unat (ucast (data_size f) :: size_t) = unat (data_size f)"
    using unat_less [of "data_size f"]
    by (simp add: unsigned_ucast_eq unsigned_take_bit_eq take_bit_nat_eq_self)
  show ?thesis
    unfolding pb_enc_fixed_length_bytes_def
    using encodes_string [of M src "ucast (data_size f)"] by (simp only: u)
qed

section \<open>Submessages and arrays\<close>

lemma ready_SIZING: "ready PB_OSTREAM_SIZING" and room_SIZING: "room n PB_OSTREAM_SIZING"
  by (simp_all add: ready_def ostream_ok_def room_def PB_OSTREAM_SIZING_def)

lemma sizing_pass_code:
  assumes "encodes m (Some bs)" "length bs < 2 ^ 63"
  shows "sizing_pass keep m s = (Ok (of_nat (length bs)), s)"
  using encodesD(1) [OF assms ready_SIZING room_SIZING]
  by (simp add: sizing_pass_def) (simp add: PB_OSTREAM_SIZING_def)

lemma unat_of_length: "n < 2 ^ 63 \<Longrightarrow> unat (of_nat n :: size_t) = n"
  by (rule unat_of_nat_lt) simp

text \<open>The tail of both two-pass encoders: count the payload on a sizing stream, or write it.\<close>

lemma sizing_write:
  "is_sizing s \<Longrightarrow> pb_write None (of_nat (length bs)) s = (Ok (), emit bs s)"
  by (simp add: pb_write_def emit_def is_sizing_def split: osink.splits)

lemma room_writing:
  assumes "ready s" "\<not> is_sizing s" "n < 2 ^ 63"
  shows "room n s \<longleftrightarrow> \<not> bytes_written s + of_nat n > max_size s"
proof -
  have w: "unat (bytes_written s) \<le> unat (max_size s)" "unat (max_size s) < 2 ^ 63"
    using assms(1,2) by (auto simp: ready_def ostream_ok_def is_sizing_def word_le_nat_alt split: osink.splits)
  then have "unat (bytes_written s + of_nat n) = unat (bytes_written s) + n"
    using assms(3) by (simp add: unat_word_ariths unat_of_nat)
  then show ?thesis
    using assms(2) by (auto simp: room_def is_sizing_def word_less_nat_alt split: osink.splits)
qed

lemma encodes_submessage:
  assumes "encodes (enc fs src) r"
  shows "encodes (pb_encode_submessage enc fs src) (map_option string_code r)"
proof (rule encodesI)
  fix cs and s :: "'a pb_ostream_t"
  assume "map_option string_code r = Some cs" and len: "length cs < 2 ^ 63" and s: "ready s"
  then obtain bs where r: "r = Some bs" and cs: "cs = string_code bs" by auto
  have lbs: "length bs < 2 ^ 63" using len cs by (simp add: string_code_def)
  note enc = encodesD [OF assms [unfolded r] lbs]
  let ?n = "of_nat (length bs) :: size_t"
  let ?s = "emit (varint_code ?n) s"
  have ok: "ostream_ok s" using s by (simp add: ready_def)
  note vi = emitsD [OF pb_encode_varint_emits ok, of ?n]
  define tail where "tail = (\<lambda>s. if is_sizing s then pb_write None ?n s
       else if bytes_written s + ?n > max_size s then o_error ''stream full'' s
       else (case enc fs src
                 \<lparr>sink = sink s, max_size = ?n, bytes_written = 0, o_errmsg = None\<rparr> of
          (status, sub) \<Rightarrow>
            (let s' = s\<lparr>bytes_written := bytes_written s + bytes_written sub,
                        sink := sink sub, o_errmsg := o_errmsg sub\<rparr>
             in if status = Ub \<or> status = NoFuel then (status, s')
                else if bytes_written sub \<noteq> ?n then o_error ''submsg size changed'' s'
                else (status, s'))))"
  have tail: "if room (length bs) t then tail t = (Ok (), emit bs t) else fst (tail t) = Fail"
    if t: "ready t" for t :: "'a pb_ostream_t"
  proof (cases "is_sizing t")
    case True
    then show ?thesis
      by (auto simp: tail_def sizing_write room_def is_sizing_def split: osink.splits)
  next
    case False
    note rm = room_writing [OF t False lbs]
    show ?thesis
    proof (cases "room (length bs) t")
      case True
      let ?sub = "\<lparr>sink = sink t, max_size = ?n, bytes_written = 0, o_errmsg = None\<rparr> :: 'a pb_ostream_t"
      have sub: "ready ?sub" "room (length bs) ?sub"
        using True False t lbs unat_of_length [OF lbs]
        by (auto simp: ready_def ostream_ok_def room_def is_sizing_def split: osink.splits)
      show ?thesis using True False rm enc(1) [OF sub] t
        by (simp add: tail_def Let_def) (simp add: emit_def ready_def)
    next
      case F: False
      then show ?thesis using False rm by (simp add: tail_def o_error_def)
    qed
  qed
  have run: "pb_encode_submessage enc fs src s = seq (pb_encode_varint ?n) (\<lambda>_. tail) s"
    using sizing_pass_code [OF assms [unfolded r] lbs, of True s]
    by (simp add: pb_encode_submessage_def seq_def tail_def)
  have "encodes (seq (pb_encode_varint ?n) (\<lambda>_. tail)) (cat (Some (varint_code ?n)) (Some bs))"
    using tail by (intro encodes_seq [OF encodes_emits [OF pb_encode_varint_emits]] encodesI) auto
  then show "if room (length cs) s then pb_encode_submessage enc fs src s = (Ok (), emit cs s)
        else fst (pb_encode_submessage enc fs src s) = Fail"
    using len s cs unfolding run by (auto simp: encodes_def cat_def string_code_def)
qed

lemma encodes_value:
  assumes "\<And>fs src. encodes (enc fs src) (msg fs src)"
  shows "encodes (PB_ENCODERS E M enc (PB_LTYPE (ftype f)) f src)
    (value_code (e_tables E) M msg f src)"
proof -
  have bool: "encodes (pb_enc_bool M f src)
      (map_option (\<lambda>b. varint_code (if b then 1 else 0)) (safe_read_bool M src))"
    by (cases "safe_read_bool M src")
      (auto simp: pb_enc_bool_def load_simps seq_basic intro!: encodes_emits encodes_None emits_intros)
  have sub: "encodes (pb_enc_submessage E enc f src)
      (case fptr f of PtrFields t \<Rightarrow> map_option string_code (msg (e_tables E t) src) | _ \<Rightarrow> None)"
    by (auto simp: pb_enc_submessage_def intro: encodes_None encodes_submessage assms split: pb_ptr.split)
  show ?thesis
    unfolding PB_ENCODERS_def value_code_def Let_def if_distrib [of "\<lambda>g. g f src"]
    by (simp only: pb_enc_varint_def pb_enc_uvarint_def pb_enc_svarint_def)
      (intro encodes_if bool encodes_sint encodes_uint emits_intros encodes_fixed32 encodes_fixed64
        encodes_bytes encodes_c_string sub encodes_fixed_length encodes_None)
qed

lemma encodes_key: "encodes (pb_encode_tag_for_field f) (key_code f)"
  unfolding pb_encode_tag_for_field_def key_code_def wire_type_of_def Let_def if_distrib [of "map_option _"]
    option.map
  by (intro encodes_if encodes_None encodes_emits pb_encode_tag_emits)

lemma encodes_entries:
  assumes "\<And>p. encodes (body p) (g p)"
  shows "encodes (encode_entries body stride p n) (entries_code g stride p n)"
  by (induction n arbitrary: p) (auto intro: encodes_ret encodes_seq assms)

text \<open>The size of a packed array of fixed-width entries is known without a first pass.\<close>

lemma entries_code_length:
  assumes "\<And>p bs. g p = Some bs \<Longrightarrow> length bs = k"
  shows "entries_code g stride p n = Some bs \<Longrightarrow> length bs = k * n"
  by (induction n arbitrary: p bs) (auto simp: cat_Some dest: assms)

lemma value_code_fixed:
  "PB_LTYPE (ftype f) = PB_LTYPE_FIXED32 \<Longrightarrow> value_code T M msg f p = Some bs \<Longrightarrow> length bs = 4"
  "PB_LTYPE (ftype f) = PB_LTYPE_FIXED64 \<Longrightarrow> value_code T M msg f p = Some bs \<Longrightarrow> length bs = 8"
  by (auto simp: value_code_def Let_def dest: length_rd)

lemma encodes_packed:
  assumes body: "encodes body (Some bs)" and len: "length bs < 2 ^ 63"
  shows "encodes (\<lambda>s. if is_sizing s then pb_write None (of_nat (length bs)) s else body s) (Some bs)"
  using encodesD [OF body len]
  by (intro encodesI) (auto simp: sizing_write room_def is_sizing_def split: osink.splits)

lemma encodes_array:
  assumes "\<And>p. encodes (func f p) (value_code T M msg f p)"
  shows "encodes (encode_array M f src (ucast (count :: pb_size_t)) func)
    (array_code M f src (unat count) (value_code T M msg f))"
proof -
  let ?val = "value_code T M msg f" and ?l = "PB_LTYPE (ftype f)"
  let ?stride = "ucast (data_size f) :: size_t" and ?c = "ucast count :: size_t"
  have u: "unat (ucast n :: size_t) = unat n" for n :: u32
    using unat_less [of n] by (simp add: unsigned_ucast_eq unsigned_take_bit_eq take_bit_nat_eq_self)
  have zero: "?c = 0 \<longleftrightarrow> unat count = 0"
    using u [of count] unat_eq_zero [of ?c] by (simp only:)
  have big: "?c > ucast (array_size f) \<longleftrightarrow> unat (array_size f) < unat count"
    by (simp only: word_less_nat_alt u)
  note entries = encodes_entries [of "func f" ?val, OF assms]
  have packed: "encodes
      (seq (pb_encode_tag PB_WT_STRING (tag f)) (\<lambda>_.
        seq (if ?l = PB_LTYPE_FIXED32 then ret (4 * ?c) else if ?l = PB_LTYPE_FIXED64 then ret (8 * ?c)
             else sizing_pass False (encode_entries (func f) ?stride src (unat ?c))) (\<lambda>sz.
        seq (pb_encode_varint sz) (\<lambda>_ s. if is_sizing s then pb_write None sz s
          else encode_entries (func f) ?stride src (unat ?c) s))))
      (cat (Some (tag_code PB_WT_STRING (tag f)))
         (map_option string_code (entries_code ?val ?stride src (unat count))))"
  proof (rule encodes_seq [OF encodes_emits [OF pb_encode_tag_emits]], rule encodesI)
    fix cs and s :: "'a pb_ostream_t"
    assume "map_option string_code (entries_code ?val ?stride src (unat count)) = Some cs"
      and len: "length cs < 2 ^ 63" and s: "ready s"
    then obtain bs where bs: "entries_code ?val ?stride src (unat count) = Some bs"
      and cs: "cs = string_code bs" by auto
    have lbs: "length bs < 2 ^ 63" using len cs by (simp add: string_code_def)
    have en: "encodes (encode_entries (func f) ?stride src (unat count)) (Some bs)"
      using entries [of ?stride src "unat count"] bs by simp
    have l4: "4 * ?c = of_nat (length bs)" if "?l = PB_LTYPE_FIXED32"
      using entries_code_length [OF value_code_fixed(1) [OF that] bs] by simp
    have l8: "8 * ?c = of_nat (length bs)" if "?l = PB_LTYPE_FIXED64"
      using entries_code_length [OF value_code_fixed(2) [OF that] bs] by simp
    have size: "(if ?l = PB_LTYPE_FIXED32 then ret (4 * ?c) else if ?l = PB_LTYPE_FIXED64 then ret (8 * ?c)
             else sizing_pass False (encode_entries (func f) ?stride src (unat ?c))) s
        = (Ok (of_nat (length bs)), s)" for s :: "'a pb_ostream_t"
      using sizing_pass_code [OF en lbs] l4 l8 by (simp add: u ret_def)
    have "encodes (seq (pb_encode_varint (of_nat (length bs)))
        (\<lambda>_ s. if is_sizing s then pb_write None (of_nat (length bs)) s
          else encode_entries (func f) ?stride src (unat count) s))
        (cat (Some (varint_code (of_nat (length bs)))) (Some bs))"
      by (intro encodes_seq [OF encodes_emits [OF pb_encode_varint_emits]] encodes_packed en lbs)
    from this [unfolded encodes_def, rule_format, of "string_code bs" s]
    show "if room (length cs) s
      then seq (if ?l = PB_LTYPE_FIXED32 then ret (4 * ?c) else if ?l = PB_LTYPE_FIXED64 then ret (8 * ?c)
             else sizing_pass False (encode_entries (func f) ?stride src (unat ?c))) (\<lambda>sz.
        seq (pb_encode_varint sz) (\<lambda>_ s. if is_sizing s then pb_write None sz s
          else encode_entries (func f) ?stride src (unat ?c) s)) s = (Ok (), emit cs s)
      else fst (seq (if ?l = PB_LTYPE_FIXED32 then ret (4 * ?c) else if ?l = PB_LTYPE_FIXED64 then ret (8 * ?c)
             else sizing_pass False (encode_entries (func f) ?stride src (unat ?c))) (\<lambda>sz.
        seq (pb_encode_varint sz) (\<lambda>_ s. if is_sizing s then pb_write None sz s
          else encode_entries (func f) ?stride src (unat ?c) s)) s) = Fail"
      unfolding seq_run(1) [OF size] unfolding u using len s cs
      by (simp add: cat_def string_code_def)
  qed
  show ?thesis
    unfolding encode_array_def array_code_def Let_def zero big
    by (intro encodes_if encodes_ret encodes_None packed)
      (simp only: u, intro encodes_entries encodes_seq encodes_key encodes_if encodes_load assms)
qed

section \<open>Fields and messages\<close>

text \<open>Calls that only read memory: their result does not depend on the stream they run on.\<close>

definition reads :: "('a, 's) act \<Rightarrow> ('a, unit) act \<Rightarrow> bool" where
  "reads m m0 \<longleftrightarrow> (\<forall>s. m s = (fst (m0 ()), s))"

lemma reads_basic: "reads (ret x) (ret x)" "reads (load v) (load v)" "reads undef undef"
  by (auto simp: reads_def load_def act_simps split: option.split)

lemma reads_seq:
  assumes "reads m m0" "\<And>x. reads (f x) (f0 x)"
  shows "reads (seq m f) (seq m0 f0)"
  using assms by (auto simp: reads_def seq_def split: prod.split outcome.split)

lemma reads_if: "(b \<Longrightarrow> reads m m0) \<Longrightarrow> (\<not> b \<Longrightarrow> reads k k0) \<Longrightarrow>
    reads (if b then m else k) (if b then m0 else k0)"
  by simp

lemma reads_iter_while:
  assumes "\<And>it. reads (body it) (body0 it)"
  shows "reads (iter_while body it) (iter_while body0 it)"
  using assms
proof (induction body it rule: iter_while.induct)
  case (1 body it)
  show ?case
    unfolding iter_while.simps [of body it] iter_while.simps [of body0 it]
    by (intro reads_seq reads_if reads_basic 1)
qed

lemma reads_check:
  "reads (pb_check_proto3_default_value n T M f p :: (bool, 's) act) (pb_check_proto3_default_value n T M f p)"
proof (induction n arbitrary: f p)
  case 0
  show ?case by (simp add: reads_def)
next
  case (Suc n)
  have zero: "reads (all_zero M p k) (all_zero M p k)" for p k
    by (induction k arbitrary: p) (auto intro!: reads_seq reads_if reads_basic)
  show ?case
    unfolding pb_check_proto3_default_value.simps Let_def case_prod_beta
    by (intro reads_if reads_seq reads_basic zero)
      (auto intro: reads_basic reads_iter_while Suc split: pb_ptr.split)
qed

lemma encodes_check:
  assumes "\<And>d. encodes (k d) (g d)"
  shows "encodes (seq (pb_check_proto3_default_value n T M f p) k) (Option.bind (proto3_default n T M f p) g)"
proof (cases "proto3_default n T M f p")
  case None
  then show ?thesis by (simp add: encodes_None)
next
  case (Some d)
  then have "fst (pb_check_proto3_default_value n T M f p ()) = Ok d"
    by (auto simp: proto3_default_def split: prod.splits outcome.splits)
  then have "pb_check_proto3_default_value n T M f p s = (Ok d, s)" for s :: "'a pb_ostream_t"
    using reads_check [of n T M f p, unfolded reads_def, rule_format, of s] by simp
  then have "seq (pb_check_proto3_default_value n T M f p) k = k d" by (auto simp: seq_def)
  then show ?thesis using Some assms by simp
qed

lemma PB_HTYPE_cases:
  "PB_HTYPE x = PB_HTYPE_REQUIRED \<or> PB_HTYPE x = PB_HTYPE_OPTIONAL \<or>
   PB_HTYPE x = PB_HTYPE_REPEATED \<or> PB_HTYPE x = PB_HTYPE_ONEOF"
proof -
  have b: "bit (0x30 :: int) n \<longleftrightarrow> 4 \<le> n \<and> n < 6" "bit (0x20 :: int) n \<longleftrightarrow> n = 5"
    "bit (0x10 :: int) n \<longleftrightarrow> n = 4" for n
    using bit_shifted_mask [of 4 2 n] bit_pow [of 5 n] bit_pow [of 4 n] by simp_all
  have n: "4 \<le> n \<and> n < 6 \<longleftrightarrow> n = 4 \<or> n = 5" for n :: nat by auto
  have "PB_HTYPE x = (if bit x 4 then 0x10 else 0) OR (if bit x 5 then 0x20 else 0)"
    unfolding PB_HTYPE_def by (rule bit_word_eqI) (auto simp: bit_simps b n)
  then show ?thesis by (auto split: if_splits)
qed

text \<open>The choice of the source pointer and of the implicit \<open>has_\<close> flag before the switch.\<close>

lemma encodes_presence:
  assumes "\<And>src has. encodes (k src has) (g src has)"
  shows "encodes
     (seq (if c then seq (pb_check_proto3_default_value n T M f p) (\<lambda>d. ret (\<not> d)) else ret True)
       (\<lambda>has0. seq (if ptr then seq (load (rd64 M p)) (\<lambda>q. ret (q, q \<noteq> 0)) else ret (p, has0))
       (\<lambda>(src, has). k src has)))
     (Option.bind (if c then map_option (\<lambda>d. \<not> d) (proto3_default n T M f p) else Some True) (\<lambda>nonzero.
      Option.bind (if ptr then rd64 M p else Some p) (\<lambda>src. g src (if ptr then src \<noteq> 0 else nonzero))))"
proof -
  let ?k = "\<lambda>has0. seq (if ptr then seq (load (rd64 M p)) (\<lambda>q. ret (q, q \<noteq> 0)) else ret (p, has0))
       (\<lambda>(src, has). k src has)"
  let ?g = "\<lambda>nonzero. Option.bind (if ptr then rd64 M p else Some p)
       (\<lambda>src. g src (if ptr then src \<noteq> 0 else nonzero))"
  have src: "encodes (?k has0) (?g has0)" for has0
    by (cases ptr) (simp_all add: seq_assoc seq_basic assms encodes_load)
  show ?thesis
  proof (cases c)
    case True
    have "Option.bind (map_option (\<lambda>d. \<not> d) (proto3_default n T M f p)) ?g =
        Option.bind (proto3_default n T M f p) (\<lambda>d. ?g (\<not> d))"
      by (cases "proto3_default n T M f p") simp_all
    then show ?thesis
      using True encodes_check [of "\<lambda>d. ?k (\<not> d)" "\<lambda>d. ?g (\<not> d)" n T M f p, OF src]
      by (simp add: seq_assoc seq_basic)
  next
    case False
    then show ?thesis using src [of True] by (simp add: seq_basic)
  qed
qed

lemma encodes_basic:
  assumes "\<And>fs src. encodes (enc fs src) (msg fs src)" "PB_LTYPE (ftype f) \<le> PB_LTYPE_FIXED_LENGTH_BYTES"
  shows "encodes (encode_basic_field n E M enc f p) (basic_code n (e_tables E) M msg f p)"
proof -
  let ?h = "PB_HTYPE (ftype f)" and ?psize = "p + scast (size_offset f)"
  let ?func = "PB_ENCODERS E M enc (PB_LTYPE (ftype f))" and ?val = "value_code (e_tables E) M msg f"
  note val = encodes_value [OF assms(1), where f = f and E = E and M = M]
  have one: "encodes (seq (pb_encode_tag_for_field f) (\<lambda>_. ?func f src)) (cat (key_code f) (?val src))" for src
    by (intro encodes_seq encodes_key val)
  have rest: "encodes
      (if ?h = PB_HTYPE_REQUIRED then
          (if src = 0 then o_error ''missing required field''
           else seq (pb_encode_tag_for_field f) (\<lambda>_. ?func f src))
        else if ?h = PB_HTYPE_OPTIONAL then
          seq (if size_offset f \<noteq> 0 then load (safe_read_bool M ?psize) else ret has)
            (\<lambda>present. if present then seq (pb_encode_tag_for_field f) (\<lambda>_. ?func f src) else ret ())
        else if ?h = PB_HTYPE_REPEATED then
          seq (if size_offset f \<noteq> 0 then load (rd32 M ?psize) else ret (array_size f))
            (\<lambda>count. encode_array M f src (ucast count) ?func)
        else if ?h = PB_HTYPE_ONEOF then
          seq (if size_offset f \<noteq> 0 then load (rd32 M ?psize) else undef)
            (\<lambda>which. if which = tag f then seq (pb_encode_tag_for_field f) (\<lambda>_. ?func f src) else ret ())
        else o_error ''invalid field type'')
      (if ?h = PB_HTYPE_REQUIRED then (if src = 0 then None else cat (key_code f) (?val src))
      else if ?h = PB_HTYPE_OPTIONAL then
        Option.bind (if size_offset f \<noteq> 0 then safe_read_bool M ?psize else Some has)
          (\<lambda>present. if present then cat (key_code f) (?val src) else Some [])
      else if ?h = PB_HTYPE_REPEATED then
        Option.bind (if size_offset f \<noteq> 0 then rd32 M ?psize else Some (array_size f))
          (\<lambda>count. array_code M f src (unat count) ?val)
      else
        Option.bind (if size_offset f \<noteq> 0 then rd32 M ?psize else None)
          (\<lambda>which. if which = tag f then cat (key_code f) (?val src) else Some []))" for src has
  proof -
    have load_if: "(if size_offset f \<noteq> 0 then load a else ret b) = load (if size_offset f \<noteq> 0 then a else Some b)"
      "(if size_offset f \<noteq> 0 then load a else undef) = load (if size_offset f \<noteq> 0 then a else None)"
      for a :: "'x option" and b :: 'x by (simp_all add: load_simps)
    have h: "?h = PB_HTYPE_ONEOF" if "?h \<noteq> PB_HTYPE_REQUIRED" "?h \<noteq> PB_HTYPE_OPTIONAL" "?h \<noteq> PB_HTYPE_REPEATED"
      using that PB_HTYPE_cases [of "ftype f"] by auto
    show ?thesis
      unfolding load_if
      by (intro encodes_if encodes_load encodes_ret encodes_None one encodes_array val)
        (use h in \<open>auto intro!: encodes_load encodes_if encodes_ret encodes_None one\<close>)
  qed
  have lt: "\<not> PB_LTYPE (ftype f) > PB_LTYPE_FIXED_LENGTH_BYTES" using assms(2) by simp
  show ?thesis
    unfolding encode_basic_field_def basic_code_def Let_def if_not_P [OF lt]
    by (rule encodes_presence [OF rest])
qed

text \<open>What the development relies on of the user's callbacks: they emit the codes they stand for.\<close>

definition callbacks_ok :: "'s pb_enc_env \<Rightarrow> (addr \<Rightarrow> pb_field_t \<Rightarrow> addr \<Rightarrow> byte list option) \<Rightarrow>
    (addr \<Rightarrow> addr \<Rightarrow> byte list option) \<Rightarrow> bool" where
  "callbacks_ok E cb xcb \<longleftrightarrow>
     (\<forall>a f p bs. cb a f p = Some bs \<longrightarrow> emits (e_encode E a f p) bs) \<and>
     (\<forall>a p bs. xcb a p = Some bs \<longrightarrow> emits (e_ext_encode E a p) bs)"

lemma callbacks_okD:
  assumes "callbacks_ok E cb xcb"
  shows "encodes (e_encode E a f p) (cb a f p)" "encodes (e_ext_encode E a p) (xcb a p)"
proof -
  show "encodes (e_encode E a f p) (cb a f p)"
  proof (cases "cb a f p")
    case (Some bs)
    then have "emits (e_encode E a f p) bs" using assms by (simp add: callbacks_ok_def)
    then show ?thesis unfolding Some by (rule encodes_emits)
  qed (simp add: encodes_None)
  show "encodes (e_ext_encode E a p) (xcb a p)"
  proof (cases "xcb a p")
    case (Some bs)
    then have "emits (e_ext_encode E a p) bs" using assms by (simp add: callbacks_ok_def)
    then show ?thesis unfolding Some by (rule encodes_emits)
  qed (simp add: encodes_None)
qed

lemma encodes_or_error:
  assumes "encodes m r"
  shows "encodes (or_error m msg) r"
proof (rule encodesI)
  fix bs and s :: "'a pb_ostream_t"
  assume "r = Some bs" and len: "length bs < 2 ^ 63" and s: "ready s"
  note m = encodesD [OF assms [unfolded this] len s]
  show "if room (length bs) s then or_error m msg s = (Ok (), emit bs s)
        else fst (or_error m msg s) = Fail"
    using m by (cases "m s") (simp add: or_error_def o_error_def)
qed

lemma encodes_field:
  assumes "callbacks_ok E cb xcb" "\<And>fs src. encodes (enc fs src) (msg fs src)"
  shows "encodes (encode_field n E M enc f p) (field_code n (e_tables E) cb M msg f p)"
proof -
  have "encodes (encode_callback_field E M f p)
      (Option.bind (rd64 M p) (\<lambda>funcs. if funcs = 0 then Some [] else cb funcs f (p + 8)))"
    unfolding encode_callback_field_def
    by (auto intro!: encodes_load encodes_ret encodes_or_error callbacks_okD [OF assms(1)])
  moreover have "encodes (encode_basic_field n E M enc f p)
      (if PB_LTYPE (ftype f) \<le> PB_LTYPE_FIXED_LENGTH_BYTES then basic_code n (e_tables E) M msg f p
       else None)"
    by (auto intro: encodes_basic encodes_None assms(2))
  ultimately show ?thesis
    unfolding encode_field_def field_code_def Let_def by (intro encodes_if encodes_None)
qed

lemma encodes_extensions:
  assumes "callbacks_ok E cb xcb" "\<And>fs src. encodes (enc fs src) (msg fs src)"
  shows "encodes (encode_extensions k n E M enc ext)
    (extensions_code k (e_ext_arg E) xcb M (field_code n (e_tables E) cb M msg) ext)"
proof (induction k arbitrary: ext)
  case 0
  show ?case by (simp add: encodes_None)
next
  case (Suc k)
  let ?fld = "field_code n (e_tables E) cb M msg"
  have bind: "Option.bind (Option.bind (rd64 M e) f) g = Option.bind (rd64 M e) (\<lambda>v. Option.bind (f v) g)"
    for e :: addr and f :: "addr \<Rightarrow> 'x option" and g :: "'x \<Rightarrow> 'y option"
    by (cases "rd64 M e") simp_all
  have default: "encodes (default_extension_encoder n E M enc ext)
      (Option.bind (rd64 M ext) (\<lambda>type. Option.bind (rd64 M (type + 16)) (\<lambda>arg.
        Option.bind (e_ext_arg E arg) (\<lambda>f.
          if PB_ATYPE (ftype f) = PB_ATYPE_POINTER then ?fld f (ext + 8)
          else Option.bind (rd64 M (ext + 8)) (?fld f)))))"
    unfolding default_extension_encoder_def
    by (intro encodes_load encodes_if encodes_field [OF assms])
  show ?case
  proof (cases "rd64 M ext")
    case None
    then show ?thesis by (simp add: encodes_None encodes_ret)
  next
    case (Some type)
    show ?thesis
      unfolding encode_extensions.simps extensions_code.simps
      by (intro encodes_if encodes_ret encodes_load encodes_seq callbacks_okD [OF assms(1)] Suc)
        (use Some default in auto)
  qed
qed

lemma encodes_iter_while:
  assumes "tags_ok fs" "\<And>i. i < length fs \<Longrightarrow> encodes (body (iter_at fs d i)) (code i)" "i < length fs"
  shows "encodes (seq (iter_while (\<lambda>it. seq (body it) (\<lambda>_. ret True)) (iter_at fs d i)) (\<lambda>_. ret ()))
    (foldr cat (map code [i..<length fs]) (Some []))"
  using assms(3)
proof (induction "length fs - i" arbitrary: i)
  case 0
  then show ?case by simp
next
  case (Suc k)
  note nxt = iter_next_at [OF assms(1) Suc.prems, of d]
  let ?loop = "\<lambda>it. seq (iter_while (\<lambda>it. seq (body it) (\<lambda>_. ret True)) it) (\<lambda>_. ret ())"
  have unfold: "?loop (iter_at fs d i) = seq (body (iter_at fs d i)) (\<lambda>_.
      if Suc i < length fs then ?loop (iter_at fs d (Suc i)) else ret ())"
    by (subst iter_while.simps) (simp add: seq_assoc seq_basic nxt del: iter_at.simps)
  have "encodes (if Suc i < length fs then ?loop (iter_at fs d (Suc i)) else ret ())
      (foldr cat (map code [Suc i..<length fs]) (Some []))"
  proof (cases "Suc i < length fs")
    case True
    then show ?thesis using Suc.hyps(1) [of "Suc i"] Suc.hyps(2) by simp
  next
    case False
    then show ?thesis by (simp add: encodes_ret)
  qed
  then show ?case
    unfolding unfold using Suc.prems
    by (simp add: upt_conv_Cons encodes_seq assms(2) del: upt_Suc iter_at.simps)
qed

lemma encodes_message:
  assumes "callbacks_ok E cb xcb"
  shows "encodes (pb_encode n E M fs src) (msg_code n E cb xcb M fs src)"
proof (induction n arbitrary: fs src)
  case 0
  show ?case by (simp add: encodes_None)
next
  case (Suc n)
  show ?case
  proof (cases "tags_ok fs \<and> fs \<noteq> []")
    case True
    define body where "body it = (if PB_LTYPE (ftype (iter_field it)) = PB_LTYPE_EXTENSION
               then encode_extension_field n E M (pb_encode n E M) (pData it)
               else encode_field n E M (pb_encode n E M) (iter_field it) (pData it))" for it
    define code where "code i = (let f = fs ! i; p = pData (iter_at fs src i);
              fld = field_code n (e_tables E) cb M (msg_code n E cb xcb M) in
            if PB_LTYPE (ftype f) = PB_LTYPE_EXTENSION
            then Option.bind (rd64 M p) (extensions_code n (e_ext_arg E) xcb M fld)
            else fld f p)" for i
    have "encodes (body (iter_at fs src i)) (code i)" if i: "i < length fs" for i
    proof -
      have "iter_field (iter_at fs src i) = fs ! i"
        using iter_at_static [of fs i src] True i by (simp add: field_at_def)
      then show ?thesis
        unfolding body_def code_def Let_def encode_extension_field_def
        by (auto intro!: encodes_load encodes_extensions encodes_field assms Suc
            simp del: iter_at.simps)
    qed
    with encodes_iter_while [of fs body src code 0] True
    have "encodes (seq (iter_while (\<lambda>it. seq (body it) (\<lambda>_. ret True)) (iter_at fs src 0)) (\<lambda>_. ret ()))
      (foldr cat (map code [0..<length fs]) (Some []))" by simp
    moreover have "fst (pb_field_iter_begin fs src)"
      using True by (auto simp: pb_field_iter_begin_def Let_def tag_field_at)
    ultimately show ?thesis
      using True by (simp add: case_prod_beta body_def [abs_def] code_def [abs_def])
  next
    case False
    then show ?thesis
      by (auto simp: pb_field_iter_begin_def field_at_def PB_LAST_FIELD_def encodes_None encodes_ret)
  qed
qed

section \<open>Properties\<close>

lemma ready_buffer:
  assumes "unat bufsize \<le> length buf" "unat bufsize < 2 ^ 63"
  shows "ready (pb_ostream_from_buffer buf bufsize)"
    "room n (pb_ostream_from_buffer buf bufsize) \<longleftrightarrow> n \<le> unat bufsize"
  using assms by (simp_all add: ready_def ostream_ok_def room_def pb_ostream_from_buffer_def)

lemma emit_buffer:
  "bytes_written (pb_ostream_from_buffer buf bufsize) = 0"
  "sink (emit bs (pb_ostream_from_buffer buf bufsize)) = BufSink (bs @ drop (length bs) buf) (length bs)"
  by (simp_all add: emit_def pb_ostream_from_buffer_def overlay_def)

text \<open>
  C2. Encoding a message structure is exact: whenever the pure specification gives the structure the
  encoding \<open>bs\<close> (shorter than 2^63 bytes), \<open>pb_encode\<close> into a buffer limited to \<open>bufsize\<close> bytes
  writes exactly \<open>bs\<close> from the start of the buffer, changes no other byte and reports the length
  when \<open>bs\<close> fits, and returns false, without undefined behaviour, when it does not.  This holds for
  every field type, for packed arrays, nested submessages, oneofs, callbacks and extensions.
\<close>

theorem encoded_message:
  fixes E :: "'s pb_enc_env"
  assumes "callbacks_ok E cb xcb" "msg_code n E cb xcb M fs src = Some bs" "length bs < 2 ^ 63"
    and "unat bufsize \<le> length buf" "unat bufsize < 2 ^ 63"
  shows "if length bs \<le> unat bufsize
    then \<exists>t. pb_encode n E M fs src (pb_ostream_from_buffer buf bufsize) = (Ok (), t) \<and>
      bytes_written t = of_nat (length bs) \<and>
      sink t = BufSink (bs @ drop (length bs) buf) (length bs)
    else fst (pb_encode n E M fs src (pb_ostream_from_buffer buf bufsize)) = Fail"
  using encodesD [OF encodes_message [OF assms(1), of n M fs src, unfolded assms(2)] assms(3)
      ready_buffer(1) [OF assms(4,5)]]
  by (simp add: ready_buffer(2) [OF assms(4,5)] emit_buffer)

text \<open>
  C3. The size computed by \<open>pb_get_encoded_size\<close> is the length of that encoding, and
  \<open>pb_encode_delimited\<close> puts the length in front: it writes the varint of the length and then the
  encoding, so that a buffer of the computed size plus the prefix is enough and one byte less is not.
\<close>

theorem encoded_size_exact:
  fixes E :: "'s pb_enc_env"
  assumes "callbacks_ok E cb xcb" "msg_code n E cb xcb M fs src = Some bs" "length (string_code bs) < 2 ^ 63"
    and "unat bufsize \<le> length buf" "unat bufsize < 2 ^ 63"
  shows "pb_get_encoded_size n E M fs src = Ok (of_nat (length bs)) \<and>
    (if length (varint_code (of_nat (length bs))) + length bs \<le> unat bufsize
     then \<exists>t. pb_encode_delimited n E M fs src (pb_ostream_from_buffer buf bufsize) = (Ok (), t) \<and>
       sink t = BufSink (varint_code (of_nat (length bs)) @ bs @ drop (length (string_code bs)) buf)
         (length (string_code bs))
     else fst (pb_encode_delimited n E M fs src (pb_ostream_from_buffer buf bufsize)) = Fail)"
proof
  note enc = encodes_message [OF assms(1), of n M fs src, unfolded assms(2)]
  have len: "length bs < 2 ^ 63" using assms(3) by (simp add: string_code_def)
  show "pb_get_encoded_size n E M fs src = Ok (of_nat (length bs))"
    using encodesD(1) [OF enc len ready_SIZING room_SIZING]
    by (simp add: pb_get_encoded_size_def) (simp add: PB_OSTREAM_SIZING_def)
  have "encodes (pb_encode_delimited n E M fs src) (Some (string_code bs))"
    using encodes_submessage [of "pb_encode n E M" fs src, OF enc] by (simp add: pb_encode_delimited_def)
  from encodesD [OF this assms(3) ready_buffer(1) [OF assms(4,5)]]
  show "if length (varint_code (of_nat (length bs))) + length bs \<le> unat bufsize
     then \<exists>t. pb_encode_delimited n E M fs src (pb_ostream_from_buffer buf bufsize) = (Ok (), t) \<and>
       sink t = BufSink (varint_code (of_nat (length bs)) @ bs @ drop (length (string_code bs)) buf)
         (length (string_code bs))
     else fst (pb_encode_delimited n E M fs src (pb_ostream_from_buffer buf bufsize)) = Fail"
    by (simp add: ready_buffer(2) [OF assms(4,5)] emit_buffer) (simp add: string_code_def emit_buffer)
qed

text \<open>
  A structure with a required integer, a proto3 string, a packed array and a nested message, for the
  witnesses.
\<close>

definition sample_fields :: "pb_field_t list" where
  "sample_fields =
    [\<lparr>tag = 1, ftype = 0x02, data_offset = 0, size_offset = 0, data_size = 4, array_size = 0, fptr = PtrNull\<rparr>,
     \<lparr>tag = 2, ftype = 0x17, data_offset = 0, size_offset = 0, data_size = 4, array_size = 0, fptr = PtrNull\<rparr>,
     \<lparr>tag = 3, ftype = 0x21, data_offset = 4, size_offset = - 4, data_size = 1, array_size = 4, fptr = PtrNull\<rparr>,
     \<lparr>tag = 4, ftype = 0x08, data_offset = 0, size_offset = 0, data_size = 4, array_size = 0, fptr = PtrFields 0\<rparr>]"

definition sample_sub :: "pb_field_t list" where
  "sample_sub =
    [\<lparr>tag = 1, ftype = 0x04, data_offset = 0, size_offset = 0, data_size = 4, array_size = 0, fptr = PtrNull\<rparr>]"

definition sample_env :: "nat pb_enc_env" where
  "sample_env = \<lparr>e_tables = (\<lambda>_. sample_sub), e_ext_arg = (\<lambda>_. None),
     e_encode = (\<lambda>_ _ _. undef), e_ext_encode = (\<lambda>_ _. undef)\<rparr>"

definition sample_mem :: mem where
  "sample_mem = map_of (zip (map (\<lambda>i. 0x1000 + of_nat i) [0..<20])
     [0x2C, 1, 0, 0, 0x68, 0x69, 0, 0, 2, 0, 0, 0, 5, 0xFF, 0, 0, 1, 2, 3, 4])"

definition sample_code :: "byte list" where
  "sample_code = [8, 0xAC, 2, 0x12, 2, 0x68, 0x69, 0x1A, 11, 5, 0xFF, 0xFF, 0xFF, 0xFF, 0xFF, 0xFF, 0xFF,
     0xFF, 0xFF, 1, 0x22, 5, 0x0D, 1, 2, 3, 4]"

lemma sample_callbacks: "callbacks_ok sample_env (\<lambda>_ _ _. None) (\<lambda>_ _. None)"
  by (simp add: callbacks_ok_def)

lemma sample_msg_code:
  "msg_code 3 sample_env (\<lambda>_ _ _. None) (\<lambda>_ _. None) sample_mem sample_fields 0x1000 = Some sample_code"
  by code_simp

lemma sample_string_code:
  "string_code sample_code = 27 # sample_code" "length sample_code = 27" "varint_code 27 = [27]"
  by code_simp+

theorem encoded_message_witness:
  "(\<exists>t. pb_encode 3 sample_env sample_mem sample_fields 0x1000
        (pb_ostream_from_buffer (replicate 40 0) 30) = (Ok (), t) \<and>
      sink t = BufSink (sample_code @ replicate 13 0) 27) \<and>
   fst (pb_encode 3 sample_env sample_mem sample_fields 0x1000
        (pb_ostream_from_buffer (replicate 40 0) 26)) = Fail"
  using encoded_message [OF sample_callbacks sample_msg_code, of 30 "replicate 40 0"]
    encoded_message [OF sample_callbacks sample_msg_code, of 26 "replicate 40 0"]
  by (auto simp: sample_code_def)

theorem encoded_size_exact_witness:
  "pb_get_encoded_size 3 sample_env sample_mem sample_fields 0x1000 = Ok 27 \<and>
   (\<exists>t. pb_encode_delimited 3 sample_env sample_mem sample_fields 0x1000
        (pb_ostream_from_buffer (replicate 28 0) 28) = (Ok (), t) \<and>
      sink t = BufSink (27 # sample_code) 28)"
  using encoded_size_exact [OF sample_callbacks sample_msg_code, of 28 "replicate 28 0"]
  by (simp add: sample_string_code)

end
