(* ===== verification/Pb_Decode.thy ===== *)
theory Pb_Decode
  imports Pb_Istream Pb_Iter
begin

text \<open>
  The message level of pb_decode.c, with PB_ENABLE_MALLOC: decoding into a structure in memory by
  its descriptor array, the initialisation to defaults, and the release of allocated fields.

  The state of a call is the input stream, the memory, the state of the allocator and the local
  variable \<open>fixed_count_size\<close> of the running \<open>pb_decode_noinit\<close>, to which the iterator's \<open>pSize\<close> may
  point.  \<open>pb_decode_noinit\<close> calls itself through \<open>pb_dec_submessage\<close>; the functions in between take
  the recursive call as the argument \<open>noinit\<close>.  The fuel bounds the nesting depth, the recursion of
  the initialisation and of the release, linked lists of extensions, and the loop around a user's
  callback, which need not consume input.  The loops driven by the input take the number of bytes
  left as their bound instead.
\<close>

section \<open>State and environment\<close>

record ('s, 'h) pb_dec =
  d_in :: "'s pb_istream_t"
  d_mem :: mem
  d_heap :: 'h
  d_fixed :: pb_size_t

type_synonym ('a, 's, 'h) dact = "('a, ('s, 'h) pb_dec) act"

record ('s, 'h) pb_dec_env =
  d_tables :: "nat \<Rightarrow> pb_field_t list"
  d_ext_arg :: "addr \<Rightarrow> pb_field_t option"
  d_decode :: "addr \<Rightarrow> pb_field_t \<Rightarrow> addr \<Rightarrow> (unit, 's, 'h) dact"
  d_ext_decode :: "addr \<Rightarrow> addr \<Rightarrow> u32 \<Rightarrow> pb_wire_type_t \<Rightarrow> (unit, 's, 'h) dact"
  d_realloc :: "addr \<Rightarrow> size_t \<Rightarrow> 'h \<Rightarrow> mem \<Rightarrow> addr \<times> 'h \<times> mem"
  d_free :: "addr \<Rightarrow> 'h \<Rightarrow> mem \<Rightarrow> 'h \<times> mem"

text \<open>
  Allocation is a parameter: \<open>d_realloc\<close> gives the new pointer (null on failure), the allocator's new
  state and the memory with the new block mapped; \<open>d_free\<close> likewise.
\<close>

definition no_fuel :: "('a, 's, 'h) dact" where
  "no_fuel = (\<lambda>w. (NoFuel, w))"

definition on_stream :: "('a, 's pb_istream_t) act \<Rightarrow> ('a, 's, 'h) dact" where
  "on_stream m = (\<lambda>w. case m (d_in w) of (r, t) \<Rightarrow> (r, w\<lparr>d_in := t\<rparr>))"

definition d_error :: "string \<Rightarrow> ('a, 's, 'h) dact" where
  "d_error msg = on_stream (i_error msg)"

definition loadm :: "(mem \<Rightarrow> 'a option) \<Rightarrow> ('a, 's, 'h) dact" where
  "loadm f = (\<lambda>w. case f (d_mem w) of None \<Rightarrow> (Ub, w) | Some v \<Rightarrow> (Ok v, w))"

definition store :: "addr \<Rightarrow> byte list \<Rightarrow> (unit, 's, 'h) dact" where
  "store a bs = (\<lambda>w. case wr (d_mem w) a bs of None \<Rightarrow> (Ub, w) | Some m \<Rightarrow> (Ok (), w\<lparr>d_mem := m\<rparr>))"

abbreviation load32 :: "addr \<Rightarrow> (u32, 's, 'h) dact" where "load32 a \<equiv> loadm (\<lambda>m. rd32 m a)"
abbreviation load64 :: "addr \<Rightarrow> (u64, 's, 'h) dact" where "load64 a \<equiv> loadm (\<lambda>m. rd64 m a)"
abbreviation store32 :: "addr \<Rightarrow> u32 \<Rightarrow> (unit, 's, 'h) dact" where "store32 a v \<equiv> store a (le_bytes 4 v)"
abbreviation store64 :: "addr \<Rightarrow> u64 \<Rightarrow> (unit, 's, 'h) dact" where "store64 a v \<equiv> store a (le_bytes 8 v)"

text \<open>
  \<open>pb_read\<close> with a destination in memory.  A failing callback may have stored some bytes.
\<close>

definition read_to :: "addr \<Rightarrow> nat \<Rightarrow> (bool, 's, 'h) dact" where
  "read_to dest count = seq (on_stream (pb_read_status True count))
     (\<lambda>(ok, bs). seq (store dest bs) (\<lambda>_. ret ok))"

definition pb_read_to :: "addr \<Rightarrow> nat \<Rightarrow> (unit, 's, 'h) dact" where
  "pb_read_to dest count = seq (read_to dest count) (\<lambda>ok. if ok then ret () else fail)"

text \<open>
  Running a call on a substream: its result (\<open>None\<close> when it returned false) and the substream it
  leaves behind; the parent stream is untouched.
\<close>

definition run_sub :: "'s pb_istream_t \<Rightarrow> ('a, 's, 'h) dact \<Rightarrow> ('a option \<times> 's pb_istream_t, 's, 'h) dact" where
  "run_sub sub m = (\<lambda>w. case m (w\<lparr>d_in := sub\<rparr>) of
      (Ok x, w') \<Rightarrow> (Ok (Some x, d_in w'), w'\<lparr>d_in := d_in w\<rparr>)
    | (Fail, w') \<Rightarrow> (Ok (None, d_in w'), w'\<lparr>d_in := d_in w\<rparr>)
    | (Ub, w') \<Rightarrow> (Ub, w'\<lparr>d_in := d_in w\<rparr>)
    | (NoFuel, w') \<Rightarrow> (NoFuel, w'\<lparr>d_in := d_in w\<rparr>))"

definition of_status :: "'a option \<Rightarrow> (unit, 's, 'h) dact" where
  "of_status r = (case r of None \<Rightarrow> fail | Some _ \<Rightarrow> ret ())"

text \<open>The accesses \<open>*(pb_size_t* )iter->pSize\<close> and \<open>*(bool* )iter->pSize\<close>.\<close>

definition get_size :: "size_ptr \<Rightarrow> (pb_size_t, 's, 'h) dact" where
  "get_size p = (case p of InMem a \<Rightarrow> load32 a | FixedCount \<Rightarrow> query d_fixed)"

definition set_size :: "size_ptr \<Rightarrow> pb_size_t \<Rightarrow> (unit, 's, 'h) dact" where
  "set_size p v = (case p of InMem a \<Rightarrow> store32 a v | FixedCount \<Rightarrow> update (\<lambda>w. w\<lparr>d_fixed := v\<rparr>))"

definition set_has :: "size_ptr \<Rightarrow> bool \<Rightarrow> (unit, 's, 'h) dact" where
  "set_has p v = (case p of
      InMem a \<Rightarrow> store a [if v then 1 else 0]
    | FixedCount \<Rightarrow> update (\<lambda>w. w\<lparr>d_fixed := (d_fixed w AND NOT 0xFF) OR (if v then 1 else 0)\<rparr>))"

section \<open>Allocation\<close>

definition allocate_field :: "('s, 'h) pb_dec_env \<Rightarrow> addr \<Rightarrow> size_t \<Rightarrow> size_t \<Rightarrow> (unit, 's, 'h) dact" where
  "allocate_field D pdata data_sz array_sz =
     seq (load64 pdata) (\<lambda>ptr.
     if data_sz = 0 \<or> array_sz = 0 then d_error ''invalid size''
     else if (data_sz \<ge> push_bit 32 1 \<or> array_sz \<ge> push_bit 32 1) \<and> (- 1) div array_sz < data_sz
     then d_error ''size too large''
     else (\<lambda>w. case d_realloc D ptr (array_sz * data_sz) (d_heap w) (d_mem w) of
        (ptr', h, m) \<Rightarrow> (if ptr' = 0 then d_error ''realloc failed'' else store64 pdata ptr')
          (w\<lparr>d_heap := h, d_mem := m\<rparr>)))"

definition pb_free :: "('s, 'h) pb_dec_env \<Rightarrow> addr \<Rightarrow> (unit, 's, 'h) dact" where
  "pb_free D p = (\<lambda>w. case d_free D p (d_heap w) (d_mem w) of
     (h, m) \<Rightarrow> (Ok (), w\<lparr>d_heap := h, d_mem := m\<rparr>))"

section \<open>Decoders of single values\<close>

type_synonym ('s, 'h) pb_decoder_t = "pb_field_t \<Rightarrow> addr \<Rightarrow> (unit, 's, 'h) dact"
type_synonym ('s, 'h) pb_decode_t = "pb_field_t list \<Rightarrow> addr \<Rightarrow> (unit, 's, 'h) dact"

definition pb_dec_bool :: "addr \<Rightarrow> (unit, 's, 'h) dact" where
  "pb_dec_bool dest = seq (on_stream pb_decode_varint32) (\<lambda>v. store dest [if v \<noteq> 0 then 1 else 0])"

definition pb_decode_bool :: "addr \<Rightarrow> (unit, 's, 'h) dact" where
  "pb_decode_bool dest = pb_dec_bool dest"

text \<open>The value as it reads back from a field of \<open>n\<close> bytes.\<close>

definition clamp_signed :: "pb_size_t \<Rightarrow> u64 \<Rightarrow> u64" where
  "clamp_signed n v =
     (if n = 8 then v else if n = 4 then scast (ucast v :: u32)
      else if n = 2 then scast (ucast v :: u16) else scast (ucast v :: byte))"

definition clamp_unsigned :: "pb_size_t \<Rightarrow> u64 \<Rightarrow> u64" where
  "clamp_unsigned n v =
     (if n = 8 then v else if n = 4 then ucast (ucast v :: u32)
      else if n = 2 then ucast (ucast v :: u16) else ucast (ucast v :: byte))"

definition store_int :: "(u64 \<Rightarrow> u64) \<Rightarrow> pb_size_t \<Rightarrow> addr \<Rightarrow> u64 \<Rightarrow> (unit, 's, 'h) dact" where
  "store_int clamp n dest v =
     (if n = 8 \<or> n = 4 \<or> n = 2 \<or> n = 1
      then seq (store dest (le_bytes (unat n) v))
             (\<lambda>_. if clamp v \<noteq> v then d_error ''integer too large'' else ret ())
      else d_error ''invalid data_size'')"

definition pb_dec_varint :: "('s, 'h) pb_decoder_t" where
  "pb_dec_varint field dest = seq (on_stream pb_decode_varint) (\<lambda>v.
     let svalue = (if data_size field = 8 then v else scast (ucast v :: u32))
     in store_int (clamp_signed (data_size field)) (data_size field) dest svalue)"

definition pb_dec_uvarint :: "('s, 'h) pb_decoder_t" where
  "pb_dec_uvarint field dest = seq (on_stream pb_decode_varint)
     (store_int (clamp_unsigned (data_size field)) (data_size field) dest)"

definition pb_dec_svarint :: "('s, 'h) pb_decoder_t" where
  "pb_dec_svarint field dest = seq (on_stream pb_decode_svarint)
     (store_int (clamp_signed (data_size field)) (data_size field) dest)"

definition pb_dec_fixed32 :: "('s, 'h) pb_decoder_t" where
  "pb_dec_fixed32 field dest = seq (on_stream pb_decode_fixed32) (store32 dest)"

definition pb_dec_fixed64 :: "('s, 'h) pb_decoder_t" where
  "pb_dec_fixed64 field dest = seq (on_stream pb_decode_fixed64) (store64 dest)"

definition pb_dec_bytes :: "('s, 'h) pb_dec_env \<Rightarrow> ('s, 'h) pb_decoder_t" where
  "pb_dec_bytes D field dest =
     seq (on_stream pb_decode_varint32) (\<lambda>size.
     let alloc_size = (ucast size + 4 :: size_t) in
     if size > PB_SIZE_MAX then d_error ''bytes overflow''
     else if ucast size > alloc_size then d_error ''size too large''
     else
       seq (if PB_ATYPE (ftype field) = PB_ATYPE_POINTER
            then seq (query (\<lambda>w. bytes_left (d_in w))) (\<lambda>left.
              if left < unat size then d_error ''end-of-stream''
              else seq (allocate_field D dest alloc_size 1) (\<lambda>_. load64 dest))
            else if alloc_size > ucast (data_size field) then d_error ''bytes overflow''
            else ret dest) (\<lambda>bdest.
       seq (store32 bdest size) (\<lambda>_. pb_read_to (bdest + 4) (unat size))))"

definition pb_dec_string :: "('s, 'h) pb_dec_env \<Rightarrow> ('s, 'h) pb_decoder_t" where
  "pb_dec_string D field dest =
     seq (on_stream pb_decode_varint32) (\<lambda>size.
     let alloc_size = (ucast (size + 1) :: size_t) in
     if alloc_size < ucast size then d_error ''size too large''
     else
       seq (if PB_ATYPE (ftype field) = PB_ATYPE_POINTER
            then seq (query (\<lambda>w. bytes_left (d_in w))) (\<lambda>left.
              if left < unat size then d_error ''end-of-stream''
              else seq (allocate_field D dest alloc_size 1) (\<lambda>_. load64 dest))
            else if alloc_size > ucast (data_size field) then d_error ''string overflow''
            else ret dest) (\<lambda>sdest.
       seq (read_to sdest (unat size)) (\<lambda>status.
       seq (store (sdest + ucast size) [0]) (\<lambda>_. if status then ret () else fail))))"

definition pb_dec_fixed_length_bytes :: "('s, 'h) pb_decoder_t" where
  "pb_dec_fixed_length_bytes field dest =
     seq (on_stream pb_decode_varint32) (\<lambda>size.
     if size > PB_SIZE_MAX then d_error ''bytes overflow''
     else if size = 0 then store dest (replicate (unat (data_size field)) 0)
     else if size \<noteq> data_size field then d_error ''incorrect fixed length bytes size''
     else pb_read_to dest (unat (data_size field)))"

section \<open>Defaults\<close>

text \<open>\<open>iter_from_extension\<close>, given the descriptor at \<open>extension->type->arg\<close>.\<close>

definition ext_field :: "('s, 'h) pb_dec_env \<Rightarrow> addr \<Rightarrow> (pb_field_t, 's, 'h) dact" where
  "ext_field D extension = seq (load64 extension) (\<lambda>type. seq (load64 (type + 16))
     (\<lambda>arg. loadm (\<lambda>_. d_ext_arg D arg)))"

definition iter_from_extension :: "('s, 'h) pb_dec_env \<Rightarrow> addr \<Rightarrow> (pb_field_iter_t, 's, 'h) dact" where
  "iter_from_extension D extension =
     seq (ext_field D extension) (\<lambda>field. seq (load64 (extension + 8)) (\<lambda>dest.
     ret ((snd (pb_field_iter_begin [field] dest))
       \<lparr>pData := (if PB_ATYPE (ftype field) = PB_ATYPE_POINTER then extension + 8 else dest),
        pSize := InMem (extension + 24)\<rparr>)))"

text \<open>Applying a function to every extension of a linked list.\<close>

fun each_extension :: "nat \<Rightarrow> (addr \<Rightarrow> (unit, 's, 'h) dact) \<Rightarrow> addr \<Rightarrow> (unit, 's, 'h) dact" where
  "each_extension 0 f ext = no_fuel"
| "each_extension (Suc k) f ext =
     (if ext = 0 then ret ()
      else seq (f ext) (\<lambda>_. seq (load64 (ext + 16)) (each_extension k f)))"

text \<open>The loop over the fields of a message of the functions that return nothing.\<close>

definition for_fields :: "(pb_field_iter_t \<Rightarrow> (unit, 's, 'h) dact) \<Rightarrow> pb_field_t list \<Rightarrow> addr \<Rightarrow>
    (unit, 's, 'h) dact" where
  "for_fields f fs dest = (case pb_field_iter_begin fs dest of (nonempty, it) \<Rightarrow>
     if \<not> nonempty then ret ()
     else seq (iter_while (\<lambda>it. seq (f it) (\<lambda>_. ret True)) it) (\<lambda>_. ret ()))"

definition submsg_fields :: "('s, 'h) pb_dec_env \<Rightarrow> pb_field_t \<Rightarrow> pb_field_t list option" where
  "submsg_fields D field = (case fptr field of PtrFields t \<Rightarrow> Some (d_tables D t) | _ \<Rightarrow> None)"

fun pb_field_set_to_default :: "nat \<Rightarrow> ('s, 'h) pb_dec_env \<Rightarrow> pb_field_iter_t \<Rightarrow> (unit, 's, 'h) dact" where
  "pb_field_set_to_default 0 D it = no_fuel"
| "pb_field_set_to_default (Suc n) D it =
     (let f = iter_field it; h = PB_HTYPE (ftype f); a = PB_ATYPE (ftype f); l = PB_LTYPE (ftype f) in
      if l = PB_LTYPE_EXTENSION then
        seq (load64 (pData it)) (each_extension n (\<lambda>ext.
          seq (store (ext + 24) [0]) (\<lambda>_.
          seq (iter_from_extension D ext) (pb_field_set_to_default n D))))
      else if a = PB_ATYPE_STATIC then
        seq (if h = PB_HTYPE_OPTIONAL \<and> pSize it \<noteq> InMem (pData it)
             then seq (set_has (pSize it) False) (\<lambda>_. ret True)
             else if h = PB_HTYPE_REPEATED \<or> h = PB_HTYPE_ONEOF
             then seq (set_size (pSize it) 0) (\<lambda>_. ret False)
             else ret True) (\<lambda>init_data.
        if \<not> init_data then ret ()
        else if l = PB_LTYPE_SUBMESSAGE then
          seq (loadm (\<lambda>_. submsg_fields D f)) (\<lambda>fs. for_fields (pb_field_set_to_default n D) fs (pData it))
        else (case fptr f of
            PtrNull \<Rightarrow> store (pData it) (replicate (unat (data_size f)) 0)
          | PtrDefault bs \<Rightarrow> if length bs < unat (data_size f) then undef
                             else store (pData it) (take (unat (data_size f)) bs)
          | PtrFields t \<Rightarrow> undef))
      else if a = PB_ATYPE_POINTER then
        seq (store64 (pData it) 0) (\<lambda>_.
          if h = PB_HTYPE_REPEATED \<or> h = PB_HTYPE_ONEOF then set_size (pSize it) 0 else ret ())
      else ret ())"

definition pb_message_set_to_defaults :: "nat \<Rightarrow> ('s, 'h) pb_dec_env \<Rightarrow> pb_field_t list \<Rightarrow> addr \<Rightarrow>
    (unit, 's, 'h) dact" where
  "pb_message_set_to_defaults n D fs dest = for_fields (pb_field_set_to_default n D) fs dest"

text \<open>The call for a descriptor's \<open>ptr\<close>; a null or foreign pointer is dereferenced.\<close>

definition submsg_set_to_defaults :: "nat \<Rightarrow> ('s, 'h) pb_dec_env \<Rightarrow> pb_field_t \<Rightarrow> addr \<Rightarrow> (unit, 's, 'h) dact" where
  "submsg_set_to_defaults n D field dest =
     seq (loadm (\<lambda>_. submsg_fields D field)) (\<lambda>fs. pb_message_set_to_defaults n D fs dest)"

section \<open>Release\<close>

text \<open>The two loops over the entries of an array.\<close>

fun release_entries :: "(addr \<Rightarrow> (unit, 's, 'h) dact) \<Rightarrow> size_t \<Rightarrow> addr \<Rightarrow> nat \<Rightarrow> (unit, 's, 'h) dact" where
  "release_entries f stride p 0 = ret ()"
| "release_entries f stride p (Suc k) = seq (f p) (\<lambda>_. release_entries f stride (p + stride) k)"

definition free_entry :: "('s, 'h) pb_dec_env \<Rightarrow> addr \<Rightarrow> (unit, 's, 'h) dact" where
  "free_entry D p = seq (load64 p) (\<lambda>q. seq (pb_free D q) (\<lambda>_. store64 p 0))"

fun pb_release_single_field :: "nat \<Rightarrow> ('s, 'h) pb_dec_env \<Rightarrow> pb_field_iter_t \<Rightarrow> (unit, 's, 'h) dact" where
  "pb_release_single_field 0 D it = no_fuel"
| "pb_release_single_field (Suc n) D it =
     (let f = iter_field it; h = PB_HTYPE (ftype f); a = PB_ATYPE (ftype f); l = PB_LTYPE (ftype f) in
      seq (if h = PB_HTYPE_ONEOF then seq (get_size (pSize it)) (\<lambda>which. ret (which = tag f))
           else ret True) (\<lambda>current.
      if \<not> current then ret ()
      else
        seq (if l = PB_LTYPE_EXTENSION then
               seq (load64 (pData it)) (each_extension n (\<lambda>ext.
                 seq (iter_from_extension D ext) (pb_release_single_field n D)))
             else if l = PB_LTYPE_SUBMESSAGE \<and> a \<noteq> PB_ATYPE_CALLBACK then
               seq (if a = PB_ATYPE_POINTER then load64 (pData it) else ret (pData it)) (\<lambda>item.
               seq (if h = PB_HTYPE_REPEATED then
                      seq (if a = PB_ATYPE_STATIC \<and> pSize it = InMem (pData it) then ret (array_size f)
                           else get_size (pSize it)) (\<lambda>count.
                      ret (if a = PB_ATYPE_STATIC \<and> count > array_size f then array_size f else count))
                    else ret 1) (\<lambda>count.
               if item = 0 then ret ()
               else release_entries (\<lambda>p. if p = 0 then ret () else
                   seq (loadm (\<lambda>_. submsg_fields D f)) (\<lambda>fs. for_fields (pb_release_single_field n D) fs p))
                 (ucast (data_size f)) item (unat count)))
             else ret ()) (\<lambda>_.
        if a = PB_ATYPE_POINTER then
          seq (if h = PB_HTYPE_REPEATED \<and> (l = PB_LTYPE_STRING \<or> l = PB_LTYPE_BYTES) then
                 seq (load64 (pData it)) (\<lambda>item. seq (get_size (pSize it)) (\<lambda>count.
                   release_entries (free_entry D) 8 item (unat count)))
               else ret ()) (\<lambda>_.
          seq (if h = PB_HTYPE_REPEATED then set_size (pSize it) 0 else ret ()) (\<lambda>_.
          seq (load64 (pData it)) (\<lambda>p. seq (pb_free D p) (\<lambda>_. store64 (pData it) 0))))
        else ret ())))"

definition pb_release :: "nat \<Rightarrow> ('s, 'h) pb_dec_env \<Rightarrow> pb_field_t list \<Rightarrow> addr \<Rightarrow> (unit, 's, 'h) dact" where
  "pb_release n D fs dest =
     (if dest = 0 then ret () else for_fields (pb_release_single_field n D) fs dest)"

definition iter_find :: "u32 \<Rightarrow> pb_field_iter_t \<Rightarrow> (bool \<times> pb_field_iter_t, 's, 'h) dact" where
  "iter_find t it = (case pb_field_iter_find t it of None \<Rightarrow> no_fuel | Some r \<Rightarrow> ret r)"

definition pb_release_union_field :: "nat \<Rightarrow> ('s, 'h) pb_dec_env \<Rightarrow> pb_field_iter_t \<Rightarrow>
    (pb_field_iter_t, 's, 'h) dact" where
  "pb_release_union_field n D it =
     seq (get_size (pSize it)) (\<lambda>old_tag.
     let new_tag = tag (iter_field it) in
     if old_tag = 0 \<or> old_tag = new_tag then ret it
     else seq (iter_find old_tag it) (\<lambda>(found, it1).
       if \<not> found then d_error ''invalid union tag''
       else seq (pb_release_single_field n D it1) (\<lambda>_.
         seq (iter_find new_tag it1) (\<lambda>(found, it2).
         if \<not> found then d_error ''iterator error''
         else if PB_ATYPE (ftype (iter_field it2)) = PB_ATYPE_POINTER
         then seq (store64 (pData it2) 0) (\<lambda>_. ret it2)
         else ret it2))))"

section \<open>Submessages\<close>

text \<open>\<open>pb_decode\<close>, given \<open>pb_decode_noinit\<close>: on failure the message is released.\<close>

definition or_release :: "('a, 's, 'h) dact \<Rightarrow> (unit, 's, 'h) dact \<Rightarrow> ('a, 's, 'h) dact" where
  "or_release m k = (\<lambda>w. case m w of (Fail, w') \<Rightarrow> seq k (\<lambda>_. fail) w' | r \<Rightarrow> r)"

definition pb_decode_with :: "nat \<Rightarrow> ('s, 'h) pb_dec_env \<Rightarrow> ('s, 'h) pb_decode_t \<Rightarrow> ('s, 'h) pb_decode_t" where
  "pb_decode_with n D noinit fs dest =
     seq (pb_message_set_to_defaults n D fs dest)
       (\<lambda>_. or_release (noinit fs dest) (pb_release n D fs dest))"

text \<open>A call on the substream of a length-delimited field.\<close>

definition in_substream :: "(unit, 's, 'h) dact \<Rightarrow> (unit, 's, 'h) dact" where
  "in_substream m = seq (on_stream pb_make_string_substream) (\<lambda>sub.
     seq (run_sub sub m) (\<lambda>(status, sub').
     seq (on_stream (pb_close_string_substream sub')) (\<lambda>_. of_status status)))"

definition pb_dec_submessage :: "nat \<Rightarrow> ('s, 'h) pb_dec_env \<Rightarrow> ('s, 'h) pb_decode_t \<Rightarrow> ('s, 'h) pb_decoder_t" where
  "pb_dec_submessage n D noinit field dest =
     (case fptr field of
        PtrNull \<Rightarrow> seq (on_stream pb_make_string_substream) (\<lambda>_. d_error ''invalid field descriptor'')
      | PtrDefault _ \<Rightarrow> seq (on_stream pb_make_string_substream) (\<lambda>_. undef)
      | PtrFields t \<Rightarrow> in_substream
          (if PB_HTYPE (ftype field) = PB_HTYPE_REPEATED
           then pb_decode_with n D noinit (d_tables D t) dest
           else noinit (d_tables D t) dest))"

definition PB_DECODERS :: "nat \<Rightarrow> ('s, 'h) pb_dec_env \<Rightarrow> ('s, 'h) pb_decode_t \<Rightarrow> pb_type_t \<Rightarrow>
    ('s, 'h) pb_decoder_t" where
  "PB_DECODERS n D noinit l =
     (if l = PB_LTYPE_BOOL then (\<lambda>field. pb_dec_bool)
      else if l = PB_LTYPE_VARINT then pb_dec_varint
      else if l = PB_LTYPE_UVARINT then pb_dec_uvarint
      else if l = PB_LTYPE_SVARINT then pb_dec_svarint
      else if l = PB_LTYPE_FIXED32 then pb_dec_fixed32
      else if l = PB_LTYPE_FIXED64 then pb_dec_fixed64
      else if l = PB_LTYPE_BYTES then pb_dec_bytes D
      else if l = PB_LTYPE_STRING then pb_dec_string D
      else if l = PB_LTYPE_SUBMESSAGE then pb_dec_submessage n D noinit
      else if l = PB_LTYPE_FIXED_LENGTH_BYTES then pb_dec_fixed_length_bytes
      else (\<lambda>field dest. undef))"

section \<open>Fields of static allocation\<close>

text \<open>\<open>iter->pData + iter->pos->data_size * (*size)\<close>: the product is a 32-bit one.\<close>

definition item_addr :: "addr \<Rightarrow> pb_field_t \<Rightarrow> pb_size_t \<Rightarrow> addr" where
  "item_addr base f i = base + ucast (data_size f * i)"

text \<open>
  The loop over a packed array in a substream; the result is \<open>status\<close>.  It is driven by the bytes
  left in the substream, which every entry decreases.
\<close>

fun packed_static_loop :: "nat \<Rightarrow> (addr \<Rightarrow> (unit, 's, 'h) dact) \<Rightarrow> pb_field_iter_t \<Rightarrow> (unit, 's, 'h) dact" where
  "packed_static_loop 0 func it = no_fuel"
| "packed_static_loop (Suc k) func it =
     seq (query (\<lambda>w. bytes_left (d_in w))) (\<lambda>left.
     if left = 0 then ret ()
     else seq (get_size (pSize it)) (\<lambda>size.
       if size \<ge> array_size (iter_field it) then ret ()
       else seq (func (item_addr (pData it) (iter_field it) size)) (\<lambda>_.
            seq (get_size (pSize it)) (\<lambda>size'.
            seq (set_size (pSize it) (size' + 1)) (\<lambda>_. packed_static_loop k func it)))))"

definition decode_static_field :: "nat \<Rightarrow> ('s, 'h) pb_dec_env \<Rightarrow> ('s, 'h) pb_decode_t \<Rightarrow>
    pb_wire_type_t \<Rightarrow> pb_field_iter_t \<Rightarrow> (unit, 's, 'h) dact" where
  "decode_static_field n D noinit wire_type it =
     (let f = iter_field it; h = PB_HTYPE (ftype f); l = PB_LTYPE (ftype f);
          func = PB_DECODERS n D noinit l f in
      if l > PB_LTYPE_FIXED_LENGTH_BYTES then undef
      else if h = PB_HTYPE_REQUIRED then func (pData it)
      else if h = PB_HTYPE_OPTIONAL then
        seq (if pSize it \<noteq> InMem (pData it) then set_has (pSize it) True else ret ())
          (\<lambda>_. func (pData it))
      else if h = PB_HTYPE_REPEATED then
        (if wire_type = PB_WT_STRING \<and> l \<le> PB_LTYPE_LAST_PACKABLE then
           seq (on_stream pb_make_string_substream) (\<lambda>sub.
           seq (run_sub sub (packed_static_loop (Suc (bytes_left sub)) func it)) (\<lambda>(status, sub').
           if bytes_left sub' \<noteq> 0 then d_error ''array overflow''
           else seq (on_stream (pb_close_string_substream sub')) (\<lambda>_. of_status status)))
         else
           seq (get_size (pSize it)) (\<lambda>size.
           seq (set_size (pSize it) (size + 1)) (\<lambda>_.
           if size \<ge> array_size f then d_error ''array overflow''
           else func (item_addr (pData it) f size))))
      else if h = PB_HTYPE_ONEOF then
        seq (if l = PB_LTYPE_SUBMESSAGE then
               seq (get_size (pSize it)) (\<lambda>which.
               if which \<noteq> tag f then
                 seq (store (pData it) (replicate (unat (data_size f)) 0))
                   (\<lambda>_. submsg_set_to_defaults n D f (pData it))
               else ret ())
             else ret ()) (\<lambda>_.
        seq (set_size (pSize it) (tag f)) (\<lambda>_. func (pData it)))
      else d_error ''invalid field type'')"

section \<open>Fields of pointer allocation\<close>

definition initialize_pointer_field :: "nat \<Rightarrow> ('s, 'h) pb_dec_env \<Rightarrow> addr \<Rightarrow> pb_field_t \<Rightarrow>
    (unit, 's, 'h) dact" where
  "initialize_pointer_field n D item f =
     (let l = PB_LTYPE (ftype f) in
      if l = PB_LTYPE_STRING \<or> l = PB_LTYPE_BYTES then store64 item 0
      else if l = PB_LTYPE_SUBMESSAGE then
        seq (store item (replicate (unat (data_size f)) 0)) (\<lambda>_. submsg_set_to_defaults n D f item)
      else ret ())"

text \<open>
  The loop over a packed array whose storage grows; the state has the substream as its stream.  The
  message \<open>too many array entries\<close> goes to the parent stream, so the result tells it apart.
\<close>

fun packed_pointer_loop :: "nat \<Rightarrow> nat \<Rightarrow> ('s, 'h) pb_dec_env \<Rightarrow> (addr \<Rightarrow> (unit, 's, 'h) dact) \<Rightarrow>
    pb_field_iter_t \<Rightarrow> size_t \<Rightarrow> (bool, 's, 'h) dact" where
  "packed_pointer_loop 0 n D func it allocated_size = no_fuel"
| "packed_pointer_loop (Suc k) n D func it allocated_size =
     (let f = iter_field it in
      seq (query (\<lambda>w. bytes_left (d_in w))) (\<lambda>left.
      if left = 0 then ret True
      else seq (get_size (pSize it)) (\<lambda>size.
        if size = PB_SIZE_MAX then ret False
        else
          seq (if (ucast size + 1 :: size_t) > allocated_size then
                 (if data_size f = 0 then undef
                  else let remain = of_nat (left - 1) div ucast (data_size f) + 1;
                           allocated' = (if remain < ucast PB_SIZE_MAX - allocated_size
                                         then allocated_size + remain else allocated_size + 1)
                       in seq (allocate_field D (pData it) (ucast (data_size f)) allocated')
                            (\<lambda>_. ret allocated'))
               else ret allocated_size) (\<lambda>allocated'.
          seq (load64 (pData it)) (\<lambda>base.
          let item = item_addr base f size in
          seq (initialize_pointer_field n D item f) (\<lambda>_.
          seq (func item) (\<lambda>_.
          seq (get_size (pSize it)) (\<lambda>size'.
          seq (set_size (pSize it) (size' + 1))
            (\<lambda>_. packed_pointer_loop k n D func it allocated')))))))))"

definition decode_pointer_field :: "nat \<Rightarrow> ('s, 'h) pb_dec_env \<Rightarrow> ('s, 'h) pb_decode_t \<Rightarrow>
    pb_wire_type_t \<Rightarrow> pb_field_iter_t \<Rightarrow> (unit, 's, 'h) dact" where
  "decode_pointer_field n D noinit wire_type it =
     (let f = iter_field it; h = PB_HTYPE (ftype f); l = PB_LTYPE (ftype f);
          func = PB_DECODERS n D noinit l f in
      if l > PB_LTYPE_FIXED_LENGTH_BYTES then undef
      else if h = PB_HTYPE_REPEATED then
        (if wire_type = PB_WT_STRING \<and> l \<le> PB_LTYPE_LAST_PACKABLE then
           seq (get_size (pSize it)) (\<lambda>size.
           seq (on_stream pb_make_string_substream) (\<lambda>sub.
           seq (run_sub sub (packed_pointer_loop (Suc (bytes_left sub)) n D func it (ucast size)))
             (\<lambda>(status, sub').
           seq (if status = Some False
                then update (\<lambda>w. w\<lparr>d_in := (d_in w)\<lparr>i_errmsg := Some ''too many array entries''\<rparr>\<rparr>)
                else ret ()) (\<lambda>_.
           seq (on_stream (pb_close_string_substream sub')) (\<lambda>_.
           if status = Some True then ret () else fail)))))
         else
           seq (get_size (pSize it)) (\<lambda>size.
           if size = PB_SIZE_MAX then d_error ''too many array entries''
           else seq (allocate_field D (pData it) (ucast (data_size f)) (ucast (size + 1))) (\<lambda>_.
             seq (load64 (pData it)) (\<lambda>base.
             let item = item_addr base f size in
             seq (set_size (pSize it) (size + 1)) (\<lambda>_.
             seq (initialize_pointer_field n D item f) (\<lambda>_. func item))))))
      else if h = PB_HTYPE_REQUIRED \<or> h = PB_HTYPE_OPTIONAL \<or> h = PB_HTYPE_ONEOF then
        seq (if l = PB_LTYPE_SUBMESSAGE
             then seq (load64 (pData it)) (\<lambda>p.
               if p \<noteq> 0 then pb_release_single_field n D it else ret ())
             else ret ()) (\<lambda>_.
        seq (if h = PB_HTYPE_ONEOF then set_size (pSize it) (tag f) else ret ()) (\<lambda>_.
        if l = PB_LTYPE_STRING \<or> l = PB_LTYPE_BYTES then func (pData it)
        else seq (allocate_field D (pData it) (ucast (data_size f)) 1) (\<lambda>_.
             seq (load64 (pData it)) (\<lambda>item.
             seq (initialize_pointer_field n D item f) (\<lambda>_. func item)))))
      else d_error ''invalid field type'')"

section \<open>Callbacks and extensions\<close>

text \<open>\<open>do { if (!decode(...)) return error; } while (substream.bytes_left)\<close>, on the substream.\<close>

fun callback_loop :: "nat \<Rightarrow> (unit, 's, 'h) dact \<Rightarrow> (unit, 's, 'h) dact" where
  "callback_loop 0 m = no_fuel"
| "callback_loop (Suc k) m = seq m (\<lambda>_. seq (query (\<lambda>w. bytes_left (d_in w)))
     (\<lambda>left. if left = 0 then ret () else callback_loop k m))"

definition decode_callback_field :: "nat \<Rightarrow> ('s, 'h) pb_dec_env \<Rightarrow> pb_wire_type_t \<Rightarrow> pb_field_iter_t \<Rightarrow>
    (unit, 's, 'h) dact" where
  "decode_callback_field n D wire_type it =
     seq (if pData it = 0 then ret 0 else load64 (pData it)) (\<lambda>funcs.
     let call = d_decode D funcs (iter_field it) (pData it + 8) in
     if funcs = 0 then on_stream (pb_skip_field wire_type)
     else if wire_type = PB_WT_STRING then
       seq (on_stream pb_make_string_substream) (\<lambda>sub.
       seq (run_sub sub (callback_loop n call)) (\<lambda>(status, sub').
       if status = None then d_error ''callback failed''
       else on_stream (pb_close_string_substream sub')))
     else
       seq (on_stream (read_raw_value wire_type 10)) (\<lambda>buffer.
       seq (run_sub (pb_istream_from_buffer buffer (length buffer)) call)
         (\<lambda>(status, _). of_status status)))"

text \<open>\<open>decode_field\<close> moves the iterator when it releases a union member, and leaves it there.\<close>

definition decode_field :: "nat \<Rightarrow> ('s, 'h) pb_dec_env \<Rightarrow> ('s, 'h) pb_decode_t \<Rightarrow>
    pb_wire_type_t \<Rightarrow> pb_field_iter_t \<Rightarrow> (pb_field_iter_t, 's, 'h) dact" where
  "decode_field n D noinit wire_type it0 =
     seq (if PB_HTYPE (ftype (iter_field it0)) = PB_HTYPE_ONEOF then pb_release_union_field n D it0
          else ret it0) (\<lambda>it.
     let a = PB_ATYPE (ftype (iter_field it)) in
     seq (if a = PB_ATYPE_STATIC then decode_static_field n D noinit wire_type it
          else if a = PB_ATYPE_POINTER then decode_pointer_field n D noinit wire_type it
          else if a = PB_ATYPE_CALLBACK then decode_callback_field n D wire_type it
          else d_error ''invalid field type'') (\<lambda>_. ret it))"

definition default_extension_decoder :: "nat \<Rightarrow> ('s, 'h) pb_dec_env \<Rightarrow> ('s, 'h) pb_decode_t \<Rightarrow>
    addr \<Rightarrow> u32 \<Rightarrow> pb_wire_type_t \<Rightarrow> (unit, 's, 'h) dact" where
  "default_extension_decoder n D noinit extension t wire_type =
     seq (ext_field D extension) (\<lambda>field.
     if tag field \<noteq> t then ret ()
     else seq (iter_from_extension D extension) (\<lambda>it.
          seq (store (extension + 24) [1]) (\<lambda>_.
          seq (decode_field n D noinit wire_type it) (\<lambda>_. ret ()))))"

fun extension_loop :: "nat \<Rightarrow> nat \<Rightarrow> ('s, 'h) pb_dec_env \<Rightarrow> ('s, 'h) pb_decode_t \<Rightarrow> u32 \<Rightarrow>
    pb_wire_type_t \<Rightarrow> nat \<Rightarrow> addr \<Rightarrow> (unit, 's, 'h) dact" where
  "extension_loop 0 n D noinit t wire_type pos0 ext = no_fuel"
| "extension_loop (Suc k) n D noinit t wire_type pos0 ext =
     seq (query (\<lambda>w. bytes_left (d_in w))) (\<lambda>left.
     if ext = 0 \<or> pos0 \<noteq> left then ret ()
     else seq (load64 ext) (\<lambda>type. seq (load64 type) (\<lambda>decode.
          seq (if decode \<noteq> 0 then d_ext_decode D decode ext t wire_type
               else default_extension_decoder n D noinit ext t wire_type) (\<lambda>_.
          seq (load64 (ext + 16)) (extension_loop k n D noinit t wire_type pos0)))))"

definition decode_extension :: "nat \<Rightarrow> ('s, 'h) pb_dec_env \<Rightarrow> ('s, 'h) pb_decode_t \<Rightarrow> u32 \<Rightarrow>
    pb_wire_type_t \<Rightarrow> pb_field_iter_t \<Rightarrow> (unit, 's, 'h) dact" where
  "decode_extension n D noinit t wire_type it =
     seq (load64 (pData it)) (\<lambda>ext. seq (query (\<lambda>w. bytes_left (d_in w)))
       (\<lambda>pos0. extension_loop n n D noinit t wire_type pos0 ext))"

section \<open>Messages\<close>

definition PB_MAX_REQUIRED_FIELDS :: nat where "PB_MAX_REQUIRED_FIELDS = 64"

text \<open>The local variables of \<open>pb_decode_noinit\<close> that its loop changes (\<open>fixed_count_size\<close> apart).\<close>

record pb_loop =
  fields_seen :: "u32 list"
  extension_range_start :: u32
  l_iter :: pb_field_iter_t
  fixed_count_field :: "nat option"

text \<open>A tag that no field matched: try the extensions, else skip the field.\<close>

definition decode_unknown :: "nat \<Rightarrow> ('s, 'h) pb_dec_env \<Rightarrow> ('s, 'h) pb_decode_t \<Rightarrow> u32 \<Rightarrow>
    pb_wire_type_t \<Rightarrow> pb_loop \<Rightarrow> (pb_loop, 's, 'h) dact" where
  "decode_unknown n D noinit t wire_type L =
     (let skip = (\<lambda>L. seq (on_stream (pb_skip_field wire_type)) (\<lambda>_. ret L)) in
      if t \<ge> extension_range_start L then
        (case find_extension_field (l_iter L) of None \<Rightarrow> no_fuel
         | Some (found, it) \<Rightarrow>
            (let start' = (if found then tag (iter_field it) else - 1);
                 L' = L\<lparr>l_iter := it, extension_range_start := start'\<rparr>
             in if t \<ge> start' then
                  seq (query (\<lambda>w. bytes_left (d_in w))) (\<lambda>pos0.
                  seq (decode_extension n D noinit t wire_type it) (\<lambda>_.
                  seq (query (\<lambda>w. bytes_left (d_in w))) (\<lambda>left.
                  if pos0 \<noteq> left then ret L' else skip L')))
                else skip L'))
      else skip L)"

text \<open>A fixed count array has no counter in the structure; its count is \<open>fixed_count_size\<close>.\<close>

definition track_fixed_count :: "pb_loop \<Rightarrow> (pb_loop, 's, 'h) dact" where
  "track_fixed_count L =
     (let it = l_iter L in
      if PB_HTYPE (ftype (iter_field it)) = PB_HTYPE_REPEATED \<and> pSize it = InMem (pData it) then
        seq (if fixed_count_field L \<noteq> Some (pos it) then
               seq (query d_fixed) (\<lambda>size.
               if (case fixed_count_field L of None \<Rightarrow> False
                   | Some i \<Rightarrow> size \<noteq> array_size (field_at (start it) i))
               then d_error ''wrong size for fixed count field''
               else update (\<lambda>w. w\<lparr>d_fixed := 0\<rparr>))
             else ret ()) (\<lambda>_.
        ret (L\<lparr>fixed_count_field := Some (pos it), l_iter := it\<lparr>pSize := FixedCount\<rparr>\<rparr>))
      else ret L)"

definition mark_required :: "pb_loop \<Rightarrow> pb_loop" where
  "mark_required L =
     (let it = l_iter L; r = required_field_index it in
      if PB_HTYPE (ftype (iter_field it)) = PB_HTYPE_REQUIRED \<and> r < PB_MAX_REQUIRED_FIELDS
      then L\<lparr>fields_seen := (fields_seen L)
              [r div 32 := fields_seen L ! (r div 32) OR push_bit (r mod 32) 1]\<rparr>
      else L)"

fun decode_loop :: "nat \<Rightarrow> nat \<Rightarrow> ('s, 'h) pb_dec_env \<Rightarrow> ('s, 'h) pb_decode_t \<Rightarrow> pb_loop \<Rightarrow>
    (pb_loop, 's, 'h) dact" where
  "decode_loop 0 n D noinit L = no_fuel"
| "decode_loop (Suc k) n D noinit L =
     seq (query (\<lambda>w. bytes_left (d_in w))) (\<lambda>left.
     if left = 0 then ret L
     else seq (on_stream pb_decode_tag) (\<lambda>(r, eof).
       case r of None \<Rightarrow> if eof then ret L else fail
       | Some (wire_type, t) \<Rightarrow>
           seq (iter_find t (l_iter L)) (\<lambda>(found, it).
           let L1 = L\<lparr>l_iter := it\<rparr> in
           if \<not> found
           then seq (decode_unknown n D noinit t wire_type L1) (decode_loop k n D noinit)
           else seq (track_fixed_count L1) (\<lambda>L2.
                let L3 = mark_required L2 in
                seq (decode_field n D noinit wire_type (l_iter L3)) (\<lambda>it'.
                decode_loop k n D noinit (L3\<lparr>l_iter := it'\<rparr>))))))"

text \<open>
  The check of the required fields: seek to the last field, count, and compare the bits.
\<close>

function last_field :: "pb_field_iter_t \<Rightarrow> nat \<times> pb_type_t \<times> pb_field_iter_t" where
  "last_field it =
     (if fst (pb_field_iter_next it) then last_field (snd (pb_field_iter_next it))
      else (required_field_index it, ftype (iter_field it), snd (pb_field_iter_next it)))"
  by pat_completeness auto
termination
  by (relation "measure (\<lambda>it. length (start it) - pos it)") (auto intro: iter_next_measure)

declare last_field.simps [simp del]

definition required_seen :: "pb_loop \<Rightarrow> bool" where
  "required_seen L =
     (case last_field (l_iter L) of (count0, last_type, it) \<Rightarrow>
      let count1 = (if PB_HTYPE last_type = PB_HTYPE_REQUIRED \<and> tag (iter_field it) \<noteq> 0
                    then count0 + 1 else count0);
          count = (if count1 > PB_MAX_REQUIRED_FIELDS then PB_MAX_REQUIRED_FIELDS else count1)
      in (\<forall>i \<in> set [0..<count div 32]. fields_seen L ! i = - 1) \<and>
         (count mod 32 \<noteq> 0 \<longrightarrow>
            fields_seen L ! (count div 32) = drop_bit (32 - count mod 32) (- 1)))"

definition fixed_count_ok :: "pb_loop \<Rightarrow> pb_size_t \<Rightarrow> bool" where
  "fixed_count_ok L sz = (case fixed_count_field L of None \<Rightarrow> True
     | Some i \<Rightarrow> sz = array_size (field_at (start (l_iter L)) i))"

fun pb_decode_noinit :: "nat \<Rightarrow> ('s, 'h) pb_dec_env \<Rightarrow> pb_field_t list \<Rightarrow> addr \<Rightarrow> (unit, 's, 'h) dact" where
  "pb_decode_noinit 0 D fs dest = no_fuel"
| "pb_decode_noinit (Suc n) D fs dest =
     seq (query (\<lambda>w. (d_fixed w, bytes_left (d_in w)))) (\<lambda>(outer, left).
     let leave = (\<lambda>m. seq (update (\<lambda>w. w\<lparr>d_fixed := outer\<rparr>)) (\<lambda>_. m));
         L = \<lparr>fields_seen = [0, 0], extension_range_start = 0,
              l_iter = snd (pb_field_iter_begin fs dest), fixed_count_field = None\<rparr> in
     seq (update (\<lambda>w. w\<lparr>d_fixed := 0\<rparr>)) (\<lambda>_.
     seq (or_release (decode_loop (Suc left) n D (pb_decode_noinit n D) L) (leave (ret ()))) (\<lambda>L'.
     seq (query d_fixed) (\<lambda>size.
       if \<not> fixed_count_ok L' size then leave (d_error ''wrong size for fixed count field'')
       else if \<not> required_seen L' then leave (d_error ''missing required field'')
       else leave (ret ())))))"

definition pb_decode :: "nat \<Rightarrow> ('s, 'h) pb_dec_env \<Rightarrow> pb_field_t list \<Rightarrow> addr \<Rightarrow> (unit, 's, 'h) dact" where
  "pb_decode n D fs dest = pb_decode_with n D (pb_decode_noinit n D) fs dest"

definition pb_decode_delimited_noinit :: "nat \<Rightarrow> ('s, 'h) pb_dec_env \<Rightarrow> pb_field_t list \<Rightarrow> addr \<Rightarrow>
    (unit, 's, 'h) dact" where
  "pb_decode_delimited_noinit n D fs dest = in_substream (pb_decode_noinit n D fs dest)"

definition pb_decode_delimited :: "nat \<Rightarrow> ('s, 'h) pb_dec_env \<Rightarrow> pb_field_t list \<Rightarrow> addr \<Rightarrow>
    (unit, 's, 'h) dact" where
  "pb_decode_delimited n D fs dest = in_substream (pb_decode n D fs dest)"

definition pb_decode_nullterminated :: "nat \<Rightarrow> ('s, 'h) pb_dec_env \<Rightarrow> pb_field_t list \<Rightarrow> addr \<Rightarrow>
    (unit, 's, 'h) dact" where
  "pb_decode_nullterminated n D fs dest = pb_decode n D fs dest"

end
