(* ===== verification/Pb_Safety.thy ===== *)
theory Pb_Safety
  imports Pb_Decode
begin

text \<open>
  Memory safety of the decoder: no call reads behind the input buffer, touches unmapped memory or
  writes outside the destination structure, and every call returns.
\<close>

section \<open>Safe stream calls\<close>

text \<open>
  On a memory-buffer stream with \<open>n\<close> bytes left of at least \<open>n\<close>, a safe call returns true or false
  and leaves the stream some \<open>k \<le> n\<close> bytes further.
\<close>

definition ssafe :: "('a, 's pb_istream_t) act \<Rightarrow> bool" where
  "ssafe m \<longleftrightarrow> (\<forall>buf n e. n \<le> length buf \<longrightarrow>
     (\<exists>r k e'. m (istream_at buf n e) = (r, istream_at (drop k buf) (n - k) e') \<and> k \<le> n \<and>
        r \<noteq> Ub \<and> r \<noteq> NoFuel))"

lemmas ssafeI = ssafe_def [THEN iffD2, rule_format]

lemma ssafeE:
  assumes "ssafe m" "n \<le> length buf"
  obtains r k e' where "m (istream_at buf n e) = (r, istream_at (drop k buf) (n - k) e')" "k \<le> n"
    "r \<noteq> Ub" "r \<noteq> NoFuel"
  using assms unfolding ssafe_def by blast

named_theorems ssafe_intros \<open>calls that are safe on a memory buffer\<close>

lemma ssafe_ret [ssafe_intros]: "ssafe (ret x)"
  by (rule ssafeI) (auto simp: ret_def intro!: exI [of _ "0 :: nat"])

lemma ssafe_fail [ssafe_intros]: "ssafe fail"
  by (rule ssafeI) (auto simp: fail_def intro!: exI [of _ "0 :: nat"])

lemma ssafe_error [ssafe_intros]: "ssafe (i_error msg)"
  by (rule ssafeI) (auto simp: i_error_def intro!: exI [of _ "0 :: nat"])

lemma ssafe_seq [ssafe_intros]:
  assumes "ssafe m" "\<And>x. ssafe (f x)"
  shows "ssafe (seq m f)"
proof (rule ssafeI)
  fix buf :: "byte list" and n and e :: "string option"
  assume n: "n \<le> length buf"
  from assms(1) n obtain r k e' where m: "m (istream_at buf n e) = (r, istream_at (drop k buf) (n - k) e')"
    "k \<le> n" "r \<noteq> Ub" "r \<noteq> NoFuel" by (rule ssafeE)
  show "\<exists>r k e'. seq m f (istream_at buf n e) = (r, istream_at (drop k buf) (n - k) e') \<and> k \<le> n \<and>
      r \<noteq> Ub \<and> r \<noteq> NoFuel"
  proof (cases r)
    case (Ok x)
    have "n - k \<le> length (drop k buf)" using n by simp
    with assms(2) obtain r2 k2 e2 where
      "f x (istream_at (drop k buf) (n - k) e') = (r2, istream_at (drop k2 (drop k buf)) (n - k - k2) e2)"
      "k2 \<le> n - k" "r2 \<noteq> Ub" "r2 \<noteq> NoFuel" by (rule ssafeE)
    then show ?thesis using m Ok
      by (intro exI [of _ r2] exI [of _ "k + k2"] exI [of _ e2]) (simp add: seq_run add.commute)
  next
    case Fail
    then show ?thesis using m by (auto simp: seq_run)
  qed (use m in auto)
qed

lemma ssafe_if [ssafe_intros]: "(b \<Longrightarrow> ssafe m) \<Longrightarrow> (\<not> b \<Longrightarrow> ssafe k) \<Longrightarrow> ssafe (if b then m else k)"
  by simp

lemma pb_readbyte_at:
  "n \<le> length buf \<Longrightarrow> pb_readbyte (istream_at buf n e) =
     (if n = 0 then (Fail, istream_at buf 0 (set_error ''end-of-stream'' e))
      else (Ok (hd buf), istream_at (drop 1 buf) (n - 1) e))"
  by (cases buf) auto

lemma ssafe_readbyte [ssafe_intros]: "ssafe pb_readbyte"
proof (rule ssafeI)
  fix buf :: "byte list" and n and e :: "string option"
  assume n: "n \<le> length buf"
  show "\<exists>r k e'. pb_readbyte (istream_at buf n e :: 'a pb_istream_t) =
      (r, istream_at (drop k buf) (n - k) e') \<and> k \<le> n \<and> r \<noteq> Ub \<and> r \<noteq> NoFuel"
    unfolding pb_readbyte_at [OF n]
    by (cases "n = 0") (auto intro!: exI [of _ "if n = 0 then 0 else 1 :: nat"])
qed

lemma ssafe_read_status [ssafe_intros]: "ssafe (pb_read_status want count)"
proof (rule ssafeI)
  fix buf :: "byte list" and n and e :: "string option"
  assume n: "n \<le> length buf"
  show "\<exists>r k e'. pb_read_status want count (istream_at buf n e :: 'a pb_istream_t) =
      (r, istream_at (drop k buf) (n - k) e') \<and> k \<le> n \<and> r \<noteq> Ub \<and> r \<noteq> NoFuel"
    using n
    by (auto simp: pb_read_status_def pb_read_core_def istream_callback_def buf_read_def
        is_buf_read_def seq_def update_def ret_def
        intro!: exI [of _ "if n < count then 0 else count"])
qed

lemma ssafe_read [ssafe_intros]: "ssafe (pb_read want count)"
  unfolding pb_read_def by (auto intro!: ssafe_intros)

text \<open>Loops that read one byte at a time.\<close>

lemma ssafe_varint32_loop: "ssafe (varint32_loop bitpos result)"
proof (rule ssafeI)
  fix buf :: "byte list" and n and e :: "string option"
  assume "n \<le> length buf"
  then show "\<exists>r k e'. varint32_loop bitpos result (istream_at buf n e :: 'a pb_istream_t) =
      (r, istream_at (drop k buf) (n - k) e') \<and> k \<le> n \<and> r \<noteq> Ub \<and> r \<noteq> NoFuel"
  proof (induction n arbitrary: buf bitpos result)
    case 0
    then show ?case
      by (subst varint32_loop.simps) (auto simp: pb_readbyte_at intro!: exI [of _ "0 :: nat"])
  next
    case (Suc n)
    then obtain b bs where buf: "buf = b # bs" "n \<le> length bs" by (cases buf) auto
    let ?over = "bitpos \<ge> 32 \<and> b AND 0x7F \<noteq> 0 \<and>
             (drop_bit 31 result = 0 \<or> b \<noteq> (if bitpos < 63 then 0xFF else 0x01))"
    show ?case
    proof (cases "\<not> ?over \<and> b AND 0x80 \<noteq> 0")
      case True
      let ?result = "if bitpos \<ge> 32 then result
                     else result OR push_bit (unat bitpos) (ucast (b AND 0x7F))"
      from Suc.IH [OF buf(2), of "bitpos + 7" ?result] obtain r k e' where
        "varint32_loop (bitpos + 7) ?result (istream_at bs n e :: 'a pb_istream_t) =
           (r, istream_at (drop k bs) (n - k) e')" "k \<le> n" "r \<noteq> Ub" "r \<noteq> NoFuel" by blast
      then show ?thesis using True buf
        by (intro exI [of _ r] exI [of _ "Suc k"] exI [of _ e'], subst varint32_loop.simps)
          (simp only: pb_readbyte_step zero_less_Suc prod.case outcome.case if_not_P Let_def,
            simp)
    next
      case False
      then show ?thesis unfolding buf
        by (subst varint32_loop.simps)
          (auto simp: Let_def i_error_def intro!: exI [of _ "1 :: nat"])
    qed
  qed
qed

lemma ssafe_varint_loop: "ssafe (varint_dec_loop bitpos result)"
proof (rule ssafeI)
  fix buf :: "byte list" and n and e :: "string option"
  assume "n \<le> length buf"
  then show "\<exists>r k e'. varint_dec_loop bitpos result (istream_at buf n e :: 'a pb_istream_t) =
      (r, istream_at (drop k buf) (n - k) e') \<and> k \<le> n \<and> r \<noteq> Ub \<and> r \<noteq> NoFuel"
  proof (induction n arbitrary: buf bitpos result)
    case 0
    then show ?case
      by (subst varint_dec_loop.simps)
        (auto simp: pb_readbyte_at i_error_def intro!: exI [of _ "0 :: nat"])
  next
    case (Suc n)
    then obtain b bs where buf: "buf = b # bs" "n \<le> length bs" by (cases buf) auto
    show ?case
    proof (cases "\<not> bitpos \<ge> 64 \<and> b AND 0x80 \<noteq> 0")
      case True
      let ?result = "result OR push_bit (unat bitpos) (ucast (b AND 0x7F))"
      from Suc.IH [OF buf(2), of "bitpos + 7" ?result] obtain r k e' where
        "varint_dec_loop (bitpos + 7) ?result (istream_at bs n e :: 'a pb_istream_t) =
           (r, istream_at (drop k bs) (n - k) e')" "k \<le> n" "r \<noteq> Ub" "r \<noteq> NoFuel" by blast
      then show ?thesis using True buf
        by (intro exI [of _ r] exI [of _ "Suc k"] exI [of _ e'], subst varint_dec_loop.simps)
          (simp only: pb_readbyte_step zero_less_Suc prod.case outcome.case if_not_P Let_def,
            simp)
    next
      case False
      then show ?thesis unfolding buf
        by (subst varint_dec_loop.simps)
          (auto simp: Let_def i_error_def intro!: exI [of _ "if bitpos \<ge> 64 then 0 else 1 :: nat"])
    qed
  qed
qed

lemma ssafe_skip_varint [ssafe_intros]: "ssafe pb_skip_varint"
proof (rule ssafeI)
  fix buf :: "byte list" and n and e :: "string option"
  assume "n \<le> length buf"
  then show "\<exists>r k e'. pb_skip_varint (istream_at buf n e :: 'a pb_istream_t) =
      (r, istream_at (drop k buf) (n - k) e') \<and> k \<le> n \<and> r \<noteq> Ub \<and> r \<noteq> NoFuel"
  proof (induction n arbitrary: buf)
    case 0
    then show ?case
      by (subst pb_skip_varint.simps)
        (auto simp: pb_read_def pb_read_status_def pb_read_core_def seq_def fail_def
          intro!: exI [of _ "0 :: nat"])
  next
    case (Suc n)
    then obtain b bs where buf: "buf = b # bs" "n \<le> length bs" by (cases buf) auto
    have rd: "pb_read True 1 (istream_at (b # bs) (Suc n) e :: 'a pb_istream_t) = (Ok [b], istream_at bs n e)"
      using parsesD [OF pb_read_parses_n [of "[b]" 1 True], of "Suc n" bs e] by simp
    from Suc.IH [OF buf(2)] obtain r k e' where
      "pb_skip_varint (istream_at bs n e :: 'a pb_istream_t) = (r, istream_at (drop k bs) (n - k) e')"
      "k \<le> n" "r \<noteq> Ub" "r \<noteq> NoFuel" by blast
    then show ?case unfolding buf
      by (intro exI [of _ "if b AND 0x80 \<noteq> 0 then r else Ok ()"]
          exI [of _ "if b AND 0x80 \<noteq> 0 then Suc k else 1"]
          exI [of _ "if b AND 0x80 \<noteq> 0 then e' else e"], subst pb_skip_varint.simps)
        (simp add: rd [simplified])
  qed
qed

lemma ssafe_varint32_eof [ssafe_intros]: "ssafe pb_decode_varint32_eof"
proof (rule ssafeI)
  fix buf :: "byte list" and n and e :: "string option"
  assume n: "n \<le> length buf"
  show "\<exists>r k e'. pb_decode_varint32_eof (istream_at buf n e :: 'a pb_istream_t) =
      (r, istream_at (drop k buf) (n - k) e') \<and> k \<le> n \<and> r \<noteq> Ub \<and> r \<noteq> NoFuel"
  proof (cases "n = 0 \<or> hd buf AND 0x80 = 0")
    case True
    then show ?thesis using n
      by (auto simp: pb_decode_varint32_eof_def pb_readbyte_at
          intro!: exI [of _ "if n = 0 then 0 else 1 :: nat"])
  next
    case False
    have "n - 1 \<le> length (drop 1 buf)" using n by simp
    with ssafe_varint32_loop [of 7 "ucast (hd buf AND 0x7F)"] obtain r k e' where
      "varint32_loop 7 (ucast (hd buf AND 0x7F)) (istream_at (drop 1 buf) (n - 1) e :: 'a pb_istream_t) =
         (r, istream_at (drop k (drop 1 buf)) (n - 1 - k) e')" "k \<le> n - 1" "r \<noteq> Ub" "r \<noteq> NoFuel"
      by (rule ssafeE)
    then show ?thesis using n False
      by (cases r) (auto simp: pb_decode_varint32_eof_def pb_readbyte_at
          intro!: exI [of _ "Suc k"])
  qed
qed

lemma ssafe_varint32 [ssafe_intros]: "ssafe pb_decode_varint32"
  unfolding pb_decode_varint32_def by (auto intro!: ssafe_intros split: option.split)

lemma ssafe_varint [ssafe_intros]: "ssafe pb_decode_varint"
  unfolding pb_decode_varint_def by (rule ssafe_varint_loop)

lemma ssafe_svarint [ssafe_intros]: "ssafe pb_decode_svarint"
  unfolding pb_decode_svarint_def by (intro ssafe_intros)

lemma ssafe_fixed [ssafe_intros]: "ssafe pb_decode_fixed32" "ssafe pb_decode_fixed64"
  unfolding pb_decode_fixed32_def pb_decode_fixed64_def by (intro ssafe_intros)+

lemma ssafe_skip_field [ssafe_intros]: "ssafe (pb_skip_field wire_type)"
  unfolding pb_skip_field_def pb_skip_string_def by (intro ssafe_intros)

lemma ssafe_tag [ssafe_intros]: "ssafe pb_decode_tag"
  unfolding pb_decode_tag_def by (auto intro!: ssafe_intros split: option.split)

lemma ssafe_raw_varint_loop: "ssafe (raw_varint_loop space buf)"
  by (induction space arbitrary: buf) (auto intro!: ssafe_intros)

lemma ssafe_raw_value [ssafe_intros]: "ssafe (read_raw_value wire_type max_sz)"
  unfolding read_raw_value_def by (intro ssafe_intros ssafe_raw_varint_loop)

text \<open>A varint or a tag that was read has used up input.\<close>

lemma varint32_eof_progress:
  assumes "pb_decode_varint32_eof (istream_at buf n e) = (Ok (Some v, eof), t)" "n \<le> length buf"
  shows "bytes_left t < n"
proof (cases "n = 0")
  case True
  then show ?thesis using assms
    by (simp add: pb_decode_varint32_eof_def pb_readbyte_at seq_def ret_def)
next
  case False
  have lt: "bytes_left t' \<le> n - 1" if "varint32_loop 7 r (istream_at (drop 1 buf) (n - 1) e) = (q, t')"
    for r q and t' :: "'a pb_istream_t"
  proof -
    have "ssafe (varint32_loop 7 r :: (_, 'a pb_istream_t) act)" by (rule ssafe_varint32_loop)
    moreover have "n - 1 \<le> length (drop 1 buf)" using assms(2) by simp
    ultimately obtain q' k e' where
      "varint32_loop 7 r (istream_at (drop 1 buf) (n - 1) e :: 'a pb_istream_t) =
         (q', istream_at (drop k (drop 1 buf)) (n - 1 - k) e')" by (rule ssafeE)
    then show ?thesis using that by auto
  qed
  show ?thesis using assms False
    by (auto simp: pb_decode_varint32_eof_def pb_readbyte_at seq_def ret_def
        split: if_splits prod.splits outcome.splits option.splits dest!: lt [simplified])
qed

lemma pb_decode_tag_progress:
  assumes "pb_decode_tag (istream_at buf n e) = (Ok (Some (wt, tg), eof), t)" "n \<le> length buf"
  shows "bytes_left t < n" "unat tg < 2 ^ 29"
proof -
  obtain v b where v: "pb_decode_varint32_eof (istream_at buf n e) = (Ok (Some v, b), t)" "tg = drop_bit 3 v"
    using assms(1) by (auto simp: pb_decode_tag_def seq_def ret_def
        split: if_splits prod.splits outcome.splits option.splits)
  then show "bytes_left t < n" using varint32_eof_progress assms(2) by blast
  have "unat v div 2 ^ 3 < 2 ^ 29" using unat_less [of v] by simp
  then show "unat tg < 2 ^ 29" by (simp only: v(2) unat_drop_bit)
qed

section \<open>Safe decoder calls\<close>

text \<open>
  \<open>A\<close> is the set of addresses the call may access.  The state is sound when they are mapped and
  the stream is a memory buffer with at least \<open>bytes_left\<close> bytes; a safe call returns true or false,
  changes memory only inside \<open>A\<close>, maps and unmaps nothing, and keeps the state sound.  The bytes of
  the buffer behind \<open>bytes_left\<close> (the rest of the parent of a substream) stay unread.
\<close>

definition slack :: "'s pb_istream_t \<Rightarrow> nat" where
  "slack s = (case source s of BufSource buf \<Rightarrow> length buf - bytes_left s | _ \<Rightarrow> 0)"

definition sound :: "addr set \<Rightarrow> ('s, 'h) pb_dec \<Rightarrow> bool" where
  "sound A w \<longleftrightarrow> A \<subseteq> dom (d_mem w) \<and>
     (\<exists>buf. source (d_in w) = BufSource buf \<and> bytes_left (d_in w) \<le> length buf)"

definition within :: "addr set \<Rightarrow> ('s, 'h) pb_dec \<Rightarrow> ('s, 'h) pb_dec \<Rightarrow> bool" where
  "within A w w' \<longleftrightarrow> sound A w' \<and> (\<forall>p. p \<notin> A \<longrightarrow> d_mem w' p = d_mem w p) \<and>
     dom (d_mem w') = dom (d_mem w) \<and> bytes_left (d_in w') \<le> bytes_left (d_in w) \<and>
     slack (d_in w) \<le> slack (d_in w')"

definition good :: "addr set \<Rightarrow> ('s, 'h) pb_dec \<Rightarrow> 'a outcome \<times> ('s, 'h) pb_dec \<Rightarrow> bool" where
  "good A w x \<longleftrightarrow> fst x \<noteq> Ub \<and> fst x \<noteq> NoFuel \<and> within A w (snd x)"

definition safe :: "addr set \<Rightarrow> ('a, 's, 'h) dact \<Rightarrow> bool" where
  "safe A m \<longleftrightarrow> (\<forall>w. sound A w \<longrightarrow> good A w (m w))"

lemma safeD: "safe A m \<Longrightarrow> sound A w \<Longrightarrow> good A w (m w)"
  by (simp add: safe_def)

lemma within_refl: "sound A w \<Longrightarrow> within A w w"
  by (simp add: within_def)

lemma within_trans: "within A u v \<Longrightarrow> within A v w \<Longrightarrow> within A u w"
  by (simp add: within_def)

lemma good_trans: "within A u v \<Longrightarrow> good A v x \<Longrightarrow> good A u x"
  by (auto simp: good_def intro: within_trans)

named_theorems safe_intros \<open>calls that stay inside their addresses\<close>

lemma good_seq:
  assumes "good A w (m w)" "\<And>x w'. m w = (Ok x, w') \<Longrightarrow> within A w w' \<Longrightarrow> good A w' (f x w')"
  shows "good A w (seq m f w)"
proof (cases "m w")
  case (Pair r w')
  show ?thesis
  proof (cases r)
    case (Ok x)
    then have "within A w w'" using assms(1) Pair by (simp add: good_def)
    then show ?thesis using assms(2) [of x w'] Pair Ok by (auto simp: seq_run intro: good_trans)
  qed (use assms(1) Pair in \<open>simp_all add: good_def seq_run\<close>)
qed

lemma safe_seq [safe_intros]:
  fixes m :: "('a, 's, 'h) dact" and f :: "'a \<Rightarrow> ('b, 's, 'h) dact"
  assumes "safe A m" "\<And>x. safe A (f x)"
  shows "safe A (seq m f)"
  unfolding safe_def
proof (intro allI impI)
  fix w :: "('s, 'h) pb_dec"
  assume "sound A w"
  then show "good A w (seq m f w)"
    using assms by (intro good_seq) (auto simp: safe_def within_def)
qed

lemma safe_basic [safe_intros]: "safe A (ret x)" "safe A fail" "safe A (query f)"
  by (auto simp: safe_def good_def act_simps intro: within_refl)

lemma safe_if [safe_intros]: "(b \<Longrightarrow> safe A m) \<Longrightarrow> (\<not> b \<Longrightarrow> safe A k) \<Longrightarrow> safe A (if b then m else k)"
  by simp

lemma safe_update [safe_intros]: "safe A (update (\<lambda>w. w\<lparr>d_fixed := f w\<rparr>))"
  by (auto simp: safe_def good_def act_simps within_def sound_def)

lemma on_stream_run:
  assumes "ssafe m" "sound A w"
  obtains r w' where "on_stream m w = (r, w')" "r \<noteq> Ub" "r \<noteq> NoFuel" "within A w w'"
proof -
  from assms(2) obtain buf where buf: "source (d_in w) = BufSource buf" "bytes_left (d_in w) \<le> length buf"
    by (auto simp: sound_def)
  then have s: "d_in w = istream_at buf (bytes_left (d_in w)) (i_errmsg (d_in w))" by simp
  from assms(1) buf(2) obtain r k e' where
    m: "m (istream_at buf (bytes_left (d_in w)) (i_errmsg (d_in w))) =
      (r, istream_at (drop k buf) (bytes_left (d_in w) - k) e')"
    "k \<le> bytes_left (d_in w)" "r \<noteq> Ub" "r \<noteq> NoFuel" by (rule ssafeE)
  show ?thesis
    by (rule that [of r "w\<lparr>d_in := istream_at (drop k buf) (bytes_left (d_in w) - k) e'\<rparr>"])
      (use m s buf assms(2) in \<open>auto simp: on_stream_def within_def sound_def slack_def\<close>)
qed

lemma safe_on_stream [safe_intros]: "ssafe m \<Longrightarrow> safe A (on_stream m)"
  unfolding safe_def by (metis on_stream_run good_def fst_conv snd_conv)

lemma safe_error [safe_intros]: "safe A (d_error msg)"
  unfolding d_error_def by (intro safe_intros ssafe_intros)

lemma safe_loadm:
  assumes f: "\<And>m. A \<subseteq> dom m \<Longrightarrow> f m \<noteq> None"
  shows "safe A (loadm f :: ('a, 's, 'h) dact)"
  unfolding safe_def
proof (intro allI impI)
  fix w :: "('s, 'h) pb_dec"
  assume w: "sound A w"
  then obtain v where "f (d_mem w) = Some v" using f unfolding sound_def by blast
  then show "good A w (loadm f w)" using w by (simp add: good_def loadm_def within_refl)
qed

lemma safe_load: "block a n \<subseteq> A \<Longrightarrow> safe A (loadm (\<lambda>m. map_option g (rd m a n)))"
  by (rule safe_loadm) (use rd_mapped in fastforce)

lemma safe_load32 [safe_intros]: "block a 4 \<subseteq> A \<Longrightarrow> safe A (load32 a)"
  unfolding rdw_def by (rule safe_load)

lemma safe_store [safe_intros]:
  assumes b: "block a (length bs) \<subseteq> A"
  shows "safe A (store a bs :: (unit, 's, 'h) dact)"
  unfolding safe_def
proof (intro allI impI)
  fix w :: "('s, 'h) pb_dec"
  assume w: "sound A w"
  then have "wr (d_mem w) a bs \<noteq> None" using b unfolding wr_mapped by (auto simp: sound_def)
  then obtain m where m: "wr (d_mem w) a bs = Some m" by auto
  have out: "m p = d_mem w p" if "p \<notin> A" for p using wr_outside [OF m] b that by blast
  show "good A w (store a bs w)"
    using w out wr_dom [OF m] m by (auto simp: store_def good_def within_def sound_def)
qed

lemma safe_store32 [safe_intros]: "block a 4 \<subseteq> A \<Longrightarrow> safe A (store32 a v)"
  by (rule safe_store) simp

text \<open>Reading into memory: a buffer stream stores exactly the bytes it was asked for, or none.\<close>

lemma pb_read_status_length:
  assumes "pb_read_status True count (istream_at buf n e) = (Ok (ok, bs), t)" "n \<le> length buf"
  shows "length bs \<le> count"
  using assms
  by (auto simp: pb_read_status_def pb_read_core_def istream_callback_def buf_read_def is_buf_read_def
      seq_def update_def ret_def split: if_splits)

lemma safe_read_to [safe_intros]:
  assumes "block a count \<subseteq> A"
  shows "safe A (read_to a count)"
  unfolding safe_def read_to_def
proof (intro allI impI, rule good_seq)
  fix w :: "('a, 'b) pb_dec"
  assume w: "sound A w"
  show "good A w (on_stream (pb_read_status True count) w)"
    by (rule safeD [OF safe_on_stream [OF ssafe_read_status] w])
next
  fix w :: "('a, 'b) pb_dec" and x w'
  assume w: "sound A w" and run: "on_stream (pb_read_status True count) w = (Ok x, w')"
    and w': "within A w w'"
  obtain ok bs where x: "x = (ok, bs)" by (cases x)
  obtain buf where "source (d_in w) = BufSource buf" "bytes_left (d_in w) \<le> length buf"
    using w by (auto simp: sound_def)
  then have "length bs \<le> count"
    using run pb_read_status_length [of count buf "bytes_left (d_in w)" "i_errmsg (d_in w)" ok bs]
    by (cases "d_in w") (auto simp: on_stream_def x split: prod.splits)
  then have "block a (length bs) \<subseteq> A" using assms block_mono by blast
  moreover have "sound A w'" using w' by (simp add: within_def)
  ultimately show "good A w' ((case x of (ok, bs) \<Rightarrow> seq (store a bs) (\<lambda>_. ret ok)) w')"
    unfolding x prod.case by (intro safeD [of A] safe_intros)
qed

lemma safe_pb_read_to [safe_intros]: "block a count \<subseteq> A \<Longrightarrow> safe A (pb_read_to a count)"
  unfolding pb_read_to_def by (intro safe_intros)

text \<open>Substreams.\<close>

lemma run_sub_good:
  assumes "\<And>u. sound A u \<Longrightarrow> d_in u = sub \<Longrightarrow> good A u (m u)" "sound A w"
    "source sub = BufSource buf" "bytes_left sub \<le> length buf"
  obtains st sub' w' where "run_sub sub m w = (Ok (st, sub'), w')" "within A w w'" "d_in w' = d_in w"
    "slack sub \<le> slack sub'"
    "\<exists>buf'. source sub' = BufSource buf' \<and> bytes_left sub' \<le> length buf'"
proof -
  let ?w = "w\<lparr>d_in := sub\<rparr>"
  obtain r v where m: "m ?w = (r, v)" by (cases "m ?w")
  have "sound A ?w" using assms(2,3,4) by (auto simp: sound_def)
  from assms(1) [OF this] have g: "r \<noteq> Ub" "r \<noteq> NoFuel" "within A ?w v" by (auto simp: good_def m)
  let ?w' = "v\<lparr>d_in := d_in w\<rparr>"
  have wi: "within A w ?w'" using g(3) assms(2) by (auto simp: within_def sound_def)
  have v: "?w'\<lparr>d_in := d_in v\<rparr> = v" by simp
  show ?thesis
    by (cases r) (use that [of "case r of Ok x \<Rightarrow> Some x | _ \<Rightarrow> None" "d_in v" ?w'] m g wi v in
        \<open>auto simp: run_sub_def within_def sound_def\<close>)
qed

lemma make_substream_at:
  assumes "n \<le> length buf"
  obtains (fail) k e' where "pb_make_string_substream (istream_at buf n e :: 's pb_istream_t) =
      (Fail, istream_at (drop k buf) (n - k) e')" "k \<le> n"
  | (ok) k size e' where "pb_make_string_substream (istream_at buf n e :: 's pb_istream_t) =
      (Ok (istream_at (drop k buf) size e'), istream_at (drop k buf) (n - k - size) e')" "k + size \<le> n"
proof -
  from ssafe_varint32 assms obtain r k e' where
    m: "pb_decode_varint32 (istream_at buf n e :: 's pb_istream_t) = (r, istream_at (drop k buf) (n - k) e')"
    "k \<le> n" "r \<noteq> Ub" "r \<noteq> NoFuel" by (rule ssafeE)
  show ?thesis
  proof (cases r)
    case (Ok size)
    show ?thesis
    proof (cases "n - k < unat size")
      case True
      then show ?thesis using m Ok that(1) [of k "set_error ''parent stream too short'' e'"]
        by (simp add: pb_make_string_substream_def seq_def i_error_def)
    next
      case False
      then have "pb_make_string_substream (istream_at buf n e :: 's pb_istream_t) =
        (Ok (istream_at (drop k buf) (unat size) e'), istream_at (drop k buf) (n - k - unat size) e')"
        using m Ok by (simp add: pb_make_string_substream_def seq_def)
      moreover have "k + unat size \<le> n" using False m(2) by simp
      ultimately show ?thesis by (rule that(2))
    qed
  next
    case Fail
    then show ?thesis using m that(1) by (auto simp: pb_make_string_substream_def seq_def)
  qed (use m in auto)
qed

lemma close_substream_at:
  assumes "n \<le> length buf"
  shows "pb_close_string_substream (istream_at buf n e) s =
    (Ok (), s\<lparr>source := BufSource (drop n buf), i_errmsg := e\<rparr>)"
  using assms
  by (auto simp: pb_close_string_substream_def pb_read_def pb_read_status_def pb_read_core_def
      istream_callback_def buf_read_def is_buf_read_def seq_def update_def ret_def Let_def)

text \<open>What a call on a substream and closing it amount to, from the state of the parent.\<close>

lemma safe_substream:
  fixes m :: "('s pb_istream_t \<Rightarrow> ('a, 's, 'h) dact)" and k :: "'a option \<times> 's pb_istream_t \<Rightarrow> (unit, 's, 'h) dact"
  assumes m: "\<And>sub u. sound A u \<Longrightarrow> d_in u = sub \<Longrightarrow> good A u (m sub u)"
    and k: "\<And>st sub. safe A (k (st, sub)) \<or>
      (\<exists>k'. k (st, sub) = seq (on_stream (pb_close_string_substream sub)) k' \<and> (\<forall>x. safe A (k' x)))"
  shows "safe A (seq (on_stream pb_make_string_substream) (\<lambda>sub. seq (run_sub sub (m sub)) k))"
  unfolding safe_def
proof (intro allI impI)
  fix w :: "('s, 'h) pb_dec"
  assume w: "sound A w"
  then obtain buf where buf: "source (d_in w) = BufSource buf" "bytes_left (d_in w) \<le> length buf"
    by (auto simp: sound_def)
  let ?n = "bytes_left (d_in w)" and ?e = "i_errmsg (d_in w)"
  have st: "d_in w = istream_at buf ?n ?e" using buf by simp
  show "good A w (seq (on_stream pb_make_string_substream) (\<lambda>sub. seq (run_sub sub (m sub)) k) w)"
  proof (cases rule: make_substream_at [OF buf(2), where e = ?e and 's = 's])
    case (1 j e')
    then show ?thesis
      using w buf by (simp add: st [symmetric] on_stream_def seq_def good_def within_def sound_def slack_def)
  next
    case ok: (2 j sz e')
    let ?sub = "istream_at (drop j buf) sz e' :: 's pb_istream_t"
    let ?w = "w\<lparr>d_in := istream_at (drop j buf) (?n - j - sz) e'\<rparr>"
    have mk: "on_stream pb_make_string_substream w = (Ok ?sub, ?w)"
      using ok by (simp add: st [symmetric] on_stream_def)
    have snd: "sound A ?w" using w ok(2) buf by (auto simp: sound_def)
    have le: "bytes_left ?sub \<le> length (drop j buf)" using ok(2) buf by simp
    obtain st sub' w' where
      r: "run_sub ?sub (m ?sub) ?w = (Ok (st, sub'), w')" "within A ?w w'" "d_in w' = d_in ?w"
      "slack ?sub \<le> slack sub'"
      "\<exists>b. source sub' = BufSource b \<and> bytes_left sub' \<le> length b"
      by (rule run_sub_good [OF m [where sub = ?sub] snd _ le]) simp_all
    then obtain b where sub': "source sub' = BufSource b" "bytes_left sub' \<le> length b" by blast
    have sl: "length buf - j - sz \<le> length b - bytes_left sub'"
      using r(4) sub' ok(2) buf by (simp add: slack_def)
    have w': "within A w w'"
      using r(2,3) ok(2) buf by (auto simp: within_def slack_def)
    then have snd': "sound A w'" by (simp add: within_def)
    let ?v = "w'\<lparr>d_in := (d_in w')\<lparr>source := BufSource (drop (bytes_left sub') b), i_errmsg := i_errmsg sub'\<rparr>\<rparr>"
    have close: "on_stream (pb_close_string_substream sub') w' = (Ok (), ?v)"
    proof -
      have "istream_at b (bytes_left sub') (i_errmsg sub') = sub'" using sub' by simp
      from close_substream_at [OF sub'(2), of "i_errmsg sub'" "d_in w'", unfolded this]
      show ?thesis by (simp add: on_stream_def)
    qed
    have v: "within A w ?v"
      using w' snd' sl r(3) ok(2) buf by (auto simp: within_def sound_def slack_def)
    have "good A w (k (st, sub') w')"
      using k [of st sub']
    proof (elim disjE exE conjE)
      assume "safe A (k (st, sub'))"
      then show ?thesis using snd' w' by (auto dest: safeD intro: good_trans)
    next
      fix k'
      assume k': "k (st, sub') = seq (on_stream (pb_close_string_substream sub')) k'" "\<forall>x. safe A (k' x)"
      have "sound A ?v" using v by (simp add: within_def)
      then have "good A ?v (k' () ?v)" using k'(2) by (simp add: safeD)
      then show ?thesis using v by (simp add: k'(1) seq_run close good_trans)
    qed
    then show ?thesis by (simp only: seq_def mk r(1) prod.case outcome.case)
  qed
qed

lemma safe_of_status [safe_intros]: "safe A (of_status st)"
  by (auto simp: of_status_def intro: safe_intros split: option.split)

lemma safe_in_substream [safe_intros]: "safe A m \<Longrightarrow> safe A (in_substream m)"
  unfolding in_substream_def
  by (intro safe_substream) (auto intro: safe_intros safeD)

section \<open>Structures of static allocation\<close>

text \<open>
  A message type, given by its declarations, whose members are all stored in the structure, in
  \<open>sz\<close> bytes, nested at most \<open>d\<close> deep.  The arrays of fixed count have at least the four bytes that
  \<open>pb_field_set_to_default\<close> clears, and a message type without fields has at least one byte, as every
  structure of C has (what the decoder does with smaller arrays and with messages without fields is stated
  in the theory \<open>Pb_Faults\<close>).
\<close>

definition value_room :: "pb_type_t \<Rightarrow> nat \<Rightarrow> bool" where
  "value_room l n \<longleftrightarrow> l \<le> PB_LTYPE_FIXED_LENGTH_BYTES \<and> l \<noteq> PB_LTYPE_EXTENSION \<and>
     (l = PB_LTYPE_BOOL \<longrightarrow> 1 \<le> n) \<and> (l = PB_LTYPE_FIXED32 \<longrightarrow> 4 \<le> n) \<and> (l = PB_LTYPE_FIXED64 \<longrightarrow> 8 \<le> n)"

definition elem_size :: "pb_decl \<Rightarrow> nat" where
  "elem_size e = (if is_array (d_rules e) (d_alloc e) then m_elem (d_member e) else m_size (d_member e))"

definition member_ok :: "nat \<Rightarrow> pb_decl \<Rightarrow> bool" where
  "member_ok sz e \<longleftrightarrow> d_alloc e = STATIC \<and> value_room (d_ltype e) (elem_size e) \<and>
     m_offset (d_member e) + m_size (d_member e) \<le> sz \<and>
     (has_companion (d_rules e) (d_alloc e) \<longrightarrow> m_companion (d_member e) \<noteq> m_offset (d_member e) \<and>
        m_companion (d_member e) + (if d_rules e = OPTIONAL then 1 else 4) \<le> sz) \<and>
     (is_array (d_rules e) (d_alloc e) \<longrightarrow>
        0 < m_elem (d_member e) \<and> m_elem (d_member e) \<le> m_size (d_member e)) \<and>
     (d_rules e = REPEATED_FIXED_COUNT \<longrightarrow> 4 \<le> m_size (d_member e)) \<and>
     (case d_ptr e of PtrNull \<Rightarrow> d_ltype e \<noteq> PB_LTYPE_SUBMESSAGE
        | PtrDefault bs \<Rightarrow> d_ltype e \<noteq> PB_LTYPE_SUBMESSAGE \<and> elem_size e \<le> length bs
        | PtrFields t \<Rightarrow> d_ltype e = PB_LTYPE_SUBMESSAGE)"

fun static_ok :: "nat \<Rightarrow> (nat \<Rightarrow> pb_decl list) \<Rightarrow> pb_decl list \<Rightarrow> nat \<Rightarrow> bool" where
  "static_ok 0 Ds ds sz = False"
| "static_ok (Suc d) Ds ds sz \<longleftrightarrow> layout_ok ds \<and> (ds = [] \<longrightarrow> 1 \<le> sz) \<and> (\<forall>e \<in> set ds. member_ok sz e \<and>
     (case d_ptr e of PtrFields t \<Rightarrow> static_ok d Ds (Ds t) (elem_size e) | _ \<Rightarrow> True))"

lemma static_okD:
  assumes "static_ok d Ds ds sz" "i < length ds"
  shows "layout_ok ds" "decl_ok (ds ! i)" "member_ok sz (ds ! i)"
    "d_ptr (ds ! i) = PtrFields t \<Longrightarrow> \<exists>d'. d = Suc d' \<and> static_ok d' Ds (Ds t) (elem_size (ds ! i))"
proof -
  have mem: "ds ! i \<in> set ds" using assms(2) by simp
  obtain d' where d: "d = Suc d'" using assms(1) by (cases d) simp_all
  note ok = assms(1) [unfolded d static_ok.simps]
  show "layout_ok ds" using ok by blast
  then show "decl_ok (ds ! i)" using mem unfolding layout_ok_def by blast
  show "member_ok sz (ds ! i)" using ok mem by blast
  have "case d_ptr (ds ! i) of PtrFields t \<Rightarrow> static_ok d' Ds (Ds t) (elem_size (ds ! i)) | _ \<Rightarrow> True"
    using ok mem by blast
  then show "\<exists>d'. d = Suc d' \<and> static_ok d' Ds (Ds t) (elem_size (ds ! i))"
    if "d_ptr (ds ! i) = PtrFields t" using that d by simp
qed

text \<open>The descriptor of a static member.\<close>

lemma static_descriptor:
  assumes "decl_ok (ds ! i)" "member_ok sz (ds ! i)"
  shows "PB_ATYPE (ftype (pb_descriptor ds i)) = PB_ATYPE_STATIC"
    "PB_HTYPE (ftype (pb_descriptor ds i)) = PB_HTYPE_OF (d_rules (ds ! i))"
    "PB_LTYPE (ftype (pb_descriptor ds i)) = d_ltype (ds ! i)"
    "unat (data_size (pb_descriptor ds i)) = elem_size (ds ! i)"
    "fptr (pb_descriptor ds i) = d_ptr (ds ! i)"
    "tag (pb_descriptor ds i) = d_tag (ds ! i)"
    "is_array (d_rules (ds ! i)) STATIC \<Longrightarrow>
       unat (data_size (pb_descriptor ds i)) * unat (array_size (pb_descriptor ds i)) = m_size (d_member (ds ! i))"
proof -
  let ?e = "ds ! i" and ?f = "pb_descriptor ds i"
  have l: "PB_LTYPE (d_ltype ?e) = d_ltype ?e" and st: "d_alloc ?e = STATIC"
    and sz: "m_size (d_member ?e) < 2 ^ 31"
    and arr: "is_array (d_rules ?e) STATIC \<Longrightarrow> m_elem (d_member ?e) dvd m_size (d_member ?e) \<and>
        0 < m_elem (d_member ?e) \<and> m_elem (d_member ?e) \<le> m_size (d_member ?e)"
    using assms by (auto simp: decl_ok_def member_ok_def)
  have el: "elem_size ?e \<le> m_size (d_member ?e)"
    using arr st by (auto simp: elem_size_def)
  show "PB_ATYPE (ftype ?f) = PB_ATYPE_STATIC" "PB_HTYPE (ftype ?f) = PB_HTYPE_OF (d_rules ?e)"
    "PB_LTYPE (ftype ?f) = d_ltype ?e" "fptr ?f = d_ptr ?e" "tag ?f = d_tag ?e"
    unfolding pb_descriptor_def PB_FIELD_def Let_def pb_field_t.select_convs PB_TYPE_fields [OF l] st
    by simp_all
  have ds: "data_size ?f = of_nat (elem_size ?e)"
    using st by (simp add: pb_descriptor_def PB_FIELD_def Let_def elem_size_def)
  then show 1: "unat (data_size ?f) = elem_size ?e" using el sz by (simp add: unat_of_nat_lt)
  show "unat (data_size ?f) * unat (array_size ?f) = m_size (d_member ?e)"
    if a: "is_array (d_rules ?e) STATIC"
  proof -
    have "array_size ?f = of_nat (m_size (d_member ?e) div m_elem (d_member ?e))"
      using st a by (simp add: pb_descriptor_def PB_FIELD_def Let_def)
    moreover have "m_size (d_member ?e) div m_elem (d_member ?e) < 2 ^ 32"
      using sz by (rule order.strict_trans2 [OF le_less_trans [OF div_le_dividend]]) simp
    ultimately show ?thesis using arr [OF a] a st by (simp add: 1 elem_size_def unat_of_nat_lt)
  qed
qed

lemma block_sub: "k + n \<le> m \<Longrightarrow> block (a + of_nat k) n \<subseteq> block a m"
  using block_add [of a k n] block_mono [of "k + n" m a] by blast

lemma item_block:
  assumes "unat i < unat (array_size f)" "unat (data_size f) * unat (array_size f) \<le> m" "m < 2 ^ 31"
  shows "block (item_addr a f i) (unat (data_size f)) \<subseteq> block a m"
proof -
  have le: "unat (data_size f) * unat i + unat (data_size f) \<le> m"
  proof -
    have "unat (data_size f) * Suc (unat i) \<le> unat (data_size f) * unat (array_size f)"
      using assms(1) by (intro mult_le_mono2) simp
    then show ?thesis using assms(2) by simp
  qed
  then have "unat (data_size f * i) = unat (data_size f) * unat i"
    using assms(3) by (subst unat_mult_lem [THEN iffD1]) simp_all
  then have "(ucast (data_size f * i) :: addr) = of_nat (unat (data_size f) * unat i)"
    using of_nat_unat [of "data_size f * i", where 'a = "64 word"] by metis
  then show ?thesis using block_sub [OF le, of a] by (simp add: item_addr_def)
qed

section \<open>Safety of the decoder\<close>

text \<open>The program's descriptor tables are those of the declarations.\<close>

definition tables_of :: "('s, 'h) pb_dec_env \<Rightarrow> (nat \<Rightarrow> pb_decl list) \<Rightarrow> bool" where
  "tables_of D Ds \<longleftrightarrow> (\<forall>t. d_tables D t = pb_descriptors (Ds t))"

lemma safe_iter_while:
  assumes "tags_ok fs" "i < length fs" "\<And>j. j < length fs \<Longrightarrow> safe A (body (iter_at fs d j))"
  shows "safe A (iter_while body (iter_at fs d i))"
  using assms(2)
proof (induction "length fs - i" arbitrary: i)
  case (Suc k)
  have "safe A (if fst (pb_field_iter_next (iter_at fs d i))
      then iter_while body (snd (pb_field_iter_next (iter_at fs d i))) else ret True)"
    using Suc iter_next_at [OF assms(1) Suc.prems, of d]
    by (auto intro: safe_intros simp del: iter_at.simps)
  then show ?case
    by (subst iter_while.simps, intro safe_seq assms(3) Suc.prems) (auto intro: safe_intros)
qed simp

lemma safe_for_fields:
  assumes "tags_ok fs" "\<And>j. j < length fs \<Longrightarrow> safe A (f (iter_at fs d j))"
  shows "safe A (for_fields f fs d)"
proof (cases "fs = []")
  case True
  then show ?thesis
    by (auto simp: for_fields_def pb_field_iter_begin_def field_at_def PB_LAST_FIELD_def intro: safe_intros)
next
  case False
  then have "safe A (iter_while (\<lambda>it. seq (f it) (\<lambda>_. ret True)) (iter_at fs d 0))"
    by (intro safe_iter_while assms(1) safe_intros assms(2)) auto
  then show ?thesis
    by (auto simp: for_fields_def case_prod_beta intro!: safe_intros)
qed

lemma tables_submsg:
  "tables_of D Ds \<Longrightarrow> submsg_fields D f = (case fptr f of PtrFields t \<Rightarrow> Some (pb_descriptors (Ds t)) | _ \<Rightarrow> None)"
  by (auto simp: submsg_fields_def tables_of_def split: pb_ptr.split)

text \<open>What the iterator shows of member \<open>i\<close> of a static structure at address \<open>a\<close>.\<close>

lemma static_iter:
  assumes "static_ok d Ds ds sz" "i < length ds" "block a sz \<subseteq> A" "sz < 2 ^ 31"
  defines "it \<equiv> iter_at (pb_descriptors ds) a i"
  shows "iter_field it = pb_descriptor ds i"
    "block (pData it) (m_size (d_member (ds ! i))) \<subseteq> A"
    "has_companion (d_rules (ds ! i)) STATIC \<Longrightarrow> \<exists>c. pSize it = InMem c \<and> c \<noteq> pData it \<and>
       block c (if d_rules (ds ! i) = OPTIONAL then 1 else 4) \<subseteq> A"
    "\<not> has_companion (d_rules (ds ! i)) STATIC \<Longrightarrow> pSize it = InMem (pData it)"
proof -
  note ok = static_okD(1-3) [OF assms(1,2)]
  note at = iter_at_layout [OF ok(1) assms(2), of a, folded it_def]
  note st = iter_at_static [OF layout_tags_ok [OF ok(1)], of i a, folded it_def]
  have alloc: "d_alloc (ds ! i) = STATIC" and
    lt: "m_offset (d_member (ds ! i)) < 2 ^ 31" "m_companion (d_member (ds ! i)) < 2 ^ 31"
    and room: "m_offset (d_member (ds ! i)) + m_size (d_member (ds ! i)) \<le> sz"
    using ok by (auto simp: member_ok_def decl_ok_def)
  have data: "pData it = a + of_nat (m_offset (d_member (ds ! i)))" using at by simp
  show "iter_field it = pb_descriptor ds i" using st assms(2) by simp
  show "block (pData it) (m_size (d_member (ds ! i))) \<subseteq> A"
    unfolding data using block_sub [OF room] assms(3) by blast
  show "\<not> has_companion (d_rules (ds ! i)) STATIC \<Longrightarrow> pSize it = InMem (pData it)"
    using at alloc by simp
  assume h: "has_companion (d_rules (ds ! i)) STATIC"
  let ?k = "if d_rules (ds ! i) = OPTIONAL then 1 else 4 :: nat"
  have c: "m_companion (d_member (ds ! i)) \<noteq> m_offset (d_member (ds ! i))"
    "m_companion (d_member (ds ! i)) + ?k \<le> sz" using ok(3) alloc h by (simp_all add: member_ok_def)
  have ps: "pSize it = InMem (a + of_nat (m_companion (d_member (ds ! i))))" using at alloc h by simp
  have "(of_nat (m_companion (d_member (ds ! i))) :: addr) \<noteq> of_nat (m_offset (d_member (ds ! i)))"
    using c(1) lt by (simp add: word_unat_eq_iff unat_of_nat)
  then show "\<exists>c. pSize it = InMem c \<and> c \<noteq> pData it \<and> block c ?k \<subseteq> A"
    using ps data block_sub [OF c(2), of a] assms(3) by auto
qed

lemma elem_le_size: "member_ok sz e \<Longrightarrow> elem_size e \<le> m_size (d_member e)"
  by (auto simp: member_ok_def elem_size_def)

lemma safe_get_size: "p = FixedCount \<or> (\<exists>c. p = InMem c \<and> block c 4 \<subseteq> A) \<Longrightarrow> safe A (get_size p)"
  by (auto simp: get_size_def intro: safe_intros)

lemma safe_set_size: "p = FixedCount \<or> (\<exists>c. p = InMem c \<and> block c 4 \<subseteq> A) \<Longrightarrow> safe A (set_size p v)"
  by (auto simp: set_size_def intro: safe_intros)

lemma safe_set_has: "p = FixedCount \<or> (\<exists>c. p = InMem c \<and> block c 1 \<subseteq> A) \<Longrightarrow> safe A (set_has p v)"
  by (elim disjE exE conjE) (simp_all add: set_has_def safe_update safe_store)

lemma loadm_const: "loadm (\<lambda>_. Some x) = ret x"
  by (rule ext) (simp add: loadm_def ret_def)

lemma safe_set_to_defaults:
  assumes "tables_of D Ds" "static_ok d Ds ds sz" "d \<le> n" "block a sz \<subseteq> A" "sz < 2 ^ 31"
  shows "safe A (pb_message_set_to_defaults n D (pb_descriptors ds) a)"
  using assms(2-)
proof (induction n arbitrary: d ds sz a)
  case 0
  then show ?case by simp
next
  case (Suc n)
  show ?case
    unfolding pb_message_set_to_defaults_def
  proof (intro safe_for_fields)
    show "tags_ok (pb_descriptors ds)"
      using Suc.prems(1) by (cases d) (auto intro: layout_tags_ok)
    fix i
    assume "i < length (pb_descriptors ds)"
    then have i: "i < length ds" by simp
    let ?it = "iter_at (pb_descriptors ds) a i" and ?e = "ds ! i"
    note ok = static_okD [OF Suc.prems(1) i]
    note f = static_descriptor [OF ok(2,3)]
    note it = static_iter [OF Suc.prems(1) i Suc.prems(3,4)]
    have alloc: "d_alloc ?e = STATIC" and lt: "d_ltype ?e \<noteq> PB_LTYPE_EXTENSION" and
      ptr: "case d_ptr ?e of PtrNull \<Rightarrow> d_ltype ?e \<noteq> PB_LTYPE_SUBMESSAGE
        | PtrDefault bs \<Rightarrow> d_ltype ?e \<noteq> PB_LTYPE_SUBMESSAGE \<and> elem_size ?e \<le> length bs
        | PtrFields t \<Rightarrow> d_ltype ?e = PB_LTYPE_SUBMESSAGE"
      and fixed: "d_rules ?e = REPEATED_FIXED_COUNT \<Longrightarrow> 4 \<le> m_size (d_member ?e)"
      and msz: "m_size (d_member ?e) < 2 ^ 31"
      using ok(2,3) by (auto simp: member_ok_def value_room_def decl_ok_def)
    have data: "block (pData ?it) (elem_size ?e) \<subseteq> A"
      using it(2) elem_le_size [OF ok(3)] block_mono by blast
    have sub: "safe A (pb_message_set_to_defaults n D (pb_descriptors (Ds t)) (pData ?it))"
      if "d_ptr ?e = PtrFields t" for t
      using ok(4) [OF that] Suc.prems(2) Suc.IH data elem_le_size [OF ok(3)] msz by auto
    have has: "safe A (set_has (pSize ?it) False :: (unit, 'a, 'b) dact)" if "pSize ?it \<noteq> InMem (pData ?it)"
      "PB_HTYPE_OF (d_rules ?e) = PB_HTYPE_OPTIONAL"
      using it(3,4) that by (cases "d_rules ?e") (auto intro!: safe_set_has)
    have size: "safe A (set_size (pSize ?it) 0 :: (unit, 'a, 'b) dact)"
      if "PB_HTYPE_OF (d_rules ?e) = PB_HTYPE_REPEATED \<or> PB_HTYPE_OF (d_rules ?e) = PB_HTYPE_ONEOF"
    proof (cases "d_rules ?e = REPEATED_FIXED_COUNT")
      case True
      then have "block (pData ?it) 4 \<subseteq> A" using it(2) fixed block_mono by blast
      then show ?thesis using it(4) True by (intro safe_set_size) simp
    next
      case False
      then show ?thesis using it(3) that by (cases "d_rules ?e") (auto intro!: safe_set_size)
    qed
    have init: "safe A ((case d_ptr ?e of PtrNull \<Rightarrow> store (pData ?it) (replicate (elem_size ?e) 0)
          | PtrDefault bs \<Rightarrow> if length bs < elem_size ?e then undef else store (pData ?it) (take (elem_size ?e) bs)
          | PtrFields t \<Rightarrow> undef) :: (unit, 'a, 'b) dact)" if "d_ltype ?e \<noteq> PB_LTYPE_SUBMESSAGE"
      using that ptr data by (auto split: pb_ptr.splits intro!: safe_intros)
    have subm: "safe A (seq (loadm (\<lambda>_. submsg_fields D (pb_descriptor ds i)))
        (\<lambda>fs. for_fields (pb_field_set_to_default n D) fs (pData ?it)))" if l8: "d_ltype ?e = PB_LTYPE_SUBMESSAGE"
    proof -
      obtain t where t: "d_ptr ?e = PtrFields t" using l8 ptr by (auto split: pb_ptr.splits)
      then show ?thesis using sub [OF t]
        by (simp add: tables_submsg [OF assms(1)] f(5) loadm_const seq_basic pb_message_set_to_defaults_def)
    qed
    show "safe A (pb_field_set_to_default (Suc n) D ?it)"
      unfolding pb_field_set_to_default.simps Let_def it(1) f lt
      using lt by (auto intro!: safe_seq safe_if safe_basic has size init subm)
  qed
qed

text \<open>Release: nothing of a static structure is freed, but its counters are read.\<close>

lemma safe_release_entries:
  assumes "\<And>k. k < cnt \<Longrightarrow> safe A (f (p + of_nat k * stride))"
  shows "safe A (release_entries f stride p cnt)"
  using assms
proof (induction cnt arbitrary: p)
  case 0
  show ?case by (simp add: safe_basic)
next
  case (Suc cnt)
  have "safe A (release_entries f stride (p + stride) cnt)"
  proof (rule Suc.IH)
    fix k
    assume "k < cnt"
    then show "safe A (f (p + stride + of_nat k * stride))"
      using Suc.prems [of "Suc k"] by (simp add: algebra_simps)
  qed
  then show ?case using Suc.prems [of 0] by (simp add: safe_seq)
qed

lemma entry_block:
  assumes "k * n + n \<le> m"
  shows "block (p + of_nat k * of_nat n) n \<subseteq> block p m"
  using block_sub [OF assms, of p] by simp

lemma safe_release_field:
  assumes "tables_of D Ds" "static_ok d Ds ds sz" "d \<le> n" "block a sz \<subseteq> A" "sz < 2 ^ 31" "i < length ds"
  shows "safe A (pb_release_single_field n D (iter_at (pb_descriptors ds) a i) :: (unit, 's, 'h) dact)"
  using assms(2-)
proof (induction n arbitrary: d ds sz a i)
  case 0
  then show ?case by simp
next
  case (Suc n)
  note i = Suc.prems(5)
  let ?it = "iter_at (pb_descriptors ds) a i" and ?e = "ds ! i" and ?f = "pb_descriptor ds i"
  note ok = static_okD [OF Suc.prems(1) i]
  note f = static_descriptor [OF ok(2,3)]
  note it = static_iter [OF Suc.prems(1) i Suc.prems(3,4)]
  have alloc: "d_alloc ?e = STATIC" and lt: "d_ltype ?e \<noteq> PB_LTYPE_EXTENSION" and
    ptr: "d_ltype ?e = PB_LTYPE_SUBMESSAGE \<Longrightarrow> \<exists>t. d_ptr ?e = PtrFields t" and msz: "m_size (d_member ?e) < 2 ^ 31"
    using ok(2,3) by (auto simp: member_ok_def value_room_def decl_ok_def split: pb_ptr.splits)
  have which: "safe A (get_size (pSize ?it) :: (_, 's, 'h) dact)" if "PB_HTYPE_OF (d_rules ?e) = PB_HTYPE_ONEOF"
    using it(3) that by (cases "d_rules ?e") (auto intro!: safe_get_size)
  have count: "safe A (get_size (pSize ?it) :: (_, 's, 'h) dact)"
    if "PB_HTYPE_OF (d_rules ?e) = PB_HTYPE_REPEATED" "pSize ?it \<noteq> InMem (pData ?it)"
    using it(3,4) that by (cases "d_rules ?e") (auto intro!: safe_get_size)
  have entries: "safe A (release_entries (\<lambda>p. if p = 0 then ret () else
      seq (loadm (\<lambda>_. submsg_fields D ?f)) (\<lambda>fs. for_fields (pb_release_single_field n D) fs p))
      (ucast (data_size ?f)) (pData ?it) c :: (unit, 's, 'h) dact)"
    if l8: "d_ltype ?e = PB_LTYPE_SUBMESSAGE" and c: "c * elem_size ?e \<le> m_size (d_member ?e)" for c
  proof (rule safe_release_entries)
    fix k
    assume "k < c"
    then have "k * elem_size ?e + elem_size ?e \<le> m_size (d_member ?e)"
      using c mult_le_mono1 [of "Suc k" c "elem_size ?e"] by simp
    from entry_block [OF this] it(2)
    have blk: "block (pData ?it + of_nat k * of_nat (elem_size ?e)) (elem_size ?e) \<subseteq> A" by blast
    have stride: "ucast (data_size ?f) = (of_nat (elem_size ?e) :: addr)"
      using f(4) of_nat_unat [of "data_size ?f", where 'a = "64 word"] by metis
    from l8 ptr obtain t where t: "d_ptr ?e = PtrFields t" by blast
    from ok(4) [OF t] obtain d' where d': "d = Suc d'" "static_ok d' Ds (Ds t) (elem_size ?e)" by blast
    have "safe A (for_fields (pb_release_single_field n D) (pb_descriptors (Ds t))
        (pData ?it + of_nat k * of_nat (elem_size ?e)) :: (unit, 's, 'h) dact)"
    proof (rule safe_for_fields)
      show "tags_ok (pb_descriptors (Ds t))" using d'(2) by (cases d') (auto intro: layout_tags_ok)
      show "safe A (pb_release_single_field n D
          (iter_at (pb_descriptors (Ds t)) (pData ?it + of_nat k * of_nat (elem_size ?e)) j) :: (unit, 's, 'h) dact)"
        if "j < length (pb_descriptors (Ds t))" for j
        using Suc.IH [OF d'(2) _ blk] d'(1) Suc.prems(2) elem_le_size [OF ok(3)] msz that by simp
    qed
    then show "safe A (if pData ?it + of_nat k * ucast (data_size ?f) = 0 then ret () else
      seq (loadm (\<lambda>_. submsg_fields D ?f)) (\<lambda>fs. for_fields (pb_release_single_field n D) fs
        (pData ?it + of_nat k * ucast (data_size ?f))) :: (unit, 's, 'h) dact)"
      unfolding stride by (simp add: tables_submsg [OF assms(1)] f(5) t loadm_const seq_basic safe_basic)
  qed
  have arr: "unat c * elem_size ?e \<le> m_size (d_member ?e)"
    if "c \<le> array_size ?f" "PB_HTYPE_OF (d_rules ?e) = PB_HTYPE_REPEATED" for c
  proof -
    have "is_array (d_rules ?e) STATIC" using that(2) by (cases "d_rules ?e") (simp_all add: is_array_def)
    from f(7) [OF this] f(4) have "elem_size ?e * unat (array_size ?f) = m_size (d_member ?e)" by simp
    moreover have "unat c \<le> unat (array_size ?f)" using that(1) by (simp add: word_le_nat_alt)
    ultimately show ?thesis by (metis mult.commute mult_le_mono1)
  qed
  have one: "elem_size ?e \<le> m_size (d_member ?e)" by (rule elem_le_size [OF ok(3)])
  let ?clip = "\<lambda>c. if c > array_size ?f then array_size ?f else c"
  have rep: "safe A (if pData ?it = 0 then ret () else release_entries (\<lambda>p. if p = 0 then ret () else
      seq (loadm (\<lambda>_. submsg_fields D ?f)) (\<lambda>fs. for_fields (pb_release_single_field n D) fs p))
      (ucast (data_size ?f)) (pData ?it) (unat (?clip c)) :: (unit, 's, 'h) dact)"
    if "d_ltype ?e = PB_LTYPE_SUBMESSAGE" "PB_HTYPE_OF (d_rules ?e) = PB_HTYPE_REPEATED" for c
    using that by (intro safe_if safe_basic entries arr) auto
  have single: "safe A (if pData ?it = 0 then ret () else release_entries (\<lambda>p. if p = 0 then ret () else
      seq (loadm (\<lambda>_. submsg_fields D ?f)) (\<lambda>fs. for_fields (pb_release_single_field n D) fs p))
      (ucast (data_size ?f)) (pData ?it) (unat (1 :: u32)) :: (unit, 's, 'h) dact)"
    if "d_ltype ?e = PB_LTYPE_SUBMESSAGE"
    using that one by (intro safe_if safe_basic entries) auto
  have subm: "safe A (seq (if PB_ATYPE_STATIC = PB_ATYPE_POINTER then load64 (pData ?it) else ret (pData ?it)) (\<lambda>item.
      seq (if PB_HTYPE_OF (d_rules ?e) = PB_HTYPE_REPEATED then
             seq (if PB_ATYPE_STATIC = PB_ATYPE_STATIC \<and> pSize ?it = InMem (pData ?it) then ret (array_size ?f)
                  else get_size (pSize ?it)) (\<lambda>count.
             ret (if PB_ATYPE_STATIC = PB_ATYPE_STATIC \<and> count > array_size ?f then array_size ?f else count))
           else ret 1) (\<lambda>count.
      if item = 0 then ret ()
      else release_entries (\<lambda>p. if p = 0 then ret () else
          seq (loadm (\<lambda>_. submsg_fields D ?f)) (\<lambda>fs. for_fields (pb_release_single_field n D) fs p))
        (ucast (data_size ?f)) item (unat count))) :: (unit, 's, 'h) dact)"
    if "d_ltype ?e = PB_LTYPE_SUBMESSAGE"
  proof (cases "PB_HTYPE_OF (d_rules ?e) = PB_HTYPE_REPEATED")
    case True
    note full = rep [OF that True, of "array_size ?f", unfolded if_cancel]
    show ?thesis
    proof (cases "pSize ?it = InMem (pData ?it)")
      case T: True
      show ?thesis using True T full by (simp add: seq_basic split del: if_split)
    next
      case False
      show ?thesis using True False rep [OF that True] count [OF True False]
        by (simp add: seq_assoc seq_basic safe_seq split del: if_split)
    qed
  next
    case False
    then show ?thesis using single [OF that] by (simp add: seq_basic)
  qed
  have ptr': "(PB_ATYPE_STATIC :: pb_type_t) \<noteq> PB_ATYPE_POINTER" by simp
  show ?case
    unfolding pb_release_single_field.simps Let_def it(1) f if_not_P [OF lt] if_not_P [OF ptr']
  proof (rule safe_seq, goal_cases)
    case 1
    show ?case by (intro safe_seq safe_if safe_basic which)
  next
    case (2 current)
    show ?case
      by (intro safe_if safe_basic, rule safe_seq) (use subm [unfolded if_not_P [OF ptr']] in \<open>auto intro!: safe_basic\<close>)
  qed
qed

text \<open>Decoding one value into its place.\<close>

lemma seq_if: "seq (if c then m else m') k = (if c then seq m k else seq m' k)"
  by simp

lemma seq_error: "seq (d_error msg) k = d_error msg"
  by (rule ext) (simp add: d_error_def on_stream_def i_error_def seq_def)

lemma unat_ucast_up: "unat (ucast (n :: u32) :: u64) = unat n"
  using unat_less [of n] by (simp add: unsigned_ucast_eq unsigned_take_bit_eq take_bit_nat_eq_self)

lemma safe_store_int:
  assumes "block p (unat n) \<subseteq> A"
  shows "safe A (store_int c n p v)"
  unfolding store_int_def using assms by (auto intro!: safe_seq safe_if safe_store safe_error safe_basic)

lemma safe_ints:
  assumes "block p (unat (data_size f)) \<subseteq> A"
  shows "safe A (pb_dec_varint f p)" "safe A (pb_dec_uvarint f p)" "safe A (pb_dec_svarint f p)"
  unfolding pb_dec_varint_def pb_dec_uvarint_def pb_dec_svarint_def Let_def
  by (intro safe_seq safe_on_stream safe_store_int ssafe_varint ssafe_svarint assms)+

lemma safe_small:
  "block p 1 \<subseteq> A \<Longrightarrow> safe A (pb_dec_bool p)"
  "block p 4 \<subseteq> A \<Longrightarrow> safe A (pb_dec_fixed32 f p)"
  "block p 8 \<subseteq> A \<Longrightarrow> safe A (pb_dec_fixed64 f p)"
  unfolding pb_dec_bool_def pb_dec_fixed32_def pb_dec_fixed64_def
  by (intro safe_seq safe_on_stream safe_store ssafe_varint32 ssafe_fixed; simp)+

lemma safe_fixed_length:
  assumes "block p (unat (data_size f)) \<subseteq> A"
  shows "safe A (pb_dec_fixed_length_bytes f p)"
  unfolding pb_dec_fixed_length_bytes_def
  using assms
  by (intro safe_seq safe_on_stream safe_if safe_error safe_pb_read_to safe_store ssafe_varint32) simp_all

lemma not_pointer: "((PB_ATYPE_STATIC :: pb_type_t) = PB_ATYPE_POINTER) = False"
  by simp

lemma safe_bytes:
  assumes "block p (unat (data_size f)) \<subseteq> A" "PB_ATYPE (ftype f) = PB_ATYPE_STATIC"
  shows "safe A (pb_dec_bytes D f p)"
proof -
  have room: "block p 4 \<subseteq> A" "block (p + 4) (unat size) \<subseteq> A"
    if "\<not> (ucast size + 4 :: size_t) > ucast (data_size f)" for size :: u32
  proof -
    have "unat (ucast size + 4 :: size_t) = unat size + 4"
      using unat_less [of size] by (simp add: unat_word_ariths unat_ucast_up)
    then have le: "4 + unat size \<le> unat (data_size f)"
      using that by (simp add: word_less_nat_alt unat_ucast_up)
    then show "block p 4 \<subseteq> A" using assms(1) block_mono [of 4 "unat (data_size f)" p] by auto
    show "block (p + 4) (unat size) \<subseteq> A" using block_sub [OF le, of p] assms(1) by auto
  qed
  show ?thesis
    unfolding pb_dec_bytes_def Let_def assms(2) not_pointer if_False seq_if seq_error seq_basic
    by (intro safe_seq safe_on_stream safe_if safe_error safe_store safe_pb_read_to ssafe_varint32)
      (use room in simp_all)
qed

lemma safe_string:
  assumes "block p (unat (data_size f)) \<subseteq> A" "PB_ATYPE (ftype f) = PB_ATYPE_STATIC"
  shows "safe A (pb_dec_string D f p)"
proof -
  have room: "block p (unat size) \<subseteq> A" "block (p + ucast size) 1 \<subseteq> A"
    if "\<not> (ucast (size + 1) :: size_t) < ucast size" "\<not> (ucast (size + 1) :: size_t) > ucast (data_size f)"
    for size :: u32
  proof -
    have "1 + size \<noteq> 0"
    proof
      assume z: "1 + size = 0"
      then have "size + 1 = 0" by (simp add: add.commute)
      then have "unat size = 0" using that(1) by (simp add: word_less_nat_alt unat_ucast_up)
      then have "size = 0" by (rule unat_eq_zero [THEN iffD1])
      then show False using z by simp
    qed
    then have "unat (size + 1) = unat size + 1" using unatSuc [of size] by (simp add: add.commute)
    then have le: "unat size + 1 \<le> unat (data_size f)"
      using that(2) by (simp add: word_less_nat_alt unat_ucast_up)
    then show "block p (unat size) \<subseteq> A" using assms(1) block_mono [of "unat size" "unat (data_size f)" p] by auto
    have "(ucast size :: addr) = of_nat (unat size)" by simp
    then show "block (p + ucast size) 1 \<subseteq> A" using block_sub [OF le, of p] assms(1) by auto
  qed
  show ?thesis
    unfolding pb_dec_string_def Let_def assms(2) not_pointer if_False seq_if seq_error seq_basic
    by (intro safe_seq safe_on_stream safe_if safe_error safe_store safe_read_to safe_basic ssafe_varint32)
      (use room in simp_all)
qed

end
