(* ===== verification/Pb_Static.thy ===== *)
theory Pb_Static
  imports Pb_Safety
begin

text \<open>
  The decoder on message types of static allocation: the loop over the input, and the theorem that
  decoding any input returns, stays inside the structure and inside the input.
\<close>

section \<open>The value decoders together\<close>

text \<open>What a field's decoder may assume of the recursive call for its submessage.\<close>

definition noinit_ok :: "addr set \<Rightarrow> (nat \<Rightarrow> pb_decl list) \<Rightarrow> nat \<Rightarrow> ('s, 'h) pb_decode_t \<Rightarrow> bool" where
  "noinit_ok A Ds d noinit \<longleftrightarrow> (\<forall>d' ds sz b. d' < d \<longrightarrow> static_ok d' Ds ds sz \<longrightarrow> sz < 2 ^ 31 \<longrightarrow>
     block b sz \<subseteq> A \<longrightarrow> safe A (noinit (pb_descriptors ds) b))"

lemma good_or_release:
  fixes m :: "('a, 's, 'h) dact"
  assumes "good A w (m w)" "safe A k"
  shows "good A w (or_release m k w)"
proof -
  obtain r w' where run: "m w = (r, w')" by (cases "m w")
  have g: "good A w (r, w')" using assms(1) run by simp
  then have w': "within A w w'" "sound A w'" by (simp_all add: good_def within_def)
  have "good A w' (seq k (\<lambda>_. fail) w')"
    using safeD [OF assms(2) w'(2)] by (intro good_seq) (auto simp: good_def act_simps within_def)
  then show ?thesis
    using g run w'(1) by (cases r) (auto simp: or_release_def intro: good_trans)
qed

lemma safe_or_release:
  fixes m :: "('a, 's, 'h) dact"
  shows "safe A m \<Longrightarrow> safe A k \<Longrightarrow> safe A (or_release m k)"
  by (simp add: safe_def good_or_release)

lemma safe_release:
  assumes "tables_of D Ds" "static_ok d Ds ds sz" "d \<le> n" "block a sz \<subseteq> A" "sz < 2 ^ 31"
  shows "safe A (pb_release n D (pb_descriptors ds) a)"
  unfolding pb_release_def
proof (intro safe_if safe_basic safe_for_fields)
  show "tags_ok (pb_descriptors ds)" using assms(2) by (cases d) (auto intro: layout_tags_ok)
qed (use safe_release_field [OF assms] in simp)

lemma safe_decode_with:
  assumes "tables_of D Ds" "static_ok d Ds ds sz" "d \<le> n" "block a sz \<subseteq> A" "sz < 2 ^ 31"
    "safe A (noinit (pb_descriptors ds) a)"
  shows "safe A (pb_decode_with n D noinit (pb_descriptors ds) a)"
  unfolding pb_decode_with_def
  by (intro safe_seq safe_or_release safe_set_to_defaults [OF assms(1-5)] safe_release [OF assms(1-5)] assms(6))

lemma safe_value:
  assumes "tables_of D Ds" "static_ok d Ds ds sz" "d \<le> n" "sz < 2 ^ 31" "i < length ds"
    "block p (elem_size (ds ! i)) \<subseteq> A" "noinit_ok A Ds d noinit"
  shows "safe A (PB_DECODERS n D noinit (d_ltype (ds ! i)) (pb_descriptor ds i) p)"
proof -
  let ?e = "ds ! i" and ?f = "pb_descriptor ds i"
  note ok = static_okD [OF assms(2,5)]
  note f = static_descriptor [OF ok(2,3)]
  have blk: "block p (unat (data_size ?f)) \<subseteq> A" using assms(6) f(4) by simp
  have room: "d_ltype ?e \<le> PB_LTYPE_FIXED_LENGTH_BYTES" "d_ltype ?e \<noteq> PB_LTYPE_EXTENSION"
    "d_ltype ?e = PB_LTYPE_BOOL \<Longrightarrow> 1 \<le> elem_size ?e" "d_ltype ?e = PB_LTYPE_FIXED32 \<Longrightarrow> 4 \<le> elem_size ?e"
    "d_ltype ?e = PB_LTYPE_FIXED64 \<Longrightarrow> 8 \<le> elem_size ?e"
    and ptr: "d_ltype ?e = PB_LTYPE_SUBMESSAGE \<Longrightarrow> \<exists>t. d_ptr ?e = PtrFields t"
    and msz: "m_size (d_member ?e) < 2 ^ 31"
    using ok(2,3) by (auto simp: member_ok_def value_room_def decl_ok_def split: pb_ptr.splits)
  have small: "block p k \<subseteq> A" if "k \<le> elem_size ?e" for k
    using block_mono [OF that] assms(6) by blast
  have sub: "safe A (pb_dec_submessage n D noinit ?f p)" if l8: "d_ltype ?e = PB_LTYPE_SUBMESSAGE"
  proof -
    from ptr [OF l8] obtain t where t: "d_ptr ?e = PtrFields t" by blast
    from ok(4) [OF t] obtain d' where d': "d = Suc d'" "static_ok d' Ds (Ds t) (elem_size ?e)" by blast
    have lt: "elem_size ?e < 2 ^ 31" using elem_le_size [OF ok(3)] msz by simp
    have no: "safe A (noinit (pb_descriptors (Ds t)) p)"
      using assms(6,7) d' lt unfolding noinit_ok_def by blast
    have "safe A (pb_decode_with n D noinit (pb_descriptors (Ds t)) p)"
      using d' assms(3) by (intro safe_decode_with [where noinit = noinit, OF assms(1) d'(2) _ assms(6) lt no]) simp
    then show ?thesis using no assms(1)
      by (simp add: pb_dec_submessage_def f(5) t tables_of_def safe_in_substream)
  qed
  have "d_ltype ?e \<in> {0, 1, 2, 3, 4, 5, 6, 7, 8, 10}"
  proof -
    have "unat (d_ltype ?e) \<le> 10" using room(1) by (simp add: word_le_nat_alt)
    then have "unat (d_ltype ?e) \<in> {0, 1, 2, 3, 4, 5, 6, 7, 8, 9, 10}"
      unfolding insert_iff empty_iff by presburger
    then show ?thesis using room(2) by (auto simp: word_unat_eq_iff)
  qed
  then show ?thesis
    unfolding PB_DECODERS_def
    using safe_ints [OF blk] safe_fixed_length [OF blk] safe_bytes [OF blk f(1)] safe_string [OF blk f(1)] sub
    by (auto intro!: safe_small small room)
qed

text \<open>Entries of packed arrays use up input.\<close>

definition progress :: "addr set \<Rightarrow> ('a, 's, 'h) dact \<Rightarrow> bool" where
  "progress A m \<longleftrightarrow> (\<forall>w x w'. sound A w \<longrightarrow> m w = (Ok x, w') \<longrightarrow> bytes_left (d_in w') < bytes_left (d_in w))"

definition sprogress :: "('a, 's pb_istream_t) act \<Rightarrow> bool" where
  "sprogress m \<longleftrightarrow> (\<forall>buf n e x t. n \<le> length buf \<longrightarrow> m (istream_at buf n e) = (Ok x, t) \<longrightarrow> bytes_left t < n)"

lemma progress_seq:
  assumes "sprogress m" "ssafe m" "\<And>x. safe A (f x)"
  shows "progress A (seq (on_stream m) f)"
  unfolding progress_def
proof (intro allI impI)
  fix w x w'
  assume w: "sound A w" and run: "seq (on_stream m) f w = (Ok x, w')"
  from run obtain y u where y: "on_stream m w = (Ok y, u)" "f y u = (Ok x, w')" by (rule seq_OkE)
  from w obtain buf where buf: "source (d_in w) = BufSource buf" "bytes_left (d_in w) \<le> length buf"
    by (auto simp: sound_def)
  have st: "d_in w = istream_at buf (bytes_left (d_in w)) (i_errmsg (d_in w))" using buf by simp
  have "m (istream_at buf (bytes_left (d_in w)) (i_errmsg (d_in w))) = (Ok y, d_in u)"
    using y(1) by (auto simp: on_stream_def st [symmetric] split: prod.splits)
  then have "bytes_left (d_in u) < bytes_left (d_in w)" using assms(1) buf(2) unfolding sprogress_def by blast
  moreover have "within A w u"
    using safeD [OF safe_on_stream [OF assms(2)] w] y(1) by (simp add: good_def)
  then have "good A u (f y u)" using safeD [OF assms(3)] by (simp add: within_def)
  then have "bytes_left (d_in w') \<le> bytes_left (d_in u)" using y(2) by (simp add: good_def within_def)
  ultimately show "bytes_left (d_in w') < bytes_left (d_in w)" by simp
qed

lemma sprogress_read: "0 < count \<Longrightarrow> sprogress (pb_read True count)"
  unfolding sprogress_def using pb_read_True_left by fastforce

lemma sprogress_seq:
  fixes m :: "('a, 's pb_istream_t) act" and f :: "'a \<Rightarrow> ('b, 's pb_istream_t) act"
  shows "sprogress m \<Longrightarrow> ssafe m \<Longrightarrow> (\<And>x. ssafe (f x)) \<Longrightarrow> sprogress (seq m f)"
  unfolding sprogress_def
proof (intro allI impI)
  fix buf :: "byte list" and n e x and t :: "'s pb_istream_t"
  assume m: "\<forall>buf n e x t. n \<le> length buf \<longrightarrow> m (istream_at buf n e) = (Ok x, t) \<longrightarrow> bytes_left t < n"
    and sm: "ssafe m" and f: "\<And>x. ssafe (f x)" and n: "n \<le> length buf"
    and run: "seq m f (istream_at buf n e) = (Ok x, t)"
  from run obtain y u where y: "m (istream_at buf n e) = (Ok y, u)" "f y u = (Ok x, t)" by (rule seq_OkE)
  from sm n obtain r k e' where "m (istream_at buf n e) = (r, istream_at (drop k buf) (n - k) e')" "k \<le> n"
    by (rule ssafeE)
  then have u: "u = istream_at (drop k buf) (n - k) e'" using y(1) by simp
  have lt: "n - k < n" using m n y(1) u by fastforce
  have "n - k \<le> length (drop k buf)" using n by simp
  with f [of y] obtain r2 k2 e2 where "f y (istream_at (drop k buf) (n - k) e') =
      (r2, istream_at (drop k2 (drop k buf)) (n - k - k2) e2)" by (rule ssafeE)
  then show "bytes_left t < n" using y(2) u lt by auto
qed

lemma sprogress_varint32: "sprogress pb_decode_varint32"
  unfolding sprogress_def
proof (intro allI impI)
  fix buf :: "byte list" and n e x and t :: "'a pb_istream_t"
  assume n: "n \<le> length buf" and run: "pb_decode_varint32 (istream_at buf n e) = (Ok x, t)"
  then obtain b where "pb_decode_varint32_eof (istream_at buf n e) = (Ok (Some x, b), t)"
    by (auto simp: pb_decode_varint32_def seq_def ret_def fail_def
        split: prod.splits outcome.splits option.splits)
  then show "bytes_left t < n" using n by (rule varint32_eof_progress)
qed

lemma sprogress_varint: "sprogress pb_decode_varint"
  unfolding sprogress_def
proof (intro allI impI)
  fix buf :: "byte list" and n e x and t :: "'a pb_istream_t"
  assume n: "n \<le> length buf" and run: "pb_decode_varint (istream_at buf n e) = (Ok x, t)"
  show "bytes_left t < n"
  proof (cases "n = 0")
    case True
    then show ?thesis using run
      by (simp add: pb_decode_varint_def varint_dec_loop.simps [of 0 0] pb_readbyte_at)
  next
    case False
    have lt: "bytes_left t' \<le> n - Suc 0" if "varint_dec_loop 7 r (istream_at (drop (Suc 0) buf) (n - Suc 0) e) = (q, t')"
      for r q and t' :: "'a pb_istream_t"
    proof -
      have "ssafe (varint_dec_loop 7 r :: (_, 'a pb_istream_t) act)" by (rule ssafe_varint_loop)
      moreover have "n - Suc 0 \<le> length (drop (Suc 0) buf)" using n by simp
      ultimately obtain q' k e' where
        "varint_dec_loop 7 r (istream_at (drop (Suc 0) buf) (n - Suc 0) e :: 'a pb_istream_t) =
           (q', istream_at (drop k (drop (Suc 0) buf)) (n - Suc 0 - k) e')" by (rule ssafeE)
      then show ?thesis using that by auto
    qed
    show ?thesis using run False n
      by (auto simp: pb_decode_varint_def varint_dec_loop.simps [of 0 0] pb_readbyte_at Let_def
          split: if_splits dest!: lt)
  qed
qed

lemma sprogress_svarint: "sprogress pb_decode_svarint"
  unfolding pb_decode_svarint_def by (intro sprogress_seq sprogress_varint ssafe_varint ssafe_ret)

lemma sprogress_fixed: "sprogress pb_decode_fixed32" "sprogress pb_decode_fixed64"
  unfolding pb_decode_fixed32_def pb_decode_fixed64_def
  by (intro sprogress_seq sprogress_read ssafe_read ssafe_ret; simp)+

lemma progress_value:
  assumes "l \<le> PB_LTYPE_LAST_PACKABLE" "block p (unat (data_size f)) \<subseteq> A"
    "l = PB_LTYPE_BOOL \<Longrightarrow> 1 \<le> unat (data_size f)" "l = PB_LTYPE_FIXED32 \<Longrightarrow> 4 \<le> unat (data_size f)"
    "l = PB_LTYPE_FIXED64 \<Longrightarrow> 8 \<le> unat (data_size f)"
  shows "progress A (PB_DECODERS n D noinit l f p)"
proof -
  have "unat l \<le> 5" using assms(1) by (simp add: word_le_nat_alt)
  then have "unat l \<in> {0, 1, 2, 3, 4, 5}" unfolding insert_iff empty_iff by presburger
  then have l: "l \<in> {0, 1, 2, 3, 4, 5}" by (auto simp: word_unat_eq_iff)
  have small: "block p k \<subseteq> A" if "k \<le> unat (data_size f)" for k
    using block_mono [OF that] assms(2) by blast
  have bool: "progress A (pb_dec_bool p)" if "l = PB_LTYPE_BOOL"
    unfolding pb_dec_bool_def using small [OF assms(3) [OF that]]
    by (intro progress_seq sprogress_varint32 ssafe_varint32 safe_store) simp
  have fixed: "l = PB_LTYPE_FIXED32 \<Longrightarrow> progress A (pb_dec_fixed32 f p)"
    "l = PB_LTYPE_FIXED64 \<Longrightarrow> progress A (pb_dec_fixed64 f p)"
    unfolding pb_dec_fixed32_def pb_dec_fixed64_def using small assms(4,5)
    by (intro progress_seq sprogress_fixed ssafe_fixed safe_store; simp)+
  have ints: "progress A (pb_dec_varint f p)" "progress A (pb_dec_uvarint f p)" "progress A (pb_dec_svarint f p)"
    unfolding pb_dec_varint_def pb_dec_uvarint_def pb_dec_svarint_def Let_def
    by (intro progress_seq sprogress_varint sprogress_svarint ssafe_varint ssafe_svarint safe_store_int assms(2))+
  show ?thesis using l bool fixed ints unfolding PB_DECODERS_def by auto
qed

lemma good_after:
  assumes "safe A m" "sound A w"
    "\<And>x w'. m w = (Ok x, w') \<Longrightarrow> within A w w' \<Longrightarrow> sound A w' \<Longrightarrow> good A w' (f x w')"
  shows "good A w (seq m f w)"
  using assms by (intro good_seq) (auto simp: within_def dest: safeD)

lemma safe_packed_static_loop:
  assumes "\<And>i. i < array_size (iter_field it) \<Longrightarrow> safe A (func (item_addr (pData it) (iter_field it) i)) \<and>
      progress A (func (item_addr (pData it) (iter_field it) i))"
    and "safe A (get_size (pSize it) :: (_, 's, 'h) dact)" "\<And>v. safe A (set_size (pSize it) v :: (_, 's, 'h) dact)"
    and "sound A w" "bytes_left (d_in w) < k"
  shows "good A w (packed_static_loop k func it (w :: ('s, 'h) pb_dec))"
  using assms(4,5)
proof (induction k arbitrary: w)
  case 0
  then show ?case by simp
next
  case (Suc k)
  have "good A w (seq (get_size (pSize it)) (\<lambda>size.
       if size \<ge> array_size (iter_field it) then ret ()
       else seq (func (item_addr (pData it) (iter_field it) size)) (\<lambda>_.
            seq (get_size (pSize it)) (\<lambda>size'.
            seq (set_size (pSize it) (size' + 1)) (\<lambda>_. packed_static_loop k func it)))) w)"
  proof (rule good_after [OF assms(2) Suc.prems(1)])
    fix sz w1
    assume w1: "within A w w1" "sound A w1"
    show "good A w1 ((if sz \<ge> array_size (iter_field it) then ret ()
       else seq (func (item_addr (pData it) (iter_field it) sz)) (\<lambda>_.
            seq (get_size (pSize it)) (\<lambda>size'.
            seq (set_size (pSize it) (size' + 1)) (\<lambda>_. packed_static_loop k func it)))) w1)"
    proof (cases "sz \<ge> array_size (iter_field it)")
      case True
      then show ?thesis using safeD [OF safe_basic(1) w1(2)] by simp
    next
      case False
      then have item: "safe A (func (item_addr (pData it) (iter_field it) sz))"
        "progress A (func (item_addr (pData it) (iter_field it) sz))" using assms(1) [of sz] by auto
      have "good A w1 (seq (func (item_addr (pData it) (iter_field it) sz)) (\<lambda>_.
            seq (get_size (pSize it)) (\<lambda>size'.
            seq (set_size (pSize it) (size' + 1)) (\<lambda>_. packed_static_loop k func it))) w1)"
      proof (rule good_after [OF item(1) w1(2)])
        fix x w2
        assume run: "func (item_addr (pData it) (iter_field it) sz) w1 = (Ok x, w2)" and s2: "sound A w2"
        have "bytes_left (d_in w2) < bytes_left (d_in w1)"
          using item(2) w1(2) run unfolding progress_def by auto
        then have k: "bytes_left (d_in w2) < k" using Suc.prems(2) w1 by (simp add: within_def)
        show "good A w2 (seq (get_size (pSize it)) (\<lambda>size'.
            seq (set_size (pSize it) (size' + 1)) (\<lambda>_. packed_static_loop k func it)) w2)"
        proof (rule good_after [OF assms(2) s2], rule good_after [OF assms(3)])
          fix c w3 u w4
          assume "within A w2 w3" "sound A w3"
          then show "sound A w3" by simp
          assume "within A w3 w4" "sound A w4" "within A w2 w3"
          then show "good A w4 (packed_static_loop k func it w4)"
            using k by (intro Suc.IH) (auto simp: within_def)
        qed
      qed
      then show ?thesis using False by simp
    qed
  qed
  moreover have "good A w (ret () w)" by (rule safeD [OF safe_basic(1) Suc.prems(1)])
  ultimately show ?case by (simp add: seq_basic act_simps)
qed

section \<open>One field\<close>

text \<open>
  The iterators \<open>pb_decode_noinit\<close> works with: positions of the structure, with \<open>pSize\<close> possibly
  moved to \<open>fixed_count_size\<close> at an array of fixed count.
\<close>

definition iter_ok :: "pb_decl list \<Rightarrow> addr \<Rightarrow> pb_field_iter_t \<Rightarrow> bool" where
  "iter_ok ds a it \<longleftrightarrow> (\<exists>i < length ds. it = iter_at (pb_descriptors ds) a i \<or>
     d_rules (ds ! i) = REPEATED_FIXED_COUNT \<and>
     it = (iter_at (pb_descriptors ds) a i)\<lparr>pSize := FixedCount\<rparr>)"

lemma iter_ok_at: "i < length ds \<Longrightarrow> iter_ok ds a (iter_at (pb_descriptors ds) a i)"
  by (auto simp: iter_ok_def)

lemma static_field_safe:
  fixes D :: "('s, 'h) pb_dec_env"
  assumes "tables_of D Ds" "static_ok d Ds ds sz" "d \<le> n" "block a sz \<subseteq> A" "sz < 2 ^ 31"
    "noinit_ok A Ds d noinit" "iter_ok ds a it"
  shows "safe A (decode_static_field n D noinit wire_type it)"
proof -
  from assms(7) obtain i where i: "i < length ds"
    "it = iter_at (pb_descriptors ds) a i \<or> d_rules (ds ! i) = REPEATED_FIXED_COUNT \<and>
     it = (iter_at (pb_descriptors ds) a i)\<lparr>pSize := FixedCount\<rparr>" by (auto simp: iter_ok_def)
  let ?e = "ds ! i" and ?f = "pb_descriptor ds i"
  note ok = static_okD [OF assms(2) i(1)]
  note f = static_descriptor [OF ok(2,3)]
  note it0 = static_iter [OF assms(2) i(1) assms(4,5)]
  have field: "iter_field it = ?f" using i it0(1) by auto
  have data: "block (pData it) (m_size (d_member ?e)) \<subseteq> A" using i it0(2) by auto
  have msz: "m_size (d_member ?e) < 2 ^ 31" using ok(2) by (simp add: decl_ok_def)
  have room: "d_ltype ?e \<le> PB_LTYPE_FIXED_LENGTH_BYTES" "d_ltype ?e = PB_LTYPE_BOOL \<Longrightarrow> 1 \<le> elem_size ?e"
    "d_ltype ?e = PB_LTYPE_FIXED32 \<Longrightarrow> 4 \<le> elem_size ?e" "d_ltype ?e = PB_LTYPE_FIXED64 \<Longrightarrow> 8 \<le> elem_size ?e"
    and ptr: "d_ltype ?e = PB_LTYPE_SUBMESSAGE \<Longrightarrow> \<exists>t. d_ptr ?e = PtrFields t"
    and fixed: "d_rules ?e = REPEATED_FIXED_COUNT \<Longrightarrow> 4 \<le> m_size (d_member ?e)"
    using ok(3) by (auto simp: member_ok_def value_room_def split: pb_ptr.splits)
  have entry: "safe A (PB_DECODERS n D noinit (d_ltype ?e) ?f p)" if "block p (elem_size ?e) \<subseteq> A" for p
    by (rule safe_value [OF assms(1,2,3,5) i(1) that assms(6)])
  have whole: "block (pData it) (elem_size ?e) \<subseteq> A"
    using data elem_le_size [OF ok(3)] block_mono by blast
  have items: "block (item_addr (pData it) ?f k) (elem_size ?e) \<subseteq> A"
    if "k < array_size ?f" "PB_HTYPE_OF (d_rules ?e) = PB_HTYPE_REPEATED" for k
  proof -
    have "is_array (d_rules ?e) STATIC" using that(2) by (cases "d_rules ?e") (simp_all add: is_array_def)
    from f(7) [OF this] item_block [of k ?f "m_size (d_member ?e)" "pData it"] that(1) msz data show ?thesis
      by (auto simp: word_less_nat_alt f(4))
  qed
  have count: "pSize it = FixedCount \<or> (\<exists>c. pSize it = InMem c \<and> block c 4 \<subseteq> A)"
    if "PB_HTYPE_OF (d_rules ?e) = PB_HTYPE_REPEATED \<or> PB_HTYPE_OF (d_rules ?e) = PB_HTYPE_ONEOF"
  proof (cases "d_rules ?e = REPEATED_FIXED_COUNT")
    case True
    then have "block (pData it) 4 \<subseteq> A" using data fixed block_mono by blast
    then show ?thesis using i it0(4) True by auto
  next
    case False
    then show ?thesis using i it0(3) that by (cases "d_rules ?e") auto
  qed
  have has: "safe A (set_has (pSize it) True :: (unit, 's, 'h) dact)"
    if "pSize it \<noteq> InMem (pData it)" "PB_HTYPE_OF (d_rules ?e) = PB_HTYPE_OPTIONAL"
    using i it0(3,4) that by (cases "d_rules ?e") (auto intro!: safe_set_has)
  have packed: "safe A (seq (on_stream pb_make_string_substream) (\<lambda>sub.
      seq (run_sub sub (packed_static_loop (Suc (bytes_left sub)) (PB_DECODERS n D noinit (d_ltype ?e) ?f) it))
        (\<lambda>(status, sub'). if bytes_left sub' \<noteq> 0 then d_error ''array overflow''
           else seq (on_stream (pb_close_string_substream sub')) (\<lambda>_. of_status status))))"
    if "PB_HTYPE_OF (d_rules ?e) = PB_HTYPE_REPEATED" "d_ltype ?e \<le> PB_LTYPE_LAST_PACKABLE"
  proof (rule safe_substream)
    fix sub and u :: "('s, 'h) pb_dec"
    assume u: "sound A u" "d_in u = sub"
    show "good A u (packed_static_loop (Suc (bytes_left sub)) (PB_DECODERS n D noinit (d_ltype ?e) ?f) it u)"
    proof (rule safe_packed_static_loop [OF _ _ _ u(1)], unfold field, intro conjI)
      fix k
      assume k: "k < array_size ?f"
      then show "safe A (PB_DECODERS n D noinit (d_ltype ?e) ?f (item_addr (pData it) ?f k))"
        using that(1) by (intro entry items)
      show "progress A (PB_DECODERS n D noinit (d_ltype ?e) ?f (item_addr (pData it) ?f k))"
        using items [OF k that(1)] that(2) room(2-4) f(4) by (intro progress_value) auto
    qed (use count that(1) u in \<open>auto intro: safe_get_size safe_set_size\<close>)
  next
    fix st and sub :: "'s pb_istream_t"
    let ?k = "\<lambda>(status, sub'). if bytes_left sub' \<noteq> 0 then d_error ''array overflow''
           else seq (on_stream (pb_close_string_substream sub')) (\<lambda>_. of_status status) :: (unit, 's, 'h) dact"
    show "safe A (?k (st, sub)) \<or> (\<exists>k'. ?k (st, sub) = seq (on_stream (pb_close_string_substream sub)) k' \<and>
        (\<forall>x. safe A (k' x)))"
      by (cases "bytes_left sub = 0") (auto intro: safe_error safe_of_status)
  qed
  have union: "safe A (submsg_set_to_defaults n D ?f (pData it))" if "d_ltype ?e = PB_LTYPE_SUBMESSAGE"
  proof -
    from ptr [OF that] obtain t where t: "d_ptr ?e = PtrFields t" by blast
    from ok(4) [OF t] obtain d' where d': "d = Suc d'" "static_ok d' Ds (Ds t) (elem_size ?e)" by blast
    have lt: "elem_size ?e < 2 ^ 31" using elem_le_size [OF ok(3)] msz by simp
    have "d' \<le> n" using d'(1) assms(3) by simp
    from safe_set_to_defaults [OF assms(1) d'(2) this whole lt] show ?thesis
      by (simp add: submsg_set_to_defaults_def tables_submsg [OF assms(1)] f(5) t loadm_const seq_basic)
  qed
  have lt: "\<not> d_ltype ?e > PB_LTYPE_FIXED_LENGTH_BYTES" using room(1) by simp
  show ?thesis
    unfolding decode_static_field_def Let_def field f if_not_P [OF lt]
    by (intro safe_if safe_seq entry whole items packed safe_error safe_basic safe_get_size safe_set_size
        count has union safe_store) (use count f(4) whole in auto)
qed

section \<open>The iterator of the loop\<close>

lemma iter_next_pSize:
  assumes "PB_HTYPE (ftype (iter_field it)) \<noteq> PB_HTYPE_ONEOF" "tag (iter_field it) \<noteq> 0"
  shows "pb_field_iter_next (it\<lparr>pSize := p\<rparr>) = pb_field_iter_next it"
  using assms by (simp add: pb_field_iter_next_def Let_def)

lemma iter_search_ok:
  assumes "layout_ok ds" "iter_ok ds a it"
  shows "\<exists>found it'. iter_search (Suc (length (start it))) wanted (pos it) it = Some (found, it') \<and>
    iter_ok ds a it' \<and> (found \<longleftrightarrow> (\<exists>f \<in> set (pb_descriptors ds). wanted f))"
proof -
  note tags = layout_tags_ok [OF assms(1)]
  from assms(2) obtain i where i: "i < length ds"
    "it = iter_at (pb_descriptors ds) a i \<or> d_rules (ds ! i) = REPEATED_FIXED_COUNT \<and>
     it = (iter_at (pb_descriptors ds) a i)\<lparr>pSize := FixedCount\<rparr>" by (auto simp: iter_ok_def)
  let ?it = "iter_at (pb_descriptors ds) a i"
  have i': "i < length (pb_descriptors ds)" using i(1) by simp
  note st = iter_at_static [OF tags i', of a]
  from iter_search_total [OF tags i', of wanted a] obtain j where j: "j < length ds"
    "iter_search (Suc (length ds)) wanted i ?it = Some (\<exists>f \<in> set (pb_descriptors ds). wanted f, iter_at (pb_descriptors ds) a j)"
    by auto
  note j_ok = iter_ok_at [OF j(1), of a]
  show ?thesis
  proof (cases "it = ?it")
    case True
    then show ?thesis using j_ok j(2) st by (simp del: iter_search.simps iter_at.simps)
  next
    case False
    then have rc: "d_rules (ds ! i) = REPEATED_FIXED_COUNT" and it: "it = ?it\<lparr>pSize := FixedCount\<rparr>"
      using i(2) by auto
    have field: "iter_field ?it = pb_descriptor ds i" using st i(1) by simp
    have mem: "pb_descriptor ds i \<in> set (pb_descriptors ds)" using i(1) by (simp add: pb_descriptors_def)
    have "decl_ok (ds ! i)" using assms(1) i(1) by (auto simp: layout_ok_def)
    then have "PB_LTYPE (d_ltype (ds ! i)) = d_ltype (ds ! i)" by (simp add: decl_ok_def)
    then have "PB_HTYPE (ftype (pb_descriptor ds i)) = PB_HTYPE_OF (d_rules (ds ! i))"
      by (simp add: pb_descriptor_def PB_FIELD_def Let_def PB_TYPE_fields)
    then have "PB_HTYPE (ftype (iter_field ?it)) \<noteq> PB_HTYPE_ONEOF" "tag (iter_field ?it) \<noteq> 0"
      using tags mem rc unfolding field by (auto simp: tags_ok_def)
    note next_eq = iter_next_pSize [OF this, of FixedCount]
    show ?thesis
    proof (cases "wanted (pb_descriptor ds i)")
      case True
      then have "iter_search (Suc (length ds)) wanted i it = Some (True, it)"
        using field unfolding it iter_search.simps(2) by simp
      moreover have "start it = pb_descriptors ds" "pos it = i" using st it by simp_all
      ultimately show ?thesis using assms(2) mem True
        by (intro exI [of _ True] exI [of _ it]) (auto simp del: iter_search.simps)
    next
      case False
      have same: "iter_field it = iter_field ?it" by (simp add: it)
      have "iter_search (Suc (length ds)) wanted i it = iter_search (Suc (length ds)) wanted i ?it"
        unfolding iter_search.simps(2) same field if_not_P [OF False] unfolding it next_eq ..
      moreover have "start it = pb_descriptors ds" "pos it = i" using st it by simp_all
      ultimately show ?thesis using j_ok j(2) by (simp del: iter_search.simps iter_at.simps)
    qed
  qed
qed

lemma iter_ok_field:
  assumes "static_ok d Ds ds sz" "iter_ok ds a it"
  obtains i where "i < length ds" "start it = pb_descriptors ds" "iter_field it = pb_descriptor ds i"
    "PB_ATYPE (ftype (iter_field it)) = PB_ATYPE_STATIC"
    "PB_HTYPE (ftype (iter_field it)) = PB_HTYPE_ONEOF \<Longrightarrow>
       d_rules (ds ! i) = ONEOF \<and> it = iter_at (pb_descriptors ds) a i"
proof -
  from assms(2) obtain i where i: "i < length ds"
    "it = iter_at (pb_descriptors ds) a i \<or> d_rules (ds ! i) = REPEATED_FIXED_COUNT \<and>
     it = (iter_at (pb_descriptors ds) a i)\<lparr>pSize := FixedCount\<rparr>" by (auto simp: iter_ok_def)
  note ok = static_okD [OF assms(1) i(1)]
  note f = static_descriptor [OF ok(2,3)]
  note st = iter_at_static [OF layout_tags_ok [OF ok(1)], of i a]
  have fld: "start it = pb_descriptors ds" "iter_field it = pb_descriptor ds i" using i st by auto
  show ?thesis
  proof (rule that [OF i(1) fld])
    show "PB_ATYPE (ftype (iter_field it)) = PB_ATYPE_STATIC" unfolding fld(2) f ..
    assume "PB_HTYPE (ftype (iter_field it)) = PB_HTYPE_ONEOF"
    then have "PB_HTYPE_OF (d_rules (ds ! i)) = PB_HTYPE_ONEOF" unfolding fld(2) f .
    then have "d_rules (ds ! i) = ONEOF" by (cases "d_rules (ds ! i)") simp_all
    then show "d_rules (ds ! i) = ONEOF \<and> it = iter_at (pb_descriptors ds) a i" using i(2) by simp
  qed
qed

lemma iter_find_ok:
  assumes "static_ok d Ds ds sz" "iter_ok ds a it"
  obtains found it' where "pb_field_iter_find t it = Some (found, it')" "iter_ok ds a it'"
proof -
  have "ds \<noteq> []" using assms(2) by (auto simp: iter_ok_def)
  then have "0 < length ds" by simp
  note ok = static_okD(1) [OF assms(1) this]
  show ?thesis
    using iter_search_ok [OF ok assms(2), of "\<lambda>f. tag f = t \<and> PB_LTYPE (ftype f) \<noteq> PB_LTYPE_EXTENSION"] that
    unfolding pb_field_iter_find_def by blast
qed

lemma d_error_Ok: "d_error msg w \<noteq> (Ok x, w')"
  by (simp add: d_error_def on_stream_def i_error_def)

text \<open>No member of a static structure is an extension placeholder.\<close>

lemma find_extension_none:
  assumes "static_ok d Ds ds sz" "iter_ok ds a it"
  obtains it' where "find_extension_field it = Some (False, it')" "iter_ok ds a it'"
proof -
  have "ds \<noteq> []" using assms(2) by (auto simp: iter_ok_def)
  then have "0 < length ds" by simp
  note lo = static_okD(1) [OF assms(1) this]
  have "\<not> (\<exists>f \<in> set (pb_descriptors ds). PB_LTYPE (ftype f) = PB_LTYPE_EXTENSION)"
  proof
    assume "\<exists>f \<in> set (pb_descriptors ds). PB_LTYPE (ftype f) = PB_LTYPE_EXTENSION"
    then obtain i where i: "i < length ds" "PB_LTYPE (ftype (pb_descriptor ds i)) = PB_LTYPE_EXTENSION"
      by (auto simp: pb_descriptors_def)
    note ok = static_okD [OF assms(1) i(1)]
    show False using i(2) static_descriptor(3) [OF ok(2,3)] ok(3) by (simp add: member_ok_def value_room_def)
  qed
  then obtain it' where "find_extension_field it = Some (False, it')" "iter_ok ds a it'"
    using iter_search_ok [OF lo assms(2), of "\<lambda>f. PB_LTYPE (ftype f) = PB_LTYPE_EXTENSION"]
    unfolding find_extension_field_def by auto
  then show ?thesis by (rule that)
qed

section \<open>The loop over the input\<close>

lemma union_field_safe:
  fixes D :: "('s, 'h) pb_dec_env"
  assumes "tables_of D Ds" "static_ok d Ds ds sz" "d \<le> n" "block a sz \<subseteq> A" "sz < 2 ^ 31" "iter_ok ds a it"
    "PB_HTYPE (ftype (iter_field it)) = PB_HTYPE_ONEOF"
  shows "safe A (pb_release_union_field n D it)"
    "pb_release_union_field n D it w = (Ok it', w') \<Longrightarrow> iter_ok ds a it'"
proof -
  obtain i where i: "i < length ds" "d_rules (ds ! i) = ONEOF" "it = iter_at (pb_descriptors ds) a i"
    using iter_ok_field [OF assms(2,6)] assms(7) by metis
  note lo = static_okD(1) [OF assms(2) i(1)]
  have size: "safe A (get_size (pSize it) :: (_, 's, 'h) dact)"
    using static_iter(3) [OF assms(2) i(1) assms(4,5)] i(2,3) by (auto intro!: safe_get_size)
  have find: "\<exists>b k. k < length ds \<and> iter_find t (iter_at (pb_descriptors ds) a j) =
      (ret (b, iter_at (pb_descriptors ds) a k) :: (_, 's, 'h) dact)" if "j < length ds" for t j
  proof -
    have j: "j < length (pb_descriptors ds)" using that by simp
    note st = iter_at_static [OF layout_tags_ok [OF lo] j, of a]
    from iter_search_total [OF layout_tags_ok [OF lo] j,
        of "\<lambda>f. tag f = t \<and> PB_LTYPE (ftype f) \<noteq> PB_LTYPE_EXTENSION" a]
    obtain b k where "k < length ds" "pb_field_iter_find t (iter_at (pb_descriptors ds) a j) =
        Some (b, iter_at (pb_descriptors ds) a k)"
      unfolding pb_field_iter_find_def st by (auto simp del: iter_search.simps)
    then show ?thesis unfolding iter_find_def by (intro exI [of _ b] exI [of _ k]) simp
  qed
  have atype: "PB_ATYPE (ftype (iter_field (iter_at (pb_descriptors ds) a k))) \<noteq> PB_ATYPE_POINTER"
    if "k < length ds" for k
    using iter_ok_field [OF assms(2) iter_ok_at [OF that]] by (metis not_pointer)
  let ?after = "\<lambda>it1. seq (pb_release_single_field n D it1) (\<lambda>_.
         seq (iter_find (tag (iter_field it)) it1) (\<lambda>(found, it2).
         if \<not> found then d_error ''iterator error''
         else if PB_ATYPE (ftype (iter_field it2)) = PB_ATYPE_POINTER
         then seq (store64 (pData it2) 0) (\<lambda>_. ret it2)
         else ret it2)) :: (_, 's, 'h) dact"
  have after: "?after (iter_at (pb_descriptors ds) a j) = seq (pb_release_single_field n D (iter_at (pb_descriptors ds) a j))
      (\<lambda>_. if b then ret (iter_at (pb_descriptors ds) a k) else d_error ''iterator error'')"
    if "iter_find (tag (iter_field it)) (iter_at (pb_descriptors ds) a j) = (ret (b, iter_at (pb_descriptors ds) a k) :: (_, 's, 'h) dact)"
      "k < length ds" for j k b
    using atype [OF that(2)] by (simp add: that(1) seq_basic)
  have rest: "\<exists>j k b c. j < length ds \<and> k < length ds \<and>
      (if old = 0 \<or> old = tag (iter_field it) then ret it
       else seq (iter_find old it) (\<lambda>(found, it1).
         if \<not> found then d_error ''invalid union tag'' else ?after it1)) =
      (if old = 0 \<or> old = tag (iter_field it) then ret it
       else if \<not> c then d_error ''invalid union tag''
       else seq (pb_release_single_field n D (iter_at (pb_descriptors ds) a j))
         (\<lambda>_. if b then ret (iter_at (pb_descriptors ds) a k) else d_error ''iterator error''))" for old
  proof -
    from find [OF i(1), of old] obtain c j where j: "j < length ds"
      "iter_find old it = (ret (c, iter_at (pb_descriptors ds) a j) :: (_, 's, 'h) dact)" using i(3) by blast
    from find [OF j(1), of "tag (iter_field it)"] obtain b k where k: "k < length ds"
      "iter_find (tag (iter_field it)) (iter_at (pb_descriptors ds) a j) = (ret (b, iter_at (pb_descriptors ds) a k) :: (_, 's, 'h) dact)"
      by blast
    show ?thesis
      by (intro exI [of _ j] exI [of _ k] exI [of _ b] exI [of _ c] conjI j(1) k(1))
        (simp only: j(2) seq_basic prod.case after [OF k(2,1)])
  qed
  show "safe A (pb_release_union_field n D it)"
    unfolding pb_release_union_field_def Let_def
  proof (rule safe_seq [OF size])
    fix old
    from rest [of old] obtain j k b c where j: "j < length ds"
      and eq: "(if old = 0 \<or> old = tag (iter_field it) then ret it
       else seq (iter_find old it) (\<lambda>(found, it1).
         if \<not> found then d_error ''invalid union tag'' else ?after it1)) =
      (if old = 0 \<or> old = tag (iter_field it) then ret it
       else if \<not> c then d_error ''invalid union tag''
       else seq (pb_release_single_field n D (iter_at (pb_descriptors ds) a j))
         (\<lambda>_. if b then ret (iter_at (pb_descriptors ds) a k) else d_error ''iterator error''))" by blast
    show "safe A (if old = 0 \<or> old = tag (iter_field it) then ret it
       else seq (iter_find old it) (\<lambda>(found, it1).
         if \<not> found then d_error ''invalid union tag'' else ?after it1))"
      unfolding eq by (intro safe_if safe_seq safe_basic safe_error safe_release_field [OF assms(1-5) j])
  qed
  show "iter_ok ds a it'" if run: "pb_release_union_field n D it w = (Ok it', w')"
  proof -
    from run obtain old u where u: "(if old = 0 \<or> old = tag (iter_field it) then ret it
       else seq (iter_find old it) (\<lambda>(found, it1).
         if \<not> found then d_error ''invalid union tag'' else ?after it1)) u = (Ok it', w')"
      unfolding pb_release_union_field_def Let_def by (rule seq_OkE) blast
    from rest [of old] obtain j k b c where k: "k < length ds"
      and eq: "(if old = 0 \<or> old = tag (iter_field it) then ret it
       else seq (iter_find old it) (\<lambda>(found, it1).
         if \<not> found then d_error ''invalid union tag'' else ?after it1)) =
      (if old = 0 \<or> old = tag (iter_field it) then ret it
       else if \<not> c then d_error ''invalid union tag''
       else seq (pb_release_single_field n D (iter_at (pb_descriptors ds) a j))
         (\<lambda>_. if b then ret (iter_at (pb_descriptors ds) a k) else d_error ''iterator error''))" by blast
    have "it' = it \<or> it' = iter_at (pb_descriptors ds) a k"
      using u unfolding eq by (auto simp: ret_def d_error_Ok split: if_splits elim!: seq_OkE)
    then show ?thesis using assms(6) iter_ok_at [OF k] by auto
  qed
qed

lemma decode_field_safe:
  fixes D :: "('s, 'h) pb_dec_env"
  assumes "tables_of D Ds" "static_ok d Ds ds sz" "d \<le> n" "block a sz \<subseteq> A" "sz < 2 ^ 31"
    "noinit_ok A Ds d noinit" "iter_ok ds a it" "sound A w"
  shows "good A w (decode_field n D noinit wire_type it w)"
    "decode_field n D noinit wire_type it w = (Ok it', w') \<Longrightarrow> iter_ok ds a it'"
proof -
  let ?union = "if PB_HTYPE (ftype (iter_field it)) = PB_HTYPE_ONEOF then pb_release_union_field n D it
          else ret it"
  note union = union_field_safe [OF assms(1-5,7)]
  have safe_union: "safe A ?union" by (intro safe_if safe_basic union(1))
  have ok_union: "iter_ok ds a u" if "?union w = (Ok u, w1)" for u w1
    using that union(2) assms(7) by (auto simp: ret_def split: if_splits)
  show "good A w (decode_field n D noinit wire_type it w)"
    unfolding decode_field_def Let_def
  proof (rule good_after [OF safe_union assms(8)])
    fix u w1
    assume run: "?union w = (Ok u, w1)" and w1: "sound A w1"
    note u = ok_union [OF run]
    have st: "PB_ATYPE (ftype (iter_field u)) = PB_ATYPE_STATIC" using iter_ok_field [OF assms(2) u] by metis
    have "safe A (seq (decode_static_field n D noinit wire_type u) (\<lambda>_. ret u))"
      by (intro safe_seq static_field_safe [OF assms(1-6) u] safe_basic)
    then show "good A w1 (seq (if PB_ATYPE (ftype (iter_field u)) = PB_ATYPE_STATIC then decode_static_field n D noinit wire_type u
          else if PB_ATYPE (ftype (iter_field u)) = PB_ATYPE_POINTER then decode_pointer_field n D noinit wire_type u
          else if PB_ATYPE (ftype (iter_field u)) = PB_ATYPE_CALLBACK then decode_callback_field n D wire_type u
          else d_error ''invalid field type'') (\<lambda>_. ret u) w1)"
      using safeD w1 by (simp only: st simp_thms if_True)
  qed
  show "iter_ok ds a it'" if run: "decode_field n D noinit wire_type it w = (Ok it', w')"
    using run unfolding decode_field_def Let_def
    by (elim seq_OkE) (auto simp: ret_def intro: ok_union)
qed

lemma track_fixed_count_ok:
  assumes "static_ok d Ds ds sz" "sz < 2 ^ 31" "iter_ok ds a (l_iter L)"
  shows "safe A (track_fixed_count L)"
    "track_fixed_count L w = (Ok L', w') \<Longrightarrow> iter_ok ds a (l_iter L')"
proof -
  show "safe A (track_fixed_count L)"
    unfolding track_fixed_count_def Let_def
    by (auto intro!: safe_if safe_seq safe_basic safe_error safe_update split: option.split)
  from assms(3) obtain i where i: "i < length ds"
    "l_iter L = iter_at (pb_descriptors ds) a i \<or> d_rules (ds ! i) = REPEATED_FIXED_COUNT \<and>
     l_iter L = (iter_at (pb_descriptors ds) a i)\<lparr>pSize := FixedCount\<rparr>" by (auto simp: iter_ok_def)
  note ok = static_okD [OF assms(1) i(1)]
  have "iter_ok ds a ((l_iter L)\<lparr>pSize := FixedCount\<rparr>)"
    if "PB_HTYPE (ftype (iter_field (l_iter L))) = PB_HTYPE_REPEATED" "pSize (l_iter L) = InMem (pData (l_iter L))"
  proof -
    have "l_iter L = iter_at (pb_descriptors ds) a i" using i(2) that(2) by auto
    then have "d_rules (ds ! i) = REPEATED_FIXED_COUNT"
      using that(1) static_iter(1,3) [OF assms(1) i(1) subset_UNIV assms(2), of a] that(2)
        static_descriptor(2) [OF ok(2,3)]
      by (cases "d_rules (ds ! i)") auto
    then show ?thesis using i by (auto simp: iter_ok_def)
  qed
  then show "iter_ok ds a (l_iter L')" if "track_fixed_count L w = (Ok L', w')"
    using that assms(3) by (auto simp: track_fixed_count_def Let_def ret_def split: if_splits elim!: seq_OkE)
qed

lemma decode_unknown_safe:
  assumes "static_ok d Ds ds sz" "iter_ok ds a (l_iter L)" "unat t < 2 ^ 29"
  shows "safe A (decode_unknown n D noinit t wire_type L)"
    "decode_unknown n D noinit t wire_type L w = (Ok L', w') \<Longrightarrow> iter_ok ds a (l_iter L')"
proof -
  from find_extension_none [OF assms(1,2)] obtain it' where
    it': "find_extension_field (l_iter L) = Some (False, it')" "iter_ok ds a it'" .
  have "\<not> t \<ge> (- 1 :: u32)" using assms(3) by (simp add: word_le_nat_alt unsigned_minus_1_eq_mask mask_eq_exp_minus_1)
  then have eq: "decode_unknown n D noinit t wire_type L =
      seq (on_stream (pb_skip_field wire_type)) (\<lambda>_. ret (if t \<ge> extension_range_start L
        then L\<lparr>l_iter := it', extension_range_start := - 1\<rparr> else L))"
    by (simp add: decode_unknown_def Let_def it'(1))
  show "safe A (decode_unknown n D noinit t wire_type L)"
    unfolding eq by (intro safe_seq safe_on_stream ssafe_skip_field safe_basic)
  show "decode_unknown n D noinit t wire_type L w = (Ok L', w') \<Longrightarrow> iter_ok ds a (l_iter L')"
    unfolding eq using assms(2) it'(2) by (auto simp: ret_def elim!: seq_OkE)
qed

lemma l_iter_mark_required: "l_iter (mark_required L) = l_iter L"
  by (simp add: mark_required_def Let_def)

text \<open>The loop, for any property of its iterator that its steps keep.\<close>

lemma loop_safe:
  fixes D :: "('s, 'h) pb_dec_env"
  assumes find: "\<And>t it. J it \<Longrightarrow> \<exists>found it'. pb_field_iter_find t it = Some (found, it') \<and> J it'"
    and unknown: "\<And>t wt L. J (l_iter L) \<Longrightarrow> unat t < 2 ^ 29 \<Longrightarrow> safe A (decode_unknown n D noinit t wt L)"
      "\<And>t wt L w L' w'. J (l_iter L) \<Longrightarrow> unat t < 2 ^ 29 \<Longrightarrow>
         decode_unknown n D noinit t wt L w = (Ok L', w') \<Longrightarrow> J (l_iter L')"
    and track: "\<And>L. J (l_iter L) \<Longrightarrow> safe A (track_fixed_count L :: (_, 's, 'h) dact)"
      "\<And>L (w :: ('s, 'h) pb_dec) L' w'. J (l_iter L) \<Longrightarrow> track_fixed_count L w = (Ok L', w') \<Longrightarrow> J (l_iter L')"
    and field: "\<And>it wt w. J it \<Longrightarrow> sound A w \<Longrightarrow> good A w (decode_field n D noinit wt it w)"
      "\<And>it wt w it' w'. J it \<Longrightarrow> sound A w \<Longrightarrow> decode_field n D noinit wt it w = (Ok it', w') \<Longrightarrow> J it'"
    and prems: "J (l_iter L)" "sound A w" "bytes_left (d_in w) < k"
  shows "good A w (decode_loop k n D noinit L w)"
  using prems
proof (induction k arbitrary: L w)
  case 0
  then show ?case by simp
next
  case (Suc k)
  let ?known = "\<lambda>wire_type L1. seq (track_fixed_count L1) (\<lambda>L2.
      let L3 = mark_required L2 in
      seq (decode_field n D noinit wire_type (l_iter L3)) (\<lambda>it'.
      decode_loop k n D noinit (L3\<lparr>l_iter := it'\<rparr>)))"
  have step: "good A v ((if \<not> found
      then seq (decode_unknown n D noinit t wire_type (L\<lparr>l_iter := it\<rparr>)) (decode_loop k n D noinit)
      else ?known wire_type (L\<lparr>l_iter := it\<rparr>)) v)"
    if v: "sound A v" "bytes_left (d_in v) < k" and t: "unat t < 2 ^ 29" and it: "J it"
    for v :: "('s, 'h) pb_dec" and found t wire_type it
  proof (cases found)
    case True
    have "good A v (?known wire_type (L\<lparr>l_iter := it\<rparr>) v)"
    proof (rule good_after)
      show "safe A (track_fixed_count (L\<lparr>l_iter := it\<rparr>) :: (_, 's, 'h) dact)"
        by (rule track(1)) (simp add: it)
      show "sound A v" by (rule v(1))
      fix L2 v2
      assume run: "track_fixed_count (L\<lparr>l_iter := it\<rparr>) v = (Ok L2, v2)" and v2: "within A v v2" "sound A v2"
      have L2: "J (l_iter (mark_required L2))"
        unfolding l_iter_mark_required by (rule track(2) [OF _ run]) (simp add: it)
      have "good A v2 (seq (decode_field n D noinit wire_type (l_iter (mark_required L2))) (\<lambda>it'.
          decode_loop k n D noinit ((mark_required L2)\<lparr>l_iter := it'\<rparr>)) v2)"
      proof (rule good_seq)
        show "good A v2 (decode_field n D noinit wire_type (l_iter (mark_required L2)) v2)"
          by (rule field(1) [OF L2 v2(2)])
        fix it' v3
        assume "decode_field n D noinit wire_type (l_iter (mark_required L2)) v2 = (Ok it', v3)" and v3: "within A v2 v3"
        then have "J it'" using field(2) [OF L2 v2(2)] by blast
        then show "good A v3 (decode_loop k n D noinit ((mark_required L2)\<lparr>l_iter := it'\<rparr>) v3)"
          using v2 v3 v by (intro Suc.IH) (auto simp: within_def)
      qed
      then show "good A v2 ((let L3 = mark_required L2 in seq (decode_field n D noinit wire_type (l_iter L3)) (\<lambda>it'.
          decode_loop k n D noinit (L3\<lparr>l_iter := it'\<rparr>))) v2)" by (simp add: Let_def)
    qed
    then show ?thesis using True by simp
  next
    case False
    have it': "J (l_iter (L\<lparr>l_iter := it\<rparr>))" using it by simp
    have "good A v (seq (decode_unknown n D noinit t wire_type (L\<lparr>l_iter := it\<rparr>)) (decode_loop k n D noinit) v)"
    proof (rule good_after [OF unknown(1) [OF it' t] v(1)])
      fix L' v'
      assume "decode_unknown n D noinit t wire_type (L\<lparr>l_iter := it\<rparr>) v = (Ok L', v')" "within A v v'" "sound A v'"
      then show "good A v' (decode_loop k n D noinit L' v')"
        using unknown(2) [OF it' t] v(2) by (intro Suc.IH) (auto simp: within_def)
    qed
    then show ?thesis using False by simp
  qed
  have "good A w (seq (on_stream pb_decode_tag) (\<lambda>(r, eof).
       case r of None \<Rightarrow> if eof then ret L else fail
       | Some (wire_type, t) \<Rightarrow>
           seq (iter_find t (l_iter L)) (\<lambda>(found, it).
           let L1 = L\<lparr>l_iter := it\<rparr> in
           if \<not> found
           then seq (decode_unknown n D noinit t wire_type L1) (decode_loop k n D noinit)
           else ?known wire_type L1)) w)"
  proof (rule good_after [OF safe_on_stream [OF ssafe_tag] Suc.prems(2)], clarify)
    fix r eof w'
    assume run: "on_stream pb_decode_tag w = (Ok (r, eof), w')" and w': "within A w w'" "sound A w'"
    show "good A w' ((case r of None \<Rightarrow> if eof then ret L else fail
       | Some (wire_type, t) \<Rightarrow>
           seq (iter_find t (l_iter L)) (\<lambda>(found, it).
           let L1 = L\<lparr>l_iter := it\<rparr> in
           if \<not> found
           then seq (decode_unknown n D noinit t wire_type L1) (decode_loop k n D noinit)
           else ?known wire_type L1)) w')"
    proof (cases r)
      case None
      show ?thesis
        by (simp add: None safeD [OF safe_basic(1) w'(2)] safeD [OF safe_basic(2) w'(2)])
    next
      case (Some q)
      obtain wt t where q: "q = (wt, t)" by (cases q)
      obtain buf where buf: "source (d_in w) = BufSource buf" "bytes_left (d_in w) \<le> length buf"
        using Suc.prems(2) by (auto simp: sound_def)
      have st: "d_in w = istream_at buf (bytes_left (d_in w)) (i_errmsg (d_in w))" using buf by simp
      have "pb_decode_tag (istream_at buf (bytes_left (d_in w)) (i_errmsg (d_in w))) = (Ok (Some (wt, t), eof), d_in w')"
        using run Some q by (auto simp: on_stream_def st [symmetric] split: prod.splits)
      note prog = pb_decode_tag_progress [OF this buf(2)]
      from find [OF Suc.prems(1), of t] obtain found it where
        it: "pb_field_iter_find t (l_iter L) = Some (found, it)" "J it" by blast
      have "bytes_left (d_in w') < k" using prog(1) Suc.prems(3) by simp
      from step [OF w'(2) this prog(2) it(2), of found wt]
      show ?thesis unfolding Some q option.case prod.case iter_find_def it(1) seq_basic Let_def .
    qed
  qed
  moreover have "good A w (ret L w)" by (rule safeD [OF safe_basic(1) Suc.prems(2)])
  ultimately show ?case by (simp add: seq_basic act_simps)
qed

lemma decode_loop_safe:
  fixes D :: "('s, 'h) pb_dec_env"
  assumes "tables_of D Ds" "static_ok d Ds ds sz" "d \<le> n" "block a sz \<subseteq> A" "sz < 2 ^ 31"
    "noinit_ok A Ds d noinit"
    and "iter_ok ds a (l_iter L)" "sound A w" "bytes_left (d_in w) < k"
  shows "good A w (decode_loop k n D noinit L w)"
proof (rule loop_safe [where J = "iter_ok ds a", OF _ _ _ _ _ _ _ assms(7-9)])
  show "\<exists>found it'. pb_field_iter_find t it = Some (found, it') \<and> iter_ok ds a it'" if "iter_ok ds a it" for t it
    using iter_find_ok [OF assms(2) that] by metis
qed (fact decode_unknown_safe [OF assms(2)] track_fixed_count_ok [OF assms(2,5)] decode_field_safe [OF assms(1-6)])+

text \<open>
  A message type without fields: the iterator stays at the terminator.  Number 0 is found there and a bool
  is stored in the first byte of the structure.
\<close>

lemma empty_iter:
  fixes a :: addr
  defines "it \<equiv> snd (pb_field_iter_begin [] a)"
  shows "pData it = a" "start it = []" "pos it = 0" "required_field_index it = 0"
    "field_at [] 0 = PB_LAST_FIELD" "ftype PB_LAST_FIELD = 0" "tag PB_LAST_FIELD = 0"
    "PB_HTYPE 0 = 0" "PB_ATYPE 0 = 0" "PB_LTYPE 0 = 0"
  by (simp_all add: it_def pb_field_iter_begin_def Let_def field_at_def PB_LAST_FIELD_def PB_HTYPE_def PB_ATYPE_def PB_LTYPE_def)

lemma empty_field:
  "decode_field n D noinit wt (iter_at [] a 0) = seq (pb_dec_bool a) (\<lambda>_. ret (iter_at [] a 0))"
  by (simp add: decode_field_def decode_static_field_def PB_DECODERS_def empty_iter Let_def seq_basic)

lemma empty_loop_safe:
  fixes D :: "('s, 'h) pb_dec_env"
  assumes "block a 1 \<subseteq> A" "l_iter L = iter_at [] a 0" "sound A w" "bytes_left (d_in w) < k"
  shows "good A w (decode_loop k n D noinit L w)"
proof -
  let ?J = "\<lambda>it. it = iter_at [] a 0"
  have unknown: "decode_unknown n D noinit t wt L =
      seq (on_stream (pb_skip_field wt)) (\<lambda>_. ret (if t \<ge> extension_range_start L
        then L\<lparr>l_iter := iter_at [] a 0, extension_range_start := - 1\<rparr> else L))"
    if "l_iter L = iter_at [] a 0" "unat t < 2 ^ 29" for t wt L
  proof -
    have "\<not> t \<ge> (- 1 :: u32)" using that(2) by (simp add: word_le_nat_alt unsigned_minus_1_eq_mask mask_eq_exp_minus_1)
    then show ?thesis
      by (simp add: decode_unknown_def Let_def that(1) iter_search_empty del: iter_at.simps)
  qed
  have track: "track_fixed_count L = ret L" if "l_iter L = iter_at [] a 0" for L
    by (simp add: track_fixed_count_def that empty_iter Let_def)
  have bool: "safe A (pb_dec_bool a :: (_, 's, 'h) dact)"
    unfolding pb_dec_bool_def using assms(1) by (intro safe_seq safe_on_stream ssafe_varint32 safe_store) simp
  show ?thesis
  proof (rule loop_safe [where J = ?J, OF _ _ _ _ _ _ _ assms(2-4)])
    show "\<exists>found it'. pb_field_iter_find t it = Some (found, it') \<and> it' = iter_at [] a 0" if "it = iter_at [] a 0" for t it
      unfolding that iter_search_empty by blast
    show "safe A (decode_unknown n D noinit t wt L)" if "l_iter L = iter_at [] a 0" "unat t < 2 ^ 29" for t wt L
      unfolding unknown [OF that] by (intro safe_seq safe_on_stream ssafe_skip_field safe_basic)
    show "l_iter L' = iter_at [] a 0"
      if "l_iter L = iter_at [] a 0" "unat t < 2 ^ 29" "decode_unknown n D noinit t wt L w = (Ok L', w')"
      for t wt L L' and w w' :: "('s, 'h) pb_dec"
      using that(3) unfolding unknown [OF that(1,2)] using that(1) by (auto simp: ret_def elim!: seq_OkE)
    show "safe A (track_fixed_count L :: (_, 's, 'h) dact)" if "l_iter L = iter_at [] a 0" for L
      unfolding track [OF that] by (rule safe_basic)
    show "l_iter L' = iter_at [] a 0" if "l_iter L = iter_at [] a 0" "track_fixed_count L w = (Ok L', w')"
      for L L' and w w' :: "('s, 'h) pb_dec"
      using that(2) unfolding track [OF that(1)] using that(1) by (simp add: ret_def)
    show "good A w (decode_field n D noinit wt it w)" if "it = iter_at [] a 0" "sound A w" for it wt w
      unfolding that(1) empty_field by (intro safeD [OF _ that(2)] safe_seq bool safe_basic)
    show "it' = iter_at [] a 0" if "it = iter_at [] a 0" "sound A w" "decode_field n D noinit wt it w = (Ok it', w')"
      for it wt w it' w'
      using that(3) unfolding that(1) empty_field by (auto simp: ret_def elim!: seq_OkE)
  qed
qed

text \<open>The decoder for one message, by induction on the fuel for its nesting depth.\<close>

lemma noinit_safe:
  fixes D :: "('s, 'h) pb_dec_env"
  assumes "tables_of D Ds" "static_ok d Ds ds sz" "d < n" "block a sz \<subseteq> A" "sz < 2 ^ 31"
  shows "safe A (pb_decode_noinit n D (pb_descriptors ds) a)"
  using assms(2-)
proof (induction n arbitrary: d ds sz a)
  case 0
  then show ?case by simp
next
  case (Suc n)
  have d: "d \<le> n" using Suc.prems(2) by simp
  have "noinit_ok A Ds d (pb_decode_noinit n D)"
    unfolding noinit_ok_def using Suc.IH d by (meson order.strict_trans2)
  note nonempty = decode_loop_safe [OF assms(1) Suc.prems(1) d Suc.prems(3,4) this]
  have room: "block a 1 \<subseteq> A" if "ds = []"
    using that Suc.prems(1,3) block_mono [of 1 sz a] by (cases d) auto
  show ?case
    unfolding safe_def
  proof (intro allI impI)
    fix w :: "('s, 'h) pb_dec"
    assume w: "sound A w"
    let ?leave = "\<lambda>m. seq (update (\<lambda>v. v\<lparr>d_fixed := d_fixed w\<rparr>)) (\<lambda>_. m) :: (unit, 's, 'h) dact"
    let ?L = "\<lparr>fields_seen = [0, 0], extension_range_start = 0,
              l_iter = snd (pb_field_iter_begin (pb_descriptors ds) a), fixed_count_field = None\<rparr>"
    let ?rest = "\<lambda>L'. seq (query d_fixed) (\<lambda>size.
       if \<not> fixed_count_ok L' size then ?leave (d_error ''wrong size for fixed count field'')
       else if \<not> required_seen L' then ?leave (d_error ''missing required field'')
       else ?leave (ret ()))"
    have leave: "safe A (?leave m)" if "safe A m" for m
      by (intro safe_seq safe_update that)
    have loop: "good A v (decode_loop k n D (pb_decode_noinit n D) ?L v)" if "sound A v" "bytes_left (d_in v) < k" for v k
    proof (cases "ds = []")
      case True
      then show ?thesis using that by (intro empty_loop_safe [OF room]) (simp_all add: pb_descriptors_def)
    next
      case False
      then have "iter_ok ds a (l_iter ?L)" using iter_ok_at [of 0 ds a] by simp
      then show ?thesis using that by (rule nonempty)
    qed
    have "good A w (seq (update (\<lambda>v. v\<lparr>d_fixed := 0\<rparr>)) (\<lambda>_.
        seq (or_release (decode_loop (Suc (bytes_left (d_in w))) n D (pb_decode_noinit n D) ?L) (?leave (ret ()))) ?rest) w)"
    proof (rule good_after [OF safe_update w], rule good_seq)
      fix w'
      assume w': "within A w w'" "sound A w'"
      show "good A w' (or_release (decode_loop (Suc (bytes_left (d_in w))) n D (pb_decode_noinit n D) ?L) (?leave (ret ())) w')"
        by (intro good_or_release loop w'(2) leave safe_basic) (use w' in \<open>simp add: within_def\<close>)
      fix L' w''
      assume "within A w' w''"
      then have "sound A w''" by (simp add: within_def)
      moreover have "safe A (?rest L')" by (intro safe_seq safe_if leave safe_basic safe_error)
      ultimately show "good A w'' (?rest L' w'')" by (rule safeD [rotated])
    qed
    then show "good A w (pb_decode_noinit (Suc n) D (pb_descriptors ds) a w)"
      by (simp add: seq_basic Let_def del: decode_loop.simps)
  qed
qed

section \<open>Properties\<close>

text \<open>
  C1. Decoding is memory safe and returns, for message types of static allocation whose arrays of fixed count
  have at least four bytes.  The members may be any scalars, arrays, unions and nested messages, messages
  without fields among them, laid out as a C structure of \<open>sz\<close> bytes (at least one).  Excluded are the arrays
  of fixed count of fewer than four bytes, because their initialisation writes over their end (C11).
  For every input of at most \<open>cnt\<close> bytes, valid or not, \<open>pb_decode\<close> returns true or false within the
  fuel of the type's nesting depth; it changes no byte outside the structure, maps and unmaps
  nothing, and of the input it passes over at most the \<open>cnt\<close> bytes it was given.
\<close>

theorem static_decode_safe:
  fixes D :: "('s, 'h) pb_dec_env"
  assumes "tables_of D Ds" "static_ok d Ds ds sz" "d < n" "sz < 2 ^ 31"
    "block a sz \<subseteq> dom (d_mem w)" "d_in w = pb_istream_from_buffer buf cnt" "cnt \<le> length buf"
  shows "\<exists>r w'. pb_decode n D (pb_descriptors ds) a w = (r, w') \<and> (r = Ok () \<or> r = Fail) \<and>
    (\<forall>p. p \<notin> block a sz \<longrightarrow> d_mem w' p = d_mem w p) \<and> dom (d_mem w') = dom (d_mem w) \<and>
    bytes_left (d_in w') \<le> cnt \<and>
    (\<exists>rest. source (d_in w') = BufSource rest \<and> length buf - cnt \<le> length rest - bytes_left (d_in w'))"
proof -
  let ?A = "block a sz"
  have w: "sound ?A w" using assms(5-7) by (simp add: sound_def pb_istream_from_buffer_def)
  have "safe ?A (pb_decode n D (pb_descriptors ds) a)"
    unfolding pb_decode_def using assms(3)
    by (intro safe_decode_with [OF assms(1,2) _ order_refl assms(4)]
        noinit_safe [OF assms(1,2,3) order_refl assms(4)]) simp
  note g = safeD [OF this w]
  obtain r w' where run: "pb_decode n D (pb_descriptors ds) a w = (r, w')"
    by (cases "pb_decode n D (pb_descriptors ds) a w")
  have r: "r = Ok () \<or> r = Fail" using g run by (cases r) (simp_all add: good_def)
  have wi: "within ?A w w'" using g run by (simp add: good_def)
  then obtain rest where "source (d_in w') = BufSource rest" by (auto simp: within_def sound_def)
  then show ?thesis
    using wi r run assms(6,7)
    by (intro exI [of _ r] exI [of _ w']) (auto simp: within_def slack_def pb_istream_from_buffer_def)
qed

text \<open>
  A structure of 40 bytes: a required number, a counted array of two submessages of 8 bytes, a
  fixed-count array and a union of a string and a float.
\<close>

definition sample_part :: "pb_decl list" where
  "sample_part =
    [\<lparr>d_tag = 1, d_ltype = PB_LTYPE_SVARINT, d_rules = OPTIONAL, d_alloc = STATIC, d_place = FIRST,
       d_member = \<lparr>m_offset = 4, m_size = 4, m_elem = 4, m_companion = 0\<rparr>, d_ptr = PtrNull\<rparr>]"

definition sample_whole :: "pb_decl list" where
  "sample_whole =
    [\<lparr>d_tag = 1, d_ltype = PB_LTYPE_UVARINT, d_rules = REQUIRED, d_alloc = STATIC, d_place = FIRST,
       d_member = \<lparr>m_offset = 0, m_size = 4, m_elem = 4, m_companion = 0\<rparr>, d_ptr = PtrNull\<rparr>,
     \<lparr>d_tag = 2, d_ltype = PB_LTYPE_SUBMESSAGE, d_rules = REPEATED, d_alloc = STATIC, d_place = OTHER,
       d_member = \<lparr>m_offset = 8, m_size = 16, m_elem = 8, m_companion = 4\<rparr>, d_ptr = PtrFields 0\<rparr>,
     \<lparr>d_tag = 3, d_ltype = PB_LTYPE_VARINT, d_rules = REPEATED_FIXED_COUNT, d_alloc = STATIC, d_place = OTHER,
       d_member = \<lparr>m_offset = 24, m_size = 4, m_elem = 1, m_companion = 24\<rparr>, d_ptr = PtrNull\<rparr>,
     \<lparr>d_tag = 4, d_ltype = PB_LTYPE_STRING, d_rules = ONEOF, d_alloc = STATIC, d_place = OTHER,
       d_member = \<lparr>m_offset = 32, m_size = 8, m_elem = 8, m_companion = 28\<rparr>, d_ptr = PtrNull\<rparr>,
     \<lparr>d_tag = 5, d_ltype = PB_LTYPE_FIXED32, d_rules = ONEOF, d_alloc = STATIC, d_place = UNION,
       d_member = \<lparr>m_offset = 32, m_size = 4, m_elem = 4, m_companion = 28\<rparr>, d_ptr = PtrNull\<rparr>]"

definition sample_decoder :: "(unit, unit) pb_dec_env" where
  "sample_decoder = \<lparr>d_tables = (\<lambda>_. pb_descriptors sample_part), d_ext_arg = (\<lambda>_. None),
     d_decode = (\<lambda>_ _ _. undef), d_ext_decode = (\<lambda>_ _ _ _. undef),
     d_realloc = (\<lambda>_ _ h m. (0, h, m)), d_free = (\<lambda>_ h m. (h, m))\<rparr>"

definition sample_state :: "byte list \<Rightarrow> nat \<Rightarrow> (unit, unit) pb_dec" where
  "sample_state input cnt = \<lparr>d_in = pb_istream_from_buffer input cnt,
     d_mem = map_of (zip (map (\<lambda>i. 0x1000 + of_nat i) [0..<40]) (replicate 40 0xAA)), d_heap = (), d_fixed = 0\<rparr>"

lemma sample_layouts: "layout_ok sample_part" "layout_ok sample_whole"
  by (simp_all add: layout_ok_def sample_part_def sample_whole_def decl_ok_def follows_def is_array_def
      PB_LTYPE_def less_Suc_eq nth_Cons split: nat.split)

lemma sample_static_ok: "static_ok 2 (\<lambda>_. sample_part) sample_whole 40"
proof -
  have part: "static_ok 1 (\<lambda>_. sample_part) sample_part 8"
    using sample_layouts(1)
    by (simp add: sample_part_def member_ok_def value_room_def elem_size_def is_array_def)
  have "static_ok (Suc d) (\<lambda>_. sample_part) sample_whole 40" if "static_ok d (\<lambda>_. sample_part) sample_part 8" for d
    using sample_layouts(2) that
    by (simp add: sample_whole_def member_ok_def value_room_def elem_size_def is_array_def)
  from this [OF part] show ?thesis by (simp only: Suc_1)
qed

lemma sample_mapped: "block 0x1000 40 \<subseteq> dom (d_mem (sample_state input cnt))"
proof -
  have "dom (d_mem (sample_state input cnt)) = set (map (\<lambda>i. 0x1000 + of_nat i) [0..<40])"
    by (simp add: sample_state_def dom_map_of_zip)
  then show ?thesis by (auto simp: block_def)
qed

theorem static_decode_safe_witness:
  "fst (pb_decode 3 sample_decoder (pb_descriptors sample_whole) 0x1000 (sample_state [8, 5, 18, 2, 8, 3, 255, 255] 8)) \<noteq> Ub"
  using static_decode_safe [of sample_decoder "\<lambda>_. sample_part" 2 sample_whole 40 3 "0x1000"
      "sample_state [8, 5, 18, 2, 8, 3, 255, 255] 8" "[8, 5, 18, 2, 8, 3, 255, 255]" 8]
    sample_static_ok sample_mapped
  by (auto simp: tables_of_def sample_decoder_def sample_state_def)

end
