(* ===== verification/Pb_Faults.thy ===== *)
theory Pb_Faults
  imports Pb_Static
begin

text \<open>
  Where the decoder departs from what its comments promise: arrays of fixed count and message types
  without fields.
\<close>

section \<open>Initialising arrays of fixed count\<close>

lemma wr_zeros:
  assumes "block a n \<subseteq> dom m"
  obtains m' where "wr m a (replicate n 0) = Some m'" "\<forall>p \<in> block a n. m' p = Some 0" "\<forall>p. p \<notin> block a n \<longrightarrow> m' p = m p"
proof -
  from assms obtain m' where m': "wr m a (replicate n 0) = Some m'" using wr_mapped [of m a "replicate n 0"] by auto
  have "\<forall>p \<in> block a n. m' p = Some 0"
    using m'
  proof (induction n arbitrary: m a)
    case 0
    then show ?case by (simp add: block_def)
  next
    case (Suc n)
    then have wr: "wr (m(a \<mapsto> 0)) (a + 1) (replicate n 0) = Some m'" by (auto split: option.splits)
    have "m' a = Some 0" if "a \<notin> block (a + 1) n" using wr_outside [OF wr, of a] that by simp
    with Suc.IH [OF wr] show ?case by (auto simp: block_Suc)
  qed
  then show ?thesis using m' wr_outside [OF m'] by (intro that [of m']) auto
qed

text \<open>
  C11. The initialisation of an array of fixed count clears four bytes.  Such an array has no
  counter (its descriptor's \<open>size_offset\<close> is 0, so \<open>pSize\<close> is \<open>pData\<close>), but \<open>pb_field_set_to_default\<close>
  resets a counter for every repeated field: it zeroes the four bytes at the start of the array,
  whatever the size of the array, and nothing else.  An array of fewer than four bytes has its
  neighbour overwritten, a longer one keeps stale entries.
\<close>

theorem fixed_count_default_clears_four:
  fixes D :: "('s, 'h) pb_dec_env"
  assumes "layout_ok ds" "i < length ds" "d_rules (ds ! i) = REPEATED_FIXED_COUNT" "d_alloc (ds ! i) = STATIC"
    "d_ltype (ds ! i) \<noteq> PB_LTYPE_EXTENSION" "block (a + of_nat (m_offset (d_member (ds ! i)))) 4 \<subseteq> dom (d_mem w)"
  shows "\<exists>m'. pb_field_set_to_default (Suc n) D (iter_at (pb_descriptors ds) a i) w = (Ok (), w\<lparr>d_mem := m'\<rparr>) \<and>
    (\<forall>p \<in> block (a + of_nat (m_offset (d_member (ds ! i)))) 4. m' p = Some 0) \<and>
    (\<forall>p. p \<notin> block (a + of_nat (m_offset (d_member (ds ! i)))) 4 \<longrightarrow> m' p = d_mem w p)"
proof -
  let ?it = "iter_at (pb_descriptors ds) a i" and ?p = "a + of_nat (m_offset (d_member (ds ! i)))"
  have ok: "decl_ok (ds ! i)" using assms(1,2) by (auto simp: layout_ok_def)
  then have l: "PB_LTYPE (d_ltype (ds ! i)) = d_ltype (ds ! i)" by (simp add: decl_ok_def)
  have field: "iter_field ?it = pb_descriptor ds i"
    using iter_at_static [OF layout_tags_ok [OF assms(1)]] assms(2) by simp
  have type: "PB_LTYPE (ftype (pb_descriptor ds i)) = d_ltype (ds ! i)"
    "PB_ATYPE (ftype (pb_descriptor ds i)) = PB_ATYPE_OF (d_alloc (ds ! i))"
    "PB_HTYPE (ftype (pb_descriptor ds i)) = PB_HTYPE_OF (d_rules (ds ! i))"
    by (simp_all add: pb_descriptor_def PB_FIELD_def Let_def PB_TYPE_fields [OF l])
  have at: "pSize ?it = InMem ?p" "pData ?it = ?p"
    using iter_at_layout [OF assms(1,2), of a] assms(3,4) by simp_all
  from wr_zeros [OF assms(6)] obtain m' where m': "wr (d_mem w) ?p (replicate 4 0) = Some m'"
    "\<forall>p \<in> block ?p 4. m' p = Some 0" "\<forall>p. p \<notin> block ?p 4 \<longrightarrow> m' p = d_mem w p" .
  have z: "le_bytes 4 (0 :: u32) = replicate 4 0" by code_simp
  have "pb_field_set_to_default (Suc n) D ?it w = (Ok (), w\<lparr>d_mem := m'\<rparr>)"
    using assms(3-5) m'(1)
    by (simp add: field type Let_def at set_size_def store_def z seq_def ret_def)
  then show ?thesis using m'(2,3) by blast
qed

text \<open>Two bools of fixed count and, right behind them, a required bool.\<close>

definition sample_pair :: "pb_decl list" where
  "sample_pair =
    [\<lparr>d_tag = 1, d_ltype = PB_LTYPE_BOOL, d_rules = REPEATED_FIXED_COUNT, d_alloc = STATIC, d_place = FIRST,
       d_member = \<lparr>m_offset = 0, m_size = 2, m_elem = 1, m_companion = 0\<rparr>, d_ptr = PtrNull\<rparr>,
     \<lparr>d_tag = 2, d_ltype = PB_LTYPE_BOOL, d_rules = REQUIRED, d_alloc = STATIC, d_place = OTHER,
       d_member = \<lparr>m_offset = 2, m_size = 1, m_elem = 1, m_companion = 2\<rparr>, d_ptr = PtrNull\<rparr>]"

lemma sample_pair_layout: "layout_ok sample_pair"
  by (simp add: layout_ok_def sample_pair_def decl_ok_def follows_def is_array_def PB_LTYPE_def)

theorem fixed_count_default_clears_four_witness:
  "\<exists>m'. pb_field_set_to_default 1 sample_decoder (iter_at (pb_descriptors sample_pair) 0x1000 0) (sample_state [] 0) =
      (Ok (), (sample_state [] 0)\<lparr>d_mem := m'\<rparr>) \<and> m' 0x1002 = Some 0 \<and> d_mem (sample_state [] 0) 0x1002 = Some 0xAA"
proof -
  have four: "block 0x1000 4 = {0x1000, 0x1001, 0x1002, 0x1003}"
    by (auto simp: block_def numeral_eq_Suc lessThan_Suc)
  have "block 0x1000 4 \<subseteq> dom (d_mem (sample_state [] 0))"
    using sample_mapped [of "[]" 0] block_mono [of 4 40 "0x1000"] by auto
  moreover have "d_mem (sample_state [] 0) 0x1002 = Some 0xAA" by code_simp
  ultimately show ?thesis
    using fixed_count_default_clears_four [OF sample_pair_layout, of 0 "0x1000" "sample_state [] 0" 0 sample_decoder] four
    by (auto simp: sample_pair_def simp del: pb_field_set_to_default.simps)
qed

section \<open>Message types without fields\<close>

text \<open>The loop on such an input: the terminator is found and its bool stored.\<close>

definition empty_loop :: "addr \<Rightarrow> pb_loop" where
  "empty_loop a = \<lparr>fields_seen = [0, 0], extension_range_start = 0,
     l_iter = snd (pb_field_iter_begin [] a), fixed_count_field = None\<rparr>"

lemma empty_steps:
  "iter_find 0 (l_iter (empty_loop a)) = ret (True, l_iter (empty_loop a))"
  "decode_field n D noinit wt (l_iter (empty_loop a)) = seq (pb_dec_bool a) (\<lambda>_. ret (l_iter (empty_loop a)))"
  "track_fixed_count (empty_loop a) = ret (empty_loop a)"
  "mark_required (empty_loop a) = (empty_loop a)\<lparr>fields_seen := [1, 0]\<rparr>"
  "required_seen ((empty_loop a)\<lparr>fields_seen := [1, 0]\<rparr>)"
  by (simp_all add: empty_loop_def iter_find_def pb_field_iter_find_def decode_field_def decode_static_field_def
      PB_DECODERS_def track_fixed_count_def mark_required_def PB_MAX_REQUIRED_FIELDS_def required_seen_def
      last_field.simps pb_field_iter_next_def empty_iter Let_def seq_basic)

lemma empty_field_bytes:
  fixes k v :: byte
  assumes "0 < k" "k < 8" "v < 128"
  shows "pb_decode_tag (istream_at [k, v] 2 e) = (Ok (Some (ucast k AND 7, 0), False), istream_at [v] 1 e)"
    "pb_decode_varint32 (istream_at [v] 1 e) = (Ok (ucast v), istream_at [] 0 e)"
    "(ucast v :: u32) = 0 \<longleftrightarrow> v = 0"
proof -
  have "k < 0x80" using assms(2) by (simp add: word_less_nat_alt)
  then have k7: "k AND 0x80 = 0" and v7: "v AND 0x80 = 0" using assms(3) by (simp_all add: byte_high_bit)
  have u: "unat (ucast k :: u32) = unat k"
    by (simp add: unsigned_ucast_eq unsigned_take_bit_eq take_bit_nat_eq_self unat_less order.strict_trans [OF unat_less])
  then have t: "(ucast k :: u32) \<noteq> 0" "drop_bit 3 (ucast k :: u32) = 0"
    using assms(1,2) by (auto simp: word_unat_eq_iff unat_drop_bit word_less_nat_alt)
  show "pb_decode_tag (istream_at [k, v] 2 e) = (Ok (Some (ucast k AND 7, 0), False), istream_at [v] 1 e)"
    using k7 t by (simp add: pb_decode_tag_def pb_decode_varint32_eof_def pb_readbyte_at seq_def ret_def)
  show "pb_decode_varint32 (istream_at [v] 1 e) = (Ok (ucast v), istream_at [] 0 e)"
    using v7 by (simp add: pb_decode_varint32_def pb_decode_varint32_eof_def pb_readbyte_at seq_def ret_def)
  show "(ucast v :: u32) = 0 \<longleftrightarrow> v = 0"
    using unat_less [of v] by (auto simp: word_unat_eq_iff unsigned_ucast_eq unsigned_take_bit_eq take_bit_nat_eq_self)
qed

lemma empty_loop_run:
  fixes D :: "('s, 'h) pb_dec_env"
  assumes "0 < k" "k < 8" "v < 128" "d_in w = istream_at [k, v] 2 None"
  shows "decode_loop (Suc (Suc (Suc 0))) n D noinit (empty_loop a) w =
      seq (store a [if v = 0 then 0 else 1]) (\<lambda>_. ret ((empty_loop a)\<lparr>fields_seen := [1, 0]\<rparr>))
        (w\<lparr>d_in := istream_at [] 0 None\<rparr>)"
proof -
  let ?L = "(empty_loop a)\<lparr>fields_seen := [1, 0]\<rparr>" and ?eos = "istream_at [] 0 None"
  note bytes = empty_field_bytes [OF assms(1-3)]
  have L: "?L\<lparr>l_iter := l_iter (empty_loop a)\<rparr> = ?L" by (simp add: empty_loop_def)
  have bool: "pb_dec_bool a (u\<lparr>d_in := istream_at [v] 1 None\<rparr>) = store a [if v = 0 then 0 else 1] (u\<lparr>d_in := ?eos\<rparr>)"
    for u :: "('s, 'h) pb_dec"
    by (auto simp: pb_dec_bool_def on_stream_def seq_def bytes [unfolded One_nat_def])
  have "decode_loop (Suc (Suc (Suc 0))) n D noinit (empty_loop a) w =
      seq (pb_dec_bool a) (\<lambda>_. decode_loop (Suc (Suc 0)) n D noinit ?L) (w\<lparr>d_in := istream_at [v] 1 None\<rparr>)"
    by (subst decode_loop.simps(2))
      (simp add: seq_basic act_simps on_stream_def assms(4) bytes(1) [unfolded One_nat_def] empty_steps Let_def
        seq_assoc L del: decode_loop.simps)
  also have "\<dots> = seq (store a [if v = 0 then 0 else 1]) (\<lambda>_. decode_loop (Suc (Suc 0)) n D noinit ?L) (w\<lparr>d_in := ?eos\<rparr>)"
    using bool [of w] by (simp add: seq_def)
  also have "\<dots> = seq (store a [if v = 0 then 0 else 1]) (\<lambda>_. ret ?L) (w\<lparr>d_in := ?eos\<rparr>)"
    by (simp add: store_def seq_def query_def ret_def split: option.split)
  finally show ?thesis .
qed

text \<open>
  C12. A message type without fields accepts the field number zero.  The descriptor array is only its
  terminator, whose number is 0 and whose type reads as a required static bool, and
  \<open>pb_field_iter_find\<close> compares it with the number looked for: for an input of the key byte of field 0 (any
  wire type but that of a zero byte) and a one-byte varint, \<open>pb_decode\<close> stores a bool in the first
  byte of the structure and returns true.
\<close>

theorem empty_message_field_zero:
  fixes D :: "('s, 'h) pb_dec_env"
  assumes "0 < k" "k < 8" "v < 128" "d_in w = pb_istream_from_buffer [k, v] 2"
  shows "if d_mem w a = None then fst (pb_decode (Suc n) D [] a w) = Ub
    else fst (pb_decode (Suc n) D [] a w) = Ok () \<and>
      d_mem (snd (pb_decode (Suc n) D [] a w)) = (d_mem w)(a \<mapsto> if v = 0 then 0 else 1)"
proof -
  have defaults: "pb_message_set_to_defaults (Suc n) D [] a = ret ()"
    by (simp add: pb_message_set_to_defaults_def for_fields_def pb_field_iter_begin_def Let_def empty_iter)
  have run: "pb_decode (Suc n) D [] a w = or_release (pb_decode_noinit (Suc n) D [] a) (pb_release (Suc n) D [] a) w"
    by (simp add: pb_decode_def pb_decode_with_def defaults seq_basic)
  note seen = empty_steps(5)
  have loop: "decode_loop (Suc (Suc (Suc 0))) n D noinit (empty_loop a) (w\<lparr>d_fixed := 0\<rparr>) =
      seq (store a [if v = 0 then 0 else 1]) (\<lambda>_. ret ((empty_loop a)\<lparr>fields_seen := [1, 0]\<rparr>))
        (w\<lparr>d_fixed := 0, d_in := istream_at [] 0 None\<rparr>)" for noinit
    using empty_loop_run [OF assms(1-3), of "w\<lparr>d_fixed := 0\<rparr>"] assms(4) by (simp add: pb_istream_from_buffer_def)
  have counted: "fixed_count_ok ((empty_loop a)\<lparr>fields_seen := [1, 0]\<rparr>) size" for size
    by (simp add: fixed_count_ok_def empty_loop_def)
  have left: "bytes_left (d_in w) = Suc (Suc 0)" using assms(4) by (simp add: pb_istream_from_buffer_def)
  show ?thesis
  proof (cases "d_mem w a")
    case None
    then show ?thesis
      by (simp add: run or_release_def seq_basic act_simps left loop [unfolded empty_loop_def] store_def Let_def seq_def del: decode_loop.simps)
  next
    case (Some c)
    then show ?thesis
      using counted [unfolded empty_loop_def] seen [unfolded empty_loop_def]
      by (simp add: run or_release_def seq_basic act_simps left loop [unfolded empty_loop_def] store_def Let_def seq_def del: decode_loop.simps)
  qed
qed

theorem empty_message_field_zero_witness:
  "fst (pb_decode 1 sample_decoder [] 0x1000 (sample_state [1, 5] 2)) = Ok () \<and>
   fst (pb_decode 1 sample_decoder [] 0x2000 (sample_state [1, 5] 2)) = Ub"
proof -
  have "d_mem (sample_state [1, 5] 2) 0x1000 \<noteq> None" "d_mem (sample_state [1, 5] 2) 0x2000 = None" by code_simp+
  then show ?thesis
    using empty_message_field_zero [of 1 5 "sample_state [1, 5] 2" "0x1000" 0 sample_decoder]
      empty_message_field_zero [of 1 5 "sample_state [1, 5] 2" "0x2000" 0 sample_decoder]
    by (simp add: sample_state_def)
qed

end
