(* ===== verification/Cbs.thy ===== *)
theory Cbs
  imports Prelude
begin

text \<open>
  The byte string reader of BoringSSL (crypto/bytestring/cbs.c): fixed-width integers, length-prefixed
  strings and DER elements.
\<close>

section \<open>The reader\<close>

text \<open>
  A \<open>CBS\<close> is a pointer into an object the reader never writes to, and a length.  The pointer is the
  bytes from its target to the end of the object, so that an access behind the object shows as \<open>Ub\<close>;
  \<open>cbs_ok\<close> below says that the window lies inside.  A length is a \<open>size_t\<close> that is only ever
  decreased by what it has been compared with, so a natural number describes it.  Output parameters
  are the result; their content after a failure, which the API leaves open, is not modelled.
\<close>

record CBS =
  cbs_data :: "byte list"
  cbs_len :: nat

definition CBS_init :: "byte list \<Rightarrow> nat \<Rightarrow> CBS" where
  "CBS_init p n = \<lparr>cbs_data = p, cbs_len = n\<rparr>"

definition CBS_data :: "CBS \<Rightarrow> byte list" where
  "CBS_data cbs = cbs_data cbs"

definition CBS_len :: "CBS \<Rightarrow> nat" where
  "CBS_len cbs = cbs_len cbs"

text \<open>Reading \<open>n\<close> bytes through a pointer, and one byte at an index.\<close>

definition deref :: "byte list \<Rightarrow> nat \<Rightarrow> (byte list, 's) act" where
  "deref p n = (if length p < n then undef else ret (take n p))"

definition byte_at :: "byte list \<Rightarrow> nat \<Rightarrow> (byte, 's) act" where
  "byte_at p i = (if length p \<le> i then undef else ret (p ! i))"

text \<open>The pointer returned by \<open>cbs_get\<close> is advanced over \<open>n\<close> bytes, which must exist.\<close>

definition cbs_get :: "nat \<Rightarrow> (byte list, CBS) act" where
  "cbs_get n = (\<lambda>cbs.
     if cbs_len cbs < n then (Fail, cbs)
     else if length (cbs_data cbs) < n then (Ub, cbs)
     else (Ok (cbs_data cbs), \<lparr>cbs_data = drop n (cbs_data cbs), cbs_len = cbs_len cbs - n\<rparr>))"

definition CBS_skip :: "nat \<Rightarrow> (unit, CBS) act" where
  "CBS_skip n = seq (cbs_get n) (\<lambda>_. ret ())"

text \<open>
  Copying out.  Allocation is a parameter that says which sizes are served; the result of
  \<open>CBS_stow\<close> is \<open>None\<close> for the null pointer it stores for an empty string.
\<close>

definition CBS_stow :: "(nat \<Rightarrow> bool) \<Rightarrow> (byte list option, CBS) act" where
  "CBS_stow can_alloc = seq (query id) (\<lambda>cbs.
     if cbs_len cbs = 0 then ret None
     else if \<not> can_alloc (cbs_len cbs) then fail
     else seq (deref (cbs_data cbs) (cbs_len cbs)) (\<lambda>bs. ret (Some bs)))"

fun OPENSSL_strnlen :: "byte list \<Rightarrow> nat \<Rightarrow> nat \<Rightarrow> (nat, 's) act" where
  "OPENSSL_strnlen s i 0 = ret i"
| "OPENSSL_strnlen s i (Suc n) = seq (byte_at s i) (\<lambda>b. if b = 0 then ret i else OPENSSL_strnlen s (Suc i) n)"

definition OPENSSL_strndup :: "(nat \<Rightarrow> bool) \<Rightarrow> byte list \<Rightarrow> nat \<Rightarrow> (byte list, 's) act" where
  "OPENSSL_strndup can_alloc s n = seq (OPENSSL_strnlen s 0 n) (\<lambda>size.
     if (size + 1) mod 2 ^ 64 < size then fail
     else if \<not> can_alloc (size + 1) then fail
     else seq (deref s size) (\<lambda>bs. ret (bs @ [0])))"

definition CBS_strdup :: "(nat \<Rightarrow> bool) \<Rightarrow> (byte list, CBS) act" where
  "CBS_strdup can_alloc = seq (query id) (\<lambda>cbs. OPENSSL_strndup can_alloc (cbs_data cbs) (cbs_len cbs))"

definition CBS_contains_zero_byte :: "(bool, CBS) act" where
  "CBS_contains_zero_byte = seq (query id) (\<lambda>cbs. seq (deref (cbs_data cbs) (cbs_len cbs)) (\<lambda>bs. ret (0 \<in> set bs)))"

text \<open>\<open>CRYPTO_memcmp\<close> accumulates the differences of all bytes.\<close>

definition CRYPTO_memcmp :: "byte list \<Rightarrow> byte list \<Rightarrow> byte" where
  "CRYPTO_memcmp as bs = foldl (\<lambda>x (a, b). x OR (a XOR b)) 0 (zip as bs)"

definition CBS_mem_equal :: "byte list \<Rightarrow> nat \<Rightarrow> (bool, CBS) act" where
  "CBS_mem_equal p n = seq (query id) (\<lambda>cbs.
     if n \<noteq> cbs_len cbs then ret False
     else seq (deref (cbs_data cbs) n) (\<lambda>as. seq (deref p n) (\<lambda>bs. ret (CRYPTO_memcmp as bs = 0))))"

section \<open>Integers\<close>

definition cbs_get_u :: "nat \<Rightarrow> (u64, CBS) act" where
  "cbs_get_u n = seq (cbs_get n) (\<lambda>p. seq (deref p n)
     (\<lambda>bs. ret (foldl (\<lambda>result b. push_bit 8 result OR ucast b) 0 bs)))"

definition CRYPTO_bswap2 :: "u16 \<Rightarrow> u16" where
  "CRYPTO_bswap2 x = drop_bit 8 x OR push_bit 8 x"

definition CRYPTO_bswap4 :: "u32 \<Rightarrow> u32" where
  "CRYPTO_bswap4 x =
     (let x = drop_bit 16 x OR push_bit 16 x
      in drop_bit 8 (x AND 0xff00ff00) OR push_bit 8 (x AND 0x00ff00ff))"

definition CRYPTO_bswap8 :: "u64 \<Rightarrow> u64" where
  "CRYPTO_bswap8 x = ucast (CRYPTO_bswap4 (ucast (drop_bit 32 x))) OR push_bit 32 (ucast (CRYPTO_bswap4 (ucast x)))"

definition CBS_get_u8 :: "(byte, CBS) act" where
  "CBS_get_u8 = seq (cbs_get 1) (\<lambda>v. byte_at v 0)"

definition CBS_get_u16 :: "(u16, CBS) act" where
  "CBS_get_u16 = seq (cbs_get_u 2) (\<lambda>v. ret (ucast v))"

definition CBS_get_u16le :: "(u16, CBS) act" where
  "CBS_get_u16le = seq CBS_get_u16 (\<lambda>v. ret (CRYPTO_bswap2 v))"

definition CBS_get_u24 :: "(u32, CBS) act" where
  "CBS_get_u24 = seq (cbs_get_u 3) (\<lambda>v. ret (ucast v))"

definition CBS_get_u32 :: "(u32, CBS) act" where
  "CBS_get_u32 = seq (cbs_get_u 4) (\<lambda>v. ret (ucast v))"

definition CBS_get_u32le :: "(u32, CBS) act" where
  "CBS_get_u32le = seq CBS_get_u32 (\<lambda>v. ret (CRYPTO_bswap4 v))"

definition CBS_get_u64 :: "(u64, CBS) act" where
  "CBS_get_u64 = cbs_get_u 8"

definition CBS_get_u64le :: "(u64, CBS) act" where
  "CBS_get_u64le = seq (cbs_get_u 8) (\<lambda>v. ret (CRYPTO_bswap8 v))"

definition CBS_get_last_u8 :: "(byte, CBS) act" where
  "CBS_get_last_u8 = seq (query id) (\<lambda>cbs.
     if cbs_len cbs = 0 then fail
     else seq (byte_at (cbs_data cbs) (cbs_len cbs - 1))
       (\<lambda>b. seq (update (\<lambda>cbs. cbs\<lparr>cbs_len := cbs_len cbs - 1\<rparr>)) (\<lambda>_. ret b)))"

definition CBS_get_bytes :: "nat \<Rightarrow> (CBS, CBS) act" where
  "CBS_get_bytes n = seq (cbs_get n) (\<lambda>v. ret (CBS_init v n))"

definition CBS_copy_bytes :: "nat \<Rightarrow> (byte list, CBS) act" where
  "CBS_copy_bytes n = seq (cbs_get n) (\<lambda>v. deref v n)"

definition cbs_get_length_prefixed :: "nat \<Rightarrow> (CBS, CBS) act" where
  "cbs_get_length_prefixed len_len = seq (cbs_get_u len_len) (\<lambda>len. CBS_get_bytes (unat len))"

definition CBS_get_u8_length_prefixed :: "(CBS, CBS) act" where
  "CBS_get_u8_length_prefixed = cbs_get_length_prefixed 1"

definition CBS_get_u16_length_prefixed :: "(CBS, CBS) act" where
  "CBS_get_u16_length_prefixed = cbs_get_length_prefixed 2"

definition CBS_get_u24_length_prefixed :: "(CBS, CBS) act" where
  "CBS_get_u24_length_prefixed = cbs_get_length_prefixed 3"

section \<open>DER elements\<close>

lemma CBS_get_u8_decreases: "CBS_get_u8 c = (Ok b, c') \<Longrightarrow> cbs_len c' < cbs_len c"
  by (auto simp: CBS_get_u8_def cbs_get_def byte_at_def seq_def ret_def undef_def split: if_splits)

text \<open>The do-while loop of \<open>parse_base128_integer\<close>.\<close>

function base128_loop :: "u64 \<Rightarrow> (u64, CBS) act" where
  "base128_loop v cbs = (case CBS_get_u8 cbs of
       (Ok b, cbs') \<Rightarrow>
         if drop_bit (64 - 7) v \<noteq> 0 then (Fail, cbs')
         else if v = 0 \<and> b = 0x80 then (Fail, cbs')
         else (let v' = push_bit 7 v OR ucast (b AND 0x7f)
               in if b AND 0x80 \<noteq> 0 then base128_loop v' cbs' else (Ok v', cbs'))
     | (Fail, cbs') \<Rightarrow> (Fail, cbs')
     | (Ub, cbs') \<Rightarrow> (Ub, cbs')
     | (NoFuel, cbs') \<Rightarrow> (NoFuel, cbs'))"
  by pat_completeness auto
termination
  by (relation "measure (\<lambda>(v, cbs). cbs_len cbs)") (auto dest: CBS_get_u8_decreases [OF sym])

declare base128_loop.simps [simp del]

definition parse_base128_integer :: "(u64, CBS) act" where
  "parse_base128_integer = base128_loop 0"

abbreviation (input) CBS_ASN1_TAG_SHIFT :: nat where "CBS_ASN1_TAG_SHIFT \<equiv> 24"
abbreviation (input) CBS_ASN1_CONSTRUCTED :: u32 where "CBS_ASN1_CONSTRUCTED \<equiv> 0x20000000"
abbreviation (input) CBS_ASN1_TAG_NUMBER_MASK :: u32 where "CBS_ASN1_TAG_NUMBER_MASK \<equiv> 0x1FFFFFFF"
abbreviation (input) CBS_ASN1_BOOLEAN :: u32 where "CBS_ASN1_BOOLEAN \<equiv> 1"
abbreviation (input) CBS_ASN1_INTEGER :: u32 where "CBS_ASN1_INTEGER \<equiv> 2"
abbreviation (input) CBS_ASN1_OCTETSTRING :: u32 where "CBS_ASN1_OCTETSTRING \<equiv> 4"

definition parse_asn1_tag :: "(u32, CBS) act" where
  "parse_asn1_tag = seq CBS_get_u8 (\<lambda>tag_byte.
     let tag = push_bit CBS_ASN1_TAG_SHIFT (ucast tag_byte AND 0xe0) :: u32;
         tag_number = ucast tag_byte AND 0x1f :: u32
     in if tag_number = 0x1f then
          seq parse_base128_integer (\<lambda>v.
            if v > ucast CBS_ASN1_TAG_NUMBER_MASK \<or> v < 0x1f then fail
            else ret (tag OR ucast v))
        else ret (tag OR tag_number))"

text \<open>Running a reader on a copy (\<open>CBS header = *cbs\<close>); the result has the copy as it is left.\<close>

definition on_copy :: "('a, CBS) act \<Rightarrow> ('a \<times> CBS, CBS) act" where
  "on_copy m = (\<lambda>cbs. case m cbs of
      (Ok x, cbs') \<Rightarrow> (Ok (x, cbs'), cbs)
    | (Fail, _) \<Rightarrow> (Fail, cbs)
    | (Ub, _) \<Rightarrow> (Ub, cbs)
    | (NoFuel, _) \<Rightarrow> (NoFuel, cbs))"

text \<open>Running a reader on another \<open>CBS\<close> (a local variable or an output parameter).\<close>

definition on_child :: "CBS \<Rightarrow> ('a, CBS) act \<Rightarrow> ('a \<times> CBS, CBS) act" where
  "on_child child m = (\<lambda>cbs. case m child of
      (Ok x, child') \<Rightarrow> (Ok (x, child'), cbs)
    | (Fail, _) \<Rightarrow> (Fail, cbs)
    | (Ub, _) \<Rightarrow> (Ub, cbs)
    | (NoFuel, _) \<Rightarrow> (NoFuel, cbs))"

text \<open>The result is \<open>out\<close>, \<open>*out_tag\<close> and \<open>*out_header_len\<close>.\<close>

definition cbs_get_any_asn1_element :: "bool \<Rightarrow> (CBS \<times> u32 \<times> nat, CBS) act" where
  "cbs_get_any_asn1_element ber_ok =
     seq (on_copy parse_asn1_tag) (\<lambda>(tag, header).
     seq (on_child header CBS_get_u8) (\<lambda>(length_byte, header).
     seq (query cbs_len) (\<lambda>len0.
     let header_len = len0 - cbs_len header in
     if length_byte AND 0x80 = 0 then
       seq (CBS_get_bytes (unat length_byte + header_len)) (\<lambda>out. ret (out, tag, header_len))
     else
       let num_bytes = unat (length_byte AND 0x7f) in
       if ber_ok \<and> tag AND CBS_ASN1_CONSTRUCTED \<noteq> 0 \<and> num_bytes = 0 then
         seq (CBS_get_bytes header_len) (\<lambda>out. ret (out, tag, header_len))
       else if num_bytes = 0 \<or> num_bytes > 4 then fail
       else
         seq (on_child header (cbs_get_u num_bytes)) (\<lambda>(len64, _).
         if len64 < 128 then fail
         else if drop_bit ((num_bytes - 1) * 8) len64 = 0 then fail
         else if len64 + of_nat header_len + of_nat num_bytes < len64 then fail
         else seq (CBS_get_bytes (unat (len64 + (of_nat header_len + of_nat num_bytes))))
                (\<lambda>out. ret (out, tag, header_len + num_bytes))))))"

definition CBS_get_any_asn1_element :: "(CBS \<times> u32 \<times> nat, CBS) act" where
  "CBS_get_any_asn1_element = cbs_get_any_asn1_element False"

definition CBS_get_any_ber_asn1_element :: "(CBS \<times> u32 \<times> nat, CBS) act" where
  "CBS_get_any_ber_asn1_element = cbs_get_any_asn1_element True"

text \<open>\<open>assert(0)\<close> is undefined behaviour here: it stands where the code cannot come.\<close>

definition skip_header :: "CBS \<Rightarrow> nat \<Rightarrow> (CBS, CBS) act" where
  "skip_header out n = (case CBS_skip n out of (Ok _, out') \<Rightarrow> ret out' | _ \<Rightarrow> undef)"

definition CBS_get_any_asn1 :: "(CBS \<times> u32, CBS) act" where
  "CBS_get_any_asn1 = seq CBS_get_any_asn1_element (\<lambda>(out, tag, header_len).
     seq (skip_header out header_len) (\<lambda>out. ret (out, tag)))"

definition cbs_get_asn1 :: "u32 \<Rightarrow> bool \<Rightarrow> (CBS, CBS) act" where
  "cbs_get_asn1 tag_value skip = seq CBS_get_any_asn1_element (\<lambda>(out, tag, header_len).
     if tag \<noteq> tag_value then fail
     else if skip then skip_header out header_len
     else ret out)"

definition CBS_get_asn1 :: "u32 \<Rightarrow> (CBS, CBS) act" where
  "CBS_get_asn1 tag_value = cbs_get_asn1 tag_value True"

definition CBS_get_asn1_element :: "u32 \<Rightarrow> (CBS, CBS) act" where
  "CBS_get_asn1_element tag_value = cbs_get_asn1 tag_value False"

definition CBS_peek_asn1_tag :: "u32 \<Rightarrow> (bool, CBS) act" where
  "CBS_peek_asn1_tag tag_value = seq (query cbs_len) (\<lambda>n.
     if n < 1 then ret False
     else (\<lambda>cbs. case parse_asn1_tag cbs of
          (Ok actual_tag, _) \<Rightarrow> (Ok (tag_value = actual_tag), cbs)
        | (Fail, _) \<Rightarrow> (Ok False, cbs)
        | (Ub, _) \<Rightarrow> (Ub, cbs)
        | (NoFuel, _) \<Rightarrow> (NoFuel, cbs)))"

section \<open>Values in DER\<close>

fun asn1_uint64_loop :: "u64 \<Rightarrow> byte list \<Rightarrow> u64 option" where
  "asn1_uint64_loop out [] = Some out"
| "asn1_uint64_loop out (b # bs) =
     (if drop_bit 56 out \<noteq> 0 then None else asn1_uint64_loop (push_bit 8 out OR ucast b) bs)"

definition CBS_get_asn1_uint64 :: "(u64, CBS) act" where
  "CBS_get_asn1_uint64 = seq (CBS_get_asn1 CBS_ASN1_INTEGER) (\<lambda>bytes.
     seq (deref (cbs_data bytes) (cbs_len bytes)) (\<lambda>bs.
     if length bs = 0 then fail
     else if bs ! 0 AND 0x80 \<noteq> 0 then fail
     else if bs ! 0 = 0 \<and> length bs > 1 \<and> bs ! 1 AND 0x80 = 0 then fail
     else case asn1_uint64_loop 0 bs of None \<Rightarrow> fail | Some v \<Rightarrow> ret v))"

text \<open>The union \<open>u\<close> is filled with the sign and then, from its low end, with the bytes in reverse.\<close>

definition CBS_get_asn1_int64 :: "(u64, CBS) act" where
  "CBS_get_asn1_int64 = seq (CBS_get_asn1 CBS_ASN1_INTEGER) (\<lambda>bytes.
     let n = cbs_len bytes in
     if n = 0 \<or> n > 8 then fail
     else seq (deref (cbs_data bytes) n) (\<lambda>bs.
       if n > 1 \<and> bs ! 0 = 0 \<and> bs ! 1 AND 0x80 = 0 then fail
       else if n > 1 \<and> bs ! 0 = 0xff \<and> bs ! 1 AND 0x80 \<noteq> 0 then fail
       else let is_negative = (bs ! 0 AND 0x80 \<noteq> 0)
            in ret (le_val (rev bs @ replicate (8 - n) (if is_negative then 0xff else 0)))))"

definition CBS_get_asn1_bool :: "(bool, CBS) act" where
  "CBS_get_asn1_bool = seq (CBS_get_asn1 CBS_ASN1_BOOLEAN) (\<lambda>bytes.
     if cbs_len bytes \<noteq> 1 then fail
     else seq (byte_at (cbs_data bytes) 0) (\<lambda>v.
       if v \<noteq> 0 \<and> v \<noteq> 0xff then fail else ret (v \<noteq> 0)))"

text \<open>\<open>None\<close> stands for an absent element (\<open>*out_present\<close> is 0).\<close>

definition CBS_get_optional_asn1 :: "u32 \<Rightarrow> (CBS option, CBS) act" where
  "CBS_get_optional_asn1 tag = seq (CBS_peek_asn1_tag tag) (\<lambda>present.
     if present then seq (CBS_get_asn1 tag) (\<lambda>out. ret (Some out)) else ret None)"

definition CBS_get_optional_asn1_octet_string :: "u32 \<Rightarrow> (CBS \<times> bool, CBS) act" where
  "CBS_get_optional_asn1_octet_string tag = seq (CBS_get_optional_asn1 tag) (\<lambda>r. case r of
       None \<Rightarrow> ret (CBS_init [] 0, False)
     | Some child \<Rightarrow> seq (on_child child (CBS_get_asn1 CBS_ASN1_OCTETSTRING)) (\<lambda>(out, child').
         if cbs_len child' \<noteq> 0 then fail else ret (out, True)))"

definition CBS_get_optional_asn1_uint64 :: "u32 \<Rightarrow> u64 \<Rightarrow> (u64, CBS) act" where
  "CBS_get_optional_asn1_uint64 tag default_value = seq (CBS_get_optional_asn1 tag) (\<lambda>r. case r of
       None \<Rightarrow> ret default_value
     | Some child \<Rightarrow> seq (on_child child CBS_get_asn1_uint64) (\<lambda>(out, child').
         if cbs_len child' \<noteq> 0 then fail else ret out))"

definition CBS_get_optional_asn1_bool :: "u32 \<Rightarrow> bool \<Rightarrow> (bool, CBS) act" where
  "CBS_get_optional_asn1_bool tag default_value = seq (CBS_get_optional_asn1 tag) (\<lambda>r. case r of
       None \<Rightarrow> ret default_value
     | Some child \<Rightarrow> seq (on_child child (CBS_get_asn1 CBS_ASN1_BOOLEAN)) (\<lambda>(child2, child').
         if cbs_len child2 \<noteq> 1 \<or> cbs_len child' \<noteq> 0 then fail
         else seq (byte_at (cbs_data child2) 0) (\<lambda>boolean.
           if boolean = 0 then ret False
           else if boolean = 0xff then ret True
           else fail)))"

section \<open>Bit strings\<close>

definition CBS_is_valid_asn1_bitstring :: "(unit, CBS) act" where
  "CBS_is_valid_asn1_bitstring = seq (on_copy CBS_get_u8) (\<lambda>(num_unused_bits, cin).
     if num_unused_bits > 7 then fail
     else if num_unused_bits = 0 then ret ()
     else seq (on_child cin CBS_get_last_u8) (\<lambda>(last, _).
       if last AND (push_bit (unat num_unused_bits) 1 - 1) \<noteq> 0 then fail else ret ()))"

definition CBS_asn1_bitstring_has_bit :: "u32 \<Rightarrow> (bool, CBS) act" where
  "CBS_asn1_bitstring_has_bit n = (\<lambda>cbs. case CBS_is_valid_asn1_bitstring cbs of
      (Fail, _) \<Rightarrow> (Ok False, cbs)
    | (Ok _, _) \<Rightarrow>
        (let byte_num = unat (drop_bit 3 n + 1); bit_num = unat (7 - (n AND 7))
         in if byte_num < cbs_len cbs
            then seq (byte_at (cbs_data cbs) byte_num) (\<lambda>b. ret (b AND push_bit bit_num 1 \<noteq> 0)) cbs
            else (Ok False, cbs))
    | (Ub, _) \<Rightarrow> (Ub, cbs)
    | (NoFuel, _) \<Rightarrow> (NoFuel, cbs))"

end
