(* ===== verification/Cbs_Window.thy ===== *)
theory Cbs_Window
  imports Cbs
begin

text \<open>
  The window a reader of cbs.c works on, the results that stay inside it, and the contract of a
  reader that accepts exactly the codes of an encoding.
\<close>

section \<open>Windows\<close>

definition cbs_ok :: "CBS \<Rightarrow> bool" where
  "cbs_ok c \<longleftrightarrow> cbs_len c \<le> length (cbs_data c)"

definition bytes_of :: "CBS \<Rightarrow> byte list" where
  "bytes_of c = take (cbs_len c) (cbs_data c)"

definition window :: "nat \<Rightarrow> nat \<Rightarrow> CBS \<Rightarrow> CBS" where
  "window k n c = \<lparr>cbs_data = drop k (cbs_data c), cbs_len = n\<rparr>"

abbreviation after :: "nat \<Rightarrow> CBS \<Rightarrow> CBS" where
  "after k c \<equiv> window k (cbs_len c - k) c"

definition sub_of :: "CBS \<Rightarrow> CBS \<Rightarrow> bool" where
  "sub_of c' c \<longleftrightarrow> (\<exists>k. cbs_data c' = drop k (cbs_data c) \<and> k + cbs_len c' \<le> cbs_len c)"

lemma sub_of_refl [simp]: "sub_of c c"
  unfolding sub_of_def by (rule exI [of _ 0]) simp

lemma sub_of_trans: "sub_of a b \<Longrightarrow> sub_of b c \<Longrightarrow> sub_of a c"
proof -
  assume "sub_of a b" "sub_of b c"
  then obtain j k where "cbs_data a = drop j (cbs_data b)" "j + cbs_len a \<le> cbs_len b"
    "cbs_data b = drop k (cbs_data c)" "k + cbs_len b \<le> cbs_len c" unfolding sub_of_def by blast
  then show ?thesis unfolding sub_of_def by (intro exI [of _ "j + k"]) (simp add: add.commute)
qed

lemma sub_of_window: "k + n \<le> cbs_len c \<Longrightarrow> sub_of (window k n c) c"
  by (auto simp: sub_of_def window_def)

lemma sub_of_ok: "cbs_ok c \<Longrightarrow> sub_of c' c \<Longrightarrow> cbs_ok c'"
  by (auto simp: sub_of_def cbs_ok_def)

lemma sub_of_len: "sub_of c' c \<Longrightarrow> cbs_len c' \<le> cbs_len c"
  by (auto simp: sub_of_def)

lemma length_bytes_of [simp]: "cbs_ok c \<Longrightarrow> length (bytes_of c) = cbs_len c"
  by (simp add: bytes_of_def cbs_ok_def)

lemma bytes_of_window: "k + n \<le> cbs_len c \<Longrightarrow> bytes_of (window k n c) = take n (drop k (bytes_of c))"
  by (simp add: bytes_of_def window_def drop_take min_absorb1)

text \<open>
  A result is in order when it is true or false, the reader's window has only shrunk, and \<open>Q\<close> holds of
  what was returned.
\<close>

definition in_order :: "CBS \<Rightarrow> ('a \<Rightarrow> CBS \<Rightarrow> bool) \<Rightarrow> 'a outcome \<times> CBS \<Rightarrow> bool" where
  "in_order c Q x \<longleftrightarrow> cbs_ok (snd x) \<and> sub_of (snd x) c \<and> fst x \<noteq> Ub \<and> fst x \<noteq> NoFuel \<and>
     (\<forall>v. fst x = Ok v \<longrightarrow> Q v (snd x))"

lemma in_order_cases:
  assumes "in_order c Q x"
  obtains (Ok) v d where "x = (Ok v, d)" "Q v d" "sub_of d c" "cbs_ok d"
  | (Fail) d where "x = (Fail, d)" "sub_of d c" "cbs_ok d"
  using assms by (cases x; cases "fst x") (auto simp: in_order_def)

lemma in_orderE:
  assumes "in_order c Q (m c')"
  obtains (Ok) v d where "m c' = (Ok v, d)" "Q v d" "sub_of d c" "cbs_ok d"
  | (Fail) d where "m c' = (Fail, d)" "sub_of d c" "cbs_ok d"
  using assms by (rule in_order_cases)

lemma in_order_mono: "in_order c Q x \<Longrightarrow> sub_of c d \<Longrightarrow> (\<And>v c'. Q v c' \<Longrightarrow> R v c') \<Longrightarrow> in_order d R x"
  by (auto simp: in_order_def intro: sub_of_trans)

lemma in_order_seq:
  assumes "in_order c Q (m c')" "\<And>v d. Q v d \<Longrightarrow> sub_of d c \<Longrightarrow> cbs_ok d \<Longrightarrow> in_order c R (f v d)"
  shows "in_order c R (seq m f c')"
  using assms(1)
proof (cases rule: in_orderE)
  case (Ok v d)
  then show ?thesis using assms(2) by (simp add: seq_run)
next
  case (Fail d)
  then show ?thesis by (simp add: seq_run in_order_def)
qed

lemma in_order_basic:
  "cbs_ok d \<Longrightarrow> sub_of d c \<Longrightarrow> Q v d \<Longrightarrow> in_order c Q (ret v d)"
  "cbs_ok d \<Longrightarrow> sub_of d c \<Longrightarrow> in_order c Q (fail d)"
  by (simp_all add: in_order_def act_simps)

lemma in_order_if: "(b \<Longrightarrow> in_order c Q (m d)) \<Longrightarrow> (\<not> b \<Longrightarrow> in_order c Q (k d)) \<Longrightarrow> in_order c Q ((if b then m else k) d)"
  by simp

lemma cbs_get_ok:
  "cbs_ok c \<Longrightarrow> cbs_get n c = (if cbs_len c < n then (Fail, c) else (Ok (cbs_data c), after n c))"
  by (simp add: cbs_get_def cbs_ok_def window_def)

lemma after_facts: "cbs_ok c \<Longrightarrow> n \<le> cbs_len c \<Longrightarrow> cbs_ok (after n c) \<and> sub_of (after n c) c"
  using sub_of_window [of n "cbs_len c - n" c] sub_of_ok by auto

text \<open>A string cut out of a window.\<close>

definition child_of :: "CBS \<Rightarrow> CBS \<Rightarrow> bool" where
  "child_of d c \<longleftrightarrow> sub_of d c \<and> cbs_ok d"

lemma child_of_window: "cbs_ok c \<Longrightarrow> k + n \<le> cbs_len c \<Longrightarrow> child_of (window k n c) c"
  using sub_of_window [of k n c] sub_of_ok [of c] by (simp add: child_of_def)

text \<open>The basic readers on a window in order.\<close>

lemma CBS_get_u8_ok:
  "cbs_ok c \<Longrightarrow> CBS_get_u8 c = (if cbs_len c = 0 then (Fail, c) else (Ok (hd (cbs_data c)), after 1 c))"
  by (cases "cbs_data c") (auto simp: CBS_get_u8_def cbs_get_ok byte_at_def seq_def ret_def cbs_ok_def)

lemma cbs_get_u_ok:
  "cbs_ok c \<Longrightarrow> cbs_get_u n c =
     (if cbs_len c < n then (Fail, c) else (Ok (be_val (take n (cbs_data c))), after n c))"
  by (auto simp: cbs_get_u_def cbs_get_ok deref_def seq_def ret_def cbs_ok_def be_val_def)

lemma CBS_get_bytes_ok:
  "cbs_ok c \<Longrightarrow> CBS_get_bytes n c = (if cbs_len c < n then (Fail, c) else (Ok (window 0 n c), after n c))"
  by (auto simp: CBS_get_bytes_def cbs_get_ok seq_def ret_def CBS_init_def window_def)

lemma after_after: "after m (after n c) = after (n + m) c"
  by (simp add: window_def add.commute)

lemma window_window: "window i n (window k m c) = window (k + i) n c"
  by (simp add: window_def add.commute)

lemma cbs_len_window: "cbs_len (window k n c) = n"
  by (simp add: window_def)

lemma bytes_of_after: "n \<le> cbs_len c \<Longrightarrow> bytes_of (after n c) = drop n (bytes_of c)"
  by (simp add: bytes_of_def window_def drop_take)

lemma bytes_of_append:
  assumes "cbs_ok c" "bytes_of c = as @ bs"
  shows "length as \<le> cbs_len c" "bytes_of (after (length as) c) = bs" "take (length as) (cbs_data c) = as"
    "cbs_ok (after (length as) c)" "cbs_len (after (length as) c) = length bs"
proof -
  have len: "cbs_len c = length as + length bs" using assms length_bytes_of by (metis length_append)
  then show le: "length as \<le> cbs_len c" by simp
  then show "bytes_of (after (length as) c) = bs" using assms(2) by (simp add: bytes_of_after)
  show "take (length as) (cbs_data c) = as"
    using assms(2) le by (metis append_eq_conv_conj bytes_of_def min.absorb1 take_take)
  show "cbs_ok (after (length as) c)" using after_facts [OF assms(1) le] by simp
  show "cbs_len (after (length as) c) = length bs" using len by (simp add: window_def)
qed

lemma window_induct [consumes 1, case_names empty byte]:
  assumes "cbs_ok c"
    and "\<And>c. cbs_ok c \<Longrightarrow> bytes_of c = [] \<Longrightarrow> P c"
    and "\<And>c b rest. cbs_ok c \<Longrightarrow> bytes_of c = b # rest \<Longrightarrow> cbs_ok (after 1 c) \<Longrightarrow> bytes_of (after 1 c) = rest \<Longrightarrow> P (after 1 c) \<Longrightarrow> P c"
  shows "P c"
  using assms(1)
proof (induction "bytes_of c" arbitrary: c)
  case Nil
  then show ?case using assms(2) by simp
next
  case (Cons b rest)
  have "bytes_of c = [b] @ rest" using Cons.hyps(2) by simp
  note at = bytes_of_append [OF Cons.prems this, unfolded list.size add_0 One_nat_def [symmetric]]
  show ?case
    by (rule assms(3) [OF Cons.prems Cons.hyps(2) [symmetric] at(4,2)])
      (rule Cons.hyps(1) [OF at(2) [symmetric] at(4)])
qed

section \<open>Readers of an encoding\<close>

text \<open>
  \<open>view\<close> is what a reader's result stands for, \<open>code\<close> how that is encoded and \<open>valid\<close> what can be encoded.
\<close>

locale exact_reader =
  fixes get :: "('a, CBS) act" and good :: "CBS \<Rightarrow> 'a \<Rightarrow> bool" and view :: "'a \<Rightarrow> 'b"
    and code :: "'b \<Rightarrow> byte list" and valid :: "'b \<Rightarrow> bool"
  assumes ordered: "cbs_ok c \<Longrightarrow> in_order c (\<lambda>v _. good c v) (get c)"
    and accepts: "cbs_ok c \<Longrightarrow> valid x \<Longrightarrow> bytes_of c = code x @ rest \<Longrightarrow>
      \<exists>v. get c = (Ok v, after (length (code x)) c) \<and> view v = x"
    and exact: "cbs_ok c \<Longrightarrow> get c = (Ok v, c') \<Longrightarrow>
      valid (view v) \<and> (\<exists>k. k \<le> cbs_len c \<and> c' = after k c \<and> take k (bytes_of c) = code (view v))"
begin

lemma seq_in_order:
  assumes "cbs_ok c" "\<And>v d. good c v \<Longrightarrow> sub_of d c \<Longrightarrow> cbs_ok d \<Longrightarrow> in_order c R (f v d)"
  shows "in_order c R (seq get f c)"
  by (rule in_order_seq, rule ordered [OF assms(1)], rule assms(2))

lemma seq_in_order_sub:
  assumes "cbs_ok d" "sub_of d c" "\<And>v e. sub_of e c \<Longrightarrow> cbs_ok e \<Longrightarrow> in_order c R (f v e)"
  shows "in_order c R (seq get f d)"
proof (rule in_order_seq)
  show "in_order c (\<lambda>_ _. True) (get d)" by (rule in_order_mono [OF ordered [OF assms(1)] assms(2)]) simp
qed (rule assms(3))

lemma reads:
  assumes "cbs_ok c" "get c = (Ok v, c')"
  shows "bytes_of c = code (view v) @ bytes_of c'" "cbs_ok c'"
proof -
  obtain k where k: "k \<le> cbs_len c" "c' = after k c" "take k (bytes_of c) = code (view v)"
    using exact [OF assms] by blast
  show "bytes_of c = code (view v) @ bytes_of c'"
    using append_take_drop_id [of k "bytes_of c"] by (simp add: k bytes_of_after [OF k(1)])
  show "cbs_ok c'" using after_facts [OF assms(1) k(1)] k(2) by simp
qed

lemma prefix_free:
  assumes "valid x" "valid y" "code x @ r = code y @ s"
  shows "x = y \<and> r = s"
proof -
  define c where "c = CBS_init (code x @ r) (length (code x @ r))"
  have c: "cbs_ok c" "bytes_of c = code x @ r" "bytes_of c = code y @ s"
    using assms(3) by (simp_all add: c_def CBS_init_def cbs_ok_def bytes_of_def)
  obtain v w where "get c = (Ok v, after (length (code x)) c)" "view v = x"
    "get c = (Ok w, after (length (code y)) c)" "view w = y"
    using accepts [OF c(1) assms(1) c(2)] accepts [OF c(1) assms(2) c(3)] by blast
  then show ?thesis using assms(3) by auto
qed

lemma succeeds_iff:
  assumes "cbs_ok c"
  shows "(\<exists>v c'. get c = (Ok v, c')) \<longleftrightarrow> (\<exists>x rest. valid x \<and> bytes_of c = code x @ rest)"
  using accepts [OF assms] exact [OF assms] reads [OF assms] by metis

lemma fails:
  assumes "cbs_ok c" "\<nexists>x rest. valid x \<and> bytes_of c = code x @ rest"
  shows "fst (get c) = Fail"
  using ordered [OF assms(1)] succeeds_iff [OF assms(1)] assms(2)
  by (cases rule: in_orderE [of c _ get c]) auto

lemma reads_iff:
  assumes "cbs_ok c"
  shows "(\<exists>v. get c = (Ok v, c') \<and> view v = x) \<longleftrightarrow>
    valid x \<and> bytes_of c = code x @ bytes_of c' \<and> c' = after (length (code x)) c"
proof
  assume "\<exists>v. get c = (Ok v, c') \<and> view v = x"
  then obtain v where v: "get c = (Ok v, c')" "view v = x" by blast
  obtain k where k: "k \<le> cbs_len c" "c' = after k c" "take k (bytes_of c) = code x" "valid x"
    using exact [OF assms v(1)] v(2) by blast
  then have "length (code x) = k" using assms by (metis length_bytes_of length_take min.absorb2)
  then show "valid x \<and> bytes_of c = code x @ bytes_of c' \<and> c' = after (length (code x)) c"
    using k(2,4) reads(1) [OF assms v(1)] v(2) by simp
next
  assume "valid x \<and> bytes_of c = code x @ bytes_of c' \<and> c' = after (length (code x)) c"
  then show "\<exists>v. get c = (Ok v, c') \<and> view v = x" using accepts [OF assms] by metis
qed

text \<open>A reader whose result is checked and converted reads the composed encoding.\<close>

lemma mapped:
  assumes step: "\<And>c v d. cbs_ok c \<Longrightarrow> good c v \<Longrightarrow> valid (view v) \<Longrightarrow> (case dec (view v) of
      None \<Rightarrow> f v d = (Fail, d) | Some x \<Rightarrow> \<exists>w. f v d = (Ok w, d) \<and> good' c w \<and> view' w = x)"
    and dec: "\<And>y x. valid y \<and> dec y = Some x \<longleftrightarrow> valid' x \<and> y = enc x"
  shows "exact_reader (seq get f) good' view' (code \<circ> enc) valid'"
proof
  fix c
  assume c: "cbs_ok c"
  have step_at: "case dec (view v) of None \<Rightarrow> f v d = (Fail, d) | Some x \<Rightarrow> \<exists>w. f v d = (Ok w, d) \<and> good' c w \<and> view' w = x"
    if "get c = (Ok v, c')" for v c' d
    using step [OF c, of v d] exact [OF c that] ordered [OF c] that by (simp add: in_order_def)
  show "in_order c (\<lambda>v _. good' c v) (seq get f c)"
    using ordered [OF c]
  proof (cases rule: in_orderE)
    case (Ok v d)
    then show ?thesis
      using step_at [OF Ok(1), of d] by (cases "dec (view v)") (auto simp: seq_run in_order_def)
  qed (simp add: seq_run in_order_def)
  show "\<exists>w. seq get f c = (Ok w, after (length ((code \<circ> enc) x)) c) \<and> view' w = x"
    if x: "valid' x" "bytes_of c = (code \<circ> enc) x @ rest" for x rest
  proof -
    have e: "valid (enc x)" "dec (enc x) = Some x" using dec [of "enc x" x] x(1) by simp_all
    obtain v where v: "get c = (Ok v, after (length (code (enc x))) c)" "view v = enc x"
      using accepts [OF c e(1)] x(2) by auto
    then show ?thesis using step_at [OF v(1), of "after (length (code (enc x))) c"] e(2) by (auto simp: seq_run)
  qed
  show "valid' (view' w) \<and> (\<exists>k. k \<le> cbs_len c \<and> c' = after k c \<and> take k (bytes_of c) = (code \<circ> enc) (view' w))"
    if w: "seq get f c = (Ok w, c')" for w c'
    using w
  proof (rule seq_OkE)
    fix v d
    assume v: "get c = (Ok v, d)" "f v d = (Ok w, c')"
    then obtain x where x: "dec (view v) = Some x" "c' = d" "view' w = x"
      using step_at [OF v(1), of d] by (auto split: option.splits)
    then show ?thesis using exact [OF c v(1)] dec [of "view v" x] by auto
  qed
qed

end

end
