(* ===== verification/Numbers.thy ===== *)
theory Numbers
  imports Prelude
begin

text \<open>
  Words of different width, and numbers as big-endian byte strings with and without leading zeros.
\<close>

section \<open>Widths\<close>

lemma unat_widen:
  assumes "LENGTH('a::len) \<le> LENGTH('b::len)"
  shows "unat (ucast (w :: 'a word) :: 'b word) = unat w"
proof -
  have "unat w < 2 ^ LENGTH('b)"
    using assms by (rule less_le_trans [OF unat_less power_increasing]) simp
  then show ?thesis by (simp add: unsigned_ucast_eq unsigned_take_bit_eq take_bit_nat_eq_self)
qed

lemma narrow_widen: "LENGTH('a::len) \<le> LENGTH('b::len) \<Longrightarrow> ucast (ucast (w :: 'a word) :: 'b word) = w"
  by (rule bit_word_eqI) (auto simp: bit_simps dest: order.strict_trans2)

section \<open>Big-endian numbers\<close>

definition nat_be :: "byte list \<Rightarrow> nat" where
  "nat_be bs = foldl (\<lambda>n b. n * 256 + unat b) 0 bs"

fun min_be :: "nat \<Rightarrow> byte list" where
  "min_be n = (if n = 0 then [] else min_be (n div 256) @ [of_nat n])"

declare min_be.simps [simp del]

lemma nat_be_snoc [simp]: "nat_be (bs @ [b]) = nat_be bs * 256 + unat b"
  by (simp add: nat_be_def)

lemma nat_be_Nil [simp]: "nat_be [] = 0"
  by (simp add: nat_be_def)

lemma min_be_0 [simp]: "min_be 0 = []"
  by (simp add: min_be.simps)

lemma unat_byte: "unat (b :: byte) < 256"
  using unat_less [of b] by simp

lemma nat_be_bound: "nat_be bs < 256 ^ length bs"
proof (induction bs rule: rev_induct)
  case (snoc b bs)
  have "nat_be bs * 256 + unat b < (nat_be bs + 1) * 256" using unat_byte [of b] by simp
  also have "\<dots> \<le> 256 ^ length bs * 256" using snoc by (intro mult_right_mono) simp_all
  finally show ?case by simp
qed simp

lemma nat_be_min_be [simp]: "nat_be (min_be n) = n"
proof (induction n rule: min_be.induct)
  case (1 n)
  then show ?case by (cases "n = 0") (simp_all add: min_be.simps [of n] unat_of_nat mod_mult_div_eq mult.commute)
qed

lemma nat_be_Cons: "nat_be (b # bs) = unat b * 256 ^ length bs + nat_be bs"
proof (induction bs rule: rev_induct)
  case Nil
  show ?case using nat_be_snoc [of "[]" b] by simp
next
  case (snoc x xs)
  then show ?case using nat_be_snoc [of "b # xs" x] by (simp add: algebra_simps)
qed

lemma nat_be_head: "b \<noteq> 0 \<longleftrightarrow> 256 ^ length bs \<le> nat_be (b # bs)"
proof (cases "b = 0")
  case False
  then have "1 \<le> unat b" using unat_gt_0 [of b] by simp
  then have "1 * 256 ^ length bs \<le> unat b * 256 ^ length bs" by (rule mult_right_mono) simp
  then show ?thesis using False unfolding nat_be_Cons by linarith
qed (use nat_be_bound [of bs] in \<open>simp add: nat_be_Cons\<close>)

lemma nat_be_pos: "bs \<noteq> [] \<Longrightarrow> hd bs \<noteq> 0 \<Longrightarrow> 0 < nat_be bs"
  using nat_be_head [of "hd bs" "tl bs"] by (cases bs) (auto intro: less_le_trans [of 0 "256 ^ length (tl bs)"])

lemma byte_of_low: "of_nat (n * 256 + unat b) = (b :: byte)"
  using unat_byte [of b] by (simp add: word_unat_eq_iff unat_of_nat del: of_nat_add of_nat_mult)

lemma min_be_nat_be: "bs = [] \<or> hd bs \<noteq> 0 \<Longrightarrow> min_be (nat_be bs) = bs"
proof (induction bs rule: rev_induct)
  case (snoc b bs)
  have "nat_be (bs @ [b]) \<noteq> 0" using snoc.prems nat_be_pos [of "bs @ [b]"] by simp
  moreover have "min_be (nat_be bs) = bs" using snoc by (cases bs) auto
  ultimately show ?case
    using unat_byte [of b] by (simp add: min_be.simps [of "nat_be bs * 256 + unat b"] byte_of_low del: of_nat_add of_nat_mult)
qed simp

lemma length_min_be: "length (min_be n) \<le> k \<longleftrightarrow> n < 256 ^ k"
proof (induction n arbitrary: k rule: min_be.induct)
  case (1 n)
  show ?case
  proof (cases "n = 0")
    case False
    then show ?thesis
      using 1 [OF False] by (cases k) (simp_all add: min_be.simps [of n] div_less_iff_less_mult mult.commute)
  qed simp
qed

lemma hd_min_be: "n \<noteq> 0 \<Longrightarrow> min_be n \<noteq> [] \<and> hd (min_be n) \<noteq> 0"
proof (induction n rule: min_be.induct)
  case (1 n)
  show ?case
  proof (cases "n div 256 = 0")
    case True
    then have "of_nat n \<noteq> (0 :: byte)" using 1(2) by (simp add: word_unat_eq_iff unat_of_nat div_eq_0_iff)
    then show ?thesis using 1(2) True by (simp add: min_be.simps [of n])
  next
    case False
    then show ?thesis using 1 by (simp add: min_be.simps [of n])
  qed
qed

lemma shift_in: "push_bit 8 w OR ucast b = push_bit 8 w + ucast (b :: byte)" for w :: u64
  by (rule disjunctive_add_eq_or [symmetric], rule bit_word_eqI) (auto simp: bit_simps dest: bit_imp_le_length)

lemma shift_in_of_nat: "push_bit 8 (of_nat n) OR ucast (b :: byte) = (of_nat (n * 256 + unat b) :: u64)"
proof -
  have "ucast b = (of_nat (unat b) :: u64)" by simp
  then show ?thesis unfolding shift_in by (simp add: push_bit_eq_mult mult.commute del: of_nat_unat)
qed

lemma unat_be_val: "length bs \<le> 8 \<Longrightarrow> unat (be_val bs :: u64) = nat_be bs"
proof (induction bs rule: rev_induct)
  case (snoc b bs)
  have v: "unat (be_val bs :: u64) = nat_be bs" using snoc by simp
  have "nat_be bs < 256 ^ 7"
    using snoc.prems by (intro less_le_trans [OF nat_be_bound power_increasing]) simp_all
  then show ?case
    using unat_byte [of b]
    unfolding be_val_snoc shift_in by (simp add: unat_word_ariths push_bit_eq_mult v unat_widen)
qed simp

lemma nat_be_be_bytes:
  assumes "unat (w :: u64) < 256 ^ k" "k \<le> 8"
  shows "nat_be (be_bytes k w) = unat w"
proof -
  have "unat w < 2 ^ (8 * k)" using assms(1) by (simp add: power_mult)
  then have "be_val (be_bytes k w) = w" by (simp add: be_val_be_bytes take_bit_unat_self)
  then show ?thesis using unat_be_val [of "be_bytes k w"] assms(2) by simp
qed

lemma be_bytes_nat_be:
  assumes "length bs \<le> 8"
  shows "be_bytes (length bs) (of_nat (nat_be bs) :: u64) = bs"
proof -
  have "(of_nat (nat_be bs) :: u64) = be_val bs" by (simp flip: unat_be_val [OF assms])
  then show ?thesis using be_bytes_be_val [of bs, where 'a = 64] assms by simp
qed

end
