(* ===== verification/Cbs_Der.thy ===== *)
theory Cbs_Der
  imports Cbs_Window Numbers
begin

text \<open>
  What the reader of cbs.c accepts: the readers of base-128 integers, tags, DER elements and
  length-prefixed strings accept exactly the codes of an explicit encoding and return what was encoded.
\<close>

section \<open>Base-128 integers\<close>

lemma base128_step:
  assumes "cbs_ok c"
  shows "bytes_of c = [] \<Longrightarrow> base128_loop v c = (Fail, c)"
    "bytes_of c = b # rest \<Longrightarrow> base128_loop v c =
      (if drop_bit 57 v \<noteq> 0 \<or> v = 0 \<and> b = 0x80 then (Fail, after 1 c)
       else if b AND 0x80 \<noteq> 0 then base128_loop (push_bit 7 v OR ucast (b AND 0x7f)) (after 1 c)
       else (Ok (push_bit 7 v OR ucast (b AND 0x7f)), after 1 c))"
proof -
  have len: "cbs_len c = length (bytes_of c)" using assms by simp
  show "bytes_of c = [] \<Longrightarrow> base128_loop v c = (Fail, c)"
    using len by (simp add: base128_loop.simps [of v c] CBS_get_u8_ok assms)
  assume bs: "bytes_of c = b # rest"
  then have nz: "cbs_len c = Suc (length rest)" using len by simp
  then have "hd (cbs_data c) = b"
    using bs by (cases "cbs_data c") (simp_all add: bytes_of_def)
  then show "base128_loop v c =
      (if drop_bit 57 v \<noteq> 0 \<or> v = 0 \<and> b = 0x80 then (Fail, after 1 c)
       else if b AND 0x80 \<noteq> 0 then base128_loop (push_bit 7 v OR ucast (b AND 0x7f)) (after 1 c)
       else (Ok (push_bit 7 v OR ucast (b AND 0x7f)), after 1 c))"
    by (auto simp: base128_loop.simps [of v c] CBS_get_u8_ok assms Let_def nz)
qed

lemma base128_loop_in_order:
  assumes "cbs_ok c"
  shows "in_order c (\<lambda>_ _. True) (base128_loop v c)"
  using assms
proof (induction arbitrary: v rule: window_induct)
  case (byte c b rest)
  have sub: "sub_of (after 1 c) c" using after_facts [OF byte.hyps(1), of 1] byte.hyps(1,2) by (metis length_bytes_of length_Cons le_add1 plus_1_eq_Suc)
  have rec: "in_order c (\<lambda>_ _. True) (base128_loop w (after (Suc 0) c))" for w
    by (fold One_nat_def, rule in_order_mono [OF byte.IH sub])
  have stop: "in_order c (\<lambda>_ _. True) (r, after (Suc 0) c)" if "r \<noteq> Ub" "r \<noteq> NoFuel" for r :: "u64 outcome"
    using byte.hyps(3) sub that unfolding in_order_def One_nat_def by simp
  show ?case unfolding base128_step(2) [OF byte.hyps(1,2)] by (auto intro!: rec stop)
qed (simp_all add: base128_step in_order_def)

function b128_high :: "u64 \<Rightarrow> byte list" where
  "b128_high v = (if v = 0 then [] else b128_high (drop_bit 7 v) @ [ucast (v AND 0x7F) OR 0x80])"
  by pat_completeness auto
termination
proof (relation "measure unat")
  fix v :: u64
  assume "v \<noteq> 0"
  then show "(drop_bit 7 v, v) \<in> measure unat" using unat_drop_bit_less [of v 7] by simp
qed simp

declare b128_high.simps [simp del]

definition base128 :: "u64 \<Rightarrow> byte list" where
  "base128 v = b128_high (drop_bit 7 v) @ [ucast (v AND 0x7F)]"

lemma high_group:
  assumes "b AND 0x80 \<noteq> (0 :: byte)"
  shows "b AND 0x7F OR 0x80 = b"
proof -
  have "bit b 7" using assms and_exp_eq_0_iff_not_bit [of b 7] by simp
  then show ?thesis
    by (intro bit_word_eqI) (auto simp: bit_simps less_Suc_eq numeral_eq_Suc)
qed

lemma low_group:
  assumes "b AND 0x80 = (0 :: byte)"
  shows "b AND 0x7F = b"
proof -
  have "\<not> bit b 7" using assms and_exp_eq_0_iff_not_bit [of b 7] by simp
  then show ?thesis
    by (intro bit_word_eqI) (auto simp: bit_simps less_Suc_eq numeral_eq_Suc)
qed

lemma b128_snoc:
  assumes "drop_bit 57 v = 0" "\<not> (v = 0 \<and> b = 0x80)"
  shows "b AND 0x80 \<noteq> 0 \<Longrightarrow> b128_high (push_bit 7 v OR ucast (b AND 0x7F)) = b128_high v @ [b]"
    "b AND 0x80 = 0 \<Longrightarrow> base128 (push_bit 7 v OR ucast (b AND 0x7F)) = b128_high v @ [b]"
proof -
  note split = split_high57 [OF assms(1), of b]
  show "base128 (push_bit 7 v OR ucast (b AND 0x7F)) = b128_high v @ [b]" if "b AND 0x80 = 0"
    unfolding base128_def split(1,2) by (simp add: low_group [OF that])
  show "b128_high (push_bit 7 v OR ucast (b AND 0x7F)) = b128_high v @ [b]" if h: "b AND 0x80 \<noteq> 0"
  proof -
    have "\<not> (v = 0 \<and> b AND 0x7F = 0)" using assms(2) high_group [OF h] by auto
    then have "push_bit 7 v OR ucast (b AND 0x7F) \<noteq> 0" using split(3) by blast
    then show ?thesis
      unfolding b128_high.simps [of "push_bit 7 v OR ucast (b AND 0x7F)"] split(1,2) high_group [OF h] by (rule if_not_P)
  qed
qed

lemma base128_loop_exact:
  assumes "cbs_ok c" "base128_loop v c = (Ok w, c')"
  shows "\<exists>k. k \<le> cbs_len c \<and> c' = after k c \<and> b128_high v @ take k (bytes_of c) = base128 w"
  using assms
proof (induction arbitrary: v rule: window_induct)
  case (empty c)
  then show ?case by (simp add: base128_step)
next
  case (byte c b rest)
  have one: "1 \<le> cbs_len c" using byte.hyps(1,2) by (metis length_bytes_of length_Cons le_add1 plus_1_eq_Suc)
  have ok: "drop_bit 57 v = 0" "\<not> (v = 0 \<and> b = 0x80)"
    using byte.prems unfolding base128_step(2) [OF byte.hyps(1,2)] by (metis outcome.distinct(1) prod.inject, metis outcome.distinct(1) prod.inject)
  show ?case
  proof (cases "b AND 0x80 = 0")
    case True
    then have w: "w = push_bit 7 v OR ucast (b AND 0x7f)" "c' = after 1 c"
      using byte.prems ok by (auto simp: base128_step(2) [OF byte.hyps(1,2)])
    show ?thesis using one b128_snoc(2) [OF ok True] by (intro exI [of _ 1]) (simp add: w byte.hyps(2))
  next
    case False
    then have "base128_loop (push_bit 7 v OR ucast (b AND 0x7f)) (after 1 c) = (Ok w, c')"
      using byte.prems ok by (auto simp: base128_step(2) [OF byte.hyps(1,2)])
    from byte.IH [OF this] obtain k where k: "k \<le> cbs_len (after 1 c)" "c' = after k (after 1 c)"
      "b128_high (push_bit 7 v OR ucast (b AND 0x7f)) @ take k (bytes_of (after 1 c)) = base128 w" by blast
    then show ?thesis
      using one b128_snoc(1) [OF ok False] byte.hyps(2,4)
      by (intro exI [of _ "Suc k"]) (simp add: after_after, simp add: window_def)
  qed
qed

lemma base128_loop_high:
  assumes "cbs_ok c" "bytes_of c = b128_high w @ rest"
  shows "base128_loop 0 c = base128_loop w (after (length (b128_high w)) c)"
  using assms(2)
proof (induction w arbitrary: rest rule: b128_high.induct)
  case (1 w)
  show ?case
  proof (cases "w = 0")
    case True
    moreover have "window 0 (cbs_len c) c = c" by (simp add: window_def)
    ultimately show ?thesis by (simp add: b128_high.simps [of 0])
  next
    case False
    let ?w = "drop_bit 7 w" and ?b = "ucast (w AND 0x7F) OR 0x80 :: byte"
    have hi: "b128_high w = b128_high ?w @ [?b]" using False by (simp add: b128_high.simps [of w])
    let ?n = "length (b128_high ?w)"
    from "1.prems" have bs: "bytes_of c = b128_high ?w @ (?b # rest)" by (simp add: hi)
    note IH = "1.IH" [OF False bs]
    note at = bytes_of_append [OF assms(1) bs]
    have fits: "drop_bit 57 ?w = 0"
      by (rule bit_word_eqI) (simp add: bit_simps)
    have "\<not> (?w = 0 \<and> ?b = 0x80)"
    proof
      assume h: "?w = 0 \<and> ?b = 0x80"
      then have "w AND 0x7F = 0" using code_byte_bits(4) [of w] by simp
      then show False using split_low7 [of w] h False by simp
    qed
    with fits have go: "\<not> (drop_bit 57 ?w \<noteq> 0 \<or> ?w = 0 \<and> ?b = 0x80)" by blast
    have whole: "push_bit 7 ?w OR ucast (?b AND 0x7F) = w"
      unfolding code_byte_bits(2) using split_low7 [of w] by (simp only: or.commute)
    have "base128_loop ?w (after ?n c) = base128_loop w (after 1 (after ?n c))"
      unfolding base128_step(2) [OF at(4,2), of ?w] if_not_P [OF go] if_P [OF code_byte_bits(1)] whole ..
    then show ?thesis using IH by (simp add: hi after_after)
  qed
qed

lemma base128_accepts:
  assumes "cbs_ok c" "bytes_of c = base128 w @ rest"
  shows "parse_base128_integer c = (Ok w, after (length (base128 w)) c)"
proof -
  let ?w = "drop_bit 7 w" and ?b = "ucast (w AND 0x7F) :: byte"
  have bs: "bytes_of c = b128_high ?w @ (?b # rest)" using assms(2) by (simp add: base128_def)
  note at = bytes_of_append [OF assms(1) bs]
  have b: "?b AND 0x80 = 0" "?b AND 0x7F = ?b" "ucast ?b = w AND 0x7F" "?b \<noteq> 0x80"
  proof -
    show "?b AND 0x80 = 0" by (rule bit_word_eqI) (auto simp: bit_simps)
    then show "?b \<noteq> 0x80" by auto
    show "?b AND 0x7F = ?b" "ucast ?b = w AND 0x7F" by (rule bit_word_eqI, auto simp: bit_simps)+
  qed
  have "drop_bit 57 ?w = 0" by (rule bit_word_eqI) (simp add: bit_simps)
  then show ?thesis
    using split_low7 [of w]
    by (simp add: parse_base128_integer_def base128_loop_high [OF assms(1) bs] base128_step(2) [OF at(4,2)] b
        after_after base128_def or.commute)
qed

interpretation base128: exact_reader parse_base128_integer "\<lambda>_ _. True" id base128 "\<lambda>_. True"
proof
  show "cbs_ok c \<Longrightarrow> in_order c (\<lambda>_ _. True) (parse_base128_integer c)" for c
    unfolding parse_base128_integer_def by (rule base128_loop_in_order)
  show "\<exists>v. parse_base128_integer c = (Ok v, after (length (base128 x)) c) \<and> id v = x"
    if "cbs_ok c" "bytes_of c = base128 x @ rest" for c x rest
    using base128_accepts [OF that] by simp
  show "True \<and> (\<exists>k. k \<le> cbs_len c \<and> c' = after k c \<and> take k (bytes_of c) = base128 (id v))"
    if "cbs_ok c" "parse_base128_integer c = (Ok v, c')" for c v c'
    using base128_loop_exact [OF that(1), of 0] that(2)
    by (simp add: parse_base128_integer_def b128_high.simps [of 0])
qed

section \<open>Tags\<close>

definition tag_bits :: "u32 \<Rightarrow> byte" where
  "tag_bits t = ucast (drop_bit 24 t) AND 0xE0"

definition der_tag :: "u32 \<Rightarrow> byte list" where
  "der_tag t = (let n = t AND CBS_ASN1_TAG_NUMBER_MASK
     in if n < 0x1F then [tag_bits t OR ucast n] else (tag_bits t OR 0x1F) # base128 (ucast n))"

abbreviation tag_word :: "byte \<Rightarrow> u32 \<Rightarrow> u32" where
  "tag_word b w \<equiv> push_bit 24 (ucast b AND 0xE0) OR w"

lemma tag_mask_bits [bit_simps]:
  "bit (0x1FFFFFFF :: int) n \<longleftrightarrow> n < 29" "bit (0xE0000000 :: int) n \<longleftrightarrow> 29 \<le> n \<and> n < 32"
  using bit_low_mask [of 29 n] bit_shifted_mask [of 29 3 n] by simp_all

lemma tag_word_parts:
  assumes "unat w < 2 ^ 29"
  shows "tag_word b w AND CBS_ASN1_TAG_NUMBER_MASK = w" "tag_bits (tag_word b w) = b AND 0xE0"
proof -
  note low = bit_lt_of_unat [OF assms]
  show "tag_word b w AND CBS_ASN1_TAG_NUMBER_MASK = w"
    by (rule bit_word_eqI) (auto simp: bit_simps dest: low)
  show "tag_bits (tag_word b w) = b AND 0xE0"
    by (rule bit_word_eqI) (auto simp: tag_bits_def bit_simps dest: low)
qed

lemma tag_word_whole: "tag_word (tag_bits t OR b AND 0x1F) (t AND CBS_ASN1_TAG_NUMBER_MASK) = t"
proof (rule bit_word_eqI)
  fix n
  assume n: "n < LENGTH(32)"
  show "bit (tag_word (tag_bits t OR b AND 0x1F) (t AND CBS_ASN1_TAG_NUMBER_MASK)) n = bit t n"
    using n by (cases "n < 29") (auto simp: tag_bits_def bit_simps)
qed

lemma tag_byte_parts: "(tag_bits t OR b AND 0x1F) AND 0x1F = b AND 0x1F"
  by (rule bit_word_eqI) (auto simp: tag_bits_def bit_simps)

lemma number_mask_small: "unat (w AND CBS_ASN1_TAG_NUMBER_MASK) < 2 ^ 29"
  by (rule unat_lt_of_bits) (auto simp: bit_simps)

lemma small_tag_number:
  fixes w :: u32
  assumes "w < 0x1F"
  shows "ucast (ucast w AND 0x1F :: byte) = w" "ucast w AND 0x1F = (ucast w :: byte)"
proof -
  have low: "n < 5" "n < 8" if "bit w n" for n
    using assms bit_lt_of_unat [of w 5 n] that by (auto simp: word_less_nat_alt)
  show "ucast (ucast w AND 0x1F :: byte) = w" "ucast w AND 0x1F = (ucast w :: byte)"
    by (rule bit_word_eqI, use low in \<open>auto simp: bit_simps\<close>)+
qed

lemma low5: "(ucast (b :: byte) AND 0x1F :: u32) = ucast (b AND 0x1F)" "b AND 0xE0 OR b AND 0x1F = b"
proof -
  show "b AND 0xE0 OR b AND 0x1F = b"
    by (rule bit_word_eqI) (auto simp: bit_simps)
qed (simp add: unsigned_and_eq)

lemma low5_full: "(ucast (b :: byte) AND 0x1F :: u32) = 0x1F \<longleftrightarrow> b AND 0x1F = 0x1F"
  unfolding low5(1) by (simp add: word_unat_eq_iff unat_widen)

lemma low5_small:
  assumes "b AND 0x1F \<noteq> (0x1F :: byte)"
  shows "(ucast (b AND 0x1F) :: u32) < 0x1F"
proof -
  have "unat (b AND 0x1F) < 2 ^ 5" by (rule unat_lt_of_bits) (auto simp: bit_simps)
  moreover have "unat (b AND 0x1F) \<noteq> 31" using assms by (simp add: word_unat_eq_iff)
  ultimately show ?thesis by (simp add: word_less_nat_alt unat_widen)
qed

lemma small_number:
  fixes v :: u64
  assumes "\<not> (v > ucast CBS_ASN1_TAG_NUMBER_MASK \<or> v < 0x1F)"
  shows "unat (ucast v :: u32) < 2 ^ 29" "ucast (ucast v :: u32) = v" "\<not> (ucast v :: u32) < 0x1F"
proof -
  have v: "unat v < 2 ^ 29" "\<not> unat v < 0x1F" using assms by (auto simp: word_less_nat_alt not_less)
  then have u: "unat (ucast v :: u32) = unat v"
    by (simp add: unsigned_ucast_eq unsigned_take_bit_eq take_bit_nat_eq_self)
  then show "unat (ucast v :: u32) < 2 ^ 29" "\<not> (ucast v :: u32) < 0x1F" using v by (simp_all add: word_less_nat_alt)
  show "ucast (ucast v :: u32) = v" using u by (simp add: word_unat_eq_iff unat_widen)
qed

lemma CBS_get_u8_cons:
  assumes "cbs_ok c" "bytes_of c = b # rest"
  shows "CBS_get_u8 c = (Ok b, after 1 c)" "cbs_ok (after 1 c)" "bytes_of (after 1 c) = rest"
    "cbs_len c = Suc (length rest)"
proof -
  have "bytes_of c = [b] @ rest" using assms(2) by simp
  note at = bytes_of_append [OF assms(1) this, unfolded list.size add_0 One_nat_def [symmetric]]
  show len: "cbs_len c = Suc (length rest)" using assms by (metis length_bytes_of length_Cons)
  have "hd (cbs_data c) = b" using assms(2) len by (cases "cbs_data c") (simp_all add: bytes_of_def)
  then show "CBS_get_u8 c = (Ok b, after 1 c)" using len by (simp add: CBS_get_u8_ok [OF assms(1)])
  show "cbs_ok (after 1 c)" "bytes_of (after 1 c) = rest" using at by simp_all
qed

lemma CBS_get_u8_in_order: "cbs_ok c \<Longrightarrow> in_order c (\<lambda>_ _. True) (CBS_get_u8 c)"
  using after_facts [of c 1] by (simp add: CBS_get_u8_ok in_order_def)

lemma parse_asn1_tag_cons:
  assumes "cbs_ok c" "bytes_of c = b # rest"
  shows "parse_asn1_tag c =
    (if ucast b AND 0x1F = (0x1F :: u32)
     then seq parse_base128_integer (\<lambda>v. if v > ucast CBS_ASN1_TAG_NUMBER_MASK \<or> v < 0x1F then fail
       else ret (tag_word b (ucast v))) (after 1 c)
     else (Ok (tag_word b (ucast b AND 0x1F)), after 1 c))"
  using CBS_get_u8_cons(1) [OF assms] by (simp add: parse_asn1_tag_def seq_def [of CBS_get_u8] Let_def act_run del: push_bit_and)

lemma parse_asn1_tag_in_order:
  assumes "cbs_ok c"
  shows "in_order c (\<lambda>_ _. True) (parse_asn1_tag c)"
  unfolding parse_asn1_tag_def
proof (rule in_order_seq)
  show "in_order c (\<lambda>_ _. True) (CBS_get_u8 c)" by (rule CBS_get_u8_in_order [OF assms])
  fix b :: byte and d
  assume d: "sub_of d c" "cbs_ok d"
  show "in_order c (\<lambda>_ _. True) ((let tag = push_bit CBS_ASN1_TAG_SHIFT (ucast b AND 0xe0) :: u32;
         tag_number = ucast b AND 0x1f :: u32
     in if tag_number = 0x1f then
          seq parse_base128_integer (\<lambda>v.
            if v > ucast CBS_ASN1_TAG_NUMBER_MASK \<or> v < 0x1f then fail
            else ret (tag OR ucast v))
        else ret (tag OR tag_number)) d)"
    using d by (auto simp: Let_def intro!: base128.seq_in_order_sub in_order_basic)
qed

lemma parse_asn1_tag_accepts:
  assumes "cbs_ok c" "bytes_of c = der_tag t @ rest"
  shows "parse_asn1_tag c = (Ok t, after (length (der_tag t)) c)"
proof (cases "t AND CBS_ASN1_TAG_NUMBER_MASK < 0x1F")
  case True
  let ?n = "t AND CBS_ASN1_TAG_NUMBER_MASK" and ?b = "tag_bits t OR ucast (t AND CBS_ASN1_TAG_NUMBER_MASK)"
  have code: "der_tag t = [?b]" using True by (simp only: der_tag_def Let_def if_True)
  have b: "?b = tag_bits t OR ucast ?n AND 0x1F" by (simp only: small_tag_number [OF True])
  have "(ucast ?b AND 0x1F :: u32) = ucast (?b AND 0x1F)" by (simp add: unsigned_and_eq)
  also have "\<dots> = ?n" unfolding b tag_byte_parts by (rule small_tag_number [OF True])
  finally have number: "ucast ?b AND 0x1F = ?n" .
  have short: "?n \<noteq> 0x1F" using True by auto
  have "parse_asn1_tag c = (Ok (tag_word ?b ?n), after 1 c)"
    unfolding parse_asn1_tag_cons [OF assms(1) assms(2) [unfolded code append_Cons]] number
    by (simp only: short if_False)
  then show ?thesis using tag_word_whole [of t "ucast ?n", folded b] by (simp only: code list.size) simp
next
  case False
  let ?n = "t AND CBS_ASN1_TAG_NUMBER_MASK" and ?b = "tag_bits t OR 0x1F"
  have code: "der_tag t = ?b # base128 (ucast ?n)" using False by (simp only: der_tag_def Let_def if_False)
  have bs: "bytes_of c = ?b # (base128 (ucast ?n) @ rest)" using assms(2) code by simp
  note at = CBS_get_u8_cons [OF assms(1) bs]
  have long: "ucast ?b AND 0x1F = (0x1F :: u32)"
    by (rule bit_word_eqI) (auto simp: tag_bits_def bit_simps)
  have number: "\<not> (ucast ?n > (ucast CBS_ASN1_TAG_NUMBER_MASK :: u64) \<or> ucast ?n < (0x1F :: u64))"
    using False number_mask_small [of t] by (auto simp: word_less_nat_alt unat_widen)
  have "parse_asn1_tag c = (Ok (tag_word ?b ?n), after (length (base128 (ucast ?n))) (after 1 c))"
    unfolding parse_asn1_tag_cons [OF assms(1) bs] if_P [OF long]
      seq_def [of parse_base128_integer] base128_accepts [OF at(2,3)] outcome.case prod.case if_not_P [OF number]
    by (simp add: act_run narrow_widen del: push_bit_and)
  moreover have "tag_word ?b ?n = t"
    using tag_word_whole [of t "0x1F"] by (simp only: and.idem)
  ultimately show ?thesis by (simp add: code after_after del: push_bit_and)
qed

lemma parse_asn1_tag_exact:
  assumes "cbs_ok c" "parse_asn1_tag c = (Ok t, c')"
  shows "\<exists>k. k \<le> cbs_len c \<and> c' = after k c \<and> take k (bytes_of c) = der_tag t"
proof (cases "bytes_of c")
  case Nil
  then have "cbs_len c = 0" using assms(1) by (metis length_bytes_of list.size(3))
  then have "parse_asn1_tag c = (Fail, c)" by (simp add: parse_asn1_tag_def seq_def CBS_get_u8_ok [OF assms(1)])
  then show ?thesis using assms(2) by simp
next
  case bs: (Cons b rest)
  note at = CBS_get_u8_cons [OF assms(1) bs]
  note run = assms(2) [unfolded parse_asn1_tag_cons [OF assms(1) bs]]
  show ?thesis
  proof (cases "ucast b AND 0x1F = (0x1F :: u32)")
    case True
    obtain v d where v: "parse_base128_integer (after 1 c) = (Ok v, d)"
      "(if v > ucast CBS_ASN1_TAG_NUMBER_MASK \<or> v < 0x1f then fail else ret (tag_word b (ucast v))) d = (Ok t, c')"
      using run [unfolded if_P [OF True]] by (rule seq_OkE)
    have number: "\<not> (v > ucast CBS_ASN1_TAG_NUMBER_MASK \<or> v < 0x1f)"
      using v(2) by (auto simp: act_run)
    note small = small_number [OF number]
    have t: "t = tag_word b (ucast v)" "d = c'"
      using v(2) [unfolded if_not_P [OF number]] by (simp_all add: act_run)
    note parts = tag_word_parts [OF small(1), of b, folded t(1)]
    have "b AND 0xE0 OR 0x1F = b"
      using True low5(2) [of b] unfolding low5_full by simp
    then have code: "der_tag t = b # base128 v"
      using small by (simp only: der_tag_def parts Let_def if_False)
    obtain k where "k \<le> cbs_len (after 1 c)" "d = after k (after 1 c)" "take k (bytes_of (after 1 c)) = base128 (id v)"
      using base128.exact [OF at(2) v(1)] by blast
    then show ?thesis
      using at(3,4) by (intro exI [of _ "Suc k"]) (simp add: code bs t(2) after_after, simp add: window_def)
  next
    case False
    then have t: "t = tag_word b (ucast b AND 0x1F)" "c' = after 1 c" using run by (simp_all del: push_bit_and)
    have "unat (ucast b AND 0x1F :: u32) < 2 ^ 29"
      by (rule unat_lt_of_bits) (auto simp: bit_simps)
    note parts = tag_word_parts [OF this, of b, folded t(1)]
    have "der_tag t = [b]"
      unfolding der_tag_def parts Let_def unfolding low5(1) if_P [OF low5_small [OF False [unfolded low5_full]]]
      by (simp add: narrow_widen low5(2))
    then show ?thesis using at(4) t(2) by (intro exI [of _ 1]) (simp add: bs)
  qed
qed

interpretation tag: exact_reader parse_asn1_tag "\<lambda>_ _. True" id der_tag "\<lambda>_. True"
proof
  show "\<exists>v. parse_asn1_tag c = (Ok v, after (length (der_tag x)) c) \<and> id v = x"
    if "cbs_ok c" "bytes_of c = der_tag x @ rest" for c x rest
    using parse_asn1_tag_accepts [OF that] by simp
  show "True \<and> (\<exists>k. k \<le> cbs_len c \<and> c' = after k c \<and> take k (bytes_of c) = der_tag (id v))"
    if "cbs_ok c" "parse_asn1_tag c = (Ok v, c')" for c v c'
    using parse_asn1_tag_exact [OF that] by simp
qed (rule parse_asn1_tag_in_order)

section \<open>Lengths\<close>

definition der_length :: "nat \<Rightarrow> byte list" where
  "der_length n = (if n < 128 then [of_nat n] else (0x80 OR of_nat (length (min_be n))) # min_be n)"

definition read_length :: "byte list \<Rightarrow> (nat \<times> nat) option" where
  "read_length bs = (case bs of [] \<Rightarrow> None | l # rest \<Rightarrow>
     if l AND 0x80 = 0 then Some (unat l, 1)
     else let m = unat (l AND 0x7F) in
       if m = 0 \<or> m > 4 \<or> length rest < m \<or> nat_be (take m rest) < 128 \<or> hd rest = 0 then None
       else Some (nat_be (take m rest), Suc m))"

lemma long_form_byte:
  assumes "m < 128"
  shows "(0x80 OR of_nat m :: byte) AND 0x80 \<noteq> 0" "unat ((0x80 OR of_nat m :: byte) AND 0x7F) = m"
proof -
  have u: "unat (of_nat m :: byte) = m" using assms by (simp add: unat_of_nat)
  then have low: "bit (of_nat m :: byte) n \<Longrightarrow> n < 7" for n
    using assms bit_lt_of_unat [of "of_nat m :: byte" 7 n] by simp
  have "bit ((0x80 OR of_nat m :: byte) AND 0x80) 7" by (simp add: bit_simps)
  then show "(0x80 OR of_nat m :: byte) AND 0x80 \<noteq> 0" by (metis bit_0_eq bot_apply bot_bool_def)
  have "(0x80 OR of_nat m :: byte) AND 0x7F = of_nat m"
    by (rule bit_word_eqI) (use low in \<open>auto simp: bit_simps\<close>)
  then show "unat ((0x80 OR of_nat m :: byte) AND 0x7F) = m" using u by simp
qed

lemma long_form_of_byte:
  assumes "l AND 0x80 \<noteq> (0 :: byte)"
  shows "0x80 OR of_nat (unat (l AND 0x7F)) = l"
  using high_group [OF assms] by (simp add: or.commute)

lemma short_form_byte: "l AND 0x80 = (0 :: byte) \<longleftrightarrow> unat l < 128"
  by (simp add: byte_high_bit word_less_nat_alt)

lemma length_min_be_length:
  assumes "n < 2 ^ 32" "\<not> n < 128"
  shows "length (min_be n) \<le> 4" "min_be n \<noteq> []" "hd (min_be n) \<noteq> 0"
  using length_min_be [of n 4] hd_min_be [of n] assms by simp_all

lemma read_length_code:
  assumes "n < 2 ^ 32"
  shows "read_length (der_length n @ rest) = Some (n, length (der_length n))"
proof (cases "n < 128")
  case True
  then have "unat (of_nat n :: byte) = n" by (simp add: unat_of_nat)
  then show ?thesis using True by (simp add: der_length_def read_length_def short_form_byte)
next
  case False
  note m = length_min_be_length [OF assms False]
  then have "length (min_be n) < 128" by simp
  note l = long_form_byte [OF this]
  show ?thesis
    using False m by (simp add: der_length_def read_length_def l Let_def)
qed

lemma read_length_exact:
  assumes "read_length bs = Some (n, k)"
  shows "n < 2 ^ 32" "k \<le> length bs" "take k bs = der_length n" "k \<le> 5"
proof -
  obtain l rest where bs: "bs = l # rest" using assms by (cases bs) (auto simp: read_length_def)
  have "n < 2 ^ 32 \<and> k \<le> length bs \<and> take k bs = der_length n \<and> k \<le> 5"
  proof (cases "l AND 0x80 = 0")
    case True
    then show ?thesis
      using assms by (auto simp: read_length_def bs der_length_def short_form_byte)
  next
    case False
    let ?m = "unat (l AND 0x7F)"
    have ok: "?m \<le> 4" "?m \<le> length rest" "\<not> n < 128" "hd rest \<noteq> 0" "n = nat_be (take ?m rest)" "k = Suc ?m" "?m \<noteq> 0"
      using assms False by (auto simp: read_length_def bs Let_def split: if_splits)
    have "hd (take ?m rest) \<noteq> 0" using ok by simp
    then have min: "min_be n = take ?m rest" using ok(5) min_be_nat_be by simp
    have "n < 256 ^ ?m" using nat_be_bound [of "take ?m rest"] ok by simp
    also have "\<dots> \<le> 256 ^ 4" using ok(1) by (intro power_increasing) simp_all
    finally have "n < 2 ^ 32" by simp
    then show ?thesis
      using ok min long_form_of_byte [OF False] by (simp add: der_length_def bs min_absorb2)
  qed
  then show "n < 2 ^ 32" "k \<le> length bs" "take k bs = der_length n" "k \<le> 5" by simp_all
qed

section \<open>Elements\<close>

lemma length_b128_high: "unat v < 2 ^ (7 * k) \<Longrightarrow> length (b128_high v) \<le> k"
proof (induction v arbitrary: k rule: b128_high.induct)
  case (1 v)
  show ?case
  proof (cases "v = 0")
    case False
    then obtain j where k: "k = Suc j" using "1.prems" by (cases k) (auto simp: unat_eq_0)
    have "unat (drop_bit 7 v) < 2 ^ (7 * j)"
      using "1.prems" by (simp add: k unat_drop_bit power_add div_less_iff_less_mult mult.commute)
    then show ?thesis using "1.IH" [OF False] by (simp add: b128_high.simps [of v] k)
  qed (simp add: b128_high.simps)
qed

lemma length_der_tag: "length (der_tag t) \<le> 6"
proof -
  have "unat (ucast (t AND CBS_ASN1_TAG_NUMBER_MASK) :: u64) < 2 ^ 29"
    using number_mask_small [of t] unat_widen [of "t AND CBS_ASN1_TAG_NUMBER_MASK", where 'b = 64] by simp
  then have "unat (drop_bit 7 (ucast (t AND CBS_ASN1_TAG_NUMBER_MASK) :: u64)) < 2 ^ (7 * 4)"
    by (simp only: unat_drop_bit) (simp add: div_less_iff_less_mult)
  from length_b128_high [OF this] show ?thesis by (simp add: der_tag_def Let_def base128_def)
qed

lemma cbs_get_u_bytes:
  assumes "cbs_ok c"
  shows "cbs_get_u n c =
    (if length (bytes_of c) < n then (Fail, c) else (Ok (be_val (take n (bytes_of c))), after n c))"
  using assms by (auto simp: cbs_get_u_ok bytes_of_def min_absorb1 min_absorb2 cbs_ok_def)

text \<open>Readers on a copy or on another window, and windows cut off the front.\<close>

lemma seq_on_copy:
  "m c = (Ok x, d) \<Longrightarrow> seq (on_copy m) f c = f (x, d) c"
  "m c = (Fail, d) \<Longrightarrow> seq (on_copy m) f c = (Fail, c)"
  by (simp_all add: seq_def on_copy_def)

lemma seq_on_child:
  "m e = (Ok x, d) \<Longrightarrow> seq (on_child e m) f c = f (x, d) c"
  "m e = (Fail, d) \<Longrightarrow> seq (on_child e m) f c = (Fail, c)"
  by (simp_all add: seq_def on_child_def)

lemma seq_CBS_get_bytes:
  "cbs_ok c \<Longrightarrow> seq (CBS_get_bytes n) f c = (if cbs_len c < n then (Fail, c) else f (window 0 n c) (after n c))"
  by (simp add: seq_def CBS_get_bytes_ok)

text \<open>The element reader as the tag reader followed by the length reader.\<close>

definition element_outcome :: "CBS \<Rightarrow> u32 \<Rightarrow> nat \<Rightarrow> nat \<Rightarrow> (CBS \<times> u32 \<times> nat) outcome \<times> CBS" where
  "element_outcome c t h n = (if cbs_len c < h + n then (Fail, c) else (Ok (window 0 (h + n) c, t, h), after (h + n) c))"

lemma element_length:
  assumes "length bs = m" "m \<noteq> 0" "\<not> m > 4" "h \<le> 7" "v = (be_val bs :: u64)"
  shows "v < 128 \<longleftrightarrow> nat_be bs < 128" "drop_bit ((m - 1) * 8) v = 0 \<longleftrightarrow> hd bs = 0"
    "\<not> v + of_nat h + of_nat m < v" "unat (v + (of_nat h + of_nat m)) = nat_be bs + h + m"
proof -
  have v: "unat v = nat_be bs" using assms by (simp add: unat_be_val)
  obtain b rest where bs: "bs = b # rest" using assms(1,2) by (cases bs) auto
  have rest: "length rest = m - 1" using assms(1) bs by simp
  have "nat_be bs < 256 ^ m" using nat_be_bound [of bs] assms(1) by simp
  also have "\<dots> \<le> 256 ^ 4" using assms(3) by (intro power_increasing) simp_all
  finally have small: "nat_be bs < 2 ^ 32" by simp
  show "v < 128 \<longleftrightarrow> nat_be bs < 128" by (simp add: word_less_nat_alt v)
  have pow: "(2 :: nat) ^ ((m - 1) * 8) = 256 ^ length rest" by (simp add: rest power_mult mult.commute [of _ 8])
  have "drop_bit ((m - 1) * 8) v = 0 \<longleftrightarrow> nat_be bs div 256 ^ length rest = 0"
    unfolding word_unat_eq_iff unat_drop_bit v pow by simp
  also have "\<dots> \<longleftrightarrow> \<not> 256 ^ length rest \<le> nat_be bs" by (simp add: div_eq_0_iff not_le)
  also have "\<dots> \<longleftrightarrow> hd bs = 0" using nat_be_head [of b rest] unfolding bs list.sel by blast
  finally show "drop_bit ((m - 1) * 8) v = 0 \<longleftrightarrow> hd bs = 0" .
  have hm: "h < 2 ^ 64" "m < 2 ^ 64" using assms(3,4) by simp_all
  show sum: "unat (v + (of_nat h + of_nat m)) = nat_be bs + h + m"
    using small assms(3,4) by (simp add: unat_word_ariths v unat_of_nat)
  show "\<not> v + of_nat h + of_nat m < v" unfolding word_less_nat_alt add.assoc sum v by simp
qed

lemma element_body:
  assumes "cbs_ok c" "cbs_ok d" "bytes_of d = rest" "k \<le> 6"
  shows "(let header_len = Suc k in
      if l AND 0x80 = 0 then
        seq (CBS_get_bytes (unat l + header_len)) (\<lambda>out. ret (out, t, header_len))
      else let num_bytes = unat (l AND 0x7f) in
        if False \<and> t AND CBS_ASN1_CONSTRUCTED \<noteq> 0 \<and> num_bytes = 0 then
          seq (CBS_get_bytes header_len) (\<lambda>out. ret (out, t, header_len))
        else if num_bytes = 0 \<or> num_bytes > 4 then fail
        else seq (on_child d (cbs_get_u num_bytes)) (\<lambda>(len64, _).
          if len64 < 128 then fail
          else if drop_bit ((num_bytes - 1) * 8) len64 = 0 then fail
          else if len64 + of_nat header_len + of_nat num_bytes < len64 then fail
          else seq (CBS_get_bytes (unat (len64 + (of_nat header_len + of_nat num_bytes))))
                 (\<lambda>out. ret (out, t, header_len + num_bytes)))) c =
    (case read_length (l # rest) of None \<Rightarrow> (Fail, c) | Some (n, j) \<Rightarrow> element_outcome c t (k + j) n)"
proof (cases "l AND 0x80 = 0")
  case True
  then show ?thesis
    by (simp add: read_length_def seq_CBS_get_bytes [OF assms(1)] act_run element_outcome_def add.commute)
next
  case False
  define m where "m = unat (l AND 0x7f)"
  define v :: u64 where "v = be_val (take m rest)"
  show ?thesis
  proof (cases "m = 0 \<or> m > 4 \<or> length rest < m")
    case True
    then show ?thesis
      using False seq_on_child(2) [of "cbs_get_u m" d d]
      by (auto simp: read_length_def act_run Let_def cbs_get_u_bytes [OF assms(2)] assms(3) simp flip: m_def simp del: One_nat_def)
  next
    case ok: False
    then have m: "length (take m rest) = m" "m \<noteq> 0" "\<not> m > 4" and hd: "hd (take m rest) = hd rest" by simp_all
    have k: "Suc k \<le> 7" using assms(4) by simp
    note len = element_length [OF m k v_def]
    have read: "cbs_get_u m d = (Ok v, after m d)"
      using ok by (simp add: cbs_get_u_bytes [OF assms(2)] assms(3) v_def)
    have "seq (on_child d (cbs_get_u m)) (\<lambda>(len64, _).
          if len64 < 128 then fail
          else if drop_bit ((m - 1) * 8) len64 = 0 then fail
          else if len64 + of_nat (Suc k) + of_nat m < len64 then fail
          else seq (CBS_get_bytes (unat (len64 + (of_nat (Suc k) + of_nat m))))
                 (\<lambda>out. ret (out, t, Suc k + m))) c =
        (if nat_be (take m rest) < 128 \<or> hd rest = 0 then (Fail, c)
         else element_outcome c t (Suc k + m) (nat_be (take m rest)))"
      unfolding seq_on_child(1) [where m = "cbs_get_u m", OF read] prod.case len(1,2,4) if_not_P [OF len(3)] hd
      by (simp add: act_run seq_CBS_get_bytes [OF assms(1)] element_outcome_def ac_simps)
    then show ?thesis
      unfolding Let_def if_not_P [OF False] m_def [symmetric]
      using False ok by (simp add: read_length_def Let_def flip: m_def)
  qed
qed

lemma element_run:
  assumes "cbs_ok c" "parse_asn1_tag c = (Ok t, after k c)" "k \<le> cbs_len c" "k \<le> 6"
  shows "CBS_get_any_asn1_element c = (case read_length (drop k (bytes_of c)) of
      None \<Rightarrow> (Fail, c) | Some (n, j) \<Rightarrow> element_outcome c t (k + j) n)"
proof -
  have h: "cbs_ok (after k c)" using after_facts [OF assms(1,3)] by simp
  have drop: "drop k (bytes_of c) = bytes_of (after k c)" using bytes_of_after [OF assms(3)] by simp
  show ?thesis
  proof (cases "bytes_of (after k c)")
    case Nil
    then have "cbs_len (after k c) = 0" using length_bytes_of [OF h] by simp
    then have "CBS_get_u8 (after k c) = (Fail, after k c)" by (simp add: CBS_get_u8_ok [OF h])
    then show ?thesis
      unfolding CBS_get_any_asn1_element_def cbs_get_any_asn1_element_def drop Nil
      by (simp add: seq_on_copy [where m = parse_asn1_tag] assms(2) seq_on_child read_length_def)
  next
    case (Cons l rest)
    note at = CBS_get_u8_cons [OF h Cons]
    have hl: "cbs_len c - cbs_len (after 1 (after k c)) = Suc k" using at(4) assms(3) by (simp add: window_def)
    show ?thesis
      unfolding CBS_get_any_asn1_element_def cbs_get_any_asn1_element_def drop Cons
        seq_on_copy(1) [where m = parse_asn1_tag, OF assms(2)] prod.case
        seq_on_child(1) [where m = CBS_get_u8, OF at(1)] seq_basic hl
      by (rule element_body [OF assms(1) at(2,3) assms(4)])
  qed
qed

lemma element_of_code:
  assumes "cbs_ok c" "bytes_of c = der_tag t @ der_length n @ rest" "n < 2 ^ 32"
  shows "CBS_get_any_asn1_element c = element_outcome c t (length (der_tag t) + length (der_length n)) n"
proof -
  note at = bytes_of_append [OF assms(1,2)]
  show ?thesis
    unfolding element_run [OF assms(1) parse_asn1_tag_accepts [OF assms(1,2)] at(1) length_der_tag]
    by (simp add: assms(2) read_length_code [OF assms(3)])
qed

lemma element_cases:
  assumes "cbs_ok c"
  obtains (stop) "CBS_get_any_asn1_element c = (Fail, c)"
  | (element) t n h where "n < 2 ^ 32" "h + n \<le> cbs_len c" "h = length (der_tag t) + length (der_length n)"
      "take h (bytes_of c) = der_tag t @ der_length n"
      "CBS_get_any_asn1_element c = (Ok (window 0 (h + n) c, t, h), after (h + n) c)"
proof -
  have no_tag: ?thesis if "parse_asn1_tag c = (Fail, d)" for d
    using stop that by (simp add: CBS_get_any_asn1_element_def cbs_get_any_asn1_element_def seq_on_copy [where m = parse_asn1_tag])
  show ?thesis
  proof (rule in_order_cases [OF parse_asn1_tag_in_order [OF assms]])
    fix t d
    assume tag: "parse_asn1_tag c = (Ok t, d)"
    obtain k where k: "k \<le> cbs_len c" "d = after k c" "take k (bytes_of c) = der_tag t"
      using parse_asn1_tag_exact [OF assms tag] by blast
    have lk: "length (der_tag t) = k" using k(1,3) assms by (metis length_bytes_of length_take min.absorb2)
    note run = element_run [OF assms tag [unfolded k(2)] k(1) length_der_tag [of t, unfolded lk]]
    show ?thesis
    proof (cases "read_length (drop k (bytes_of c))")
      case None
      then show ?thesis using run stop by simp
    next
      case (Some nj)
      then obtain n j where nj: "read_length (drop k (bytes_of c)) = Some (n, j)" by (cases nj) auto
      note len = read_length_exact [OF nj]
      have lj: "length (der_length n) = j" using len(2,3) by (metis length_take min.absorb2)
      have "take (k + j) (bytes_of c) = der_tag t @ der_length n" using k(3) len(3) by (simp add: take_add)
      note code = this
      have go: "CBS_get_any_asn1_element c = element_outcome c t (k + j) n" using run by (simp add: nj)
      show ?thesis
      proof (cases "cbs_len c < k + j + n")
        case True
        then show ?thesis by (intro stop) (simp add: go element_outcome_def)
      next
        case False
        show ?thesis
          by (rule element [OF len(1) _ _ code]) (use False in \<open>simp_all add: go element_outcome_def lk lj\<close>)
      qed
    qed
  qed (rule no_tag)
qed

definition der_element :: "u32 \<times> byte list \<Rightarrow> byte list" where
  "der_element = (\<lambda>(t, bs). der_tag t @ der_length (length bs) @ bs)"

definition der_ok :: "u32 \<times> byte list \<Rightarrow> bool" where
  "der_ok = (\<lambda>(t, bs). length bs < 2 ^ 32)"

definition tagged_contents :: "CBS \<times> u32 \<Rightarrow> u32 \<times> byte list" where
  "tagged_contents = (\<lambda>(out, t). (t, bytes_of out))"

lemma CBS_skip_ok: "cbs_ok c \<Longrightarrow> CBS_skip n c = (if cbs_len c < n then (Fail, c) else (Ok (), after n c))"
  by (simp add: CBS_skip_def seq_def cbs_get_ok act_run)

lemma skip_header_window:
  assumes "cbs_ok c" "h + n \<le> cbs_len c"
  shows "skip_header (window 0 (h + n) c) h = ret (window h n c)"
proof -
  have "cbs_ok (window 0 (h + n) c)" using sub_of_ok [OF assms(1) sub_of_window [of 0 "h + n" c]] assms(2) by simp
  then show ?thesis by (simp add: skip_header_def CBS_skip_ok window_def)
qed

lemma any_asn1_cases:
  assumes "cbs_ok c"
  obtains (stop) "CBS_get_any_asn1 c = (Fail, c)"
  | (element) t h n where "n < 2 ^ 32" "h + n \<le> cbs_len c" "take (h + n) (bytes_of c) = der_element (t, bytes_of (window h n c))"
      "CBS_get_any_asn1 c = (Ok (window h n c, t), after (h + n) c)"
  using assms
proof (cases rule: element_cases)
  case stop
  then show thesis using that(1) by (simp add: CBS_get_any_asn1_def seq_run)
next
  case (element t n h)
  have "CBS_get_any_asn1 c = (Ok (window h n c, t), after (h + n) c)"
    using element(5) by (simp add: CBS_get_any_asn1_def seq_def [of CBS_get_any_asn1_element] seq_basic
        skip_header_window [OF assms element(2)] act_run)
  moreover have "take (h + n) (bytes_of c) = der_element (t, bytes_of (window h n c))"
    using element(1-4) assms by (simp add: der_element_def take_add bytes_of_window min_absorb2)
  ultimately show thesis using that(2) element(1,2) by blast
qed

lemma any_asn1_of_code:
  assumes "cbs_ok c" "length bs < 2 ^ 32" "bytes_of c = der_element (t, bs) @ rest"
  shows "\<exists>h. CBS_get_any_asn1 c = (Ok (window h (length bs) c, t), after (length (der_element (t, bs))) c) \<and>
    bytes_of (window h (length bs) c) = bs \<and> h + length bs \<le> cbs_len c"
proof -
  let ?h = "length (der_tag t) + length (der_length (length bs))"
  have code: "bytes_of c = der_tag t @ der_length (length bs) @ (bs @ rest)" using assms(3) by (simp add: der_element_def)
  have le: "?h + length bs \<le> cbs_len c" using length_bytes_of [OF assms(1)] by (simp add: code)
  have "CBS_get_any_asn1 c = (Ok (window ?h (length bs) c, t), after (?h + length bs) c)"
    using element_of_code [OF assms(1) code assms(2)] le
    by (simp add: CBS_get_any_asn1_def seq_def [of CBS_get_any_asn1_element] seq_basic element_outcome_def
        skip_header_window [OF assms(1) le] act_run)
  moreover have "bytes_of (window ?h (length bs) c) = bs" using le by (simp add: bytes_of_window code)
  ultimately show ?thesis using le by (intro exI [of _ ?h]) (simp add: der_element_def add.assoc)
qed

interpretation element: exact_reader CBS_get_any_asn1 "\<lambda>c (out, _). child_of out c" tagged_contents der_element der_ok
proof
  fix c
  assume c: "cbs_ok c"
  show "in_order c (\<lambda>v _. (\<lambda>c (out, _). child_of out c) c v) (CBS_get_any_asn1 c)"
    using c by (cases rule: any_asn1_cases) (use c after_facts [OF c] child_of_window [OF c] in \<open>auto simp: in_order_def\<close>)
  show "\<exists>v. CBS_get_any_asn1 c = (Ok v, after (length (der_element x)) c) \<and> tagged_contents v = x"
    if "der_ok x" "bytes_of c = der_element x @ rest" for x rest
    using any_asn1_of_code [OF c, of "snd x" "fst x" rest] that by (cases x) (auto simp: der_ok_def tagged_contents_def)
  show "der_ok (tagged_contents v) \<and> (\<exists>k. k \<le> cbs_len c \<and> c' = after k c \<and> take k (bytes_of c) = der_element (tagged_contents v))"
    if "CBS_get_any_asn1 c = (Ok v, c')" for v c'
    using c
  proof (cases rule: any_asn1_cases)
    case (element t h n)
    then show ?thesis using that length_bytes_of [OF c]
      by (auto simp: der_ok_def tagged_contents_def bytes_of_window intro!: exI [of _ "h + n"])
  qed (use that in simp)
qed

end
