(* ===== verification/Cbs_Values.thy ===== *)
theory Cbs_Values
  imports Cbs_Der
begin

text \<open>
  The value readers of cbs.c: fixed-width integers, length-prefixed strings, elements of a given tag,
  DER integers and booleans, optional elements and bit strings.  Each reads exactly its encoding.
\<close>

section \<open>Fixed-width integers\<close>

lemma exact_reader_eq:
  "exact_reader get good view code valid \<Longrightarrow> (\<And>x. code x = code' x) \<Longrightarrow> (\<And>x. valid x = valid' x) \<Longrightarrow>
   exact_reader get good view code' valid'"
proof -
  assume h: "exact_reader get good view code valid" "\<And>x. code x = code' x" "\<And>x. valid x = valid' x"
  have "code = code'" "valid = valid'" using h(2,3) by (auto intro: ext)
  then show ?thesis using h(1) by simp
qed

lemma cbs_get_u_exact:
  assumes "k \<le> 8"
  shows "exact_reader (cbs_get_u k) (\<lambda>_ _. True) id (be_bytes k) (\<lambda>v. unat v < 256 ^ k)"
proof
  fix c
  assume c: "cbs_ok c"
  show "in_order c (\<lambda>v _. True) (cbs_get_u k c)"
    using after_facts [OF c, of k] c by (simp add: cbs_get_u_ok in_order_def)
  show "\<exists>v. cbs_get_u k c = (Ok v, after (length (be_bytes k x)) c) \<and> id v = x"
    if x: "unat x < 256 ^ k" "bytes_of c = be_bytes k x @ rest" for x rest
  proof -
    have "unat x < 2 ^ (8 * k)" using x(1) by (simp add: power_mult)
    then have "be_val (be_bytes k x) = x" by (simp add: be_val_be_bytes take_bit_unat_self)
    then show ?thesis by (simp add: cbs_get_u_bytes [OF c] x(2))
  qed
  show "unat (id v) < 256 ^ k \<and> (\<exists>n. n \<le> cbs_len c \<and> c' = after n c \<and> take n (bytes_of c) = be_bytes k (id v))"
    if v: "cbs_get_u k c = (Ok v, c')" for v c'
  proof -
    have le: "k \<le> length (bytes_of c)" and val: "v = be_val (take k (bytes_of c))" and c': "c' = after k c"
      using v by (auto simp: cbs_get_u_bytes [OF c] not_less split: if_splits)
    have "unat v = nat_be (take k (bytes_of c))" using assms unat_be_val [of "take k (bytes_of c)"] le by (simp add: val)
    moreover have "be_bytes k v = take k (bytes_of c)"
      using be_bytes_be_val [of "take k (bytes_of c)", where 'a = 64] assms le by (simp add: val min_absorb2)
    ultimately show ?thesis
      using nat_be_bound [of "take k (bytes_of c)"] le c' c by (intro conjI exI [of _ k]) (simp_all add: min_absorb2)
  qed
qed

lemma cbs_get_u_mapped:
  assumes "k \<le> 8" "\<And>v x. unat v < 256 ^ k \<and> dec v = x \<longleftrightarrow> valid x \<and> v = enc x"
  shows "exact_reader (seq (cbs_get_u k) (\<lambda>v. ret (dec v))) (\<lambda>_ _. True) id (be_bytes k \<circ> enc) valid"
  by (rule exact_reader.mapped [OF cbs_get_u_exact [OF assms(1)], where dec = "\<lambda>v. Some (dec v)"])
    (use assms(2) in \<open>auto simp: act_run\<close>)

lemma narrow_small:
  assumes "LENGTH('a::len) \<le> LENGTH('b::len)"
  shows "unat (v :: 'b word) < 2 ^ LENGTH('a) \<and> (ucast v :: 'a word) = x \<longleftrightarrow> v = ucast x"
proof
  assume v: "unat v < 2 ^ LENGTH('a) \<and> (ucast v :: 'a word) = x"
  then have "unat x = unat v" by (auto simp: unsigned_ucast_eq unsigned_take_bit_eq take_bit_nat_eq_self)
  then show "v = ucast x" by (simp add: word_unat_eq_iff unat_widen [OF assms])
next
  assume "v = ucast x"
  then show "unat v < 2 ^ LENGTH('a) \<and> (ucast v :: 'a word) = x"
    by (simp add: unat_widen [OF assms] narrow_widen [OF assms] unat_less)
qed

lemma be_bytes_widen: "be_bytes k (ucast (x :: 'a::len word) :: 'b::len word) = be_bytes k x" if "8 * k \<le> LENGTH('b)"
proof -
  have "le_bytes k (ucast x :: 'b word) = le_bytes k x"
  proof (rule nth_equalityI)
    fix i
    assume "i < length (le_bytes k (ucast x :: 'b word))"
    then have i: "i < k" by simp
    show "le_bytes k (ucast x :: 'b word) ! i = le_bytes k x ! i"
      by (rule bit_word_eqI) (use i that in \<open>auto simp: nth_le_bytes bit_simps\<close>)
  qed simp
  then show ?thesis by (simp add: be_bytes_def)
qed

interpretation u8: exact_reader CBS_get_u8 "\<lambda>_ _. True" id "\<lambda>b. [b]" "\<lambda>_. True"
proof
  fix c
  assume c: "cbs_ok c"
  show "in_order c (\<lambda>v _. True) (CBS_get_u8 c)" by (rule CBS_get_u8_in_order [OF c])
  show "\<exists>v. CBS_get_u8 c = (Ok v, after (length [x]) c) \<and> id v = x" if "bytes_of c = [x] @ rest" for x rest
    using CBS_get_u8_cons(1) [OF c, of x rest] that by simp
  show "True \<and> (\<exists>k. k \<le> cbs_len c \<and> c' = after k c \<and> take k (bytes_of c) = [id v])" if "CBS_get_u8 c = (Ok v, c')" for v c'
  proof (cases "bytes_of c")
    case Nil
    then have "cbs_len c = 0" using c by (metis length_bytes_of list.size(3))
    then show ?thesis using that by (simp add: CBS_get_u8_ok [OF c])
  next
    case (Cons b rest)
    then show ?thesis using that CBS_get_u8_cons [OF c Cons] by (intro conjI exI [of _ 1]) simp_all
  qed
qed

lemma get_u16_exact: "exact_reader CBS_get_u16 (\<lambda>_ _. True) id (be_bytes 2) (\<lambda>_. True)"
  unfolding CBS_get_u16_def
  by (rule exact_reader_eq [OF cbs_get_u_mapped [where enc = ucast]])
    (use narrow_small [where 'a = 16 and 'b = 64] in \<open>auto simp: be_bytes_widen\<close>)

lemma get_u24_exact: "exact_reader CBS_get_u24 (\<lambda>_ _. True) id (be_bytes 3) (\<lambda>v. unat v < 256 ^ 3)"
  unfolding CBS_get_u24_def
proof (rule exact_reader_eq [OF cbs_get_u_mapped [where enc = ucast and valid = "\<lambda>v. unat v < 256 ^ 3"]])
  show "unat (v :: u64) < 256 ^ 3 \<and> ucast v = x \<longleftrightarrow> unat x < 256 ^ 3 \<and> v = ucast x" for v and x :: u32
    using narrow_small [where 'a = 32 and 'b = 64, of v x] by (auto simp: unat_widen)
qed (simp_all add: be_bytes_widen)

lemma get_u32_exact: "exact_reader CBS_get_u32 (\<lambda>_ _. True) id (be_bytes 4) (\<lambda>_. True)"
  unfolding CBS_get_u32_def
  by (rule exact_reader_eq [OF cbs_get_u_mapped [where enc = ucast]])
    (use narrow_small [where 'a = 32 and 'b = 64] in \<open>auto simp: be_bytes_widen\<close>)

lemma get_u64_exact: "exact_reader CBS_get_u64 (\<lambda>_ _. True) id (be_bytes 8) (\<lambda>_. True)"
  unfolding CBS_get_u64_def
  by (rule exact_reader_eq [OF cbs_get_u_exact]) (use unat_less [where 'a = 64] in simp_all)

text \<open>Reversing the bytes of a word turns the big-endian code into the little-endian one.\<close>

lemma bit_bytes_masks [bit_simps]:
  "bit (0xFF00FF00 :: int) n \<longleftrightarrow> 8 \<le> n \<and> n < 16 \<or> 24 \<le> n \<and> n < 32"
  "bit (0x00FF00FF :: int) n \<longleftrightarrow> n < 8 \<or> 16 \<le> n \<and> n < 24"
  "bit (0xFF00 :: int) n \<longleftrightarrow> 8 \<le> n \<and> n < 16"
proof -
  show "bit (0xFF00 :: int) n \<longleftrightarrow> 8 \<le> n \<and> n < 16" using bit_shifted_mask [of 8 8 n] by simp
  have "(0xFF00FF00 :: int) = push_bit 8 (2 ^ 8 - 1) OR push_bit 24 (2 ^ 8 - 1)"
    "(0x00FF00FF :: int) = (2 ^ 8 - 1) OR push_bit 16 (2 ^ 8 - 1)" by simp_all
  then show "bit (0xFF00FF00 :: int) n \<longleftrightarrow> 8 \<le> n \<and> n < 16 \<or> 24 \<le> n \<and> n < 32"
    "bit (0x00FF00FF :: int) n \<longleftrightarrow> n < 8 \<or> 16 \<le> n \<and> n < 24"
    by (auto simp only: bit_or_iff bit_low_mask bit_shifted_mask)
qed

lemma le_bytes_list:
  "le_bytes 2 x = [ucast x, ucast (drop_bit 8 x)]"
  "le_bytes 4 x = [ucast x, ucast (drop_bit 8 x), ucast (drop_bit 16 x), ucast (drop_bit 24 x)]"
  by (simp_all add: le_bytes_def upt_rec)

lemma bswap2_bytes: "be_bytes 2 (CRYPTO_bswap2 x) = le_bytes 2 x"
  by (simp add: be_bytes_def le_bytes_list, intro conjI; rule bit_word_eqI)
    (auto simp: CRYPTO_bswap2_def bit_simps)

lemma bswap4_bytes: "be_bytes 4 (CRYPTO_bswap4 x) = le_bytes 4 x"
  by (simp add: be_bytes_def le_bytes_list, intro conjI; rule bit_word_eqI)
    (auto simp: CRYPTO_bswap4_def Let_def bit_simps dest: bit_imp_le_length)

lemma le_bytes_8: "le_bytes 8 x = le_bytes 4 (ucast x :: u32) @ le_bytes 4 (ucast (drop_bit 32 x) :: u32)" for x :: u64
proof (rule nth_equalityI)
  fix i
  assume "i < length (le_bytes 8 x)"
  then have i: "i < 8" by simp
  show "le_bytes 8 x ! i = (le_bytes 4 (ucast x :: u32) @ le_bytes 4 (ucast (drop_bit 32 x) :: u32)) ! i"
    by (rule bit_word_eqI) (use i in \<open>auto simp: nth_append nth_le_bytes bit_simps algebra_simps\<close>)
qed simp

lemma bswap8_bytes: "be_bytes 8 (CRYPTO_bswap8 x) = le_bytes 8 x"
proof -
  have lo: "ucast (CRYPTO_bswap8 x) = CRYPTO_bswap4 (ucast (drop_bit 32 x))"
    by (rule bit_word_eqI) (auto simp: CRYPTO_bswap8_def bit_simps)
  have hi: "ucast (drop_bit 32 (CRYPTO_bswap8 x)) = CRYPTO_bswap4 (ucast x)"
    by (rule bit_word_eqI) (auto simp: CRYPTO_bswap8_def bit_simps dest: bit_imp_le_length)
  show ?thesis
    using bswap4_bytes unfolding be_bytes_def le_bytes_8 [of "CRYPTO_bswap8 x"] lo hi rev_append
    by (simp add: le_bytes_8 [of x])
qed

lemma be_bytes_inject: "8 * n = LENGTH('a::len) \<Longrightarrow> be_bytes n (x :: 'a word) = be_bytes n y \<longleftrightarrow> x = y"
  by (metis be_val_be_bytes order_refl take_bit_ge)

lemma swap_involution:
  assumes "8 * n = LENGTH('a::len)" "\<And>x :: 'a word. be_bytes n (swap x) = le_bytes n x"
  shows "swap (swap x) = (x :: 'a word)"
proof -
  have "be_bytes n (swap (swap x)) = rev (be_bytes n (swap x))" unfolding assms(2) [of "swap x"] by (simp add: be_bytes_def)
  also have "\<dots> = be_bytes n x" unfolding assms(2) by (simp add: be_bytes_def)
  finally show ?thesis by (simp add: be_bytes_inject [OF assms(1)])
qed

lemmas bswap_involution =
  swap_involution [where n = 2, OF _ bswap2_bytes, simplified]
  swap_involution [where n = 4, OF _ bswap4_bytes, simplified]
  swap_involution [where n = 8, OF _ bswap8_bytes, simplified]

lemma swapped_reader:
  assumes "exact_reader get (\<lambda>_ _. True) id (be_bytes n) (\<lambda>_. True)" "\<And>x. swap (swap x) = x"
    "\<And>x. be_bytes n (swap x) = le_bytes n x"
  shows "exact_reader (seq get (\<lambda>v. ret (swap v))) (\<lambda>_ _. True) id (le_bytes n) (\<lambda>_. True)"
  by (rule exact_reader_eq [OF exact_reader.mapped [OF assms(1), where dec = "\<lambda>v. Some (swap v)" and enc = swap and valid' = "\<lambda>_. True"]])
    (use assms(2,3) in \<open>auto simp: act_run\<close>)

interpretation u16: exact_reader CBS_get_u16 "\<lambda>_ _. True" id "be_bytes 2" "\<lambda>_. True" by (rule get_u16_exact)
interpretation u24: exact_reader CBS_get_u24 "\<lambda>_ _. True" id "be_bytes 3" "\<lambda>v. unat v < 256 ^ 3" by (rule get_u24_exact)
interpretation u32: exact_reader CBS_get_u32 "\<lambda>_ _. True" id "be_bytes 4" "\<lambda>_. True" by (rule get_u32_exact)
interpretation u64: exact_reader CBS_get_u64 "\<lambda>_ _. True" id "be_bytes 8" "\<lambda>_. True" by (rule get_u64_exact)

interpretation u16le: exact_reader CBS_get_u16le "\<lambda>_ _. True" id "le_bytes 2" "\<lambda>_. True"
  unfolding CBS_get_u16le_def by (rule swapped_reader [OF get_u16_exact bswap_involution(1) bswap2_bytes])
interpretation u32le: exact_reader CBS_get_u32le "\<lambda>_ _. True" id "le_bytes 4" "\<lambda>_. True"
  unfolding CBS_get_u32le_def by (rule swapped_reader [OF get_u32_exact bswap_involution(2) bswap4_bytes])
interpretation u64le: exact_reader CBS_get_u64le "\<lambda>_ _. True" id "le_bytes 8" "\<lambda>_. True"
  unfolding CBS_get_u64le_def
  by (rule swapped_reader [OF get_u64_exact [unfolded CBS_get_u64_def] bswap_involution(3) bswap8_bytes])

section \<open>Length-prefixed strings\<close>

definition prefixed :: "nat \<Rightarrow> byte list \<Rightarrow> byte list" where
  "prefixed k bs = be_bytes k (of_nat (length bs) :: u64) @ bs"

lemma length_prefixed_exact:
  assumes "k \<le> 7"
  shows "exact_reader (cbs_get_length_prefixed k) (\<lambda>c d. child_of d c) bytes_of (prefixed k) (\<lambda>bs. length bs < 256 ^ k)"
proof
  fix c
  assume c: "cbs_ok c"
  have k: "k \<le> 8" using assms by simp
  have run: "cbs_get_length_prefixed k c =
      (if cbs_len c < k then (Fail, c)
       else let n = nat_be (take k (bytes_of c)) in
         if cbs_len c < k + n then (Fail, after k c) else (Ok (window k n c), after (k + n) c))"
  proof (cases "cbs_len c < k")
    case False
    then have le: "k \<le> cbs_len c" by simp
    have ok: "cbs_ok (after k c)" using after_facts [OF c le] by simp
    have "unat (be_val (take k (bytes_of c)) :: u64) = nat_be (take k (bytes_of c))"
      using k le by (intro unat_be_val) simp
    then show ?thesis
      using False le c by (auto simp: cbs_get_length_prefixed_def seq_def [of "cbs_get_u k"] cbs_get_u_bytes [OF c]
          CBS_get_bytes_ok [OF ok] Let_def window_window cbs_len_window)
  qed (simp add: cbs_get_length_prefixed_def seq_def cbs_get_u_ok [OF c])
  show "in_order c (\<lambda>d _. child_of d c) (cbs_get_length_prefixed k c)"
    using c after_facts [OF c] child_of_window [OF c] unfolding run by (simp add: in_order_def Let_def)
  have small: "(256 :: nat) ^ k < 2 ^ 64"
  proof -
    have "(256 :: nat) ^ k \<le> 256 ^ 7" using assms by (intro power_increasing) simp_all
    then show ?thesis by simp
  qed
  show "\<exists>d. cbs_get_length_prefixed k c = (Ok d, after (length (prefixed k bs)) c) \<and> bytes_of d = bs"
    if bs: "length bs < 256 ^ k" "bytes_of c = prefixed k bs @ rest" for bs rest
  proof -
    have "unat (of_nat (length bs) :: u64) = length bs" using bs(1) small by (simp add: unat_of_nat)
    then have "nat_be (take k (bytes_of c)) = length bs"
      using bs nat_be_be_bytes [of "of_nat (length bs)" k] k by (simp add: prefixed_def)
    moreover have "k + length bs \<le> cbs_len c" using length_bytes_of [OF c] by (simp add: bs(2) prefixed_def)
    ultimately show ?thesis unfolding run by (simp add: Let_def prefixed_def bytes_of_window bs(2))
  qed
  show "length (bytes_of d) < 256 ^ k \<and> (\<exists>n. n \<le> cbs_len c \<and> c' = after n c \<and> take n (bytes_of c) = prefixed k (bytes_of d))"
    if d: "cbs_get_length_prefixed k c = (Ok d, c')" for d c'
  proof -
    let ?n = "nat_be (take k (bytes_of c))"
    have le: "k + ?n \<le> cbs_len c" and d: "d = window k ?n c" "c' = after (k + ?n) c"
      using d unfolding run by (auto simp: Let_def not_less split: if_splits)
    have len: "length (bytes_of d) = ?n" using le c by (simp add: d bytes_of_window)
    have "be_bytes k (of_nat ?n :: u64) = take k (bytes_of c)"
      using be_bytes_nat_be [of "take k (bytes_of c)"] k le c by (simp add: min_absorb2)
    then have "take (k + ?n) (bytes_of c) = prefixed k (bytes_of d)"
      using le by (simp add: prefixed_def len take_add) (simp add: d bytes_of_window)
    then show ?thesis
      using nat_be_bound [of "take k (bytes_of c)"] le c d(2) len by (intro conjI exI [of _ "k + ?n"]) (simp_all add: min_absorb2)
  qed
qed

interpretation u8_prefixed: exact_reader CBS_get_u8_length_prefixed "\<lambda>c d. child_of d c" bytes_of "prefixed 1" "\<lambda>bs. length bs < 256 ^ 1"
  unfolding CBS_get_u8_length_prefixed_def by (rule length_prefixed_exact) simp
interpretation u16_prefixed: exact_reader CBS_get_u16_length_prefixed "\<lambda>c d. child_of d c" bytes_of "prefixed 2" "\<lambda>bs. length bs < 256 ^ 2"
  unfolding CBS_get_u16_length_prefixed_def by (rule length_prefixed_exact) simp
interpretation u24_prefixed: exact_reader CBS_get_u24_length_prefixed "\<lambda>c d. child_of d c" bytes_of "prefixed 3" "\<lambda>bs. length bs < 256 ^ 3"
  unfolding CBS_get_u24_length_prefixed_def by (rule length_prefixed_exact) simp

section \<open>Elements of a given tag\<close>

lemma exact_reader_cong:
  assumes "exact_reader get good view code valid" "\<And>c. cbs_ok c \<Longrightarrow> get' c = get c"
  shows "exact_reader get' good view code valid"
proof
  fix c
  assume c: "cbs_ok c"
  note eq = assms(2) [OF c]
  show "in_order c (\<lambda>v _. good c v) (get' c)" unfolding eq by (rule exact_reader.ordered [OF assms(1) c])
  show "\<exists>v. get' c = (Ok v, after (length (code x)) c) \<and> view v = x" if "valid x" "bytes_of c = code x @ rest" for x rest
    unfolding eq by (rule exact_reader.accepts [OF assms(1) c that])
  show "valid (view v) \<and> (\<exists>k. k \<le> cbs_len c \<and> c' = after k c \<and> take k (bytes_of c) = code (view v))"
    if "get' c = (Ok v, c')" for v c'
    by (rule exact_reader.exact [OF assms(1) c that [unfolded eq]])
qed

lemma get_asn1_run:
  assumes "cbs_ok c"
  shows "CBS_get_asn1 t c = seq CBS_get_any_asn1 (\<lambda>(out, tag). if tag = t then ret out else fail) c"
  using assms
proof (cases rule: element_cases)
  case stop
  then show ?thesis by (simp add: CBS_get_asn1_def cbs_get_asn1_def CBS_get_any_asn1_def seq_def)
next
  case (element u n h)
  have "CBS_get_any_asn1 c = (Ok (window h n c, u), after (h + n) c)"
    using element(5) by (simp add: CBS_get_any_asn1_def seq_run seq_basic skip_header_window [OF assms element(2)] act_run)
  then show ?thesis
    using element(5) by (simp add: CBS_get_asn1_def cbs_get_asn1_def seq_def skip_header_window [OF assms element(2)] act_run)
qed

lemma get_asn1_exact:
  "exact_reader (CBS_get_asn1 t) (\<lambda>c d. child_of d c) bytes_of (\<lambda>bs. der_element (t, bs)) (\<lambda>bs. length bs < 2 ^ 32)"
proof (rule exact_reader_cong [OF _ get_asn1_run])
  show "exact_reader (seq CBS_get_any_asn1 (\<lambda>(out, tag). if tag = t then ret out else fail))
    (\<lambda>c d. child_of d c) bytes_of (\<lambda>bs. der_element (t, bs)) (\<lambda>bs. length bs < 2 ^ 32)"
    by (rule exact_reader_eq [OF element.mapped [where dec = "\<lambda>(u, bs). if u = t then Some bs else None" and enc = "\<lambda>bs. (t, bs)"
          and valid' = "\<lambda>bs. length bs < 2 ^ 32"]])
      (auto simp: tagged_contents_def der_ok_def act_run split: if_splits)
qed

section \<open>Integers in DER\<close>

text \<open>The shortest encoding of a non-negative integer.\<close>

definition uint_code :: "nat \<Rightarrow> byte list" where
  "uint_code n = (let m = min_be n in if m = [] then [0] else if hd m AND 0x80 \<noteq> 0 then 0 # m else m)"

definition min_uint :: "byte list \<Rightarrow> bool" where
  "min_uint bs \<longleftrightarrow> bs \<noteq> [] \<and> bs ! 0 AND 0x80 = 0 \<and> \<not> (bs ! 0 = 0 \<and> length bs > 1 \<and> bs ! 1 AND 0x80 = 0)"

lemma uint_code_nat_be:
  assumes "min_uint bs"
  shows "uint_code (nat_be bs) = bs"
proof -
  obtain b rest where bs: "bs = b # rest" using assms by (cases bs) (auto simp: min_uint_def)
  show ?thesis
  proof (cases "b = 0")
    case False
    then show ?thesis using assms min_be_nat_be [of bs] by (simp add: uint_code_def bs min_uint_def Let_def)
  next
    case True
    have n: "nat_be bs = nat_be rest" by (simp add: bs True nat_be_Cons)
    show ?thesis
    proof (cases rest)
      case Nil
      then show ?thesis by (simp add: uint_code_def bs True nat_be_Cons)
    next
      case (Cons x xs)
      then have x: "x AND 0x80 \<noteq> 0" using assms by (simp add: min_uint_def bs True)
      then have "x \<noteq> 0" by auto
      then have "min_be (nat_be rest) = rest" using min_be_nat_be [of rest] Cons by auto
      then show ?thesis using Cons x n by (simp add: uint_code_def bs True Let_def)
    qed
  qed
qed

lemma min_uint_code: "min_uint (uint_code n)" "nat_be (uint_code n) = n"
proof -
  show "nat_be (uint_code n) = n"
    using nat_be_min_be [of n] by (cases "min_be n = []") (simp_all add: uint_code_def Let_def nat_be_Cons del: nat_be_min_be)
  show "min_uint (uint_code n)"
  proof (cases "n = 0")
    case True
    then show ?thesis by (simp add: uint_code_def min_uint_def)
  next
    case False
    then obtain b rest where m: "min_be n = b # rest" "b \<noteq> 0" using hd_min_be [of n] by (cases "min_be n") auto
    then show ?thesis by (simp add: uint_code_def min_uint_def Let_def)
  qed
qed

lemma uint64_loop:
  assumes "n < 2 ^ 64"
  shows "asn1_uint64_loop (of_nat n) bs =
    (if n * 256 ^ length bs + nat_be bs < 2 ^ 64 then Some (of_nat (n * 256 ^ length bs + nat_be bs)) else None)"
  using assms
proof (induction bs arbitrary: n)
  case (Cons b bs)
  have u: "unat (of_nat n :: u64) = n" using Cons.prems by (simp add: unat_of_nat)
  have over: "drop_bit 56 (of_nat n :: u64) \<noteq> 0 \<longleftrightarrow> 2 ^ 56 \<le> n"
    by (simp add: word_unat_eq_iff unat_drop_bit u div_eq_0_iff not_less div_greater_zero_iff del: div_eq_0_iff)
  show ?case
  proof (cases "2 ^ 56 \<le> n")
    case True
    then have "2 ^ 64 \<le> n * 256" by simp
    also have "\<dots> \<le> n * 256 ^ length (b # bs)" by (simp add: mult_le_mono2)
    finally show ?thesis using True over by simp
  next
    case False
    have lt: "n * 256 + unat b < 2 ^ 64" using False unat_byte [of b] by simp
    show ?thesis
      using Cons.IH [OF lt] False over by (simp only: asn1_uint64_loop.simps shift_in_of_nat) (simp add: nat_be_Cons algebra_simps)
  qed
qed simp

definition read_der_uint :: "byte list \<Rightarrow> u64 option" where
  "read_der_uint bs = (if min_uint bs then asn1_uint64_loop 0 bs else None)"

lemma read_der_uint_exact: "read_der_uint bs = Some v \<longleftrightarrow> bs = uint_code (unat v)"
proof
  assume "read_der_uint bs = Some v"
  then have v: "min_uint bs" "nat_be bs < 2 ^ 64" "v = of_nat (nat_be bs)"
    using uint64_loop [of 0 bs] by (auto simp: read_der_uint_def split: if_splits)
  then have "unat v = nat_be bs" by (simp add: unat_of_nat)
  then show "bs = uint_code (unat v)" using uint_code_nat_be [OF v(1)] by simp
next
  assume "bs = uint_code (unat v)"
  then show "read_der_uint bs = Some v"
    using min_uint_code [of "unat v"] uint64_loop [of 0 bs] unat_less [of v] by (simp add: read_der_uint_def)
qed

lemma length_uint_code: "n < 2 ^ 64 \<Longrightarrow> length (uint_code n) \<le> 9"
  using length_min_be [of n 8] by (simp add: uint_code_def Let_def)

lemma deref_child: "cbs_ok d \<Longrightarrow> deref (cbs_data d) (cbs_len d) = ret (bytes_of d)"
  by (simp add: deref_def cbs_ok_def bytes_of_def)

lemma get_uint64_exact:
  "exact_reader CBS_get_asn1_uint64 (\<lambda>_ _. True) id (\<lambda>v. der_element (CBS_ASN1_INTEGER, uint_code (unat v))) (\<lambda>_. True)"
proof (rule exact_reader_eq)
  show "exact_reader CBS_get_asn1_uint64 (\<lambda>_ _. True) id
    ((\<lambda>bs. der_element (CBS_ASN1_INTEGER, bs)) \<circ> (\<lambda>v. uint_code (unat v))) (\<lambda>_. True)"
    unfolding CBS_get_asn1_uint64_def
  proof (rule exact_reader.mapped [OF get_asn1_exact, where dec = read_der_uint])
    show "length bs < 2 ^ 32 \<and> read_der_uint bs = Some v \<longleftrightarrow> True \<and> bs = uint_code (unat v)" for bs v
      using length_uint_code [of "unat v"] unat_less [of v] by (auto simp: read_der_uint_exact)
    show "case read_der_uint (bytes_of b) of
        None \<Rightarrow> seq (deref (cbs_data b) (cbs_len b)) (\<lambda>bs. if length bs = 0 then fail
          else if bs ! 0 AND 0x80 \<noteq> 0 then fail
          else if bs ! 0 = 0 \<and> length bs > 1 \<and> bs ! 1 AND 0x80 = 0 then fail
          else case asn1_uint64_loop 0 bs of None \<Rightarrow> fail | Some v \<Rightarrow> ret v) d = (Fail, d)
      | Some x \<Rightarrow> \<exists>w. seq (deref (cbs_data b) (cbs_len b)) (\<lambda>bs. if length bs = 0 then fail
          else if bs ! 0 AND 0x80 \<noteq> 0 then fail
          else if bs ! 0 = 0 \<and> length bs > 1 \<and> bs ! 1 AND 0x80 = 0 then fail
          else case asn1_uint64_loop 0 bs of None \<Rightarrow> fail | Some v \<Rightarrow> ret v) d = (Ok w, d) \<and> True \<and> id w = x"
      if "child_of b c" for b c d
      using that by (auto simp: child_of_def deref_child seq_basic act_run read_der_uint_def min_uint_def split: option.split)
  qed
qed simp_all

text \<open>
  Signed integers: the shortest big-endian suffix of the eight bytes that keeps the sign.
\<close>

definition sign_fill :: "byte list \<Rightarrow> byte" where
  "sign_fill bs = (if hd bs AND 0x80 \<noteq> 0 then 0xff else 0)"

fun shorten :: "byte list \<Rightarrow> byte list" where
  "shorten (a # b # rest) = (if a = sign_fill (b # rest) then shorten (b # rest) else a # b # rest)"
| "shorten bs = bs"

definition int_code :: "u64 \<Rightarrow> byte list" where
  "int_code v = shorten (be_bytes 8 v)"

definition sign_extend :: "nat \<Rightarrow> byte list \<Rightarrow> byte list" where
  "sign_extend n bs = replicate (n - length bs) (sign_fill bs) @ bs"

lemma shorten_nonempty: "bs \<noteq> [] \<Longrightarrow> shorten bs \<noteq> []"
  by (induction bs rule: shorten.induct) auto

lemma shorten_length: "length (shorten bs) \<le> length bs"
  by (induction bs rule: shorten.induct) auto

lemma shorten_idem: "shorten (shorten bs) = shorten bs"
  by (induction bs rule: shorten.induct) auto

lemma sign_fill_repeat [simp]: "sign_fill (sign_fill bs # cs) = sign_fill bs"
  by (simp add: sign_fill_def)

lemma sign_fill_shorten: "sign_fill (shorten bs) = sign_fill bs"
proof (induction bs rule: shorten.induct)
  case (1 a b rest)
  then show ?case by (cases "a = sign_fill (b # rest)") simp_all
qed simp_all

lemma extend_shorten: "sign_extend (length bs) (shorten bs) = bs"
proof (induction bs rule: shorten.induct)
  case (1 a b rest)
  show ?case
  proof (cases "a = sign_fill (b # rest)")
    case True
    have le: "length (shorten (b # rest)) \<le> length (b # rest)" by (rule shorten_length)
    have "sign_extend (Suc (length (b # rest))) (shorten (b # rest)) = sign_fill (b # rest) # sign_extend (length (b # rest)) (shorten (b # rest))"
      using le by (simp add: sign_extend_def sign_fill_shorten Suc_diff_le)
    then show ?thesis using 1 True by simp
  qed (simp add: sign_extend_def)
qed (simp_all add: sign_extend_def)

lemma shorten_fill: "bs \<noteq> [] \<Longrightarrow> shorten (replicate k (sign_fill bs) @ bs) = shorten bs"
proof (induction k)
  case (Suc k)
  have "replicate k (sign_fill bs) @ bs \<noteq> []" "sign_fill (replicate k (sign_fill bs) @ bs) = sign_fill bs"
    using Suc.prems by (cases k; simp)+
  then have "shorten (sign_fill bs # (replicate k (sign_fill bs) @ bs)) = shorten (replicate k (sign_fill bs) @ bs)"
    by (cases "replicate k (sign_fill bs) @ bs") auto
  then show ?case using Suc by simp
qed simp

lemma shorten_fixed: "shorten bs = bs \<longleftrightarrow>
  \<not> (1 < length bs \<and> bs ! 0 = 0 \<and> bs ! 1 AND 0x80 = 0) \<and> \<not> (1 < length bs \<and> bs ! 0 = 0xff \<and> bs ! 1 AND 0x80 \<noteq> 0)"
proof (cases bs rule: shorten.cases)
  case (1 a b rest)
  have "shorten (b # rest) \<noteq> a # b # rest" using shorten_length [of "b # rest"] by auto
  then show ?thesis by (auto simp: 1 sign_fill_def)
qed simp_all

definition read_der_int :: "byte list \<Rightarrow> u64 option" where
  "read_der_int bs = (if bs \<noteq> [] \<and> length bs \<le> 8 \<and> shorten bs = bs then Some (be_val (sign_extend 8 bs)) else None)"

lemma length_int_code: "length (int_code v) \<le> 8" "int_code v \<noteq> []"
  using shorten_length [of "be_bytes 8 v"] shorten_nonempty [of "be_bytes 8 v"] length_be_bytes [of 8 v]
  by (simp_all add: int_code_def flip: length_greater_0_conv)

lemma read_der_int_exact: "read_der_int bs = Some v \<longleftrightarrow> bs = int_code v"
proof
  assume h: "read_der_int bs = Some v"
  then have bs: "bs \<noteq> []" "length bs \<le> 8" "shorten bs = bs" "v = be_val (sign_extend 8 bs)"
    by (auto simp: read_der_int_def split: if_splits)
  then have "be_bytes 8 v = sign_extend 8 bs"
    using be_bytes_be_val [of "sign_extend 8 bs", where 'a = 64] by (simp add: sign_extend_def)
  then show "bs = int_code v" using shorten_fill [OF bs(1)] bs(3) by (simp add: int_code_def sign_extend_def)
next
  assume bs: "bs = int_code v"
  have "sign_extend 8 bs = be_bytes 8 v" using extend_shorten [of "be_bytes 8 v"] by (simp add: bs int_code_def)
  then have "be_val (sign_extend 8 bs) = v" by (simp add: be_val_be_bytes take_bit_ge)
  then show "read_der_int bs = Some v"
    using length_int_code [of v] bs shorten_idem [of "be_bytes 8 v"] by (simp add: read_der_int_def int_code_def)
qed

lemma get_int64_exact:
  "exact_reader CBS_get_asn1_int64 (\<lambda>_ _. True) id (\<lambda>v. der_element (CBS_ASN1_INTEGER, int_code v)) (\<lambda>_. True)"
proof (rule exact_reader_eq)
  show "exact_reader CBS_get_asn1_int64 (\<lambda>_ _. True) id ((\<lambda>bs. der_element (CBS_ASN1_INTEGER, bs)) \<circ> int_code) (\<lambda>_. True)"
    unfolding CBS_get_asn1_int64_def
  proof (rule exact_reader.mapped [OF get_asn1_exact, where dec = read_der_int])
    show "length bs < 2 ^ 32 \<and> read_der_int bs = Some v \<longleftrightarrow> True \<and> bs = int_code v" for bs v
      using length_int_code [of v] by (auto simp: read_der_int_exact)
    fix b c d
    assume b: "child_of b c"
    let ?bs = "bytes_of b"
    let ?f = "let n = cbs_len b in
       if n = 0 \<or> n > 8 then fail
       else seq (deref (cbs_data b) n) (\<lambda>bs.
         if n > 1 \<and> bs ! 0 = 0 \<and> bs ! 1 AND 0x80 = 0 then fail
         else if n > 1 \<and> bs ! 0 = 0xff \<and> bs ! 1 AND 0x80 \<noteq> 0 then fail
         else let is_negative = (bs ! 0 AND 0x80 \<noteq> 0)
              in ret (le_val (rev bs @ replicate (8 - n) (if is_negative then 0xff else 0))) :: (u64, CBS) act)"
    have len: "cbs_len b = length ?bs" using b by (simp add: child_of_def)
    have sign: "?bs \<noteq> [] \<Longrightarrow> (if ?bs ! 0 AND 0x80 \<noteq> 0 then 0xff else 0) = sign_fill ?bs"
      by (simp add: sign_fill_def hd_conv_nth)
    have ok: "cbs_ok b" using b by (simp add: child_of_def)
    have "?f d = (case read_der_int ?bs of None \<Rightarrow> (Fail, d) | Some x \<Rightarrow> (Ok x, d))"
    proof (cases "length ?bs = 0 \<or> length ?bs > 8")
      case True
      then show ?thesis by (auto simp: read_der_int_def len act_run)
    next
      case False
      then have ne: "?bs \<noteq> []" by auto
      have val: "le_val (rev ?bs @ replicate (8 - length ?bs) (if ?bs ! 0 AND 0x80 \<noteq> 0 then 0xff else 0)) = (be_val (sign_extend 8 ?bs) :: u64)"
        unfolding sign [OF ne] by (simp add: be_val_rev sign_extend_def)
      show ?thesis
        unfolding len Let_def if_not_P [OF False] deref_child [OF ok, unfolded len] seq_basic val
        using False by (simp add: read_der_int_def shorten_fixed act_run)
    qed
    then show "case read_der_int ?bs of None \<Rightarrow> ?f d = (Fail, d) | Some x \<Rightarrow> \<exists>w. ?f d = (Ok w, d) \<and> True \<and> id w = x"
      by (auto split: option.split)
  qed
qed simp_all

section \<open>Booleans and optional elements\<close>

definition bool_code :: "bool \<Rightarrow> byte list" where
  "bool_code b = [if b then 0xff else 0]"

definition read_der_bool :: "byte list \<Rightarrow> bool option" where
  "read_der_bool bs = (if bs = [0] then Some False else if bs = [0xff] then Some True else None)"

lemma byte_at_child: "cbs_ok d \<Longrightarrow> cbs_len d = 1 \<Longrightarrow> byte_at (cbs_data d) 0 = ret (hd (bytes_of d)) \<and> bytes_of d = [hd (bytes_of d)]"
  by (cases "cbs_data d") (simp_all add: byte_at_def bytes_of_def cbs_ok_def)

lemma get_bool_exact:
  "exact_reader CBS_get_asn1_bool (\<lambda>_ _. True) id (\<lambda>v. der_element (CBS_ASN1_BOOLEAN, bool_code v)) (\<lambda>_. True)"
proof (rule exact_reader_eq)
  show "exact_reader CBS_get_asn1_bool (\<lambda>_ _. True) id ((\<lambda>bs. der_element (CBS_ASN1_BOOLEAN, bs)) \<circ> bool_code) (\<lambda>_. True)"
    unfolding CBS_get_asn1_bool_def
  proof (rule exact_reader.mapped [OF get_asn1_exact, where dec = read_der_bool])
    show "length bs < 2 ^ 32 \<and> read_der_bool bs = Some v \<longleftrightarrow> True \<and> bs = bool_code v" for bs v
      by (auto simp: read_der_bool_def bool_code_def)
    fix b c d
    assume "child_of b c"
    then have ok: "cbs_ok b" by (simp add: child_of_def)
    let ?f = "if cbs_len b \<noteq> 1 then fail else seq (byte_at (cbs_data b) 0)
      (\<lambda>v. if v \<noteq> 0 \<and> v \<noteq> 0xff then fail else ret (v \<noteq> 0)) :: (bool, CBS) act"
    have "?f d = (case read_der_bool (bytes_of b) of None \<Rightarrow> (Fail, d) | Some x \<Rightarrow> (Ok x, d))"
    proof (cases "cbs_len b = 1")
      case True
      then obtain x where x: "byte_at (cbs_data b) 0 = (ret x :: (byte, CBS) act)" "bytes_of b = [x]"
        using byte_at_child [OF ok True] by metis
      show ?thesis unfolding x by (simp add: True read_der_bool_def seq_basic act_run)
    next
      case False
      then have "length (bytes_of b) \<noteq> 1" using ok by simp
      then show ?thesis using False by (auto simp: read_der_bool_def act_run)
    qed
    then show "case read_der_bool (bytes_of b) of None \<Rightarrow> ?f d = (Fail, d) | Some x \<Rightarrow> \<exists>w. ?f d = (Ok w, d) \<and> True \<and> id w = x"
      by (auto split: option.split)
  qed
qed simp_all

lemma peek_tag:
  assumes "cbs_ok c"
  shows "CBS_peek_asn1_tag t c = (Ok (\<exists>rest. bytes_of c = der_tag t @ rest), c)"
  using parse_asn1_tag_in_order [OF assms]
proof (cases rule: in_order_cases)
  case (Ok u d)
  have "t = u \<longleftrightarrow> (\<exists>rest. bytes_of c = der_tag t @ rest)"
    using tag.reads(1) [OF assms Ok(1)] parse_asn1_tag_accepts [OF assms, of t] Ok(1) by auto
  moreover have "cbs_len c \<noteq> 0"
    using Ok(1) by (auto simp: parse_asn1_tag_def seq_def CBS_get_u8_ok [OF assms] split: if_splits)
  ultimately show ?thesis using Ok(1) by (simp add: CBS_peek_asn1_tag_def seq_basic)
next
  case (Fail d)
  then have "\<nexists>rest. bytes_of c = der_tag t @ rest" using parse_asn1_tag_accepts [OF assms, of t] by auto
  then show ?thesis using Fail(1) by (auto simp: CBS_peek_asn1_tag_def seq_basic act_run)
qed

lemma optional_asn1:
  assumes "cbs_ok c"
  shows "\<nexists>rest. bytes_of c = der_tag t @ rest \<Longrightarrow> CBS_get_optional_asn1 t c = (Ok None, c)"
    "bytes_of c = der_tag t @ rest \<Longrightarrow> CBS_get_optional_asn1 t c = seq (CBS_get_asn1 t) (\<lambda>out. ret (Some out)) c"
  by (simp_all add: CBS_get_optional_asn1_def seq_def [of "CBS_peek_asn1_tag t"] peek_tag [OF assms] act_run)

text \<open>A reader that has to use up an element's contents.\<close>

definition whole_child :: "('a, CBS) act \<Rightarrow> CBS \<Rightarrow> ('a, CBS) act" where
  "whole_child m child = seq (on_child child m) (\<lambda>(out, child'). if cbs_len child' \<noteq> 0 then fail else ret out)"

context exact_reader
begin

lemma whole_accepts:
  assumes "cbs_ok child" "valid x" "bytes_of child = code x"
  shows "\<exists>v. whole_child get child d = (Ok v, d) \<and> good child v \<and> view v = x"
proof -
  obtain v where v: "get child = (Ok v, after (length (code x)) child)" "view v = x"
    using accepts [OF assms(1,2), of "[]"] assms(3) by auto
  have used: "cbs_len (after (length (code x)) child) = 0" using assms by (simp add: cbs_len_window flip: length_bytes_of)
  show ?thesis
    unfolding whole_child_def seq_on_child(1) [where m = get, OF v(1)] prod.case used
    using v ordered [OF assms(1)] by (simp add: in_order_def act_run)
qed

lemma whole_exact:
  assumes "cbs_ok child" "whole_child get child d = (Ok v, d')"
  shows "valid (view v)" "bytes_of child = code (view v)"
proof -
  obtain child' where g: "get child = (Ok v, child')" "cbs_len child' = 0"
    using assms(2) by (auto simp: whole_child_def on_child_def seq_def ret_def fail_def split: prod.splits outcome.splits if_splits)
  show "valid (view v)" using exact [OF assms(1) g(1)] by simp
  have "bytes_of child' = []" using g(2) by (simp add: bytes_of_def)
  then show "bytes_of child = code (view v)" using reads(1) [OF assms(1) g(1)] by simp
qed

lemma whole_fails:
  assumes "cbs_ok child" "\<nexists>x. valid x \<and> bytes_of child = code x"
  shows "whole_child get child d = (Fail, d)"
proof -
  have never: "whole_child get child d \<noteq> (Ok v, d)" for v
    using whole_exact [OF assms(1), of d v] assms(2) by blast
  show ?thesis
    using ordered [OF assms(1)]
  proof (cases rule: in_order_cases)
    case (Ok v e)
    then show ?thesis
      using never [of v] unfolding whole_child_def seq_on_child(1) [where m = get, OF Ok(1)] prod.case
      by (simp add: act_run split: if_splits)
  next
    case (Fail e)
    then show ?thesis by (simp add: whole_child_def seq_on_child(2) [where m = get])
  qed
qed

lemma whole_in_order:
  assumes "cbs_ok child" "cbs_ok d" "sub_of d c"
  shows "in_order c (\<lambda>v _. good child v) (whole_child get child d)"
proof (cases "\<exists>x. valid x \<and> bytes_of child = code x")
  case True
  then obtain x where "valid x" "bytes_of child = code x" by blast
  from whole_accepts [OF assms(1) this, of d] show ?thesis using assms(2,3) by (auto simp: in_order_def)
next
  case False
  then show ?thesis using whole_fails [OF assms(1), of d] assms(2,3) by (simp add: in_order_def)
qed

lemma inside_element:
  "exact_reader (seq (CBS_get_asn1 t) (whole_child get)) (\<lambda>_ _. True) view (\<lambda>x. der_element (t, code x))
     (\<lambda>x. valid x \<and> length (code x) < 2 ^ 32)"
proof (rule exact_reader_eq)
  define dec where "dec bs = (if \<exists>x. valid x \<and> bs = code x then Some (THE x. valid x \<and> bs = code x) else None)" for bs
  have dec: "dec (code x) = Some x" if "valid x" for x
  proof -
    have "(THE y. valid y \<and> code x = code y) = x"
    proof (rule the_equality)
      show "y = x" if y: "valid y \<and> code x = code y" for y
        using prefix_free [of x y "[]" "[]"] \<open>valid x\<close> y by simp
    qed (use that in simp)
    then show ?thesis using that by (auto simp: dec_def)
  qed
  have dec_code: "valid x \<and> bs = code x" if "dec bs = Some x" for bs x
  proof -
    obtain y where "valid y" "bs = code y" using \<open>dec bs = Some x\<close> by (auto simp: dec_def split: if_splits)
    then show ?thesis using dec [of y] that by simp
  qed
  show "exact_reader (seq (CBS_get_asn1 t) (whole_child get)) (\<lambda>_ _. True) view ((\<lambda>bs. der_element (t, bs)) \<circ> code)
     (\<lambda>x. valid x \<and> length (code x) < 2 ^ 32)"
  proof (rule exact_reader.mapped [OF get_asn1_exact, where dec = dec])
    show "length bs < 2 ^ 32 \<and> dec bs = Some x \<longleftrightarrow> (valid x \<and> length (code x) < 2 ^ 32) \<and> bs = code x" for bs x
      using dec dec_code by auto
    show "case dec (bytes_of b) of None \<Rightarrow> whole_child get b d = (Fail, d)
        | Some x \<Rightarrow> \<exists>w. whole_child get b d = (Ok w, d) \<and> True \<and> view w = x" if "child_of b c" for b c d
    proof (cases "\<exists>x. valid x \<and> bytes_of b = code x")
      case True
      then obtain x where x: "valid x" "bytes_of b = code x" by blast
      show ?thesis
        unfolding x(2) dec [OF x(1)] option.case
        using whole_accepts [of b x d] x that by (auto simp: child_of_def)
    next
      case False
      then show ?thesis using whole_fails [of b d] that by (simp add: child_of_def dec_def)
    qed
  qed
qed simp_all

end

interpretation get_asn1: exact_reader "CBS_get_asn1 t" "\<lambda>c d. child_of d c" bytes_of "\<lambda>bs. der_element (t, bs)"
  "\<lambda>bs. length bs < 2 ^ 32" for t
  by (rule get_asn1_exact)
interpretation asn1_uint64: exact_reader CBS_get_asn1_uint64 "\<lambda>_ _. True" id
  "\<lambda>v. der_element (CBS_ASN1_INTEGER, uint_code (unat v))" "\<lambda>_. True"
  by (rule get_uint64_exact)
interpretation asn1_int64: exact_reader CBS_get_asn1_int64 "\<lambda>_ _. True" id
  "\<lambda>v. der_element (CBS_ASN1_INTEGER, int_code v)" "\<lambda>_. True"
  by (rule get_int64_exact)
interpretation asn1_bool: exact_reader CBS_get_asn1_bool "\<lambda>_ _. True" id
  "\<lambda>v. der_element (CBS_ASN1_BOOLEAN, bool_code v)" "\<lambda>_. True"
  by (rule get_bool_exact)

text \<open>Optional elements with the tag in front are elements whose contents are one whole value.\<close>

lemma seq_on_result:
  assumes "m c = (r, d)" "\<And>x e. m c = (Ok x, e) \<Longrightarrow> f x e = g x e"
  shows "seq m f c = seq m g c"
  using assms by (simp add: seq_def split: outcome.split)

lemma optional_present:
  assumes "cbs_ok c" "bytes_of c = der_tag t @ rest"
  shows "CBS_get_optional_asn1_uint64 t n c = seq (CBS_get_asn1 t) (whole_child CBS_get_asn1_uint64) c"
    "CBS_get_optional_asn1_octet_string t c = seq (CBS_get_asn1 t)
       (\<lambda>child. seq (whole_child (CBS_get_asn1 CBS_ASN1_OCTETSTRING) child) (\<lambda>out. ret (out, True))) c"
  using optional_asn1(2) [OF assms]
  by (simp_all add: CBS_get_optional_asn1_uint64_def CBS_get_optional_asn1_octet_string_def whole_child_def
      seq_def ret_def fail_def split: prod.split outcome.split)

lemma optional_absent:
  assumes "cbs_ok c" "\<nexists>rest. bytes_of c = der_tag t @ rest"
  shows "CBS_get_optional_asn1_uint64 t n c = (Ok n, c)" "CBS_get_optional_asn1_bool t b c = (Ok b, c)"
    "CBS_get_optional_asn1_octet_string t c = (Ok (CBS_init [] 0, False), c)"
  using optional_asn1(1) [OF assms]
  by (simp_all add: CBS_get_optional_asn1_uint64_def CBS_get_optional_asn1_octet_string_def CBS_get_optional_asn1_bool_def
      seq_def ret_def)

lemma optional_bool_child:
  assumes "cbs_ok child"
  shows "seq (on_child child (CBS_get_asn1 CBS_ASN1_BOOLEAN)) (\<lambda>(child2, child').
         if cbs_len child2 \<noteq> 1 \<or> cbs_len child' \<noteq> 0 then fail
         else seq (byte_at (cbs_data child2) 0) (\<lambda>boolean.
           if boolean = 0 then ret False
           else if boolean = 0xff then ret True
           else fail)) d = whole_child CBS_get_asn1_bool child d"
  using get_asn1.ordered [OF assms, of CBS_ASN1_BOOLEAN]
proof (cases rule: in_order_cases)
  case (Ok b e)
  then have ok: "cbs_ok b" by (simp add: child_of_def)
  show ?thesis
  proof (cases "cbs_len b = 1")
    case True
    obtain x where x: "byte_at (cbs_data b) 0 = (\<lambda>s. (Ok x, s) :: byte outcome \<times> CBS)"
      using byte_at_child [OF ok True] by (metis ret_def)
    show ?thesis
      using Ok(1) by (auto simp: whole_child_def CBS_get_asn1_bool_def seq_def on_child_def x True act_run)
  next
    case False
    then show ?thesis
      using Ok(1) by (simp add: whole_child_def CBS_get_asn1_bool_def seq_def on_child_def act_run)
  qed
next
  case (Fail e)
  then show ?thesis by (simp add: whole_child_def CBS_get_asn1_bool_def seq_def on_child_def)
qed

lemma optional_bool_present:
  assumes "cbs_ok c" "bytes_of c = der_tag t @ rest"
  shows "CBS_get_optional_asn1_bool t n c = seq (CBS_get_asn1 t) (whole_child CBS_get_asn1_bool) c"
  using get_asn1.ordered [OF assms(1), of t]
proof (cases rule: in_order_cases)
  case (Ok b e)
  then show ?thesis
    using optional_asn1(2) [OF assms] optional_bool_child [of b e]
    by (simp add: CBS_get_optional_asn1_bool_def seq_def [of "CBS_get_optional_asn1 t"] seq_run(1) act_run child_of_def)
next
  case (Fail e)
  then show ?thesis
    using optional_asn1(2) [OF assms]
    by (simp add: CBS_get_optional_asn1_bool_def seq_def [of "CBS_get_optional_asn1 t"] seq_run(2))
qed

end
