(* ===== verification/Cbs_Props.thy ===== *)
theory Cbs_Props
  imports Cbs_Values
begin

text \<open>
  The properties of the reader of cbs.c: no reader leaves its window, and what each one accepts.
\<close>

section \<open>Readers stay inside their window\<close>

lemma in_order_on_copy:
  assumes "in_order c Q (m c)" "cbs_ok c"
  shows "in_order c (\<lambda>(x, d) _. Q x d \<and> child_of d c) (on_copy m c)"
  using assms by (cases rule: in_orderE) (auto simp: on_copy_def in_order_def child_of_def)

lemma in_order_on_child:
  assumes "in_order e Q (m e)" "child_of e c" "cbs_ok d" "sub_of d c"
  shows "in_order c (\<lambda>(x, e) _. Q x e \<and> child_of e c) (on_child e m d)"
  using assms by (cases rule: in_orderE) (auto simp: on_child_def in_order_def child_of_def intro: sub_of_trans)

lemma CBS_get_bytes_in_order:
  "cbs_ok c \<Longrightarrow> in_order c (\<lambda>d _. child_of d c) (CBS_get_bytes n c)"
  using after_facts [of c n] child_of_window [of c 0 n] by (simp add: CBS_get_bytes_ok in_order_def)

lemma cbs_get_u_in_order: "cbs_ok c \<Longrightarrow> in_order c (\<lambda>_ _. True) (cbs_get_u n c)"
  using after_facts [of c n] by (simp add: cbs_get_u_ok in_order_def)

lemma element_in_order:
  assumes "cbs_ok c"
  shows "in_order c (\<lambda>(out, _) _. child_of out c) (cbs_get_any_asn1_element ber c)"
proof -
  let ?Q = "\<lambda>(out, _) _. child_of out c" and ?C = "\<lambda>(x, d) _. child_of d c"
  have cut: "in_order c ?Q (seq (CBS_get_bytes n) (\<lambda>out. ret (out, t, h)) d)" if d: "cbs_ok d" "sub_of d c" for n t h d
  proof (rule in_order_seq)
    show "in_order c (\<lambda>out _. child_of out c) (CBS_get_bytes n d)"
      by (rule in_order_mono [OF CBS_get_bytes_in_order [OF d(1)] d(2)]) (auto simp: child_of_def intro: sub_of_trans d(2))
  qed (simp add: in_order_def act_run)
  have byte: "in_order c ?C (on_child h CBS_get_u8 d)" if "child_of h c" "cbs_ok d" "sub_of d c" for h d
    by (rule in_order_mono [OF in_order_on_child [where m = CBS_get_u8, OF CBS_get_u8_in_order that]])
      (use that in \<open>auto simp: child_of_def\<close>)
  have number: "in_order c ?C (on_child h (cbs_get_u n) d)" if "child_of h c" "cbs_ok d" "sub_of d c" for h n d
    by (rule in_order_mono [OF in_order_on_child [where m = "cbs_get_u n", OF cbs_get_u_in_order that]])
      (use that in \<open>auto simp: child_of_def\<close>)
  have tag: "in_order c ?C (on_copy parse_asn1_tag c)"
    by (rule in_order_mono [OF in_order_on_copy [where m = parse_asn1_tag, OF parse_asn1_tag_in_order [OF assms] assms]]) auto
  show ?thesis
    unfolding cbs_get_any_asn1_element_def
  proof (rule in_order_seq, rule tag, clarify)
    fix t h d
    assume d: "child_of h c" "sub_of d c" "cbs_ok d"
    show "in_order c ?Q (seq (on_child h CBS_get_u8) (\<lambda>(length_byte, header).
     seq (query cbs_len) (\<lambda>len0.
     let header_len = len0 - cbs_len header in
     if length_byte AND 0x80 = 0 then
       seq (CBS_get_bytes (unat length_byte + header_len)) (\<lambda>out. ret (out, t, header_len))
     else
       let num_bytes = unat (length_byte AND 0x7f) in
       if ber \<and> t AND CBS_ASN1_CONSTRUCTED \<noteq> 0 \<and> num_bytes = 0 then
         seq (CBS_get_bytes header_len) (\<lambda>out. ret (out, t, header_len))
       else if num_bytes = 0 \<or> num_bytes > 4 then fail
       else
         seq (on_child header (cbs_get_u num_bytes)) (\<lambda>(len64, _).
         if len64 < 128 then fail
         else if drop_bit ((num_bytes - 1) * 8) len64 = 0 then fail
         else if len64 + of_nat header_len + of_nat num_bytes < len64 then fail
         else seq (CBS_get_bytes (unat (len64 + (of_nat header_len + of_nat num_bytes))))
                (\<lambda>out. ret (out, t, header_len + num_bytes))))) d)"
    proof (rule in_order_seq, rule byte [OF d(1,3,2)], clarify)
      fix l h e
      assume e: "child_of h c" "sub_of e c" "cbs_ok e"
      have long: "in_order c ?Q (seq (on_child h (cbs_get_u n)) f e)"
        if "\<And>x e. sub_of e c \<Longrightarrow> cbs_ok e \<Longrightarrow> in_order c ?Q (f x e)" for n f
        by (rule in_order_seq, rule number [OF e(1,3,2)]) (use that in simp)
      show "in_order c ?Q (seq (query cbs_len) (\<lambda>len0.
     let header_len = len0 - cbs_len h in
     if l AND 0x80 = 0 then
       seq (CBS_get_bytes (unat l + header_len)) (\<lambda>out. ret (out, t, header_len))
     else
       let num_bytes = unat (l AND 0x7f) in
       if ber \<and> t AND CBS_ASN1_CONSTRUCTED \<noteq> 0 \<and> num_bytes = 0 then
         seq (CBS_get_bytes header_len) (\<lambda>out. ret (out, t, header_len))
       else if num_bytes = 0 \<or> num_bytes > 4 then fail
       else
         seq (on_child h (cbs_get_u num_bytes)) (\<lambda>(len64, _).
         if len64 < 128 then fail
         else if drop_bit ((num_bytes - 1) * 8) len64 = 0 then fail
         else if len64 + of_nat header_len + of_nat num_bytes < len64 then fail
         else seq (CBS_get_bytes (unat (len64 + (of_nat header_len + of_nat num_bytes))))
                (\<lambda>out. ret (out, t, header_len + num_bytes)))) e)"
        using e by (auto simp: seq_basic Let_def in_order_basic intro!: cut long)
    qed
  qed
qed

lemma strnlen_in_order:
  assumes "i + n \<le> length p"
  shows "\<exists>k \<le> i + n. OPENSSL_strnlen p i n = ret k"
  using assms
proof (induction n arbitrary: i)
  case (Suc n)
  have b: "byte_at p i = (ret (p ! i) :: (byte, 'a) act)" using Suc.prems by (simp add: byte_at_def)
  show ?case
  proof (cases "p ! i = 0")
    case True
    then show ?thesis by (intro exI [of _ i]) (simp add: b seq_basic)
  next
    case False
    then show ?thesis using Suc.IH [of "Suc i"] Suc.prems by (simp add: b seq_basic)
  qed
qed auto

lemma strdup_run:
  assumes "cbs_ok c"
  shows "\<exists>k \<le> cbs_len c. CBS_strdup a c = (if (k + 1) mod 2 ^ 64 < k \<or> \<not> a (k + 1) then (Fail, c)
    else (Ok (take k (bytes_of c) @ [0]), c))"
proof -
  obtain k where k: "k \<le> cbs_len c" "OPENSSL_strnlen (cbs_data c) 0 (cbs_len c) = (ret k :: (nat, CBS) act)"
    using strnlen_in_order [of 0 "cbs_len c" "cbs_data c"] assms by (auto simp: cbs_ok_def)
  then have "deref (cbs_data c) k = (ret (take k (bytes_of c)) :: (byte list, CBS) act)"
    using assms by (simp add: deref_def cbs_ok_def bytes_of_def min_absorb1)
  then show ?thesis
    using k by (intro exI [of _ k]) (simp add: CBS_strdup_def OPENSSL_strndup_def seq_basic act_run)
qed

lemma copying_in_order:
  assumes "cbs_ok c"
  shows "in_order c (\<lambda>_ _. True) (CBS_stow a c)" "in_order c (\<lambda>_ _. True) (CBS_strdup a c)"
    "in_order c (\<lambda>_ _. True) (CBS_contains_zero_byte c)" "in_order c (\<lambda>bs _. length bs = n) (CBS_copy_bytes n c)"
    "in_order c (\<lambda>_ _. True) (CBS_skip n c)" "in_order c (\<lambda>_ _. True) (CBS_get_last_u8 c)"
    "n \<le> length p \<Longrightarrow> in_order c (\<lambda>_ _. True) (CBS_mem_equal p n c)"
proof -
  show "in_order c (\<lambda>_ _. True) (CBS_stow a c)"
    using assms by (simp add: CBS_stow_def seq_basic deref_child in_order_basic)
  show "in_order c (\<lambda>_ _. True) (CBS_strdup a c)"
    using strdup_run [OF assms, of a] assms by (auto simp: in_order_def split: if_splits)
  show "in_order c (\<lambda>_ _. True) (CBS_contains_zero_byte c)"
    using assms by (simp add: CBS_contains_zero_byte_def seq_basic deref_child in_order_basic)
  show "in_order c (\<lambda>bs _. length bs = n) (CBS_copy_bytes n c)"
    using assms after_facts [OF assms, of n]
    by (simp add: CBS_copy_bytes_def seq_def cbs_get_ok deref_def in_order_def act_run cbs_ok_def)
  show "in_order c (\<lambda>_ _. True) (CBS_skip n c)"
    using assms after_facts [OF assms, of n] by (simp add: CBS_skip_ok in_order_def)
  have shrink: "child_of (c\<lparr>cbs_len := cbs_len c - 1\<rparr>) c"
    using child_of_window [OF assms, of 0 "cbs_len c - 1"] by (cases c) (simp add: window_def)
  show "in_order c (\<lambda>_ _. True) (CBS_get_last_u8 c)"
    using assms shrink by (auto simp: CBS_get_last_u8_def seq_basic byte_at_def cbs_ok_def child_of_def in_order_def act_run)
  show "in_order c (\<lambda>_ _. True) (CBS_mem_equal p n c)" if "n \<le> length p"
    using assms that by (simp add: CBS_mem_equal_def seq_basic deref_def in_order_basic cbs_ok_def)
qed

lemma window_trivial: "window 0 (cbs_len c) c = c"
  by (simp add: window_def)

lemma child_of_trans: "child_of a b \<Longrightarrow> child_of b c \<Longrightarrow> child_of a c"
  unfolding child_of_def by (blast intro: sub_of_trans)

lemma get_asn1_element_in_order:
  assumes "cbs_ok c"
  shows "in_order c (\<lambda>d _. child_of d c) (CBS_get_asn1_element t c)"
  using assms
proof (cases rule: element_cases)
  case stop
  then show ?thesis using assms by (simp add: CBS_get_asn1_element_def cbs_get_asn1_def seq_def in_order_def)
next
  case (element u n h)
  show ?thesis
    using element(2,5) assms after_facts [OF assms, of "h + n"] child_of_window [OF assms, of 0 "h + n"]
    by (simp add: CBS_get_asn1_element_def cbs_get_asn1_def seq_def in_order_def act_run)
qed

lemma optional_in_order:
  assumes "cbs_ok c"
  shows "in_order c (\<lambda>r _. \<forall>d. r = Some d \<longrightarrow> child_of d c) (CBS_get_optional_asn1 t c)"
    "in_order c (\<lambda>(d, p) _. p \<longrightarrow> child_of d c) (CBS_get_optional_asn1_octet_string t c)"
    "in_order c (\<lambda>_ _. True) (CBS_get_optional_asn1_uint64 t n c)"
    "in_order c (\<lambda>_ _. True) (CBS_get_optional_asn1_bool t b c)"
proof -
  let ?all = "in_order c (\<lambda>r _. \<forall>d. r = Some d \<longrightarrow> child_of d c) (CBS_get_optional_asn1 t c) \<and>
      in_order c (\<lambda>(d, p) _. p \<longrightarrow> child_of d c) (CBS_get_optional_asn1_octet_string t c) \<and>
      in_order c (\<lambda>_ _. True) (CBS_get_optional_asn1_uint64 t n c) \<and>
      in_order c (\<lambda>_ _. True) (CBS_get_optional_asn1_bool t b c)"
  have ?all
  proof (cases "\<exists>rest. bytes_of c = der_tag t @ rest")
    case False
    then show ?thesis
      using assms by (simp add: optional_asn1(1) [OF assms] optional_absent [OF assms] in_order_def)
  next
    case True
    then obtain rest where tag: "bytes_of c = der_tag t @ rest" by blast
    have "in_order c (\<lambda>r _. \<forall>d. r = Some d \<longrightarrow> child_of d c) (CBS_get_optional_asn1 t c)"
      unfolding optional_asn1(2) [OF assms tag]
      by (rule get_asn1.seq_in_order [OF assms]) (simp add: in_order_def act_run)
    moreover have "in_order c (\<lambda>(d, p) _. p \<longrightarrow> child_of d c) (CBS_get_optional_asn1_octet_string t c)"
      unfolding optional_present(2) [OF assms tag]
    proof (rule get_asn1.seq_in_order [OF assms])
      fix b d
      assume b: "child_of b c" "sub_of d c" "cbs_ok d"
      show "in_order c (\<lambda>(d, p) _. p \<longrightarrow> child_of d c)
          (seq (whole_child (CBS_get_asn1 CBS_ASN1_OCTETSTRING) b) (\<lambda>out. ret (out, True)) d)"
      proof (rule in_order_seq)
        show "in_order c (\<lambda>v _. child_of v b) (whole_child (CBS_get_asn1 CBS_ASN1_OCTETSTRING) b d)"
          using b by (intro get_asn1.whole_in_order) (simp_all add: child_of_def)
      qed (use child_of_trans [OF _ b(1)] in \<open>simp add: in_order_def act_run\<close>)
    qed
    moreover note exact_reader.ordered [OF asn1_uint64.inside_element assms, of t]
      exact_reader.ordered [OF asn1_bool.inside_element assms, of t]
    ultimately show ?thesis
      by (simp add: optional_present(1) [OF assms tag] optional_bool_present [OF assms tag])
  qed
  then show "in_order c (\<lambda>r _. \<forall>d. r = Some d \<longrightarrow> child_of d c) (CBS_get_optional_asn1 t c)"
    "in_order c (\<lambda>(d, p) _. p \<longrightarrow> child_of d c) (CBS_get_optional_asn1_octet_string t c)"
    "in_order c (\<lambda>_ _. True) (CBS_get_optional_asn1_uint64 t n c)"
    "in_order c (\<lambda>_ _. True) (CBS_get_optional_asn1_bool t b c)" by blast+
qed

section \<open>Bit strings\<close>

definition valid_bits :: "byte list \<Rightarrow> bool" where
  "valid_bits bs = (case bs of [] \<Rightarrow> False | u # data \<Rightarrow>
     u \<le> 7 \<and> (u = 0 \<or> data \<noteq> [] \<and> take_bit (unat u) (last data) = 0))"

lemma last_u8_bytes:
  assumes "cbs_ok c"
  shows "\<exists>d. CBS_get_last_u8 c = (if bytes_of c = [] then (Fail, c) else (Ok (last (bytes_of c)), d))"
proof (cases "cbs_len c = 0")
  case True
  then show ?thesis by (simp add: CBS_get_last_u8_def seq_basic act_run bytes_of_def)
next
  case False
  then have "bytes_of c \<noteq> []" using assms by (metis length_bytes_of list.size(3))
  moreover from this have "last (bytes_of c) = cbs_data c ! (cbs_len c - 1)"
    using False assms by (simp add: last_conv_nth) (simp add: bytes_of_def)
  ultimately show ?thesis
    using False assms by (auto simp: CBS_get_last_u8_def seq_basic byte_at_def cbs_ok_def act_run)
qed

lemma bitstring_check:
  assumes "cbs_ok c"
  shows "CBS_is_valid_asn1_bitstring c = (if valid_bits (bytes_of c) then (Ok (), c) else (Fail, c))"
proof (cases "bytes_of c")
  case Nil
  then have "cbs_len c = 0" using assms by (metis length_bytes_of list.size(3))
  then have "CBS_get_u8 c = (Fail, c)" by (simp add: CBS_get_u8_ok [OF assms])
  then show ?thesis unfolding CBS_is_valid_asn1_bitstring_def by (simp add: seq_on_copy(2) [where m = CBS_get_u8] valid_bits_def Nil)
next
  case (Cons u data)
  note at = CBS_get_u8_cons [OF assms Cons]
  have mask: "push_bit (unat u) 1 - 1 = (mask (unat u) :: byte)" by (simp add: mask_eq_exp_minus_1)
  obtain d where last: "CBS_get_last_u8 (after 1 c) = (if data = [] then (Fail, after 1 c) else (Ok (last data), d))"
    using last_u8_bytes [OF at(2)] unfolding at(3) by blast
  have rest: "seq (on_child (after 1 c) CBS_get_last_u8)
      (\<lambda>(last, _). if last AND (push_bit (unat u) 1 - 1) \<noteq> 0 then fail else ret ()) c =
    (if data \<noteq> [] \<and> take_bit (unat u) (last data) = 0 then (Ok (), c) else (Fail, c))"
  proof (cases "data = []")
    case True
    then show ?thesis using last by (simp add: seq_on_child(2) [where m = CBS_get_last_u8])
  next
    case False
    then have l: "CBS_get_last_u8 (after 1 c) = (Ok (last data), d)" using last by simp
    show ?thesis
      unfolding seq_on_child(1) [where m = CBS_get_last_u8, OF l] prod.case mask
      using False by (simp add: act_run take_bit_eq_mask)
  qed
  show ?thesis
    unfolding CBS_is_valid_asn1_bitstring_def seq_on_copy(1) [where m = CBS_get_u8, OF at(1)] prod.case
    using rest by (auto simp: valid_bits_def Cons act_run not_less)
qed

lemma bitstring_bit:
  assumes "cbs_ok c" "bytes_of c = u # data"
  shows "CBS_asn1_bitstring_has_bit n c = (Ok (valid_bits (u # data) \<and> unat n div 8 < length data \<and>
    bit (data ! (unat n div 8)) (7 - unat n mod 8)), c)"
proof (cases "valid_bits (u # data)")
  case False
  then show ?thesis by (simp add: CBS_asn1_bitstring_has_bit_def bitstring_check [OF assms(1)] assms(2))
next
  case True
  have len: "cbs_len c = Suc (length data)" using assms by (metis length_bytes_of length_Cons)
  have byte_num: "unat (drop_bit 3 n + 1) = Suc (unat n div 8)"
  proof -
    have "unat n div 8 + 1 < 2 ^ 32" using unat_less [of n] by simp
    then show ?thesis by (simp add: unat_word_ariths unat_drop_bit)
  qed
  have bit_num: "unat (7 - (n AND 7)) = 7 - unat n mod 8"
  proof -
    have "n AND 7 = take_bit 3 n" by (simp add: take_bit_eq_mask mask_eq_exp_minus_1)
    then have low: "unat (n AND 7) = unat n mod 8" by (simp only: unsigned_take_bit_eq) (simp add: take_bit_eq_mod)
    then have "n AND 7 \<le> 7" by (simp add: word_le_nat_alt)
    then show ?thesis using low by (simp only: unat_sub) simp
  qed
  have at: "byte_at (cbs_data c) (Suc i) = ret (data ! i)" if "i < length data" for i
  proof -
    have "(u # data) ! Suc i = cbs_data c ! Suc i" using that len unfolding assms(2) [symmetric] by (simp add: bytes_of_def)
    then show ?thesis using that len assms(1) by (simp add: byte_at_def cbs_ok_def)
  qed
  have test: "b AND 2 ^ k \<noteq> 0 \<longleftrightarrow> bit b k" for b :: byte and k
    by (simp add: and_exp_eq_0_iff_not_bit)
  show ?thesis
    using True unfolding CBS_asn1_bitstring_has_bit_def bitstring_check [OF assms(1)] assms(2) Let_def byte_num bit_num len
    by (simp add: at seq_basic act_run test)
qed

section \<open>Properties\<close>

lemma numbers_in_order:
  assumes "cbs_ok c"
  shows "in_order c (\<lambda>_ _. True) (CBS_get_u16 c)" "in_order c (\<lambda>_ _. True) (CBS_get_u16le c)"
    "in_order c (\<lambda>_ _. True) (CBS_get_u24 c)" "in_order c (\<lambda>_ _. True) (CBS_get_u32 c)"
    "in_order c (\<lambda>_ _. True) (CBS_get_u32le c)" "in_order c (\<lambda>_ _. True) (CBS_get_u64 c)"
    "in_order c (\<lambda>_ _. True) (CBS_get_u64le c)"
  unfolding CBS_get_u16_def CBS_get_u16le_def CBS_get_u24_def CBS_get_u32_def CBS_get_u32le_def CBS_get_u64_def CBS_get_u64le_def
  by (intro in_order_seq [where Q = "\<lambda>_ _. True"] cbs_get_u_in_order assms in_order_basic TrueI; assumption)+

lemma prefixed_in_order:
  assumes "cbs_ok c"
  shows "in_order c (\<lambda>d _. child_of d c) (cbs_get_length_prefixed n c)"
  unfolding cbs_get_length_prefixed_def
proof (rule in_order_seq, rule cbs_get_u_in_order [OF assms])
  fix v d
  assume d: "sub_of d c" "cbs_ok d"
  show "in_order c (\<lambda>e _. child_of e c) (CBS_get_bytes (unat v) d)"
    by (rule in_order_mono [OF CBS_get_bytes_in_order [OF d(2)] d(1)]) (auto simp: child_of_def intro: sub_of_trans d(1))
qed

lemma peek_in_order:
  assumes "cbs_ok c"
  shows "in_order c (\<lambda>_ d. d = c) (CBS_peek_asn1_tag t c)"
  using parse_asn1_tag_in_order [OF assms] assms
  by (cases rule: in_order_cases) (auto simp: CBS_peek_asn1_tag_def seq_basic in_order_def act_run)

lemma has_bit_in_order:
  assumes "cbs_ok c"
  shows "in_order c (\<lambda>_ d. d = c) (CBS_asn1_bitstring_has_bit n c)"
proof (cases "bytes_of c")
  case Nil
  then show ?thesis using assms by (simp add: CBS_asn1_bitstring_has_bit_def bitstring_check valid_bits_def in_order_def)
next
  case (Cons u data)
  then show ?thesis using assms by (simp add: bitstring_bit in_order_def)
qed

lemma readers_in_order:
  assumes "cbs_ok c"
  shows "in_order c (\<lambda>_ _. True) (CBS_skip n c) \<and>
    in_order c (\<lambda>_ _. True) (CBS_stow a c) \<and>
    in_order c (\<lambda>_ _. True) (CBS_strdup a c) \<and>
    in_order c (\<lambda>_ _. True) (CBS_contains_zero_byte c) \<and>
    (n \<le> length p \<longrightarrow> in_order c (\<lambda>_ _. True) (CBS_mem_equal p n c)) \<and>
    in_order c (\<lambda>bs _. length bs = n) (CBS_copy_bytes n c) \<and>
    in_order c (\<lambda>_ _. True) (CBS_get_u8 c) \<and>
    in_order c (\<lambda>_ _. True) (CBS_get_u16 c) \<and>
    in_order c (\<lambda>_ _. True) (CBS_get_u16le c) \<and>
    in_order c (\<lambda>_ _. True) (CBS_get_u24 c) \<and>
    in_order c (\<lambda>_ _. True) (CBS_get_u32 c) \<and>
    in_order c (\<lambda>_ _. True) (CBS_get_u32le c) \<and>
    in_order c (\<lambda>_ _. True) (CBS_get_u64 c) \<and>
    in_order c (\<lambda>_ _. True) (CBS_get_u64le c) \<and>
    in_order c (\<lambda>_ _. True) (CBS_get_last_u8 c) \<and>
    in_order c (\<lambda>d _. child_of d c) (CBS_get_bytes n c) \<and>
    in_order c (\<lambda>d _. child_of d c) (CBS_get_u8_length_prefixed c) \<and>
    in_order c (\<lambda>d _. child_of d c) (CBS_get_u16_length_prefixed c) \<and>
    in_order c (\<lambda>d _. child_of d c) (CBS_get_u24_length_prefixed c)"
    "in_order c (\<lambda>(d, _) _. child_of d c) (CBS_get_any_asn1_element c) \<and>
    in_order c (\<lambda>(d, _) _. child_of d c) (CBS_get_any_ber_asn1_element c) \<and>
    in_order c (\<lambda>(d, _) _. child_of d c) (CBS_get_any_asn1 c) \<and>
    in_order c (\<lambda>d _. child_of d c) (CBS_get_asn1 t c) \<and>
    in_order c (\<lambda>d _. child_of d c) (CBS_get_asn1_element t c) \<and>
    in_order c (\<lambda>_ d. d = c) (CBS_peek_asn1_tag t c) \<and>
    in_order c (\<lambda>_ _. True) (CBS_get_asn1_uint64 c) \<and>
    in_order c (\<lambda>_ _. True) (CBS_get_asn1_int64 c) \<and>
    in_order c (\<lambda>_ _. True) (CBS_get_asn1_bool c) \<and>
    in_order c (\<lambda>r _. \<forall>d. r = Some d \<longrightarrow> child_of d c) (CBS_get_optional_asn1 t c) \<and>
    in_order c (\<lambda>(d, p) _. p \<longrightarrow> child_of d c) (CBS_get_optional_asn1_octet_string t c) \<and>
    in_order c (\<lambda>_ _. True) (CBS_get_optional_asn1_uint64 t m c) \<and>
    in_order c (\<lambda>_ _. True) (CBS_get_optional_asn1_bool t b c) \<and>
    in_order c (\<lambda>_ d. d = c) (CBS_is_valid_asn1_bitstring c) \<and>
    in_order c (\<lambda>_ d. d = c) (CBS_asn1_bitstring_has_bit u c)"
  subgoal
    using copying_in_order [OF assms] CBS_get_bytes_in_order [OF assms] prefixed_in_order [OF assms]
      numbers_in_order [OF assms] CBS_get_u8_in_order [OF assms]
    by (simp add: CBS_get_u8_length_prefixed_def CBS_get_u16_length_prefixed_def CBS_get_u24_length_prefixed_def)
  subgoal
    using element_in_order [OF assms] element.ordered [OF assms] get_asn1.ordered [OF assms] get_asn1_element_in_order [OF assms]
      asn1_uint64.ordered [OF assms] asn1_int64.ordered [OF assms] asn1_bool.ordered [OF assms]
      optional_in_order [OF assms] bitstring_check [OF assms] peek_in_order [OF assms] has_bit_in_order [OF assms] assms
    by (simp add: CBS_get_any_asn1_element_def CBS_get_any_ber_asn1_element_def in_order_def case_prod_unfold)
  done

text \<open>
  C14. DER elements.  \<open>CBS_get_any_asn1\<close> succeeds exactly on a tag, a minimal length and as many bytes
  of contents, returns the tag and the contents, and leaves what follows.  Indefinite, non-minimal and
  over-long lengths and non-minimal tag numbers are therefore all rejected, and the encoding is
  uniquely readable.
\<close>

theorem der_element_exact:
  assumes "cbs_ok c"
  shows "(\<exists>out. CBS_get_any_asn1 c = (Ok (out, t), c') \<and> bytes_of out = contents) \<longleftrightarrow>
    length contents < 2 ^ 32 \<and> bytes_of c = der_element (t, contents) @ bytes_of c' \<and>
    c' = after (length (der_element (t, contents))) c"
  using element.reads_iff [OF assms, of c' "(t, contents)"] by (auto simp: tagged_contents_def der_ok_def)

theorem der_element_exact_witness:
  "\<exists>out. CBS_get_any_asn1 (CBS_init [0x3f, 0x81, 0x01, 2, 7, 8, 9] 7) = (Ok (out, 0x20000081), CBS_init [9] 1) \<and> bytes_of out = [7, 8]"
proof -
  have "bytes_of (CBS_init [0x3f, 0x81, 0x01, 2, 7, 8, 9] 7) = der_element (0x20000081, [7, 8]) @ bytes_of (CBS_init [9] 1)"
    "CBS_init [9] 1 = after (length (der_element (0x20000081, [7, 8]))) (CBS_init [0x3f, 0x81, 0x01, 2, 7, 8, 9] 7)"
    by code_simp+
  then show ?thesis
    using der_element_exact [of "CBS_init [0x3f, 0x81, 0x01, 2, 7, 8, 9] 7" "0x20000081" "CBS_init [9] 1" "[7, 8]"]
    by (simp add: cbs_ok_def CBS_init_def)
qed

text \<open>
  C15. Integers and booleans in DER.  The 64-bit integer readers accept exactly the shortest
  two's complement encodings (of non-negative values for the unsigned one, of every 64-bit value for
  the signed one), the boolean reader exactly \<open>00\<close> and \<open>ff\<close>, and return the value encoded.
\<close>

theorem der_values_exact:
  assumes "cbs_ok c"
  shows "(CBS_get_asn1_uint64 c = (Ok v, c') \<longleftrightarrow>
      bytes_of c = der_element (CBS_ASN1_INTEGER, uint_code (unat v)) @ bytes_of c' \<and>
      c' = after (length (der_element (CBS_ASN1_INTEGER, uint_code (unat v)))) c) \<and>
    (CBS_get_asn1_int64 c = (Ok v, c') \<longleftrightarrow>
      bytes_of c = der_element (CBS_ASN1_INTEGER, int_code v) @ bytes_of c' \<and>
      c' = after (length (der_element (CBS_ASN1_INTEGER, int_code v))) c) \<and>
    (CBS_get_asn1_bool c = (Ok b, c') \<longleftrightarrow>
      bytes_of c = der_element (CBS_ASN1_BOOLEAN, bool_code b) @ bytes_of c' \<and>
      c' = after (length (der_element (CBS_ASN1_BOOLEAN, bool_code b))) c)"
  using asn1_uint64.reads_iff [OF assms, of c' v] asn1_int64.reads_iff [OF assms, of c' v]
    asn1_bool.reads_iff [OF assms, of c' b]
  by simp

theorem der_values_exact_witness:
  "CBS_get_asn1_int64 (CBS_init [2, 2, 0xff, 0x7f, 1] 5) = (Ok (- 129), CBS_init [1] 1)"
proof -
  have "bytes_of (CBS_init [2, 2, 0xff, 0x7f, 1] 5) = der_element (2, int_code (- 129)) @ bytes_of (CBS_init [1] 1)"
    "CBS_init [1] 1 = after (length (der_element (2, int_code (- 129)))) (CBS_init [2, 2, 0xff, 0x7f, 1] 5)"
    by code_simp+
  moreover have "cbs_ok (CBS_init [2, 2, 0xff, 0x7f, 1] 5)" by (simp add: cbs_ok_def CBS_init_def)
  ultimately show ?thesis using der_values_exact [of "CBS_init [2, 2, 0xff, 0x7f, 1] 5" "- 129" "CBS_init [1] 1"] by blast
qed

text \<open>
  C16. Optional elements.  When the window starts with the tag, the optional integer and boolean are
  read exactly when the element's contents are one whole DER value; otherwise nothing is read and the
  default is returned.  The tag alone decides: a malformed element with that tag is an error.
\<close>

theorem optional_values_exact:
  assumes "cbs_ok c"
  shows "if \<exists>rest. bytes_of c = der_tag t @ rest
    then (CBS_get_optional_asn1_uint64 t n c = (Ok v, c') \<longleftrightarrow>
        bytes_of c = der_element (t, der_element (CBS_ASN1_INTEGER, uint_code (unat v))) @ bytes_of c' \<and>
        c' = after (length (der_element (t, der_element (CBS_ASN1_INTEGER, uint_code (unat v))))) c) \<and>
      (CBS_get_optional_asn1_bool t d c = (Ok b, c') \<longleftrightarrow>
        bytes_of c = der_element (t, der_element (CBS_ASN1_BOOLEAN, bool_code b)) @ bytes_of c' \<and>
        c' = after (length (der_element (t, der_element (CBS_ASN1_BOOLEAN, bool_code b)))) c)
    else CBS_get_optional_asn1_uint64 t n c = (Ok n, c) \<and> CBS_get_optional_asn1_bool t d c = (Ok d, c)"
proof (cases "\<exists>rest. bytes_of c = der_tag t @ rest")
  case False
  then show ?thesis using optional_absent [OF assms, of t] by simp
next
  case True
  then obtain rest where tag: "bytes_of c = der_tag t @ rest" by blast
  have short: "length (der_element (u, bs)) < 2 ^ 32" if "length bs \<le> 9" for u bs
    using that length_der_tag [of u] by (simp add: der_element_def der_length_def)
  have "length (uint_code (unat v)) \<le> 9" "length (bool_code b) \<le> 9"
    using length_uint_code [of "unat v"] unat_less [of v] by (simp_all add: bool_code_def)
  note short = this [THEN short]
  show ?thesis
    using True short exact_reader.reads_iff [OF asn1_uint64.inside_element assms, of t c' v]
      exact_reader.reads_iff [OF asn1_bool.inside_element assms, of t c' b]
    by (simp add: optional_present(1) [OF assms tag] optional_bool_present [OF assms tag])
qed

theorem optional_values_exact_witness:
  "CBS_get_optional_asn1_bool 0xa0000001 False (CBS_init [0xa1, 3, 1, 1, 0xff] 5) = (Ok True, CBS_init [] 0) \<and>
   CBS_get_optional_asn1_bool 0xa0000001 False (CBS_init [2, 1, 0] 3) = (Ok False, CBS_init [2, 1, 0] 3)"
proof
  let ?c = "CBS_init [0xa1, 3, 1, 1, 0xff] 5" and ?d = "CBS_init [2, 1, 0] 3"
  have "bytes_of ?c = der_tag 0xa0000001 @ [3, 1, 1, 0xff]" by code_simp
  then have present: "\<exists>rest. bytes_of ?c = der_tag 0xa0000001 @ rest" by blast
  have code: "bytes_of ?c = der_element (0xa0000001, der_element (1, bool_code True)) @ bytes_of (CBS_init [] 0)"
    "CBS_init [] 0 = after (length (der_element (0xa0000001, der_element (1, bool_code True)))) ?c"
    by code_simp+
  have ok: "cbs_ok ?c" "cbs_ok ?d" by (simp_all add: cbs_ok_def CBS_init_def)
  show "CBS_get_optional_asn1_bool 0xa0000001 False ?c = (Ok True, CBS_init [] 0)"
    using optional_values_exact [OF ok(1), of "0xa0000001" 0 0 "CBS_init [] 0" False True] code
    unfolding if_P [OF present] by blast
  have "der_tag 0xa0000001 = [0xa1]" "bytes_of ?d = [2, 1, 0]" by code_simp+
  then have absent: "\<not> (\<exists>rest. bytes_of ?d = der_tag 0xa0000001 @ rest)" by simp
  show "CBS_get_optional_asn1_bool 0xa0000001 False ?d = (Ok False, ?d)"
    using optional_values_exact [OF ok(2), of "0xa0000001" 0 0 "CBS_init [] 0" False True]
    unfolding if_not_P [OF absent] by blast
qed

text \<open>
  Tags.  A tag is read exactly in its shortest form: numbers below 31 in the first byte, larger ones
  up to 29 bits as a base-128 integer without leading zeros behind it.  Peeking at a tag answers
  whether the window starts with its code.
\<close>

theorem der_tag_exact:
  assumes "cbs_ok c"
  shows "(parse_asn1_tag c = (Ok t, c') \<longleftrightarrow> bytes_of c = der_tag t @ bytes_of c' \<and> c' = after (length (der_tag t)) c) \<and>
    (parse_base128_integer c = (Ok v, c') \<longleftrightarrow> bytes_of c = base128 v @ bytes_of c' \<and> c' = after (length (base128 v)) c) \<and>
    CBS_peek_asn1_tag t c = (Ok (\<exists>rest. bytes_of c = der_tag t @ rest), c)"
  using tag.reads_iff [OF assms, of c' t] base128.reads_iff [OF assms, of c' v] peek_tag [OF assms] by simp

theorem der_tag_exact_witness: "parse_asn1_tag (CBS_init [0x7f, 0x85, 0x23, 1] 4) = (Ok 0x600002a3, CBS_init [1] 1)"
proof -
  have "bytes_of (CBS_init [0x7f, 0x85, 0x23, 1] 4) = der_tag 0x600002a3 @ bytes_of (CBS_init [1] 1)"
    "CBS_init [1] 1 = after (length (der_tag 0x600002a3)) (CBS_init [0x7f, 0x85, 0x23, 1] 4)" by code_simp+
  moreover have "cbs_ok (CBS_init [0x7f, 0x85, 0x23, 1] 4)" by (simp add: cbs_ok_def CBS_init_def)
  ultimately show ?thesis
    using der_tag_exact [of "CBS_init [0x7f, 0x85, 0x23, 1] 4" "0x600002a3" "CBS_init [1] 1"] by blast
qed

text \<open>
  C17. Fixed-width integers and length-prefixed strings.  The big- and little-endian readers read exactly
  the bytes of the word, and a length-prefixed string exactly a big-endian length and that many bytes.
\<close>

theorem fixed_and_prefixed_exact:
  assumes "cbs_ok c"
  shows "(CBS_get_u16 c = (Ok x, c') \<longleftrightarrow> bytes_of c = be_bytes 2 x @ bytes_of c' \<and> c' = after 2 c) \<and>
    (CBS_get_u32 c = (Ok y, c') \<longleftrightarrow> bytes_of c = be_bytes 4 y @ bytes_of c' \<and> c' = after 4 c) \<and>
    (CBS_get_u16le c = (Ok x, c') \<longleftrightarrow> bytes_of c = le_bytes 2 x @ bytes_of c' \<and> c' = after 2 c) \<and>
    (CBS_get_u32le c = (Ok y, c') \<longleftrightarrow> bytes_of c = le_bytes 4 y @ bytes_of c' \<and> c' = after 4 c) \<and>
    (CBS_get_u64le c = (Ok z, c') \<longleftrightarrow> bytes_of c = le_bytes 8 z @ bytes_of c' \<and> c' = after 8 c) \<and>
    ((\<exists>out. CBS_get_u16_length_prefixed c = (Ok out, c') \<and> bytes_of out = bs) \<longleftrightarrow>
      length bs < 256 ^ 2 \<and> bytes_of c = prefixed 2 bs @ bytes_of c' \<and> c' = after (2 + length bs) c)"
  using u16.reads_iff [OF assms, of c' x] u32.reads_iff [OF assms, of c' y] u16le.reads_iff [OF assms, of c' x]
    u32le.reads_iff [OF assms, of c' y] u64le.reads_iff [OF assms, of c' z] u16_prefixed.reads_iff [OF assms, of c' bs]
  by (simp add: prefixed_def)

theorem fixed_and_prefixed_exact_witness: "CBS_get_u32le (CBS_init [1, 2, 3, 4, 5] 5) = (Ok 0x04030201, CBS_init [5] 1)"
proof -
  have "bytes_of (CBS_init [1, 2, 3, 4, 5] 5) = le_bytes 4 (0x04030201 :: u32) @ bytes_of (CBS_init [5] 1)"
    "CBS_init [5] 1 = after 4 (CBS_init [1, 2, 3, 4, 5] 5)" by code_simp+
  moreover have "cbs_ok (CBS_init [1, 2, 3, 4, 5] 5)" by (simp add: cbs_ok_def CBS_init_def)
  ultimately show ?thesis
    using fixed_and_prefixed_exact [of "CBS_init [1, 2, 3, 4, 5] 5" 0 "CBS_init [5] 1" "0x04030201"] by blast
qed

text \<open>
  C18. Bit strings.  A bit string is valid when its first byte counts at most seven unused bits, all
  zero and present; bit \<open>n\<close> of a valid one is bit \<open>7 - n mod 8\<close> of data byte \<open>n div 8\<close>, and bits
  beyond the data are absent, for every 32-bit \<open>n\<close>.
\<close>

theorem bitstring_exact:
  assumes "cbs_ok c"
  shows "CBS_is_valid_asn1_bitstring c = (if valid_bits (bytes_of c) then (Ok (), c) else (Fail, c)) \<and>
    (bytes_of c = u # data \<longrightarrow> CBS_asn1_bitstring_has_bit n c = (Ok (valid_bits (u # data) \<and>
      unat n div 8 < length data \<and> bit (data ! (unat n div 8)) (7 - unat n mod 8)), c))"
  using bitstring_check [OF assms] bitstring_bit [OF assms] by simp

theorem bitstring_exact_witness: "CBS_asn1_bitstring_has_bit 10 (CBS_init [5, 1, 0x20] 3) = (Ok True, CBS_init [5, 1, 0x20] 3)"
proof -
  have "bytes_of (CBS_init [5, 1, 0x20] 3) = 5 # [1, 0x20]" "valid_bits [5, 1, 0x20]" by code_simp+
  then show ?thesis
    using bitstring_exact [of "CBS_init [5, 1, 0x20] 3" 5 "[1, 0x20]" 10] by (simp add: cbs_ok_def CBS_init_def)
qed

lemma memcmp_acc: "foldl (\<lambda>x (a, b). x OR (a XOR b)) z ps = (0 :: byte) \<longleftrightarrow> z = 0 \<and> (\<forall>(a, b) \<in> set ps. a = b)"
proof (induction ps arbitrary: z)
  case (Cons p ps)
  obtain a b where p: "p = (a, b)" by (cases p)
  have "a = b" if "a XOR b = 0"
    using that by (metis xor.assoc xor.left_neutral xor.right_neutral xor_self_eq)
  then have "z OR (a XOR b) = 0 \<longleftrightarrow> z = 0 \<and> a = b"
    by (auto simp: or_eq_0_iff)
  then show ?case using Cons by (simp add: p)
qed simp

lemma zip_all_eq: "length as = length bs \<Longrightarrow> (\<forall>(a, b) \<in> set (zip as bs). a = b) \<longleftrightarrow> as = bs"
  by (induction as bs rule: list_induct2) auto

lemma memcmp_equal: "length as = length bs \<Longrightarrow> CRYPTO_memcmp as bs = 0 \<longleftrightarrow> as = bs"
  unfolding CRYPTO_memcmp_def memcmp_acc by (simp add: zip_all_eq)

text \<open>
  Comparison.  \<open>CBS_mem_equal\<close> decides equality of the strings although \<open>CRYPTO_memcmp\<close>
  accumulates the differences of all bytes, and never returns early inside the data.
\<close>

theorem mem_equal_decides:
  assumes "cbs_ok c" "n \<le> length p"
  shows "CBS_mem_equal p n c = (Ok (bytes_of c = take n p), c)"
proof (cases "n = cbs_len c")
  case True
  have "CRYPTO_memcmp (take n (cbs_data c)) (take n p) = 0 \<longleftrightarrow> take n (cbs_data c) = take n p"
    using assms True by (intro memcmp_equal) (simp add: cbs_ok_def)
  then show ?thesis
    using assms True by (simp add: CBS_mem_equal_def seq_basic deref_def cbs_ok_def act_run bytes_of_def)
next
  case False
  then have "bytes_of c \<noteq> take n p" using assms by (metis length_bytes_of length_take min.absorb2)
  then show ?thesis using False by (simp add: CBS_mem_equal_def seq_basic act_run)
qed

theorem mem_equal_decides_witness: "CBS_mem_equal [1, 2, 4] 3 (CBS_init [1, 2, 3] 3) = (Ok False, CBS_init [1, 2, 3] 3)"
  using mem_equal_decides [of "CBS_init [1, 2, 3] 3" 3 "[1, 2, 4]"] by (simp add: cbs_ok_def CBS_init_def bytes_of_def)

end
