(* ===== verification/Cbb.thy ===== *)
theory Cbb
  imports Cbs
begin

text \<open>
  The byte string builder of BoringSSL (crypto/bytestring/cbb.c), with the two functions of cbs.c that
  turn an object identifier into text through a builder.
\<close>

section \<open>The builder\<close>

text \<open>
  A \<open>CBB\<close> has at most one open child, so the \<open>CBB\<close>s that share a buffer form a chain; a \<open>CBB\<close> is named
  by its depth in it, 0 for the one that was initialised.  \<open>cbb_open\<close> has the children from depth 1 on.
  A depth behind the end of the chain is a child that was closed, whose \<open>base\<close> is the null pointer.
  (A child that is used after another one was opened in its place is therefore not distinguished
  from the new one.)  \<open>b_buf\<close> has \<open>cap\<close> bytes.  Lengths are natural numbers below \<open>2 ^ 64\<close> and their
  sums are reduced where the code computes them.

  Allocation is a parameter: \<open>cbb_alloc\<close> says which sizes are served and \<open>cbb_fresh\<close> what new memory
  contains at an index.
\<close>

record cbb_buffer_st =
  b_buf :: "byte list"
  b_len :: nat
  b_can_resize :: bool
  b_error :: bool

record cbb_pending =
  p_offset :: nat
  p_len_len :: nat
  p_is_asn1 :: bool

record CBB =
  cbb_base :: "cbb_buffer_st option"
  cbb_open :: "cbb_pending list"
  cbb_alloc :: "nat \<Rightarrow> bool"
  cbb_fresh :: "nat \<Rightarrow> byte"

abbreviation wrap :: "nat \<Rightarrow> nat" where "wrap n \<equiv> n mod 2 ^ 64"

definition b_cap :: "cbb_buffer_st \<Rightarrow> nat" where
  "b_cap b = length (b_buf b)"

definition CBB_zero :: "(unit, CBB) act" where
  "CBB_zero = update (\<lambda>s. s\<lparr>cbb_base := None, cbb_open := []\<rparr>)"

text \<open>\<open>sizeof (struct cbb_buffer_st)\<close>: a pointer, two sizes and two flags.\<close>

abbreviation (input) buffer_size :: nat where "buffer_size \<equiv> 32"

definition cbb_init :: "byte list \<Rightarrow> (unit, CBB) act" where
  "cbb_init buf = seq (query cbb_alloc) (\<lambda>alloc.
     if \<not> alloc buffer_size then fail
     else update (\<lambda>s. s\<lparr>cbb_base := Some \<lparr>b_buf = buf, b_len = 0, b_can_resize = True, b_error = False\<rparr>\<rparr>))"

definition CBB_init :: "nat \<Rightarrow> (unit, CBB) act" where
  "CBB_init initial_capacity = seq CBB_zero (\<lambda>_. seq (query cbb_alloc) (\<lambda>alloc.
     if initial_capacity > 0 \<and> \<not> alloc initial_capacity then fail
     else seq (query cbb_fresh) (\<lambda>fresh. cbb_init (map fresh [0..<initial_capacity]))))"

definition CBB_init_fixed :: "byte list \<Rightarrow> (unit, CBB) act" where
  "CBB_init_fixed buf = seq CBB_zero (\<lambda>_. seq (cbb_init buf) (\<lambda>_.
     update (\<lambda>s. s\<lparr>cbb_base := map_option (\<lambda>b. b\<lparr>b_can_resize := False\<rparr>) (cbb_base s)\<rparr>)))"

text \<open>Freeing memory has no effect on the model; \<open>assert (!cbb->is_child)\<close> fails for a child.\<close>

definition CBB_cleanup :: "nat \<Rightarrow> (unit, CBB) act" where
  "CBB_cleanup d = (if d > 0 then undef else update (\<lambda>s. s\<lparr>cbb_base := None, cbb_open := []\<rparr>))"

text \<open>Using \<open>cbb->base\<close>, which must not be null, and writing into the buffer.\<close>

definition with_base :: "(cbb_buffer_st \<Rightarrow> ('a, CBB) act) \<Rightarrow> ('a, CBB) act" where
  "with_base f = (\<lambda>s. case cbb_base s of None \<Rightarrow> (Ub, s) | Some b \<Rightarrow> f b s)"

definition put_base :: "cbb_buffer_st \<Rightarrow> (unit, CBB) act" where
  "put_base b = update (\<lambda>s. s\<lparr>cbb_base := Some b\<rparr>)"

definition set_b_error :: "('a, CBB) act" where
  "set_b_error = with_base (\<lambda>b. seq (put_base (b\<lparr>b_error := True\<rparr>)) (\<lambda>_. fail))"

definition write_at :: "nat \<Rightarrow> byte list \<Rightarrow> (unit, CBB) act" where
  "write_at p bs = with_base (\<lambda>b. if b_cap b < p + length bs then undef
     else put_base (b\<lparr>b_buf := overlay (b_buf b) p bs\<rparr>))"

section \<open>The buffer\<close>

text \<open>The result of the two functions is the index in the buffer their \<open>out\<close> points at.\<close>

definition cbb_buffer_reserve :: "nat \<Rightarrow> (nat, CBB) act" where
  "cbb_buffer_reserve n = (\<lambda>s. case cbb_base s of
      None \<Rightarrow> (Fail, s)
    | Some b \<Rightarrow>
        (let newlen = wrap (b_len b + n) in
         if newlen < b_len b then set_b_error s
         else if newlen > b_cap b then
           if \<not> b_can_resize b then set_b_error s
           else
             let newcap = wrap (b_cap b * 2);
                 newcap = (if newcap < b_cap b \<or> newcap < newlen then newlen else newcap)
             in if \<not> cbb_alloc s newcap then set_b_error s
                else seq (put_base (b\<lparr>b_buf := b_buf b @ map (cbb_fresh s) [b_cap b..<newcap]\<rparr>)) (\<lambda>_. ret (b_len b)) s
         else (Ok (b_len b), s)))"

definition cbb_buffer_add :: "nat \<Rightarrow> (nat, CBB) act" where
  "cbb_buffer_add n = seq (cbb_buffer_reserve n) (\<lambda>out.
     with_base (\<lambda>b. seq (put_base (b\<lparr>b_len := wrap (b_len b + n)\<rparr>)) (\<lambda>_. ret out)))"

text \<open>The loop that stores the bytes of a number in front of index \<open>p + i\<close>, and what is left of the number.\<close>

fun put_be :: "nat \<Rightarrow> nat \<Rightarrow> u64 \<Rightarrow> (u64, CBB) act" where
  "put_be p 0 v = ret v"
| "put_be p (Suc i) v = seq (write_at (p + i) [ucast v]) (\<lambda>_. put_be p i (drop_bit 8 v))"

definition cbb_buffer_add_u :: "u64 \<Rightarrow> nat \<Rightarrow> (unit, CBB) act" where
  "cbb_buffer_add_u v len_len =
     (if len_len = 0 then ret ()
      else seq (cbb_buffer_add len_len) (\<lambda>buf. seq (put_be buf len_len v) (\<lambda>v.
        if v \<noteq> 0 then set_b_error else ret ())))"

section \<open>Children\<close>

text \<open>Whether the \<open>CBB\<close> at a depth has a buffer, and the fields of the chain's entries.\<close>

definition has_child :: "nat \<Rightarrow> CBB \<Rightarrow> bool" where
  "has_child d s \<longleftrightarrow> d < length (cbb_open s)"

definition set_child :: "nat \<Rightarrow> cbb_pending \<Rightarrow> (unit, CBB) act" where
  "set_child d p = update (\<lambda>s. s\<lparr>cbb_open := (cbb_open s)[d := p]\<rparr>)"

text \<open>\<open>cbb->child->base = NULL; cbb->child = NULL\<close>\<close>

definition drop_child :: "nat \<Rightarrow> (unit, CBB) act" where
  "drop_child d = update (\<lambda>s. s\<lparr>cbb_open := take d (cbb_open s)\<rparr>)"

text \<open>The part of \<open>CBB_flush\<close> behind the recursive call: the prefix of the child is written.\<close>

definition length_form :: "nat \<Rightarrow> nat \<times> byte \<times> nat" where
  "length_form len =
     (if len > 0xffffff then (5, 0x84, len)
      else if len > 0xffff then (4, 0x83, len)
      else if len > 0xff then (3, 0x82, len)
      else if len > 0x7f then (2, 0x81, len)
      else (1, of_nat len, 0))"

definition make_space :: "nat \<Rightarrow> nat \<Rightarrow> nat \<Rightarrow> (unit, CBB) act" where
  "make_space child_start len extra_bytes = (\<lambda>s. case cbb_buffer_add extra_bytes s of
      (Ok _, s') \<Rightarrow> with_base (\<lambda>b. if b_cap b < child_start + len then undef
          else write_at (child_start + extra_bytes) (take len (drop child_start (b_buf b)))) s'
    | (Fail, s') \<Rightarrow> set_b_error s'
    | (Ub, s') \<Rightarrow> (Ub, s')
    | (NoFuel, s') \<Rightarrow> (NoFuel, s'))"

definition write_prefix :: "nat \<Rightarrow> cbb_pending \<Rightarrow> nat \<Rightarrow> (unit, CBB) act" where
  "write_prefix d child len = seq (put_be (p_offset child) (p_len_len child) (of_nat len)) (\<lambda>rest.
     if rest \<noteq> 0 then set_b_error else drop_child d)"

definition close_child :: "nat \<Rightarrow> nat \<Rightarrow> (unit, CBB) act" where
  "close_child d child_start = seq (query (\<lambda>s. cbb_open s ! d)) (\<lambda>child. with_base (\<lambda>b.
     let len = b_len b - child_start in
     if p_is_asn1 child then
       if p_len_len child \<noteq> 1 then undef
       else if len > 0xfffffffe then set_b_error
       else let (len_len, initial_length_byte, len') = length_form len in
         seq (if len_len \<noteq> 1 then make_space child_start len (len_len - 1) else ret ()) (\<lambda>_.
         seq (write_at (p_offset child) [initial_length_byte]) (\<lambda>_.
         let child' = child\<lparr>p_offset := wrap (p_offset child + 1), p_len_len := len_len - 1\<rparr> in
         seq (set_child d child') (\<lambda>_. write_prefix d child' len')))
     else write_prefix d child len))"

function CBB_flush :: "nat \<Rightarrow> (unit, CBB) act" where
  "CBB_flush d s = (case cbb_base s of
      None \<Rightarrow> (Fail, s)
    | Some b \<Rightarrow>
        if length (cbb_open s) < d \<or> b_error b then (Fail, s)
        else if \<not> has_child d s \<or> p_len_len (cbb_open s ! d) = 0 then (Ok (), s)
        else
          let child = cbb_open s ! d; child_start = wrap (p_offset child + p_len_len child) in
          case CBB_flush (Suc d) s of
            (Ok _, s') \<Rightarrow> with_base (\<lambda>b.
              if child_start < p_offset child \<or> b_len b < child_start then set_b_error
              else close_child d child_start) s'
          | (Fail, s') \<Rightarrow> set_b_error s'
          | (Ub, s') \<Rightarrow> (Ub, s')
          | (NoFuel, s') \<Rightarrow> (NoFuel, s'))"
  by pat_completeness auto
termination
  by (relation "measure (\<lambda>(d, s). length (cbb_open s) - d)") (auto simp: has_child_def)

declare CBB_flush.simps [simp del]

text \<open>The offset and prefix length of the \<open>CBB\<close> at a depth; both are 0 for the outermost one.\<close>

definition contents_start :: "nat \<Rightarrow> CBB \<Rightarrow> nat" where
  "contents_start d s = (if d = 0 then 0 else p_offset (cbb_open s ! (d - 1)) + p_len_len (cbb_open s ! (d - 1)))"

text \<open>Using the buffer of the \<open>CBB\<close> at a depth, which must be open.\<close>

definition with_base_of :: "nat \<Rightarrow> (cbb_buffer_st \<Rightarrow> ('a, CBB) act) \<Rightarrow> ('a, CBB) act" where
  "with_base_of d f = seq (query cbb_open) (\<lambda>ps. if length ps < d then undef else with_base f)"

definition CBB_data :: "nat \<Rightarrow> (nat, CBB) act" where
  "CBB_data d = seq (query (\<lambda>s. (has_child d s, contents_start d s))) (\<lambda>(child, start).
     with_base_of d (\<lambda>b. if child then undef else ret start))"

definition CBB_len :: "nat \<Rightarrow> (nat, CBB) act" where
  "CBB_len d = seq (query (\<lambda>s. (has_child d s, contents_start d s))) (\<lambda>(child, start).
     with_base_of d (\<lambda>b. if child \<or> b_len b < start then undef else ret (b_len b - start)))"

text \<open>The result of \<open>CBB_finish\<close> is what it stores through the pointers that are not null.\<close>

definition CBB_finish :: "nat \<Rightarrow> bool \<Rightarrow> bool \<Rightarrow> (byte list option \<times> nat option, CBB) act" where
  "CBB_finish d want_data want_len =
     (if d > 0 then fail
      else seq (CBB_flush d) (\<lambda>_. with_base (\<lambda>b.
        if b_can_resize b \<and> (\<not> want_data \<or> \<not> want_len) then fail
        else seq (CBB_cleanup d) (\<lambda>_.
          ret (if want_data then Some (b_buf b) else None, if want_len then Some (b_len b) else None)))))"

definition add_child :: "nat \<Rightarrow> cbb_pending \<Rightarrow> (unit, CBB) act" where
  "add_child d p = update (\<lambda>s. s\<lparr>cbb_open := take d (cbb_open s) @ [p]\<rparr>)"

definition cbb_add_length_prefixed :: "nat \<Rightarrow> nat \<Rightarrow> (unit, CBB) act" where
  "cbb_add_length_prefixed d len_len = seq (CBB_flush d) (\<lambda>_. with_base (\<lambda>b.
     seq (cbb_buffer_add len_len) (\<lambda>prefix_bytes. seq (write_at prefix_bytes (replicate len_len 0)) (\<lambda>_.
       add_child d \<lparr>p_offset = b_len b, p_len_len = len_len, p_is_asn1 = False\<rparr>))))"

definition CBB_add_u8_length_prefixed :: "nat \<Rightarrow> (unit, CBB) act" where
  "CBB_add_u8_length_prefixed d = cbb_add_length_prefixed d 1"

definition CBB_add_u16_length_prefixed :: "nat \<Rightarrow> (unit, CBB) act" where
  "CBB_add_u16_length_prefixed d = cbb_add_length_prefixed d 2"

definition CBB_add_u24_length_prefixed :: "nat \<Rightarrow> (unit, CBB) act" where
  "CBB_add_u24_length_prefixed d = cbb_add_length_prefixed d 3"

section \<open>Adding\<close>

definition CBB_add_bytes :: "nat \<Rightarrow> byte list \<Rightarrow> (unit, CBB) act" where
  "CBB_add_bytes d data = seq (CBB_flush d) (\<lambda>_. seq (cbb_buffer_add (length data)) (\<lambda>dest. write_at dest data))"

definition CBB_add_space :: "nat \<Rightarrow> nat \<Rightarrow> (nat, CBB) act" where
  "CBB_add_space d n = seq (CBB_flush d) (\<lambda>_. cbb_buffer_add n)"

definition CBB_reserve :: "nat \<Rightarrow> nat \<Rightarrow> (nat, CBB) act" where
  "CBB_reserve d n = seq (CBB_flush d) (\<lambda>_. cbb_buffer_reserve n)"

definition CBB_did_write :: "nat \<Rightarrow> nat \<Rightarrow> (unit, CBB) act" where
  "CBB_did_write d n = seq (query (has_child d)) (\<lambda>child. with_base_of d (\<lambda>b.
     let newlen = wrap (b_len b + n) in
     if child \<or> newlen < b_len b \<or> newlen > b_cap b then fail
     else put_base (b\<lparr>b_len := newlen\<rparr>)))"

definition CBB_add_u :: "nat \<Rightarrow> u64 \<Rightarrow> nat \<Rightarrow> (unit, CBB) act" where
  "CBB_add_u d v len_len = seq (CBB_flush d) (\<lambda>_. cbb_buffer_add_u v len_len)"

definition CBB_add_u8 :: "nat \<Rightarrow> byte \<Rightarrow> (unit, CBB) act" where
  "CBB_add_u8 d value = CBB_add_u d (ucast value) 1"

definition CBB_add_u16 :: "nat \<Rightarrow> u16 \<Rightarrow> (unit, CBB) act" where
  "CBB_add_u16 d value = CBB_add_u d (ucast value) 2"

definition CBB_add_u16le :: "nat \<Rightarrow> u16 \<Rightarrow> (unit, CBB) act" where
  "CBB_add_u16le d value = CBB_add_u16 d (CRYPTO_bswap2 value)"

definition CBB_add_u24 :: "nat \<Rightarrow> u32 \<Rightarrow> (unit, CBB) act" where
  "CBB_add_u24 d value = CBB_add_u d (ucast value) 3"

definition CBB_add_u32 :: "nat \<Rightarrow> u32 \<Rightarrow> (unit, CBB) act" where
  "CBB_add_u32 d value = CBB_add_u d (ucast value) 4"

definition CBB_add_u32le :: "nat \<Rightarrow> u32 \<Rightarrow> (unit, CBB) act" where
  "CBB_add_u32le d value = CBB_add_u32 d (CRYPTO_bswap4 value)"

definition CBB_add_u64 :: "nat \<Rightarrow> u64 \<Rightarrow> (unit, CBB) act" where
  "CBB_add_u64 d value = CBB_add_u d value 8"

definition CBB_add_u64le :: "nat \<Rightarrow> u64 \<Rightarrow> (unit, CBB) act" where
  "CBB_add_u64le d value = CBB_add_u64 d (CRYPTO_bswap8 value)"

definition CBB_discard_child :: "nat \<Rightarrow> (unit, CBB) act" where
  "CBB_discard_child d = seq (query (\<lambda>s. (has_child d s, cbb_open s))) (\<lambda>(child, ps).
     if \<not> child then ret ()
     else with_base (\<lambda>b. seq (put_base (b\<lparr>b_len := p_offset (ps ! d)\<rparr>)) (\<lambda>_. drop_child d)))"

section \<open>DER\<close>

text \<open>The two loops of \<open>add_base128_integer\<close>: the number of groups, and the groups from the top.\<close>

function base128_groups :: "u64 \<Rightarrow> nat" where
  "base128_groups copy = (if copy = 0 then 0 else Suc (base128_groups (drop_bit 7 copy)))"
  by pat_completeness auto
termination
proof (relation "measure unat")
  fix v :: u64
  assume "v \<noteq> 0"
  then show "(drop_bit 7 v, v) \<in> measure unat" using unat_drop_bit_less [of v 7] by simp
qed simp

declare base128_groups.simps [simp del]

fun add_groups :: "nat \<Rightarrow> u64 \<Rightarrow> nat \<Rightarrow> (unit, CBB) act" where
  "add_groups d v 0 = ret ()"
| "add_groups d v (Suc i) =
     seq (CBB_add_u8 d (let b = ucast (drop_bit (7 * i) v) AND 0x7f in if i \<noteq> 0 then b OR 0x80 else b))
       (\<lambda>_. add_groups d v i)"

definition add_base128_integer :: "nat \<Rightarrow> u64 \<Rightarrow> (unit, CBB) act" where
  "add_base128_integer d v =
     (let len_len = base128_groups v; len_len = (if len_len = 0 then 1 else len_len) in add_groups d v len_len)"

definition CBB_add_asn1 :: "nat \<Rightarrow> u32 \<Rightarrow> (unit, CBB) act" where
  "CBB_add_asn1 d tag = seq (CBB_flush d) (\<lambda>_.
     let tag_bits = ucast (drop_bit CBS_ASN1_TAG_SHIFT tag) AND 0xe0 :: byte;
         tag_number = tag AND CBS_ASN1_TAG_NUMBER_MASK
     in seq (if tag_number \<ge> 0x1f
             then seq (CBB_add_u8 d (tag_bits OR 0x1f)) (\<lambda>_. add_base128_integer d (ucast tag_number))
             else CBB_add_u8 d (tag_bits OR ucast tag_number)) (\<lambda>_.
        with_base (\<lambda>b. seq (CBB_add_u8 d 0) (\<lambda>_.
          add_child d \<lparr>p_offset = b_len b, p_len_len = 1, p_is_asn1 = True\<rparr>))))"

text \<open>The loop over the eight bytes of \<open>CBB_add_asn1_uint64\<close>; the result is \<open>started\<close>.\<close>

fun uint64_bytes :: "nat \<Rightarrow> u64 \<Rightarrow> bool \<Rightarrow> nat \<Rightarrow> (bool, CBB) act" where
  "uint64_bytes d v started 0 = ret started"
| "uint64_bytes d v started (Suc n) =
     (let b = ucast (drop_bit (8 * n) v) :: byte in
      if \<not> started then
        if b = 0 then uint64_bytes d v started n
        else seq (if b AND 0x80 \<noteq> 0 then CBB_add_u8 d 0 else ret ()) (\<lambda>_.
          seq (CBB_add_u8 d b) (\<lambda>_. uint64_bytes d v True n))
      else seq (CBB_add_u8 d b) (\<lambda>_. uint64_bytes d v started n))"

definition CBB_add_asn1_uint64 :: "nat \<Rightarrow> u64 \<Rightarrow> (unit, CBB) act" where
  "CBB_add_asn1_uint64 d value = seq (CBB_add_asn1 d CBS_ASN1_INTEGER) (\<lambda>_.
     seq (uint64_bytes (Suc d) value False 8) (\<lambda>started.
     seq (if \<not> started then CBB_add_u8 (Suc d) 0 else ret ()) (\<lambda>_. CBB_flush d)))"

text \<open>\<open>u.bytes\<close> are the bytes of the value in little-endian order.\<close>

fun int64_start :: "byte list \<Rightarrow> nat \<Rightarrow> nat" where
  "int64_start bs 0 = 0"
| "int64_start bs (Suc k) = (if bs ! Suc k = 0xff \<and> bs ! k AND 0x80 \<noteq> 0 then int64_start bs k else Suc k)"

fun int64_bytes :: "nat \<Rightarrow> byte list \<Rightarrow> nat \<Rightarrow> (unit, CBB) act" where
  "int64_bytes d bs 0 = ret ()"
| "int64_bytes d bs (Suc i) = seq (CBB_add_u8 d (bs ! i)) (\<lambda>_. int64_bytes d bs i)"

definition CBB_add_asn1_int64 :: "nat \<Rightarrow> u64 \<Rightarrow> (unit, CBB) act" where
  "CBB_add_asn1_int64 d value =
     (if sint value \<ge> 0 then CBB_add_asn1_uint64 d value
      else let bytes = le_bytes 8 value; start = int64_start bytes 7 in
        seq (CBB_add_asn1 d CBS_ASN1_INTEGER) (\<lambda>_.
        seq (int64_bytes (Suc d) bytes (Suc start)) (\<lambda>_. CBB_flush d)))"

definition CBB_add_asn1_octet_string :: "nat \<Rightarrow> byte list \<Rightarrow> (unit, CBB) act" where
  "CBB_add_asn1_octet_string d data = seq (CBB_add_asn1 d CBS_ASN1_OCTETSTRING) (\<lambda>_.
     seq (CBB_add_bytes (Suc d) data) (\<lambda>_. CBB_flush d))"

definition CBB_add_asn1_bool :: "nat \<Rightarrow> bool \<Rightarrow> (unit, CBB) act" where
  "CBB_add_asn1_bool d value = seq (CBB_add_asn1 d CBS_ASN1_BOOLEAN) (\<lambda>_.
     seq (CBB_add_u8 (Suc d) (if value then 0xff else 0)) (\<lambda>_. CBB_flush d))"

section \<open>Object identifiers\<close>

text \<open>The loop of \<open>parse_dotted_decimal\<close>, with \<open>*out\<close> and \<open>seen_digit\<close>.\<close>

abbreviation (input) UINT64_MAX :: u64 where "UINT64_MAX \<equiv> 0xffffffffffffffff"

function dotted_loop :: "u64 \<Rightarrow> bool \<Rightarrow> (u64, CBS) act" where
  "dotted_loop out seen_digit cbs = (case CBS_get_u8 cbs of
       (Ok u, cbs') \<Rightarrow>
         if u = 0x2e \<and> cbs_len cbs' > 0 then (if seen_digit then ret out else fail) cbs'
         else if u < 0x30 \<or> u > 0x39 \<or> seen_digit \<and> out = 0 \<or> out > UINT64_MAX div 10 \<or>
           out * 10 > UINT64_MAX - ucast (u - 0x30) then (Fail, cbs')
         else dotted_loop (out * 10 + ucast (u - 0x30)) True cbs'
     | (Fail, cbs') \<Rightarrow> (if seen_digit then ret out else fail) cbs'
     | (Ub, cbs') \<Rightarrow> (Ub, cbs')
     | (NoFuel, cbs') \<Rightarrow> (NoFuel, cbs'))"
  by pat_completeness auto
termination
  by (relation "measure (\<lambda>(out, seen, cbs). cbs_len cbs)") (auto dest: CBS_get_u8_decreases [OF sym])

declare dotted_loop.simps [simp del]

definition parse_dotted_decimal :: "(u64, CBS) act" where
  "parse_dotted_decimal = dotted_loop 0 False"

text \<open>A reader run on a local \<open>CBS\<close>, from a function that works on a builder.\<close>

definition on_cbs :: "CBS \<Rightarrow> ('a, CBS) act \<Rightarrow> ('a \<times> CBS, CBB) act" where
  "on_cbs cbs m = (\<lambda>s. case m cbs of
      (Ok x, cbs') \<Rightarrow> (Ok (x, cbs'), s)
    | (Fail, _) \<Rightarrow> (Fail, s)
    | (Ub, _) \<Rightarrow> (Ub, s)
    | (NoFuel, _) \<Rightarrow> (NoFuel, s))"

text \<open>The loop over the remaining components takes at most one round per byte, so the length is enough fuel.\<close>

fun oid_components :: "nat \<Rightarrow> nat \<Rightarrow> CBS \<Rightarrow> (unit, CBB) act" where
  "oid_components d k cbs = (if cbs_len cbs = 0 then ret () else case k of
       0 \<Rightarrow> (\<lambda>s. (NoFuel, s))
     | Suc k \<Rightarrow> seq (on_cbs cbs parse_dotted_decimal) (\<lambda>(a, cbs).
         seq (add_base128_integer d a) (\<lambda>_. oid_components d k cbs)))"

declare oid_components.simps [simp del]

definition CBB_add_asn1_oid_from_text :: "nat \<Rightarrow> byte list \<Rightarrow> (unit, CBB) act" where
  "CBB_add_asn1_oid_from_text d text = seq (CBB_flush d) (\<lambda>_.
     seq (on_cbs (CBS_init text (length text)) parse_dotted_decimal) (\<lambda>(a, cbs).
     seq (on_cbs cbs parse_dotted_decimal) (\<lambda>(b, cbs).
     if a > 2 \<or> a < 2 \<and> b > 39 \<or> b > UINT64_MAX - 80 then fail
     else seq (add_base128_integer d (40 * a + b)) (\<lambda>_. oid_components d (cbs_len cbs) cbs))))"

text \<open>\<open>BIO_snprintf\<close> with \<open>PRIu64\<close> prints the decimal digits; the buffer has room for 23 of them.\<close>

fun decimal :: "nat \<Rightarrow> byte list" where
  "decimal n = (if n < 10 then [of_nat (48 + n)] else decimal (n div 10) @ [of_nat (48 + n mod 10)])"

declare decimal.simps [simp del]

definition add_decimal :: "u64 \<Rightarrow> (unit, CBB) act" where
  "add_decimal v = CBB_add_bytes 0 (decimal (unat v))"

fun oid_text_loop :: "nat \<Rightarrow> CBS \<Rightarrow> (unit, CBB) act" where
  "oid_text_loop k copy = (if cbs_len copy = 0 then ret () else case k of
       0 \<Rightarrow> (\<lambda>s. (NoFuel, s))
     | Suc k \<Rightarrow> seq (on_cbs copy parse_base128_integer) (\<lambda>(v, copy).
         seq (CBB_add_u8 0 0x2e) (\<lambda>_. seq (add_decimal v) (\<lambda>_. oid_text_loop k copy))))"

declare oid_text_loop.simps [simp del]

text \<open>The result is the text with its terminating zero; the builder is a local variable.\<close>

definition CBS_asn1_oid_to_text :: "CBS \<Rightarrow> (byte list, CBB) act" where
  "CBS_asn1_oid_to_text cbs = seq (CBB_init 32) (\<lambda>_.
     seq (on_cbs cbs parse_base128_integer) (\<lambda>(v, copy).
     seq (if v \<ge> 80 then seq (CBB_add_bytes 0 [0x32, 0x2e]) (\<lambda>_. add_decimal (v - 80))
          else seq (add_decimal (v div 40)) (\<lambda>_. seq (CBB_add_u8 0 0x2e) (\<lambda>_. add_decimal (v mod 40)))) (\<lambda>_.
     seq (oid_text_loop (cbs_len copy) copy) (\<lambda>_.
     seq (CBB_add_u8 0 0) (\<lambda>_. seq (CBB_finish 0 True True) (\<lambda>(txt, txt_len).
       ret (take (the txt_len) (the txt))))))))"

section \<open>Sets\<close>

definition OPENSSL_memcmp :: "byte list \<Rightarrow> byte list \<Rightarrow> int" where
  "OPENSSL_memcmp as bs = (if as = bs then 0
     else case dropWhile (\<lambda>(a, b). a = b) (zip as bs) of [] \<Rightarrow> 0 | (a, b) # _ \<Rightarrow> if a < b then - 1 else 1)"

definition compare_set_of_element :: "byte list \<Rightarrow> byte list \<Rightarrow> int" where
  "compare_set_of_element a b =
     (let min_len = min (length a) (length b); r = OPENSSL_memcmp (take min_len a) (take min_len b)
      in if r \<noteq> 0 then r
         else if length a = length b then 0
         else if length a < length b then - 1 else 1)"

text \<open>Reading elements until the window is empty; the result is the bytes of each.\<close>

fun read_elements :: "nat \<Rightarrow> (byte list list, CBS) act" where
  "read_elements k = seq (query cbs_len) (\<lambda>n. if n = 0 then ret [] else case k of
       0 \<Rightarrow> (\<lambda>c. (NoFuel, c))
     | Suc k \<Rightarrow> seq CBS_get_any_asn1_element (\<lambda>(out, _).
         seq (deref (cbs_data out) (cbs_len out)) (\<lambda>bs. seq (read_elements k) (\<lambda>rest. ret (bs # rest)))))"

declare read_elements.simps [simp del]

fun add_all_bytes :: "nat \<Rightarrow> byte list list \<Rightarrow> (unit, CBB) act" where
  "add_all_bytes d [] = ret ()"
| "add_all_bytes d (x # xs) = seq (CBB_add_bytes d x) (\<lambda>_. add_all_bytes d xs)"

text \<open>\<open>sizeof (CBS)\<close> is 16.  Both passes over the elements read the same bytes.\<close>

definition CBB_flush_asn1_set_of :: "nat \<Rightarrow> (unit, CBB) act" where
  "CBB_flush_asn1_set_of d = seq (CBB_flush d) (\<lambda>_. seq (CBB_data d) (\<lambda>start. seq (CBB_len d) (\<lambda>n.
     with_base (\<lambda>b.
       seq (on_cbs (CBS_init (drop start (b_buf b)) n) (read_elements n)) (\<lambda>(children, _).
         if length children < 2 then ret ()
         else if length children > (2 ^ 64 - 1) div 16 then fail
         else seq (query cbb_alloc) (\<lambda>alloc.
           if \<not> alloc n \<or> \<not> alloc (length children * 16) then fail
           else seq (put_base (b\<lparr>b_len := start\<rparr>)) (\<lambda>_.
             seq (add_all_bytes d (qsort compare_set_of_element children)) (\<lambda>_.
             seq (CBB_len d) (\<lambda>len. if len \<noteq> n then undef else ret ())))))))))"

end
