(* ===== verification/Cbb_Spec.thy ===== *)
theory Cbb_Spec
  imports Cbb Cbs_Values
begin

text \<open>
  The builder of cbb.c refines an abstract builder: a stack of open strings, each with the kind of
  prefix it will get and what was added to it so far.  The buffer is the rendering of the stack with
  zeros in place of the prefixes that are still open.
\<close>

section \<open>The abstract builder\<close>

datatype prefix_kind = Fixed nat | Asn1

type_synonym frames = "(prefix_kind \<times> byte list) list"

fun prefix_len :: "prefix_kind \<Rightarrow> nat" where
  "prefix_len (Fixed n) = n"
| "prefix_len Asn1 = 1"

definition render :: "frames \<Rightarrow> byte list" where
  "render fs = concat (map (\<lambda>(k, bs). replicate (prefix_len k) 0 @ bs) fs)"

definition pending :: "prefix_kind \<Rightarrow> nat \<Rightarrow> cbb_pending" where
  "pending k n = \<lparr>p_offset = n, p_len_len = prefix_len k, p_is_asn1 = (k = Asn1)\<rparr>"

text \<open>The chain entries of the frames that start at offset \<open>n\<close>.\<close>

fun pend :: "nat \<Rightarrow> frames \<Rightarrow> cbb_pending list" where
  "pend n [] = []"
| "pend n ((k, bs) # fs) = pending k n # pend (n + prefix_len k + length bs) fs"

definition close_code :: "prefix_kind \<Rightarrow> byte list \<Rightarrow> byte list option" where
  "close_code k bs = (case k of
      Fixed n \<Rightarrow> if length bs < 256 ^ n then Some (prefixed n bs) else None
    | Asn1 \<Rightarrow> if length bs \<le> 0xfffffffe then Some (der_length (length bs) @ bs) else None)"

fun collapse :: "frames \<Rightarrow> byte list option" where
  "collapse [] = Some []"
| "collapse ((k, bs) # fs) = (case collapse fs of None \<Rightarrow> None | Some r \<Rightarrow> close_code k (bs @ r))"

definition add_last :: "byte list \<Rightarrow> frames \<Rightarrow> frames" where
  "add_last bs fs = butlast fs @ [(fst (last fs), snd (last fs) @ bs)]"

definition flush_frames :: "nat \<Rightarrow> frames \<Rightarrow> frames option" where
  "flush_frames d fs = map_option (\<lambda>r. add_last r (take (Suc d) fs)) (collapse (drop (Suc d) fs))"

lemma render_simps [simp]:
  "render [] = []" "render ((k, bs) # fs) = replicate (prefix_len k) 0 @ bs @ render fs"
  "render (fs @ gs) = render fs @ render gs"
  by (simp_all add: render_def)

lemma render_add_last [simp]: "fs \<noteq> [] \<Longrightarrow> render (add_last bs fs) = render fs @ bs"
  by (induction fs rule: rev_induct) (auto simp: add_last_def split: prod.split)

lemma add_last_snoc [simp]: "add_last bs (fs @ [(k, cs)]) = fs @ [(k, cs @ bs)]"
  by (simp add: add_last_def)

lemma length_add_last [simp]: "fs \<noteq> [] \<Longrightarrow> length (add_last bs fs) = length fs"
  by (simp add: add_last_def)

lemma add_last_nonempty [simp]: "add_last bs fs \<noteq> []"
  by (simp add: add_last_def)

lemma length_pend [simp]: "length (pend n fs) = length fs"
  by (induction n fs rule: pend.induct) auto

lemma pend_append: "pend n (fs @ gs) = pend n fs @ pend (n + length (render fs)) gs"
  by (induction n fs rule: pend.induct) (simp_all add: add.assoc)

lemma close_code_length: "close_code k bs = Some c \<Longrightarrow> prefix_len k + length bs \<le> length c"
  by (cases k) (auto simp: close_code_def prefixed_def der_length_def split: if_splits)

section \<open>Refinement\<close>

definition frames_ok :: "frames \<Rightarrow> bool" where
  "frames_ok fs \<longleftrightarrow> fs \<noteq> [] \<and> (\<forall>(k, bs) \<in> set (tl fs). k = Asn1 \<or> (\<exists>n. k = Fixed n \<and> 0 < n \<and> n \<le> 7)) \<and> fst (hd fs) = Fixed 0"

definition holds_frames :: "frames \<Rightarrow> CBB \<Rightarrow> cbb_buffer_st \<Rightarrow> bool" where
  "holds_frames fs s b \<longleftrightarrow> cbb_base s = Some b \<and> \<not> b_error b \<and> b_cap b < 2 ^ 64 \<and> b_len b \<le> b_cap b \<and>
     take (b_len b) (b_buf b) = render fs \<and> cbb_open s = tl (pend 0 fs)"

definition builds :: "frames \<Rightarrow> CBB \<Rightarrow> bool" where
  "builds fs s \<longleftrightarrow> frames_ok fs \<and> (\<exists>b. holds_frames fs s b)"

definition failed :: "CBB \<Rightarrow> bool" where
  "failed s \<longleftrightarrow> (\<exists>b. cbb_base s = Some b \<and> b_error b)"

text \<open>
  The environment of a builder that no operation changes, and whether a number of bytes certainly fits:
  into a fixed buffer, or into one that can grow when every allocation is served.
\<close>

definition keeps :: "CBB \<Rightarrow> CBB \<Rightarrow> bool" where
  "keeps s t \<longleftrightarrow> cbb_alloc t = cbb_alloc s \<and> (\<forall>b. cbb_base s = Some b \<longrightarrow> (\<exists>c. cbb_base t = Some c \<and>
     b_can_resize c = b_can_resize b \<and> b_cap b \<le> b_cap c \<and> (\<not> b_can_resize b \<longrightarrow> b_cap c = b_cap b)))"

definition fits :: "nat \<Rightarrow> CBB \<Rightarrow> bool" where
  "fits n s \<longleftrightarrow> n < 2 ^ 64 \<and> (\<exists>b. cbb_base s = Some b \<and> (n \<le> b_cap b \<or> b_can_resize b \<and> (\<forall>k. cbb_alloc s k)))"

text \<open>
  An operation implements a partial function on frames: it never does anything undefined, what it
  builds when it returns true is the function's value, and it returns false, marking the builder, only
  when there is no value or the value need not fit.
\<close>

definition implements :: "(frames \<Rightarrow> bool) \<Rightarrow> ('a, CBB) act \<Rightarrow> (frames \<Rightarrow> ('a \<times> frames) option) \<Rightarrow> bool" where
  "implements P m F \<longleftrightarrow>
     (\<forall>fs s. P fs \<longrightarrow> builds fs s \<longrightarrow> (case m s of
         (Ok x, t) \<Rightarrow> (\<exists>gs. F fs = Some (x, gs) \<and> builds gs t \<and> keeps s t)
       | (Fail, t) \<Rightarrow> failed t \<and> (\<forall>x gs. F fs = Some (x, gs) \<longrightarrow> \<not> fits (length (render gs)) s)
       | _ \<Rightarrow> False)) \<and>
     (\<forall>fs x gs. P fs \<longrightarrow> frames_ok fs \<longrightarrow> F fs = Some (x, gs) \<longrightarrow> length (render fs) \<le> length (render gs))"

lemma keeps_refl [simp]: "keeps s s"
  by (simp add: keeps_def)

lemma keeps_trans: "keeps s t \<Longrightarrow> keeps t u \<Longrightarrow> keeps s u"
  unfolding keeps_def by (metis le_trans)

lemma fits_keeps: "keeps s t \<Longrightarrow> fits n s \<Longrightarrow> fits n t"
  unfolding keeps_def fits_def by (metis le_trans)

lemma fits_mono: "fits n s \<Longrightarrow> m \<le> n \<Longrightarrow> fits m s"
  unfolding fits_def by (metis le_trans order.strict_trans1)

lemma implementsD:
  assumes "implements P m F" "P fs" "builds fs s"
  obtains (Ok) x t gs where "m s = (Ok x, t)" "F fs = Some (x, gs)" "builds gs t" "keeps s t"
  | (Fail) t where "m s = (Fail, t)" "failed t" "\<And>x gs. F fs = Some (x, gs) \<Longrightarrow> \<not> fits (length (render gs)) s"
proof -
  obtain r t where m: "m s = (r, t)" by (cases "m s")
  then show thesis
    using assms that unfolding implements_def by (cases r) (force split: prod.splits)+
qed

lemma implements_seq:
  assumes "implements P m F" "\<And>x. implements (Q x) (f x) (G x)"
    and step: "\<And>fs x gs. P fs \<Longrightarrow> frames_ok fs \<Longrightarrow> F fs = Some (x, gs) \<Longrightarrow> Q x gs \<and> frames_ok gs"
  shows "implements P (seq m f) (\<lambda>fs. Option.bind (F fs) (\<lambda>(x, gs). G x gs))"
  unfolding implements_def
proof (intro conjI allI impI)
  fix fs s
  assume P: "P fs" and s: "builds fs s"
  from s have fs: "frames_ok fs" by (simp add: builds_def)
  show "case seq m f s of
         (Ok y, t) \<Rightarrow> \<exists>hs. Option.bind (F fs) (\<lambda>(x, gs). G x gs) = Some (y, hs) \<and> builds hs t \<and> keeps s t
       | (Fail, t) \<Rightarrow> failed t \<and> (\<forall>y hs. Option.bind (F fs) (\<lambda>(x, gs). G x gs) = Some (y, hs) \<longrightarrow> \<not> fits (length (render hs)) s)
       | (Ub, t) \<Rightarrow> False | (NoFuel, t) \<Rightarrow> False"
    using assms(1) P s
  proof (cases rule: implementsD)
    case (Ok x t gs)
    then have Q: "Q x gs" "frames_ok gs" using step [OF P fs] by simp_all
    show ?thesis
      using assms(2) Q(1) Ok(3)
    proof (cases rule: implementsD)
      case (Ok y u hs)
      then show ?thesis
        using \<open>m s = (Ok x, t)\<close> \<open>F fs = Some (x, gs)\<close> \<open>keeps s t\<close> keeps_trans by (auto simp: seq_run)
    next
      case (Fail u)
      then show ?thesis
        using \<open>m s = (Ok x, t)\<close> \<open>F fs = Some (x, gs)\<close> fits_keeps [OF \<open>keeps s t\<close>] by (auto simp: seq_run)
    qed
  next
    case (Fail t)
    have small: "length (render gs) \<le> length (render hs)" if "F fs = Some (x, gs)" "G x gs = Some (y, hs)" for x gs y hs
      using assms(2) [of x] step [OF P fs that(1)] that(2) unfolding implements_def by blast
    show ?thesis
      using Fail fits_mono [OF _ small] by (auto simp: seq_run bind_eq_Some_conv)
  qed
next
  fix fs y hs
  assume P: "P fs" "frames_ok fs" and "Option.bind (F fs) (\<lambda>(x, gs). G x gs) = Some (y, hs)"
  then obtain x gs where g: "F fs = Some (x, gs)" "G x gs = Some (y, hs)" by (auto simp: bind_eq_Some_conv)
  have "length (render fs) \<le> length (render gs)" using assms(1) P g(1) unfolding implements_def by blast
  also have "\<dots> \<le> length (render hs)"
    using assms(2) [of x] step [OF P g(1)] g(2) unfolding implements_def by blast
  finally show "length (render fs) \<le> length (render hs)" .
qed

text \<open>Without a prefix condition that depends on results, and for results that do not matter.\<close>

lemma implements_ret: "implements P (ret x) (\<lambda>fs. Some (x, fs))"
  by (simp add: implements_def ret_def)

lemma implements_weaken:
  assumes "implements P m F" "\<And>fs. Q fs \<Longrightarrow> P fs" "\<And>fs. Q fs \<Longrightarrow> frames_ok fs \<Longrightarrow> F fs = G fs"
  shows "implements Q m G"
  unfolding implements_def
proof (intro conjI allI impI)
  fix fs s
  assume q: "Q fs" "builds fs s"
  then have eq: "F fs = G fs" using assms(3) by (simp add: builds_def)
  show "case m s of (Ok x, t) \<Rightarrow> \<exists>gs. G fs = Some (x, gs) \<and> builds gs t \<and> keeps s t
       | (Fail, t) \<Rightarrow> failed t \<and> (\<forall>x gs. G fs = Some (x, gs) \<longrightarrow> \<not> fits (length (render gs)) s)
       | (Ub, t) \<Rightarrow> False | (NoFuel, t) \<Rightarrow> False"
    using assms(1) assms(2) [OF q(1)] q(2) by (cases rule: implementsD) (simp_all add: eq)
next
  fix fs x gs
  assume "Q fs" "frames_ok fs" "G fs = Some (x, gs)"
  then show "length (render fs) \<le> length (render gs)"
    using assms unfolding implements_def by (metis (no_types))
qed

section \<open>The buffer\<close>

lemma builds_at:
  assumes "builds fs s"
  obtains b where "cbb_base s = Some b" "\<not> b_error b" "b_cap b < 2 ^ 64" "b_len b = length (render fs)"
    "b_buf b = render fs @ drop (length (render fs)) (b_buf b)" "cbb_open s = tl (pend 0 fs)" "length (render fs) \<le> b_cap b"
proof -
  obtain b where b: "holds_frames fs s b" using assms by (auto simp: builds_def)
  then have "length (render fs) = b_len b" unfolding holds_frames_def b_cap_def by (metis length_take min.absorb2)
  then show thesis
    using b that [of b] append_take_drop_id [of "b_len b" "b_buf b"] unfolding holds_frames_def by metis
qed

abbreviation at_base :: "CBB \<Rightarrow> cbb_buffer_st \<Rightarrow> CBB" where
  "at_base s b \<equiv> s\<lparr>cbb_base := Some b\<rparr>"

lemma reserve_run:
  assumes "cbb_base s = Some b" "b_cap b < 2 ^ 64" "b_len b \<le> b_cap b" "n < 2 ^ 64"
  obtains (Ok) ext where "cbb_buffer_reserve n s = (Ok (b_len b), at_base s (b\<lparr>b_buf := b_buf b @ ext\<rparr>))"
      "b_len b + n \<le> b_cap b + length ext" "b_cap b + length ext < 2 ^ 64" "\<not> b_can_resize b \<longrightarrow> ext = []"
  | (Fail) "cbb_buffer_reserve n s = (Fail, at_base s (b\<lparr>b_error := True\<rparr>))" "\<not> fits (b_len b + n) s"
proof -
  have err: "set_b_error s = (Fail, at_base s (b\<lparr>b_error := True\<rparr>))"
    using assms(1) by (simp add: set_b_error_def with_base_def put_base_def act_simps)
  note run = cbb_buffer_reserve_def [of n] assms(1)
  consider (big) "2 ^ 64 \<le> b_len b + n" | (here) "b_len b + n < 2 ^ 64" "b_len b + n \<le> b_cap b"
    | (grow) "b_len b + n < 2 ^ 64" "b_cap b < b_len b + n" by linarith
  then show thesis
  proof cases
    case big
    have "wrap (b_len b + n) = b_len b + n - 2 ^ 64"
      using big assms(2-4) by (subst le_mod_geq) simp_all
    then have "wrap (b_len b + n) < b_len b" using big assms(4) by simp
    then have "cbb_buffer_reserve n s = set_b_error s" by (simp add: run Let_def)
    then show ?thesis using Fail big by (simp add: err fits_def)
  next
    case here
    then show ?thesis
      using Ok [of "[]"] assms(1,2) by (simp add: run Let_def)
  next
    case grow
    define cap where "cap = (if wrap (b_cap b * 2) < b_cap b \<or> wrap (b_cap b * 2) < b_len b + n then b_len b + n else wrap (b_cap b * 2))"
    have cap: "b_len b + n \<le> cap" "cap < 2 ^ 64" "b_cap b \<le> cap" using grow by (auto simp: cap_def)
    have w: "wrap (b_len b + n) = b_len b + n" using grow(1) by simp
    have "cbb_buffer_reserve n s = (if \<not> b_can_resize b then set_b_error s else if \<not> cbb_alloc s cap then set_b_error s
      else (Ok (b_len b), at_base s (b\<lparr>b_buf := b_buf b @ map (cbb_fresh s) [b_cap b..<cap]\<rparr>)))"
      unfolding run option.case Let_def w cap_def using grow(2) by (simp add: put_base_def act_simps)
    note reserve = this
    show ?thesis
    proof (cases "b_can_resize b \<and> cbb_alloc s cap")
      case True
      show ?thesis by (rule Ok [of "map (cbb_fresh s) [b_cap b..<cap]"]) (use reserve True cap in simp_all)
    next
      case False
      show ?thesis by (rule Fail) (use reserve False grow assms(1) in \<open>auto simp: err fits_def\<close>)
    qed
  qed
qed

lemma overlay_middle: "length bs = length cs \<Longrightarrow> overlay (as @ cs @ ds) (length as) bs = as @ bs @ ds"
  by (simp add: overlay_def)

lemma write_at_run:
  "cbb_base s = Some b \<Longrightarrow> p + length bs \<le> b_cap b \<Longrightarrow> write_at p bs s = (Ok (), at_base s (b\<lparr>b_buf := overlay (b_buf b) p bs\<rparr>))"
  by (simp add: write_at_def with_base_def put_base_def act_simps)

lemma overlay_before:
  assumes "p + length bs + length cs \<le> length m"
  shows "overlay (overlay m (p + length bs) cs) p bs = overlay m p (bs @ cs)"
  using assms by (simp add: overlay_def drop_take ac_simps)

lemma put_be_run:
  assumes "cbb_base s = Some b" "p + k \<le> b_cap b"
  shows "put_be p k v s = (Ok (drop_bit (8 * k) v), at_base s (b\<lparr>b_buf := overlay (b_buf b) p (be_bytes k v)\<rparr>))"
  using assms
proof (induction k arbitrary: v s b)
  case 0
  then show ?case by (simp add: be_bytes_def act_run)
next
  case (Suc k)
  have code: "be_bytes (Suc k) v = be_bytes k (drop_bit 8 v) @ [ucast v]" by (simp add: be_bytes_def le_bytes_Suc)
  have shift: "drop_bit (8 * k) (drop_bit 8 v) = drop_bit (8 * Suc k) v" by (simp add: add.commute)
  let ?b = "b\<lparr>b_buf := overlay (b_buf b) (p + k) [ucast v]\<rparr>"
  have cap: "p + k \<le> b_cap ?b" using Suc.prems by (simp add: b_cap_def)
  have "overlay (overlay (b_buf b) (p + k) [ucast v]) p (be_bytes k (drop_bit 8 v)) = overlay (b_buf b) p (be_bytes (Suc k) v)"
    using overlay_before [of p "be_bytes k (drop_bit 8 v)" "[ucast v]" "b_buf b"] Suc.prems by (simp add: code b_cap_def)
  then show ?case
    using Suc.IH [of "at_base s ?b" ?b "drop_bit 8 v", unfolded shift] cap Suc.prems
    by (simp add: seq_run(1) [where m = "write_at (p + k) [ucast v]", OF write_at_run])
qed

text \<open>Adding space at the end: the buffer has its old contents, the new space and a tail.\<close>

lemma buffer_add_run:
  assumes "cbb_base s = Some b" "b_cap b < 2 ^ 64" "b_len b \<le> b_cap b" "n < 2 ^ 64"
  obtains (Ok) c where "cbb_buffer_add n s = (Ok (b_len b), at_base s c)" "b_len c = b_len b + n"
      "b_error c = b_error b" "b_cap c < 2 ^ 64" "b_len c \<le> b_cap c" "take (b_cap b) (b_buf c) = b_buf b"
      "keeps s (at_base s c)"
  | (Fail) "cbb_buffer_add n s = (Fail, at_base s (b\<lparr>b_error := True\<rparr>))" "\<not> fits (b_len b + n) s"
  using assms
proof (cases rule: reserve_run)
  case (Ok ext)
  let ?b = "b\<lparr>b_buf := b_buf b @ ext\<rparr>"
  have cap: "b_cap ?b = b_cap b + length ext" by (simp add: b_cap_def)
  have "wrap (b_len b + n) = b_len b + n" using Ok(2,3) by simp
  then have "cbb_buffer_add n s = (Ok (b_len b), at_base s (?b\<lparr>b_len := b_len b + n\<rparr>))"
    using Ok(1) by (simp add: cbb_buffer_add_def seq_run(1) with_base_def put_base_def act_simps)
  then show ?thesis
    by (rule that(1)) (use Ok cap assms(1) in \<open>auto simp: b_cap_def keeps_def\<close>)
next
  case Fail
  then show ?thesis by (intro that(2)) (simp_all add: cbb_buffer_add_def seq_run)
qed

lemma failed_at_base [simp]: "failed (at_base s (b\<lparr>b_error := True\<rparr>))"
  by (simp add: failed_def)

lemma keeps_buf:
  "cbb_base s = Some b \<Longrightarrow> length m = b_cap b \<Longrightarrow> keeps s (at_base s (b\<lparr>b_buf := m\<rparr>))"
  by (simp add: keeps_def b_cap_def)

text \<open>Space followed by writing all of it appends to the innermost frame.\<close>

lemma pend_add_last: "fs \<noteq> [] \<Longrightarrow> pend n (add_last bs fs) = pend n fs"
proof (induction fs arbitrary: n)
  case (Cons f fs)
  obtain k cs where f: "f = (k, cs)" by (cases f)
  show ?case
  proof (cases fs)
    case Nil
    then show ?thesis by (simp add: f add_last_def)
  next
    case (Cons g gs)
    then have "add_last bs (f # fs) = f # add_last bs fs" by (simp add: add_last_def)
    then show ?thesis using Cons.IH [of "n + prefix_len k + length cs"] Cons by (simp add: f)
  qed
qed simp

lemma frames_ok_add_last: "frames_ok fs \<Longrightarrow> frames_ok (add_last bs fs)"
proof -
  assume ok: "frames_ok fs"
  then obtain gs k cs where fs: "fs = gs @ [(k, cs)]"
    by (cases fs rule: rev_cases) (auto simp: frames_ok_def)
  show ?thesis using ok unfolding fs add_last_snoc by (cases gs) (auto simp: frames_ok_def)
qed

lemma append_builds:
  assumes "builds fs s" "length bs < 2 ^ 64"
    and wr: "\<And>c t. cbb_base t = Some c \<Longrightarrow> length (render fs) + length bs \<le> b_cap c \<Longrightarrow>
      w (length (render fs)) t = (Ok x, at_base t (c\<lparr>b_buf := overlay (b_buf c) (length (render fs)) bs\<rparr>))"
  obtains (Ok) t where "seq (cbb_buffer_add (length bs)) w s = (Ok x, t)" "builds (add_last bs fs) t" "keeps s t"
  | (Fail) t where "seq (cbb_buffer_add (length bs)) w s = (Fail, t)" "failed t" "\<not> fits (length (render fs) + length bs) s"
proof -
  obtain b where b: "cbb_base s = Some b" "\<not> b_error b" "b_cap b < 2 ^ 64" "b_len b = length (render fs)"
    "b_buf b = render fs @ drop (length (render fs)) (b_buf b)" "cbb_open s = tl (pend 0 fs)" "length (render fs) \<le> b_cap b"
    using builds_at [OF assms(1)] .
  have ok: "frames_ok fs" "fs \<noteq> []" using assms(1) by (auto simp: builds_def frames_ok_def)
  have le: "b_len b \<le> b_cap b" using b by simp
  show thesis
    using b(1,3) le assms(2)
  proof (cases rule: buffer_add_run)
    case (Ok c)
    let ?n = "length (render fs)" and ?c = "c\<lparr>b_buf := overlay (b_buf c) (length (render fs)) bs\<rparr>"
    have w: "w ?n (at_base s c) = (Ok x, at_base s ?c)"
      using wr [of "at_base s c" c] Ok(2,5) b(4) by simp
    have "take ?n (b_buf c) = render fs"
      using Ok(6) b(5,7) by (metis append_eq_conv_conj min.absorb1 take_take)
    then have "take (b_len ?c) (b_buf ?c) = render fs @ bs" using Ok(2) b(4) by (simp add: overlay_def)
    moreover have "b_cap ?c = b_cap c" using Ok(2,5) b(4) by (simp add: b_cap_def)
    ultimately have "builds (add_last bs fs) (at_base s ?c)"
      using ok b Ok by (auto simp: builds_def holds_frames_def frames_ok_add_last pend_add_last)
    moreover have "keeps s (at_base s ?c)"
      using Ok(7) \<open>b_cap ?c = b_cap c\<close> by (simp add: keeps_def)
    ultimately show ?thesis using that(1) Ok(1) w by (simp add: seq_run b(4))
  next
    case Fail
    then show ?thesis using that(2) by (simp add: seq_run b(4))
  qed
qed

section \<open>Closing a child\<close>

lemma open_last:
  assumes "fs \<noteq> []"
  shows "tl (pend 0 (fs @ [(k, bs)])) ! (length fs - 1) = pending k (length (render fs))"
    "take (length fs - 1) (tl (pend 0 (fs @ [(k, bs)]))) = tl (pend 0 fs)"
proof -
  obtain p ps where p: "pend 0 fs = p # ps" using assms by (metis length_pend length_0_conv neq_Nil_conv)
  then have l: "length fs - 1 = length ps" using length_pend [of 0 fs] by simp
  show "tl (pend 0 (fs @ [(k, bs)])) ! (length fs - 1) = pending k (length (render fs))"
    "take (length fs - 1) (tl (pend 0 (fs @ [(k, bs)]))) = tl (pend 0 fs)"
    unfolding l by (simp_all add: pend_append p)
qed

lemma number_left: "n < 2 ^ 64 \<Longrightarrow> drop_bit (8 * k) (of_nat n :: u64) = 0 \<longleftrightarrow> n < 256 ^ k"
  by (simp add: word_unat_eq_iff unat_drop_bit unat_of_nat div_eq_0_iff power_mult)

lemma frames_ok_front: "frames_ok (fs @ [f]) \<Longrightarrow> fs \<noteq> [] \<Longrightarrow> frames_ok fs"
  by (cases fs) (auto simp: frames_ok_def)

text \<open>A builder whose innermost frame has been written out becomes part of its parent.\<close>

lemma closed_builds:
  assumes "frames_ok fs" "cbb_base s = Some b" "\<not> b_error b" "b_cap b < 2 ^ 64"
    "b_buf b = render fs @ c @ tail" "b_len b = length (render fs) + length c" "cbb_open s = tl (pend 0 fs)"
  shows "builds (add_last c fs) s"
proof -
  have "fs \<noteq> []" using assms(1) by (simp add: frames_ok_def)
  then show ?thesis
    using assms by (simp add: builds_def holds_frames_def frames_ok_add_last pend_add_last b_cap_def)
qed

lemma write_prefix_run:
  assumes "cbb_base s = Some b" "b_buf b = render fs @ pre @ z @ tail" "length z = k" "n < 2 ^ 64"
    and child: "p_offset child = length (render fs) + length pre" "p_len_len child = k"
    and ok: "frames_ok fs" "\<not> b_error b" "b_cap b < 2 ^ 64" "take d (cbb_open s) = tl (pend 0 fs)"
    and len: "b_len b = length (render fs) + length pre + k + length bs" "tail = bs @ rest"
  shows "n < 256 ^ k \<Longrightarrow> \<exists>t. write_prefix d child n s = (Ok (), t) \<and>
      builds (add_last (pre @ be_bytes k (of_nat n :: u64) @ bs) fs) t \<and> keeps s t"
    "\<not> n < 256 ^ k \<Longrightarrow> \<exists>t. write_prefix d child n s = (Fail, t) \<and> failed t"
proof -
  let ?code = "be_bytes k (of_nat n :: u64)" and ?p = "length (render fs) + length pre"
  have cap: "?p + k \<le> b_cap b" using assms(2,3) by (simp add: b_cap_def)
  have buf: "overlay (b_buf b) ?p ?code = render fs @ (pre @ ?code @ bs) @ rest"
    using overlay_middle [of ?code z "render fs @ pre" tail] assms(2,3) len(2) by simp
  let ?c = "b\<lparr>b_buf := overlay (b_buf b) ?p ?code\<rparr>"
  have run: "put_be (p_offset child) (p_len_len child) (of_nat n) s = (Ok (drop_bit (8 * k) (of_nat n)), at_base s ?c)"
    unfolding child by (rule put_be_run [OF assms(1) cap])
  have same: "b_cap ?c = b_cap b" using cap by (simp add: b_cap_def)
  show "\<exists>t. write_prefix d child n s = (Ok (), t) \<and>
      builds (add_last (pre @ ?code @ bs) fs) t \<and> keeps s t" if "n < 256 ^ k"
  proof -
    let ?t = "(at_base s ?c)\<lparr>cbb_open := take d (cbb_open s)\<rparr>"
    have "write_prefix d child n s = (Ok (), ?t)"
      using run that number_left [OF assms(4), of k] by (simp add: write_prefix_def seq_run(1) drop_child_def act_simps)
    moreover have "builds (add_last (pre @ ?code @ bs) fs) ?t"
      by (rule closed_builds [where b = ?c and tail = rest, OF ok(1)]) (use ok same len buf in \<open>simp_all add: add.assoc\<close>)
    moreover have "keeps s ?t" using assms(1) same by (simp add: keeps_def)
    ultimately show ?thesis by blast
  qed
  show "\<exists>t. write_prefix d child n s = (Fail, t) \<and> failed t" if "\<not> n < 256 ^ k"
    using run that number_left [OF assms(4), of k]
    by (simp add: write_prefix_def seq_run(1) set_b_error_def with_base_def put_base_def act_simps)
qed

lemma length_form_der:
  assumes "n \<le> 0xfffffffe"
  obtains (short) "length_form n = (1, of_nat n, 0)" "der_length n = [of_nat n]"
  | (long) m where "length_form n = (Suc m, 0x80 OR of_nat m, n)" "0 < m" "m \<le> 4" "n < 256 ^ m"
      "der_length n = (0x80 OR of_nat m) # be_bytes m (of_nat n :: u64)"
proof (cases "n < 128")
  case True
  then show thesis using that(1) by (simp add: length_form_def der_length_def)
next
  case False
  define m where "m = length (min_be n)"
  have "0 < m" using False hd_min_be [of n] by (simp add: m_def)
  have bound: "m \<le> k \<longleftrightarrow> n < 256 ^ k" for k unfolding m_def by (rule length_min_be)
  have m4: "m \<le> 4" using bound [of 4] assms by simp
  have form: "length_form n = (Suc m, 0x80 OR of_nat m, n)"
  proof -
    have "m = 1 \<and> n < 256 \<or> m = 2 \<and> 256 \<le> n \<and> n < 65536 \<or> m = 3 \<and> 65536 \<le> n \<and> n < 16777216 \<or> m = 4 \<and> 16777216 \<le> n"
      using m4 \<open>0 < m\<close> bound [of 1] bound [of 2] bound [of 3] by auto
    then show ?thesis using False by (auto simp: length_form_def)
  qed
  have "be_bytes m (of_nat n :: u64) = min_be n"
    using be_bytes_nat_be [of "min_be n"] m4 by (simp add: m_def)
  then show thesis
    using that(2) [OF form \<open>0 < m\<close> m4] bound [of m] False by (simp add: der_length_def m_def)
qed

lemma child_facts:
  assumes "builds (fs @ [(k, bs)]) s" "fs \<noteq> []"
  obtains b rest where "cbb_base s = Some b" "\<not> b_error b" "b_cap b < 2 ^ 64" "b_len b = length (render fs) + prefix_len k + length bs"
    "b_buf b = render fs @ replicate (prefix_len k) 0 @ bs @ rest" "b_len b \<le> b_cap b"
    "cbb_open s ! (length fs - 1) = pending k (length (render fs))" "take (length fs - 1) (cbb_open s) = tl (pend 0 fs)"
    "frames_ok fs"
proof -
  obtain b where b: "cbb_base s = Some b" "\<not> b_error b" "b_cap b < 2 ^ 64" "b_len b = length (render (fs @ [(k, bs)]))"
    "b_buf b = render (fs @ [(k, bs)]) @ drop (length (render (fs @ [(k, bs)]))) (b_buf b)" "cbb_open s = tl (pend 0 (fs @ [(k, bs)]))"
    "length (render (fs @ [(k, bs)])) \<le> b_cap b"
    using builds_at [OF assms(1)] .
  have buf: "b_buf b = render fs @ replicate (prefix_len k) 0 @ bs @ drop (length (render (fs @ [(k, bs)]))) (b_buf b)"
    using b(5) by simp
  show thesis
    by (rule that [OF b(1-3) _ buf])
      (use b(4,6,7) open_last [OF assms(2), of k bs] frames_ok_front [OF _ assms(2)] assms(1) in \<open>auto simp: builds_def\<close>)
qed

lemma close_fixed:
  assumes "builds (fs @ [(Fixed k, bs)]) s" "fs \<noteq> []"
  defines "d \<equiv> length fs - 1"
  shows "length bs < 256 ^ k \<Longrightarrow> \<exists>t. close_child d (length (render fs) + k) s = (Ok (), t) \<and> builds (add_last (prefixed k bs) fs) t \<and> keeps s t"
    "\<not> length bs < 256 ^ k \<Longrightarrow> \<exists>t. close_child d (length (render fs) + k) s = (Fail, t) \<and> failed t"
proof -
  obtain b rest where b: "cbb_base s = Some b" "\<not> b_error b" "b_cap b < 2 ^ 64" "b_len b = length (render fs) + prefix_len (Fixed k) + length bs"
    "b_buf b = render fs @ replicate (prefix_len (Fixed k)) 0 @ bs @ rest" "b_len b \<le> b_cap b"
    "cbb_open s ! (length fs - 1) = pending (Fixed k) (length (render fs))" "take (length fs - 1) (cbb_open s) = tl (pend 0 fs)"
    "frames_ok fs"
    using child_facts [OF assms(1,2)] .
  let ?child = "pending (Fixed k) (length (render fs))"
  have run: "close_child d (length (render fs) + k) s = write_prefix d ?child (length bs) s"
    using b(1,4,7) by (simp add: close_child_def d_def act_simps with_base_def Let_def pending_def)
  have lt: "length bs < 2 ^ 64" using b(3,4,6) by simp
  note w = write_prefix_run [where s = s and b = b and fs = fs and pre = "[]" and z = "replicate k 0" and tail = "bs @ rest" and k = k
      and n = "length bs" and child = ?child and d = d and bs = bs and rest = rest]
  show "\<exists>t. close_child d (length (render fs) + k) s = (Ok (), t) \<and> builds (add_last (prefixed k bs) fs) t \<and> keeps s t"
    if "length bs < 256 ^ k"
    unfolding run prefixed_def using w(1) b lt that by (simp add: pending_def d_def)
  show "\<exists>t. close_child d (length (render fs) + k) s = (Fail, t) \<and> failed t" if "\<not> length bs < 256 ^ k"
    unfolding run using w(2) b lt that by (simp add: pending_def d_def)
qed

lemma make_space_run:
  assumes "cbb_base s = Some b" "b_cap b < 2 ^ 64" "b_buf b = xs @ bs @ rest" "b_len b = length xs + length bs" "m < 2 ^ 64"
  obtains (Ok) c z tail where "make_space (length xs) (length bs) m s = (Ok (), at_base s c)" "b_buf c = xs @ z @ bs @ tail"
      "length z = m" "b_len c = b_len b + m" "b_error c = b_error b" "b_cap c < 2 ^ 64" "keeps s (at_base s c)"
  | (Fail) t where "make_space (length xs) (length bs) m s = (Fail, t)" "failed t" "\<not> fits (b_len b + m) s"
proof -
  have le: "b_len b \<le> b_cap b" using assms(3,4) by (simp add: b_cap_def)
  show thesis
    using assms(1,2) le assms(5)
  proof (cases rule: buffer_add_run)
    case (Ok c)
    let ?moved = "overlay (b_buf c) (length xs + m) bs"
    have capc: "length xs + m + length bs \<le> b_cap c" using Ok(2,5) assms(4) by simp
    have front: "take (length xs + length bs) (b_buf c) = xs @ bs"
      using Ok(6) assms(3) by (metis append_assoc append_eq_conv_conj b_cap_def length_append min.absorb1 take_take le assms(4))
    have bytes: "take (length bs) (drop (length xs) (b_buf c)) = bs"
      using front by (metis append_eq_conv_conj take_drop add.commute)
    have xs: "take (length xs) (b_buf c) = xs"
      using front by (metis append_eq_conv_conj le_add1 min.absorb1 take_take)
    have run: "make_space (length xs) (length bs) m s = (Ok (), at_base s (c\<lparr>b_buf := ?moved\<rparr>))"
      using Ok(1) capc write_at_run [of "at_base s c" c "length xs + m" bs] by (simp add: make_space_def with_base_def bytes)
    have "take (length xs + m) (b_buf c) = xs @ take m (drop (length xs) (b_buf c))"
      using xs by (simp add: take_add)
    then have buf: "?moved = xs @ take m (drop (length xs) (b_buf c)) @ bs @ drop (length xs + m + length bs) (b_buf c)"
      by (simp add: overlay_def)
    have len: "length (take m (drop (length xs) (b_buf c))) = m" using capc by (simp add: b_cap_def)
    have cap: "b_cap (c\<lparr>b_buf := ?moved\<rparr>) = b_cap c" using capc by (simp add: b_cap_def)
    show ?thesis
      by (rule that(1) [OF run _ len]) (use buf Ok cap in \<open>simp_all add: keeps_def\<close>)
  next
    case Fail
    then show ?thesis
      by (intro that(2) [of "at_base s (b\<lparr>b_error := True\<rparr>)"])
        (simp_all add: make_space_def set_b_error_def with_base_def put_base_def act_simps failed_def)
  qed
qed

lemma close_asn1:
  assumes "builds (fs @ [(Asn1, bs)]) s" "fs \<noteq> []"
  defines "d \<equiv> length fs - 1"
  obtains (Ok) t where "close_child d (length (render fs) + 1) s = (Ok (), t)" "length bs \<le> 0xfffffffe"
      "builds (add_last (der_length (length bs) @ bs) fs) t" "keeps s t"
  | (Fail) t where "close_child d (length (render fs) + 1) s = (Fail, t)" "failed t"
      "\<not> length bs \<le> 0xfffffffe \<or> \<not> fits (length (render fs) + length (der_length (length bs) @ bs)) s"
proof -
  let ?n = "length (render fs)"
  obtain b rest where b: "cbb_base s = Some b" "\<not> b_error b" "b_cap b < 2 ^ 64" "b_len b = ?n + prefix_len Asn1 + length bs"
    "b_buf b = render fs @ replicate (prefix_len Asn1) 0 @ bs @ rest" "b_len b \<le> b_cap b"
    "cbb_open s ! (length fs - 1) = pending Asn1 ?n" "take (length fs - 1) (cbb_open s) = tl (pend 0 fs)"
    "frames_ok fs"
    using child_facts [OF assms(1,2)] .
  let ?child = "\<lambda>m. (pending Asn1 ?n)\<lparr>p_offset := ?n + 1, p_len_len := m\<rparr>"
  have off: "wrap (?n + 1) = ?n + 1" using b(3,4,6) by simp
  have run: "close_child d (?n + 1) s = (if length bs > 0xfffffffe then set_b_error s
      else let (len_len, initial_length_byte, len') = length_form (length bs) in
         seq (if len_len \<noteq> 1 then make_space (?n + 1) (length bs) (len_len - 1) else ret ()) (\<lambda>_.
         seq (write_at ?n [initial_length_byte]) (\<lambda>_.
         seq (set_child d (?child (len_len - 1))) (\<lambda>_. write_prefix d (?child (len_len - 1)) len'))) s)"
    using b(1,4,7) off by (simp add: close_child_def d_def act_simps with_base_def Let_def pending_def split: prod.split)
  show thesis
  proof (cases "length bs \<le> 0xfffffffe")
    case False
    then show ?thesis
      using that(2) [of "at_base s (b\<lparr>b_error := True\<rparr>)"] run b(1)
      by (simp add: set_b_error_def with_base_def put_base_def act_simps)
  next
    case True
    have finish: "\<exists>t. seq (write_at ?n [x]) (\<lambda>_. seq (set_child d (?child m)) (\<lambda>_. write_prefix d (?child m) n)) u = (Ok (), t) \<and>
        builds (add_last ([x] @ be_bytes m (of_nat n :: u64) @ bs) fs) t \<and> keeps u t"
      if c: "cbb_base u = Some c" "\<not> b_error c" "b_cap c < 2 ^ 64" "b_buf c = render fs @ [y] @ z @ bs @ tail" "length z = m"
        "b_len c = ?n + 1 + m + length bs" and n: "n < 256 ^ m" "n < 2 ^ 64" and u: "cbb_open u = cbb_open s" for u c x y z tail m n
    proof -
      let ?c = "c\<lparr>b_buf := overlay (b_buf c) ?n [x]\<rparr>"
      let ?v = "(at_base u ?c)\<lparr>cbb_open := (cbb_open u)[d := ?child m]\<rparr>"
      have buf: "overlay (b_buf c) ?n [x] = render fs @ [x] @ z @ bs @ tail"
        using overlay_middle [of "[x]" "[y]" "render fs" "z @ bs @ tail"] c(4) by simp
      have cap: "b_cap ?c = b_cap c" by (simp add: b_cap_def buf c(4))
      have w: "write_at ?n [x] u = (Ok (), at_base u ?c)" using write_at_run [OF c(1)] c(4) by (simp add: b_cap_def)
      have take: "take d (cbb_open ?v) = tl (pend 0 fs)" using b(8) u by (simp add: d_def)
      obtain t where t: "write_prefix d (?child m) n ?v = (Ok (), t)"
        "builds (add_last ([x] @ be_bytes m (of_nat n :: u64) @ bs) fs) t" "keeps ?v t"
        using write_prefix_run(1) [where s = ?v and b = ?c and fs = fs and pre = "[x]" and z = z and tail = "bs @ tail" and k = m and n = n
            and child = "?child m" and d = d and bs = bs and rest = tail] b(9) c cap buf take n
        by auto
      have "keeps u ?v" using c(1) cap by (simp add: keeps_def)
      then show ?thesis using t w keeps_trans by (auto simp: seq_run(1) set_child_def act_simps)
    qed
    show ?thesis
      using True
    proof (cases rule: length_form_der)
      case short
      have "\<exists>t. close_child d (?n + 1) s = (Ok (), t) \<and> builds (add_last (der_length (length bs) @ bs) fs) t \<and> keeps s t"
        using finish [where u = s and c = b and m = 0 and n = 0 and z = "[]" and y = 0 and tail = rest and x = "of_nat (length bs)"] b True
        unfolding run short by (simp add: act_simps be_bytes_def)
      then show ?thesis using that(1) True by blast
    next
      case (long m)
      have xs: "b_buf b = (render fs @ [0]) @ bs @ rest" "b_len b = length (render fs @ [0 :: byte]) + length bs" "m < 2 ^ 64"
        using b(4,5) long(3) by simp_all
      have run_long: "close_child d (?n + 1) s = seq (make_space (length (render fs @ [0 :: byte])) (length bs) m) (\<lambda>_.
         seq (write_at ?n [0x80 OR of_nat m]) (\<lambda>_.
         seq (set_child d (?child m)) (\<lambda>_. write_prefix d (?child m) (length bs)))) s"
        using True long(2) unfolding run long(1) by simp
      show ?thesis
        using b(1,3) xs
      proof (cases rule: make_space_run)
        case (Ok c z tail)
        obtain t where "close_child d (?n + 1) s = (Ok (), t)"
          "builds (add_last ([0x80 OR of_nat m] @ be_bytes m (of_nat (length bs) :: u64) @ bs) fs) t" "keeps (at_base s c) t"
          using finish [where u = "at_base s c" and c = c and m = m and n = "length bs" and z = z and y = 0 and tail = tail and x = "0x80 OR of_nat m"]
            Ok b long True unfolding run_long seq_run(1) [where m = "make_space (length (render fs @ [0])) (length bs) m", OF Ok(1)]
          by auto
        then show ?thesis using that(1) True keeps_trans [OF Ok(7)] by (simp add: long(5))
      next
        case (Fail t)
        have "close_child d (?n + 1) s = (Fail, t)" unfolding run_long by (rule seq_run(2)) (rule Fail(1))
        then show ?thesis
          using that(2) Fail(2,3) b(4) by (simp add: long(5) ac_simps)
      qed
    qed
  qed
qed

section \<open>Flushing\<close>

lemma close_cases:
  assumes "builds (fs @ [(k, bs)]) s" "fs \<noteq> []"
  obtains (Ok) c t where "close_child (length fs - 1) (length (render fs) + prefix_len k) s = (Ok (), t)" "close_code k bs = Some c"
      "builds (add_last c fs) t" "keeps s t"
  | (Fail) t where "close_child (length fs - 1) (length (render fs) + prefix_len k) s = (Fail, t)" "failed t"
      "\<And>c. close_code k bs = Some c \<Longrightarrow> \<not> fits (length (render fs) + length c) s"
proof (cases k)
  case (Fixed n)
  show ?thesis
    using close_fixed [OF assms(1) [unfolded Fixed] assms(2)] that by (cases "length bs < 256 ^ n") (auto simp: Fixed close_code_def)
next
  case Asn1
  show ?thesis
    using assms(1) [unfolded Asn1] assms(2)
  proof (cases rule: close_asn1)
    case (Ok t)
    then show ?thesis using that(1) [of t] by (simp add: Asn1 close_code_def)
  next
    case (Fail t)
    show ?thesis
      by (rule that(2)) (use Fail in \<open>auto simp: Asn1 close_code_def split: if_splits\<close>)
  qed
qed

lemma add_last_Nil [simp]: "fs \<noteq> [] \<Longrightarrow> add_last [] fs = fs"
  by (induction fs rule: rev_induct) (auto simp: add_last_def)

lemma flush_frames_unfold:
  assumes "Suc d < length fs" "fs ! Suc d = (k, bs)"
  shows "flush_frames d fs = Option.bind (flush_frames (Suc d) fs) (\<lambda>gs.
      map_option (\<lambda>c. add_last c (take (Suc d) fs)) (close_code k (snd (last gs))))"
    "flush_frames (Suc d) fs = Some gs \<Longrightarrow> \<exists>r. gs = take (Suc d) fs @ [(k, bs @ r)]"
proof -
  have drop: "drop (Suc d) fs = (k, bs) # drop (Suc (Suc d)) fs" using assms by (metis Cons_nth_drop_Suc)
  have take: "take (Suc (Suc d)) fs = take (Suc d) fs @ [(k, bs)]" using assms by (metis take_Suc_conv_app_nth)
  show "flush_frames d fs = Option.bind (flush_frames (Suc d) fs) (\<lambda>gs.
      map_option (\<lambda>c. add_last c (take (Suc d) fs)) (close_code k (snd (last gs))))"
    by (simp add: flush_frames_def drop take split: option.split)
  show "flush_frames (Suc d) fs = Some gs \<Longrightarrow> \<exists>r. gs = take (Suc d) fs @ [(k, bs @ r)]"
    by (auto simp: flush_frames_def take)
qed

lemma frames_child_kind:
  assumes "frames_ok fs" "Suc d < length fs" "fs ! Suc d = (k, bs)"
  shows "prefix_len k \<noteq> 0"
proof -
  have "(k, bs) \<in> set (tl fs)" using assms(2,3) by (metis Suc_less_eq length_tl nth_mem nth_tl less_diff_conv Suc_eq_plus1)
  then show ?thesis using assms(1) by (auto simp: frames_ok_def)
qed

lemma open_entry:
  assumes "builds fs s" "Suc d < length fs" "fs ! Suc d = (k, bs)"
  shows "cbb_open s ! d = pending k (length (render (take (Suc d) fs)))"
    "length (cbb_open s) = length fs - 1"
    "\<exists>b. cbb_base s = Some b \<and> \<not> b_error b \<and> b_len b < 2 ^ 64 \<and> length (render (take (Suc d) fs)) + prefix_len k \<le> b_len b"
proof -
  obtain b where b: "cbb_base s = Some b" "\<not> b_error b" "b_cap b < 2 ^ 64" "b_len b = length (render fs)"
    "b_buf b = render fs @ drop (length (render fs)) (b_buf b)" "cbb_open s = tl (pend 0 fs)" "length (render fs) \<le> b_cap b"
    using builds_at [OF assms(1)] .
  have fs: "fs = take (Suc d) fs @ (k, bs) # drop (Suc (Suc d)) fs" using assms(2,3) by (metis id_take_nth_drop)
  have "pend 0 fs ! Suc d = pending k (length (render (take (Suc d) fs)))"
    using assms(2) by (subst fs) (simp add: pend_append nth_append del: append_take_drop_id)
  then show "cbb_open s ! d = pending k (length (render (take (Suc d) fs)))"
    using assms(2) by (simp add: b(6) nth_tl)
  show "length (cbb_open s) = length fs - 1" by (simp add: b(6))
  have "length (render fs) = length (render (take (Suc d) fs)) + prefix_len k + length bs + length (render (drop (Suc (Suc d)) fs))"
    by (subst fs) (simp del: append_take_drop_id)
  then show "\<exists>b. cbb_base s = Some b \<and> \<not> b_error b \<and> b_len b < 2 ^ 64 \<and> length (render (take (Suc d) fs)) + prefix_len k \<le> b_len b"
    using b by auto
qed

lemma collapse_length: "collapse fs = Some r \<Longrightarrow> length (render fs) \<le> length r"
proof (induction fs arbitrary: r rule: collapse.induct)
  case (2 k bs fs)
  then obtain q where q: "collapse fs = Some q" "close_code k (bs @ q) = Some r" by (auto split: option.splits)
  then show ?case using close_code_length [OF q(2)] "2.IH" [OF q(1)] by simp
qed simp

lemma flush_frames_facts:
  assumes "flush_frames d fs = Some gs" "d < length fs"
  shows "length gs = Suc d" "frames_ok fs \<Longrightarrow> frames_ok gs" "length (render fs) \<le> length (render gs)"
proof -
  obtain r where r: "collapse (drop (Suc d) fs) = Some r" "gs = add_last r (take (Suc d) fs)"
    using assms(1) by (auto simp: flush_frames_def)
  have ne: "take (Suc d) fs \<noteq> []" using assms(2) by auto
  then show "length gs = Suc d" using assms(2) by (simp add: r(2))
  have "render fs = render (take (Suc d) fs) @ render (drop (Suc d) fs)" by (metis append_take_drop_id render_simps(3))
  then show "length (render fs) \<le> length (render gs)" using collapse_length [OF r(1)] ne by (simp add: r(2))
  show "frames_ok gs" if "frames_ok fs"
  proof -
    have "frames_ok (take (Suc d) fs)" using that by (cases fs) (auto simp: frames_ok_def dest: in_set_takeD)
    then show ?thesis by (simp add: r(2) frames_ok_add_last)
  qed
qed

lemma flush_run:
  assumes "builds fs s" "d < length fs"
  obtains (Ok) gs t where "CBB_flush d s = (Ok (), t)" "flush_frames d fs = Some gs" "builds gs t" "keeps s t"
  | (Fail) t where "CBB_flush d s = (Fail, t)" "failed t"
      "\<And>gs. flush_frames d fs = Some gs \<Longrightarrow> \<not> fits (length (render gs)) s"
  using assms(2)
proof (induction "length fs - Suc d" arbitrary: d thesis)
  case 0
  then have last: "length fs = Suc d" by simp
  obtain b where b: "cbb_base s = Some b" "\<not> b_error b" "b_cap b < 2 ^ 64" "b_len b = length (render fs)"
    "b_buf b = render fs @ drop (length (render fs)) (b_buf b)" "cbb_open s = tl (pend 0 fs)" "length (render fs) \<le> b_cap b"
    using builds_at [OF assms(1)] .
  have "CBB_flush d s = (Ok (), s)" using b last by (simp add: CBB_flush.simps has_child_def)
  moreover have "flush_frames d fs = Some fs" using last by (cases fs) (auto simp: flush_frames_def)
  ultimately show ?case using 0(2) assms(1) by simp
next
  case (Suc n)
  then have lt: "Suc d < length fs" and n: "n = length fs - Suc (Suc d)" by simp_all
  obtain k bs where kb: "fs ! Suc d = (k, bs)" by (cases "fs ! Suc d")
  note entry = open_entry [OF assms(1) lt kb]
  let ?gs = "take (Suc d) fs" and ?at = "length (render (take (Suc d) fs)) + prefix_len k"
  have ne: "?gs \<noteq> []" and len: "length ?gs - 1 = d" using lt by auto
  have kind: "prefix_len k \<noteq> 0" using frames_child_kind [OF _ lt kb] assms(1) by (simp add: builds_def)
  obtain b where b: "cbb_base s = Some b" "\<not> b_error b" "b_len b < 2 ^ 64" "?at \<le> b_len b" using entry(3) by blast
  have start: "wrap ?at = ?at" using b by simp
  have usable: "\<not> (length (cbb_open s) < d \<or> b_error b)" using b(2) lt by (simp add: entry(2))
  have at: "p_offset (cbb_open s ! d) = length (render ?gs)" "p_len_len (cbb_open s ! d) = prefix_len k"
    by (simp_all add: entry(1) pending_def)
  then have child: "\<not> (\<not> has_child d s \<or> p_len_len (cbb_open s ! d) = 0)"
    using kind lt by (simp add: has_child_def entry(2))
  have run: "CBB_flush d s = (case CBB_flush (Suc d) s of
      (Ok _, s') \<Rightarrow> with_base (\<lambda>b. if ?at < length (render ?gs) \<or> b_len b < ?at then set_b_error else close_child d ?at) s'
    | (Fail, s') \<Rightarrow> set_b_error s' | (Ub, s') \<Rightarrow> (Ub, s') | (NoFuel, s') \<Rightarrow> (NoFuel, s'))"
    unfolding CBB_flush.simps [of d s] b(1) option.case if_not_P [OF usable] if_not_P [OF child [unfolded at]] Let_def at start ..
  note unfold = flush_frames_unfold [OF lt kb]
  show ?case
  proof (rule Suc.hyps(1) [OF n _ _ lt])
    fix t
    assume "CBB_flush (Suc d) s = (Fail, t)" "failed t"
      and no: "\<And>gs. flush_frames (Suc d) fs = Some gs \<Longrightarrow> \<not> fits (length (render gs)) s"
    then obtain u where u: "CBB_flush d s = (Fail, u)" "failed u"
      unfolding run by (auto simp: failed_def set_b_error_def with_base_def put_base_def act_simps)
    show ?thesis
    proof (rule Suc.prems(2) [OF u])
      fix hs
      assume "flush_frames d fs = Some hs"
      then obtain gs c r where g: "flush_frames (Suc d) fs = Some gs" "gs = ?gs @ [(k, bs @ r)]"
        "close_code k (bs @ r) = Some c" "hs = add_last c ?gs"
        using unfold(2) by (auto simp: unfold(1) bind_eq_Some_conv)
      have "length (render gs) \<le> length (render hs)" using close_code_length [OF g(3)] ne by (simp add: g(2,4))
      then show "\<not> fits (length (render hs)) s" using no [OF g(1)] fits_mono by blast
    qed
  next
    fix gs t
    assume t: "CBB_flush (Suc d) s = (Ok (), t)" "flush_frames (Suc d) fs = Some gs" "builds gs t" "keeps s t"
    obtain r where gs: "gs = ?gs @ [(k, bs @ r)]" using unfold(2) [OF t(2)] by blast
    have built: "builds (?gs @ [(k, bs @ r)]) t" using t(3) gs by simp
    obtain c where c: "cbb_base t = Some c" "?at \<le> b_len c"
      using builds_at [OF built] by (metis add.assoc le_add1 length_append length_replicate render_simps(2,3))
    have step: "CBB_flush d s = close_child d ?at t" using c by (simp add: run t(1) with_base_def)
    have spec: "flush_frames d fs = map_option (\<lambda>c. add_last c ?gs) (close_code k (bs @ r))" by (simp add: unfold(1) t(2) gs)
    show ?thesis
      using built ne
    proof (cases rule: close_cases)
      case (Ok c u)
      show ?thesis
        by (rule Suc.prems(1) [of u "add_last c ?gs"])
          (use Ok(1) [unfolded len] Ok(2-4) keeps_trans [OF t(4)] in \<open>simp_all add: step spec\<close>)
    next
      case (Fail u)
      show ?thesis
        by (rule Suc.prems(2) [of u])
          (use Fail(1) [unfolded len] Fail(2,3) fits_keeps [OF t(4)] ne in \<open>auto simp: step spec\<close>)
    qed
  qed
qed

lemma flush_implements:
  "implements (\<lambda>fs. d < length fs) (CBB_flush d) (\<lambda>fs. map_option (Pair ()) (flush_frames d fs))"
  unfolding implements_def
proof (intro conjI allI impI)
  fix fs s
  assume "d < length fs" and s: "builds fs s"
  show "case CBB_flush d s of
      (Ok x, t) \<Rightarrow> \<exists>gs. map_option (Pair ()) (flush_frames d fs) = Some (x, gs) \<and> builds gs t \<and> keeps s t
    | (Fail, t) \<Rightarrow> failed t \<and> (\<forall>x gs. map_option (Pair ()) (flush_frames d fs) = Some (x, gs) \<longrightarrow> \<not> fits (length (render gs)) s)
    | (Ub, t) \<Rightarrow> False | (NoFuel, t) \<Rightarrow> False"
    using s \<open>d < length fs\<close> by (cases rule: flush_run) auto
qed (auto dest: flush_frames_facts(3))

end
