(* ===== verification/Cbb_Ops.thy ===== *)
theory Cbb_Ops
  imports Cbb_Spec
begin

text \<open>
  The operations of the builder implement their abstract counterparts: numbers, bytes and children are
  added to the string of their \<open>CBB\<close> behind everything that its children hold, and the DER functions add
  the encodings the reader accepts.
\<close>

section \<open>Adding bytes and children\<close>

lemma flush_frames_last: "length fs = Suc d \<Longrightarrow> flush_frames d fs = Some fs"
  by (cases fs) (auto simp: flush_frames_def)

lemma add_last_append: "add_last bs (add_last as fs) = add_last (as @ bs) fs"
  by (simp add: add_last_def)

text \<open>Adding fixed bytes to a \<open>CBB\<close> without a child.\<close>

definition adds :: "nat \<Rightarrow> (unit, CBB) act \<Rightarrow> byte list \<Rightarrow> bool" where
  "adds d m bs \<longleftrightarrow> implements (\<lambda>fs. length fs = Suc d) m (\<lambda>fs. Some ((), add_last bs fs))"

lemma frames_nonempty: "frames_ok fs \<Longrightarrow> fs \<noteq> []"
  by (simp add: frames_ok_def)

lemma adds_seq:
  assumes "adds d m as" "adds d k bs"
  shows "adds d (seq m (\<lambda>_. k)) (as @ bs)"
  unfolding adds_def
  by (rule implements_weaken [OF implements_seq [OF assms(1)[unfolded adds_def], where Q = "\<lambda>_ fs. length fs = Suc d" and G = "\<lambda>_ fs. Some ((), add_last bs fs)"]])
    (use assms(2) in \<open>auto simp: adds_def add_last_append frames_ok_add_last frames_nonempty\<close>)

lemma adds_ret: "adds d (ret ()) []"
  unfolding adds_def implements_def
  by (auto simp: act_run builds_def frames_ok_def)

lemma implementsI_append:
  assumes "length bs < 2 ^ 64"
    and "\<And>c t p. cbb_base t = Some c \<Longrightarrow> p + length bs \<le> b_cap c \<Longrightarrow> w p t = (Ok x, at_base t (c\<lparr>b_buf := overlay (b_buf c) p bs\<rparr>))"
  shows "implements P (seq (cbb_buffer_add (length bs)) w) (\<lambda>fs. Some (x, add_last bs fs))"
  unfolding implements_def
proof (intro conjI allI impI)
  fix fs s
  assume s: "builds fs s"
  then have ne: "fs \<noteq> []" by (auto simp: builds_def frames_ok_def)
  have w: "w (length (render fs)) t = (Ok x, at_base t (c\<lparr>b_buf := overlay (b_buf c) (length (render fs)) bs\<rparr>))"
    if "cbb_base t = Some c" "length (render fs) + length bs \<le> b_cap c" for c t
    using assms(2) that by blast
  show "case seq (cbb_buffer_add (length bs)) w s of
      (Ok y, t) \<Rightarrow> \<exists>gs. Some (x, add_last bs fs) = Some (y, gs) \<and> builds gs t \<and> keeps s t
    | (Fail, t) \<Rightarrow> failed t \<and> (\<forall>y gs. Some (x, add_last bs fs) = Some (y, gs) \<longrightarrow> \<not> fits (length (render gs)) s)
    | (Ub, t) \<Rightarrow> False | (NoFuel, t) \<Rightarrow> False"
    using s assms(1) w by (cases rule: append_builds [where w = w and x = x]) (auto simp: ne)
qed (auto dest: frames_nonempty)

lemma add_raw_bytes: "length bs < 2 ^ 64 \<Longrightarrow> adds d (seq (cbb_buffer_add (length bs)) (\<lambda>p. write_at p bs)) bs"
  unfolding adds_def by (rule implementsI_append) (simp_all add: write_at_run)

text \<open>An operation behind \<open>CBB_flush\<close>.\<close>

definition after_flush :: "nat \<Rightarrow> (frames \<Rightarrow> ('a \<times> frames) option) \<Rightarrow> frames \<Rightarrow> ('a \<times> frames) option" where
  "after_flush d F fs = Option.bind (flush_frames d fs) F"

lemma flush_then:
  assumes "implements (\<lambda>fs. length fs = Suc d) m F"
  shows "implements (\<lambda>fs. d < length fs) (seq (CBB_flush d) (\<lambda>_. m)) (after_flush d F)"
  by (rule implements_weaken [OF implements_seq [OF flush_implements, where Q = "\<lambda>_ fs. length fs = Suc d" and G = "\<lambda>_. F"]])
    (use assms flush_frames_facts in \<open>auto simp: after_flush_def bind_map_option comp_def\<close>)

abbreviation appended :: "nat \<Rightarrow> byte list \<Rightarrow> frames \<Rightarrow> (unit \<times> frames) option" where
  "appended d bs \<equiv> after_flush d (\<lambda>fs. Some ((), add_last bs fs))"

lemma flush_adds: "adds d m bs \<Longrightarrow> implements (\<lambda>fs. d < length fs) (seq (CBB_flush d) (\<lambda>_. m)) (appended d bs)"
  unfolding adds_def by (rule flush_then)

lemma adds_of_appended:
  "implements (\<lambda>fs. d < length fs) m (appended d bs) \<Longrightarrow> adds d m bs"
  unfolding adds_def by (erule implements_weaken) (simp_all add: after_flush_def flush_frames_last)

lemma CBB_add_bytes_implements:
  "length bs < 2 ^ 64 \<Longrightarrow> implements (\<lambda>fs. d < length fs) (CBB_add_bytes d bs) (appended d bs)"
  unfolding CBB_add_bytes_def by (intro flush_adds add_raw_bytes)

lemma implements_error: "implements P set_b_error (\<lambda>_. None)"
  unfolding implements_def
  by (auto simp: builds_def holds_frames_def set_b_error_def with_base_def put_base_def act_simps)

lemma number_fits: "unat v < 256 ^ k \<longleftrightarrow> drop_bit (8 * k) v = (0 :: u64)"
  using number_left [of "unat v" k] unat_less [of v] by simp

lemma cbb_buffer_add_u_implements:
  assumes "0 < k" "k \<le> 8"
  shows "implements P (cbb_buffer_add_u v k)
    (\<lambda>fs. if unat v < 256 ^ k then Some ((), add_last (be_bytes k v) fs) else None)"
proof -
  let ?v = "drop_bit (8 * k) v" and ?bs = "be_bytes k v"
  have put: "implements P (seq (cbb_buffer_add (length ?bs)) (\<lambda>p. put_be p k v)) (\<lambda>fs. Some (?v, add_last ?bs fs))"
    using assms by (intro implementsI_append) (simp_all add: put_be_run)
  have check: "implements (\<lambda>_. True) (if r \<noteq> 0 then set_b_error else ret ()) (\<lambda>fs. if r \<noteq> 0 then None else Some ((), fs))" for r :: u64
    using implements_error implements_ret by (cases "r = 0") simp_all
  have "implements P (seq (seq (cbb_buffer_add (length ?bs)) (\<lambda>p. put_be p k v)) (\<lambda>r. if r \<noteq> 0 then set_b_error else ret ()))
    (\<lambda>fs. if unat v < 256 ^ k then Some ((), add_last ?bs fs) else None)"
    by (rule implements_weaken [OF implements_seq [OF put check]]) (auto simp: number_fits frames_ok_add_last)
  then show ?thesis using assms by (simp add: cbb_buffer_add_u_def seq_assoc)
qed

lemma CBB_add_u_implements:
  assumes "0 < k" "k \<le> 8"
  shows "implements (\<lambda>fs. d < length fs) (CBB_add_u d v k)
    (after_flush d (\<lambda>fs. if unat v < 256 ^ k then Some ((), add_last (be_bytes k v) fs) else None))"
  unfolding CBB_add_u_def by (intro flush_then cbb_buffer_add_u_implements assms)

lemma add_word:
  fixes v :: "'a::len word"
  assumes "0 < k" "k \<le> 8" "LENGTH('a) = 8 * k"
  shows "implements (\<lambda>fs. d < length fs) (CBB_add_u d (ucast v) k) (appended d (be_bytes k v))"
proof -
  have "unat v < 256 ^ k" using unat_less [of v] by (simp add: assms(3) power_mult)
  moreover have "unat (ucast v :: u64) = unat v" "be_bytes k (ucast v :: u64) = be_bytes k v"
    using assms by (simp_all add: unat_widen be_bytes_widen)
  ultimately show ?thesis using CBB_add_u_implements [OF assms(1,2), of d "ucast v"] by simp
qed

lemma be_bytes_byte [simp]: "be_bytes (Suc 0) (b :: byte) = [b]"
  by (simp add: be_bytes_def le_bytes_Suc)

lemma CBB_add_u8_implements: "implements (\<lambda>fs. d < length fs) (CBB_add_u8 d b) (appended d [b])"
  using add_word [where k = 1 and v = b and d = d] by (simp add: CBB_add_u8_def)

lemma CBB_add_u16_implements: "implements (\<lambda>fs. d < length fs) (CBB_add_u16 d w) (appended d (be_bytes 2 w))"
  unfolding CBB_add_u16_def by (rule add_word) simp_all

lemma CBB_add_u32_implements: "implements (\<lambda>fs. d < length fs) (CBB_add_u32 d w) (appended d (be_bytes 4 w))"
  unfolding CBB_add_u32_def by (rule add_word) simp_all

lemma CBB_add_u64_implements: "implements (\<lambda>fs. d < length fs) (CBB_add_u64 d w) (appended d (be_bytes 8 w))"
  using add_word [where k = 8 and v = w and d = d] by (simp add: CBB_add_u64_def)

lemma CBB_add_le_implements:
  "implements (\<lambda>fs. d < length fs) (CBB_add_u16le d x) (appended d (le_bytes 2 x))"
  "implements (\<lambda>fs. d < length fs) (CBB_add_u32le d y) (appended d (le_bytes 4 y))"
  "implements (\<lambda>fs. d < length fs) (CBB_add_u64le d z) (appended d (le_bytes 8 z))"
  using CBB_add_u16_implements [of d "CRYPTO_bswap2 x"] CBB_add_u32_implements [of d "CRYPTO_bswap4 y"]
    CBB_add_u64_implements [of d "CRYPTO_bswap8 z"]
  by (simp_all add: CBB_add_u16le_def CBB_add_u32le_def CBB_add_u64le_def bswap2_bytes bswap4_bytes bswap8_bytes)

lemma adds_u8: "adds d (CBB_add_u8 d b) [b]"
  by (rule adds_of_appended [OF CBB_add_u8_implements])

section \<open>Opening children\<close>

definition kind_ok :: "prefix_kind \<Rightarrow> bool" where
  "kind_ok k \<longleftrightarrow> k = Asn1 \<or> (\<exists>n. k = Fixed n \<and> 0 < n \<and> n \<le> 7)"

lemma frames_ok_kinds: "frames_ok fs \<longleftrightarrow> (\<exists>ks. map fst fs = Fixed 0 # ks \<and> (\<forall>k \<in> set ks. kind_ok k))"
  by (cases fs) (auto simp: frames_ok_def kind_ok_def)

lemma kinds_add_last: "fs \<noteq> [] \<Longrightarrow> map fst (add_last bs fs) = map fst fs"
  by (cases fs rule: rev_cases) (auto simp: add_last_def)

definition opens :: "nat \<Rightarrow> (unit, CBB) act \<Rightarrow> byte list \<Rightarrow> prefix_kind \<Rightarrow> bool" where
  "opens d m pre k \<longleftrightarrow> implements (\<lambda>fs. length fs = Suc d) m (\<lambda>fs. Some ((), add_last pre fs @ [(k, [])]))"

lemma add_child_builds:
  assumes "builds (add_last (replicate (prefix_len k) 0) fs) s" "length fs = Suc d" "kind_ok k"
  shows "\<exists>t. add_child d (pending k (length (render fs))) s = (Ok (), t) \<and> builds (fs @ [(k, [])]) t \<and> keeps s t"
proof -
  obtain b where ok: "frames_ok (add_last (replicate (prefix_len k) 0) fs)" and b: "holds_frames (add_last (replicate (prefix_len k) 0) fs) s b"
    using assms(1) by (auto simp: builds_def)
  have ne: "fs \<noteq> []" using assms(2) by auto
  let ?t = "s\<lparr>cbb_open := take d (cbb_open s) @ [pending k (length (render fs))]\<rparr>"
  have "frames_ok (fs @ [(k, [])])"
    using ok assms(3) by (auto simp: frames_ok_kinds kinds_add_last [OF ne])
  moreover have "tl (pend 0 (fs @ [(k, [])])) = tl (pend 0 fs) @ [pending k (length (render fs))]"
    using ne by (cases "pend 0 fs") (auto simp: pend_append dest: arg_cong [where f = length])
  moreover have "take d (cbb_open s) = tl (pend 0 fs)"
    using b assms(2) by (simp add: holds_frames_def pend_add_last ne)
  ultimately have "builds (fs @ [(k, [])]) ?t"
    using b assms(2) ne by (auto simp: builds_def holds_frames_def)
  moreover have "keeps s ?t" by (simp add: keeps_def)
  ultimately show ?thesis by (auto simp: add_child_def act_run)
qed

lemma implements_opens:
  assumes "adds d m (pre @ replicate (prefix_len k) 0)" "kind_ok k" "length fs = Suc d" "builds fs s"
  shows "case seq m (\<lambda>_. add_child d (pending k (length (render fs) + length pre))) s of
      (Ok x, t) \<Rightarrow> builds (add_last pre fs @ [(k, [])]) t \<and> keeps s t
    | (Fail, t) \<Rightarrow> failed t \<and> \<not> fits (length (render (add_last pre fs @ [(k, [])]))) s
    | (Ub, t) \<Rightarrow> False | (NoFuel, t) \<Rightarrow> False"
proof -
  have ne: "fs \<noteq> []" using assms(3) by auto
  show ?thesis
    using assms(1) [unfolded adds_def] assms(3,4)
  proof (cases rule: implementsD)
    case (Ok x t gs)
    then have "builds (add_last (replicate (prefix_len k) 0) (add_last pre fs)) t" by (simp add: add_last_append)
    from add_child_builds [OF this _ assms(2), of d] obtain u where
      "add_child d (pending k (length (render fs) + length pre)) t = (Ok (), u)" "builds (add_last pre fs @ [(k, [])]) u" "keeps t u"
      using assms(3) ne by auto
    then show ?thesis using Ok(1,4) keeps_trans by (auto simp: seq_run)
  next
    case (Fail t)
    then show ?thesis using ne by (simp add: seq_run add.assoc)
  qed
qed

lemma opensI:
  assumes "adds d m (pre @ replicate (prefix_len k) 0)" "kind_ok k"
    and run: "\<And>fs s. length fs = Suc d \<Longrightarrow> builds fs s \<Longrightarrow>
      w s = seq m (\<lambda>_. add_child d (pending k (length (render fs) + length pre))) s"
  shows "opens d w pre k"
  unfolding opens_def implements_def
proof (intro conjI allI impI)
  fix fs s
  assume fs: "length fs = Suc d" "builds fs s"
  show "case w s of
      (Ok x, t) \<Rightarrow> \<exists>gs. Some ((), add_last pre fs @ [(k, [])]) = Some (x, gs) \<and> builds gs t \<and> keeps s t
    | (Fail, t) \<Rightarrow> failed t \<and> (\<forall>x gs. Some ((), add_last pre fs @ [(k, [])]) = Some (x, gs) \<longrightarrow> \<not> fits (length (render gs)) s)
    | (Ub, t) \<Rightarrow> False | (NoFuel, t) \<Rightarrow> False"
    unfolding run [OF fs] using implements_opens [OF assms(1,2) fs] by (simp split: prod.splits outcome.splits)
qed (auto dest: frames_nonempty)

abbreviation opened :: "nat \<Rightarrow> byte list \<Rightarrow> prefix_kind \<Rightarrow> frames \<Rightarrow> (unit \<times> frames) option" where
  "opened d pre k \<equiv> after_flush d (\<lambda>fs. Some ((), add_last pre fs @ [(k, [])]))"

lemma with_base_at: "cbb_base s = Some b \<Longrightarrow> with_base f s = f b s"
  by (simp add: with_base_def)

lemma length_prefixed_implements:
  assumes "0 < k" "k \<le> 7"
  shows "implements (\<lambda>fs. d < length fs) (cbb_add_length_prefixed d k) (opened d [] (Fixed k))"
  unfolding cbb_add_length_prefixed_def
proof (rule flush_then)
  have "opens d (with_base (\<lambda>b. seq (cbb_buffer_add k) (\<lambda>prefix_bytes. seq (write_at prefix_bytes (replicate k 0)) (\<lambda>_.
       add_child d \<lparr>p_offset = b_len b, p_len_len = k, p_is_asn1 = False\<rparr>)))) [] (Fixed k)"
  proof (rule opensI)
    show "adds d (seq (cbb_buffer_add (length (replicate k (0 :: byte)))) (\<lambda>p. write_at p (replicate k 0))) ([] @ replicate (prefix_len (Fixed k)) 0)"
      using add_raw_bytes [of "replicate k 0" d] assms by simp
    show "kind_ok (Fixed k)" using assms by (simp add: kind_ok_def)
    fix fs s
    assume "builds fs s"
    from builds_at [OF this] obtain b where "cbb_base s = Some b" "b_len b = length (render fs)" by metis
    then show "with_base (\<lambda>b. seq (cbb_buffer_add k) (\<lambda>prefix_bytes. seq (write_at prefix_bytes (replicate k 0)) (\<lambda>_.
       add_child d \<lparr>p_offset = b_len b, p_len_len = k, p_is_asn1 = False\<rparr>))) s =
      seq (seq (cbb_buffer_add (length (replicate k (0 :: byte)))) (\<lambda>p. write_at p (replicate k 0)))
        (\<lambda>_. add_child d (pending (Fixed k) (length (render fs) + length ([] :: byte list)))) s"
      by (simp add: with_base_at pending_def seq_assoc)
  qed
  then show "implements (\<lambda>fs. length fs = Suc d) (with_base (\<lambda>b. seq (cbb_buffer_add k) (\<lambda>prefix_bytes. seq (write_at prefix_bytes (replicate k 0)) (\<lambda>_.
       add_child d \<lparr>p_offset = b_len b, p_len_len = k, p_is_asn1 = False\<rparr>)))) (\<lambda>fs. Some ((), add_last [] fs @ [(Fixed k, [])]))"
    by (simp add: opens_def)
qed

section \<open>Base-128 integers and elements\<close>

definition high_groups :: "nat \<Rightarrow> u64 \<Rightarrow> byte list" where
  "high_groups n w = map (\<lambda>i. ucast (drop_bit (7 * i) w AND 0x7F) OR 0x80) (rev [0..<n])"

lemma high_groups_Suc:
  "high_groups (Suc n) w = (ucast (drop_bit (7 * n) w AND 0x7F) OR 0x80) # high_groups n w"
  "high_groups (Suc n) w = high_groups n (drop_bit 7 w) @ [ucast (w AND 0x7F) OR 0x80]"
proof -
  show "high_groups (Suc n) w = (ucast (drop_bit (7 * n) w AND 0x7F) OR 0x80) # high_groups n w"
    by (simp add: high_groups_def)
  show "high_groups (Suc n) w = high_groups n (drop_bit 7 w) @ [ucast (w AND 0x7F) OR 0x80]"
    unfolding high_groups_def upt_conv_Cons [OF zero_less_Suc] map_Suc_upt [symmetric] rev.simps rev_map map_append map_map
    by (simp add: comp_def add.commute)
qed

lemma b128_high_groups: "b128_high w = high_groups (base128_groups w) w"
proof (induction w rule: b128_high.induct)
  case (1 w)
  show ?case
  proof (cases "w = 0")
    case True
    then show ?thesis by (simp add: b128_high.simps [of 0] base128_groups.simps [of 0] high_groups_def)
  next
    case False
    then show ?thesis
      using "1.IH" by (simp add: b128_high.simps [of w] base128_groups.simps [of w] high_groups_Suc(2))
  qed
qed

lemma low_group_byte: "(ucast (v :: u64) AND 0x7F :: byte) = ucast (v AND 0x7F)"
  by (simp add: unsigned_and_eq)

lemma add_groups_adds: "adds d (add_groups d v (Suc n)) (high_groups n (drop_bit 7 v) @ [ucast (v AND 0x7F)])"
proof (induction n)
  case 0
  then show ?case
    using adds_seq [OF adds_u8 adds_ret] by (simp add: high_groups_def low_group_byte Let_def)
next
  case (Suc n)
  have "(let b = ucast (drop_bit (7 * Suc n) v) AND 0x7f in if Suc n \<noteq> 0 then b OR 0x80 else b) =
      (ucast (drop_bit (7 * n) (drop_bit 7 v) AND 0x7F) OR 0x80 :: byte)"
    by (simp add: low_group_byte add.commute Let_def)
  then have "add_groups d v (Suc (Suc n)) =
      seq (CBB_add_u8 d (ucast (drop_bit (7 * n) (drop_bit 7 v) AND 0x7F) OR 0x80)) (\<lambda>_. add_groups d v (Suc n))"
    by simp
  then show ?case
    using adds_seq [OF adds_u8 Suc] by (simp add: high_groups_Suc(1))
qed

lemma add_base128_adds: "adds d (add_base128_integer d v) (base128 v)"
proof -
  have "(if base128_groups v = 0 then 1 else base128_groups v) = Suc (base128_groups (drop_bit 7 v))"
    by (cases "v = 0") (simp_all add: base128_groups.simps [of v] base128_groups.simps [of 0])
  then show ?thesis
    using add_groups_adds [of d v "base128_groups (drop_bit 7 v)"]
    unfolding add_base128_integer_def Let_def by (simp only: base128_def b128_high_groups)
qed

lemma add_tag_adds:
  "adds d (if tag AND CBS_ASN1_TAG_NUMBER_MASK \<ge> 0x1f
      then seq (CBB_add_u8 d (tag_bits tag OR 0x1f)) (\<lambda>_. add_base128_integer d (ucast (tag AND CBS_ASN1_TAG_NUMBER_MASK)))
      else CBB_add_u8 d (tag_bits tag OR ucast (tag AND CBS_ASN1_TAG_NUMBER_MASK))) (der_tag tag)"
proof (cases "tag AND CBS_ASN1_TAG_NUMBER_MASK < 0x1f")
  case True
  then show ?thesis using adds_u8 by (simp add: der_tag_def Let_def not_le [symmetric])
next
  case False
  then show ?thesis using adds_seq [OF adds_u8 add_base128_adds] by (simp add: der_tag_def Let_def not_le [symmetric])
qed

lemma CBB_add_asn1_implements:
  "implements (\<lambda>fs. d < length fs) (CBB_add_asn1 d tag) (opened d (der_tag tag) Asn1)"
  unfolding CBB_add_asn1_def Let_def
proof (rule flush_then)
  let ?tag = "if tag AND CBS_ASN1_TAG_NUMBER_MASK \<ge> 0x1f
      then seq (CBB_add_u8 d (tag_bits tag OR 0x1f)) (\<lambda>_. add_base128_integer d (ucast (tag AND CBS_ASN1_TAG_NUMBER_MASK)))
      else CBB_add_u8 d (tag_bits tag OR ucast (tag AND CBS_ASN1_TAG_NUMBER_MASK))"
  let ?rest = "with_base (\<lambda>b. seq (CBB_add_u8 d 0) (\<lambda>_.
          add_child d \<lparr>p_offset = b_len b, p_len_len = 1, p_is_asn1 = True\<rparr>))"
  have second: "opens d ?rest [] Asn1"
  proof (rule opensI)
    show "adds d (CBB_add_u8 d 0) ([] @ replicate (prefix_len Asn1) 0)" using adds_u8 [of d 0] by simp
    show "kind_ok Asn1" by (simp add: kind_ok_def)
    fix fs s
    assume "builds fs s"
    from builds_at [OF this] obtain b where "cbb_base s = Some b" "b_len b = length (render fs)" by metis
    then show "?rest s = seq (CBB_add_u8 d 0) (\<lambda>_. add_child d (pending Asn1 (length (render fs) + length ([] :: byte list)))) s"
      by (simp add: with_base_at pending_def)
  qed
  have "implements (\<lambda>fs. length fs = Suc d) (seq ?tag (\<lambda>_. ?rest)) (\<lambda>fs. Some ((), add_last (der_tag tag) fs @ [(Asn1, [])]))"
    by (rule implements_weaken [OF implements_seq [OF add_tag_adds [unfolded adds_def], where Q = "\<lambda>_ fs. length fs = Suc d"
          and G = "\<lambda>_ fs. Some ((), add_last [] fs @ [(Asn1, [])])"]])
      (use second in \<open>auto simp: opens_def frames_ok_add_last dest: frames_nonempty\<close>)
  then show "implements (\<lambda>fs. length fs = Suc d)
     (seq (if 0x1f \<le> tag AND CBS_ASN1_TAG_NUMBER_MASK
           then seq (CBB_add_u8 d (ucast (drop_bit CBS_ASN1_TAG_SHIFT tag) AND 0xe0 OR 0x1f))
                 (\<lambda>_. add_base128_integer d (ucast (tag AND CBS_ASN1_TAG_NUMBER_MASK)))
           else CBB_add_u8 d (ucast (drop_bit CBS_ASN1_TAG_SHIFT tag) AND 0xe0 OR ucast (tag AND CBS_ASN1_TAG_NUMBER_MASK)))
       (\<lambda>_. ?rest)) (\<lambda>fs. Some ((), add_last (der_tag tag) fs @ [(Asn1, [])]))"
    by (simp only: tag_bits_def)
qed

text \<open>A child that is opened, filled and closed by flushing its parent adds one element.\<close>

abbreviation element_added :: "nat \<Rightarrow> u32 \<Rightarrow> byte list \<Rightarrow> frames \<Rightarrow> (unit \<times> frames) option" where
  "element_added d tag bs \<equiv> after_flush d (\<lambda>fs. if length bs \<le> 0xfffffffe
     then Some ((), add_last (der_element (tag, bs)) fs) else None)"

lemma flush_child:
  assumes "length fs = Suc d"
  shows "flush_frames d (fs @ [(k, bs)]) = map_option (\<lambda>c. add_last c fs) (close_code k bs)"
  using assms by (simp add: flush_frames_def option.map_comp split: option.split)

lemma child_element:
  assumes "adds (Suc d) body bs"
  shows "implements (\<lambda>fs. d < length fs) (seq (CBB_add_asn1 d tag) (\<lambda>_. seq body (\<lambda>_. CBB_flush d))) (element_added d tag bs)"
proof -
  have inner: "implements (\<lambda>fs. length fs = Suc (Suc d)) (seq body (\<lambda>_. CBB_flush d))
      (\<lambda>fs. map_option (Pair ()) (flush_frames d (add_last bs fs)))"
    by (rule implements_weaken [OF implements_seq [OF assms [unfolded adds_def] flush_implements]])
      (auto simp: frames_ok_add_last dest: frames_nonempty)
  show ?thesis
  proof (rule implements_weaken [OF implements_seq [OF CBB_add_asn1_implements inner]])
    show "length gs = Suc (Suc d) \<and> frames_ok gs" if fs: "d < length fs" "frames_ok fs" "opened d (der_tag tag) Asn1 fs = Some (x, gs)" for fs x gs
    proof -
      obtain hs where hs: "flush_frames d fs = Some hs" "gs = add_last (der_tag tag) hs @ [(Asn1, [])]"
        using fs(3) by (auto simp: after_flush_def bind_eq_Some_conv)
      have "frames_ok hs" "length hs = Suc d" using flush_frames_facts [OF hs(1) fs(1)] fs(2) by simp_all
      then show ?thesis using frames_nonempty [of hs]
        by (auto simp: hs(2) frames_ok_kinds kinds_add_last kind_ok_def)
    qed
    show "Option.bind (opened d (der_tag tag) Asn1 fs) (\<lambda>(x, gs). map_option (Pair ()) (flush_frames d (add_last bs gs))) =
        element_added d tag bs fs" if "d < length fs" "frames_ok fs" for fs
    proof (cases "flush_frames d fs")
      case None
      then show ?thesis by (simp add: after_flush_def)
    next
      case (Some hs)
      have hs: "length hs = Suc d" "hs \<noteq> []" using flush_frames_facts(1) [OF Some that(1)] by auto
      have len: "length (add_last (der_tag tag) hs) = Suc d" using hs by simp
      show ?thesis
        using Some hs
        by (simp add: after_flush_def flush_child [OF len] close_code_def add_last_append der_element_def)
    qed
  qed
qed

lemma CBB_add_asn1_octet_string_implements:
  "length data < 2 ^ 64 \<Longrightarrow> implements (\<lambda>fs. d < length fs) (CBB_add_asn1_octet_string d data) (element_added d CBS_ASN1_OCTETSTRING data)"
  unfolding CBB_add_asn1_octet_string_def
  by (intro child_element adds_of_appended CBB_add_bytes_implements)

lemma CBB_add_asn1_bool_implements:
  "implements (\<lambda>fs. d < length fs) (CBB_add_asn1_bool d v) (element_added d CBS_ASN1_BOOLEAN (bool_code v))"
  unfolding CBB_add_asn1_bool_def bool_code_def by (intro child_element adds_u8)

section \<open>Integers\<close>

text \<open>The bytes the loop of \<open>CBB_add_asn1_uint64\<close> adds once it has started, and from its start.\<close>

lemma uint64_bytes_started:
  "implements (\<lambda>fs. length fs = Suc d) (uint64_bytes d v True n) (\<lambda>fs. Some (True, add_last (be_bytes n v) fs))"
proof (induction n)
  case 0
  show ?case
    unfolding uint64_bytes.simps by (rule implements_weaken [OF implements_ret]) (auto simp: be_bytes_def dest: frames_nonempty)
next
  case (Suc n)
  have code: "be_bytes (Suc n) v = ucast (drop_bit (8 * n) v) # be_bytes n v" by (simp add: be_bytes_def le_bytes_def)
  show ?case
    unfolding uint64_bytes.simps Let_def code
    by (simp, rule implements_weaken [OF implements_seq [OF adds_u8 [unfolded adds_def] Suc]])
      (auto simp: add_last_append frames_ok_add_last dest: frames_nonempty)
qed

lemma nat_be_low_bytes: "k \<le> 8 \<Longrightarrow> nat_be (be_bytes k (v :: u64)) = unat v mod 256 ^ k"
proof -
  assume "k \<le> 8"
  then have "nat_be (be_bytes k v) = unat (be_val (be_bytes k v) :: u64)" by (simp add: unat_be_val)
  also have "\<dots> = take_bit (8 * k) (unat v)" by (simp only: be_val_be_bytes unsigned_take_bit_eq)
  finally show ?thesis by (simp add: take_bit_eq_mod power_mult)
qed

lemma be_bytes_Suc: "be_bytes (Suc n) v = ucast (drop_bit (8 * n) v) # be_bytes n v"
  by (simp add: be_bytes_def le_bytes_def)

lemma uint64_bytes_waiting:
  assumes "n \<le> 8"
  shows "implements (\<lambda>fs. length fs = Suc d) (uint64_bytes d v False n)
    (\<lambda>fs. let m = unat v mod 256 ^ n in Some (m \<noteq> 0, add_last (if m = 0 then [] else uint_code m) fs))"
  using assms
proof (induction n)
  case 0
  show ?case
    unfolding uint64_bytes.simps by (rule implements_weaken [OF implements_ret]) (auto dest: frames_nonempty)
next
  case (Suc n)
  define b where "b = (ucast (drop_bit (8 * n) v) :: byte)"
  have code: "be_bytes (Suc n) v = b # be_bytes n v" by (simp add: be_bytes_Suc b_def)
  have m: "nat_be (b # be_bytes n v) = unat v mod 256 ^ Suc n" using nat_be_low_bytes [of "Suc n" v] Suc.prems by (simp add: code)
  have step: "uint64_bytes d v False (Suc n) = (if b = 0 then uint64_bytes d v False n
      else seq (if b AND 0x80 \<noteq> 0 then CBB_add_u8 d 0 else ret ()) (\<lambda>_. seq (CBB_add_u8 d b) (\<lambda>_. uint64_bytes d v True n)))"
    by (simp add: b_def Let_def)
  show ?case
  proof (cases "b = 0")
    case True
    then have "unat v mod 256 ^ Suc n = unat v mod 256 ^ n"
      using m nat_be_low_bytes [of n v] Suc.prems by (simp add: nat_be_Cons)
    then show ?thesis using Suc.IH Suc.prems unfolding step if_P [OF True] by simp
  next
    case False
    have min: "min_be (unat v mod 256 ^ Suc n) = b # be_bytes n v"
      using min_be_nat_be [of "b # be_bytes n v"] False by (simp only: m) simp
    then have nz: "unat v mod 256 ^ Suc n \<noteq> 0" by (metis list.distinct(1) min_be_0)
    have out: "uint_code (unat v mod 256 ^ Suc n) = (if b AND 0x80 \<noteq> 0 then [0] else []) @ [b] @ be_bytes n v"
      unfolding uint_code_def min by simp
    have pad: "adds d (if b AND 0x80 \<noteq> 0 then CBB_add_u8 d 0 else ret ()) (if b AND 0x80 \<noteq> 0 then [0] else [])"
      using adds_u8 adds_ret by simp
    note two = adds_seq [OF pad adds_u8 [of d b]]
    have "implements (\<lambda>fs. length fs = Suc d)
        (seq (seq (if b AND 0x80 \<noteq> 0 then CBB_add_u8 d 0 else ret ()) (\<lambda>_. CBB_add_u8 d b)) (\<lambda>_. uint64_bytes d v True n))
        (\<lambda>fs. Some (True, add_last (uint_code (unat v mod 256 ^ Suc n)) fs))"
      by (rule implements_weaken [OF implements_seq [OF two [unfolded adds_def] uint64_bytes_started]])
        (auto simp: add_last_append frames_ok_add_last out simp del: power_Suc dest: frames_nonempty)
    then show ?thesis using nz unfolding step if_not_P [OF False] by (simp add: seq_assoc Let_def)
  qed
qed

lemma uint_body: "adds d (seq (uint64_bytes d v False 8) (\<lambda>started. if \<not> started then CBB_add_u8 d 0 else ret ())) (uint_code (unat v))"
proof -
  have m: "unat v mod 256 ^ 8 = unat v" using unat_less [of v] by simp
  have last: "implements (\<lambda>fs. length fs = Suc d) (if \<not> started then CBB_add_u8 d 0 else ret ())
      (\<lambda>fs. Some ((), add_last (if started then [] else [0]) fs))" for started
    using adds_u8 [of d 0] adds_ret [of d] by (simp add: adds_def)
  show ?thesis
    unfolding adds_def
    by (rule implements_weaken [OF implements_seq [OF uint64_bytes_waiting [of 8 d v, unfolded m] last]])
      (auto simp: add_last_append frames_ok_add_last uint_code_def Let_def dest: frames_nonempty)
qed

lemma CBB_add_asn1_uint64_implements:
  "implements (\<lambda>fs. d < length fs) (CBB_add_asn1_uint64 d v) (element_added d CBS_ASN1_INTEGER (uint_code (unat v)))"
  using child_element [OF uint_body, of d CBS_ASN1_INTEGER v] by (simp add: CBB_add_asn1_uint64_def seq_assoc)

text \<open>The bytes of a negative number from the first one that is needed.\<close>

lemma int64_bytes_adds: "n \<le> length bs \<Longrightarrow> adds d (int64_bytes d bs n) (rev (take n bs))"
proof (induction n)
  case 0
  then show ?case by (simp add: adds_ret)
next
  case (Suc n)
  then show ?case using adds_seq [OF adds_u8 Suc.IH] by (simp add: take_Suc_conv_app_nth)
qed

lemma int64_start_shorten:
  assumes "k < length bs" "bs ! k AND 0x80 \<noteq> 0"
  shows "rev (take (Suc (int64_start bs k)) bs) = shorten (rev (take (Suc k) bs))" "int64_start bs k \<le> k"
  using assms
proof (induction k)
  case 0
  case 1
  then show ?case by (cases bs) simp_all
next
  case 0
  case 2
  show ?case by simp
next
  case (Suc k)
  have top: "rev (take (Suc (Suc k)) bs) = bs ! Suc k # bs ! k # rev (take k bs)" if "Suc k < length bs"
    using that by (simp add: take_Suc_conv_app_nth)
  {
    case 1
    have head: "bs ! k # rev (take k bs) = rev (take (Suc k) bs)" using 1 by (simp add: take_Suc_conv_app_nth)
    have fill: "sign_fill (bs ! k # rev (take k bs)) = (if bs ! k AND 0x80 \<noteq> 0 then 0xff else 0)" by (simp add: sign_fill_def)
    have "bs ! Suc k \<noteq> 0" using 1(2) by auto
    then have same: "bs ! Suc k = sign_fill (bs ! k # rev (take k bs)) \<longleftrightarrow> bs ! Suc k = 0xff \<and> bs ! k AND 0x80 \<noteq> 0"
      unfolding fill by auto
    show ?case
      unfolding top [OF 1(1)] shorten.simps same unfolding head
      using Suc.IH(1) 1 by (simp add: take_Suc_conv_app_nth [of "Suc k"])
  next
    case 2
    then show ?case using Suc.IH(2) by auto
  }
qed

lemma nonneg_bit: "sint (v :: u64) \<ge> 0 \<longleftrightarrow> \<not> bit v 63"
  using bit_last_iff [of v] by (auto simp: not_less [symmetric])

lemma nat_be_zeros: "nat_be (replicate k 0 @ bs) = nat_be bs"
  by (induction k) (simp_all add: nat_be_Cons)

lemma sint_nonneg_uint:
  assumes "sint (v :: u64) \<ge> 0"
  shows "int_code v = uint_code (unat v)"
proof -
  let ?bs = "uint_code (unat v)"
  have small: "unat v < 2 ^ 63"
  proof (rule unat_lt_of_bits)
    fix k
    assume k: "bit v k"
    then have "k < 64" using bit_imp_le_length [of v k] by simp
    then show "k < 63" using k assms nonneg_bit [of v] by (cases "k = 63") auto
  qed
  have min: "min_uint ?bs" "nat_be ?bs = unat v" by (rule min_uint_code)+
  then obtain b rest where bs: "?bs = b # rest" by (cases ?bs) (auto simp: min_uint_def)
  have len: "length ?bs \<le> 8"
  proof (rule ccontr)
    assume "\<not> length ?bs \<le> 8"
    then have "length (min_be (unat v)) = 8 \<and> hd (min_be (unat v)) AND 0x80 \<noteq> 0"
      using length_min_be [of "unat v" 8] unat_less [of v] by (auto simp: uint_code_def Let_def split: if_splits)
    then obtain x xs where x: "min_be (unat v) = x # xs" "length xs = 7" "x AND 0x80 \<noteq> 0" by (cases "min_be (unat v)") auto
    then have "128 \<le> unat x" by (simp add: byte_high_bit word_less_nat_alt)
    then have "128 * 256 ^ 7 \<le> unat v" using nat_be_min_be [of "unat v"] by (simp add: x nat_be_Cons)
    then show False using small by simp
  qed
  have "shorten ?bs = ?bs" using min(1) by (auto simp: shorten_fixed min_uint_def)
  moreover have "sign_fill ?bs = 0" using min(1) by (simp add: min_uint_def sign_fill_def bs)
  moreover have "be_val (sign_extend 8 ?bs) = v"
  proof -
    have "unat (be_val (sign_extend 8 ?bs) :: u64) = unat v"
      using len min(2) \<open>sign_fill ?bs = 0\<close> by (simp add: unat_be_val sign_extend_def nat_be_zeros)
    then show ?thesis by (simp add: word_unat_eq_iff)
  qed
  ultimately have "read_der_int ?bs = Some v" using len bs by (simp add: read_der_int_def)
  then show ?thesis by (simp add: read_der_int_exact)
qed

lemma CBB_add_asn1_int64_implements:
  "implements (\<lambda>fs. d < length fs) (CBB_add_asn1_int64 d v) (element_added d CBS_ASN1_INTEGER (int_code v))"
proof (cases "sint v \<ge> 0")
  case True
  then show ?thesis using CBB_add_asn1_uint64_implements [of d v] unfolding sint_nonneg_uint [OF True] by (simp add: CBB_add_asn1_int64_def)
next
  case False
  have "bit (le_bytes 8 v ! 7) 7" using False nonneg_bit [of v] by (simp add: nth_le_bytes bit_simps)
  then have neg: "le_bytes 8 v ! 7 AND 0x80 \<noteq> 0" using and_exp_eq_0_iff_not_bit [of "le_bytes 8 v ! 7" 7] by simp
  have "adds (Suc d) (int64_bytes (Suc d) (le_bytes 8 v) (Suc (int64_start (le_bytes 8 v) 7))) (int_code v)"
    using int64_bytes_adds [of "Suc (int64_start (le_bytes 8 v) 7)" "le_bytes 8 v" "Suc d"] int64_start_shorten [of 7 "le_bytes 8 v"] neg
    by (simp add: int_code_def be_bytes_def)
  from child_element [OF this, of CBS_ASN1_INTEGER] show ?thesis using False by (simp add: CBB_add_asn1_int64_def Let_def)
qed

section \<open>Initialising and finishing\<close>

lemma init_builds:
  assumes "n < 2 ^ 64" "cbb_alloc s buffer_size" "n = 0 \<or> cbb_alloc s n"
  shows "\<exists>t. CBB_init n s = (Ok (), t) \<and> builds [(Fixed 0, [])] t \<and> cbb_alloc t = cbb_alloc s \<and>
    (\<exists>b. cbb_base t = Some b \<and> b_can_resize b)"
  using assms
  by (auto simp: CBB_init_def CBB_zero_def cbb_init_def seq_basic act_run builds_def holds_frames_def frames_ok_def b_cap_def)

lemma init_fixed_builds:
  assumes "length buf < 2 ^ 64" "cbb_alloc s buffer_size"
  shows "\<exists>t b. CBB_init_fixed buf s = (Ok (), t) \<and> builds [(Fixed 0, [])] t \<and> cbb_base t = Some b \<and> b_buf b = buf \<and> \<not> b_can_resize b"
  using assms
  by (auto simp: CBB_init_fixed_def CBB_zero_def cbb_init_def seq_basic act_run seq_def builds_def holds_frames_def frames_ok_def b_cap_def update_def query_def)

lemma finish_run:
  assumes "builds fs s"
  obtains (Ok) buf bs t where "CBB_finish 0 True True s = (Ok (Some buf, Some (length bs)), t)" "take (length bs) buf = bs"
      "flush_frames 0 fs = Some [(Fixed 0, bs)]" "cbb_base t = None"
  | (Fail) t where "CBB_finish 0 True True s = (Fail, t)" "failed t"
      "\<And>gs. flush_frames 0 fs = Some gs \<Longrightarrow> \<not> fits (length (render gs)) s"
proof -
  have lt: "0 < length fs" using assms by (auto simp: builds_def frames_ok_def)
  show thesis
    using assms lt
  proof (cases rule: flush_run)
    case (Ok gs t)
    then obtain bs where gs: "gs = [(Fixed 0, bs)]"
      using flush_frames_facts(1) [OF Ok(2) lt] by (cases gs) (auto simp: builds_def frames_ok_def)
    obtain b where "cbb_base t = Some b" "b_len b = length bs" "take (length bs) (b_buf b) = bs"
      using Ok(3) by (auto simp: gs builds_def holds_frames_def b_cap_def)
    then show ?thesis
      using that(1) [of "b_buf b" bs "t\<lparr>cbb_base := None, cbb_open := []\<rparr>"] Ok(1,2)
      by (simp add: CBB_finish_def seq_run(1) with_base_at CBB_cleanup_def seq_basic act_run gs)
  next
    case (Fail t)
    then show ?thesis using that(2) by (simp add: CBB_finish_def seq_run(2))
  qed
qed

text \<open>A fresh builder that something is added to, and that is finished.\<close>

lemma build_cases:
  assumes "adds 0 m bs" "builds [(Fixed 0, [])] s"
  obtains (Ok) buf t where "seq m (\<lambda>_. CBB_finish 0 True True) s = (Ok (Some buf, Some (length bs)), t)" "take (length bs) buf = bs"
      "\<And>b. cbb_base s = Some b \<Longrightarrow> \<not> b_can_resize b \<Longrightarrow> length bs \<le> b_cap b"
  | (Fail) t where "seq m (\<lambda>_. CBB_finish 0 True True) s = (Fail, t)" "\<not> fits (length bs) s"
proof -
  have one: "length [(Fixed 0, [])] = Suc 0" by simp
  show thesis
    using assms(1) [unfolded adds_def] one assms(2)
  proof (cases rule: implementsD)
    case (Ok x t gs)
    then have gs: "gs = [(Fixed 0, bs)]" by (simp add: add_last_def)
    have flushed: "flush_frames 0 gs = Some gs" by (simp add: gs flush_frames_def)
    have m: "seq m (\<lambda>_. CBB_finish 0 True True) s = CBB_finish 0 True True t" by (rule seq_run(1)) (simp add: Ok(1))
    obtain c where "cbb_base t = Some c" "length (render gs) \<le> b_cap c" using builds_at [OF Ok(3)] by metis
    then have cap: "length bs \<le> b_cap b" if "cbb_base s = Some b" "\<not> b_can_resize b" for b
      using Ok(4) that by (auto simp: gs keeps_def)
    show ?thesis
      using Ok(3)
    proof (cases rule: finish_run)
      case (Ok buf cs u)
      then have "cs = bs" using flushed by (simp add: gs)
      then show ?thesis by (intro that(1) [of buf u, OF _ _ cap]) (use Ok(1,2) m in simp_all)
    next
      case (Fail u)
      have "\<not> fits (length bs) t" using Fail(3) [OF flushed] by (simp add: gs)
      then show ?thesis by (intro that(2) [of u]) (use Fail(1) m fits_keeps [OF Ok(4)] in auto)
    qed
  next
    case (Fail t)
    then show ?thesis by (intro that(2)) (simp_all add: seq_run(2) add_last_def)
  qed
qed

lemma build_and_finish:
  assumes "adds 0 m bs" "builds [(Fixed 0, [])] s" "fits (length bs) s"
  shows "\<exists>buf t. seq m (\<lambda>_. CBB_finish 0 True True) s = (Ok (Some buf, Some (length bs)), t) \<and> take (length bs) buf = bs"
  using assms(1,2) by (cases rule: build_cases) (use assms(3) in auto)

text \<open>A builder that has failed stays failed, and every operation on it fails without changing it.\<close>

lemma failed_flush: "failed s \<Longrightarrow> CBB_flush d s = (Fail, s)"
  by (auto simp: failed_def CBB_flush.simps [of d s])

lemma failed_ops:
  assumes "failed s"
  shows "CBB_add_bytes d bs s = (Fail, s)" "CBB_add_space d n s = (Fail, s)" "CBB_reserve d n s = (Fail, s)"
    "CBB_add_u d v k s = (Fail, s)" "cbb_add_length_prefixed d k s = (Fail, s)" "CBB_add_asn1 d tag s = (Fail, s)"
    "CBB_add_asn1_uint64 d v s = (Fail, s)" "CBB_add_asn1_int64 d v s = (Fail, s)"
    "CBB_add_asn1_octet_string d bs s = (Fail, s)" "CBB_add_asn1_bool d b s = (Fail, s)"
    "CBB_add_asn1_oid_from_text d bs s = (Fail, s)" "CBB_flush_asn1_set_of d s = (Fail, s)" "CBB_finish d x y s = (Fail, s)"
proof -
  note f = seq_run(2) [where m = "CBB_flush e" for e, OF failed_flush [OF assms]]
  show asn1: "CBB_add_asn1 d tag s = (Fail, s)" for tag by (simp add: CBB_add_asn1_def f)
  note g = seq_run(2) [where m = "CBB_add_asn1 e t" for e t]
  show uint: "CBB_add_asn1_uint64 d v s = (Fail, s)" by (simp add: CBB_add_asn1_uint64_def g asn1)
  show "CBB_add_asn1_int64 d v s = (Fail, s)" by (simp add: CBB_add_asn1_int64_def uint g asn1 Let_def)
  show "CBB_add_asn1_octet_string d bs s = (Fail, s)" "CBB_add_asn1_bool d b s = (Fail, s)"
    by (simp_all add: CBB_add_asn1_octet_string_def CBB_add_asn1_bool_def g asn1)
qed (simp_all add: CBB_add_bytes_def CBB_add_space_def CBB_reserve_def CBB_add_u_def cbb_add_length_prefixed_def
    CBB_add_asn1_oid_from_text_def CBB_flush_asn1_set_of_def CBB_finish_def seq_run(2) failed_flush assms act_run)

section \<open>Looking at and discarding contents\<close>

text \<open>A step on a local \<open>CBS\<close>.\<close>

lemma seq_on_cbs:
  "m c = (Ok x, c') \<Longrightarrow> seq (on_cbs c m) f = f (x, c')"
  by (rule ext) (simp add: seq_def on_cbs_def)

lemma frame_start:
  assumes "builds (fs @ [(k, bs)]) s" "length fs = d"
  shows "contents_start d s = length (render fs) + prefix_len k"
proof (cases "fs = []")
  case True
  then show ?thesis using assms by (auto simp: contents_start_def builds_def frames_ok_def)
next
  case False
  then have "d \<noteq> 0" using assms(2) by auto
  moreover have "cbb_open s ! (length fs - 1) = pending k (length (render fs))"
    using assms(1) open_last(1) [OF False, of k bs] by (auto simp: builds_def holds_frames_def)
  ultimately show ?thesis using assms(2) by (simp add: contents_start_def pending_def)
qed

lemma data_len_run:
  assumes "builds (fs @ [(k, bs)]) s" "length fs = d"
  obtains b rest where "CBB_data d s = (Ok (length (render fs) + prefix_len k), s)" "CBB_len d s = (Ok (length bs), s)"
    "cbb_base s = Some b" "b_buf b = render fs @ replicate (prefix_len k) 0 @ bs @ rest" "\<not> b_error b"
    "b_len b = length (render fs) + prefix_len k + length bs" "b_cap b < 2 ^ 64"
proof -
  obtain b where b: "cbb_base s = Some b" "\<not> b_error b" "b_cap b < 2 ^ 64" "b_len b = length (render (fs @ [(k, bs)]))"
    "b_buf b = render (fs @ [(k, bs)]) @ drop (length (render (fs @ [(k, bs)]))) (b_buf b)" "cbb_open s = tl (pend 0 (fs @ [(k, bs)]))"
    "length (render (fs @ [(k, bs)])) \<le> b_cap b"
    using builds_at [OF assms(1)] .
  have len: "length (cbb_open s) = d" using b(6) assms(2) by simp
  have buf: "b_buf b = render fs @ replicate (prefix_len k) 0 @ bs @ drop (length (render (fs @ [(k, bs)]))) (b_buf b)"
    using b(5) by simp
  show thesis
    by (rule that [OF _ _ b(1) buf b(2) _ b(3)])
      (use b(1,4) len frame_start [OF assms] in
        \<open>simp_all add: CBB_data_def CBB_len_def seq_basic with_base_of_def with_base_at has_child_def act_run\<close>)
qed

lemma discard_builds:
  assumes "builds fs s" "Suc d < length fs"
  shows "\<exists>t. CBB_discard_child d s = (Ok (), t) \<and> builds (take (Suc d) fs) t \<and> keeps s t"
proof -
  obtain k bs where kb: "fs ! Suc d = (k, bs)" by (cases "fs ! Suc d")
  note entry = open_entry [OF assms kb]
  obtain b where b: "cbb_base s = Some b" "\<not> b_error b" "b_cap b < 2 ^ 64" "b_len b = length (render fs)"
    "b_buf b = render fs @ drop (length (render fs)) (b_buf b)" "cbb_open s = tl (pend 0 fs)" "length (render fs) \<le> b_cap b"
    using builds_at [OF assms(1)] .
  have fs: "fs = take (Suc d) fs @ drop (Suc d) fs" by simp
  have pre: "render fs = render (take (Suc d) fs) @ render (drop (Suc d) fs)" by (subst fs) (simp del: append_take_drop_id)
  have "tl (pend 0 fs) = tl (pend 0 (take (Suc d) fs)) @ pend (length (render (take (Suc d) fs))) (drop (Suc d) fs)"
    using assms(2) by (subst fs, subst pend_append) (cases fs; auto simp del: append_take_drop_id)
  then have ps: "take d (cbb_open s) = tl (pend 0 (take (Suc d) fs))" using assms(2) by (simp add: b(6))
  have "frames_ok (take (Suc d) fs)" using assms by (cases fs) (auto simp: builds_def frames_ok_def dest: in_set_takeD)
  let ?t = "s\<lparr>cbb_base := Some (b\<lparr>b_len := length (render (take (Suc d) fs))\<rparr>), cbb_open := take d (cbb_open s)\<rparr>"
  have "take (length (render (take (Suc d) fs))) (b_buf b) = render (take (Suc d) fs)" by (subst b(5), subst pre) simp
  then have "builds (take (Suc d) fs) ?t"
    using b pre ps \<open>frames_ok (take (Suc d) fs)\<close> by (auto simp: builds_def holds_frames_def b_cap_def)
  moreover have "CBB_discard_child d s = (Ok (), ?t)"
    using b(1) entry(1,2) assms(2)
    by (simp add: CBB_discard_child_def seq_basic has_child_def with_base_at put_base_def act_run drop_child_def pending_def seq_def update_def)
  moreover have "keeps s ?t" using b(1) by (simp add: keeps_def b_cap_def)
  ultimately show ?thesis by blast
qed

text \<open>
  The two ways in which a caller writes into the buffer itself: into space that was added, and into
  space that was reserved, of which \<open>CBB_did_write\<close> takes a part.
\<close>

lemma add_space_implements:
  assumes "length bs < 2 ^ 64"
  shows "implements (\<lambda>fs. d < length fs) (seq (CBB_add_space d (length bs)) (\<lambda>p. write_at p bs)) (appended d bs)"
  unfolding CBB_add_space_def seq_assoc by (intro flush_adds add_raw_bytes assms)

lemma reserve_write_builds:
  assumes "builds fs s" "length fs = Suc d" "n < 2 ^ 64" "length bs \<le> n"
  obtains (Ok) t where "seq (CBB_reserve d n) (\<lambda>p. seq (write_at p bs) (\<lambda>_. CBB_did_write d (length bs))) s = (Ok (), t)"
      "builds (add_last bs fs) t" "keeps s t"
  | (Fail) t where "seq (CBB_reserve d n) (\<lambda>p. seq (write_at p bs) (\<lambda>_. CBB_did_write d (length bs))) s = (Fail, t)" "failed t"
      "\<not> fits (length (render fs) + n) s"
proof -
  obtain b where b: "cbb_base s = Some b" "\<not> b_error b" "b_cap b < 2 ^ 64" "b_len b = length (render fs)"
    "b_buf b = render fs @ drop (length (render fs)) (b_buf b)" "cbb_open s = tl (pend 0 fs)" "length (render fs) \<le> b_cap b"
    using builds_at [OF assms(1)] .
  have ok: "frames_ok fs" "fs \<noteq> []" using assms(1) by (auto simp: builds_def frames_ok_def)
  have flushed: "CBB_flush d s = (Ok (), s)" using b assms(2) by (simp add: CBB_flush.simps [of d s] has_child_def)
  have le: "b_len b \<le> b_cap b" using b by simp
  show thesis
    using b(1,3) le assms(3)
  proof (cases rule: reserve_run)
    case (Ok ext)
    let ?buf = "overlay (b_buf b @ ext) (b_len b) bs"
    let ?b = "b\<lparr>b_buf := ?buf\<rparr>" and ?t = "at_base s (b\<lparr>b_buf := ?buf, b_len := b_len b + length bs\<rparr>)"
    have room: "b_len b + length bs \<le> length (b_buf b @ ext)" using Ok(2) assms(4) by (simp add: b_cap_def)
    have cap: "length ?buf = b_cap b + length ext" using room by (simp add: b_cap_def)
    have w: "write_at (b_len b) bs (at_base s (b\<lparr>b_buf := b_buf b @ ext\<rparr>)) = (Ok (), at_base s ?b)"
      using room by (simp add: write_at_run b_cap_def)
    have "CBB_did_write d (length bs) (at_base s ?b) = (Ok (), ?t)"
      using room Ok(3) cap b(6) assms(2)
      by (simp add: CBB_did_write_def seq_basic with_base_of_def with_base_def has_child_def b_cap_def put_base_def act_run Let_def)
    then have run: "seq (CBB_reserve d n) (\<lambda>p. seq (write_at p bs) (\<lambda>_. CBB_did_write d (length bs))) s = (Ok (), ?t)"
      using flushed Ok(1) w by (simp add: CBB_reserve_def seq_run(1) seq_assoc)
    have "take (b_len b + length bs) ?buf = render fs @ bs"
      using b(4) room by (subst b(5)) (simp add: overlay_def)
    then have "builds (add_last bs fs) ?t"
      using ok b Ok cap room by (auto simp: builds_def holds_frames_def frames_ok_add_last pend_add_last b_cap_def)
    moreover have "keeps s ?t" using b(1) Ok(4) cap by (auto simp: keeps_def b_cap_def)
    ultimately show ?thesis using that(1) run by blast
  next
    case Fail
    then show ?thesis using that(2) flushed by (simp add: CBB_reserve_def seq_run b(4) seq_assoc)
  qed
qed

end
