(* ===== verification/Cbb_Set.thy ===== *)
theory Cbb_Set
  imports Cbb_Ops "HOL-Library.List_Lexorder"
begin

text \<open>
  \<open>CBB_flush_asn1_set_of\<close>: the contents are split into DER elements, \<open>compare_set_of_element\<close> is the
  lexicographic order of their bytes, and the sorted elements take the place of the contents.
\<close>

section \<open>Splitting the contents\<close>

definition elements :: "(u32 \<times> byte list) list \<Rightarrow> byte list list" where
  "elements xs = map der_element xs"

lemma count_elements [simp]: "length (elements xs) = length xs"
  by (simp add: elements_def)

lemma read_elements_step:
  assumes "cbs_ok c" "cbs_len c \<noteq> 0"
  shows "read_elements (Suc k) c = seq CBS_get_any_asn1_element (\<lambda>(out, _).
    seq (deref (cbs_data out) (cbs_len out)) (\<lambda>bs. seq (read_elements k) (\<lambda>rest. ret (bs # rest)))) c"
  using assms(2) by (simp add: read_elements.simps [of "Suc k"] seq_basic)

lemma read_elements_end: "cbs_len c = 0 \<Longrightarrow> read_elements k c = (Ok [], c)"
  by (simp add: read_elements.simps [of k] seq_basic act_run)

lemma der_element_nonempty: "der_element x \<noteq> []"
  by (auto simp: der_element_def der_length_def split: prod.split)

lemma read_one:
  assumes "cbs_ok c" "bytes_of c = der_element x @ rest" "der_ok x"
  shows "seq CBS_get_any_asn1_element (\<lambda>(out, _). seq (deref (cbs_data out) (cbs_len out)) f) c =
    f (der_element x) (after (length (der_element x)) c)"
proof -
  obtain t bs where x: "x = (t, bs)" by (cases x)
  let ?h = "length (der_tag t) + length (der_length (length bs))"
  have total: "length (der_element x) = ?h + length bs" by (simp add: x der_element_def)
  have len: "?h + length bs \<le> cbs_len c" using arg_cong [OF assms(2), of length] assms(1) total by simp
  have "CBS_get_any_asn1_element c = element_outcome c t ?h (length bs)"
    using assms by (intro element_of_code [where rest = "bs @ rest"]) (simp_all add: x der_element_def der_ok_def)
  then have run: "CBS_get_any_asn1_element c = (Ok (window 0 (?h + length bs) c, t, ?h), after (?h + length bs) c)"
    using len by (simp add: element_outcome_def)
  have ok: "cbs_ok (window 0 (?h + length bs) c)" using assms(1) len by (simp add: cbs_ok_def window_def)
  have "bytes_of (window 0 (?h + length bs) c) = der_element x"
    using assms(2) total len by (simp add: bytes_of_window)
  then show ?thesis 
    unfolding seq_run(1) [where m = CBS_get_any_asn1_element, OF run] prod.case deref_child [OF ok] seq_basic total by simp
qed

text \<open>The elements of a window are read when the fuel is at least its length.\<close>

lemma length_elements: "length xs \<le> length (concat (elements xs))"
proof (induction xs)
  case (Cons x xs)
  then show ?case using der_element_nonempty [of x] by (cases "der_element x") (simp_all add: elements_def)
qed simp

lemma read_elements_all:
  assumes "cbs_ok c" "bytes_of c = concat (elements xs)" "\<forall>x \<in> set xs. der_ok x" "length xs \<le> k"
  shows "\<exists>d. read_elements k c = (Ok (elements xs), d)"
  using assms
proof (induction xs arbitrary: c k)
  case Nil
  then have "cbs_len c = 0" using length_bytes_of [of c] by (simp add: elements_def)
  then show ?case by (simp add: read_elements_end elements_def)
next
  case (Cons x xs)
  then obtain j where k: "k = Suc j" by (cases k) auto
  have bs: "bytes_of c = der_element x @ concat (elements xs)" using Cons.prems(2) by (simp add: elements_def)
  have okx: "der_ok x" using Cons.prems(3) by simp
  from bs have "cbs_len c \<noteq> 0" using length_bytes_of [OF Cons.prems(1)] der_element_nonempty [of x] by (cases "cbs_len c") auto
  note step = read_elements_step [OF Cons.prems(1) this, of j] and at = bytes_of_append [OF Cons.prems(1) bs]
  obtain d where d: "read_elements j (after (length (der_element x)) c) = (Ok (elements xs), d)"
    using Cons.IH [OF at(4) at(2), of j] Cons.prems(3,4) k by auto
  have "read_elements k c = (Ok (elements (x # xs)), d)"
    unfolding k step read_one [OF Cons.prems(1) bs okx] using d by (simp add: seq_run(1) act_run elements_def)
  then show ?case by blast
qed

text \<open>Otherwise the contents are not a sequence of elements, and reading them fails.\<close>

lemma read_elements_cases:
  assumes "cbs_ok c" "cbs_len c \<le> k"
  obtains (Ok) xs d where "read_elements k c = (Ok (elements xs), d)" "bytes_of c = concat (elements xs)" "\<forall>x \<in> set xs. der_ok x"
  | (Fail) d where "read_elements k c = (Fail, d)" "\<nexists>xs. (\<forall>x \<in> set xs. der_ok x) \<and> bytes_of c = concat (elements xs)"
proof -
  have "(\<exists>xs. bytes_of c = concat (elements xs) \<and> (\<forall>x \<in> set xs. der_ok x)) \<or> (\<exists>d. read_elements k c = (Fail, d))"
    using assms
  proof (induction k arbitrary: c)
    case 0
    then show ?case by (intro disjI1 exI [of _ "[]"]) (simp add: elements_def bytes_of_def)
  next
    case (Suc k)
    show ?case
    proof (cases "cbs_len c = 0")
      case True
      then show ?thesis by (intro disjI1 exI [of _ "[]"]) (simp add: elements_def bytes_of_def)
    next
      case False
      note step = read_elements_step [OF Suc.prems(1) this, of k]
      show ?thesis
        using Suc.prems(1)
      proof (cases rule: element_cases)
        case stop
        then show ?thesis unfolding step by (simp add: seq_run(2))
      next
        case (element t n h)
        let ?x = "(t, take n (drop h (bytes_of c)))" and ?d = "after (h + n) c"
        have len: "length (take n (drop h (bytes_of c))) = n" using element(2) Suc.prems(1) by simp
        have x: "der_element ?x = take (h + n) (bytes_of c)" "der_ok ?x"
          using element(1,4) len by (simp_all add: der_element_def der_ok_def take_add)
        have bs: "bytes_of c = der_element ?x @ bytes_of ?d"
          unfolding x(1) bytes_of_after [OF element(2)] by simp
        have long: "length (der_element ?x) = h + n" using x(1) element(2) Suc.prems(1) by simp
        have pos: "0 < h + n" using long der_element_nonempty [of ?x] by (metis length_greater_0_conv)
        have d: "cbs_ok ?d" "cbs_len ?d \<le> k" using after_facts [OF Suc.prems(1) element(2)] pos Suc.prems(2) by (auto simp: window_def)
        have run: "read_elements (Suc k) c = seq (read_elements k) (\<lambda>rest. ret (der_element ?x # rest)) ?d"
          unfolding step read_one [OF Suc.prems(1) bs x(2)] long ..
        from Suc.IH [OF d] show ?thesis
        proof (elim disjE exE conjE)
          fix xs assume "bytes_of ?d = concat (elements xs)" "\<forall>x \<in> set xs. der_ok x"
          then show ?thesis using bs x(2) by (intro disjI1 exI [of _ "?x # xs"]) (simp add: elements_def)
        next
          fix e assume "read_elements k ?d = (Fail, e)"
          then show ?thesis unfolding run by (simp add: seq_run(2))
        qed
      qed
    qed
  qed
  moreover have fuel: "length xs \<le> k" if "bytes_of c = concat (elements xs)" for xs
    using length_elements [of xs] length_bytes_of [OF assms(1)] assms(2) that by simp
  ultimately show thesis
    using that read_elements_all [OF assms(1)] by (metis Pair_inject outcome.distinct(1))
qed

section \<open>Sorting\<close>

lemma memcmp_simps:
  "OPENSSL_memcmp [] [] = 0"
  "OPENSSL_memcmp (a # as) (b # bs) = (if a = b then OPENSSL_memcmp as bs else if a < b then - 1 else 1)"
  by (simp_all add: OPENSSL_memcmp_def)

lemma compare_simps:
  "compare_set_of_element [] bs = (if bs = [] then 0 else - 1)"
  "compare_set_of_element (a # as) [] = 1"
  "compare_set_of_element (a # as) (b # bs) = (if a = b then compare_set_of_element as bs else if a < b then - 1 else 1)"
  by (simp_all add: compare_set_of_element_def memcmp_simps Let_def)

lemma compare_lexicographic:
  "compare_set_of_element as bs \<le> 0 \<longleftrightarrow> as \<le> bs" "compare_set_of_element as bs = 0 \<longleftrightarrow> as = bs"
  by (induction as bs rule: list_induct2') (auto simp: compare_simps)

lemma qsort_sorts: "qsort compare_set_of_element xs = sort xs"
proof -
  have "qsort_insert compare_set_of_element x ys = insort x ys" for x ys
    by (induction ys) (simp_all add: compare_lexicographic)
  then have "qsort_insert compare_set_of_element = insort" by (intro ext)
  then show ?thesis by (simp add: qsort_def sort_key_def)
qed

section \<open>Replacing the contents\<close>

lemma add_all_adds:
  assumes "\<forall>x \<in> set xs. length x < 2 ^ 64"
  shows "adds d (add_all_bytes d xs) (concat xs)"
  using assms
proof (induction xs)
  case Nil
  then show ?case by (simp add: adds_ret)
next
  case (Cons x xs)
  have "adds d (CBB_add_bytes d x) x" using Cons.prems by (intro adds_of_appended CBB_add_bytes_implements) simp
  from adds_seq [OF this Cons.IH] Cons.prems show ?case by simp
qed

text \<open>The last string is emptied when the length of the buffer is put back to where its contents start.\<close>

lemma empty_builds:
  assumes "builds (fs @ [(k, bs)]) s" "cbb_base s = Some b"
  shows "builds (fs @ [(k, [])]) (at_base s (b\<lparr>b_len := length (render fs) + prefix_len k\<rparr>))"
    and "keeps s (at_base s (b\<lparr>b_len := length (render fs) + prefix_len k\<rparr>))" and "length (render (fs @ [(k, bs)])) \<le> b_cap b"
proof -
  let ?gs = "fs @ [(k, bs)]" and ?hs = "fs @ [(k, [])]"
  have at: "\<not> b_error b" "b_cap b < 2 ^ 64" "b_buf b = render ?gs @ drop (length (render ?gs)) (b_buf b)"
    "cbb_open s = tl (pend 0 ?gs)" "length (render ?gs) \<le> b_cap b"
    using builds_at [OF assms(1)] assms(2) by auto
  have "tl (pend 0 ?gs) = tl (pend 0 ?hs)" by (simp add: pend_append)
  moreover have "frames_ok ?hs" using assms(1) by (cases fs) (auto simp: builds_def frames_ok_def)
  moreover have "take (length (render ?hs)) (b_buf b) = render ?hs" by (subst at(3)) simp
  ultimately show "builds ?hs (at_base s (b\<lparr>b_len := length (render fs) + prefix_len k\<rparr>))"
    using at(1,2,4,5) by (auto simp: builds_def holds_frames_def b_cap_def)
  show "keeps s (at_base s (b\<lparr>b_len := length (render fs) + prefix_len k\<rparr>))"
    using assms(2) by (simp add: keeps_def b_cap_def)
  show "length (render ?gs) \<le> b_cap b" by (rule at(5))
qed

lemma sort_contents:
  assumes "builds (fs @ [(k, concat xs)]) s" "cbb_base s = Some b" "length fs = d" "n = length (concat xs)"
  shows "\<exists>t. seq (put_base (b\<lparr>b_len := length (render fs) + prefix_len k\<rparr>)) (\<lambda>_.
      seq (add_all_bytes d (qsort compare_set_of_element xs)) (\<lambda>_.
      seq (CBB_len d) (\<lambda>len. if len \<noteq> n then undef else ret ()))) s = (Ok (), t) \<and>
    builds (fs @ [(k, concat (sort xs))]) t \<and> keeps s t"
proof -
  let ?b = "b\<lparr>b_len := length (render fs) + prefix_len k\<rparr>"
  note empty = empty_builds [OF assms(1,2)]
  have total: "length (concat (sort xs)) = length (concat xs)"
  proof (induction xs)
    case (Cons x xs)
    have "length (concat (insort x ys)) = length x + length (concat ys)" for ys by (induction ys) simp_all
    then show ?case using Cons by simp
  qed simp
  have cap: "b_cap b < 2 ^ 64" using assms(1,2) by (auto simp: builds_def holds_frames_def)
  then have "\<forall>x \<in> set (sort xs). length x < 2 ^ 64"
    using empty(3) member_le_sum_list [of _ "map length xs"] by (fastforce simp: length_concat)
  note add = add_all_adds [OF this, of d, unfolded adds_def]
  have fits: "fits (length (render (fs @ [(k, concat (sort xs))]))) (at_base s ?b)"
    using empty(3) cap total by (auto simp: fits_def b_cap_def)
  have d: "length (fs @ [(k, [])]) = Suc d" using assms(3) by simp
  show ?thesis
    using add d empty(1)
  proof (cases rule: implementsD)
    case (Ok u t gs)
    then have t: "builds (fs @ [(k, concat (sort xs))]) t" by simp
    obtain e rest where "CBB_len d t = (Ok (length (concat (sort xs))), t)"
      using data_len_run [OF t assms(3)] by metis
    then show ?thesis
      using Ok(1) t keeps_trans [OF empty(2) Ok(4)] total assms(4)
      by (intro exI [of _ t]) (simp add: put_base_def seq_basic seq_run(1) qsort_sorts act_run)
  next
    case (Fail t)
    then show ?thesis using fits by simp
  qed
qed

lemma set_of_run:
  assumes "builds (fs @ [(k, cs)]) s" "length fs = d"
  obtains (Sorted) xs t where "CBB_flush_asn1_set_of d s = (Ok (), t)" "cs = concat (elements xs)" "\<forall>x \<in> set xs. der_ok x"
      "builds (fs @ [(k, concat (sort (elements xs)))]) t" "keeps s t"
  | (Bad) "CBB_flush_asn1_set_of d s = (Fail, s)" "\<nexists>xs. (\<forall>x \<in> set xs. der_ok x) \<and> cs = concat (elements xs)"
  | (Memory) xs where "CBB_flush_asn1_set_of d s = (Fail, s)" "cs = concat (elements xs)"
      "\<not> cbb_alloc s (length cs) \<or> \<not> cbb_alloc s (length xs * 16) \<or> 2 ^ 64 \<le> length xs * 16"
proof -
  obtain b rest where b: "CBB_data d s = (Ok (length (render fs) + prefix_len k), s)" "CBB_len d s = (Ok (length cs), s)"
    "cbb_base s = Some b" "b_buf b = render fs @ replicate (prefix_len k) 0 @ cs @ rest" "\<not> b_error b"
    using data_len_run [OF assms] by metis
  let ?start = "length (render fs) + prefix_len k"
  define c where "c = CBS_init (drop ?start (b_buf b)) (length cs)"
  have c: "cbs_ok c" "bytes_of c = cs" "cbs_len c \<le> length cs" by (simp_all add: c_def b(4) CBS_init_def cbs_ok_def bytes_of_def)
  have "length (cbb_open s) = d" using assms by (auto simp: builds_def holds_frames_def)
  then have flushed: "CBB_flush d s = (Ok (), s)" using b(3,5) by (simp add: CBB_flush.simps [of d s] has_child_def)
  note run = CBB_flush_asn1_set_of_def seq_run(1) [where m = "CBB_flush d", OF flushed]
    seq_run(1) [where m = "CBB_data d", OF b(1)] seq_run(1) [where m = "CBB_len d", OF b(2)] with_base_at [OF b(3)]
  show thesis
    using c(1,3)
  proof (cases rule: read_elements_cases)
    case (Ok xs e)
    have cs: "cs = concat (elements xs)" using Ok(2) c(2) by simp
    have children: "CBB_flush_asn1_set_of d s = (if length xs < 2 then ret () else if length xs > (2 ^ 64 - 1) div 16 then fail
        else seq (query cbb_alloc) (\<lambda>alloc. if \<not> alloc (length cs) \<or> \<not> alloc (length xs * 16) then fail
          else seq (put_base (b\<lparr>b_len := ?start\<rparr>)) (\<lambda>_. seq (add_all_bytes d (qsort compare_set_of_element (elements xs))) (\<lambda>_.
            seq (CBB_len d) (\<lambda>len. if len \<noteq> length cs then undef else ret ()))))) s"
      unfolding run seq_on_cbs [where m = "read_elements (length cs)", OF Ok(1) [unfolded c_def]] prod.case count_elements ..
    show ?thesis
    proof (cases "length xs < 2")
      case True
      then have "sort (elements xs) = elements xs" by (cases xs; cases "tl xs") (auto simp: elements_def)
      then show ?thesis
        using Sorted [OF _ cs Ok(3), of s] True assms(1) children cs by (simp add: act_run)
    next
      case False
      show ?thesis
      proof (cases "cbb_alloc s (length cs) \<and> cbb_alloc s (length xs * 16) \<and> length xs * 16 < 2 ^ 64")
        case True
        obtain t where t: "seq (put_base (b\<lparr>b_len := ?start\<rparr>)) (\<lambda>_. seq (add_all_bytes d (qsort compare_set_of_element (elements xs))) (\<lambda>_.
            seq (CBB_len d) (\<lambda>len. if len \<noteq> length cs then undef else ret ()))) s = (Ok (), t)"
          "builds (fs @ [(k, concat (sort (elements xs)))]) t" "keeps s t"
          using sort_contents [OF assms(1) [unfolded cs] b(3) assms(2), of "length cs"] cs by blast
        have "CBB_flush_asn1_set_of d s = (Ok (), t)"
          unfolding children using False True t(1) by (simp add: seq_basic)
        then show ?thesis by (rule Sorted [OF _ cs Ok(3) t(2,3)])
      next
        case out: False
        have "CBB_flush_asn1_set_of d s = (Fail, s)"
          unfolding children using False out by (auto simp: seq_basic act_run)
        then show ?thesis by (rule Memory [OF _ cs]) (use out in auto)
      qed
    qed
  next
    case (Fail e)
    have "CBB_flush_asn1_set_of d s = (Fail, s)"
      unfolding run using Fail(1) by (simp add: seq_def on_cbs_def c_def)
    then show ?thesis by (rule Bad) (use Fail(2) c(2) in simp)
  qed
qed

end
