(* ===== verification/Cbb_Tree.thy ===== *)
theory Cbb_Tree
  imports Cbb_Ops
begin

text \<open>
  Builder and reader together: a tree of DER values is written with the functions of cbb.c, children
  inside their parents, and read with the functions of cbs.c.
\<close>

section \<open>Trees of values\<close>

datatype der_value =
    Der_Int u64
  | Der_Uint u64
  | Der_Bool bool
  | Der_Octets "byte list"
  | Der_Elements u32 "der_value list"

text \<open>What a reader has to know: the functions to call, in which order and nesting.\<close>

datatype schema = Read_Int | Read_Uint | Read_Bool | Read_Octets | Read_Elements u32 "schema list"

fun schema_of :: "der_value \<Rightarrow> schema" where
  "schema_of (Der_Int _) = Read_Int"
| "schema_of (Der_Uint _) = Read_Uint"
| "schema_of (Der_Bool _) = Read_Bool"
| "schema_of (Der_Octets _) = Read_Octets"
| "schema_of (Der_Elements t xs) = Read_Elements t (map schema_of xs)"

fun der_code :: "der_value \<Rightarrow> byte list" where
  "der_code (Der_Int v) = der_element (CBS_ASN1_INTEGER, int_code v)"
| "der_code (Der_Uint v) = der_element (CBS_ASN1_INTEGER, uint_code (unat v))"
| "der_code (Der_Bool b) = der_element (CBS_ASN1_BOOLEAN, bool_code b)"
| "der_code (Der_Octets bs) = der_element (CBS_ASN1_OCTETSTRING, bs)"
| "der_code (Der_Elements t xs) = der_element (t, concat (map der_code xs))"

text \<open>The contents of every element have at most \<open>n\<close> bytes.\<close>

fun der_within :: "nat \<Rightarrow> der_value \<Rightarrow> bool" where
  "der_within n (Der_Octets bs) \<longleftrightarrow> length bs \<le> n"
| "der_within n (Der_Elements t xs) \<longleftrightarrow> (\<forall>x \<in> set xs. der_within n x) \<and> length (concat (map der_code xs)) \<le> n"
| "der_within n _ \<longleftrightarrow> True"

text \<open>The builder closes an element of at most \<open>0xfffffffe\<close> bytes; the reader takes \<open>0xffffffff\<close>.\<close>

abbreviation der_small :: "der_value \<Rightarrow> bool" where "der_small \<equiv> der_within 0xfffffffe"
abbreviation der_readable :: "der_value \<Rightarrow> bool" where "der_readable \<equiv> der_within 0xffffffff"

lemma small_readable: "der_small x \<Longrightarrow> der_readable x"
  by (induction "0xfffffffe :: nat" x rule: der_within.induct) auto

fun write_der :: "nat \<Rightarrow> der_value \<Rightarrow> (unit, CBB) act" and write_ders :: "nat \<Rightarrow> der_value list \<Rightarrow> (unit, CBB) act" where
  "write_der d (Der_Int v) = CBB_add_asn1_int64 d v"
| "write_der d (Der_Uint v) = CBB_add_asn1_uint64 d v"
| "write_der d (Der_Bool b) = CBB_add_asn1_bool d b"
| "write_der d (Der_Octets bs) = CBB_add_asn1_octet_string d bs"
| "write_der d (Der_Elements t xs) = seq (CBB_add_asn1 d t) (\<lambda>_. seq (write_ders (Suc d) xs) (\<lambda>_. CBB_flush d))"
| "write_ders d [] = ret ()"
| "write_ders d (x # xs) = seq (write_der d x) (\<lambda>_. write_ders d xs)"

fun read_der :: "schema \<Rightarrow> (der_value, CBS) act" and read_ders :: "schema list \<Rightarrow> (der_value list, CBS) act" where
  "read_der Read_Int = seq CBS_get_asn1_int64 (\<lambda>v. ret (Der_Int v))"
| "read_der Read_Uint = seq CBS_get_asn1_uint64 (\<lambda>v. ret (Der_Uint v))"
| "read_der Read_Bool = seq CBS_get_asn1_bool (\<lambda>b. ret (Der_Bool b))"
| "read_der Read_Octets = seq (CBS_get_asn1 CBS_ASN1_OCTETSTRING) (\<lambda>d. ret (Der_Octets (bytes_of d)))"
| "read_der (Read_Elements t xs) = seq (CBS_get_asn1 t) (\<lambda>d. seq (whole_child (read_ders xs) d) (\<lambda>ys. ret (Der_Elements t ys)))"
| "read_ders [] = ret []"
| "read_ders (x # xs) = seq (read_der x) (\<lambda>y. seq (read_ders xs) (\<lambda>ys. ret (y # ys)))"

section \<open>Writing\<close>

lemma element_adds:
  assumes "implements (\<lambda>fs. d < length fs) m (element_added d t bs)" "length bs \<le> 0xfffffffe"
  shows "adds d m (der_element (t, bs))"
  by (rule adds_of_appended) (use assms in simp)

lemma short_codes: "length (int_code v) \<le> 0xfffffffe" "length (uint_code (unat (v :: u64))) \<le> 0xfffffffe" "length (bool_code b) \<le> 0xfffffffe"
proof -
  show "length (int_code v) \<le> 0xfffffffe" using length_int_code(1) [of v] by simp
  have "length (min_be (unat v)) \<le> 8" using unat_less [of v] by (simp add: length_min_be)
  then show "length (uint_code (unat v)) \<le> 0xfffffffe" by (simp add: uint_code_def Let_def)
qed (simp add: bool_code_def)

lemma write_der_adds:
  "der_small x \<Longrightarrow> adds d (write_der d x) (der_code x)"
  "\<forall>x \<in> set xs. der_small x \<Longrightarrow> adds d (write_ders d xs) (concat (map der_code xs))"
proof (induction d x and d xs rule: write_der_write_ders.induct)
  case (1 d v)
  show ?case using element_adds [OF CBB_add_asn1_int64_implements] short_codes by simp
next
  case (2 d v)
  show ?case using element_adds [OF CBB_add_asn1_uint64_implements] short_codes by simp
next
  case (3 d b)
  show ?case using element_adds [OF CBB_add_asn1_bool_implements] short_codes by simp
next
  case (4 d bs)
  then have "length bs < 2 ^ 64" by simp
  from element_adds [OF CBB_add_asn1_octet_string_implements [OF this]] 4 show ?case by simp
next
  case (5 d t xs)
  then have small: "\<forall>x \<in> set xs. der_small x" "length (concat (map der_code xs)) \<le> 0xfffffffe" by simp_all
  show ?case
    unfolding write_der.simps der_code.simps by (rule element_adds [OF child_element [OF "5.IH" [OF small(1)]] small(2)])
next
  case (6 d)
  show ?case by (simp add: adds_ret)
next
  case (7 d x xs)
  then show ?case using adds_seq by simp
qed

section \<open>Reading\<close>

text \<open>A value that is wrapped, and a value in front of a list.\<close>

lemma reader_into:
  assumes "exact_reader get good view code valid" and f: "\<And>v. f v = ret (h (view v))"
    and v: "\<And>y. valid' y \<longleftrightarrow> (\<exists>x. valid x \<and> y = h x)" and e: "\<And>x. valid x \<Longrightarrow> code' (h x) = code x"
  shows "exact_reader (seq get f) (\<lambda>_ _. True) id code' valid'"
proof
  fix c assume c: "cbs_ok c"
  show "in_order c (\<lambda>_ _. True) (seq get f c)"
    by (rule exact_reader.seq_in_order [OF assms(1) c]) (simp add: in_order_basic f)
  show "\<exists>v. seq get f c = (Ok v, after (length (code' y)) c) \<and> id v = y"
    if y: "valid' y" "bytes_of c = code' y @ rest" for y rest
  proof -
    obtain x where x: "valid x" "y = h x" using v y(1) by blast
    then have "bytes_of c = code x @ rest" using y(2) e by simp
    then obtain v where "get c = (Ok v, after (length (code x)) c)" "view v = x"
      using exact_reader.accepts [OF assms(1) c x(1)] by blast
    then show ?thesis using x e by (simp add: seq_run(1) f act_run)
  qed
  show "valid' (id v) \<and> (\<exists>k. k \<le> cbs_len c \<and> c' = after k c \<and> take k (bytes_of c) = code' (id v))"
    if "seq get f c = (Ok v, c')" for v c'
    using that
  proof (rule seq_OkE)
    fix w d assume w: "get c = (Ok w, d)" "f w d = (Ok v, c')"
    then have "v = h (view w)" "c' = d" by (simp_all add: f act_run)
    then show ?thesis using exact_reader.exact [OF assms(1) c w(1)] v e by auto
  qed
qed

lemma reader_cons:
  assumes "exact_reader get good id code valid" "exact_reader gets goods id codes valids"
    and "\<And>zs. valid' zs \<longleftrightarrow> (\<exists>y ys. zs = y # ys \<and> valid y \<and> valids ys)"
    and "\<And>y ys. codes' (y # ys) = code y @ codes ys"
  shows "exact_reader (seq get (\<lambda>y. seq gets (\<lambda>ys. ret (y # ys)))) (\<lambda>_ _. True) id codes' valid'"
proof
  fix c assume c: "cbs_ok c"
  show "in_order c (\<lambda>_ _. True) (seq get (\<lambda>y. seq gets (\<lambda>ys. ret (y # ys))) c)"
    by (rule exact_reader.seq_in_order [OF assms(1) c], rule exact_reader.seq_in_order_sub [OF assms(2)])
      (simp_all add: in_order_basic)
  show "\<exists>v. seq get (\<lambda>y. seq gets (\<lambda>ys. ret (y # ys))) c = (Ok v, after (length (codes' zs)) c) \<and> id v = zs"
    if z: "valid' zs" "bytes_of c = codes' zs @ rest" for zs rest
  proof -
    obtain y ys where zs: "zs = y # ys" "valid y" "valids ys" using assms(3) z(1) by blast
    have bs: "bytes_of c = code y @ codes ys @ rest" using z(2) zs(1) assms(4) by simp
    note at = bytes_of_append [OF c bs]
    have one: "get c = (Ok y, after (length (code y)) c)" using exact_reader.accepts [OF assms(1) c zs(2) bs] by simp
    have "gets (after (length (code y)) c) = (Ok ys, after (length (codes ys)) (after (length (code y)) c))"
      using exact_reader.accepts [OF assms(2) at(4) zs(3) at(2)] by simp
    then show ?thesis using one zs(1) assms(4) at(1) by (simp add: seq_run(1) act_run window_def add.commute diff_diff_eq)
  qed
  show "valid' (id v) \<and> (\<exists>k. k \<le> cbs_len c \<and> c' = after k c \<and> take k (bytes_of c) = codes' (id v))"
    if "seq get (\<lambda>y. seq gets (\<lambda>ys. ret (y # ys))) c = (Ok v, c')" for v c'
  proof -
    obtain y d where y: "get c = (Ok y, d)" "seq gets (\<lambda>ys. ret (y # ys)) d = (Ok v, c')" using \<open>_ = (Ok v, c')\<close> by (rule seq_OkE)
    obtain ys e where ys: "gets d = (Ok ys, e)" "ret (y # ys) e = (Ok v, c')" using y(2) by (rule seq_OkE)
    have run: "get c = (Ok y, d)" "gets d = (Ok ys, c')" "v = y # ys" using y(1) ys by (simp_all add: act_run)
    obtain k where k: "valid y" "k \<le> cbs_len c" "d = after k c" "take k (bytes_of c) = code y"
      using exact_reader.exact [OF assms(1) c run(1)] by auto
    have d: "cbs_ok d" using exact_reader.reads [OF assms(1) c run(1)] by simp
    obtain j where j: "valids ys" "j \<le> cbs_len d" "c' = after j d" "take j (bytes_of d) = codes ys"
      using exact_reader.exact [OF assms(2) d run(2)] by auto
    have "k + j \<le> cbs_len c" using k(2,3) j(2) by (simp add: window_def)
    moreover have "c' = after (k + j) c" using j(3) k(3) by (simp add: window_def add.commute diff_diff_eq)
    moreover have "take (k + j) (bytes_of c) = codes' v"
      using k j run(3) assms(4) by (simp add: take_add bytes_of_after)
    ultimately show ?thesis using k(1) j(1) run(3) assms(3) by auto
  qed
qed

text \<open>The values a schema reads, and that their codes are exactly what it accepts.\<close>

abbreviation reads_as :: "schema \<Rightarrow> der_value \<Rightarrow> bool" where
  "reads_as s x \<equiv> schema_of x = s \<and> der_readable x"

abbreviation all_read_as :: "schema list \<Rightarrow> der_value list \<Rightarrow> bool" where
  "all_read_as ss xs \<equiv> map schema_of xs = ss \<and> (\<forall>x \<in> set xs. der_readable x)"

lemma schema_cases:
  "schema_of x = Read_Int \<longleftrightarrow> (\<exists>v. x = Der_Int v)" "schema_of x = Read_Uint \<longleftrightarrow> (\<exists>v. x = Der_Uint v)"
  "schema_of x = Read_Bool \<longleftrightarrow> (\<exists>b. x = Der_Bool b)" "schema_of x = Read_Octets \<longleftrightarrow> (\<exists>bs. x = Der_Octets bs)"
  "schema_of x = Read_Elements t ss \<longleftrightarrow> (\<exists>xs. x = Der_Elements t xs \<and> map schema_of xs = ss)"
  by (cases x; auto)+

lemma read_der_exact:
  "exact_reader (read_der s) (\<lambda>_ _. True) id der_code (reads_as s)"
  "exact_reader (read_ders ss) (\<lambda>_ _. True) id (\<lambda>xs. concat (map der_code xs)) (all_read_as ss)"
proof (induction s and ss rule: read_der_read_ders.induct)
  case 1
  show ?case
    unfolding read_der.simps by (rule reader_into [OF get_int64_exact, where h = Der_Int]) (auto simp: schema_cases)
next
  case 2
  show ?case
    unfolding read_der.simps by (rule reader_into [OF get_uint64_exact, where h = Der_Uint]) (auto simp: schema_cases)
next
  case 3
  show ?case
    unfolding read_der.simps by (rule reader_into [OF get_bool_exact, where h = Der_Bool]) (auto simp: schema_cases)
next
  case 4
  show ?case
    unfolding read_der.simps by (rule reader_into [OF get_asn1_exact, where h = Der_Octets]) (auto simp: schema_cases)
next
  case (5 t ss)
  show ?case
    unfolding read_der.simps seq_assoc [symmetric]
    by (rule reader_into [OF exact_reader.inside_element [OF "5.IH"], where h = "Der_Elements t"]) (auto simp: schema_cases)
next
  case 6
  show ?case
    by unfold_locales (auto simp: in_order_def act_run window_def intro: exI [of _ 0])
next
  case (7 s ss)
  show ?case
    unfolding read_ders.simps by (rule reader_cons [OF 7]) auto
qed

end
