(* ===== verification/Oid.thy ===== *)
theory Oid
  imports Cbb_Ops
begin

text \<open>
  Object identifiers: \<open>CBB_add_asn1_oid_from_text\<close> and \<open>CBS_asn1_oid_to_text\<close> convert between
  dotted decimal text and base-128 components, and are inverse to each other.
\<close>

section \<open>Decimal numbers\<close>

definition is_digit :: "byte \<Rightarrow> bool" where
  "is_digit u \<longleftrightarrow> 0x30 \<le> u \<and> u \<le> 0x39"

definition dec_val :: "nat \<Rightarrow> byte list \<Rightarrow> nat" where
  "dec_val v ds = foldl (\<lambda>v u. v * 10 + (unat u - 48)) v ds"

lemma dec_val_Cons: "dec_val v (u # ds) = dec_val (v * 10 + (unat u - 48)) ds"
  by (simp add: dec_val_def)

lemma dec_val_grows: "v \<le> dec_val v ds"
proof (induction ds arbitrary: v)
  case (Cons u ds)
  have "v \<le> v * 10 + (unat u - 48)" by simp
  also have "\<dots> \<le> dec_val (v * 10 + (unat u - 48)) ds" by (rule Cons.IH)
  finally show ?case by (simp add: dec_val_Cons)
qed (simp add: dec_val_def)

lemma digit_byte:
  assumes "k < 10"
  shows "is_digit (of_nat (48 + k))" "unat (of_nat (48 + k) :: byte) = 48 + k"
proof -
  show u: "unat (of_nat (48 + k) :: byte) = 48 + k" using assms by (simp only: unat_of_nat) simp
  show "is_digit (of_nat (48 + k))" unfolding is_digit_def word_le_nat_alt u using assms by simp
qed

lemma decimal_facts: "(\<forall>u \<in> set (decimal n). is_digit u) \<and> dec_val 0 (decimal n) = n \<and> decimal n \<noteq> [] \<and>
  (hd (decimal n) = 0x30 \<longrightarrow> n = 0) \<and> (n < 10 \<longrightarrow> length (decimal n) = 1)"
proof (induction n rule: decimal.induct)
  case (1 n)
  show ?case
  proof (cases "n < 10")
    case True
    note d = digit_byte [OF True]
    have eq: "decimal n = [of_nat (48 + n)]" using True by (simp add: decimal.simps [of n])
    have zero: "n = 0" if "of_nat (48 + n) = (0x30 :: byte)"
    proof -
      have "48 + n = unat (0x30 :: byte)" using d(2) unfolding that by simp
      then show ?thesis by simp
    qed
    show ?thesis
      unfolding eq dec_val_def foldl.simps d(2) using d(1) zero by simp
  next
    case False
    have d: "n mod 10 < 10" by simp
    note digit = digit_byte [OF d]
    have n: "n div 10 \<noteq> 0" using False by simp
    define ds and u :: byte where "ds = decimal (n div 10)" and "u = of_nat (48 + n mod 10)"
    have eq: "decimal n = ds @ [u]" using False by (simp add: decimal.simps [of n] ds_def u_def)
    have u: "is_digit u" "unat u - 48 = n mod 10" using digit by (simp_all only: u_def)
    have IH: "\<forall>u \<in> set ds. is_digit u" "dec_val 0 ds = n div 10" "ds \<noteq> []" "hd ds = 0x30 \<longrightarrow> n div 10 = 0"
      using "1.IH" [OF False] by (simp_all add: ds_def)
    have "dec_val 0 (ds @ [u]) = n" using IH(2) u(2) by (simp add: dec_val_def)
    then show ?thesis using IH u(1) n False by (simp add: eq)
  qed
qed

section \<open>Reading a component\<close>

text \<open>A component ends at the end of the text or at a dot that is not its last character.\<close>

lemma mult_small: "v * 10 + k < 2 ^ 64 \<Longrightarrow> (of_nat v * 10 + of_nat k :: u64) = of_nat (v * 10 + k)"
  by simp

lemma no_overflow:
  assumes "v * 10 + k < 2 ^ 64" "k < 10"
  shows "\<not> (of_nat v :: u64) > UINT64_MAX div 10" "\<not> (of_nat v :: u64) * 10 > UINT64_MAX - of_nat k"
proof -
  have v: "unat (of_nat v :: u64) = v" using assms by (simp add: unat_of_nat)
  have k: "unat (of_nat k :: u64) = k" using assms by (simp add: unat_of_nat)
  have m: "unat (UINT64_MAX :: u64) = 2 ^ 64 - 1" by simp
  have "unat (UINT64_MAX div 10) = (2 ^ 64 - 1) div 10" by (simp add: unat_div_distrib)
  then show "\<not> (of_nat v :: u64) > UINT64_MAX div 10" using assms v by (simp add: word_less_nat_alt)
  have "unat (UINT64_MAX - of_nat k) = 2 ^ 64 - 1 - k"
    using k assms(2) by (subst unat_sub) (simp_all add: word_le_nat_alt)
  moreover have "unat ((of_nat v :: u64) * 10) = v * 10"
    using v assms by (simp add: unat_word_ariths)
  ultimately show "\<not> (of_nat v :: u64) * 10 > UINT64_MAX - of_nat k"
    using assms(1) by (simp add: word_less_nat_alt)
qed

lemma digit_value:
  assumes "is_digit u"
  shows "\<not> (u < 0x30 \<or> u > 0x39)" "u \<noteq> 0x2e" "(ucast (u - 0x30) :: u64) = of_nat (unat u - 48)" "unat u - 48 < 10"
proof -
  have u: "48 \<le> unat u" "unat u \<le> 57" using assms by (simp_all add: is_digit_def word_le_nat_alt)
  then show "unat u - 48 < 10" by simp
  show "\<not> (u < 0x30 \<or> u > 0x39)" using assms by (auto simp: is_digit_def)
  show "u \<noteq> 0x2e" using u by auto
  have "unat (u - 0x30) = unat u - 48" using u by (subst unat_sub) (simp_all add: word_le_nat_alt)
  then show "(ucast (u - 0x30) :: u64) = of_nat (unat u - 48)" by (metis of_nat_unat)
qed

lemma dotted_stop:
  assumes "cbs_ok c" "bytes_of c = rest" "rest = [] \<or> (\<exists>r. rest = 0x2e # r \<and> r \<noteq> [])"
  shows "dotted_loop v True c = (Ok v, after (if rest = [] then 0 else 1) c)"
proof (cases rest)
  case Nil
  then have "cbs_len c = 0" using assms(1,2) by (metis length_bytes_of list.size(3))
  then have "CBS_get_u8 c = (Fail, c)" "after 0 c = c" by (simp_all add: CBS_get_u8_ok [OF assms(1)] window_def)
  then show ?thesis using Nil by (simp add: dotted_loop.simps [of v] act_run)
next
  case (Cons u r)
  then have r: "u = 0x2e" "r \<noteq> []" using assms(3) by auto
  note at = CBS_get_u8_cons [OF assms(1) assms(2) [unfolded Cons]]
  have "cbs_len (after 1 c) > 0" using at(4) r by (simp add: cbs_len_window)
  then show ?thesis using at(1) r Cons by (simp add: dotted_loop.simps [of v] act_run)
qed

lemma dotted_digits:
  assumes "cbs_ok c" "bytes_of c = ds @ rest" "rest = [] \<or> (\<exists>r. rest = 0x2e # r \<and> r \<noteq> [])"
    "\<forall>u \<in> set ds. is_digit u" "dec_val v ds < 2 ^ 64"
    "if seen then v \<noteq> 0 \<or> ds = [] else ds \<noteq> [] \<and> (hd ds = 0x30 \<longrightarrow> length ds = 1)"
  shows "dotted_loop (of_nat v) seen c =
    (Ok (of_nat (dec_val v ds)), after (length ds + (if rest = [] then 0 else 1)) c)"
  using assms
proof (induction ds arbitrary: v seen c)
  case Nil
  then show ?case using dotted_stop [of c rest "of_nat v"] by (simp add: dec_val_def split: if_splits)
next
  case (Cons u ds)
  have bs: "bytes_of c = u # (ds @ rest)" using Cons.prems(2) by simp
  note at = CBS_get_u8_cons [OF Cons.prems(1) bs]
  have u: "is_digit u" using Cons.prems(4) by simp
  note digit = digit_value [OF u]
  let ?w = "v * 10 + (unat u - 48)"
  have w: "?w < 2 ^ 64" using Cons.prems(5) dec_val_grows [of ?w ds] by (simp add: dec_val_Cons)
  note bounds = no_overflow [OF w digit(4)]
  have v: "v = 0 \<longleftrightarrow> (of_nat v :: u64) = 0"
    using w by (auto simp: word_unat_eq_iff unat_of_nat)
  have seen: "\<not> (seen \<and> (of_nat v :: u64) = 0)" using Cons.prems(6) v by auto
  have nz: "?w \<noteq> 0 \<or> ds = []"
  proof (cases "v = 0")
    case True
    then have "u = 0x30 \<Longrightarrow> ds = []" using Cons.prems(6) by (auto split: if_splits)
    moreover have "u = 0x30" if "unat u - 48 = 0"
    proof -
      have "unat u = 48" using u that by (simp add: is_digit_def word_le_nat_alt)
      then show ?thesis by (simp add: word_unat_eq_iff)
    qed
    ultimately show ?thesis by (metis add_is_0)
  qed simp
  have go: "\<not> (u = 0x2e \<and> cbs_len (after 1 c) > 0)" using digit(2) by blast
  have ok: "\<not> (u < 0x30 \<or> u > 0x39 \<or> seen \<and> (of_nat v :: u64) = 0 \<or> (of_nat v :: u64) > UINT64_MAX div 10 \<or>
      of_nat v * 10 > UINT64_MAX - ucast (u - 0x30))"
    using digit(1) bounds seen unfolding digit(3) by blast
  have "dotted_loop (of_nat v) seen c = dotted_loop (of_nat v * 10 + ucast (u - 0x30)) True (after 1 c)"
    unfolding dotted_loop.simps [of "of_nat v" seen c] at(1) outcome.case prod.case if_not_P [OF go] if_not_P [OF ok] ..
  also have "(of_nat v * 10 + ucast (u - 0x30) :: u64) = of_nat ?w" unfolding digit(3) by (rule mult_small [OF w])
  also have "dotted_loop (of_nat ?w) True (after 1 c) =
      (Ok (of_nat (dec_val ?w ds)), after (length ds + (if rest = [] then 0 else 1)) (after 1 c))"
    using Cons.IH [OF at(2,3) Cons.prems(3), of ?w True] Cons.prems(4,5) nz by (simp add: dec_val_Cons)
  finally show ?case by (simp add: dec_val_Cons after_after)
qed

lemma parse_component:
  assumes "cbs_ok c" "bytes_of c = decimal (unat (v :: u64)) @ rest" "rest = [] \<or> (\<exists>r. rest = 0x2e # r \<and> r \<noteq> [])"
  shows "parse_dotted_decimal c = (Ok v, after (length (decimal (unat v)) + (if rest = [] then 0 else 1)) c)"
proof -
  have d: "\<forall>u \<in> set (decimal (unat v)). is_digit u" "dec_val 0 (decimal (unat v)) = unat v" "decimal (unat v) \<noteq> []"
    "hd (decimal (unat v)) = 0x30 \<longrightarrow> length (decimal (unat v)) = 1"
    using decimal_facts [of "unat v"] by auto
  show ?thesis
    using dotted_digits [OF assms d(1), of 0 False] d(2-4) unat_less [of v] by (simp add: parse_dotted_decimal_def)
qed

section \<open>From text\<close>

definition oid_ok :: "u64 \<Rightarrow> u64 \<Rightarrow> bool" where
  "oid_ok a b \<longleftrightarrow> a \<le> 2 \<and> (a < 2 \<longrightarrow> b \<le> 39) \<and> b \<le> UINT64_MAX - 80"

definition oid_contents :: "u64 \<Rightarrow> u64 \<Rightarrow> u64 list \<Rightarrow> byte list" where
  "oid_contents a b xs = base128 (40 * a + b) @ concat (map base128 xs)"

definition dotted :: "u64 list \<Rightarrow> byte list" where
  "dotted xs = concat (map (\<lambda>v. 0x2e # decimal (unat v)) xs)"

definition oid_text :: "u64 \<Rightarrow> u64 \<Rightarrow> u64 list \<Rightarrow> byte list" where
  "oid_text a b xs = tl (dotted (a # b # xs))"

lemma dotted_Cons: "dotted (x # xs) = 0x2e # decimal (unat x) @ dotted xs"
  by (simp add: dotted_def)

lemma dotted_ends: "dotted xs = [] \<or> (\<exists>r. dotted xs = 0x2e # r \<and> r \<noteq> [])"
  using decimal_facts by (cases xs) (auto simp: dotted_Cons dotted_def)

text \<open>One component in front of the others is read, and the rest is what follows its dot.\<close>

lemma next_component:
  assumes "cbs_ok c" "bytes_of c = tl (dotted (v # xs))"
  shows "\<exists>d. parse_dotted_decimal c = (Ok v, d) \<and> cbs_ok d \<and> bytes_of d = tl (dotted xs)"
proof -
  have bs: "bytes_of c = decimal (unat v) @ dotted xs" using assms(2) by (simp add: dotted_Cons)
  let ?n = "length (decimal (unat v)) + (if dotted xs = [] then 0 else 1)"
  have "?n \<le> length (bytes_of c)" using dotted_ends [of xs] by (auto simp: bs)
  then have le: "?n \<le> cbs_len c" using assms(1) by simp
  have "bytes_of (after ?n c) = tl (dotted xs)"
    unfolding bytes_of_after [OF le] bs by (simp add: drop_Suc)
  then show ?thesis
    using parse_component [OF assms(1) bs dotted_ends] after_facts [OF assms(1) le] by blast
qed

lemma dotted_length: "length xs \<le> length (dotted xs)" "xs \<noteq> [] \<Longrightarrow> length xs \<le> length (tl (dotted xs))"
proof -
  show le: "length xs \<le> length (dotted xs)" for xs by (induction xs) (simp_all add: dotted_Cons dotted_def)
  show "xs \<noteq> [] \<Longrightarrow> length xs \<le> length (tl (dotted xs))"
  proof (cases xs)
    case (Cons x ys)
    have "1 \<le> length (decimal (unat x))" using decimal_facts [of "unat x"] by (cases "decimal (unat x)") auto
    then show ?thesis using le [of ys] by (simp add: Cons dotted_Cons)
  qed simp
qed

lemma components_add:
  assumes "cbs_ok c" "bytes_of c = tl (dotted xs)" "length xs \<le> k"
  shows "adds d (oid_components d k c) (concat (map base128 xs))"
  using assms
proof (induction xs arbitrary: c k)
  case Nil
  then have "cbs_len c = 0" by (metis dotted_def concat.simps(1) length_bytes_of list.map_disc_iff list.sel(2) list.size(3) map_is_Nil_conv)
  then show ?case by (simp add: oid_components.simps [of d k c] adds_ret)
next
  case (Cons x xs)
  obtain e where e: "parse_dotted_decimal c = (Ok x, e)" "cbs_ok e" "bytes_of e = tl (dotted xs)"
    using next_component [OF Cons.prems(1,2)] by blast
  obtain j where j: "k = Suc j" "length xs \<le> j" using Cons.prems(3) by (cases k) auto
  have "bytes_of c \<noteq> []" using Cons.prems(2) decimal_facts [of "unat x"] by (simp add: dotted_Cons)
  then have "cbs_len c \<noteq> 0" using Cons.prems(1) by (metis length_0_conv length_bytes_of)
  then have "oid_components d k c = seq (add_base128_integer d x) (\<lambda>_. oid_components d j e)"
    by (simp add: oid_components.simps [of d "Suc j" c] j(1) seq_on_cbs [where m = parse_dotted_decimal, OF e(1)])
  then show ?case
    using adds_seq [OF add_base128_adds Cons.IH [OF e(2,3) j(2)]] by simp
qed

lemma from_text_implements:
  assumes "oid_ok a b"
  shows "implements (\<lambda>fs. d < length fs) (CBB_add_asn1_oid_from_text d (oid_text a b xs)) (appended d (oid_contents a b xs))"
  unfolding CBB_add_asn1_oid_from_text_def
proof (rule flush_adds)
  let ?c = "CBS_init (oid_text a b xs) (length (oid_text a b xs))"
  have c: "cbs_ok ?c" "bytes_of ?c = tl (dotted (a # b # xs))"
    by (simp_all add: cbs_ok_def CBS_init_def bytes_of_def oid_text_def)
  obtain e where e: "parse_dotted_decimal ?c = (Ok a, e)" "cbs_ok e" "bytes_of e = tl (dotted (b # xs))"
    using next_component [OF c] by blast
  obtain f where f: "parse_dotted_decimal e = (Ok b, f)" "cbs_ok f" "bytes_of f = tl (dotted xs)"
    using next_component [OF e(2,3)] by blast
  have fuel: "length xs \<le> cbs_len f"
    using dotted_length(2) [of xs] length_bytes_of [OF f(2)] by (cases xs) (simp_all add: f(3))
  have "\<not> (a > 2 \<or> a < 2 \<and> b > 39 \<or> b > UINT64_MAX - 80)" using assms unfolding oid_ok_def by (meson not_less)
  note ok = if_not_P [OF this]
  show "adds d (seq (on_cbs ?c parse_dotted_decimal) (\<lambda>(a, cbs). seq (on_cbs cbs parse_dotted_decimal) (\<lambda>(b, cbs).
     if a > 2 \<or> a < 2 \<and> b > 39 \<or> b > UINT64_MAX - 80 then fail
     else seq (add_base128_integer d (40 * a + b)) (\<lambda>_. oid_components d (cbs_len cbs) cbs)))) (oid_contents a b xs)"
    unfolding seq_on_cbs [where m = parse_dotted_decimal, OF e(1)] prod.case
      seq_on_cbs [where m = parse_dotted_decimal, OF f(1)] ok oid_contents_def
    by (rule adds_seq [OF add_base128_adds components_add [OF f(2,3) fuel]])
qed

section \<open>To text\<close>

lemma add_decimal_adds: "adds 0 (add_decimal v) (decimal (unat v))"
proof -
  have len: "n < 10 ^ Suc k \<Longrightarrow> length (decimal n) \<le> Suc k" for n k
  proof (induction n arbitrary: k rule: decimal.induct)
    case (1 n)
    show ?case
    proof (cases "n < 10")
      case False
      then obtain j where "k = Suc j" using "1.prems" by (cases k) auto
      then show ?thesis using "1.IH" [OF False, of j] "1.prems" False by (simp add: decimal.simps [of n] div_less_iff_less_mult mult.commute)
    qed (simp add: decimal.simps)
  qed
  have "length (decimal (unat v)) \<le> 20" using len [of "unat v" 19] unat_less [of v] by simp
  then show ?thesis unfolding add_decimal_def by (intro adds_of_appended CBB_add_bytes_implements) simp
qed

lemma text_loop_adds:
  assumes "cbs_ok c" "bytes_of c = concat (map base128 xs)" "length xs \<le> k"
  shows "adds 0 (oid_text_loop k c) (dotted xs)"
  using assms
proof (induction xs arbitrary: c k)
  case Nil
  then have "cbs_len c = 0" by (metis concat.simps(1) length_bytes_of list.map_disc_iff list.size(3))
  then show ?case by (simp add: oid_text_loop.simps [of k c] adds_ret dotted_def)
next
  case (Cons x xs)
  have bs: "bytes_of c = base128 x @ concat (map base128 xs)" using Cons.prems(2) by simp
  note at = bytes_of_append [OF Cons.prems(1) bs]
  note read = base128_accepts [OF Cons.prems(1) bs]
  obtain j where j: "k = Suc j" "length xs \<le> j" using Cons.prems(3) by (cases k) auto
  have "bytes_of c \<noteq> []" by (simp add: bs base128_def)
  then have "cbs_len c \<noteq> 0" using Cons.prems(1) by (metis length_0_conv length_bytes_of)
  then have "oid_text_loop k c = seq (CBB_add_u8 0 0x2e) (\<lambda>_. seq (add_decimal x) (\<lambda>_. oid_text_loop j (after (length (base128 x)) c)))"
    by (simp add: oid_text_loop.simps [of "Suc j" c] j(1) seq_on_cbs [where m = parse_base128_integer, OF read])
  then show ?case
    using adds_seq [OF adds_u8 adds_seq [OF add_decimal_adds Cons.IH [OF at(4,2) j(2)]], of "0x2e"] by (simp add: dotted_Cons)
qed

text \<open>The first two components share one number.\<close>

lemma first_two:
  assumes "oid_ok a b"
  shows "40 * a + b \<ge> 80 \<Longrightarrow> a = 2 \<and> 40 * a + b - 80 = b" "\<not> 40 * a + b \<ge> 80 \<Longrightarrow> (40 * a + b) div 40 = a \<and> (40 * a + b) mod 40 = b"
proof -
  have a: "unat a \<le> 2" and small: "unat a < 2 \<Longrightarrow> unat b \<le> 39" and b: "unat b \<le> 2 ^ 64 - 1 - 80"
    using assms by (auto simp: oid_ok_def word_le_nat_alt word_less_nat_alt)
  have sum: "unat (40 * a + b) = 40 * unat a + unat b" using a b by (simp add: unat_word_ariths)
  show "a = 2 \<and> 40 * a + b - 80 = b" if "40 * a + b \<ge> 80"
  proof -
    have "80 \<le> 40 * unat a + unat b" using that sum by (simp add: word_le_nat_alt)
    then have "unat a = 2" using a small by (cases "unat a < 2") simp_all
    then have "a = 2" by (simp add: word_unat_eq_iff)
    then show ?thesis by simp
  qed
  show "(40 * a + b) div 40 = a \<and> (40 * a + b) mod 40 = b" if "\<not> 40 * a + b \<ge> 80"
  proof -
    have "40 * unat a + unat b < 80" using that sum by (simp add: word_le_nat_alt)
    then have "unat b < 40" using small by (cases "unat a < 2") simp_all
    then show ?thesis by (simp add: word_unat_eq_iff unat_div_distrib unat_mod_distrib sum)
  qed
qed

lemma first_two_adds:
  assumes "oid_ok a b"
  defines "v \<equiv> 40 * a + b"
  shows "adds 0 (if v \<ge> 80 then seq (CBB_add_bytes 0 [0x32, 0x2e]) (\<lambda>_. add_decimal (v - 80))
      else seq (add_decimal (v div 40)) (\<lambda>_. seq (CBB_add_u8 0 0x2e) (\<lambda>_. add_decimal (v mod 40))))
    (decimal (unat a) @ 0x2e # decimal (unat b))"
proof (cases "v \<ge> 80")
  case True
  have two: "decimal 2 = [0x32]" by (simp add: decimal.simps)
  have "adds 0 (CBB_add_bytes 0 [0x32, 0x2e]) [0x32, 0x2e]" by (intro adds_of_appended CBB_add_bytes_implements) simp
  from adds_seq [OF this add_decimal_adds [of b]] show ?thesis
    using first_two(1) [OF assms(1)] True by (simp add: v_def two)
next
  case False
  from adds_seq [OF add_decimal_adds [of a] adds_seq [OF adds_u8 add_decimal_adds [of b]], of "0x2e"] show ?thesis
    using first_two(2) [OF assms(1)] False by (simp add: v_def)
qed

lemma to_text_run:
  assumes "oid_ok a b" "cbs_ok c" "bytes_of c = oid_contents a b xs" "length (oid_text a b xs) < 2 ^ 64 - 1" "\<forall>n. cbb_alloc s n"
  shows "\<exists>t. CBS_asn1_oid_to_text c s = (Ok (oid_text a b xs @ [0]), t)"
proof -
  let ?v = "40 * a + b" and ?text = "oid_text a b xs @ [0]"
  obtain s0 b0 where s0: "CBB_init 32 s = (Ok (), s0)" "builds [(Fixed 0, [])] s0" "cbb_alloc s0 = cbb_alloc s"
    "cbb_base s0 = Some b0" "b_can_resize b0"
    using init_builds [of 32 s] assms(5) by auto
  have bs: "bytes_of c = base128 ?v @ concat (map base128 xs)" using assms(3) by (simp add: oid_contents_def)
  note read = base128_accepts [OF assms(2) bs] and at = bytes_of_append [OF assms(2) bs]
  let ?d = "after (length (base128 ?v)) c"
  have fuel: "length xs \<le> cbs_len ?d"
  proof -
    have "length xs \<le> length (concat (map base128 xs))" by (induction xs) (simp_all add: base128_def)
    then show ?thesis unfolding at(5) .
  qed
  have whole: "oid_text a b xs = (decimal (unat a) @ 0x2e # decimal (unat b)) @ dotted xs" by (simp add: oid_text_def dotted_Cons)
  note body = adds_seq [OF first_two_adds [OF assms(1)] adds_seq [OF text_loop_adds [OF at(4,2) fuel] adds_u8 [of 0 0]]]
  have len: "length ?text < 2 ^ 64" using assms(4) by simp
  have fits: "fits (length ?text) s0" using len s0(3-5) assms(5) by (simp add: fits_def)
  obtain buf t where t: "seq (seq (if ?v \<ge> 80 then seq (CBB_add_bytes 0 [0x32, 0x2e]) (\<lambda>_. add_decimal (?v - 80))
      else seq (add_decimal (?v div 40)) (\<lambda>_. seq (CBB_add_u8 0 0x2e) (\<lambda>_. add_decimal (?v mod 40))))
      (\<lambda>_. seq (oid_text_loop (cbs_len ?d) ?d) (\<lambda>_. CBB_add_u8 0 0))) (\<lambda>_. CBB_finish 0 True True) s0 =
      (Ok (Some buf, Some (length ?text)), t)" "take (length ?text) buf = ?text"
    using build_and_finish [OF body s0(2)] len fits unfolding whole append_assoc by auto
  let ?digits = "if ?v \<ge> 80 then seq (CBB_add_bytes 0 [0x32, 0x2e]) (\<lambda>_. add_decimal (?v - 80))
    else seq (add_decimal (?v div 40)) (\<lambda>_. seq (CBB_add_u8 0 0x2e) (\<lambda>_. add_decimal (?v mod 40)))"
  have "CBS_asn1_oid_to_text c s = seq ?digits (\<lambda>_. seq (oid_text_loop (cbs_len ?d) ?d) (\<lambda>_.
      seq (CBB_add_u8 0 0) (\<lambda>_. seq (CBB_finish 0 True True) (\<lambda>(txt, txt_len). ret (take (the txt_len) (the txt)))))) s0"
    unfolding CBS_asn1_oid_to_text_def seq_run(1) [where m = "CBB_init 32", OF s0(1)]
      seq_on_cbs [where m = parse_base128_integer, OF read] prod.case ..
  also have "\<dots> = seq (seq (seq ?digits (\<lambda>_. seq (oid_text_loop (cbs_len ?d) ?d) (\<lambda>_. CBB_add_u8 0 0)))
      (\<lambda>_. CBB_finish 0 True True)) (\<lambda>(txt, txt_len). ret (take (the txt_len) (the txt))) s0"
    by (simp only: seq_assoc)
  also have "\<dots> = (Ok (take (length ?text) buf), t)"
    by (rule trans, rule seq_run(1), rule t(1)) (simp add: act_run)
  finally have "CBS_asn1_oid_to_text c s = (Ok (take (length ?text) buf), t)" .
  then show ?thesis using t(2) by simp
qed

section \<open>Text of any contents\<close>

text \<open>Steps on a builder without open children that succeed and keep it so, or fail.\<close>

definition open_string :: "CBB \<Rightarrow> bool" where
  "open_string s \<longleftrightarrow> (\<exists>cs. builds [(Fixed 0, cs)] s)"

definition calm :: "(CBB \<Rightarrow> bool) \<Rightarrow> ('a \<Rightarrow> CBB \<Rightarrow> bool) \<Rightarrow> ('a, CBB) act \<Rightarrow> bool" where
  "calm P Q m \<longleftrightarrow> (\<forall>s. P s \<longrightarrow> fst (m s) \<noteq> Ub \<and> fst (m s) \<noteq> NoFuel \<and> (\<forall>x t. m s = (Ok x, t) \<longrightarrow> Q x t))"

lemma calm_seq: "calm P Q m \<Longrightarrow> (\<And>x. calm (Q x) R (f x)) \<Longrightarrow> calm P R (seq m f)"
  unfolding calm_def
proof (intro allI impI)
  fix s
  assume m: "\<forall>s. P s \<longrightarrow> fst (m s) \<noteq> Ub \<and> fst (m s) \<noteq> NoFuel \<and> (\<forall>x t. m s = (Ok x, t) \<longrightarrow> Q x t)"
    and f: "\<And>x. \<forall>s. Q x s \<longrightarrow> fst (f x s) \<noteq> Ub \<and> fst (f x s) \<noteq> NoFuel \<and> (\<forall>y t. f x s = (Ok y, t) \<longrightarrow> R y t)"
    and s: "P s"
  obtain r t where run: "m s = (r, t)" by (cases "m s")
  show "fst (seq m f s) \<noteq> Ub \<and> fst (seq m f s) \<noteq> NoFuel \<and> (\<forall>y t. seq m f s = (Ok y, t) \<longrightarrow> R y t)"
    using m [rule_format, OF s] f run by (cases r) (simp_all add: seq_def)
qed

lemma calm_if: "(b \<Longrightarrow> calm P Q m) \<Longrightarrow> (\<not> b \<Longrightarrow> calm P Q k) \<Longrightarrow> calm P Q (if b then m else k)"
  by simp

lemma calm_adds: "adds 0 m bs \<Longrightarrow> calm open_string (\<lambda>_. open_string) m"
  unfolding calm_def
proof (intro allI impI)
  fix s
  assume m: "adds 0 m bs" and "open_string s"
  then obtain cs where s: "builds [(Fixed 0, cs)] s" by (auto simp: open_string_def)
  have "length [(Fixed 0, cs)] = Suc 0" by simp
  from implementsD [OF m [unfolded adds_def] this s]
  show "fst (m s) \<noteq> Ub \<and> fst (m s) \<noteq> NoFuel \<and> (\<forall>x t. m s = (Ok x, t) \<longrightarrow> open_string t)"
    by cases (auto simp: open_string_def add_last_def)
qed

lemma calm_on_cbs:
  assumes "cbs_ok c"
  shows "calm P (\<lambda>(v, d) t. P t \<and> cbs_ok d \<and> cbs_len d < cbs_len c) (on_cbs c parse_base128_integer)"
  unfolding calm_def
proof (intro allI impI)
  fix s
  assume s: "P s"
  let ?r = "on_cbs c parse_base128_integer s"
  show "fst ?r \<noteq> Ub \<and> fst ?r \<noteq> NoFuel \<and>
    (\<forall>x t. ?r = (Ok x, t) \<longrightarrow> (case x of (v, d) \<Rightarrow> \<lambda>t. P t \<and> cbs_ok d \<and> cbs_len d < cbs_len c) t)"
    using base128.ordered [OF assms]
  proof (cases rule: in_order_cases)
    case (Ok v d)
    obtain k where k: "k \<le> cbs_len c" "d = after k c" "take k (bytes_of c) = base128 v"
      using base128.exact [OF assms Ok(1)] by auto
    have "base128 v \<noteq> []" by (simp add: base128_def)
    then have "k \<noteq> 0" using k(3) by (intro notI) simp
    then have "cbs_len d < cbs_len c" using k(1,2) by (simp add: window_def)
    then show ?thesis using Ok s by (simp add: on_cbs_def)
  next
    case (Fail d)
    then show ?thesis by (simp add: on_cbs_def)
  qed
qed

lemma calm_pre: "(\<And>s. P s \<Longrightarrow> b) \<Longrightarrow> (b \<Longrightarrow> calm P Q m) \<Longrightarrow> calm P Q m"
  by (cases b) (auto simp: calm_def)

lemma calm_weaken: "calm P Q m \<Longrightarrow> (\<And>s. R s \<Longrightarrow> P s) \<Longrightarrow> calm R Q m"
  unfolding calm_def by blast

lemma text_loop_calm: "cbs_ok c \<Longrightarrow> cbs_len c \<le> k \<Longrightarrow> calm open_string (\<lambda>_. open_string) (oid_text_loop k c)"
proof (induction k arbitrary: c)
  case 0
  then show ?case by (simp add: oid_text_loop.simps [of 0] calm_def act_run)
next
  case (Suc k)
  have more: "calm (\<lambda>t. open_string t \<and> cbs_ok d \<and> cbs_len d < cbs_len c) (\<lambda>_. open_string)
      (seq (CBB_add_u8 0 0x2e) (\<lambda>_. seq (add_decimal v) (\<lambda>_. oid_text_loop k d)))" for v d
  proof (rule calm_pre [where b = "cbs_ok d \<and> cbs_len d \<le> k"])
    show "cbs_ok d \<and> cbs_len d \<le> k" if "open_string s \<and> cbs_ok d \<and> cbs_len d < cbs_len c" for s
      using that Suc.prems(2) by simp
    assume d: "cbs_ok d \<and> cbs_len d \<le> k"
    have "calm open_string (\<lambda>_. open_string) (seq (CBB_add_u8 0 0x2e) (\<lambda>_. seq (add_decimal v) (\<lambda>_. oid_text_loop k d)))"
      using d by (intro calm_seq [OF calm_adds [OF adds_u8]] calm_seq [OF calm_adds [OF add_decimal_adds]] Suc.IH) simp_all
    then show "calm (\<lambda>t. open_string t \<and> cbs_ok d \<and> cbs_len d < cbs_len c) (\<lambda>_. open_string)
      (seq (CBB_add_u8 0 0x2e) (\<lambda>_. seq (add_decimal v) (\<lambda>_. oid_text_loop k d)))" by (rule calm_weaken) simp
  qed
  have "calm open_string (\<lambda>_. open_string) (seq (on_cbs c parse_base128_integer) (\<lambda>(v, copy).
      seq (CBB_add_u8 0 0x2e) (\<lambda>_. seq (add_decimal v) (\<lambda>_. oid_text_loop k copy))))"
    by (rule calm_seq [OF calm_on_cbs [OF Suc.prems(1)]]) (use more in \<open>auto simp: split_def\<close>)
  moreover have "calm open_string (\<lambda>_. open_string) (ret ())" by (simp add: calm_def act_run)
  ultimately show ?case by (simp add: oid_text_loop.simps [of "Suc k" c])
qed

lemma init_calm: "calm (\<lambda>_. True) (\<lambda>_. open_string) (CBB_init 32)"
  by (auto simp: calm_def open_string_def CBB_init_def CBB_zero_def cbb_init_def seq_basic act_run builds_def
      holds_frames_def frames_ok_def b_cap_def)

lemma finish_calm: "calm open_string (\<lambda>_ _. True) (CBB_finish 0 True True)"
  unfolding calm_def
proof (intro allI impI)
  fix s
  assume "open_string s"
  then obtain cs where "builds [(Fixed 0, cs)] s" by (auto simp: open_string_def)
  then show "fst (CBB_finish 0 True True s) \<noteq> Ub \<and> fst (CBB_finish 0 True True s) \<noteq> NoFuel \<and>
      (\<forall>x t. CBB_finish 0 True True s = (Ok x, t) \<longrightarrow> True)"
    by (cases rule: finish_run) simp_all
qed

lemma oid_to_text_calm:
  assumes "cbs_ok c"
  shows "calm (\<lambda>_. True) (\<lambda>_ _. True) (CBS_asn1_oid_to_text c)"
proof -
  have two: "adds 0 (CBB_add_bytes 0 [0x32, 0x2e]) [0x32, 0x2e]" by (intro adds_of_appended CBB_add_bytes_implements) simp
  have digits: "calm open_string (\<lambda>_. open_string)
     (if v \<ge> 80 then seq (CBB_add_bytes 0 [0x32, 0x2e]) (\<lambda>_. add_decimal (v - 80))
      else seq (add_decimal (v div 40)) (\<lambda>_. seq (CBB_add_u8 0 0x2e) (\<lambda>_. add_decimal (v mod 40))))" for v
    by (intro calm_if calm_seq [OF calm_adds [OF two]] calm_seq [OF calm_adds [OF adds_u8]]
        calm_seq [OF calm_adds [OF add_decimal_adds]] calm_adds [OF add_decimal_adds])
  have rest: "calm (\<lambda>t. open_string t \<and> cbs_ok d \<and> cbs_len d < cbs_len c) (\<lambda>_ _. True)
    (seq (if v \<ge> 80 then seq (CBB_add_bytes 0 [0x32, 0x2e]) (\<lambda>_. add_decimal (v - 80))
          else seq (add_decimal (v div 40)) (\<lambda>_. seq (CBB_add_u8 0 0x2e) (\<lambda>_. add_decimal (v mod 40)))) (\<lambda>_.
     seq (oid_text_loop (cbs_len d) d) (\<lambda>_.
     seq (CBB_add_u8 0 0) (\<lambda>_. seq (CBB_finish 0 True True) (\<lambda>(txt, txt_len).
       ret (take (the txt_len) (the txt)))))))" for v d
  proof (rule calm_pre [where b = "cbs_ok d"])
    assume d: "cbs_ok d"
    have "calm (\<lambda>_. True) (\<lambda>_ _. True) (ret x)" for x :: "byte list" by (simp add: calm_def act_run)
    then have "calm open_string (\<lambda>_ _. True) (seq (CBB_finish 0 True True) (\<lambda>(txt, txt_len). ret (take (the txt_len) (the txt))))"
      by (intro calm_seq [OF finish_calm]) (simp add: split_def)
    from calm_seq [OF digits calm_seq [OF text_loop_calm [OF d order_refl] calm_seq [OF calm_adds [OF adds_u8] this]]]
    show ?thesis by (rule calm_weaken) simp
  qed simp
  show ?thesis
    unfolding CBS_asn1_oid_to_text_def
    by (rule calm_seq [OF init_calm], rule calm_seq [OF calm_on_cbs [OF assms]]) (use rest in \<open>auto simp: split_def\<close>)
qed

end
