(* ===== verification/Cbb_Props.thy ===== *)
theory Cbb_Props
  imports Cbs_Props Cbb_Set Cbb_Tree Oid "HOL-Library.Multiset"
begin

text \<open>
  The properties of the builder of cbb.c: its operations refine the abstract builder of frames, what is
  built is what the reader of cbs.c reads, and failures leave nothing behind that could be taken for a result.
\<close>

section \<open>A builder to start from\<close>

definition no_builder :: CBB where
  "no_builder = \<lparr>cbb_base = None, cbb_open = [], cbb_alloc = (\<lambda>_. True), cbb_fresh = (\<lambda>_. 0)\<rparr>"

definition fixed_builder :: "byte list \<Rightarrow> CBB" where
  "fixed_builder buf = no_builder\<lparr>cbb_base := Some \<lparr>b_buf = buf, b_len = 0, b_can_resize = False, b_error = False\<rparr>\<rparr>"

lemma fixed_builder_builds: "length buf < 2 ^ 64 \<Longrightarrow> builds [(Fixed 0, [])] (fixed_builder buf)"
  by (simp add: builds_def holds_frames_def frames_ok_def fixed_builder_def no_builder_def b_cap_def)

lemma fixed_builder_fits: "length buf < 2 ^ 64 \<Longrightarrow> fits n (fixed_builder buf) \<longleftrightarrow> n \<le> length buf"
  by (auto simp: fits_def fixed_builder_def b_cap_def)

lemmas builder_steps = fixed_builder_def no_builder_def CBB_add_bytes_def CBB_add_u16_length_prefixed_def cbb_add_length_prefixed_def
  CBB_flush.simps cbb_buffer_add_def cbb_buffer_reserve_def write_at_def add_child_def set_b_error_def with_base_def put_base_def
  has_child_def b_cap_def overlay_def Let_def seq_def ret_def fail_def update_def query_def

section \<open>Refinement\<close>

text \<open>
  C19. The builder refines a stack of open strings.  Whatever is added to a \<open>CBB\<close> of the chain, all its
  children are closed first (their prefixes filled in) and the bytes are appended behind them; opening a
  child pushes an empty string with its kind of prefix.  An operation returns true only with that result
  and false, with the buffer marked as failed, only when a prefix cannot hold its length or when the
  result need not fit the buffer; nothing undefined happens and no byte outside the buffer is written.
\<close>

theorem builder_refines_frames:
  assumes "length bs < 2 ^ 64"
  shows "implements (\<lambda>fs. d < length fs) (CBB_flush d) (\<lambda>fs. map_option (Pair ()) (flush_frames d fs)) \<and>
    implements (\<lambda>fs. d < length fs) (CBB_add_bytes d bs) (appended d bs) \<and>
    implements (\<lambda>fs. d < length fs) (seq (CBB_add_space d (length bs)) (\<lambda>p. write_at p bs)) (appended d bs) \<and>
    implements (\<lambda>fs. d < length fs) (CBB_add_u8 d a) (appended d [a]) \<and>
    implements (\<lambda>fs. d < length fs) (CBB_add_u16 d b) (appended d (be_bytes 2 b)) \<and>
    implements (\<lambda>fs. d < length fs) (CBB_add_u32 d c) (appended d (be_bytes 4 c)) \<and>
    implements (\<lambda>fs. d < length fs) (CBB_add_u64 d e) (appended d (be_bytes 8 e)) \<and>
    implements (\<lambda>fs. d < length fs) (CBB_add_u16le d b) (appended d (le_bytes 2 b)) \<and>
    implements (\<lambda>fs. d < length fs) (CBB_add_u32le d c) (appended d (le_bytes 4 c)) \<and>
    implements (\<lambda>fs. d < length fs) (CBB_add_u64le d e) (appended d (le_bytes 8 e)) \<and>
    implements (\<lambda>fs. d < length fs) (CBB_add_u24 d c)
      (after_flush d (\<lambda>fs. if unat c < 256 ^ 3 then Some ((), add_last (be_bytes 3 c) fs) else None)) \<and>
    implements (\<lambda>fs. d < length fs) (CBB_add_u8_length_prefixed d) (opened d [] (Fixed 1)) \<and>
    implements (\<lambda>fs. d < length fs) (CBB_add_u16_length_prefixed d) (opened d [] (Fixed 2)) \<and>
    implements (\<lambda>fs. d < length fs) (CBB_add_u24_length_prefixed d) (opened d [] (Fixed 3)) \<and>
    implements (\<lambda>fs. d < length fs) (CBB_add_asn1 d t) (opened d (der_tag t) Asn1)"
proof (intro conjI)
  show "implements (\<lambda>fs. d < length fs) (CBB_flush d) (\<lambda>fs. map_option (Pair ()) (flush_frames d fs))" by (rule flush_implements)
  have "be_bytes 3 (ucast c :: u64) = be_bytes 3 c" "unat (ucast c :: u64) = unat c" by (simp_all add: unat_widen be_bytes_widen)
  then show "implements (\<lambda>fs. d < length fs) (CBB_add_u24 d c)
      (after_flush d (\<lambda>fs. if unat c < 256 ^ 3 then Some ((), add_last (be_bytes 3 c) fs) else None))"
    using CBB_add_u_implements [of 3 d "ucast c"] by (simp add: CBB_add_u24_def cong: if_cong)
qed (simp_all only: CBB_add_bytes_implements [OF assms] add_space_implements [OF assms] CBB_add_u8_implements CBB_add_u16_implements
    CBB_add_u32_implements CBB_add_u64_implements CBB_add_le_implements CBB_add_u8_length_prefixed_def
    CBB_add_u16_length_prefixed_def CBB_add_u24_length_prefixed_def length_prefixed_implements CBB_add_asn1_implements)

theorem builder_refines_frames_witness:
  "\<exists>t. CBB_add_bytes 0 [7, 8] (fixed_builder [0, 0, 0]) = (Ok (), t) \<and> builds [(Fixed 0, [7, 8])] t"
proof -
  have imp: "implements (\<lambda>fs. 0 < length fs) (CBB_add_bytes 0 [7, 8]) (appended 0 [7, 8])"
    using builder_refines_frames [of "[7, 8]" 0 0 0 0 0 0] by simp
  have pos: "0 < length [(Fixed 0, [] :: byte list)]" by simp
  have gs: "appended 0 [7, 8] [(Fixed 0, [])] = Some ((), [(Fixed 0, [7, 8])])"
    by (simp add: after_flush_def flush_frames_def add_last_def)
  have b: "builds [(Fixed 0, [])] (fixed_builder [0, 0, 0])" by (rule fixed_builder_builds) simp
  show ?thesis
    using imp pos b
  proof (cases rule: implementsD)
    case (Fail t)
    then show ?thesis using Fail(3) [OF gs] by (simp add: fixed_builder_fits)
  qed (simp add: gs)
qed

text \<open>
  C20. DER values.  The functions that add a whole DER element refine appending its encoding: the tag, the
  minimal length and the shortest two's complement number, \<open>00\<close> or \<open>ff\<close>, or the bytes given.
\<close>

theorem builder_adds_der:
  assumes "length bs < 2 ^ 64"
  shows "implements (\<lambda>fs. d < length fs) (CBB_add_asn1_int64 d v) (element_added d CBS_ASN1_INTEGER (int_code v)) \<and>
    implements (\<lambda>fs. d < length fs) (CBB_add_asn1_uint64 d v) (element_added d CBS_ASN1_INTEGER (uint_code (unat v))) \<and>
    implements (\<lambda>fs. d < length fs) (CBB_add_asn1_bool d b) (element_added d CBS_ASN1_BOOLEAN (bool_code b)) \<and>
    implements (\<lambda>fs. d < length fs) (CBB_add_asn1_octet_string d bs) (element_added d CBS_ASN1_OCTETSTRING bs)"
  by (simp only: assms CBB_add_asn1_int64_implements CBB_add_asn1_uint64_implements CBB_add_asn1_bool_implements
      CBB_add_asn1_octet_string_implements simp_thms)

theorem builder_adds_der_witness:
  "\<exists>t. CBB_add_asn1_int64 0 (- 129) (fixed_builder [0, 0, 0, 0]) = (Ok (), t) \<and> builds [(Fixed 0, [2, 2, 0xff, 0x7f])] t"
proof -
  have imp: "implements (\<lambda>fs. 0 < length fs) (CBB_add_asn1_int64 0 (- 129)) (element_added 0 2 (int_code (- 129)))"
    using builder_adds_der [of "[]" 0 "- 129"] by simp
  have pos: "0 < length [(Fixed 0, [] :: byte list)]" by simp
  have code: "int_code (- 129) = [0xff, 0x7f]" "der_element (2, [0xff, 0x7f]) = [2, 2, 0xff, 0x7f]" by code_simp+
  have gs: "element_added 0 2 (int_code (- 129)) [(Fixed 0, [])] = Some ((), [(Fixed 0, [2, 2, 0xff, 0x7f])])"
    by (simp add: after_flush_def flush_frames_def code(1)) (simp add: add_last_def code(2))
  have b: "builds [(Fixed 0, [])] (fixed_builder [0, 0, 0, 0])" by (rule fixed_builder_builds) simp
  show ?thesis
    using imp pos b
  proof (cases rule: implementsD)
    case (Fail t)
    then show ?thesis using Fail(3) [OF gs] by (simp add: fixed_builder_fits)
  qed (simp add: gs)
qed

section \<open>Builder and reader\<close>

text \<open>
  C21. Round trip of trees.  Every tree of integers, booleans, octet strings and elements with children that is
  written into a new builder is finished as exactly its DER encoding, and reading that encoding with the
  functions of cbs.c for the same schema returns the tree and uses up the input, provided memory lasts and
  no element is longer than \<open>0xfffffffe\<close> bytes.
\<close>

theorem der_tree_round_trip:
  assumes "der_small x" "length (der_code x) < 2 ^ 64" "n < 2 ^ 64" "\<forall>k. cbb_alloc s k"
  shows "\<exists>buf t c. seq (CBB_init n) (\<lambda>_. seq (write_der 0 x) (\<lambda>_. CBB_finish 0 True True)) s =
      (Ok (Some buf, Some (length (der_code x))), t) \<and> take (length (der_code x)) buf = der_code x \<and>
    read_der (schema_of x) (CBS_init buf (length (der_code x))) = (Ok x, c) \<and> cbs_len c = 0"
proof -
  obtain s0 b0 where s0: "CBB_init n s = (Ok (), s0)" "builds [(Fixed 0, [])] s0" "cbb_alloc s0 = cbb_alloc s"
    "cbb_base s0 = Some b0" "b_can_resize b0"
    using init_builds [of n s] assms(3,4) by auto
  have "fits (length (der_code x)) s0" using s0(3-5) assms(2,4) by (simp add: fits_def)
  from build_and_finish [OF write_der_adds(1) [OF assms(1)] s0(2) this] obtain buf t where
    t: "seq (write_der 0 x) (\<lambda>_. CBB_finish 0 True True) s0 = (Ok (Some buf, Some (length (der_code x))), t)"
      "take (length (der_code x)) buf = der_code x" by blast
  have long: "length (der_code x) \<le> length buf" using arg_cong [OF t(2), of length] by simp
  define c where "c = CBS_init buf (length (der_code x))"
  have c: "cbs_ok c" "bytes_of c = der_code x" "cbs_len c = length (der_code x)"
    using long t(2) by (simp_all add: c_def CBS_init_def cbs_ok_def bytes_of_def)
  have "read_der (schema_of x) c = (Ok x, after (length (der_code x)) c)"
    using exact_reader.accepts [OF read_der_exact(1) c(1), where x = x and rest = "[]"] c(2) small_readable [OF assms(1)] by auto
  then show ?thesis using t s0(1) c(3) by (auto simp: seq_run(1) c_def window_def)
qed

theorem der_tree_round_trip_witness:
  "\<exists>buf t c. seq (CBB_init 0) (\<lambda>_. seq (write_der 0 (Der_Elements 0x20000010 [Der_Int (- 129), Der_Octets [1, 2, 3]])) (\<lambda>_. CBB_finish 0 True True)) no_builder =
      (Ok (Some buf, Some 11), t) \<and> take 11 buf = [0x30, 9, 2, 2, 0xff, 0x7f, 4, 3, 1, 2, 3] \<and>
    read_der (Read_Elements 0x20000010 [Read_Int, Read_Octets]) (CBS_init buf 11) =
      (Ok (Der_Elements 0x20000010 [Der_Int (- 129), Der_Octets [1, 2, 3]]), c) \<and> cbs_len c = 0"
proof -
  let ?x = "Der_Elements 0x20000010 [Der_Int (- 129), Der_Octets [1, 2, 3]]"
  have code: "der_code ?x = [0x30, 9, 2, 2, 0xff, 0x7f, 4, 3, 1, 2, 3]" by code_simp
  then have "concat (map der_code [Der_Int (- 129), Der_Octets [1, 2, 3]]) = [2, 2, 0xff, 0x7f, 4, 3, 1, 2, 3]" by code_simp
  then have small: "der_small ?x" by simp
  have len: "length (der_code ?x) = 11" unfolding code by simp
  have "length (der_code ?x) < 2 ^ 64" unfolding len by simp
  moreover have "(0 :: nat) < 2 ^ 64" "\<forall>k. cbb_alloc no_builder k" by (simp_all add: no_builder_def)
  note der_tree_round_trip [OF small calculation this]
  then show ?thesis unfolding len unfolding code schema_of.simps list.map .
qed

text \<open>
  C22. Unique reading.  For every schema the reader of cbs.c accepts exactly the encodings of the values of that
  schema, and returns the value encoded: there is no second encoding of a value, and what follows is left.
\<close>

theorem der_tree_canonical:
  assumes "cbs_ok c"
  shows "read_der s c = (Ok x, c') \<longleftrightarrow>
    reads_as s x \<and> bytes_of c = der_code x @ bytes_of c' \<and> c' = after (length (der_code x)) c"
  using exact_reader.reads_iff [OF read_der_exact(1) assms, where x = x and c' = c'] by auto

theorem der_tree_canonical_witness:
  "read_der (Read_Elements 0x20000010 [Read_Bool]) (CBS_init [0x30, 3, 1, 1, 0xff, 9] 6) = (Ok (Der_Elements 0x20000010 [Der_Bool True]), CBS_init [9] 1)"
proof -
  let ?x = "Der_Elements 0x20000010 [Der_Bool True]"
  have "bytes_of (CBS_init [0x30, 3, 1, 1, 0xff, 9] 6) = der_code ?x @ bytes_of (CBS_init [9] 1)"
    "CBS_init [9] 1 = after (length (der_code ?x)) (CBS_init [0x30, 3, 1, 1, 0xff, 9] 6)" by code_simp+
  moreover have "der_code (Der_Bool True) = [1, 1, 0xff]" by code_simp
  ultimately show ?thesis
    using der_tree_canonical [of "CBS_init [0x30, 3, 1, 1, 0xff, 9] 6" "Read_Elements 0x20000010 [Read_Bool]" ?x "CBS_init [9] 1"]
    by (simp add: cbs_ok_def CBS_init_def)
qed

text \<open>
  C23. Fixed buffers.  Into a buffer of its caller the builder writes a tree of DER values exactly when the
  encoding has at most as many bytes as the buffer; otherwise it returns false.  Either way nothing
  undefined happens, so nothing is written behind the buffer.
\<close>

theorem fixed_buffer_exact:
  assumes "der_small x" "length buf < 2 ^ 64" "cbb_alloc s buffer_size"
  shows "(case seq (CBB_init_fixed buf) (\<lambda>_. seq (write_der 0 x) (\<lambda>_. CBB_finish 0 True True)) s of
      (Ok (out, n), t) \<Rightarrow> length (der_code x) \<le> length buf \<and> n = Some (length (der_code x)) \<and>
        map_option (take (length (der_code x))) out = Some (der_code x)
    | (Fail, t) \<Rightarrow> length buf < length (der_code x)
    | _ \<Rightarrow> False)"
proof -
  obtain s0 b where s0: "CBB_init_fixed buf s = (Ok (), s0)" "builds [(Fixed 0, [])] s0" "cbb_base s0 = Some b" "b_buf b = buf" "\<not> b_can_resize b"
    using init_fixed_builds [OF assms(2,3)] by auto
  show ?thesis
    using write_der_adds(1) [OF assms(1)] s0(2)
  proof (cases rule: build_cases)
    case (Ok out t)
    then show ?thesis using s0 by (simp add: seq_run(1) b_cap_def)
  next
    case (Fail t)
    then have "length buf < length (der_code x)" using s0(3-5) assms(2) by (auto simp: fits_def b_cap_def)
    then show ?thesis using Fail(1) s0(1) by (simp add: seq_run(1))
  qed
qed

theorem fixed_buffer_exact_witness:
  "\<exists>t. seq (CBB_init_fixed [0, 0]) (\<lambda>_. seq (write_der 0 (Der_Bool True)) (\<lambda>_. CBB_finish 0 True True)) no_builder = (Fail, t)"
proof -
  have code: "der_code (Der_Bool True) = [1, 1, 0xff]" by code_simp
  show ?thesis
    using fixed_buffer_exact [of "Der_Bool True" "[0, 0]" no_builder] unfolding code
    by (simp add: no_builder_def split: prod.splits outcome.splits)
qed

section \<open>Errors, children and caller-written space\<close>

text \<open>The functions that do not look at the error flag leave it set, and the bytes alone.\<close>

definition marked_like :: "CBB \<Rightarrow> CBB \<Rightarrow> bool" where
  "marked_like s t \<longleftrightarrow> failed t \<and> map_option b_buf (cbb_base t) = map_option b_buf (cbb_base s)"

lemma unchecked_marked:
  assumes "failed s"
  shows "marked_like s (snd (CBB_did_write d n s))" "marked_like s (snd (CBB_discard_child d s))"
    "snd (CBB_data d s) = s" "snd (CBB_len d s) = s"
proof -
  obtain b where b: "cbb_base s = Some b" "b_error b" using assms by (auto simp: failed_def)
  show "marked_like s (snd (CBB_did_write d n s))" "marked_like s (snd (CBB_discard_child d s))"
    "snd (CBB_data d s) = s" "snd (CBB_len d s) = s"
    using b by (simp_all add: marked_like_def failed_def CBB_did_write_def CBB_discard_child_def CBB_data_def CBB_len_def
        with_base_of_def with_base_def put_base_def drop_child_def seq_def act_simps Let_def)
qed

text \<open>
  C24. The error flag sticks.  Let the flag of the buffer be set, as a refused allocation, a full fixed buffer
  or a string too long for its prefix set it.  Then every operation of cbb.c that checks it, on any \<open>CBB\<close> of the chain,
  returns false and changes nothing: finishing, flushing, opening a child, adding bytes, space or a number,
  adding a DER value or an object identifier, sorting a set.  \<open>CBB_did_write\<close> and \<open>CBB_discard_child\<close> do
  not check it and can change the length and the chain, but they keep the flag and the bytes, and \<open>CBB_data\<close> and \<open>CBB_len\<close> change
  nothing.  So a build that has been marked never gives a result, whatever is called in between.  (Text that is no
  object identifier, contents that are no set and a wrong length in \<open>CBB_did_write\<close> are failures that do not
  set the flag.)
\<close>

theorem failed_builder_stays_failed:
  assumes "failed s"
  shows "CBB_finish d want_data want_len s = (Fail, s) \<and> CBB_flush d s = (Fail, s) \<and>
    CBB_add_u8_length_prefixed d s = (Fail, s) \<and> CBB_add_u16_length_prefixed d s = (Fail, s) \<and>
    CBB_add_u24_length_prefixed d s = (Fail, s) \<and> CBB_add_asn1 d t s = (Fail, s) \<and>
    CBB_add_bytes d bs s = (Fail, s) \<and> CBB_add_space d n s = (Fail, s) \<and> CBB_reserve d n s = (Fail, s) \<and>
    CBB_add_u8 d u8 s = (Fail, s) \<and> CBB_add_u16 d u16 s = (Fail, s) \<and> CBB_add_u16le d u16 s = (Fail, s) \<and>
    CBB_add_u24 d u32 s = (Fail, s) \<and> CBB_add_u32 d u32 s = (Fail, s) \<and> CBB_add_u32le d u32 s = (Fail, s) \<and>
    CBB_add_u64 d v s = (Fail, s) \<and> CBB_add_u64le d v s = (Fail, s) \<and>
    CBB_add_asn1_uint64 d v s = (Fail, s) \<and> CBB_add_asn1_int64 d v s = (Fail, s) \<and>
    CBB_add_asn1_octet_string d bs s = (Fail, s) \<and> CBB_add_asn1_bool d b s = (Fail, s) \<and>
    CBB_add_asn1_oid_from_text d bs s = (Fail, s) \<and> CBB_flush_asn1_set_of d s = (Fail, s) \<and>
    marked_like s (snd (CBB_did_write d n s)) \<and> marked_like s (snd (CBB_discard_child d s)) \<and>
    snd (CBB_data d s) = s \<and> snd (CBB_len d s) = s"
  using assms
  by (simp add: failed_flush failed_ops unchecked_marked CBB_add_u8_def CBB_add_u16_def CBB_add_u16le_def CBB_add_u24_def CBB_add_u32_def
      CBB_add_u32le_def CBB_add_u64_def CBB_add_u64le_def CBB_add_u8_length_prefixed_def CBB_add_u16_length_prefixed_def
      CBB_add_u24_length_prefixed_def)

theorem failed_builder_stays_failed_witness:
  "\<exists>s. CBB_add_bytes 0 [1, 2] (fixed_builder [0]) = (Fail, s) \<and> CBB_finish 0 True True s = (Fail, s)"
proof -
  let ?s = "no_builder\<lparr>cbb_base := Some \<lparr>b_buf = [0], b_len = 0, b_can_resize = False, b_error = True\<rparr>\<rparr>"
  have "CBB_add_bytes 0 [1, 2] (fixed_builder [0]) = (Fail, ?s)" by (simp add: builder_steps)
  moreover have "failed ?s" by (simp add: failed_def)
  from failed_builder_stays_failed [OF this, of 0 True True] have "CBB_finish 0 True True ?s = (Fail, ?s)" by blast
  ultimately show ?thesis by blast
qed

text \<open>
  C25. Discarding a child.  The child, its own children and the room of their prefixes disappear, and the strings
  outside are as they were.
\<close>

theorem discard_restores:
  assumes "builds fs s" "Suc d < length fs"
  shows "\<exists>t. CBB_discard_child d s = (Ok (), t) \<and> builds (take (Suc d) fs) t \<and> keeps s t"
  using assms by (rule discard_builds)

theorem discard_restores_witness:
  "\<exists>s t. CBB_add_u16_length_prefixed 0 (fixed_builder [0, 0, 0]) = (Ok (), s) \<and> CBB_discard_child 0 s = (Ok (), t) \<and> builds [(Fixed 0, [])] t"
proof -
  let ?s = "no_builder\<lparr>cbb_base := Some \<lparr>b_buf = [0, 0, 0], b_len = 2, b_can_resize = False, b_error = False\<rparr>,
    cbb_open := [\<lparr>p_offset = 0, p_len_len = 2, p_is_asn1 = False\<rparr>]\<rparr>"
  have two: "replicate 2 (0 :: byte) = [0, 0]" by code_simp
  have s: "CBB_add_u16_length_prefixed 0 (fixed_builder [0, 0, 0]) = (Ok (), ?s)" by (simp add: builder_steps two)
  have "builds [(Fixed 0, []), (Fixed 2, [])] ?s"
    by (simp add: builds_def holds_frames_def frames_ok_def pending_def b_cap_def no_builder_def two)
  from discard_restores [OF this, of 0] s show ?thesis by auto
qed

text \<open>
  Space the caller writes itself.  \<open>CBB_reserve\<close> hands out room for \<open>n\<close> bytes behind the contents; when the
  caller writes at most that many and reports them with \<open>CBB_did_write\<close>, exactly those bytes are appended.
\<close>

theorem reserve_then_did_write:
  assumes "builds fs s" "length fs = Suc d" "n < 2 ^ 64" "length bs \<le> n"
  shows "case seq (CBB_reserve d n) (\<lambda>p. seq (write_at p bs) (\<lambda>_. CBB_did_write d (length bs))) s of
      (Ok _, t) \<Rightarrow> builds (add_last bs fs) t \<and> keeps s t
    | (Fail, t) \<Rightarrow> failed t \<and> \<not> fits (length (render fs) + n) s
    | _ \<Rightarrow> False"
  using assms by (cases rule: reserve_write_builds) simp_all

theorem reserve_then_did_write_witness:
  "\<exists>t. seq (CBB_reserve 0 3) (\<lambda>p. seq (write_at p [5, 6]) (\<lambda>_. CBB_did_write 0 (length [5, 6 :: byte]))) (fixed_builder [0, 0, 0]) = (Ok (), t) \<and>
    builds [(Fixed 0, [5, 6])] t"
proof -
  have b: "builds [(Fixed 0, [])] (fixed_builder [0, 0, 0])" by (rule fixed_builder_builds) simp
  have one: "length [(Fixed 0, [] :: byte list)] = Suc 0" "(3 :: nat) < 2 ^ 64" "length [5, 6 :: byte] \<le> 3" by simp_all
  have fits: "fits (length (render [(Fixed 0, [])]) + 3) (fixed_builder [0, 0, 0])" by (simp add: fixed_builder_fits)
  from reserve_then_did_write [OF b one] fits show ?thesis
    by (auto simp: add_last_def simp del: length_Cons split: prod.splits outcome.splits)
qed

section \<open>Readers stay in bounds\<close>

text \<open>
  C13. Bounds safety of the reader, for every function of cbs.c that reads a window.  On a window inside its
  object none of them reads behind the window (\<open>Ub\<close> does not occur, neither for DER nor for BER elements);
  the window only shrinks, also on failure, and stays as it is for the functions that only look; every
  string handed out lies inside the window it was cut from.  \<open>CBS_mem_equal\<close> needs a second operand
  of the length given to it.  \<open>CBS_asn1_oid_to_text\<close> reads a copy and writes a builder: on every window and from every
  state of the allocator it returns a text or fails.
\<close>

theorem cbs_readers_in_bounds:
  assumes "cbs_ok c"
  shows "in_order c (\<lambda>_ _. True) (CBS_skip n c) \<and>
    in_order c (\<lambda>_ _. True) (CBS_stow a c) \<and>
    in_order c (\<lambda>_ _. True) (CBS_strdup a c) \<and>
    in_order c (\<lambda>_ _. True) (CBS_contains_zero_byte c) \<and>
    (n \<le> length p \<longrightarrow> in_order c (\<lambda>_ _. True) (CBS_mem_equal p n c)) \<and>
    in_order c (\<lambda>bs _. length bs = n) (CBS_copy_bytes n c) \<and>
    in_order c (\<lambda>_ _. True) (CBS_get_u8 c) \<and>
    in_order c (\<lambda>_ _. True) (CBS_get_u16 c) \<and>
    in_order c (\<lambda>_ _. True) (CBS_get_u16le c) \<and>
    in_order c (\<lambda>_ _. True) (CBS_get_u24 c) \<and>
    in_order c (\<lambda>_ _. True) (CBS_get_u32 c) \<and>
    in_order c (\<lambda>_ _. True) (CBS_get_u32le c) \<and>
    in_order c (\<lambda>_ _. True) (CBS_get_u64 c) \<and>
    in_order c (\<lambda>_ _. True) (CBS_get_u64le c) \<and>
    in_order c (\<lambda>_ _. True) (CBS_get_last_u8 c) \<and>
    in_order c (\<lambda>d _. child_of d c) (CBS_get_bytes n c) \<and>
    in_order c (\<lambda>d _. child_of d c) (CBS_get_u8_length_prefixed c) \<and>
    in_order c (\<lambda>d _. child_of d c) (CBS_get_u16_length_prefixed c) \<and>
    in_order c (\<lambda>d _. child_of d c) (CBS_get_u24_length_prefixed c) \<and>
    in_order c (\<lambda>(d, _) _. child_of d c) (CBS_get_any_asn1_element c) \<and>
    in_order c (\<lambda>(d, _) _. child_of d c) (CBS_get_any_ber_asn1_element c) \<and>
    in_order c (\<lambda>(d, _) _. child_of d c) (CBS_get_any_asn1 c) \<and>
    in_order c (\<lambda>d _. child_of d c) (CBS_get_asn1 t c) \<and>
    in_order c (\<lambda>d _. child_of d c) (CBS_get_asn1_element t c) \<and>
    in_order c (\<lambda>_ d. d = c) (CBS_peek_asn1_tag t c) \<and>
    in_order c (\<lambda>_ _. True) (CBS_get_asn1_uint64 c) \<and>
    in_order c (\<lambda>_ _. True) (CBS_get_asn1_int64 c) \<and>
    in_order c (\<lambda>_ _. True) (CBS_get_asn1_bool c) \<and>
    in_order c (\<lambda>r _. \<forall>d. r = Some d \<longrightarrow> child_of d c) (CBS_get_optional_asn1 t c) \<and>
    in_order c (\<lambda>(d, present) _. present \<longrightarrow> child_of d c) (CBS_get_optional_asn1_octet_string t c) \<and>
    in_order c (\<lambda>_ _. True) (CBS_get_optional_asn1_uint64 t m c) \<and>
    in_order c (\<lambda>_ _. True) (CBS_get_optional_asn1_bool t b c) \<and>
    in_order c (\<lambda>_ d. d = c) (CBS_is_valid_asn1_bitstring c) \<and>
    in_order c (\<lambda>_ d. d = c) (CBS_asn1_bitstring_has_bit u c) \<and>
    fst (CBS_asn1_oid_to_text c s) \<notin> {Ub, NoFuel}"
proof -
  have "fst (CBS_asn1_oid_to_text c s) \<notin> {Ub, NoFuel}" using oid_to_text_calm [OF assms] by (simp add: calm_def)
  with readers_in_order(1) [OF assms, of n a p] readers_in_order(2) [OF assms, of t m b u] show ?thesis
    by (elim conjE) (intro conjI; assumption)
qed

theorem cbs_readers_in_bounds_witness:
  "fst (CBS_get_any_ber_asn1_element (CBS_init [0x30, 0x80, 0, 0] 4)) \<noteq> Ub"
  using cbs_readers_in_bounds [of "CBS_init [0x30, 0x80, 0, 0] 4"]
  by (simp add: in_order_def CBS_init_def cbs_ok_def)

section \<open>Object identifiers and sets\<close>

text \<open>
  C26. Object identifiers.  The dotted decimal text of an identifier whose first two components can be combined is
  turned into its DER contents, base-128 numbers of minimal length, and those contents are turned back into
  the same text with its terminating zero, for components up to 64 bits.
\<close>

theorem oid_text_round_trip:
  assumes "oid_ok a b" "cbs_ok c" "bytes_of c = oid_contents a b xs" "length (oid_text a b xs) < 2 ^ 64 - 1" "\<forall>n. cbb_alloc s n"
  shows "implements (\<lambda>fs. d < length fs) (CBB_add_asn1_oid_from_text d (oid_text a b xs)) (appended d (oid_contents a b xs)) \<and>
    (\<exists>t. CBS_asn1_oid_to_text c s = (Ok (oid_text a b xs @ [0]), t))"
  using from_text_implements [OF assms(1)] to_text_run [OF assms] by blast

theorem oid_text_round_trip_witness:
  "\<exists>t. CBS_asn1_oid_to_text (CBS_init [0x2a, 0x86, 0x48] 3) no_builder = (Ok [0x31, 0x2e, 0x32, 0x2e, 0x38, 0x34, 0x30, 0], t)"
proof -
  let ?c = "CBS_init [0x2a, 0x86, 0x48] 3"
  have "bytes_of ?c = oid_contents 1 2 [840]" "oid_text 1 2 [840] = [0x31, 0x2e, 0x32, 0x2e, 0x38, 0x34, 0x30]" "oid_ok 1 2"
    by code_simp+
  then show ?thesis
    using oid_text_round_trip [of 1 2 ?c "[840]" no_builder 0] by (simp add: cbs_ok_def CBS_init_def no_builder_def)
qed

text \<open>
  C27. SET OF.  When the contents of the \<open>CBB\<close> are DER elements, \<open>CBB_flush_asn1_set_of\<close> replaces them by the same
  elements in ascending lexicographic order of their bytes; when they are not, or when memory for the
  copy is refused, it returns false and leaves the builder as it was.
\<close>

theorem set_of_sorts:
  assumes "builds (fs @ [(k, cs)]) s" "length fs = d"
  shows "case CBB_flush_asn1_set_of d s of
      (Ok _, t) \<Rightarrow> (\<exists>xs ys. cs = concat (map der_element xs) \<and> (\<forall>x \<in> set xs. der_ok x) \<and>
        mset ys = mset (map der_element xs) \<and> sorted ys \<and> builds (fs @ [(k, concat ys)]) t \<and> keeps s t)
    | (Fail, t) \<Rightarrow> t = s \<and> ((\<nexists>xs. (\<forall>x \<in> set xs. der_ok x) \<and> cs = concat (map der_element xs)) \<or>
        (\<exists>xs. cs = concat (map der_element xs) \<and> (\<not> cbb_alloc s (length cs) \<or> \<not> cbb_alloc s (length xs * 16) \<or> 2 ^ 64 \<le> length xs * 16)))
    | _ \<Rightarrow> False"
  using assms
proof (cases rule: set_of_run)
  case (Sorted xs t)
  then show ?thesis by (auto simp: elements_def intro!: exI [of _ xs] exI [of _ "sort (elements xs)"])
next
  case Bad
  then show ?thesis by (simp add: elements_def)
next
  case (Memory xs)
  then show ?thesis by (auto simp: elements_def)
qed

theorem set_of_sorts_witness:
  "\<exists>t ys. CBB_flush_asn1_set_of 0 (no_builder\<lparr>cbb_base := Some \<lparr>b_buf = [2, 1, 5, 2, 1, 3], b_len = 6, b_can_resize = False, b_error = False\<rparr>\<rparr>) =
    (Ok (), t) \<and> sorted ys \<and> builds [(Fixed 0, concat ys)] t"
proof -
  let ?cs = "[2, 1, 5, 2, 1, 3] :: byte list"
  let ?s = "no_builder\<lparr>cbb_base := Some \<lparr>b_buf = ?cs, b_len = 6, b_can_resize = False, b_error = False\<rparr>\<rparr>"
  have b: "builds ([] @ [(Fixed 0, ?cs)]) ?s"
    by (simp add: builds_def holds_frames_def frames_ok_def b_cap_def no_builder_def)
  have "?cs = concat (map der_element [(2, [5]), (2, [3])])" by code_simp
  then have split: "\<exists>xs. (\<forall>x \<in> set xs. der_ok x) \<and> ?cs = concat (map der_element xs)"
    by (intro exI [of _ "[(2, [5]), (2, [3])]"]) (simp add: der_ok_def)
  have few: "length xs \<le> 6" if "?cs = concat (map der_element xs)" for xs
    using length_elements [of xs] arg_cong [OF that, of length] by (simp add: elements_def)
  obtain r t where run: "CBB_flush_asn1_set_of 0 ?s = (r, t)" by (cases "CBB_flush_asn1_set_of 0 ?s")
  have memory: "\<not> (\<exists>xs. ?cs = concat (map der_element xs) \<and> (\<not> cbb_alloc ?s (length ?cs) \<or> \<not> cbb_alloc ?s (length xs * 16) \<or> 2 ^ 64 \<le> length xs * 16))"
    using few by (force simp: no_builder_def)
  note sorts = set_of_sorts [OF b, of 0, unfolded run prod.case]
  show ?thesis
  proof (cases r)
    case (Ok u)
    then show ?thesis using sorts run by auto
  next
    case Fail
    then show ?thesis using sorts split memory by simp
  qed (use sorts in simp_all)
qed

end
