(* ===== verification/Refcount.thy ===== *)
theory Refcount
  imports Main
begin

text \<open>
  Reference counts (crypto/refcount_lock.c), of 32 bits: at the largest value they stay.  Each call is one
  critical section, so it is atomic.
\<close>

abbreviation (input) CRYPTO_REFCOUNT_MAX :: nat where "CRYPTO_REFCOUNT_MAX \<equiv> 0xffffffff"

definition CRYPTO_refcount_inc :: "nat \<Rightarrow> nat" where
  "CRYPTO_refcount_inc count = (if count < CRYPTO_REFCOUNT_MAX then count + 1 else count)"

text \<open>A count of zero aborts, which is no result; otherwise the result is whether zero is reached, and the count.\<close>

definition CRYPTO_refcount_dec_and_test_zero :: "nat \<Rightarrow> (bool \<times> nat) option" where
  "CRYPTO_refcount_dec_and_test_zero count =
     (if count = 0 then None
      else let count = (if count < CRYPTO_REFCOUNT_MAX then count - 1 else count) in Some (count = 0, count))"

lemma refcount_inc: "n \<le> CRYPTO_REFCOUNT_MAX \<Longrightarrow> CRYPTO_refcount_inc n = min (n + 1) CRYPTO_REFCOUNT_MAX"
  by (simp add: CRYPTO_refcount_inc_def)

lemma refcount_dec: "0 < n \<Longrightarrow> CRYPTO_refcount_dec_and_test_zero n =
    Some (n = 1, if n < CRYPTO_REFCOUNT_MAX then n - 1 else n)"
  by (auto simp: CRYPTO_refcount_dec_and_test_zero_def Let_def)

end
