(* ===== verification/Bio.thy ===== *)
theory Bio
  imports Prelude Refcount
begin

text \<open>
  BIO pairs (crypto/bio/pair.c) with the part of crypto/bio/bio.c that dispatches to them: two BIOs, each
  with a ring buffer that its owner writes and its peer reads.

  BIOs live in a store and are named by their index; a freed one is \<open>None\<close>.  The \<open>method\<close> of every BIO is
  the one of pairs, and chains of BIOs (\<open>next_bio\<close>) do not occur.  The error queue is not modelled.  A failed
  assertion and an access outside the ring buffer are undefined.  Allocation is a parameter of the store.
\<close>

section \<open>Data\<close>

record bio_bio_st =
  bb_peer :: "nat option"
  bb_closed :: bool
  bb_len :: nat
  bb_offset :: nat
  bb_size :: nat
  bb_buf :: "byte list option"
  bb_request :: nat

record BIO =
  bio_is_init :: bool
  bio_shutdown :: int
  bio_flags :: u32
  bio_retry_reason :: int
  bio_references :: nat
  bio_ptr :: "bio_bio_st option"
  bio_num_read :: nat
  bio_num_write :: nat

record bio_store =
  bios :: "BIO option list"
  bio_alloc :: "nat \<Rightarrow> bool"
  bio_fresh :: "nat \<Rightarrow> byte"

abbreviation (input) BIO_FLAGS_READ :: u32 where "BIO_FLAGS_READ \<equiv> 0x01"
abbreviation (input) BIO_FLAGS_WRITE :: u32 where "BIO_FLAGS_WRITE \<equiv> 0x02"
abbreviation (input) BIO_FLAGS_RWS :: u32 where "BIO_FLAGS_RWS \<equiv> 0x07"
abbreviation (input) BIO_FLAGS_SHOULD_RETRY :: u32 where "BIO_FLAGS_SHOULD_RETRY \<equiv> 0x08"
abbreviation (input) kRetryFlags :: u32 where "kRetryFlags \<equiv> 0x0f"

abbreviation (input) BIO_CTRL_EOF :: int where "BIO_CTRL_EOF \<equiv> 2"
abbreviation (input) BIO_CTRL_GET_CLOSE :: int where "BIO_CTRL_GET_CLOSE \<equiv> 8"
abbreviation (input) BIO_CTRL_SET_CLOSE :: int where "BIO_CTRL_SET_CLOSE \<equiv> 9"
abbreviation (input) BIO_CTRL_PENDING :: int where "BIO_CTRL_PENDING \<equiv> 10"
abbreviation (input) BIO_CTRL_FLUSH :: int where "BIO_CTRL_FLUSH \<equiv> 11"
abbreviation (input) BIO_CTRL_WPENDING :: int where "BIO_CTRL_WPENDING \<equiv> 13"
abbreviation (input) BIO_C_GET_WRITE_BUF_SIZE :: int where "BIO_C_GET_WRITE_BUF_SIZE \<equiv> 137"
abbreviation (input) BIO_C_GET_WRITE_GUARANTEE :: int where "BIO_C_GET_WRITE_GUARANTEE \<equiv> 140"
abbreviation (input) BIO_C_GET_READ_REQUEST :: int where "BIO_C_GET_READ_REQUEST \<equiv> 141"
abbreviation (input) BIO_C_SHUTDOWN_WR :: int where "BIO_C_SHUTDOWN_WR \<equiv> 142"
abbreviation (input) BIO_C_RESET_READ_REQUEST :: int where "BIO_C_RESET_READ_REQUEST \<equiv> 147"

abbreviation (input) INT_MAX :: nat where "INT_MAX \<equiv> 0x7fffffff"
abbreviation (input) bio_size :: nat where "bio_size \<equiv> 64"
abbreviation (input) bio_bio_size :: nat where "bio_bio_size \<equiv> 56"

text \<open>Sums of sizes are reduced to 64 bits.\<close>

abbreviation plus_size :: "nat \<Rightarrow> nat \<Rightarrow> nat" where "plus_size m n \<equiv> (m + n) mod 2 ^ 64"

section \<open>Access\<close>

definition with_bio :: "nat \<Rightarrow> (BIO \<Rightarrow> ('a, bio_store) act) \<Rightarrow> ('a, bio_store) act" where
  "with_bio i f = (\<lambda>s. if i < length (bios s) then (case bios s ! i of None \<Rightarrow> (Ub, s) | Some b \<Rightarrow> f b s) else (Ub, s))"

definition put_bio :: "nat \<Rightarrow> BIO \<Rightarrow> (unit, bio_store) act" where
  "put_bio i b = update (\<lambda>s. s\<lparr>bios := (bios s)[i := Some b]\<rparr>)"

definition with_ptr :: "nat \<Rightarrow> (bio_bio_st \<Rightarrow> ('a, bio_store) act) \<Rightarrow> ('a, bio_store) act" where
  "with_ptr i f = with_bio i (\<lambda>bio. case bio_ptr bio of None \<Rightarrow> undef | Some b \<Rightarrow> f b)"

definition put_ptr :: "nat \<Rightarrow> bio_bio_st \<Rightarrow> (unit, bio_store) act" where
  "put_ptr i b = with_bio i (\<lambda>bio. put_bio i (bio\<lparr>bio_ptr := Some b\<rparr>))"

definition set_init :: "nat \<Rightarrow> bool \<Rightarrow> (unit, bio_store) act" where
  "set_init i v = with_bio i (\<lambda>bio. put_bio i (bio\<lparr>bio_is_init := v\<rparr>))"

text \<open>A call whose failure is a null pointer or a false value that the caller tests.\<close>

definition attempt :: "('a, 's) act \<Rightarrow> ('a option, 's) act" where
  "attempt m = (\<lambda>s. case m s of
      (Ok x, s') \<Rightarrow> (Ok (Some x), s')
    | (Fail, s') \<Rightarrow> (Ok None, s')
    | (Ub, s') \<Rightarrow> (Ub, s')
    | (NoFuel, s') \<Rightarrow> (NoFuel, s'))"

section \<open>Flags\<close>

definition BIO_set_flags :: "nat \<Rightarrow> u32 \<Rightarrow> (unit, bio_store) act" where
  "BIO_set_flags i flags = with_bio i (\<lambda>bio. put_bio i (bio\<lparr>bio_flags := bio_flags bio OR flags\<rparr>))"

definition BIO_test_flags :: "nat \<Rightarrow> u32 \<Rightarrow> (u32, bio_store) act" where
  "BIO_test_flags i flags = with_bio i (\<lambda>bio. ret (bio_flags bio AND flags))"

definition BIO_should_read :: "nat \<Rightarrow> (u32, bio_store) act" where
  "BIO_should_read i = BIO_test_flags i BIO_FLAGS_READ"

definition BIO_should_write :: "nat \<Rightarrow> (u32, bio_store) act" where
  "BIO_should_write i = BIO_test_flags i BIO_FLAGS_WRITE"

definition BIO_should_retry :: "nat \<Rightarrow> (u32, bio_store) act" where
  "BIO_should_retry i = BIO_test_flags i BIO_FLAGS_SHOULD_RETRY"

definition BIO_clear_flags :: "nat \<Rightarrow> u32 \<Rightarrow> (unit, bio_store) act" where
  "BIO_clear_flags i flags = with_bio i (\<lambda>bio. put_bio i (bio\<lparr>bio_flags := bio_flags bio AND NOT flags\<rparr>))"

definition BIO_set_retry_read :: "nat \<Rightarrow> (unit, bio_store) act" where
  "BIO_set_retry_read i = with_bio i (\<lambda>bio. put_bio i (bio\<lparr>bio_flags := bio_flags bio OR (BIO_FLAGS_READ OR BIO_FLAGS_SHOULD_RETRY)\<rparr>))"

definition BIO_set_retry_write :: "nat \<Rightarrow> (unit, bio_store) act" where
  "BIO_set_retry_write i = with_bio i (\<lambda>bio. put_bio i (bio\<lparr>bio_flags := bio_flags bio OR (BIO_FLAGS_WRITE OR BIO_FLAGS_SHOULD_RETRY)\<rparr>))"

definition BIO_get_retry_flags :: "nat \<Rightarrow> (u32, bio_store) act" where
  "BIO_get_retry_flags i = with_bio i (\<lambda>bio. ret (bio_flags bio AND kRetryFlags))"

definition BIO_clear_retry_flags :: "nat \<Rightarrow> (unit, bio_store) act" where
  "BIO_clear_retry_flags i = with_bio i (\<lambda>bio.
     put_bio i (bio\<lparr>bio_flags := bio_flags bio AND NOT kRetryFlags, bio_retry_reason := 0\<rparr>))"

section \<open>The methods of a pair\<close>

definition bio_new :: "nat \<Rightarrow> (unit, bio_store) act" where
  "bio_new i = seq (query bio_alloc) (\<lambda>alloc.
     if \<not> alloc bio_bio_size then fail
     else put_ptr i \<lparr>bb_peer = None, bb_closed = False, bb_len = 0, bb_offset = 0, bb_size = 17 * 1024,
       bb_buf = None, bb_request = 0\<rparr>)"

definition bio_destroy_pair :: "nat \<Rightarrow> (unit, bio_store) act" where
  "bio_destroy_pair i = with_bio i (\<lambda>bio. case bio_ptr bio of
      None \<Rightarrow> ret ()
    | Some b \<Rightarrow> (case bb_peer b of
        None \<Rightarrow> ret ()
      | Some p \<Rightarrow> with_ptr p (\<lambda>peer_b.
          if bb_peer peer_b \<noteq> Some i \<or> bb_buf peer_b = None then undef
          else seq (put_ptr p (peer_b\<lparr>bb_peer := None, bb_len := 0, bb_offset := 0\<rparr>)) (\<lambda>_.
            seq (set_init p False) (\<lambda>_.
            seq (set_init i False) (\<lambda>_.
            if bb_buf b = None then undef
            else put_ptr i (b\<lparr>bb_peer := None, bb_len := 0, bb_offset := 0\<rparr>)))))))"

definition bio_free :: "nat \<Rightarrow> (unit, bio_store) act" where
  "bio_free i = with_ptr i (\<lambda>b. if bb_peer b \<noteq> None then bio_destroy_pair i else ret ())"

text \<open>
  One round of the reading loop copies up to the end of the ring.  Every round copies something, so the
  number of bytes to read is enough fuel.  The result is what arrived in the buffer of the caller.
\<close>

primrec read_loop :: "nat \<Rightarrow> nat \<Rightarrow> nat \<Rightarrow> (byte list, bio_store) act" where
  "read_loop 0 p rest = (\<lambda>s. (NoFuel, s))"
| "read_loop (Suc k) p rest = with_ptr p (\<lambda>peer_b.
     if rest > bb_len peer_b then undef
     else
       let chunk = (if plus_size (bb_offset peer_b) rest \<le> bb_size peer_b then rest else bb_size peer_b - bb_offset peer_b) in
       if plus_size (bb_offset peer_b) chunk > bb_size peer_b then undef
       else case bb_buf peer_b of
           None \<Rightarrow> undef
         | Some mem \<Rightarrow>
             if bb_offset peer_b + chunk > length mem then undef
             else
               let bytes = take chunk (drop (bb_offset peer_b) mem);
                   len = bb_len peer_b - chunk;
                   offset = plus_size (bb_offset peer_b) chunk in
               seq (if len \<noteq> 0 then
                      if offset > bb_size peer_b then undef
                      else put_ptr p (peer_b\<lparr>bb_len := len, bb_offset := if offset = bb_size peer_b then 0 else offset\<rparr>)
                    else if chunk \<noteq> rest then undef
                    else put_ptr p (peer_b\<lparr>bb_len := len, bb_offset := 0\<rparr>)) (\<lambda>_.
               if rest - chunk = 0 then ret bytes
               else seq (read_loop k p (rest - chunk)) (\<lambda>more. ret (bytes @ more))))"

definition bio_read :: "nat \<Rightarrow> bool \<Rightarrow> nat \<Rightarrow> (int \<times> byte list, bio_store) act" where
  "bio_read i buf num = seq (BIO_clear_retry_flags i) (\<lambda>_. with_bio i (\<lambda>bio.
     if \<not> bio_is_init bio then ret (0, [])
     else with_ptr i (\<lambda>b. case bb_peer b of
         None \<Rightarrow> undef
       | Some p \<Rightarrow> with_ptr p (\<lambda>peer_b.
           if bb_buf peer_b = None then undef
           else seq (put_ptr p (peer_b\<lparr>bb_request := 0\<rparr>)) (\<lambda>_.
             if \<not> buf \<or> num = 0 then ret (0, [])
             else if bb_len peer_b = 0 then
               if bb_closed peer_b then ret (0, [])
               else seq (BIO_set_retry_read i) (\<lambda>_.
                 seq (put_ptr p (peer_b\<lparr>bb_request := if num \<le> bb_size peer_b then num else bb_size peer_b\<rparr>)) (\<lambda>_.
                 ret (- 1, [])))
             else
               let num = (if bb_len peer_b < num then bb_len peer_b else num) in
               seq (read_loop num p num) (\<lambda>bytes. ret (int num, bytes)))))))"

primrec write_loop :: "nat \<Rightarrow> nat \<Rightarrow> byte list \<Rightarrow> (unit, bio_store) act" where
  "write_loop 0 i buf = (\<lambda>s. (NoFuel, s))"
| "write_loop (Suc k) i buf = with_ptr i (\<lambda>b.
     let rest = length buf in
     if plus_size (bb_len b) rest > bb_size b then undef
     else
       let write_offset = plus_size (bb_offset b) (bb_len b);
           write_offset = (if write_offset \<ge> bb_size b then write_offset - bb_size b else write_offset);
           chunk = (if plus_size write_offset rest \<le> bb_size b then rest else bb_size b - write_offset) in
       case bb_buf b of
           None \<Rightarrow> undef
         | Some mem \<Rightarrow>
             if write_offset + chunk > length mem \<or> bb_len b + chunk > bb_size b then undef
             else seq (put_ptr i (b\<lparr>bb_buf := Some (overlay mem write_offset (take chunk buf)), bb_len := bb_len b + chunk\<rparr>)) (\<lambda>_.
               if rest - chunk = 0 then ret () else write_loop k i (drop chunk buf)))"

text \<open>\<open>buf\<close> is the data of the caller, if its pointer is not null.\<close>

definition bio_write :: "nat \<Rightarrow> byte list option \<Rightarrow> nat \<Rightarrow> (int, bio_store) act" where
  "bio_write i buf num = seq (BIO_clear_retry_flags i) (\<lambda>_. with_bio i (\<lambda>bio.
     if \<not> bio_is_init bio \<or> buf = None \<or> num = 0 then ret 0
     else with_ptr i (\<lambda>b.
       if bb_peer b = None \<or> bb_buf b = None then undef
       else seq (put_ptr i (b\<lparr>bb_request := 0\<rparr>)) (\<lambda>_.
         if bb_closed b then ret (- 1)
         else if bb_len b > bb_size b then undef
         else if bb_len b = bb_size b then seq (BIO_set_retry_write i) (\<lambda>_. ret (- 1))
         else
           let num = (if num > bb_size b - bb_len b then bb_size b - bb_len b else num) in
           if num > length (the buf) then undef
           else seq (write_loop num i (take num (the buf))) (\<lambda>_. ret (int num))))))"

text \<open>A BIO that has no buffer yet gets one of the size asked for.\<close>

definition give_buffer :: "nat \<Rightarrow> nat \<Rightarrow> (unit, bio_store) act" where
  "give_buffer i writebuf_len = with_ptr i (\<lambda>b.
     if bb_buf b \<noteq> None then ret ()
     else
       let num = (if writebuf_len \<noteq> 0 then writebuf_len else bb_size b) in
       seq (put_ptr i (b\<lparr>bb_size := num\<rparr>)) (\<lambda>_. seq (query (\<lambda>s. (bio_alloc s, bio_fresh s))) (\<lambda>(alloc, fresh).
         if \<not> alloc num then fail
         else put_ptr i (b\<lparr>bb_size := num, bb_buf := Some (map fresh [0..<num]), bb_len := 0, bb_offset := 0\<rparr>))))"

definition join_peer :: "nat \<Rightarrow> nat \<Rightarrow> (unit, bio_store) act" where
  "join_peer i p = with_ptr i (\<lambda>b. put_ptr i (b\<lparr>bb_peer := Some p, bb_closed := False, bb_request := 0\<rparr>))"

definition bio_make_pair :: "nat \<Rightarrow> nat \<Rightarrow> nat \<Rightarrow> nat \<Rightarrow> (unit, bio_store) act" where
  "bio_make_pair bio1 bio2 writebuf1_len writebuf2_len = with_ptr bio1 (\<lambda>b1. with_ptr bio2 (\<lambda>b2.
     if bb_peer b1 \<noteq> None \<or> bb_peer b2 \<noteq> None then fail
     else seq (give_buffer bio1 writebuf1_len) (\<lambda>_. seq (give_buffer bio2 writebuf2_len) (\<lambda>_.
       seq (join_peer bio1 bio2) (\<lambda>_. seq (join_peer bio2 bio1) (\<lambda>_.
       seq (set_init bio1 True) (\<lambda>_. set_init bio2 True)))))))"

definition bio_ctrl :: "nat \<Rightarrow> int \<Rightarrow> int \<Rightarrow> nat option \<Rightarrow> (int, bio_store) act" where
  "bio_ctrl i cmd num ptr = with_ptr i (\<lambda>b.
     if cmd = BIO_C_GET_WRITE_BUF_SIZE then ret (int (bb_size b))
     else if cmd = BIO_C_GET_WRITE_GUARANTEE then
       ret (if bb_peer b = None \<or> bb_closed b then 0 else int (bb_size b) - int (bb_len b))
     else if cmd = BIO_C_GET_READ_REQUEST then ret (int (bb_request b))
     else if cmd = BIO_C_RESET_READ_REQUEST then seq (put_ptr i (b\<lparr>bb_request := 0\<rparr>)) (\<lambda>_. ret 1)
     else if cmd = BIO_C_SHUTDOWN_WR then seq (put_ptr i (b\<lparr>bb_closed := True\<rparr>)) (\<lambda>_. ret 1)
     else if cmd = BIO_CTRL_GET_CLOSE then with_bio i (\<lambda>bio. ret (bio_shutdown bio))
     else if cmd = BIO_CTRL_SET_CLOSE then
       with_bio i (\<lambda>bio. seq (put_bio i (bio\<lparr>bio_shutdown := signed_take_bit 31 num\<rparr>)) (\<lambda>_. ret 1))
     else if cmd = BIO_CTRL_PENDING then
       (case bb_peer b of None \<Rightarrow> ret 0 | Some p \<Rightarrow> with_ptr p (\<lambda>peer_b. ret (int (bb_len peer_b))))
     else if cmd = BIO_CTRL_WPENDING then ret (if bb_buf b \<noteq> None then int (bb_len b) else 0)
     else if cmd = BIO_CTRL_FLUSH then ret 1
     else if cmd = BIO_CTRL_EOF then
       (case ptr of
          None \<Rightarrow> ret 1
        | Some other \<Rightarrow> with_ptr other (\<lambda>other_b. ret (if bb_len other_b = 0 \<and> bb_closed other_b then 1 else 0)))
     else ret 0)"

section \<open>The general functions\<close>

definition free_bio :: "nat \<Rightarrow> (unit, bio_store) act" where
  "free_bio i = update (\<lambda>s. s\<lparr>bios := (bios s)[i := None]\<rparr>)"

text \<open>The result of \<open>BIO_new\<close> is the index of the new BIO.\<close>

definition BIO_new :: "(nat, bio_store) act" where
  "BIO_new = seq (query bio_alloc) (\<lambda>alloc.
     if \<not> alloc bio_size then fail
     else seq (query (\<lambda>s. length (bios s))) (\<lambda>i.
       seq (update (\<lambda>s. s\<lparr>bios := bios s @ [Some \<lparr>bio_is_init = False, bio_shutdown = 1, bio_flags = 0,
         bio_retry_reason = 0, bio_references = 1, bio_ptr = None, bio_num_read = 0, bio_num_write = 0\<rparr>]\<rparr>)) (\<lambda>_.
       seq (attempt (bio_new i)) (\<lambda>created. if created = None then seq (free_bio i) (\<lambda>_. fail) else ret i))))"

definition BIO_up_ref :: "nat \<Rightarrow> (unit, bio_store) act" where
  "BIO_up_ref i = with_bio i (\<lambda>bio. put_bio i (bio\<lparr>bio_references := CRYPTO_refcount_inc (bio_references bio)\<rparr>))"

definition BIO_free :: "nat \<Rightarrow> (unit, bio_store) act" where
  "BIO_free i = with_bio i (\<lambda>bio. case CRYPTO_refcount_dec_and_test_zero (bio_references bio) of
      None \<Rightarrow> undef
    | Some (zero, count) \<Rightarrow> seq (put_bio i (bio\<lparr>bio_references := count\<rparr>)) (\<lambda>_.
        if \<not> zero then fail else seq (bio_free i) (\<lambda>_. free_bio i)))"

definition BIO_read :: "nat \<Rightarrow> int \<Rightarrow> (int \<times> byte list, bio_store) act" where
  "BIO_read i len = with_bio i (\<lambda>bio.
     if \<not> bio_is_init bio then ret (- 2, [])
     else if len \<le> 0 then ret (0, [])
     else seq (bio_read i True (nat len)) (\<lambda>(r, bytes).
       seq (if r > 0 then with_bio i (\<lambda>bio. put_bio i (bio\<lparr>bio_num_read := plus_size (bio_num_read bio) (nat r)\<rparr>))
            else ret ()) (\<lambda>_. ret (r, bytes))))"

definition BIO_write :: "nat \<Rightarrow> byte list \<Rightarrow> int \<Rightarrow> (int, bio_store) act" where
  "BIO_write i data inl = with_bio i (\<lambda>bio.
     if \<not> bio_is_init bio then ret (- 2)
     else if inl \<le> 0 then ret 0
     else seq (bio_write i (Some data) (nat inl)) (\<lambda>r.
       seq (if r > 0 then with_bio i (\<lambda>bio. put_bio i (bio\<lparr>bio_num_write := plus_size (bio_num_write bio) (nat r)\<rparr>))
            else ret ()) (\<lambda>_. ret r)))"

text \<open>Pairs have no method for lines.\<close>

definition BIO_gets :: "nat \<Rightarrow> int \<Rightarrow> (int, bio_store) act" where
  "BIO_gets i len = ret (- 2)"

text \<open>Every round of \<open>BIO_write_all\<close> writes something.\<close>

fun write_all_loop :: "nat \<Rightarrow> nat \<Rightarrow> byte list \<Rightarrow> (unit, bio_store) act" where
  "write_all_loop k i data = (if data = [] then ret () else case k of
       0 \<Rightarrow> (\<lambda>s. (NoFuel, s))
     | Suc k \<Rightarrow> seq (BIO_write i data (int (if length data > INT_MAX then INT_MAX else length data))) (\<lambda>r.
         if r \<le> 0 then fail else write_all_loop k i (drop (nat r) data)))"

declare write_all_loop.simps [simp del]

definition BIO_write_all :: "nat \<Rightarrow> byte list \<Rightarrow> (unit, bio_store) act" where
  "BIO_write_all i data = write_all_loop (length data) i data"

definition BIO_ctrl :: "nat \<Rightarrow> int \<Rightarrow> int \<Rightarrow> nat option \<Rightarrow> (int, bio_store) act" where
  "BIO_ctrl i cmd larg parg = bio_ctrl i cmd larg parg"

definition BIO_flush :: "nat \<Rightarrow> (int, bio_store) act" where
  "BIO_flush i = BIO_ctrl i BIO_CTRL_FLUSH 0 None"

definition BIO_eof :: "nat \<Rightarrow> (int, bio_store) act" where
  "BIO_eof i = BIO_ctrl i BIO_CTRL_EOF 0 None"

definition BIO_pending :: "nat \<Rightarrow> (int, bio_store) act" where
  "BIO_pending i = seq (BIO_ctrl i BIO_CTRL_PENDING 0 None) (\<lambda>r. if r < 0 then undef else ret r)"

definition BIO_wpending :: "nat \<Rightarrow> (int, bio_store) act" where
  "BIO_wpending i = seq (BIO_ctrl i BIO_CTRL_WPENDING 0 None) (\<lambda>r. if r < 0 then undef else ret r)"

definition BIO_set_close :: "nat \<Rightarrow> int \<Rightarrow> (int, bio_store) act" where
  "BIO_set_close i close_flag = BIO_ctrl i BIO_CTRL_SET_CLOSE close_flag None"

definition BIO_ctrl_get_read_request :: "nat \<Rightarrow> (int, bio_store) act" where
  "BIO_ctrl_get_read_request i = BIO_ctrl i BIO_C_GET_READ_REQUEST 0 None"

definition BIO_ctrl_get_write_guarantee :: "nat \<Rightarrow> (int, bio_store) act" where
  "BIO_ctrl_get_write_guarantee i = BIO_ctrl i BIO_C_GET_WRITE_GUARANTEE 0 None"

definition BIO_shutdown_wr :: "nat \<Rightarrow> (int, bio_store) act" where
  "BIO_shutdown_wr i = BIO_ctrl i BIO_C_SHUTDOWN_WR 0 None"

text \<open>A failure frees whichever of the two was made; \<open>BIO_free\<close> of a null pointer does nothing.\<close>

definition free_made :: "nat option \<Rightarrow> (unit, bio_store) act" where
  "free_made bio = (case bio of None \<Rightarrow> ret () | Some i \<Rightarrow> seq (attempt (BIO_free i)) (\<lambda>_. ret ()))"

definition BIO_new_bio_pair :: "nat \<Rightarrow> nat \<Rightarrow> (nat \<times> nat, bio_store) act" where
  "BIO_new_bio_pair writebuf1_len writebuf2_len =
     seq (attempt BIO_new) (\<lambda>bio1. seq (attempt BIO_new) (\<lambda>bio2.
     seq (case (bio1, bio2) of
            (Some i, Some j) \<Rightarrow> seq (attempt (bio_make_pair i j writebuf1_len writebuf2_len)) (\<lambda>made. ret (made \<noteq> None))
          | _ \<Rightarrow> ret False) (\<lambda>made.
     if \<not> made then seq (free_made bio1) (\<lambda>_. seq (free_made bio2) (\<lambda>_. fail))
     else ret (the bio1, the bio2))))"

end
