(* ===== verification/Bio_Pair.thy ===== *)
theory Bio_Pair
  imports Bio
begin

text \<open>
  A BIO pair is two bounded queues of bytes, one per direction: the ring buffers of pair.c implement
  them, whatever calls are made on the two ends and in whatever order.
\<close>

section \<open>The store\<close>

definition entry :: "nat \<Rightarrow> bio_store \<Rightarrow> BIO option" where
  "entry i s = (if i < length (bios s) then bios s ! i else None)"

definition store :: "nat \<Rightarrow> BIO \<Rightarrow> bio_store \<Rightarrow> bio_store" where
  "store i bio s = s\<lparr>bios := (bios s)[i := Some bio]\<rparr>"

named_theorems store_simps \<open>access to the BIOs of a store\<close>

lemma entry_store [store_simps]: "entry i s \<noteq> None \<Longrightarrow> entry k (store i bio s) = (if k = i then Some bio else entry k s)"
  by (auto simp: entry_def store_def split: if_splits)

lemma store_store [store_simps]: "store i x (store i y s) = store i x s"
  by (simp add: store_def)

lemma store_past [store_simps]:
  "i \<noteq> j \<Longrightarrow> store i x (store j y (store i z s)) = store j y (store i x s)"
  by (simp add: store_def list_update_swap [of i j])

lemma store_other [store_simps]: "bio_alloc (store i x s) = bio_alloc s" "bio_fresh (store i x s) = bio_fresh s"
  by (simp_all add: store_def)

lemma with_bio_at [store_simps]: "entry i s = Some bio \<Longrightarrow> with_bio i f s = f bio s"
  by (simp add: with_bio_def entry_def split: if_splits)

lemma put_bio_at [store_simps]: "put_bio i bio s = (Ok (), store i bio s)"
  by (simp add: put_bio_def store_def act_run)

lemma with_ptr_at [store_simps]: "entry i s = Some bio \<Longrightarrow> bio_ptr bio = Some b \<Longrightarrow> with_ptr i f s = f b s"
  by (simp add: with_ptr_def with_bio_at)

lemma put_ptr_at [store_simps]: "entry i s = Some bio \<Longrightarrow> put_ptr i b s = (Ok (), store i (bio\<lparr>bio_ptr := Some b\<rparr>) s)"
  by (simp add: put_ptr_def with_bio_at put_bio_at)

lemma seq_put [store_simps]:
  "entry i s = Some bio \<Longrightarrow> seq (put_ptr i b) f s = f () (store i (bio\<lparr>bio_ptr := Some b\<rparr>) s)"
  "seq (put_bio i bio) f s = f () (store i bio s)"
  by (simp_all add: seq_def put_ptr_at put_bio_at)

section \<open>The ring\<close>

text \<open>What a ring buffer contains, from the oldest byte on.\<close>

definition ring :: "bio_bio_st \<Rightarrow> byte list" where
  "ring b = take (bb_len b) (drop (bb_offset b) (the (bb_buf b) @ the (bb_buf b)))"

definition ring_ok :: "bio_bio_st \<Rightarrow> bool" where
  "ring_ok b \<longleftrightarrow> (\<exists>mem. bb_buf b = Some mem \<and> length mem = bb_size b) \<and> 0 < bb_size b \<and> bb_size b < 2 ^ 63 \<and>
     bb_len b \<le> bb_size b \<and> bb_offset b < bb_size b"

lemma length_ring [simp]: "ring_ok b \<Longrightarrow> length (ring b) = bb_len b"
  by (auto simp: ring_ok_def ring_def)

lemma ring_okE:
  assumes "ring_ok b"
  obtains mem where "bb_buf b = Some mem" "length mem = bb_size b" "0 < bb_size b" "bb_size b < 2 ^ 63"
    "bb_len b \<le> bb_size b" "bb_offset b < bb_size b"
  using assms by (auto simp: ring_ok_def)

text \<open>What is taken from a ring: the bytes up to the end of the buffer, and the rest from its start.\<close>

definition ring_drop :: "nat \<Rightarrow> bio_bio_st \<Rightarrow> bio_bio_st" where
  "ring_drop n b = (let len = bb_len b - n; offset = (if len = 0 then 0 else if bb_offset b + n < bb_size b then bb_offset b + n
     else bb_offset b + n - bb_size b) in b\<lparr>bb_len := len, bb_offset := offset\<rparr>)"

lemma ring_drop_ok:
  assumes "ring_ok b" "n \<le> bb_len b"
  shows "ring_ok (ring_drop n b)" "ring (ring_drop n b) = drop n (ring b)"
proof -
  obtain mem where b: "bb_buf b = Some mem" "length mem = bb_size b" "0 < bb_size b" "bb_size b < 2 ^ 63"
    "bb_len b \<le> bb_size b" "bb_offset b < bb_size b"
    using assms(1) by (rule ring_okE)
  show "ring_ok (ring_drop n b)" using assms(2) b by (auto simp: ring_ok_def ring_drop_def Let_def)
  have wrap: "take k (drop (m - bb_size b) (mem @ mem)) = take k (drop m (mem @ mem))" if "bb_size b \<le> m" "m - bb_size b + k \<le> bb_size b" for m k
    using that b(2) by simp
  show "ring (ring_drop n b) = drop n (ring b)"
  proof (cases "bb_len b = n")
    case True
    then show ?thesis by (simp add: ring_def ring_drop_def)
  next
    case False
    then have "n < bb_len b" using assms(2) by simp
    then show ?thesis
      using wrap [of "bb_offset b + n" "bb_len b - n"] b
      by (simp add: ring_def ring_drop_def Let_def drop_take add.commute del: drop_append take_append)
  qed
qed

text \<open>What is written goes behind the newest byte, around the end of the buffer.\<close>

definition write_offset :: "bio_bio_st \<Rightarrow> nat" where
  "write_offset b = (if bb_offset b + bb_len b < bb_size b then bb_offset b + bb_len b else bb_offset b + bb_len b - bb_size b)"

definition ring_add :: "byte list \<Rightarrow> bio_bio_st \<Rightarrow> bio_bio_st" where
  "ring_add bs b = b\<lparr>bb_buf := Some (overlay (the (bb_buf b)) (write_offset b) bs), bb_len := bb_len b + length bs\<rparr>"

lemma ring_nth:
  assumes "ring_ok b" "k < bb_len b"
  shows "ring b ! k = the (bb_buf b) ! (if bb_offset b + k < bb_size b then bb_offset b + k else bb_offset b + k - bb_size b)"
  using assms by (auto simp: ring_ok_def ring_def nth_append simp del: take_append drop_append)

lemma overlay_nth:
  assumes "p + length bs \<le> length m" "i < length m"
  shows "overlay m p bs ! i = (if p \<le> i \<and> i < p + length bs then bs ! (i - p) else m ! i)"
  using assms by (auto simp: overlay_def nth_append)

lemma overlay_keeps_length: "p + length bs \<le> length m \<Longrightarrow> length (overlay m p bs) = length m"
  by (simp add: overlay_def)

lemma ring_add_ok:
  assumes "ring_ok b" "bb_len b + length bs \<le> bb_size b" "write_offset b + length bs \<le> bb_size b"
  shows "ring_ok (ring_add bs b)" "ring (ring_add bs b) = ring b @ bs"
proof -
  obtain mem where b: "bb_buf b = Some mem" "length mem = bb_size b" "0 < bb_size b" "bb_size b < 2 ^ 63"
    "bb_len b \<le> bb_size b" "bb_offset b < bb_size b"
    using assms(1) by (rule ring_okE)
  have mem': "length (overlay mem (write_offset b) bs) = bb_size b" using assms(3) b(2) by (simp add: overlay_keeps_length)
  show ok: "ring_ok (ring_add bs b)" using assms(2) b mem' by (simp add: ring_ok_def ring_add_def)
  show "ring (ring_add bs b) = ring b @ bs"
  proof (rule nth_equalityI)
    show "length (ring (ring_add bs b)) = length (ring b @ bs)" using ok assms(1) by (simp add: ring_add_def)
    fix k assume "k < length (ring (ring_add bs b))"
    then have k: "k < bb_len b + length bs" using ok by (simp add: ring_add_def)
    define i where "i = (if bb_offset b + k < bb_size b then bb_offset b + k else bb_offset b + k - bb_size b)"
    have i: "i < bb_size b" using k assms(2) b(6) by (auto simp: i_def)
    have "ring (ring_add bs b) ! k = overlay mem (write_offset b) bs ! i"
      using ring_nth [OF ok, of k] k b(1) by (simp add: ring_add_def i_def)
    also have "\<dots> = (if write_offset b \<le> i \<and> i < write_offset b + length bs then bs ! (i - write_offset b) else mem ! i)"
      using overlay_nth [of "write_offset b" bs mem i] assms(3) i b(2) by simp
    also have "\<dots> = (ring b @ bs) ! k"
    proof (cases "k < bb_len b")
      case True
      then have "\<not> (write_offset b \<le> i \<and> i < write_offset b + length bs)"
        using assms(2,3) b(5,6) by (auto simp: i_def write_offset_def split: if_splits)
      then show ?thesis
        unfolding if_not_P [OF \<open>\<not> (write_offset b \<le> i \<and> i < write_offset b + length bs)\<close>]
        using True ring_nth [OF assms(1) True, folded i_def] assms(1) b(1) by (simp add: nth_append)
    next
      case False
      then have "i = write_offset b + (k - bb_len b)"
        using assms(3) k b(5,6) by (auto simp: i_def write_offset_def split: if_splits)
      moreover from this have "write_offset b \<le> i \<and> i < write_offset b + length bs" using False k by linarith
      ultimately show ?thesis using False assms(1) by (simp add: nth_append)
    qed
    finally show "ring (ring_add bs b) ! k = (ring b @ bs) ! k" .
  qed
qed

section \<open>The loops\<close>

text \<open>One round of reading when the bytes do not go around the end.\<close>

declare read_loop.simps [simp del] write_loop.simps [simp del]

lemma plus_size_small: "m + n < 2 ^ 64 \<Longrightarrow> plus_size m n = m + n"
  by simp

lemma read_round:
  assumes "entry p s = Some bio" "bio_ptr bio = Some b" "ring_ok b" "0 < n" "n \<le> bb_len b"
    and chunk: "chunk = (if bb_offset b + n \<le> bb_size b then n else bb_size b - bb_offset b)"
  shows "read_loop (Suc k) p n s = (if n - chunk = 0 then ret (take chunk (ring b))
      else seq (read_loop k p (n - chunk)) (\<lambda>more. ret (take chunk (ring b) @ more))) (store p (bio\<lparr>bio_ptr := Some (ring_drop chunk b)\<rparr>) s)"
    "0 < chunk" "chunk \<le> n"
proof -
  obtain mem where b: "bb_buf b = Some mem" "length mem = bb_size b" "0 < bb_size b" "bb_size b < 2 ^ 63"
    "bb_len b \<le> bb_size b" "bb_offset b < bb_size b"
    using assms(3) by (rule ring_okE)
  have small: "plus_size (bb_offset b) n = bb_offset b + n" "plus_size (bb_offset b) chunk = bb_offset b + chunk"
    using b(4-6) assms(5) chunk by (simp_all add: plus_size_small)
  show c: "0 < chunk" "chunk \<le> n" using chunk assms(4) b(6) by (auto split: if_splits)
  have fits: "bb_offset b + chunk \<le> bb_size b" using chunk b(6) by (auto split: if_splits)
  have bytes: "take chunk (drop (bb_offset b) mem) = take chunk (ring b)"
    using fits c assms(5) b(1,2) by (simp add: ring_def min_absorb1)
  have last: "bb_len b - chunk = 0 \<Longrightarrow> chunk = n" using c(2) assms(5) by simp
  have drop: "(if bb_len b - chunk \<noteq> 0 then
        if bb_offset b + chunk > bb_size b then undef
        else put_ptr p (b\<lparr>bb_len := bb_len b - chunk, bb_offset := if bb_offset b + chunk = bb_size b then 0 else bb_offset b + chunk\<rparr>)
      else if chunk \<noteq> n then undef
      else put_ptr p (b\<lparr>bb_len := bb_len b - chunk, bb_offset := 0\<rparr>)) = put_ptr p (ring_drop chunk b)"
    using fits last by (auto simp: ring_drop_def Let_def)
  show "read_loop (Suc k) p n s = (if n - chunk = 0 then ret (take chunk (ring b))
      else seq (read_loop k p (n - chunk)) (\<lambda>more. ret (take chunk (ring b) @ more))) (store p (bio\<lparr>bio_ptr := Some (ring_drop chunk b)\<rparr>) s)"
    unfolding read_loop.simps with_ptr_at [OF assms(1,2)] Let_def small chunk [symmetric] b(1) option.case b(2) bytes drop
    using assms(5) fits by (simp add: seq_run(1) [where m = "put_ptr p (ring_drop chunk b)", OF put_ptr_at [OF assms(1)]])
qed

lemma read_loop_run:
  assumes "entry p s = Some bio" "bio_ptr bio = Some b" "ring_ok b" "0 < n" "n \<le> bb_len b"
  shows "read_loop n p n s = (Ok (take n (ring b)), store p (bio\<lparr>bio_ptr := Some (ring_drop n b)\<rparr>) s)"
proof -
  obtain k where k: "n = Suc k" using assms(4) by (cases n) auto
  define chunk where "chunk = (if bb_offset b + n \<le> bb_size b then n else bb_size b - bb_offset b)"
  note round = read_round [OF assms chunk_def]
  show ?thesis
  proof (cases "chunk = n")
    case True
    then show ?thesis using round(1) [of k] unfolding k [symmetric] by (simp add: act_run)
  next
    case False
    let ?b = "ring_drop chunk b"
    let ?s = "store p (bio\<lparr>bio_ptr := Some ?b\<rparr>) s"
    have c: "chunk < n" using False round(3) by simp
    have chunk: "chunk = bb_size b - bb_offset b" "bb_size b < bb_offset b + n" using False by (auto simp: chunk_def split: if_splits)
    have b: "bb_size b < 2 ^ 63" "bb_len b \<le> bb_size b" "bb_offset b < bb_size b" using assms(3) by (auto simp: ring_ok_def)
    have ok: "ring_ok ?b" "ring ?b = drop chunk (ring b)" using ring_drop_ok [OF assms(3)] c assms(5) by simp_all
    have rest: "entry p ?s = Some (bio\<lparr>bio_ptr := Some ?b\<rparr>)" "bio_ptr (bio\<lparr>bio_ptr := Some ?b\<rparr>) = Some ?b"
      using assms(1) by (simp_all add: store_simps)
    have le: "0 < n - chunk" "n - chunk \<le> bb_len ?b" using c assms(5) by (simp_all add: ring_drop_def Let_def)
    have start: "bb_offset ?b = 0" using chunk b(3) by (simp add: ring_drop_def Let_def)
    have same: "bb_size ?b = bb_size b" by (simp add: ring_drop_def Let_def)
    have "n - chunk \<le> bb_size b" using assms(5) b(2) by simp
    then have one: "n - chunk = (if bb_offset ?b + (n - chunk) \<le> bb_size ?b then n - chunk else bb_size ?b - bb_offset ?b)"
      unfolding start same by simp
    have "k \<noteq> 0" using c round(2) k by simp
    then obtain j where j: "k = Suc j" by (cases k) auto
    have second: "read_loop k p (n - chunk) ?s = (Ok (take (n - chunk) (ring ?b)), store p (bio\<lparr>bio_ptr := Some (ring_drop (n - chunk) ?b)\<rparr>) s)"
      using read_round(1) [OF rest ok(1) le one, of j] unfolding j by (simp add: act_run store_simps)
    have twice: "ring_drop (n - chunk) ?b = ring_drop n b"
      using c chunk b assms(5) by (auto simp: ring_drop_def Let_def)
    have "take chunk (ring b) @ take (n - chunk) (ring ?b) = take n (ring b)"
      using c by (simp add: ok(2) take_add [symmetric])
    moreover have "read_loop n p n s = seq (read_loop k p (n - chunk)) (\<lambda>more. ret (take chunk (ring b) @ more)) ?s"
      using round(1) [of k] c unfolding k [symmetric] by simp
    moreover have "seq (read_loop k p (n - chunk)) (\<lambda>more. ret (take chunk (ring b) @ more)) ?s =
        (Ok (take n (ring b)), store p (bio\<lparr>bio_ptr := Some (ring_drop n b)\<rparr>) s)"
      by (rule seq_step, rule second) (simp add: calculation(1) twice act_run)
    ultimately show ?thesis by simp
  qed
qed

text \<open>Writing, likewise.\<close>

lemma write_round:
  assumes "entry i s = Some bio" "bio_ptr bio = Some b" "ring_ok b" "bs \<noteq> []" "bb_len b + length bs \<le> bb_size b"
    and chunk: "chunk = (if write_offset b + length bs \<le> bb_size b then length bs else bb_size b - write_offset b)"
  shows "write_loop (Suc k) i bs s = (if length bs - chunk = 0 then ret () else write_loop k i (drop chunk bs))
      (store i (bio\<lparr>bio_ptr := Some (ring_add (take chunk bs) b)\<rparr>) s)"
    "0 < chunk" "chunk \<le> length bs" "write_offset b + chunk \<le> bb_size b"
proof -
  obtain mem where b: "bb_buf b = Some mem" "length mem = bb_size b" "0 < bb_size b" "bb_size b < 2 ^ 63"
    "bb_len b \<le> bb_size b" "bb_offset b < bb_size b"
    using assms(3) by (rule ring_okE)
  have w: "write_offset b < bb_size b" using b assms(4,5) by (cases bs) (auto simp: write_offset_def)
  show c: "0 < chunk" "chunk \<le> length bs" "write_offset b + chunk \<le> bb_size b" using chunk assms(4) w by (auto split: if_splits)
  have small: "plus_size (bb_len b) (length bs) = bb_len b + length bs" "plus_size (bb_offset b) (bb_len b) = bb_offset b + bb_len b"
    "plus_size (write_offset b) (length bs) = write_offset b + length bs"
    using b(4-6) assms(5) w by (simp_all add: plus_size_small)
  have offset: "(if bb_offset b + bb_len b \<ge> bb_size b then bb_offset b + bb_len b - bb_size b else bb_offset b + bb_len b) = write_offset b"
    by (simp add: write_offset_def)
  have add: "b\<lparr>bb_buf := Some (overlay mem (write_offset b) (take chunk bs)), bb_len := bb_len b + chunk\<rparr> = ring_add (take chunk bs) b"
    using c(2) b(1) by (simp add: ring_add_def)
  show "write_loop (Suc k) i bs s = (if length bs - chunk = 0 then ret () else write_loop k i (drop chunk bs))
      (store i (bio\<lparr>bio_ptr := Some (ring_add (take chunk bs) b)\<rparr>) s)"
    unfolding write_loop.simps with_ptr_at [OF assms(1,2)] Let_def small offset chunk [symmetric] b(1) option.case b(2) add
    using assms(5) c by (simp add: seq_run(1) [where m = "put_ptr i (ring_add (take chunk bs) b)", OF put_ptr_at [OF assms(1)]])
qed

lemma write_loop_run:
  assumes "entry i s = Some bio" "bio_ptr bio = Some b" "ring_ok b" "bs \<noteq> []" "bb_len b + length bs \<le> bb_size b"
  shows "\<exists>c. write_loop (length bs) i bs s = (Ok (), store i (bio\<lparr>bio_ptr := Some c\<rparr>) s) \<and> ring_ok c \<and> ring c = ring b @ bs \<and>
    bb_peer c = bb_peer b \<and> bb_closed c = bb_closed b \<and> bb_size c = bb_size b \<and> bb_request c = bb_request b"
proof -
  obtain k where k: "length bs = Suc k" using assms(4) by (cases bs) auto
  define chunk where "chunk = (if write_offset b + length bs \<le> bb_size b then length bs else bb_size b - write_offset b)"
  note round = write_round [OF assms chunk_def]
  let ?b = "ring_add (take chunk bs) b"
  have one: "ring_ok ?b" "ring ?b = ring b @ take chunk bs" using ring_add_ok [OF assms(3)] assms(5) round(3,4) by simp_all
  show ?thesis
  proof (cases "chunk = length bs")
    case True
    then show ?thesis using round(1) [of k] one unfolding k [symmetric] by (auto simp: act_run ring_add_def)
  next
    case False
    let ?s = "store i (bio\<lparr>bio_ptr := Some ?b\<rparr>) s" and ?cs = "drop chunk bs"
    have c: "chunk < length bs" using False round(3) by simp
    have chunk: "chunk = bb_size b - write_offset b" using False by (auto simp: chunk_def split: if_splits)
    have rest: "entry i ?s = Some (bio\<lparr>bio_ptr := Some ?b\<rparr>)" "bio_ptr (bio\<lparr>bio_ptr := Some ?b\<rparr>) = Some ?b"
      using assms(1) by (simp_all add: store_simps)
    have left: "?cs \<noteq> []" "bb_len ?b + length ?cs \<le> bb_size ?b" using c assms(5) by (simp_all add: ring_add_def)
    have ok: "bb_len b \<le> bb_size b" "bb_offset b < bb_size b" using assms(3) by (auto simp: ring_ok_def)
    have start: "write_offset ?b + length ?cs \<le> bb_size ?b"
      using chunk round(4) c ok assms(5) by (auto simp: ring_add_def write_offset_def split: if_splits)
    have all: "length ?cs = (if write_offset ?b + length ?cs \<le> bb_size ?b then length ?cs else bb_size ?b - write_offset ?b)"
      using start by simp
    have "k \<noteq> 0" using c round(2) k by simp
    then obtain j where j: "k = Suc j" by (cases k) auto
    have two: "ring_ok (ring_add ?cs ?b)" "ring (ring_add ?cs ?b) = ring b @ bs"
      using ring_add_ok [OF one(1) left(2) start] one(2) by simp_all
    have second: "write_loop k i ?cs ?s = (Ok (), store i (bio\<lparr>bio_ptr := Some (ring_add ?cs ?b)\<rparr>) s)"
      using write_round(1) [OF rest one(1) left all, of j] unfolding j by (simp add: act_run store_simps)
    have "write_loop (length bs) i bs s = write_loop k i ?cs ?s" using round(1) [of k] c unfolding k [symmetric] by simp
    then show ?thesis using second two by (auto simp: ring_add_def)
  qed
qed

section \<open>Channels\<close>

text \<open>The abstract view: each end owns a bounded queue that its peer reads.\<close>

record channel =
  ch_data :: "byte list"
  ch_cap :: nat
  ch_closed :: bool
  ch_request :: nat

definition end_holds :: "nat \<Rightarrow> BIO \<Rightarrow> channel \<Rightarrow> bool" where
  "end_holds p bio a \<longleftrightarrow> bio_is_init bio \<and> 0 < bio_references bio \<and> (\<exists>b. bio_ptr bio = Some b \<and> ring_ok b \<and> bb_peer b = Some p \<and>
     ring b = ch_data a \<and> bb_size b = ch_cap a \<and> bb_closed b = ch_closed a \<and> bb_request b = ch_request a)"

definition pair :: "nat \<Rightarrow> nat \<Rightarrow> channel \<Rightarrow> channel \<Rightarrow> bio_store \<Rightarrow> bool" where
  "pair i j a b s \<longleftrightarrow> i \<noteq> j \<and> (\<exists>x. entry i s = Some x \<and> end_holds j x a) \<and> (\<exists>y. entry j s = Some y \<and> end_holds i y b)"

lemma pair_swap: "pair i j a b s \<longleftrightarrow> pair j i b a s"
  by (auto simp: pair_def)

lemma pairE:
  assumes "pair i j a b s"
  obtains x y p q where "i \<noteq> j" "entry i s = Some x" "entry j s = Some y" "end_holds j x a" "end_holds i y b"
    "bio_ptr x = Some p" "bio_ptr y = Some q" "bio_is_init x" "bio_is_init y" "ring_ok p" "ring_ok q" "bb_peer p = Some j" "bb_peer q = Some i"
    "ring p = ch_data a" "ring q = ch_data b" "bb_len p = length (ch_data a)" "bb_len q = length (ch_data b)"
    "bb_size p = ch_cap a" "bb_size q = ch_cap b" "bb_closed p = ch_closed a" "bb_closed q = ch_closed b"
    "bb_request p = ch_request a" "bb_request q = ch_request b"
proof -
  obtain x y where xy: "i \<noteq> j" "entry i s = Some x" "entry j s = Some y" "end_holds j x a" "end_holds i y b"
    using assms by (auto simp: pair_def)
  then obtain p q where "bio_ptr x = Some p" "ring_ok p" "bb_peer p = Some j" "ring p = ch_data a" "bb_size p = ch_cap a"
    "bb_closed p = ch_closed a" "bb_request p = ch_request a" "bio_ptr y = Some q" "ring_ok q" "bb_peer q = Some i" "ring q = ch_data b"
    "bb_size q = ch_cap b" "bb_closed q = ch_closed b" "bb_request q = ch_request b" "bio_is_init x" "bio_is_init y"
    by (auto simp: end_holds_def)
  moreover from this have "bb_len p = length (ch_data a)" "bb_len q = length (ch_data b)" by (simp_all flip: length_ring)
  ultimately show thesis using xy by (intro that [of x y p q]) simp_all
qed

text \<open>What the calls do to the channels: the result, the bytes read, and the channel after it.\<close>

definition channel_read :: "int \<Rightarrow> channel \<Rightarrow> (int \<times> byte list) \<times> channel" where
  "channel_read n b =
     (if n \<le> 0 then ((0, []), b)
      else if ch_data b = [] then
        if ch_closed b then ((0, []), b\<lparr>ch_request := 0\<rparr>)
        else ((- 1, []), b\<lparr>ch_request := min (nat n) (ch_cap b)\<rparr>)
      else let m = min (nat n) (length (ch_data b))
           in ((int m, take m (ch_data b)), b\<lparr>ch_data := drop m (ch_data b), ch_request := 0\<rparr>))"

definition channel_write :: "byte list \<Rightarrow> int \<Rightarrow> channel \<Rightarrow> int \<times> channel" where
  "channel_write bs n a =
     (if n \<le> 0 then (0, a)
      else if ch_closed a \<or> length (ch_data a) = ch_cap a then (- 1, a\<lparr>ch_request := 0\<rparr>)
      else let m = min (nat n) (ch_cap a - length (ch_data a))
           in (int m, a\<lparr>ch_data := ch_data a @ take m bs, ch_request := 0\<rparr>))"

lemma end_holds_flags: "end_holds j (x\<lparr>bio_flags := f\<rparr>) a = end_holds j x a"
  "end_holds j (x\<lparr>bio_flags := f, bio_retry_reason := r\<rparr>) a = end_holds j x a"
  "end_holds j (x\<lparr>bio_num_read := n\<rparr>) a = end_holds j x a" "end_holds j (x\<lparr>bio_num_write := n\<rparr>) a = end_holds j x a"
  "end_holds j (x\<lparr>bio_shutdown := z\<rparr>) a = end_holds j x a"
  by (simp_all add: end_holds_def)

lemma end_holds_ptr:
  "end_holds j x a \<Longrightarrow> ring_ok b \<Longrightarrow> bb_peer b = Some j \<Longrightarrow> ring b = ch_data c \<Longrightarrow> bb_size b = ch_cap c \<Longrightarrow>
    bb_closed b = ch_closed c \<Longrightarrow> bb_request b = ch_request c \<Longrightarrow> end_holds j (x\<lparr>bio_ptr := Some b\<rparr>) c"
  by (simp add: end_holds_def)

definition clear_retry :: "BIO \<Rightarrow> BIO" where
  "clear_retry x = x\<lparr>bio_flags := bio_flags x AND NOT kRetryFlags, bio_retry_reason := 0\<rparr>"

definition mark_retry :: "u32 \<Rightarrow> BIO \<Rightarrow> BIO" where
  "mark_retry f x = x\<lparr>bio_flags := bio_flags x OR (f OR BIO_FLAGS_SHOULD_RETRY)\<rparr>"

lemma retry_fields [simp]:
  "bio_is_init (clear_retry x) = bio_is_init x" "bio_ptr (clear_retry x) = bio_ptr x" "end_holds j (clear_retry x) a = end_holds j x a"
  "bio_is_init (mark_retry f x) = bio_is_init x" "bio_ptr (mark_retry f x) = bio_ptr x" "end_holds j (mark_retry f x) a = end_holds j x a"
  by (simp_all add: clear_retry_def mark_retry_def end_holds_def)

lemma retry_run [store_simps]:
  assumes "entry i s = Some x"
  shows "BIO_clear_retry_flags i s = (Ok (), store i (clear_retry x) s)"
    "BIO_set_retry_read i s = (Ok (), store i (mark_retry BIO_FLAGS_READ x) s)"
    "BIO_set_retry_write i s = (Ok (), store i (mark_retry BIO_FLAGS_WRITE x) s)"
  using assms by (simp_all add: BIO_clear_retry_flags_def BIO_set_retry_read_def BIO_set_retry_write_def store_simps
      clear_retry_def mark_retry_def)

lemma seq_retry [store_simps]:
  assumes "entry i s = Some x"
  shows "seq (BIO_clear_retry_flags i) f s = f () (store i (clear_retry x) s)"
    "seq (BIO_set_retry_read i) f s = f () (store i (mark_retry BIO_FLAGS_READ x) s)"
    "seq (BIO_set_retry_write i) f s = f () (store i (mark_retry BIO_FLAGS_WRITE x) s)"
  using assms by (simp_all add: seq_def retry_run)

text \<open>Two entries of a store at once.\<close>

lemma pair_stored:
  assumes "i \<noteq> j" "entry i s \<noteq> None" "entry j s \<noteq> None" "end_holds j x a" "end_holds i y b"
  shows "pair i j a b (store j y (store i x s))"
  using assms by (auto simp: pair_def store_simps)

definition retry_flags :: "nat \<Rightarrow> bio_store \<Rightarrow> u32" where
  "retry_flags i s = (case entry i s of None \<Rightarrow> 0 | Some x \<Rightarrow> bio_flags x AND kRetryFlags)"

lemma retry_masks:
  "bio_flags (clear_retry x) AND kRetryFlags = 0"
  "bio_flags (mark_retry f (clear_retry x)) AND kRetryFlags = (f OR BIO_FLAGS_SHOULD_RETRY) AND kRetryFlags"
  by (simp_all add: clear_retry_def mark_retry_def bit_eq_iff bit_simps) (auto simp: bit_simps)

lemma bio_read_run:
  assumes "pair i j a b s" "0 < n"
  shows "\<exists>t. bio_read i True n s = (Ok (fst (channel_read (int n) b)), t) \<and> pair i j a (snd (channel_read (int n) b)) t \<and>
    retry_flags i t = (if fst (fst (channel_read (int n) b)) = - 1 then BIO_FLAGS_READ OR BIO_FLAGS_SHOULD_RETRY else 0)"
proof -
  obtain x y p q where e: "i \<noteq> j" "entry i s = Some x" "entry j s = Some y" "end_holds j x a" "end_holds i y b"
    "bio_ptr x = Some p" "bio_ptr y = Some q" "bio_is_init x" "bio_is_init y" "ring_ok p" "ring_ok q" "bb_peer p = Some j" "bb_peer q = Some i"
    "ring p = ch_data a" "ring q = ch_data b" "bb_len p = length (ch_data a)" "bb_len q = length (ch_data b)"
    "bb_size p = ch_cap a" "bb_size q = ch_cap b" "bb_closed p = ch_closed a" "bb_closed q = ch_closed b"
    "bb_request p = ch_request a" "bb_request q = ch_request b"
    using assms(1) by (rule pairE)
  let ?x = "clear_retry x" and ?q = "q\<lparr>bb_request := 0\<rparr>"
  let ?y = "y\<lparr>bio_ptr := Some ?q\<rparr>"
  let ?s = "store j ?y (store i ?x s)"
  obtain mem where mem: "bb_buf q = Some mem" using e(11) by (rule ring_okE)
  have ok: "ring_ok ?q" "ring ?q = ch_data b" "bb_len ?q = length (ch_data b)" using e(11,15,17) by (simp_all add: ring_ok_def ring_def)
  have start: "bio_read i True n s = (if ch_data b = [] then
      if ch_closed b then (Ok (0, []), ?s)
      else (Ok (- 1, []), store j (y\<lparr>bio_ptr := Some (q\<lparr>bb_request := if n \<le> ch_cap b then n else ch_cap b\<rparr>)\<rparr>)
        (store i (mark_retry BIO_FLAGS_READ ?x) s))
    else seq (read_loop (min n (length (ch_data b))) j (min n (length (ch_data b)))) (\<lambda>bytes. ret (int (min n (length (ch_data b))), bytes)) ?s)"
    using e mem assms(2)
    by (simp add: bio_read_def store_simps act_run min_def Let_def)
  have flags: "retry_flags i (store j z (store i w s)) = bio_flags w AND kRetryFlags" for z w
    using e(1-3) by (simp add: retry_flags_def store_simps)
  have hold: "pair i j a c (store j (y\<lparr>bio_ptr := Some r\<rparr>) (store i w s))"
    if "end_holds j w a" "ring_ok r" "ring r = ch_data c" "bb_peer r = Some i" "bb_size r = ch_cap c" "bb_closed r = ch_closed c"
      "bb_request r = ch_request c" for c r w
    using that e(1-3,5) by (intro pair_stored end_holds_ptr) simp_all
  show ?thesis
  proof (cases "ch_data b = []")
    case True
    have ring: "ring_ok (q\<lparr>bb_request := m\<rparr>)" "ring (q\<lparr>bb_request := m\<rparr>) = []" for m
      using e(11,15) True by (simp_all add: ring_ok_def ring_def)
    show ?thesis
      using start True ring e assms(2)
      by (auto simp: channel_read_def min_def flags retry_masks intro!: hold)
  next
    case False
    let ?m = "min n (length (ch_data b))"
    have m: "0 < ?m" "?m \<le> bb_len ?q" using False assms(2) ok(3) by simp_all
    have at: "entry j ?s = Some ?y" "bio_ptr ?y = Some ?q" using e(2,3) by (simp_all add: store_simps)
    have drop: "ring_ok (ring_drop ?m ?q)" "ring (ring_drop ?m ?q) = drop ?m (ch_data b)" using ring_drop_ok [OF ok(1) m(2)] ok(2) by simp_all
    have "bio_read i True n s = (Ok (int ?m, take ?m (ch_data b)), store j (?y\<lparr>bio_ptr := Some (ring_drop ?m ?q)\<rparr>) ?s)"
      unfolding start using False by (simp only: if_False) (rule seq_step, rule read_loop_run [OF at ok(1) m], simp add: ok(2) act_run)
    moreover have "store j (?y\<lparr>bio_ptr := Some (ring_drop ?m ?q)\<rparr>) ?s = store j (y\<lparr>bio_ptr := Some (ring_drop ?m ?q)\<rparr>) (store i ?x s)"
      by (simp add: store_simps)
    moreover have "pair i j a (b\<lparr>ch_data := drop ?m (ch_data b), ch_request := 0\<rparr>) (store j (y\<lparr>bio_ptr := Some (ring_drop ?m ?q)\<rparr>) (store i ?x s))"
      using e drop by (intro hold) (simp_all add: ring_drop_def Let_def)
    ultimately show ?thesis using False assms(2) by (simp add: channel_read_def Let_def flags retry_masks)
  qed
qed

lemma bio_write_run:
  assumes "pair i j a b s" "0 < n" "n \<le> length bs"
  shows "\<exists>t. bio_write i (Some bs) n s = (Ok (fst (channel_write bs (int n) a)), t) \<and> pair i j (snd (channel_write bs (int n) a)) b t \<and>
    retry_flags i t = (if fst (channel_write bs (int n) a) = - 1 \<and> \<not> ch_closed a then BIO_FLAGS_WRITE OR BIO_FLAGS_SHOULD_RETRY else 0)"
proof -
  obtain x y p q where e: "i \<noteq> j" "entry i s = Some x" "entry j s = Some y" "end_holds j x a" "end_holds i y b"
    "bio_ptr x = Some p" "bio_ptr y = Some q" "bio_is_init x" "bio_is_init y" "ring_ok p" "ring_ok q" "bb_peer p = Some j" "bb_peer q = Some i"
    "ring p = ch_data a" "ring q = ch_data b" "bb_len p = length (ch_data a)" "bb_len q = length (ch_data b)"
    "bb_size p = ch_cap a" "bb_size q = ch_cap b" "bb_closed p = ch_closed a" "bb_closed q = ch_closed b"
    "bb_request p = ch_request a" "bb_request q = ch_request b"
    using assms(1) by (rule pairE)
  let ?p = "p\<lparr>bb_request := 0\<rparr>" and ?m = "min n (ch_cap a - length (ch_data a))"
  let ?x = "(clear_retry x)\<lparr>bio_ptr := Some ?p\<rparr>"
  let ?s = "store i ?x s"
  obtain mem where mem: "bb_buf p = Some mem" "bb_len p \<le> bb_size p" using e(10) by (rule ring_okE)
  have ok: "ring_ok ?p" "ring ?p = ch_data a" "bb_len ?p = length (ch_data a)" using e(10,14,16) by (simp_all add: ring_ok_def ring_def)
  have le: "length (ch_data a) \<le> ch_cap a" using mem(2) e(16,18) by simp
  have start: "bio_write i (Some bs) n s = (if ch_closed a then (Ok (- 1), ?s)
      else if length (ch_data a) = ch_cap a then (Ok (- 1), store i (mark_retry BIO_FLAGS_WRITE ?x) s)
      else seq (write_loop ?m i (take ?m bs)) (\<lambda>_. ret (int ?m)) ?s)"
    using e mem assms(2,3) le by (simp add: bio_write_def store_simps act_run min_def Let_def)
  have flags: "retry_flags i (store i w s) = bio_flags w AND kRetryFlags" for w
    using e(2) by (simp add: retry_flags_def store_simps)
  have hold: "pair i j c b (store i w s)" if "end_holds j w c" for c w
    using that e(1-3,5) by (auto simp: pair_def store_simps)
  have holds_p: "end_holds j (w\<lparr>bio_ptr := Some r\<rparr>) c" if "end_holds j w a" "ring_ok r" "ring r = ch_data c" "bb_peer r = Some j"
      "bb_size r = ch_cap c" "bb_closed r = ch_closed c" "bb_request r = ch_request c" for c r w
    by (rule end_holds_ptr [OF that(1,2,4,3,5-7)])
  have idle: "end_holds j ?x (a\<lparr>ch_request := 0\<rparr>)" using e ok by (intro holds_p) simp_all
  show ?thesis
  proof (cases "ch_closed a \<or> length (ch_data a) = ch_cap a")
    case True
    have same: "bio_flags (mark_retry BIO_FLAGS_WRITE ?x) = bio_flags (mark_retry BIO_FLAGS_WRITE (clear_retry x))"
      by (simp add: mark_retry_def)
    have f: "bio_flags ?x AND kRetryFlags = 0" "bio_flags (mark_retry BIO_FLAGS_WRITE ?x) AND kRetryFlags = BIO_FLAGS_WRITE OR BIO_FLAGS_SHOULD_RETRY"
      unfolding same retry_masks by (simp_all add: retry_masks)
    have res: "channel_write bs (int n) a = (- 1, a\<lparr>ch_request := 0\<rparr>)" using True assms(2) by (simp add: channel_write_def)
    show ?thesis
    proof (cases "ch_closed a")
      case True
      then have "bio_write i (Some bs) n s = (Ok (- 1), ?s)" by (simp add: start)
      then show ?thesis using hold [OF idle] f(1) True by (simp add: res flags)
    next
      case False
      then have "bio_write i (Some bs) n s = (Ok (- 1), store i (mark_retry BIO_FLAGS_WRITE ?x) s)"
        using True by (simp add: start)
      moreover have "pair i j (a\<lparr>ch_request := 0\<rparr>) b (store i (mark_retry BIO_FLAGS_WRITE ?x) s)" using idle by (intro hold) simp
      ultimately show ?thesis using f(2) False by (simp add: res flags)
    qed
  next
    case False
    have m: "take ?m bs \<noteq> []" "bb_len ?p + length (take ?m bs) \<le> bb_size ?p" "length (take ?m bs) = ?m"
      using False le assms(2,3) e(16,18) by auto
    have at: "entry i ?s = Some ?x" "bio_ptr ?x = Some ?p" using e(2) by (simp_all add: store_simps)
    obtain c where c: "write_loop (length (take ?m bs)) i (take ?m bs) ?s = (Ok (), store i (?x\<lparr>bio_ptr := Some c\<rparr>) ?s)" "ring_ok c"
      "ring c = ch_data a @ take ?m bs" "bb_peer c = Some j" "bb_closed c = ch_closed a" "bb_size c = ch_cap a" "bb_request c = 0"
      using write_loop_run [OF at ok(1) m(1,2)] e ok(2) by auto
    have "bio_write i (Some bs) n s = (Ok (int ?m), store i (?x\<lparr>bio_ptr := Some c\<rparr>) ?s)"
      unfolding start using False by (simp only: if_False de_Morgan_disj) (rule seq_step, rule c(1) [unfolded m(3)], simp add: act_run)
    moreover have "store i (?x\<lparr>bio_ptr := Some c\<rparr>) ?s = store i ((clear_retry x)\<lparr>bio_ptr := Some c\<rparr>) s" by (simp add: store_simps)
    moreover have "pair i j (a\<lparr>ch_data := ch_data a @ take ?m bs, ch_request := 0\<rparr>) b (store i ((clear_retry x)\<lparr>bio_ptr := Some c\<rparr>) s)"
      using e(4) c by (intro hold holds_p) simp_all
    ultimately show ?thesis using False assms(2) retry_masks(1) [of x] by (simp add: channel_write_def Let_def flags)
  qed
qed

section \<open>The calls\<close>

lemma num_read_pair:
  assumes "pair i j a b s"
  shows "\<exists>t. with_bio i (\<lambda>bio. put_bio i (bio\<lparr>bio_num_read := f bio\<rparr>)) s = (Ok (), t) \<and> pair i j a b t \<and> retry_flags i t = retry_flags i s"
    "\<exists>t. with_bio i (\<lambda>bio. put_bio i (bio\<lparr>bio_num_write := f bio\<rparr>)) s = (Ok (), t) \<and> pair i j a b t \<and> retry_flags i t = retry_flags i s"
    "\<exists>t. with_bio i (\<lambda>bio. put_bio i (bio\<lparr>bio_shutdown := z\<rparr>)) s = (Ok (), t) \<and> pair i j a b t \<and> retry_flags i t = retry_flags i s"
  using assms by (auto simp: pair_def store_simps end_holds_flags retry_flags_def)

lemma read_empty: "n \<le> 0 \<Longrightarrow> channel_read n b = ((0, []), b)"
  by (simp add: channel_read_def)

lemma BIO_read_run:
  assumes "pair i j a b s"
  shows "\<exists>t. BIO_read i n s = (Ok (fst (channel_read n b)), t) \<and> pair i j a (snd (channel_read n b)) t \<and>
    (0 < n \<longrightarrow> retry_flags i t = (if fst (fst (channel_read n b)) = - 1 then BIO_FLAGS_READ OR BIO_FLAGS_SHOULD_RETRY else 0))"
proof -
  obtain x where x: "entry i s = Some x" "bio_is_init x" using assms by (auto simp: pair_def end_holds_def)
  show ?thesis
  proof (cases "n \<le> 0")
    case True
    then show ?thesis using x assms by (simp add: BIO_read_def with_bio_at read_empty act_run)
  next
    case False
    then have n: "0 < nat n" "int (nat n) = n" by simp_all
    obtain t where t: "bio_read i True (nat n) s = (Ok (fst (channel_read n b)), t)" "pair i j a (snd (channel_read n b)) t"
      "retry_flags i t = (if fst (fst (channel_read n b)) = - 1 then BIO_FLAGS_READ OR BIO_FLAGS_SHOULD_RETRY else 0)"
      using bio_read_run [OF assms n(1)] unfolding n(2) by blast
    obtain r bytes where res: "fst (channel_read n b) = (r, bytes)" by (cases "fst (channel_read n b)")
    let ?count = "with_bio i (\<lambda>bio. put_bio i (bio\<lparr>bio_num_read := plus_size (bio_num_read bio) (nat r)\<rparr>))"
    obtain u where u: "?count t = (Ok (), u)"
      "pair i j a (snd (channel_read n b)) u" "retry_flags i u = retry_flags i t"
      using num_read_pair(1) [OF t(2), where f = "\<lambda>bio. plus_size (bio_num_read bio) (nat r)"] by blast
    have counted: "seq (if r > 0 then ?count else ret ()) (\<lambda>_. ret (r, bytes)) t = (Ok (r, bytes), if r > 0 then u else t)"
    proof (cases "r > 0")
      case True
      show ?thesis unfolding if_P [OF True] by (rule seq_step, rule u(1)) (rule act_run)
    qed (simp add: seq_basic act_run)
    have "BIO_read i n s = seq (bio_read i True (nat n)) (\<lambda>(r, bytes).
       seq (if r > 0 then with_bio i (\<lambda>bio. put_bio i (bio\<lparr>bio_num_read := plus_size (bio_num_read bio) (nat r)\<rparr>))
            else ret ()) (\<lambda>_. ret (r, bytes))) s"
      using x False by (simp add: BIO_read_def with_bio_at)
    also have "\<dots> = (Ok (r, bytes), if r > 0 then u else t)"
      by (rule seq_step, rule t(1)) (simp only: res prod.case counted)
    finally show ?thesis using t u res by auto
  qed
qed

lemma BIO_write_run:
  assumes "pair i j a b s" "n \<le> int (length bs)"
  shows "\<exists>t. BIO_write i bs n s = (Ok (fst (channel_write bs n a)), t) \<and> pair i j (snd (channel_write bs n a)) b t \<and>
    (0 < n \<longrightarrow> retry_flags i t = (if fst (channel_write bs n a) = - 1 \<and> \<not> ch_closed a then BIO_FLAGS_WRITE OR BIO_FLAGS_SHOULD_RETRY else 0))"
proof -
  obtain x where x: "entry i s = Some x" "bio_is_init x" using assms(1) by (auto simp: pair_def end_holds_def)
  show ?thesis
  proof (cases "n \<le> 0")
    case True
    then show ?thesis using x assms(1) by (simp add: BIO_write_def with_bio_at channel_write_def act_run)
  next
    case False
    then have n: "0 < nat n" "int (nat n) = n" "nat n \<le> length bs" using assms(2) by simp_all
    obtain t where t: "bio_write i (Some bs) (nat n) s = (Ok (fst (channel_write bs n a)), t)" "pair i j (snd (channel_write bs n a)) b t"
      "retry_flags i t = (if fst (channel_write bs n a) = - 1 \<and> \<not> ch_closed a then BIO_FLAGS_WRITE OR BIO_FLAGS_SHOULD_RETRY else 0)"
      using bio_write_run [OF assms(1) n(1,3)] unfolding n(2) by blast
    let ?r = "fst (channel_write bs n a)"
    let ?count = "with_bio i (\<lambda>bio. put_bio i (bio\<lparr>bio_num_write := plus_size (bio_num_write bio) (nat ?r)\<rparr>))"
    obtain u where u: "?count t = (Ok (), u)"
      "pair i j (snd (channel_write bs n a)) b u" "retry_flags i u = retry_flags i t"
      using num_read_pair(2) [OF t(2), where f = "\<lambda>bio. plus_size (bio_num_write bio) (nat ?r)"] by blast
    have counted: "seq (if ?r > 0 then ?count else ret ()) (\<lambda>_. ret ?r) t = (Ok ?r, if ?r > 0 then u else t)"
    proof (cases "?r > 0")
      case True
      show ?thesis unfolding if_P [OF True] by (rule seq_step, rule u(1)) (rule act_run)
    qed (simp add: seq_basic act_run)
    have "BIO_write i bs n s = seq (bio_write i (Some bs) (nat n)) (\<lambda>r.
       seq (if r > 0 then with_bio i (\<lambda>bio. put_bio i (bio\<lparr>bio_num_write := plus_size (bio_num_write bio) (nat r)\<rparr>))
            else ret ()) (\<lambda>_. ret r)) s"
      using x False by (simp add: BIO_write_def with_bio_at)
    also have "\<dots> = (Ok ?r, if ?r > 0 then u else t)"
      by (rule seq_step, rule t(1)) (rule counted)
    finally show ?thesis using t u by auto
  qed
qed

text \<open>Control calls that do not name another BIO.  The close flag does not belong to the channels.\<close>

definition channel_ctrl :: "int \<Rightarrow> channel \<Rightarrow> channel \<Rightarrow> int \<times> channel" where
  "channel_ctrl cmd a b =
     (if cmd = BIO_C_GET_WRITE_BUF_SIZE then (int (ch_cap a), a)
      else if cmd = BIO_C_GET_WRITE_GUARANTEE then (if ch_closed a then 0 else int (ch_cap a - length (ch_data a)), a)
      else if cmd = BIO_C_GET_READ_REQUEST then (int (ch_request a), a)
      else if cmd = BIO_C_RESET_READ_REQUEST then (1, a\<lparr>ch_request := 0\<rparr>)
      else if cmd = BIO_C_SHUTDOWN_WR then (1, a\<lparr>ch_closed := True\<rparr>)
      else if cmd = BIO_CTRL_SET_CLOSE then (1, a)
      else if cmd = BIO_CTRL_PENDING then (int (length (ch_data b)), a)
      else if cmd = BIO_CTRL_WPENDING then (int (length (ch_data a)), a)
      else if cmd = BIO_CTRL_FLUSH then (1, a)
      else if cmd = BIO_CTRL_EOF then (1, a)
      else (0, a))"

lemma BIO_ctrl_run:
  assumes "pair i j a b s"
  shows "\<exists>r t. BIO_ctrl i cmd num None s = (Ok r, t) \<and> pair i j (snd (channel_ctrl cmd a b)) b t \<and>
    (cmd \<noteq> BIO_CTRL_GET_CLOSE \<longrightarrow> r = fst (channel_ctrl cmd a b))"
proof -
  obtain x y p q where e: "i \<noteq> j" "entry i s = Some x" "entry j s = Some y" "end_holds j x a" "end_holds i y b"
    "bio_ptr x = Some p" "bio_ptr y = Some q" "bio_is_init x" "bio_is_init y" "ring_ok p" "ring_ok q" "bb_peer p = Some j" "bb_peer q = Some i"
    "ring p = ch_data a" "ring q = ch_data b" "bb_len p = length (ch_data a)" "bb_len q = length (ch_data b)"
    "bb_size p = ch_cap a" "bb_size q = ch_cap b" "bb_closed p = ch_closed a" "bb_closed q = ch_closed b"
    "bb_request p = ch_request a" "bb_request q = ch_request b"
    using assms by (rule pairE)
  obtain mem where mem: "bb_buf p = Some mem" "bb_len p \<le> bb_size p" using e(10) by (rule ring_okE)
  have room: "length (ch_data a) \<le> ch_cap a" using mem(2) e(16,18) by simp
  have hold: "pair i j c b (store i w s)" if "end_holds j w c" for c w
    using that e(1-3,5) by (auto simp: pair_def store_simps)
  have same: "ring_ok (p\<lparr>bb_request := m\<rparr>)" "ring (p\<lparr>bb_request := m\<rparr>) = ring p"
    "ring_ok (p\<lparr>bb_closed := z\<rparr>)" "ring (p\<lparr>bb_closed := z\<rparr>) = ring p" for m z
    using e(10) by (simp_all add: ring_ok_def ring_def)
  have ends: "end_holds j (x\<lparr>bio_ptr := Some (p\<lparr>bb_request := 0\<rparr>)\<rparr>) (a\<lparr>ch_request := 0\<rparr>)"
    "end_holds j (x\<lparr>bio_ptr := Some (p\<lparr>bb_closed := True\<rparr>)\<rparr>) (a\<lparr>ch_closed := True\<rparr>)"
    "\<And>num. end_holds j (x\<lparr>bio_shutdown := num\<rparr>) a"
    using e same by (auto intro!: end_holds_ptr simp: end_holds_flags)
  note run = BIO_ctrl_def bio_ctrl_def with_ptr_at [OF e(2,6)]
  consider "cmd = BIO_C_RESET_READ_REQUEST" | "cmd = BIO_C_SHUTDOWN_WR" | "cmd = BIO_CTRL_SET_CLOSE" | "cmd = BIO_CTRL_PENDING"
    | "cmd = BIO_C_GET_WRITE_BUF_SIZE" | "cmd = BIO_C_GET_WRITE_GUARANTEE" | "cmd = BIO_C_GET_READ_REQUEST" | "cmd = BIO_CTRL_GET_CLOSE"
    | "cmd = BIO_CTRL_WPENDING" | "cmd = BIO_CTRL_FLUSH" | "cmd = BIO_CTRL_EOF"
    | (other) "cmd \<noteq> BIO_C_RESET_READ_REQUEST" "cmd \<noteq> BIO_C_SHUTDOWN_WR" "cmd \<noteq> BIO_CTRL_SET_CLOSE" "cmd \<noteq> BIO_CTRL_PENDING"
      "cmd \<noteq> BIO_C_GET_WRITE_BUF_SIZE" "cmd \<noteq> BIO_C_GET_WRITE_GUARANTEE" "cmd \<noteq> BIO_C_GET_READ_REQUEST" "cmd \<noteq> BIO_CTRL_GET_CLOSE"
      "cmd \<noteq> BIO_CTRL_WPENDING" "cmd \<noteq> BIO_CTRL_FLUSH" "cmd \<noteq> BIO_CTRL_EOF" by blast
  then show ?thesis
  proof cases
    case 1
    then show ?thesis using hold [OF ends(1)] by (simp add: run channel_ctrl_def seq_put(1) [OF e(2)] act_run)
  next
    case 2
    then show ?thesis using hold [OF ends(2)] by (simp add: run channel_ctrl_def seq_put(1) [OF e(2)] act_run)
  next
    case 3
    then show ?thesis using hold [OF ends(3)] by (simp add: run channel_ctrl_def with_bio_at [OF e(2)] seq_put(2) act_run)
  next
    case 4
    then show ?thesis using assms by (simp add: run channel_ctrl_def e(12,17) with_ptr_at [OF e(3,7)] act_run)
  next
    case 6
    then show ?thesis using assms room by (simp add: run channel_ctrl_def e(12,16,18,20) act_run of_nat_diff)
  next
    case other
    then have "BIO_ctrl i cmd num None s = (Ok 0, s)" "channel_ctrl cmd a b = (0, a)"
      by (simp_all only: run channel_ctrl_def if_False act_run)
    then show ?thesis using assms by simp
  qed (use assms in \<open>simp_all add: run channel_ctrl_def e(16,18,22) mem(1) with_bio_at [OF e(2)] act_run\<close>)
qed

lemma BIO_up_ref_run: "pair i j a b s \<Longrightarrow> \<exists>t. BIO_up_ref i s = (Ok (), t) \<and> pair i j a b t"
  by (auto simp: pair_def BIO_up_ref_def store_simps end_holds_def CRYPTO_refcount_inc_def)

section \<open>Creating and freeing\<close>

definition fresh_channel :: "nat \<Rightarrow> channel" where
  "fresh_channel n = \<lparr>ch_data = [], ch_cap = (if n \<noteq> 0 then n else 17 * 1024), ch_closed = False, ch_request = 0\<rparr>"

definition blank_ptr :: bio_bio_st where
  "blank_ptr = \<lparr>bb_peer = None, bb_closed = False, bb_len = 0, bb_offset = 0, bb_size = 17 * 1024, bb_buf = None, bb_request = 0\<rparr>"

definition new_end :: "BIO \<Rightarrow> bool" where
  "new_end x \<longleftrightarrow> bio_references x = 1 \<and> bio_ptr x = Some blank_ptr"

lemma BIO_new_run:
  obtains (Ok) x where "BIO_new s = (Ok (length (bios s)), s\<lparr>bios := bios s @ [Some x]\<rparr>)" "new_end x"
  | (Fail) t where "BIO_new s = (Fail, t)" "\<not> bio_alloc s bio_size \<or> \<not> bio_alloc s bio_bio_size" "bio_alloc t = bio_alloc s"
      "take (length (bios s)) (bios t) = bios s"
proof (cases "bio_alloc s bio_size")
  case False
  then show ?thesis by (intro that(2) [of s]) (simp_all add: BIO_new_def seq_basic act_run)
next
  case True
  let ?i = "length (bios s)"
  let ?x = "\<lparr>bio_is_init = False, bio_shutdown = 1, bio_flags = 0, bio_retry_reason = 0, bio_references = 1, bio_ptr = None,
    bio_num_read = 0, bio_num_write = 0\<rparr>"
  let ?s = "s\<lparr>bios := bios s @ [Some ?x]\<rparr>"
  have at: "entry ?i ?s = Some ?x" by (simp add: entry_def)
  show ?thesis
  proof (cases "bio_alloc s bio_bio_size")
    case False
    then show ?thesis using True
      by (intro that(2) [of "?s\<lparr>bios := (bios ?s)[?i := None]\<rparr>"])
        (simp_all add: BIO_new_def bio_new_def attempt_def seq_def act_run free_bio_def update_def query_def)
  next
    case alloc: True
    have "bio_new ?i ?s = (Ok (), store ?i (?x\<lparr>bio_ptr := Some blank_ptr\<rparr>) ?s)"
      using alloc by (simp add: bio_new_def seq_basic put_ptr_at [OF at, unfolded One_nat_def] blank_ptr_def)
    then have "BIO_new s = (Ok ?i, store ?i (?x\<lparr>bio_ptr := Some blank_ptr\<rparr>) ?s)"
      using True by (simp add: BIO_new_def attempt_def seq_basic act_run seq_def)
    then show ?thesis by (intro that(1) [of "?x\<lparr>bio_ptr := Some blank_ptr\<rparr>"]) (simp_all add: store_def new_end_def)
  qed
qed

definition with_buffer :: "nat \<Rightarrow> bio_store \<Rightarrow> bio_bio_st \<Rightarrow> bio_bio_st" where
  "with_buffer n s b = (let m = (if n \<noteq> 0 then n else bb_size b) in b\<lparr>bb_size := m, bb_buf := Some (map (bio_fresh s) [0..<m]), bb_len := 0, bb_offset := 0\<rparr>)"

lemma give_buffer_run:
  assumes "entry i s = Some x" "new_end x"
  shows "give_buffer i n s = (if bio_alloc s (ch_cap (fresh_channel n))
      then (Ok (), store i (x\<lparr>bio_ptr := Some (with_buffer n s blank_ptr)\<rparr>) s)
      else (Fail, store i (x\<lparr>bio_ptr := Some (blank_ptr\<lparr>bb_size := ch_cap (fresh_channel n)\<rparr>)\<rparr>) s))"
  using assms
  by (simp add: new_end_def give_buffer_def Let_def store_simps seq_basic act_run blank_ptr_def fresh_channel_def with_buffer_def)

lemma bio_make_pair_run:
  assumes "i \<noteq> j" "entry i s = Some x" "entry j s = Some y" "new_end x" "new_end y" "\<forall>n. bio_alloc s n \<longrightarrow> n < 2 ^ 63"
  obtains (Ok) t where "bio_make_pair i j m n s = (Ok (), t)" "pair i j (fresh_channel m) (fresh_channel n) t" "bio_alloc t = bio_alloc s"
  | (Fail) t where "bio_make_pair i j m n s = (Fail, t)" "\<not> bio_alloc s (ch_cap (fresh_channel m)) \<or> \<not> bio_alloc s (ch_cap (fresh_channel n))"
proof -
  have ptr: "bio_ptr x = Some blank_ptr" "bio_ptr y = Some blank_ptr" using assms(4,5) by (simp_all add: new_end_def)
  let ?x = "x\<lparr>bio_ptr := Some (with_buffer m s blank_ptr)\<rparr>"
  let ?s = "store i ?x s"
  have y: "entry j ?s = Some y" using assms(1-3) by (simp add: store_simps)
  have start: "bio_make_pair i j m n s = seq (give_buffer i m) (\<lambda>_. seq (give_buffer j n) (\<lambda>_.
       seq (join_peer i j) (\<lambda>_. seq (join_peer j i) (\<lambda>_. seq (set_init i True) (\<lambda>_. set_init j True))))) s"
    by (simp add: bio_make_pair_def with_ptr_at [OF assms(2) ptr(1)] with_ptr_at [OF assms(3) ptr(2)] blank_ptr_def)
  show thesis
  proof (cases "bio_alloc s (ch_cap (fresh_channel m)) \<and> bio_alloc s (ch_cap (fresh_channel n))")
    case True
    have small: "ch_cap (fresh_channel m) < 2 ^ 63" "ch_cap (fresh_channel n) < 2 ^ 63" using assms(6) True by blast+
    have one: "give_buffer i m s = (Ok (), ?s)" using give_buffer_run [OF assms(2,4), of m] True by simp
    have two: "give_buffer j n ?s = (Ok (), store j (y\<lparr>bio_ptr := Some (with_buffer n ?s blank_ptr)\<rparr>) ?s)"
      using give_buffer_run [OF y assms(5), of n] True by (simp add: store_simps)
    have "bio_make_pair i j m n s = seq (join_peer i j) (\<lambda>_. seq (join_peer j i) (\<lambda>_. seq (set_init i True) (\<lambda>_. set_init j True)))
        (store j (y\<lparr>bio_ptr := Some (with_buffer n ?s blank_ptr)\<rparr>) ?s)"
      unfolding start by (rule seq_step, rule one, rule seq_step, rule two, rule refl)
    also have "\<dots> = (Ok (), store j (y\<lparr>bio_ptr := Some ((with_buffer n ?s blank_ptr)\<lparr>bb_peer := Some i\<rparr>), bio_is_init := True\<rparr>)
        (store i (x\<lparr>bio_ptr := Some ((with_buffer m s blank_ptr)\<lparr>bb_peer := Some j\<rparr>), bio_is_init := True\<rparr>) s))"
      using assms(1-3)
      by (simp add: join_peer_def set_init_def store_simps seq_def with_buffer_def blank_ptr_def Let_def)
    finally have run: "bio_make_pair i j m n s = \<dots>" .
    have ends: "end_holds p (z\<lparr>bio_ptr := Some ((with_buffer k u blank_ptr)\<lparr>bb_peer := Some p\<rparr>), bio_is_init := True\<rparr>) (fresh_channel k)"
      if "new_end z" "ch_cap (fresh_channel k) < 2 ^ 63" for p z k u
      using that by (auto simp: end_holds_def new_end_def with_buffer_def blank_ptr_def fresh_channel_def Let_def ring_ok_def ring_def)
    show ?thesis
      by (rule that(1), rule run)
        (use assms(1-5) ends small in \<open>auto intro!: pair_stored simp: store_simps\<close>)
  next
    case False
    show ?thesis
    proof (cases "bio_alloc s (ch_cap (fresh_channel m))")
      case True
      then have "\<not> bio_alloc ?s (ch_cap (fresh_channel n))" using False by (simp add: store_simps)
      then show ?thesis
        using that(2) False give_buffer_run [OF assms(2,4), of m] give_buffer_run [OF y assms(5), of n] True
        by (simp add: start seq_def)
    next
      case False
      then show ?thesis using that(2) give_buffer_run [OF assms(2,4), of m] by (simp add: start seq_def)
    qed
  qed
qed

lemma attempt_run:
  "m s = (Ok x, t) \<Longrightarrow> attempt m s = (Ok (Some x), t)" "m s = (Fail, t) \<Longrightarrow> attempt m s = (Ok None, t)"
  by (simp_all add: attempt_def)

lemma new_pair_run:
  assumes "\<forall>n. bio_alloc s n \<longrightarrow> n < 2 ^ 63" "bio_alloc s bio_size" "bio_alloc s bio_bio_size"
    "bio_alloc s (ch_cap (fresh_channel m))" "bio_alloc s (ch_cap (fresh_channel n))"
  shows "\<exists>i j t. BIO_new_bio_pair m n s = (Ok (i, j), t) \<and> pair i j (fresh_channel m) (fresh_channel n) t"
proof -
  let ?i = "length (bios s)" and ?j = "Suc (length (bios s))"
  obtain x where x: "BIO_new s = (Ok ?i, s\<lparr>bios := bios s @ [Some x]\<rparr>)" "new_end x"
    by (cases s rule: BIO_new_run) (use assms in auto)
  let ?s = "s\<lparr>bios := bios s @ [Some x]\<rparr>"
  obtain y where y: "BIO_new ?s = (Ok ?j, ?s\<lparr>bios := bios ?s @ [Some y]\<rparr>)" "new_end y"
    by (cases ?s rule: BIO_new_run) (use assms in auto)
  let ?t = "?s\<lparr>bios := bios ?s @ [Some y]\<rparr>"
  have e: "entry ?i ?t = Some x" "entry ?j ?t = Some y" by (simp_all add: entry_def nth_append)
  have ne: "?i \<noteq> ?j" by simp
  have alloc: "\<forall>n. bio_alloc ?t n \<longrightarrow> n < 2 ^ 63" using assms(1) by simp
  show ?thesis
    using ne e x(2) y(2) alloc
  proof (cases rule: bio_make_pair_run [where m = m and n = n])
    case (Ok t)
    have made: "attempt (bio_make_pair ?i ?j m n) (s\<lparr>bios := bios s @ [Some x, Some y]\<rparr>) = (Ok (Some ()), t)"
      using attempt_run(1) [where m = "bio_make_pair ?i ?j m n", OF Ok(1)] by simp
    have "BIO_new_bio_pair m n s = (Ok (?i, ?j), t)"
      unfolding BIO_new_bio_pair_def
      by (rule seq_step, rule attempt_run(1), rule x(1), rule seq_step, rule attempt_run(1), rule y(1))
        (simp add: seq_def made act_run)
    then show ?thesis using Ok(2) by blast
  next
    case (Fail t)
    then show ?thesis using assms(4,5) by simp
  qed
qed

text \<open>When one end goes away, the other stays usable: its calls report that it is not connected.\<close>

lemma BIO_free_run:
  assumes "pair i j a b s" "entry i s = Some x" "bio_references x = 1"
  shows "\<exists>t y. BIO_free i s = (Ok (), t) \<and> entry i t = None \<and> entry j t = Some y \<and> \<not> bio_is_init y \<and>
    (\<exists>q. bio_ptr y = Some q \<and> bb_peer q = None \<and> bb_len q = 0)"
proof -
  obtain x' y p q where e: "i \<noteq> j" "entry i s = Some x'" "entry j s = Some y" "bio_ptr x' = Some p" "bio_ptr y = Some q"
    "ring_ok p" "ring_ok q" "bb_peer p = Some j" "bb_peer q = Some i"
    using assms(1) by (rule pairE)
  have x: "x' = x" using e(2) assms(2) by simp
  obtain pm qm where mem: "bb_buf p = Some pm" "bb_buf q = Some qm" using e(6,7) by (auto simp: ring_ok_def)
  let ?x = "x\<lparr>bio_references := 0\<rparr>"
  let ?s = "store i ?x s"
  have at: "entry i ?s = Some ?x" "bio_ptr ?x = Some p" "entry j ?s = Some y" using e x by (simp_all add: store_simps)
  let ?q = "q\<lparr>bb_peer := None, bb_len := 0, bb_offset := 0\<rparr>" and ?p = "p\<lparr>bb_peer := None, bb_len := 0, bb_offset := 0\<rparr>"
  have "bio_destroy_pair i ?s = (Ok (), store i (?x\<lparr>bio_is_init := False, bio_ptr := Some ?p\<rparr>)
      (store j (y\<lparr>bio_ptr := Some ?q, bio_is_init := False\<rparr>) ?s))"
    using e mem at x by (simp add: bio_destroy_pair_def set_init_def store_simps seq_def)
  then have "bio_free i ?s = (Ok (), store i (?x\<lparr>bio_is_init := False, bio_ptr := Some ?p\<rparr>)
      (store j (y\<lparr>bio_ptr := Some ?q, bio_is_init := False\<rparr>) ?s))"
    using e(8) by (simp add: bio_free_def with_ptr_at [OF at(1,2)])
  moreover define t where "t = store i (?x\<lparr>bio_is_init := False, bio_ptr := Some ?p\<rparr>)
      (store j (y\<lparr>bio_ptr := Some ?q, bio_is_init := False\<rparr>) ?s)"
  ultimately have "BIO_free i s = (Ok (), t\<lparr>bios := (bios t)[i := None]\<rparr>)"
    using assms(2,3) by (simp add: BIO_free_def CRYPTO_refcount_dec_and_test_zero_def store_simps seq_def free_bio_def act_run)
  moreover have "entry i (t\<lparr>bios := (bios t)[i := None]\<rparr>) = None" by (simp add: entry_def)
  moreover have "entry j t = Some (y\<lparr>bio_ptr := Some ?q, bio_is_init := False\<rparr>)"
    using e(1,3) assms(2) at by (simp add: t_def store_simps)
  then have "entry j (t\<lparr>bios := (bios t)[i := None]\<rparr>) = Some (y\<lparr>bio_ptr := Some ?q, bio_is_init := False\<rparr>)"
    using e(1) by (simp add: entry_def split: if_splits)
  ultimately show ?thesis by auto
qed

lemma closed_end_calls:
  assumes "entry j t = Some y" "\<not> bio_is_init y"
  shows "BIO_read j n t = (Ok (- 2, []), t)" "BIO_write j bs n t = (Ok (- 2), t)"
  using assms by (simp_all add: BIO_read_def BIO_write_def with_bio_at act_run)

section \<open>Sequences of calls\<close>

text \<open>One call on either end, and what it moved.\<close>

datatype event = Wrote nat "byte list" | Got nat "byte list" | Shut nat | Other nat

inductive call :: "nat \<Rightarrow> nat \<Rightarrow> bio_store \<Rightarrow> event \<Rightarrow> bio_store \<Rightarrow> bool" for i j where
  Write: "k \<in> {i, j} \<Longrightarrow> n \<le> int (length bs) \<Longrightarrow> BIO_write k bs n s = (Ok r, t) \<Longrightarrow> call i j s (Wrote k (take (nat r) bs)) t"
| Read: "k \<in> {i, j} \<Longrightarrow> BIO_read k n s = (Ok (r, bs), t) \<Longrightarrow> call i j s (Got k bs) t"
| Ctrl: "k \<in> {i, j} \<Longrightarrow> BIO_ctrl k cmd n None s = (Ok r, t) \<Longrightarrow> call i j s (if cmd = BIO_C_SHUTDOWN_WR then Shut k else Other k) t"
| Up_ref: "k \<in> {i, j} \<Longrightarrow> BIO_up_ref k s = (Ok (), t) \<Longrightarrow> call i j s (Other k) t"

inductive calls :: "nat \<Rightarrow> nat \<Rightarrow> bio_store \<Rightarrow> event list \<Rightarrow> bio_store \<Rightarrow> bool" for i j s where
  None: "calls i j s [] s"
| One: "calls i j s es t \<Longrightarrow> call i j t e u \<Longrightarrow> calls i j s (es @ [e]) u"

fun wrote :: "nat \<Rightarrow> event list \<Rightarrow> byte list" where
  "wrote k [] = []"
| "wrote k (Wrote m bs # es) = (if m = k then bs else []) @ wrote k es"
| "wrote k (_ # es) = wrote k es"

fun got :: "nat \<Rightarrow> event list \<Rightarrow> byte list" where
  "got k [] = []"
| "got k (Got m bs # es) = (if m = k then bs else []) @ got k es"
| "got k (_ # es) = got k es"

lemma wrote_append [simp]: "wrote k (es @ fs) = wrote k es @ wrote k fs"
  by (induction k es rule: wrote.induct) simp_all

lemma got_append [simp]: "got k (es @ fs) = got k es @ got k fs"
  by (induction k es rule: got.induct) simp_all

lemma write_moves:
  assumes "pair i j a b s" "n \<le> int (length bs)" "BIO_write i bs n s = (Ok r, t)"
  shows "\<exists>c. pair i j c b t \<and> ch_data c = ch_data a @ take (nat r) bs \<and> ch_cap c = ch_cap a \<and> ch_closed c = ch_closed a \<and>
    (ch_closed a \<longrightarrow> take (nat r) bs = [])"
  using BIO_write_run [OF assms(1,2)] assms(3)
  by (intro exI [of _ "snd (channel_write bs n a)"]) (auto simp: channel_write_def Let_def)

lemma read_moves:
  assumes "pair i j a b s" "BIO_read i n s = (Ok (r, bs), t)"
  shows "\<exists>c. pair i j a c t \<and> ch_data b = bs @ ch_data c \<and> ch_cap c = ch_cap b \<and> ch_closed c = ch_closed b"
  using BIO_read_run [OF assms(1), of n] assms(2)
  by (intro exI [of _ "snd (channel_read n b)"]) (auto simp: channel_read_def Let_def split: if_splits)

lemma ctrl_moves:
  assumes "pair i j a b s" "BIO_ctrl i cmd n None s = (Ok r, t)"
  shows "\<exists>c. pair i j c b t \<and> ch_data c = ch_data a \<and> ch_cap c = ch_cap a \<and>
    ch_closed c = (ch_closed a \<or> cmd = BIO_C_SHUTDOWN_WR)"
  using BIO_ctrl_run [OF assms(1), of cmd n] assms(2)
  by (intro exI [of _ "snd (channel_ctrl cmd a b)"]) (auto simp: channel_ctrl_def)

text \<open>What has gone into a direction and what has come out of it, in terms of the calls so far.\<close>

definition conveys :: "nat \<Rightarrow> nat \<Rightarrow> event list \<Rightarrow> channel \<Rightarrow> channel \<Rightarrow> bool" where
  "conveys i j es a c \<longleftrightarrow> ch_data a @ wrote i es = got j es @ ch_data c \<and> ch_cap c = ch_cap a \<and>
     (ch_closed c \<longleftrightarrow> ch_closed a \<or> Shut i \<in> set es) \<and> (ch_closed a \<longrightarrow> wrote i es = [])"

lemma conveys_append:
  assumes "conveys i j es a b" "conveys i j fs b c"
  shows "conveys i j (es @ fs) a c"
proof -
  have "(ch_data a @ wrote i es) @ wrote i fs = got j es @ got j fs @ ch_data c"
    using assms by (simp add: conveys_def)
  then show ?thesis using assms by (auto simp: conveys_def)
qed

lemma own_call:
  assumes "pair i j a b s"
  shows "n \<le> int (length bs) \<Longrightarrow> BIO_write i bs n s = (Ok r, t) \<Longrightarrow>
      \<exists>c d. pair i j c d t \<and> conveys i j [Wrote i (take (nat r) bs)] a c \<and> conveys j i [Wrote i (take (nat r) bs)] b d"
    "BIO_read i n s = (Ok (r, bs), t) \<Longrightarrow> \<exists>c d. pair i j c d t \<and> conveys i j [Got i bs] a c \<and> conveys j i [Got i bs] b d"
    "BIO_ctrl i cmd n None s = (Ok r, t) \<Longrightarrow> e = (if cmd = BIO_C_SHUTDOWN_WR then Shut i else Other i) \<Longrightarrow>
      \<exists>c d. pair i j c d t \<and> conveys i j [e] a c \<and> conveys j i [e] b d"
    "BIO_up_ref i s = (Ok (), t) \<Longrightarrow> \<exists>c d. pair i j c d t \<and> conveys i j [Other i] a c \<and> conveys j i [Other i] b d"
proof -
  have ne: "i \<noteq> j" "j \<noteq> i" using assms by (auto simp: pair_def)
  show "\<exists>c d. pair i j c d t \<and> conveys i j [Wrote i (take (nat r) bs)] a c \<and> conveys j i [Wrote i (take (nat r) bs)] b d"
    if "n \<le> int (length bs)" "BIO_write i bs n s = (Ok r, t)"
    using write_moves [OF assms that] ne by (fastforce simp: conveys_def)
  show "\<exists>c d. pair i j c d t \<and> conveys i j [Got i bs] a c \<and> conveys j i [Got i bs] b d" if "BIO_read i n s = (Ok (r, bs), t)"
    using read_moves [OF assms that] ne by (fastforce simp: conveys_def)
  show "\<exists>c d. pair i j c d t \<and> conveys i j [e] a c \<and> conveys j i [e] b d"
    if "BIO_ctrl i cmd n None s = (Ok r, t)" "e = (if cmd = BIO_C_SHUTDOWN_WR then Shut i else Other i)"
    using ctrl_moves [OF assms that(1)] ne that(2) by (fastforce simp: conveys_def)
  show "\<exists>c d. pair i j c d t \<and> conveys i j [Other i] a c \<and> conveys j i [Other i] b d" if "BIO_up_ref i s = (Ok (), t)"
    using BIO_up_ref_run [OF assms] ne that by (fastforce simp: conveys_def)
qed

lemma call_conveys:
  assumes "call i j s e t" "pair i j a b s"
  shows "\<exists>c d. pair i j c d t \<and> conveys i j [e] a c \<and> conveys j i [e] b d"
proof -
  have swap: "pair j i b a s" using assms(2) by (simp add: pair_swap)
  have flip: "\<exists>c d. pair i j c d t \<and> conveys i j [e] a c \<and> conveys j i [e] b d"
    if "\<exists>d c. pair j i d c t \<and> conveys j i [e] b d \<and> conveys i j [e] a c"
    using that by (metis pair_swap)
  show ?thesis
    using assms(1)
  proof cases
    case (Write k n bs r)
    then show ?thesis using own_call(1) [OF assms(2)] own_call(1) [OF swap] flip by blast
  next
    case (Read k n r bs)
    then show ?thesis using own_call(2) [OF assms(2)] own_call(2) [OF swap] flip by blast
  next
    case (Ctrl k cmd n r)
    then show ?thesis using own_call(3) [OF assms(2), where e = e] own_call(3) [OF swap, where e = e] flip by blast
  next
    case (Up_ref k)
    then show ?thesis using own_call(4) [OF assms(2)] own_call(4) [OF swap] flip by blast
  qed
qed

lemma calls_convey:
  assumes "calls i j s es t" "pair i j a b s"
  shows "\<exists>c d. pair i j c d t \<and> conveys i j es a c \<and> conveys j i es b d"
  using assms
proof (induction rule: calls.induct)
  case None
  then show ?case by (auto simp: conveys_def)
next
  case (One es t e u)
  obtain c d where c: "pair i j c d t" "conveys i j es a c" "conveys j i es b d" using One.IH One.prems by blast
  obtain c' d' where d: "pair i j c' d' u" "conveys i j [e] c c'" "conveys j i [e] d d'"
    using call_conveys [OF One.hyps(2) c(1)] by blast
  show ?case using d(1) conveys_append [OF c(2) d(2)] conveys_append [OF c(3) d(3)] by blast
qed

lemma calls_split:
  assumes "calls i j s es t" "es = fs @ gs"
  shows "\<exists>u. calls i j s fs u \<and> calls i j u gs t"
  using assms
proof (induction arbitrary: gs rule: calls.induct)
  case None
  then show ?case by (auto intro: calls.None)
next
  case (One es t e u)
  show ?case
  proof (cases gs rule: rev_cases)
    case Nil
    then show ?thesis using One.hyps One.prems by (auto intro: calls.intros)
  next
    case (snoc hs h)
    then have "es = fs @ hs" "h = e" using One.prems by simp_all
    then show ?thesis using One.IH [of hs] One.hyps(2) snoc by (auto intro: calls.One)
  qed
qed

lemma shut_silent:
  assumes "calls i j s es t" "pair i j a b s" "k \<in> {i, j}" "es = fs @ Shut k # gs"
  shows "wrote k gs = []"
proof -
  have "es = (fs @ [Shut k]) @ gs" using assms(4) by simp
  then obtain u where u: "calls i j s (fs @ [Shut k]) u" "calls i j u gs t" using calls_split [OF assms(1)] by blast
  obtain c d where c: "pair i j c d u" "conveys i j (fs @ [Shut k]) a c" "conveys j i (fs @ [Shut k]) b d"
    using calls_convey [OF u(1) assms(2)] by blast
  obtain c' d' where "conveys i j gs c c'" "conveys j i gs d d'" using calls_convey [OF u(2) c(1)] by blast
  then show ?thesis using c(2,3) assms(3) by (auto simp: conveys_def)
qed

lemma pair_room: "pair i j a b s \<Longrightarrow> length (ch_data a) \<le> ch_cap a"
  by (erule pairE, erule ring_okE) simp

text \<open>After any calls, every further call returns.\<close>

lemma pair_call_returns:
  assumes "pair i j a b s" "k \<in> {i, j}"
  shows "n \<le> int (length bs) \<Longrightarrow> \<exists>r t. BIO_write k bs n s = (Ok r, t)" "\<exists>r bs t. BIO_read k n s = (Ok (r, bs), t)"
    "\<exists>r t. BIO_ctrl k cmd n None s = (Ok r, t)" "\<exists>t. BIO_up_ref k s = (Ok (), t)"
proof -
  have swap: "pair j i b a s" using assms(1) by (simp add: pair_swap)
  show "\<exists>t. BIO_up_ref k s = (Ok (), t)" using BIO_up_ref_run [OF assms(1)] BIO_up_ref_run [OF swap] assms(2) by blast
  show "\<exists>r t. BIO_write k bs n s = (Ok r, t)" if "n \<le> int (length bs)"
    using BIO_write_run [OF assms(1) that] BIO_write_run [OF swap that] assms(2) by blast
  have "\<exists>x t. BIO_read k n s = (Ok x, t)"
    using BIO_read_run [OF assms(1), of n] BIO_read_run [OF swap, of n] assms(2) by blast
  then show "\<exists>r bs t. BIO_read k n s = (Ok (r, bs), t)" by (simp add: split_paired_Ex)
  show "\<exists>r t. BIO_ctrl k cmd n None s = (Ok r, t)"
    using BIO_ctrl_run [OF assms(1), of cmd n] BIO_ctrl_run [OF swap, of cmd n] assms(2) by blast
qed

section \<open>Moving everything across\<close>

definition ch_room :: "channel \<Rightarrow> nat" where
  "ch_room a = (if ch_closed a then 0 else ch_cap a - length (ch_data a))"

lemma channel_write_room:
  assumes "0 < n" "length (ch_data a) \<le> ch_cap a"
  shows "channel_write bs n a = (if ch_room a = 0 then (- 1, a\<lparr>ch_request := 0\<rparr>)
    else (int (min (nat n) (ch_room a)), a\<lparr>ch_data := ch_data a @ take (min (nat n) (ch_room a)) bs, ch_request := 0\<rparr>))"
  using assms by (auto simp: channel_write_def ch_room_def Let_def)

lemma write_all_run:
  assumes "pair i j a b s" "length data \<le> k"
  shows "\<exists>t c. write_all_loop k i data s = (if length data \<le> ch_room a then Ok () else Fail, t) \<and> pair i j c b t \<and>
    ch_data c = ch_data a @ take (ch_room a) data \<and> ch_cap c = ch_cap a \<and> ch_closed c = ch_closed a"
  using assms
proof (induction k arbitrary: a s data)
  case 0
  then show ?case by (auto simp: write_all_loop.simps act_run)
next
  case (Suc k)
  show ?case
  proof (cases "data = []")
    case True
    then show ?thesis using Suc.prems by (auto simp: write_all_loop.simps act_run)
  next
    case False
    obtain q where q: "q = (if length data > INT_MAX then INT_MAX else length data)" by blast
    have n: "0 < int q" "int q \<le> int (length data)" using False q by auto
    note room = channel_write_room [OF n(1) pair_room [OF Suc.prems(1)], of data]
    obtain t where t: "BIO_write i data (int q) s = (Ok (fst (channel_write data (int q) a)), t)" "pair i j (snd (channel_write data (int q) a)) b t"
      using BIO_write_run [OF Suc.prems(1) n(2)] by blast
    have step: "write_all_loop (Suc k) i data s = (if fst (channel_write data (int q) a) \<le> 0 then fail
        else write_all_loop k i (drop (nat (fst (channel_write data (int q) a))) data)) t"
      unfolding write_all_loop.simps [of "Suc k"] q [symmetric] using False by (simp add: seq_run(1) [where m = "BIO_write i data _", OF t(1)])
    show ?thesis
    proof (cases "ch_room a = 0")
      case True
      then show ?thesis using step t(2) room False
        by (intro exI [of _ t] exI [of _ "snd (channel_write data (int q) a)"]) (simp add: act_run)
    next
      case room_left: False
      let ?m = "min q (ch_room a)"
      let ?a = "a\<lparr>ch_data := ch_data a @ take ?m data, ch_request := 0\<rparr>"
      have m: "0 < ?m" "?m \<le> length data" "?m \<le> ch_room a" using room_left n by auto
      have w: "channel_write data (int q) a = (int ?m, ?a)" using room room_left by simp
      have left: "ch_room ?a = ch_room a - ?m" using m room_left by (auto simp: ch_room_def split: if_splits)
      have small: "length (drop ?m data) \<le> k" using m(1,2) Suc.prems(2) unfolding length_drop by linarith
      have "pair i j ?a b t" using t(2) w by simp
      from Suc.IH [OF this small] obtain u c where u:
        "write_all_loop k i (drop ?m data) t = (if length (drop ?m data) \<le> ch_room ?a then Ok () else Fail, u)" "pair i j c b u"
        "ch_data c = ch_data ?a @ take (ch_room ?a) (drop ?m data)" "ch_cap c = ch_cap ?a" "ch_closed c = ch_closed ?a"
        by blast
      have "write_all_loop (Suc k) i data s = write_all_loop k i (drop ?m data) t" using step m w by simp
      moreover have "take ?m data @ take (ch_room a - ?m) (drop ?m data) = take (ch_room a) data"
        using m by (metis take_add le_add_diff_inverse)
      moreover have "length (drop ?m data) \<le> ch_room a - ?m \<longleftrightarrow> length data \<le> ch_room a"
        using m unfolding length_drop by linarith
      ultimately show ?thesis using u left by (intro exI [of _ u] exI [of _ c]) simp
    qed
  qed
qed

text \<open>A reader that reads until it gets nothing.\<close>

primrec drain :: "nat \<Rightarrow> nat \<Rightarrow> int \<Rightarrow> (byte list, bio_store) act" where
  "drain 0 i n = (\<lambda>s. (NoFuel, s))"
| "drain (Suc k) i n = seq (BIO_read i n) (\<lambda>(r, bs). if r \<le> 0 then ret bs else seq (drain k i n) (\<lambda>more. ret (bs @ more)))"

lemma drain_run:
  assumes "pair i j a b s" "0 < n" "length (ch_data b) < k"
  shows "\<exists>t c. drain k i n s = (Ok (ch_data b), t) \<and> pair i j a c t \<and> ch_data c = [] \<and> ch_cap c = ch_cap b \<and> ch_closed c = ch_closed b"
  using assms
proof (induction k arbitrary: b s)
  case 0
  then show ?case by simp
next
  case (Suc k)
  obtain t where t: "BIO_read i n s = (Ok (fst (channel_read n b)), t)" "pair i j a (snd (channel_read n b)) t"
    using BIO_read_run [OF Suc.prems(1), of n] by blast
  show ?case
  proof (cases "ch_data b = []")
    case True
    have "drain (Suc k) i n s = (Ok [], t)"
      unfolding drain.simps
      by (rule seq_step, rule t(1), use Suc.prems(2) True in \<open>simp add: channel_read_def act_run\<close>)
    then show ?thesis using t(2) True Suc.prems(2)
      by (intro exI [of _ t] exI [of _ "snd (channel_read n b)"]) (simp add: channel_read_def)
  next
    case False
    let ?m = "min (nat n) (length (ch_data b))"
    let ?b = "b\<lparr>ch_data := drop ?m (ch_data b), ch_request := 0\<rparr>"
    have m: "0 < ?m" using False Suc.prems(2) by simp
    have r: "channel_read n b = ((int ?m, take ?m (ch_data b)), ?b)" using False Suc.prems(2) by (simp add: channel_read_def Let_def)
    have "length (ch_data b) - ?m < k" using m Suc.prems(3) by linarith
    then have "pair i j a ?b t" "length (ch_data ?b) < k" using t(2) r by simp_all
    from Suc.IH [OF this(1) Suc.prems(2) this(2)] obtain u c where u: "drain k i n t = (Ok (ch_data ?b), u)" "pair i j a c u"
      "ch_data c = []" "ch_cap c = ch_cap ?b" "ch_closed c = ch_closed ?b" by blast
    have "drain (Suc k) i n s = (Ok (ch_data b), u)"
      unfolding drain.simps
    proof (rule seq_step, rule t(1))
      have pos: "\<not> int ?m \<le> 0" using m by linarith
      have "seq (drain k i n) (\<lambda>more. ret (take ?m (ch_data b) @ more)) t = (Ok (ch_data b), u)"
        by (rule seq_step, rule u(1)) (simp add: act_run)
      then show "(case fst (channel_read n b) of (r, bs) \<Rightarrow> if r \<le> 0 then ret bs else seq (drain k i n) (\<lambda>more. ret (bs @ more))) t =
          (Ok (ch_data b), u)" by (simp only: r fst_conv prod.case if_not_P [OF pos])
    qed
    then show ?thesis using u by (intro exI [of _ u] exI [of _ c]) simp
  qed
qed

end
