(* ===== verification/Bio_Props.thy ===== *)
theory Bio_Props
  imports Bio_Pair
begin

text \<open>
  The properties of BIO pairs.
\<close>

lemma retry_values: "BIO_FLAGS_READ OR BIO_FLAGS_SHOULD_RETRY = 0x09" "BIO_FLAGS_WRITE OR BIO_FLAGS_SHOULD_RETRY = 0x0a"
  by simp_all

text \<open>
  C29. A BIO pair implements two bounded queues: on connected ends, reading, writing and the control calls
  return what the queues determine, change only the queue in question, and set the retry flags exactly when
  the call has to wait for the other end.
\<close>

theorem bio_calls_refine:
  assumes "pair i j a b s"
  shows "(\<exists>t. BIO_read i n s = (Ok (fst (channel_read n b)), t) \<and> pair i j a (snd (channel_read n b)) t \<and>
      (0 < n \<longrightarrow> retry_flags i t = (if fst (fst (channel_read n b)) = - 1 then 0x09 else 0))) \<and>
    (n \<le> int (length bs) \<longrightarrow>
      (\<exists>t. BIO_write i bs n s = (Ok (fst (channel_write bs n a)), t) \<and> pair i j (snd (channel_write bs n a)) b t \<and>
        (0 < n \<longrightarrow> retry_flags i t = (if fst (channel_write bs n a) = - 1 \<and> \<not> ch_closed a then 0x0a else 0)))) \<and>
    (\<exists>r t. BIO_ctrl i cmd num None s = (Ok r, t) \<and> pair i j (snd (channel_ctrl cmd a b)) b t \<and>
      (cmd \<noteq> BIO_CTRL_GET_CLOSE \<longrightarrow> r = fst (channel_ctrl cmd a b)))"
  using BIO_read_run [OF assms, of n] BIO_write_run [OF assms, of n bs] BIO_ctrl_run [OF assms, of cmd num]
  unfolding retry_values by blast

text \<open>Two ends, the second with one byte in its ring of two, behind the wrap-around.\<close>

definition example_end :: "nat \<Rightarrow> nat \<Rightarrow> nat \<Rightarrow> byte list \<Rightarrow> BIO" where
  "example_end p len off mem = \<lparr>bio_is_init = True, bio_shutdown = 1, bio_flags = 0, bio_retry_reason = 0, bio_references = 1,
     bio_ptr = Some \<lparr>bb_peer = Some p, bb_closed = False, bb_len = len, bb_offset = off, bb_size = length mem, bb_buf = Some mem,
       bb_request = 0\<rparr>, bio_num_read = 0, bio_num_write = 0\<rparr>"

definition example_pair :: bio_store where
  "example_pair = \<lparr>bios = [Some (example_end 1 0 0 [0, 0, 0]), Some (example_end 0 2 1 [8, 7])], bio_alloc = (\<lambda>n. n < 1000), bio_fresh = (\<lambda>n. 0)\<rparr>"

lemma example_pair_ok:
  "pair 0 1 \<lparr>ch_data = [], ch_cap = 3, ch_closed = False, ch_request = 0\<rparr>
    \<lparr>ch_data = [7, 8], ch_cap = 2, ch_closed = False, ch_request = 0\<rparr> example_pair"
  by (simp add: pair_def example_pair_def example_end_def entry_def end_holds_def ring_ok_def ring_def)

theorem bio_calls_refine_witness:
  "(\<exists>t. BIO_read 0 5 example_pair = (Ok (2, [7, 8]), t)) \<and> (\<exists>t. BIO_write 0 [1, 2, 3, 4] 4 example_pair = (Ok 3, t)) \<and>
   (\<exists>t. BIO_ctrl 0 10 0 None example_pair = (Ok 2, t))"
  using bio_calls_refine [OF example_pair_ok, where n = 5 and bs = "[]" and cmd = 10 and num = 0]
    bio_calls_refine [OF example_pair_ok, where n = 4 and bs = "[1, 2, 3, 4]" and cmd = 10 and num = 0]
  by (auto simp: channel_read_def channel_write_def channel_ctrl_def)

text \<open>
  C28. Streams are kept: from a newly made pair, after any calls of \<open>BIO_read\<close>, \<open>BIO_write\<close>, \<open>BIO_ctrl\<close> (any command,
  without an argument pointer) and \<open>BIO_up_ref\<close> on the two ends in any order, what one end wrote is what the other
  end read followed by what is still in the ring, which never holds more than its size; nothing is accepted
  after the write side was shut down; and every further call of the four returns, on either end.
\<close>

theorem bio_pair_stream:
  assumes "\<forall>n. bio_alloc s n \<longrightarrow> n < 2 ^ 63" "bio_alloc s bio_size" "bio_alloc s bio_bio_size"
    "bio_alloc s (ch_cap (fresh_channel m))" "bio_alloc s (ch_cap (fresh_channel n))"
  shows "\<exists>i j t. BIO_new_bio_pair m n s = (Ok (i, j), t) \<and>
    (\<forall>es u. calls i j t es u \<longrightarrow>
      (\<exists>a b. pair i j a b u \<and> wrote i es = got j es @ ch_data a \<and> wrote j es = got i es @ ch_data b \<and>
        length (ch_data a) \<le> ch_cap a \<and> ch_cap a = (if m = 0 then 17408 else m) \<and>
        length (ch_data b) \<le> ch_cap b \<and> ch_cap b = (if n = 0 then 17408 else n)) \<and>
      (\<forall>k \<in> {i, j}. \<forall>fs gs. es = fs @ Shut k # gs \<longrightarrow> wrote k gs = []) \<and>
      (\<forall>k \<in> {i, j}. \<forall>z bs. (\<exists>r bs' v. BIO_read k z u = (Ok (r, bs'), v)) \<and>
        (z \<le> int (length bs) \<longrightarrow> (\<exists>r v. BIO_write k bs z u = (Ok r, v))) \<and>
        (\<forall>cmd. \<exists>r v. BIO_ctrl k cmd z None u = (Ok r, v)) \<and> (\<exists>v. BIO_up_ref k u = (Ok (), v))))"
proof -
  obtain i j t where made: "BIO_new_bio_pair m n s = (Ok (i, j), t)" "pair i j (fresh_channel m) (fresh_channel n) t"
    using new_pair_run [OF assms] by blast
  have "(\<exists>a b. pair i j a b u \<and> wrote i es = got j es @ ch_data a \<and> wrote j es = got i es @ ch_data b \<and>
        length (ch_data a) \<le> ch_cap a \<and> ch_cap a = (if m = 0 then 17408 else m) \<and>
        length (ch_data b) \<le> ch_cap b \<and> ch_cap b = (if n = 0 then 17408 else n)) \<and>
      (\<forall>k \<in> {i, j}. \<forall>fs gs. es = fs @ Shut k # gs \<longrightarrow> wrote k gs = []) \<and>
      (\<forall>k \<in> {i, j}. \<forall>z bs. (\<exists>r bs' v. BIO_read k z u = (Ok (r, bs'), v)) \<and>
        (z \<le> int (length bs) \<longrightarrow> (\<exists>r v. BIO_write k bs z u = (Ok r, v))) \<and>
        (\<forall>cmd. \<exists>r v. BIO_ctrl k cmd z None u = (Ok r, v)) \<and> (\<exists>v. BIO_up_ref k u = (Ok (), v)))" if calls: "calls i j t es u" for es u
  proof -
    obtain a b where ab: "pair i j a b u" "conveys i j es (fresh_channel m) a" "conveys j i es (fresh_channel n) b"
      using calls_convey [OF calls made(2)] by blast
    have "wrote i es = got j es @ ch_data a" "wrote j es = got i es @ ch_data b" "ch_cap a = (if m = 0 then 17408 else m)"
      "ch_cap b = (if n = 0 then 17408 else n)" using ab(2,3) by (auto simp: conveys_def fresh_channel_def)
    moreover have "length (ch_data a) \<le> ch_cap a" "length (ch_data b) \<le> ch_cap b"
      using pair_room [OF ab(1)] pair_room [OF ab(1) [unfolded pair_swap [of i j]]] by simp_all
    moreover have "wrote k gs = []" if "k \<in> {i, j}" "es = fs @ Shut k # gs" for k fs gs
      using shut_silent [OF calls made(2) that] .
    moreover have "\<forall>k \<in> {i, j}. \<forall>z bs. (\<exists>r bs' v. BIO_read k z u = (Ok (r, bs'), v)) \<and>
        (z \<le> int (length bs) \<longrightarrow> (\<exists>r v. BIO_write k bs z u = (Ok r, v))) \<and>
        (\<forall>cmd. \<exists>r v. BIO_ctrl k cmd z None u = (Ok r, v)) \<and> (\<exists>v. BIO_up_ref k u = (Ok (), v))"
      by (intro ballI allI conjI impI pair_call_returns [OF ab(1)])
    ultimately show ?thesis using ab(1) by blast
  qed
  then show ?thesis using made(1) by blast
qed

definition empty_store :: bio_store where
  "empty_store = \<lparr>bios = [], bio_alloc = (\<lambda>n. n < 20000), bio_fresh = (\<lambda>n. 0)\<rparr>"

lemma empty_store_alloc: "bio_alloc empty_store n \<longleftrightarrow> n < 20000"
  by (simp add: empty_store_def)

theorem bio_pair_stream_witness:
  "\<exists>i j t. BIO_new_bio_pair 3 0 empty_store = (Ok (i, j), t) \<and>
    (\<forall>es u. calls i j t es u \<longrightarrow> (\<exists>a b. pair i j a b u \<and> wrote i es = got j es @ ch_data a \<and> length (ch_data a) \<le> 3))"
proof -
  have "\<forall>n. bio_alloc empty_store n \<longrightarrow> n < 2 ^ 63" "bio_alloc empty_store bio_size" "bio_alloc empty_store bio_bio_size"
    "bio_alloc empty_store (ch_cap (fresh_channel 3))" "bio_alloc empty_store (ch_cap (fresh_channel 0))"
    by (simp_all add: empty_store_alloc fresh_channel_def)
  from bio_pair_stream [OF this] obtain i j t where made: "BIO_new_bio_pair 3 0 empty_store = (Ok (i, j), t)"
    and all: "\<forall>es u. calls i j t es u \<longrightarrow> (\<exists>a b. pair i j a b u \<and> wrote i es = got j es @ ch_data a \<and>
      wrote j es = got i es @ ch_data b \<and> length (ch_data a) \<le> ch_cap a \<and> ch_cap a = (if (3 :: nat) = 0 then 17408 else 3) \<and>
      length (ch_data b) \<le> ch_cap b \<and> ch_cap b = (if (0 :: nat) = 0 then 17408 else 0))"
    by (elim exE conjE) blast
  have "\<exists>a b. pair i j a b u \<and> wrote i es = got j es @ ch_data a \<and> length (ch_data a) \<le> 3" if "calls i j t es u" for es u
    using all [rule_format, OF that] by auto
  with made show ?thesis by blast
qed

text \<open>
  C30. Nothing is lost at the end: when the data of the writer fits the ring, \<open>BIO_write_all\<close> takes all of it;
  after \<open>BIO_shutdown_wr\<close> the other end, reading in pieces of any size until it gets nothing, ends after at
  most one read per byte with all the data, then sees the end of file and no retry flag; when the data does not
  fit, \<open>BIO_write_all\<close> fails.
\<close>

theorem bio_transfer:
  assumes "pair i j a b s" "0 < n" "length (ch_data a) + length data < k"
  shows "(length data \<le> ch_room a \<longrightarrow> (\<exists>t u v w. BIO_write_all i data s = (Ok (), t) \<and> BIO_shutdown_wr i t = (Ok 1, u) \<and>
      drain k j n u = (Ok (ch_data a @ data), v) \<and> BIO_read j n v = (Ok (0, []), w) \<and> retry_flags j w = 0)) \<and>
    (ch_room a < length data \<longrightarrow> (\<exists>t. BIO_write_all i data s = (Fail, t)))"
proof -
  obtain t c where t: "BIO_write_all i data s = (if length data \<le> ch_room a then Ok () else Fail, t)" "pair i j c b t"
    "ch_data c = ch_data a @ take (ch_room a) data"
    unfolding BIO_write_all_def using write_all_run [OF assms(1) order_refl, of data] by blast
  have fails: "ch_room a < length data \<longrightarrow> (\<exists>t. BIO_write_all i data s = (Fail, t))" using t(1) by simp
  obtain u where u: "BIO_shutdown_wr i t = (Ok 1, u)" "pair i j (c\<lparr>ch_closed := True\<rparr>) b u"
    unfolding BIO_shutdown_wr_def using BIO_ctrl_run [OF t(2), of BIO_C_SHUTDOWN_WR 0] by (auto simp: channel_ctrl_def)
  have swap: "pair j i b (c\<lparr>ch_closed := True\<rparr>) u" using u(2) by (simp add: pair_swap)
  have "length data \<le> ch_room a \<longrightarrow> (\<exists>t u v w. BIO_write_all i data s = (Ok (), t) \<and> BIO_shutdown_wr i t = (Ok 1, u) \<and>
      drain k j n u = (Ok (ch_data a @ data), v) \<and> BIO_read j n v = (Ok (0, []), w) \<and> retry_flags j w = 0)"
  proof
    assume fits: "length data \<le> ch_room a"
    then have "length (ch_data (c\<lparr>ch_closed := True\<rparr>)) < k" using t(3) assms(3) by simp
    from drain_run [OF swap assms(2) this] obtain v d where v: "drain k j n u = (Ok (ch_data c), v)" "pair j i b d v" "ch_data d = []" "ch_closed d"
      by auto
    obtain w where "BIO_read j n v = (Ok (0, []), w)" "retry_flags j w = 0"
      using BIO_read_run [OF v(2), of n] v(3,4) assms(2) by (auto simp: channel_read_def)
    then show "\<exists>t u v w. BIO_write_all i data s = (Ok (), t) \<and> BIO_shutdown_wr i t = (Ok 1, u) \<and>
      drain k j n u = (Ok (ch_data a @ data), v) \<and> BIO_read j n v = (Ok (0, []), w) \<and> retry_flags j w = 0"
      using t(1,3) u(1) v(1) fits by auto
  qed
  then show ?thesis using fails by blast
qed

theorem bio_transfer_witness:
  "(\<exists>t u v w. BIO_write_all 0 [1, 2, 3] example_pair = (Ok (), t) \<and> BIO_shutdown_wr 0 t = (Ok 1, u) \<and>
      drain 4 1 2 u = (Ok [1, 2, 3], v) \<and> BIO_read 1 2 v = (Ok (0, []), w) \<and> retry_flags 1 w = 0) \<and>
   (\<exists>t. BIO_write_all 0 [1, 2, 3, 4] example_pair = (Fail, t))"
  using bio_transfer [OF example_pair_ok, of 2 "[1, 2, 3]" 4] bio_transfer [OF example_pair_ok, of 2 "[1, 2, 3, 4]" 5]
  by (simp add: ch_room_def)

end
