(* ===== verification/Lhash.thy ===== *)
theory Lhash
  imports Prelude
begin

text \<open>
  The hash table of crypto/lhash/lhash.c, and the hash function of crypto/mem.c.

  The chain of a bucket is the list of its items; a pointer to the pointer to an item is the index of the
  bucket with the position in its chain, which is the length of the chain where the pointer found is null.
  Items are pointers of type \<open>'a\<close>; the functions of the table (of types \<open>'h\<close> and \<open>'c\<close>) are called through the
  helpers the caller passes, as in the C code.  \<open>malloc live n\<close> says whether \<open>n\<close> bytes are allocated while
  the table has \<open>live\<close> items.
\<close>

section \<open>Data\<close>

record 'a lhash_item_st =
  it_data :: 'a
  it_hash :: u32

record ('a, 'h, 'c) lhash_st =
  lh_num :: nat
  lh_buckets :: "'a lhash_item_st list list"
  lh_num_buckets :: nat
  lh_callback_depth :: nat
  lh_comp :: 'c
  lh_hash :: 'h

abbreviation (input) kMinNumBuckets :: nat where "kMinNumBuckets \<equiv> 16"
abbreviation (input) kMaxAverageChainLength :: nat where "kMaxAverageChainLength \<equiv> 2"
abbreviation (input) kMinAverageChainLength :: nat where "kMinAverageChainLength \<equiv> 1"
abbreviation (input) UINT_MAX :: nat where "UINT_MAX \<equiv> 0xffffffff"
abbreviation (input) lhash_size :: nat where "lhash_size \<equiv> 48"
abbreviation (input) lhash_item_size :: nat where "lhash_item_size \<equiv> 24"
abbreviation (input) pointer_size :: nat where "pointer_size \<equiv> 8"

section \<open>Hashing bytes\<close>

definition OPENSSL_hash32 :: "byte list \<Rightarrow> u32" where
  "OPENSSL_hash32 bs = fold (\<lambda>b h. (h XOR ucast b) * 16777619) bs 2166136261"

text \<open>A string is given by its characters before the terminating zero; \<open>None\<close> is the null pointer.\<close>

definition lh_strhash :: "byte list option \<Rightarrow> u32" where
  "lh_strhash c = (case c of None \<Rightarrow> 0 | Some s \<Rightarrow> OPENSSL_hash32 s)"

section \<open>The table\<close>

definition lh_new :: "(nat \<Rightarrow> nat \<Rightarrow> bool) \<Rightarrow> 'h \<Rightarrow> 'c \<Rightarrow> ('a, 'h, 'c) lhash_st option" where
  "lh_new malloc hash cmp =
     (if \<not> malloc 0 lhash_size then None
      else if \<not> malloc 0 (pointer_size * kMinNumBuckets) then None
      else Some \<lparr>lh_num = 0, lh_buckets = replicate kMinNumBuckets [], lh_num_buckets = kMinNumBuckets,
        lh_callback_depth = 0, lh_comp = cmp, lh_hash = hash\<rparr>)"

definition lh_num_items :: "(nat, ('a, 'h, 'c) lhash_st) act" where
  "lh_num_items = query lh_num"

primrec chain_find :: "('a \<Rightarrow> bool) \<Rightarrow> 'a lhash_item_st list \<Rightarrow> nat" where
  "chain_find found [] = 0"
| "chain_find found (cur # rest) = (if found (it_data cur) then 0 else Suc (chain_find found rest))"

definition bucket_find :: "u32 \<Rightarrow> ('a \<Rightarrow> bool) \<Rightarrow> (nat \<times> nat, ('a, 'h, 'c) lhash_st) act" where
  "bucket_find hash found = (\<lambda>lh.
     let i = unat hash mod lh_num_buckets lh
     in if lh_num_buckets lh = 0 \<or> length (lh_buckets lh) \<le> i then (Ub, lh)
        else (Ok (i, chain_find found (lh_buckets lh ! i)), lh))"

definition get_next_ptr_and_hash ::
  "('h \<Rightarrow> 'a \<Rightarrow> u32) \<Rightarrow> ('c \<Rightarrow> 'a \<Rightarrow> 'a \<Rightarrow> int) \<Rightarrow> 'a \<Rightarrow> (u32 \<times> nat \<times> nat, ('a, 'h, 'c) lhash_st) act" where
  "get_next_ptr_and_hash call_hash_func call_cmp_func data = (\<lambda>lh.
     let hash = call_hash_func (lh_hash lh) data
     in seq (bucket_find hash (\<lambda>cur. call_cmp_func (lh_comp lh) cur data = 0)) (\<lambda>next_ptr. ret (hash, next_ptr)) lh)"

definition get_next_ptr_by_key ::
  "'k \<Rightarrow> u32 \<Rightarrow> ('k \<Rightarrow> 'a \<Rightarrow> int) \<Rightarrow> (nat \<times> nat, ('a, 'h, 'c) lhash_st) act" where
  "get_next_ptr_by_key key key_hash cmp_key = bucket_find key_hash (\<lambda>cur. cmp_key key cur = 0)"

text \<open>The item behind such a pointer, if it is not null.\<close>

definition item_at :: "nat \<times> nat \<Rightarrow> ('a, 'h, 'c) lhash_st \<Rightarrow> 'a lhash_item_st option" where
  "item_at = (\<lambda>(i, k) lh. if k < length (lh_buckets lh ! i) then Some (lh_buckets lh ! i ! k) else None)"

definition lh_retrieve ::
  "('h \<Rightarrow> 'a \<Rightarrow> u32) \<Rightarrow> ('c \<Rightarrow> 'a \<Rightarrow> 'a \<Rightarrow> int) \<Rightarrow> 'a \<Rightarrow> ('a option, ('a, 'h, 'c) lhash_st) act" where
  "lh_retrieve call_hash_func call_cmp_func data =
     seq (get_next_ptr_and_hash call_hash_func call_cmp_func data) (\<lambda>(_, next_ptr).
       query (\<lambda>lh. map_option it_data (item_at next_ptr lh)))"

definition lh_retrieve_key :: "'k \<Rightarrow> u32 \<Rightarrow> ('k \<Rightarrow> 'a \<Rightarrow> int) \<Rightarrow> ('a option, ('a, 'h, 'c) lhash_st) act" where
  "lh_retrieve_key key key_hash cmp_key =
     seq (get_next_ptr_by_key key key_hash cmp_key) (\<lambda>next_ptr. query (\<lambda>lh. map_option it_data (item_at next_ptr lh)))"

text \<open>Moving an item puts it in front of the chain of its new bucket.\<close>

definition move_item :: "nat \<Rightarrow> 'a lhash_item_st \<Rightarrow> 'a lhash_item_st list list \<Rightarrow> 'a lhash_item_st list list" where
  "move_item new_num_buckets cur new_buckets =
     (let new_bucket = unat (it_hash cur) mod new_num_buckets
      in new_buckets[new_bucket := cur # new_buckets ! new_bucket])"

definition lh_rebucket :: "(nat \<Rightarrow> nat \<Rightarrow> bool) \<Rightarrow> nat \<Rightarrow> (unit, ('a, 'h, 'c) lhash_st) act" where
  "lh_rebucket malloc new_num_buckets = (\<lambda>lh.
     let alloc_size = pointer_size * new_num_buckets mod 2 ^ 64
     in if alloc_size div pointer_size \<noteq> new_num_buckets then (Ok (), lh)
        else if \<not> malloc (lh_num lh) alloc_size then (Ok (), lh)
        else if length (lh_buckets lh) < lh_num_buckets lh \<or> new_num_buckets = 0 then (Ub, lh)
        else (Ok (), lh\<lparr>lh_num_buckets := new_num_buckets,
          lh_buckets := fold (\<lambda>chain. fold (move_item new_num_buckets) chain) (take (lh_num_buckets lh) (lh_buckets lh))
            (replicate new_num_buckets [])\<rparr>))"

definition lh_maybe_resize :: "(nat \<Rightarrow> nat \<Rightarrow> bool) \<Rightarrow> (unit, ('a, 'h, 'c) lhash_st) act" where
  "lh_maybe_resize malloc = (\<lambda>lh.
     if lh_callback_depth lh > 0 then (Ok (), lh)
     else if lh_num_buckets lh < kMinNumBuckets then (Ub, lh)
     else
       let avg_chain_length = lh_num lh div lh_num_buckets lh
       in if avg_chain_length > kMaxAverageChainLength then
            let new_num_buckets = lh_num_buckets lh * 2 mod 2 ^ 64
            in if new_num_buckets > lh_num_buckets lh then lh_rebucket malloc new_num_buckets lh else (Ok (), lh)
          else if avg_chain_length < kMinAverageChainLength \<and> lh_num_buckets lh > kMinNumBuckets then
            let new_num_buckets = lh_num_buckets lh div 2;
                new_num_buckets = (if new_num_buckets < kMinNumBuckets then kMinNumBuckets else new_num_buckets)
            in lh_rebucket malloc new_num_buckets lh
          else (Ok (), lh))"

definition put_chain :: "nat \<Rightarrow> ('a lhash_item_st list \<Rightarrow> 'a lhash_item_st list) \<Rightarrow> (unit, ('a, 'h, 'c) lhash_st) act" where
  "put_chain i f = update (\<lambda>lh. lh\<lparr>lh_buckets := (lh_buckets lh)[i := f (lh_buckets lh ! i)]\<rparr>)"

text \<open>The result is the replaced item, if there was one.\<close>

definition lh_insert :: "(nat \<Rightarrow> nat \<Rightarrow> bool) \<Rightarrow> ('h \<Rightarrow> 'a \<Rightarrow> u32) \<Rightarrow> ('c \<Rightarrow> 'a \<Rightarrow> 'a \<Rightarrow> int) \<Rightarrow> 'a \<Rightarrow>
    ('a option, ('a, 'h, 'c) lhash_st) act" where
  "lh_insert malloc call_hash_func call_cmp_func data =
     seq (get_next_ptr_and_hash call_hash_func call_cmp_func data) (\<lambda>(hash, i, k). seq (query (item_at (i, k))) (\<lambda>next.
     case next of
       Some item \<Rightarrow> seq (put_chain i (\<lambda>chain. chain[k := item\<lparr>it_data := data\<rparr>])) (\<lambda>_. ret (Some (it_data item)))
     | None \<Rightarrow> seq (query (\<lambda>lh. malloc (lh_num lh) lhash_item_size)) (\<lambda>served.
         if \<not> served then fail
         else seq (put_chain i (\<lambda>chain. take k chain @ [\<lparr>it_data = data, it_hash = hash\<rparr>])) (\<lambda>_.
           seq (update (\<lambda>lh. lh\<lparr>lh_num := (lh_num lh + 1) mod 2 ^ 64\<rparr>)) (\<lambda>_.
           seq (lh_maybe_resize malloc) (\<lambda>_. ret None))))))"

definition lh_delete :: "(nat \<Rightarrow> nat \<Rightarrow> bool) \<Rightarrow> ('h \<Rightarrow> 'a \<Rightarrow> u32) \<Rightarrow> ('c \<Rightarrow> 'a \<Rightarrow> 'a \<Rightarrow> int) \<Rightarrow> 'a \<Rightarrow>
    ('a option, ('a, 'h, 'c) lhash_st) act" where
  "lh_delete malloc call_hash_func call_cmp_func data =
     seq (get_next_ptr_and_hash call_hash_func call_cmp_func data) (\<lambda>(_, i, k). seq (query (item_at (i, k))) (\<lambda>next.
     case next of
       None \<Rightarrow> ret None
     | Some item \<Rightarrow> seq (put_chain i (\<lambda>chain. take k chain @ drop (Suc k) chain)) (\<lambda>_.
         seq (update (\<lambda>lh. lh\<lparr>lh_num := (lh_num lh + (2 ^ 64 - 1)) mod 2 ^ 64\<rparr>)) (\<lambda>_.
         seq (lh_maybe_resize malloc) (\<lambda>_. ret (Some (it_data item)))))))"

text \<open>
  The callback works on the state \<open>arg\<close> of the caller and leaves the table alone; the result is that state.
\<close>

definition lh_doall_arg :: "(nat \<Rightarrow> nat \<Rightarrow> bool) \<Rightarrow> ('a \<Rightarrow> 'b \<Rightarrow> 'b) \<Rightarrow> 'b \<Rightarrow> ('b, ('a, 'h, 'c) lhash_st) act" where
  "lh_doall_arg malloc func arg =
     seq (update (\<lambda>lh. if lh_callback_depth lh < UINT_MAX then lh\<lparr>lh_callback_depth := lh_callback_depth lh + 1\<rparr> else lh)) (\<lambda>_.
     seq (query (\<lambda>lh. fold (\<lambda>chain. fold (\<lambda>cur. func (it_data cur)) chain) (take (lh_num_buckets lh) (lh_buckets lh)) arg)) (\<lambda>arg.
     seq (update (\<lambda>lh. if lh_callback_depth lh < UINT_MAX then lh\<lparr>lh_callback_depth := lh_callback_depth lh - 1\<rparr> else lh)) (\<lambda>_.
     seq (lh_maybe_resize malloc) (\<lambda>_. ret arg))))"

end
