(* ===== verification/Lhash_Map.thy ===== *)
theory Lhash_Map
  imports Lhash "HOL-Library.Multiset"
begin

text \<open>
  The hash table is a finite map from keys to items, whatever the number of buckets and whether or not a
  resize finds memory.
\<close>

section \<open>Lists of chains\<close>

lemma mset_concat_update:
  "i < length bs \<Longrightarrow> mset (concat (bs[i := b])) + mset (bs ! i) = mset (concat bs) + mset b"
  by (induction bs arbitrary: i) (auto split: nat.splits)

lemma mset_concat_replicate [simp]: "mset (concat (replicate n [])) = {#}"
  by (induction n) auto

lemma length_mset_cong: "mset xs = mset ys \<Longrightarrow> length xs = length ys"
  by (metis size_mset)

lemma distinct_map_mset_cong: "mset (map f xs) = mset (map f ys) \<Longrightarrow> distinct (map f xs) \<longleftrightarrow> distinct (map f ys)"
  by (rule mset_eq_imp_distinct_iff)

lemma chain_find_le: "chain_find found b \<le> length b"
  by (induction b) auto

lemma chain_find_hit: "chain_find found b < length b \<Longrightarrow> found (it_data (b ! chain_find found b))"
  by (induction b) auto

lemma chain_find_miss: "chain_find found b = length b \<longleftrightarrow> (\<forall>it \<in> set b. \<not> found (it_data it))"
  by (induction b) auto

lemma chain_find_cong: "(\<And>it. it \<in> set b \<Longrightarrow> found (it_data it) = found' (it_data it)) \<Longrightarrow> chain_find found b = chain_find found' b"
  by (induction b) auto

section \<open>Rebucketing\<close>

definition placed :: "nat \<Rightarrow> 'a lhash_item_st list list \<Rightarrow> bool" where
  "placed n bs \<longleftrightarrow> length bs = n \<and> (\<forall>i < n. \<forall>it \<in> set (bs ! i). unat (it_hash it) mod n = i)"

lemma placed_replicate [simp]: "placed n (replicate n [])"
  by (simp add: placed_def)

lemma move_item_run:
  assumes "placed n bs" "0 < n"
  shows "placed n (move_item n it bs)" "mset (concat (move_item n it bs)) = add_mset it (mset (concat bs))"
proof -
  let ?i = "unat (it_hash it) mod n"
  have i: "?i < length bs" using assms by (simp add: placed_def)
  show "placed n (move_item n it bs)"
    using assms by (auto simp: placed_def move_item_def Let_def nth_list_update)
  show "mset (concat (move_item n it bs)) = add_mset it (mset (concat bs))"
    using mset_concat_update [OF i, of "it # bs ! ?i"] by (simp add: move_item_def Let_def)
qed

lemma move_chain_run:
  assumes "placed n bs" "0 < n"
  shows "placed n (fold (move_item n) chain bs) \<and> mset (concat (fold (move_item n) chain bs)) = mset chain + mset (concat bs)"
  using assms(1)
proof (induction chain arbitrary: bs)
  case (Cons it chain)
  show ?case using Cons.IH [OF move_item_run(1) [OF Cons.prems assms(2)]] move_item_run(2) [OF Cons.prems assms(2)] by simp
qed simp

lemma move_all_run:
  assumes "placed n bs" "0 < n"
  shows "placed n (fold (\<lambda>chain. fold (move_item n) chain) cs bs) \<and>
    mset (concat (fold (\<lambda>chain. fold (move_item n) chain) cs bs)) = mset (concat cs) + mset (concat bs)"
  using assms(1)
proof (induction cs arbitrary: bs)
  case (Cons chain cs)
  have one: "placed n (fold (move_item n) chain bs)" "mset (concat (fold (move_item n) chain bs)) = mset chain + mset (concat bs)"
    using move_chain_run [OF Cons.prems assms(2)] by blast+
  show ?case using Cons.IH [OF one(1)] one(2) by simp
qed simp

section \<open>Well-formed tables\<close>

definition lh_items :: "('a, 'h, 'c) lhash_st \<Rightarrow> 'a lhash_item_st list" where
  "lh_items lh = concat (lh_buckets lh)"

definition lh_wf :: "('a \<Rightarrow> u32) \<Rightarrow> ('a \<Rightarrow> 'k) \<Rightarrow> ('a, 'h, 'c) lhash_st \<Rightarrow> bool" where
  "lh_wf hash key lh \<longleftrightarrow> placed (lh_num_buckets lh) (lh_buckets lh) \<and> kMinNumBuckets \<le> lh_num_buckets lh \<and>
     pointer_size * lh_num_buckets lh < 2 ^ 64 \<and> lh_num lh = length (lh_items lh) \<and> lhash_item_size * lh_num lh < 2 ^ 64 \<and>
     (\<forall>it \<in> set (lh_items lh). it_hash it = hash (it_data it)) \<and> distinct (map (\<lambda>it. key (it_data it)) (lh_items lh))"

text \<open>The functions of the table decide equality of keys, and equal keys have equal hash values.\<close>

definition hash_laws :: "('h \<Rightarrow> 'a \<Rightarrow> u32) \<Rightarrow> ('c \<Rightarrow> 'a \<Rightarrow> 'a \<Rightarrow> int) \<Rightarrow> ('a \<Rightarrow> 'k) \<Rightarrow> 'h \<Rightarrow> 'c \<Rightarrow> bool" where
  "hash_laws chash ccmp key h c \<longleftrightarrow>
     (\<forall>a b. ccmp c a b = 0 \<longleftrightarrow> key a = key b) \<and> (\<forall>a b. key a = key b \<longrightarrow> chash h a = chash h b)"

definition lh_ok :: "('h \<Rightarrow> 'a \<Rightarrow> u32) \<Rightarrow> ('c \<Rightarrow> 'a \<Rightarrow> 'a \<Rightarrow> int) \<Rightarrow> ('a \<Rightarrow> 'k) \<Rightarrow> ('a, 'h, 'c) lhash_st \<Rightarrow> bool" where
  "lh_ok chash ccmp key lh \<longleftrightarrow> hash_laws chash ccmp key (lh_hash lh) (lh_comp lh) \<and> lh_wf (chash (lh_hash lh)) key lh"

text \<open>Items are different objects, each of 24 bytes.\<close>

definition malloc_ok :: "(nat \<Rightarrow> nat \<Rightarrow> bool) \<Rightarrow> bool" where
  "malloc_ok malloc \<longleftrightarrow> (\<forall>live n. malloc live n \<longrightarrow> lhash_item_size * live + n < 2 ^ 64)"

definition lh_view :: "('a \<Rightarrow> 'k) \<Rightarrow> ('a, 'h, 'c) lhash_st \<Rightarrow> 'k \<Rightarrow> 'a option" where
  "lh_view key lh = map_of (map (\<lambda>it. (key (it_data it), it_data it)) (lh_items lh))"

lemma lh_view_Some:
  assumes "distinct (map (\<lambda>it. key (it_data it)) (lh_items lh))"
  shows "lh_view key lh k = Some d \<longleftrightarrow> (\<exists>it \<in> set (lh_items lh). it_data it = d) \<and> key d = k"
proof -
  have "distinct (map fst (map (\<lambda>it. (key (it_data it), it_data it)) (lh_items lh)))" using assms by (simp add: comp_def)
  then show ?thesis unfolding lh_view_def by (simp only: map_of_eq_Some_iff) auto
qed

lemma lh_view_None: "lh_view key lh k = None \<longleftrightarrow> (\<forall>it \<in> set (lh_items lh). key (it_data it) \<noteq> k)"
  by (force simp: lh_view_def map_of_eq_None_iff)

lemma option_eq_by_Some: "(\<And>d. x = Some d \<longleftrightarrow> y = Some d) \<Longrightarrow> x = y"
  by (cases x; cases y) auto

lemma lh_view_cong:
  assumes "distinct (map (\<lambda>it. key (it_data it)) (lh_items lh))" "mset (lh_items lh') = mset (lh_items lh)"
  shows "lh_view key lh' = lh_view key lh"
proof
  fix k
  have other: "distinct (map (\<lambda>it. key (it_data it)) (lh_items lh'))"
    using assms distinct_map_mset_cong [of "\<lambda>it. key (it_data it)" "lh_items lh'" "lh_items lh"] by simp
  have "set (lh_items lh') = set (lh_items lh)" using assms(2) by (rule mset_eq_setD)
  then show "lh_view key lh' k = lh_view key lh k"
    by (intro option_eq_by_Some) (simp add: lh_view_Some [OF assms(1)] lh_view_Some [OF other])
qed

lemma lh_wf_buckets:
  assumes "lh_wf hash key lh" "placed n bs" "16 \<le> n" "8 * n < 2 ^ 64" "mset (concat bs) = mset (lh_items lh)"
  shows "lh_wf hash key (lh\<lparr>lh_num_buckets := n, lh_buckets := bs\<rparr>)"
proof -
  let ?lh = "lh\<lparr>lh_num_buckets := n, lh_buckets := bs\<rparr>"
  have items: "mset (lh_items ?lh) = mset (lh_items lh)" using assms(5) by (simp add: lh_items_def)
  have "distinct (map (\<lambda>it. key (it_data it)) (lh_items ?lh))"
    using assms(1) items distinct_map_mset_cong [of "\<lambda>it. key (it_data it)" "lh_items ?lh" "lh_items lh"] by (simp add: lh_wf_def)
  moreover have "length (lh_items ?lh) = length (lh_items lh)" using items by (rule length_mset_cong)
  moreover have "set (lh_items ?lh) = set (lh_items lh)" using items by (rule mset_eq_setD)
  ultimately show ?thesis using assms(1-4) unfolding lh_wf_def by simp
qed

text \<open>A resize changes nothing that can be seen, and never fails.\<close>

definition same_table :: "('a, 'h, 'c) lhash_st \<Rightarrow> ('a, 'h, 'c) lhash_st \<Rightarrow> bool" where
  "same_table lh lh' \<longleftrightarrow> mset (lh_items lh') = mset (lh_items lh) \<and> lh_num lh' = lh_num lh \<and>
     lh_callback_depth lh' = lh_callback_depth lh \<and> lh_comp lh' = lh_comp lh \<and> lh_hash lh' = lh_hash lh"

lemma lh_rebucket_run:
  assumes "lh_wf hash key lh" "16 \<le> n" "8 * n < 2 ^ 64"
  shows "\<exists>t. lh_rebucket malloc n lh = (Ok (), t) \<and> lh_wf hash key t \<and> same_table lh t \<and>
    lh_num_buckets t = (if malloc (lh_num lh) (8 * n) then n else lh_num_buckets lh)"
proof -
  let ?bs = "fold (\<lambda>chain. fold (move_item n) chain) (lh_buckets lh) (replicate n [])"
  have size: "8 * n mod 2 ^ 64 = 8 * n" using assms(3) by (rule mod_less)
  have len: "length (lh_buckets lh) = lh_num_buckets lh" using assms(1) by (simp add: lh_wf_def placed_def)
  have bs: "placed n ?bs" "mset (concat ?bs) = mset (lh_items lh)"
    using move_all_run [OF placed_replicate, of n "lh_buckets lh"] assms(2) by (simp_all add: lh_items_def)
  show ?thesis
  proof (cases "malloc (lh_num lh) (8 * n)")
    case True
    have "lh_rebucket malloc n lh = (Ok (), lh\<lparr>lh_num_buckets := n, lh_buckets := ?bs\<rparr>)"
      unfolding lh_rebucket_def size using True len assms(2) by (simp add: Let_def)
    moreover have "same_table lh (lh\<lparr>lh_num_buckets := n, lh_buckets := ?bs\<rparr>)" using bs(2) by (simp add: same_table_def lh_items_def)
    ultimately show ?thesis using lh_wf_buckets [OF assms(1) bs(1) assms(2,3) bs(2)] True by simp
  next
    case False
    have "lh_rebucket malloc n lh = (Ok (), lh)"
      unfolding lh_rebucket_def size using False by (simp add: Let_def)
    then show ?thesis using assms(1) False by (simp add: same_table_def)
  qed
qed

lemma lh_wf_distinct: "lh_wf hash key lh \<Longrightarrow> distinct (map (\<lambda>it. key (it_data it)) (lh_items lh))"
  by (simp add: lh_wf_def)

lemma lh_wf_size:
  assumes "lh_wf hash key lh"
  shows "lh_num_buckets lh < 2 ^ 61" "16 \<le> lh_num_buckets lh" "lh_num lh < 2 ^ 60"
  using assms by (simp_all add: lh_wf_def)

text \<open>After a resize that finds its memory no chain is longer than three items on average.\<close>

lemma lh_maybe_resize_run:
  assumes "lh_wf hash key lh" "malloc_ok malloc"
  shows "\<exists>t. lh_maybe_resize malloc lh = (Ok (), t) \<and> lh_wf hash key t \<and> same_table lh t \<and>
    (lh_callback_depth lh = 0 \<and> lh_num lh \<le> 3 * lh_num_buckets lh \<and> malloc (lh_num lh) (16 * lh_num_buckets lh) \<longrightarrow>
      lh_num t < 3 * lh_num_buckets t)"
proof -
  let ?n = "lh_num_buckets lh" and ?m = "lh_num lh"
  have same: "same_table lh lh" by (simp add: same_table_def)
  have size: "?n < 2 ^ 61" "16 \<le> ?n" using lh_wf_size [OF assms(1)] by simp_all
  have twice: "?n * 2 mod 2 ^ 64 = ?n * 2" using size by simp
  consider (still) "lh_callback_depth lh > 0 \<or> (?m div ?n \<le> 2 \<and> (1 \<le> ?m div ?n \<or> ?n \<le> 16))"
    | (grow) "lh_callback_depth lh = 0" "2 < ?m div ?n" | (shrink) "lh_callback_depth lh = 0" "?m div ?n < 1" "16 < ?n"
    by linarith
  then show ?thesis
  proof cases
    case still
    then have "lh_maybe_resize malloc lh = (Ok (), lh)" using size(2) unfolding lh_maybe_resize_def Let_def by auto
    moreover have "?m < 3 * ?n" if "lh_callback_depth lh = 0"
    proof -
      have "?m div ?n < 3" using still that by linarith
      then show ?thesis using size(2) by (simp add: div_less_iff_less_mult)
    qed
    ultimately show ?thesis using assms(1) same by auto
  next
    case grow
    have "lh_maybe_resize malloc lh = lh_rebucket malloc (?n * 2) lh"
      using grow size unfolding lh_maybe_resize_def Let_def twice by simp
    moreover obtain t where t: "lh_rebucket malloc (?n * 2) lh = (Ok (), t)" "lh_wf hash key t" "same_table lh t"
      "lh_num_buckets t = (if malloc ?m (8 * (?n * 2)) then ?n * 2 else ?n)"
    proof (cases "8 * (?n * 2) < 2 ^ 64")
      case True
      then show thesis using lh_rebucket_run [OF assms(1) _ True, of malloc] size(2) that by auto
    next
      case False
      have "24 * ?m + 8 * (?n * 2) < 2 ^ 64" if "malloc ?m (8 * (?n * 2))" using assms(2) that unfolding malloc_ok_def by blast
      then have none: "\<not> malloc ?m (8 * (?n * 2))" using False by linarith
      have "8 * (?n * 2) mod 2 ^ 64 div 8 < 2 ^ 61" by (rule less_mult_imp_div_less) simp
      moreover have "2 ^ 61 \<le> ?n * 2" using False by simp
      ultimately have "8 * (?n * 2) mod 2 ^ 64 div 8 \<noteq> ?n * 2" by (metis not_less)
      then have "lh_rebucket malloc (?n * 2) lh = (Ok (), lh)" unfolding lh_rebucket_def Let_def by (rule if_P)
      then show thesis using that assms(1) same none by simp
    qed
    moreover have "lh_num t < 3 * lh_num_buckets t" if "lh_num lh \<le> 3 * ?n" "malloc ?m (16 * ?n)"
      using that t(3,4) size(2) by (simp add: same_table_def mult.commute)
    ultimately show ?thesis by (intro exI [of _ t]) simp
  next
    case shrink
    let ?k = "if ?n div 2 < 16 then 16 else ?n div 2"
    have k: "16 \<le> ?k" "8 * ?k < 2 ^ 64" "?k \<le> ?n" using size shrink(3) by auto
    have "lh_maybe_resize malloc lh = lh_rebucket malloc ?k lh"
      using shrink size unfolding lh_maybe_resize_def Let_def by simp
    moreover obtain t where t: "lh_rebucket malloc ?k lh = (Ok (), t)" "lh_wf hash key t" "same_table lh t"
      "lh_num_buckets t = (if malloc ?m (8 * ?k) then ?k else ?n)"
      using lh_rebucket_run [OF assms(1) k(1,2)] by blast
    moreover have "?m < 3 * ?k"
    proof -
      have "?m < ?n" using shrink(2) size(2) by (simp add: div_eq_0_iff)
      then show ?thesis by auto
    qed
    moreover have "?m < 3 * ?n" using calculation(6) k(3) by linarith
    ultimately show ?thesis by (auto simp: same_table_def)
  qed
qed

section \<open>Finding an item\<close>

lemma bucket_of_item:
  assumes "lh_wf hash key lh" "it \<in> set (lh_items lh)"
  shows "it \<in> set (lh_buckets lh ! (unat (hash (it_data it)) mod lh_num_buckets lh))"
  using assms by (auto simp: lh_wf_def lh_items_def placed_def in_set_conv_nth) (metis nth_mem)

lemma found_item:
  assumes "lh_wf hash key lh" "\<And>a. found a \<longleftrightarrow> key a = q" "\<And>a. key a = q \<Longrightarrow> hash a = h"
  defines "i \<equiv> unat h mod lh_num_buckets lh"
  defines "k \<equiv> chain_find found (lh_buckets lh ! i)"
  shows "bucket_find h found lh = (Ok (i, k), lh)" "i < length (lh_buckets lh)" "k \<le> length (lh_buckets lh ! i)"
    "map_option it_data (item_at (i, k) lh) = lh_view key lh q"
proof -
  let ?b = "lh_buckets lh ! i"
  have len: "length (lh_buckets lh) = lh_num_buckets lh" "0 < lh_num_buckets lh" using assms(1) by (auto simp: lh_wf_def placed_def)
  then show i: "i < length (lh_buckets lh)" by (simp add: i_def)
  show "bucket_find h found lh = (Ok (i, k), lh)" using len by (simp add: bucket_find_def Let_def i_def k_def not_le)
  show "k \<le> length ?b" unfolding k_def by (rule chain_find_le)
  show "map_option it_data (item_at (i, k) lh) = lh_view key lh q"
  proof (cases "k < length ?b")
    case True
    then have "key (it_data (?b ! k)) = q" using chain_find_hit [of found ?b] assms(2) by (simp add: k_def)
    moreover have "?b ! k \<in> set (lh_items lh)" unfolding lh_items_def set_concat using True i by (meson UN_I nth_mem)
    ultimately have "lh_view key lh q = Some (it_data (?b ! k))" using lh_view_Some [OF lh_wf_distinct [OF assms(1)]] by blast
    then show ?thesis using True by (simp add: item_at_def)
  next
    case False
    then have "k = length ?b" using \<open>k \<le> length ?b\<close> by simp
    then have none: "\<forall>it \<in> set ?b. key (it_data it) \<noteq> q" using chain_find_miss [of found ?b] assms(2) by (simp add: k_def)
    have "key (it_data it) \<noteq> q" if "it \<in> set (lh_items lh)" for it
      using bucket_of_item [OF assms(1) that] none assms(3) by (auto simp: i_def)
    then have "lh_view key lh q = None" by (simp add: lh_view_None)
    then show ?thesis using False by (simp add: item_at_def)
  qed
qed

section \<open>The operations\<close>

lemma lh_okD: "lh_ok chash ccmp key lh \<Longrightarrow> lh_wf (chash (lh_hash lh)) key lh"
  "lh_ok chash ccmp key lh \<Longrightarrow> (ccmp (lh_comp lh) a b = 0) = (key a = key b)"
  "lh_ok chash ccmp key lh \<Longrightarrow> key a = key b \<Longrightarrow> chash (lh_hash lh) a = chash (lh_hash lh) b"
  unfolding lh_ok_def hash_laws_def by blast+

lemma find_run:
  assumes "lh_ok chash ccmp key lh"
  obtains i k where "get_next_ptr_and_hash chash ccmp data lh = (Ok (chash (lh_hash lh) data, i, k), lh)"
    "i = unat (chash (lh_hash lh) data) mod lh_num_buckets lh"
    "i < length (lh_buckets lh)" "k \<le> length (lh_buckets lh ! i)" "map_option it_data (item_at (i, k) lh) = lh_view key lh (key data)"
proof -
  let ?f = "\<lambda>cur. ccmp (lh_comp lh) cur data = 0" and ?h = "chash (lh_hash lh) data"
  have f: "\<And>a. ?f a \<longleftrightarrow> key a = key data" by (rule lh_okD(2) [OF assms])
  have h: "\<And>a. key a = key data \<Longrightarrow> chash (lh_hash lh) a = ?h" by (rule lh_okD(3) [OF assms])
  note found = found_item [where found = ?f and q = "key data" and h = ?h, OF lh_okD(1) [OF assms] f h]
  have "get_next_ptr_and_hash chash ccmp data lh = seq (bucket_find ?h ?f) (\<lambda>next_ptr. ret (?h, next_ptr)) lh"
    by (simp add: get_next_ptr_and_hash_def Let_def)
  then show thesis using found by (intro that) (simp_all add: seq_def act_run)
qed

lemma lh_retrieve_run:
  assumes "lh_ok chash ccmp key lh"
  shows "lh_retrieve chash ccmp data lh = (Ok (lh_view key lh (key data)), lh)"
proof -
  obtain i k where "get_next_ptr_and_hash chash ccmp data lh = (Ok (chash (lh_hash lh) data, i, k), lh)"
    "map_option it_data (item_at (i, k) lh) = lh_view key lh (key data)"
    using find_run [OF assms] by metis
  then show ?thesis by (simp add: lh_retrieve_def seq_def act_run)
qed

lemma lh_retrieve_key_run:
  assumes "lh_ok chash ccmp key lh" "\<And>d. cmp_key q d = 0 \<longleftrightarrow> key d = r" "\<And>d. key d = r \<Longrightarrow> chash (lh_hash lh) d = h"
  shows "lh_retrieve_key q h cmp_key lh = (Ok (lh_view key lh r), lh)"
  using found_item [OF lh_okD(1) [OF assms(1)], where found = "\<lambda>cur. cmp_key q cur = 0" and q = r and h = h, OF assms(2,3)]
  by (simp add: lh_retrieve_key_def get_next_ptr_by_key_def seq_def act_run)

text \<open>The three ways the chains change, on a well-formed table.\<close>

lemma mset_concat_chain:
  "i < length bs \<Longrightarrow> mset b = add_mset x (mset c) \<Longrightarrow> mset (concat (bs[i := b])) = add_mset x (mset (concat (bs[i := c])))"
  by (induction bs arbitrary: i) (auto split: nat.splits)

lemma list_with:
  assumes "mset xs = add_mset x (mset ys)"
  shows "distinct (map f xs) \<longleftrightarrow> f x \<notin> f ` set ys \<and> distinct (map f ys)" "set xs = insert x (set ys)" "length xs = Suc (length ys)"
proof -
  have ms: "mset xs = mset (x # ys)" using assms by simp
  then have "mset (map f xs) = mset (map f (x # ys))" by (metis mset_map)
  from distinct_map_mset_cong [OF this] show "distinct (map f xs) \<longleftrightarrow> f x \<notin> f ` set ys \<and> distinct (map f ys)" by simp
  show "set xs = insert x (set ys)" "length xs = Suc (length ys)" using mset_eq_setD [OF ms] length_mset_cong [OF ms] by simp_all
qed

lemma placed_chain:
  assumes "placed n bs" "i < n" "\<And>it. it \<in> set b \<Longrightarrow> unat (it_hash it) mod n = i"
  shows "placed n (bs[i := b])"
  using assms by (auto simp: placed_def nth_list_update)

lemma placedD: "placed n bs \<Longrightarrow> i < n \<Longrightarrow> it \<in> set (bs ! i) \<Longrightarrow> unat (it_hash it) mod n = i"
  by (simp add: placed_def)

text \<open>The table without the item found.\<close>

definition without :: "nat \<Rightarrow> nat \<Rightarrow> ('a, 'h, 'c) lhash_st \<Rightarrow> 'a lhash_item_st list" where
  "without i k lh = concat ((lh_buckets lh)[i := take k (lh_buckets lh ! i) @ drop (Suc k) (lh_buckets lh ! i)])"

lemma items_without:
  assumes "i < length (lh_buckets lh)" "k < length (lh_buckets lh ! i)"
  shows "mset (lh_items lh) = add_mset (lh_buckets lh ! i ! k) (mset (without i k lh))"
    "mset (concat ((lh_buckets lh)[i := (lh_buckets lh ! i)[k := x]])) = add_mset x (mset (without i k lh))"
proof -
  let ?b = "lh_buckets lh ! i"
  have "mset ?b = add_mset (?b ! k) (mset (take k ?b @ drop (Suc k) ?b))"
    by (subst id_take_nth_drop [OF assms(2)]) simp
  from mset_concat_chain [OF assms(1) this] show "mset (lh_items lh) = add_mset (?b ! k) (mset (without i k lh))"
    by (simp add: lh_items_def without_def)
  have "mset (?b[k := x]) = add_mset x (mset (take k ?b @ drop (Suc k) ?b))"
    using assms(2) by (simp add: upd_conv_take_nth_drop)
  from mset_concat_chain [OF assms(1) this] show "mset (concat ((lh_buckets lh)[i := ?b[k := x]])) = add_mset x (mset (without i k lh))"
    by (simp add: without_def)
qed

lemma view_of_items:
  assumes "distinct (map (\<lambda>it. key (it_data it)) (lh_items t))" "set (lh_items t) = insert new S" "\<And>it. it \<in> S \<Longrightarrow> it \<in> set (lh_items lh)"
    "\<And>it. it \<in> set (lh_items lh) \<Longrightarrow> it \<in> S \<or> key (it_data it) = key (it_data new)"
    "distinct (map (\<lambda>it. key (it_data it)) (lh_items lh))"
  shows "lh_view key t = (lh_view key lh)(key (it_data new) \<mapsto> it_data new)"
proof
  fix q
  show "lh_view key t q = ((lh_view key lh)(key (it_data new) \<mapsto> it_data new)) q"
  proof (cases "q = key (it_data new)")
    case True
    then show ?thesis using assms(2) lh_view_Some [OF assms(1)] by auto
  next
    case False
    then show ?thesis using assms(2-4)
      by (intro option_eq_by_Some) (auto simp: lh_view_Some [OF assms(1)] lh_view_Some [OF assms(5)])
  qed
qed

lemma view_removed:
  assumes "mset (lh_items lh) = add_mset old (mset (lh_items t))" "distinct (map (\<lambda>it. key (it_data it)) (lh_items lh))"
  shows "lh_view key t = (lh_view key lh)(key (it_data old) := None)"
proof
  fix q
  note rest = list_with(1) [OF assms(1), of "\<lambda>it. key (it_data it)"] and all = list_with(2) [OF assms(1)]
  have t: "distinct (map (\<lambda>it. key (it_data it)) (lh_items t))" "key (it_data old) \<notin> (\<lambda>it. key (it_data it)) ` set (lh_items t)"
    using rest assms(2) by auto
  show "lh_view key t q = ((lh_view key lh)(key (it_data old) := None)) q"
  proof (cases "q = key (it_data old)")
    case True
    then show ?thesis using t(2) by (auto simp: lh_view_None image_iff)
  next
    case False
    then show ?thesis by (intro option_eq_by_Some) (auto simp: lh_view_Some [OF t(1)] lh_view_Some [OF assms(2)] all)
  qed
qed

lemma replace_run:
  assumes "lh_wf hash key lh" "i < length (lh_buckets lh)" "k < length (lh_buckets lh ! i)"
    "key (it_data (lh_buckets lh ! i ! k)) = key d" "hash (it_data (lh_buckets lh ! i ! k)) = hash d"
  defines "t \<equiv> lh\<lparr>lh_buckets := (lh_buckets lh)[i := (lh_buckets lh ! i)[k := (lh_buckets lh ! i ! k)\<lparr>it_data := d\<rparr>]]\<rparr>"
  shows "lh_wf hash key t" "lh_view key t = (lh_view key lh)(key d \<mapsto> d)"
proof -
  let ?b = "lh_buckets lh ! i" and ?ks = "\<lambda>it. key (it_data it)"
  let ?new = "(?b ! k)\<lparr>it_data := d\<rparr>"
  have chains: "lh_buckets t = (lh_buckets lh)[i := ?b[k := ?new]]" by (simp add: t_def)
  note old = items_without(1) [OF assms(2,3)]
  have new: "mset (lh_items t) = add_mset ?new (mset (without i k lh))"
    using items_without(2) [OF assms(2,3), of ?new] by (simp add: t_def lh_items_def)
  have wf: "placed (lh_num_buckets lh) (lh_buckets lh)" "distinct (map ?ks (lh_items lh))" "lh_num lh = length (lh_items lh)"
    "\<forall>it \<in> set (lh_items lh). it_hash it = hash (it_data it)" using assms(1) by (auto simp: lh_wf_def)
  have dist: "distinct (map ?ks (lh_items t))"
    using wf(2) assms(4) list_with(1) [OF old, of ?ks] list_with(1) [OF new, of ?ks] by simp
  have "placed (lh_num_buckets lh) (lh_buckets t)" unfolding chains
  proof (rule placed_chain [OF wf(1)])
    show i: "i < lh_num_buckets lh" using assms(2) wf(1) by (simp add: placed_def)
    show "unat (it_hash it) mod lh_num_buckets lh = i" if "it \<in> set (?b[k := ?new])" for it
      using that set_update_subset_insert [of ?b k ?new] placedD [OF wf(1) i] assms(3) by (auto dest!: subsetD)
  qed
  moreover have "\<forall>it \<in> set (lh_items t). it_hash it = hash (it_data it)"
    using wf(4) assms(5) by (simp add: list_with(2) [OF new] list_with(2) [OF old])
  moreover have "length (lh_items t) = lh_num lh" using wf(3) list_with(3) [OF new] list_with(3) [OF old] by simp
  ultimately show "lh_wf hash key t" using assms(1) dist unfolding lh_wf_def by (simp add: t_def)
  show "lh_view key t = (lh_view key lh)(key d \<mapsto> d)"
    using view_of_items [OF dist list_with(2) [OF new] _ _ wf(2)] assms(4) list_with(2) [OF old] by auto
qed

lemma append_run:
  assumes "lh_wf hash key lh" "i = unat (hash d) mod lh_num_buckets lh" "lh_view key lh (key d) = None" "24 * lh_num lh + 24 < 2 ^ 64"
  defines "t \<equiv> lh\<lparr>lh_buckets := (lh_buckets lh)[i := lh_buckets lh ! i @ [\<lparr>it_data = d, it_hash = hash d\<rparr>]], lh_num := lh_num lh + 1\<rparr>"
  shows "lh_wf hash key t" "lh_view key t = (lh_view key lh)(key d \<mapsto> d)"
proof -
  let ?b = "lh_buckets lh ! i" and ?ks = "\<lambda>it. key (it_data it)" and ?new = "\<lparr>it_data = d, it_hash = hash d\<rparr>"
  have wf: "placed (lh_num_buckets lh) (lh_buckets lh)" "distinct (map ?ks (lh_items lh))" "lh_num lh = length (lh_items lh)"
    "\<forall>it \<in> set (lh_items lh). it_hash it = hash (it_data it)" "0 < lh_num_buckets lh" using assms(1) by (auto simp: lh_wf_def)
  have i: "i < lh_num_buckets lh" "i < length (lh_buckets lh)" using assms(2) wf(1,5) by (simp_all add: placed_def)
  have chains: "lh_buckets t = (lh_buckets lh)[i := ?b @ [?new]]" by (simp add: t_def)
  have new: "mset (lh_items t) = add_mset ?new (mset (lh_items lh))"
    using mset_concat_chain [OF i(2), of "?b @ [?new]" ?new ?b] by (simp add: t_def lh_items_def)
  have dist: "distinct (map ?ks (lh_items t))"
    using wf(2) assms(3) list_with(1) [OF new, of ?ks] by (auto simp: lh_view_None)
  have "placed (lh_num_buckets lh) (lh_buckets t)" unfolding chains
    using assms(2) placedD [OF wf(1) i(1)] by (intro placed_chain [OF wf(1) i(1)]) auto
  then show "lh_wf hash key t" using assms(1,4) dist wf(4) list_with(2,3) [OF new] unfolding lh_wf_def by (simp add: t_def)
  show "lh_view key t = (lh_view key lh)(key d \<mapsto> d)"
    using view_of_items [OF dist list_with(2) [OF new] _ _ wf(2)] by simp
qed

lemma remove_run:
  assumes "lh_wf hash key lh" "i < length (lh_buckets lh)" "k < length (lh_buckets lh ! i)"
  defines "t \<equiv> lh\<lparr>lh_buckets := (lh_buckets lh)[i := take k (lh_buckets lh ! i) @ drop (Suc k) (lh_buckets lh ! i)], lh_num := lh_num lh - 1\<rparr>"
  shows "lh_wf hash key t" "lh_view key t = (lh_view key lh)(key (it_data (lh_buckets lh ! i ! k)) := None)" "0 < lh_num lh"
proof -
  let ?b = "lh_buckets lh ! i" and ?ks = "\<lambda>it. key (it_data it)"
  have chains: "lh_buckets t = (lh_buckets lh)[i := take k ?b @ drop (Suc k) ?b]" by (simp add: t_def)
  have old: "mset (lh_items lh) = add_mset (?b ! k) (mset (lh_items t))"
    using items_without(1) [OF assms(2,3)] by (simp add: t_def lh_items_def without_def)
  have wf: "placed (lh_num_buckets lh) (lh_buckets lh)" "distinct (map ?ks (lh_items lh))" "lh_num lh = length (lh_items lh)"
    "\<forall>it \<in> set (lh_items lh). it_hash it = hash (it_data it)" using assms(1) by (auto simp: lh_wf_def)
  have "placed (lh_num_buckets lh) (lh_buckets t)" unfolding chains
  proof (rule placed_chain [OF wf(1)])
    show i: "i < lh_num_buckets lh" using assms(2) wf(1) by (simp add: placed_def)
    show "unat (it_hash it) mod lh_num_buckets lh = i" if "it \<in> set (take k ?b @ drop (Suc k) ?b)" for it
      using that placedD [OF wf(1) i] by (auto dest: in_set_takeD in_set_dropD)
  qed
  moreover have "distinct (map ?ks (lh_items t))" using list_with(1) [OF old, of ?ks] wf(2) by blast
  moreover have "\<forall>it \<in> set (lh_items t). it_hash it = hash (it_data it)" using list_with(2) [OF old] wf(4) by blast
  moreover have "lh_num t = length (lh_items t)" using list_with(3) [OF old] wf(3) by (simp add: t_def)
  moreover have "24 * lh_num lh < 2 ^ 64" using assms(1) unfolding lh_wf_def by blast
  then have "24 * lh_num t < 2 ^ 64" by (simp add: t_def)
  ultimately show "lh_wf hash key t" using assms(1) unfolding lh_wf_def by (simp add: t_def)
  show "lh_view key t = (lh_view key lh)(key (it_data (?b ! k)) := None)" by (rule view_removed [OF old wf(2)])
  show "0 < lh_num lh" using wf(3) list_with(3) [OF old] by simp
qed

lemma same_tableD:
  assumes "same_table lh t" "lh_wf hash key lh"
  shows "lh_view key t = lh_view key lh" "lh_num t = lh_num lh" "lh_callback_depth t = lh_callback_depth lh"
    "lh_comp t = lh_comp lh" "lh_hash t = lh_hash lh"
proof -
  show "lh_view key t = lh_view key lh"
    by (rule lh_view_cong [OF lh_wf_distinct [OF assms(2)]]) (use assms(1) in \<open>simp add: same_table_def\<close>)
qed (use assms(1) in \<open>simp_all add: same_table_def\<close>)

text \<open>What every operation leaves alone, and the bound on the length of chains it keeps.\<close>

definition keeps_setting :: "(nat \<Rightarrow> nat \<Rightarrow> bool) \<Rightarrow> ('a, 'h, 'c) lhash_st \<Rightarrow> ('a, 'h, 'c) lhash_st \<Rightarrow> bool" where
  "keeps_setting malloc lh t \<longleftrightarrow> lh_callback_depth t = lh_callback_depth lh \<and> lh_comp t = lh_comp lh \<and> lh_hash t = lh_hash lh \<and>
     (lh_callback_depth lh = 0 \<and> lh_num lh < 3 * lh_num_buckets lh \<and> (\<forall>live \<le> lh_num lh + 1. malloc live (16 * lh_num_buckets lh)) \<longrightarrow>
       lh_num t < 3 * lh_num_buckets t)"

lemma resized:
  assumes "lh_wf hash key lh" "malloc_ok malloc"
  obtains t where "lh_maybe_resize malloc lh = (Ok (), t)" "lh_wf hash key t" "lh_view key t = lh_view key lh" "lh_num t = lh_num lh"
    "lh_callback_depth t = lh_callback_depth lh" "lh_comp t = lh_comp lh" "lh_hash t = lh_hash lh"
    "lh_callback_depth lh = 0 \<and> lh_num lh \<le> 3 * lh_num_buckets lh \<and> malloc (lh_num lh) (16 * lh_num_buckets lh) \<longrightarrow>
      lh_num t < 3 * lh_num_buckets t"
  using lh_maybe_resize_run [OF assms] same_tableD [OF _ assms(1)] by metis

lemma lh_insert_run:
  assumes "lh_ok chash ccmp key lh" "malloc_ok malloc"
  obtains (Ok) t where "lh_insert malloc chash ccmp data lh = (Ok (lh_view key lh (key data)), t)" "lh_ok chash ccmp key t"
      "lh_view key t = (lh_view key lh)(key data \<mapsto> data)" "keeps_setting malloc lh t"
      "lh_num t = (if lh_view key lh (key data) = None then lh_num lh + 1 else lh_num lh)"
      "lh_view key lh (key data) \<noteq> None \<or> malloc (lh_num lh) 24"
  | (Fail) "lh_insert malloc chash ccmp data lh = (Fail, lh)" "lh_view key lh (key data) = None" "\<not> malloc (lh_num lh) 24"
proof -
  let ?h = "chash (lh_hash lh)"
  obtain i k where f: "get_next_ptr_and_hash chash ccmp data lh = (Ok (?h data, i, k), lh)"
    "i = unat (?h data) mod lh_num_buckets lh" "i < length (lh_buckets lh)" "k \<le> length (lh_buckets lh ! i)"
    "map_option it_data (item_at (i, k) lh) = lh_view key lh (key data)"
    using find_run [OF assms(1)] .
  let ?b = "lh_buckets lh ! i"
  have wf: "lh_wf ?h key lh" by (rule lh_okD(1) [OF assms(1)])
  have laws: "hash_laws chash ccmp key (lh_hash lh) (lh_comp lh)" using assms(1) by (simp add: lh_ok_def)
  show thesis
  proof (cases "k < length ?b")
    case True
    let ?t = "lh\<lparr>lh_buckets := (lh_buckets lh)[i := ?b[k := (?b ! k)\<lparr>it_data := data\<rparr>]]\<rparr>"
    have view: "lh_view key lh (key data) = Some (it_data (?b ! k))" using f(5) True by (simp add: item_at_def)
    then have k: "key (it_data (?b ! k)) = key data" using lh_view_Some [OF lh_wf_distinct [OF wf]] by blast
    then have h: "?h (it_data (?b ! k)) = ?h data" by (rule lh_okD(3) [OF assms(1)])
    have "lh_insert malloc chash ccmp data lh = (Ok (Some (it_data (?b ! k))), ?t)"
      unfolding lh_insert_def
      by (rule seq_step, rule f(1)) (use True in \<open>simp add: item_at_def put_chain_def seq_basic act_run\<close>)
    then show thesis
      using replace_run [OF wf f(3) True k h] laws view by (intro Ok [of ?t]) (simp_all add: lh_ok_def keeps_setting_def)
  next
    case False
    then have k: "k = length ?b" using f(4) by simp
    have view: "lh_view key lh (key data) = None" using f(5) False by (simp add: item_at_def)
    show thesis
    proof (cases "malloc (lh_num lh) 24")
      case True
      let ?t = "lh\<lparr>lh_buckets := (lh_buckets lh)[i := ?b @ [\<lparr>it_data = data, it_hash = ?h data\<rparr>]], lh_num := lh_num lh + 1\<rparr>"
      have room: "24 * lh_num lh + 24 < 2 ^ 64" using assms(2) True unfolding malloc_ok_def by blast
      note app = append_run [OF wf f(2) view room]
      obtain u where u: "lh_maybe_resize malloc ?t = (Ok (), u)" "lh_wf ?h key u" "lh_view key u = lh_view key ?t" "lh_num u = lh_num ?t"
        "lh_callback_depth u = lh_callback_depth ?t" "lh_comp u = lh_comp ?t" "lh_hash u = lh_hash ?t"
        "lh_callback_depth ?t = 0 \<and> lh_num ?t \<le> 3 * lh_num_buckets ?t \<and> malloc (lh_num ?t) (16 * lh_num_buckets ?t) \<longrightarrow>
          lh_num u < 3 * lh_num_buckets u"
        by (rule resized [OF app(1) assms(2)])
      have num: "(lh_num lh + 1) mod 2 ^ 64 = lh_num lh + 1" using room by simp
      have made: "(lh\<lparr>lh_buckets := (lh_buckets lh)[i := take k ?b @ [\<lparr>it_data = data, it_hash = ?h data\<rparr>]],
          lh_num := (lh_num lh + 1) mod 2 ^ 64\<rparr>) = ?t" unfolding num using k by simp
      have "lh_insert malloc chash ccmp data lh = (Ok None, u)"
        unfolding lh_insert_def
        by (rule seq_step, rule f(1))
          (use False True made u(1) in \<open>simp add: item_at_def put_chain_def seq_basic act_run seq_def\<close>)
      then show thesis using u app(2) laws view True by (intro Ok [of u]) (simp_all add: lh_ok_def keeps_setting_def)
    next
      case no: False
      have "lh_insert malloc chash ccmp data lh = (Fail, lh)"
        unfolding lh_insert_def
        by (rule seq_step, rule f(1)) (use False no in \<open>simp add: item_at_def seq_basic act_run\<close>)
      then show thesis using view no by (rule Fail)
    qed
  qed
qed

lemma lh_delete_run:
  assumes "lh_ok chash ccmp key lh" "malloc_ok malloc"
  obtains t where "lh_delete malloc chash ccmp data lh = (Ok (lh_view key lh (key data)), t)" "lh_ok chash ccmp key t"
      "lh_view key t = (lh_view key lh)(key data := None)" "keeps_setting malloc lh t"
      "lh_num t = (if lh_view key lh (key data) = None then lh_num lh else lh_num lh - 1)"
proof -
  let ?h = "chash (lh_hash lh)"
  obtain i k where f: "get_next_ptr_and_hash chash ccmp data lh = (Ok (?h data, i, k), lh)"
    "i = unat (?h data) mod lh_num_buckets lh" "i < length (lh_buckets lh)" "k \<le> length (lh_buckets lh ! i)"
    "map_option it_data (item_at (i, k) lh) = lh_view key lh (key data)"
    using find_run [OF assms(1)] .
  let ?b = "lh_buckets lh ! i"
  have wf: "lh_wf ?h key lh" by (rule lh_okD(1) [OF assms(1)])
  have laws: "hash_laws chash ccmp key (lh_hash lh) (lh_comp lh)" using assms(1) by (simp add: lh_ok_def)
  show thesis
  proof (cases "k < length ?b")
    case True
    let ?t = "lh\<lparr>lh_buckets := (lh_buckets lh)[i := take k ?b @ drop (Suc k) ?b], lh_num := lh_num lh - 1\<rparr>"
    have view: "lh_view key lh (key data) = Some (it_data (?b ! k))" using f(5) True by (simp add: item_at_def)
    then have k: "key (it_data (?b ! k)) = key data" using lh_view_Some [OF lh_wf_distinct [OF wf]] by blast
    note rem = remove_run [OF wf f(3) True]
    obtain u where u: "lh_maybe_resize malloc ?t = (Ok (), u)" "lh_wf ?h key u" "lh_view key u = lh_view key ?t" "lh_num u = lh_num ?t"
      "lh_callback_depth u = lh_callback_depth ?t" "lh_comp u = lh_comp ?t" "lh_hash u = lh_hash ?t"
      "lh_callback_depth ?t = 0 \<and> lh_num ?t \<le> 3 * lh_num_buckets ?t \<and> malloc (lh_num ?t) (16 * lh_num_buckets ?t) \<longrightarrow>
        lh_num u < 3 * lh_num_buckets u"
      by (rule resized [OF rem(1) assms(2)])
    have num: "(lh_num lh + (2 ^ 64 - 1)) mod 2 ^ 64 = lh_num lh - 1"
      using rem(3) lh_wf_size(3) [OF wf] by (cases "lh_num lh") simp_all
    have made: "(lh\<lparr>lh_buckets := (lh_buckets lh)[i := take k ?b @ drop (Suc k) ?b], lh_num := (lh_num lh + (2 ^ 64 - 1)) mod 2 ^ 64\<rparr>) = ?t"
      unfolding num by simp
    have "lh_delete malloc chash ccmp data lh = (Ok (Some (it_data (?b ! k))), u)"
      unfolding lh_delete_def
      by (rule seq_step, rule f(1)) (use True made u(1) in \<open>simp add: item_at_def put_chain_def seq_basic act_run seq_def\<close>)
    then show thesis using u rem(2) laws view k rem(3)
      by (intro that [of u]) (auto simp: lh_ok_def keeps_setting_def)
  next
    case False
    have view: "lh_view key lh (key data) = None" using f(5) False by (simp add: item_at_def)
    have "lh_delete malloc chash ccmp data lh = (Ok None, lh)"
      unfolding lh_delete_def
      by (rule seq_step, rule f(1)) (use False in \<open>simp add: item_at_def seq_basic act_run\<close>)
    then show thesis using assms(1) view by (intro that [of lh]) (auto simp: keeps_setting_def)
  qed
qed

lemma fold_chains: "fold (\<lambda>chain. fold (\<lambda>cur. func (it_data cur)) chain) cs arg = fold func (map it_data (concat cs)) arg"
  by (induction cs arbitrary: arg) (simp_all add: fold_map comp_def)

lemma lh_doall_run:
  assumes "lh_ok chash ccmp key lh" "malloc_ok malloc"
  shows "\<exists>t. lh_doall_arg malloc func arg lh = (Ok (fold func (map it_data (lh_items lh)) arg), t) \<and> lh_ok chash ccmp key t \<and>
    lh_view key t = lh_view key lh \<and> lh_num t = lh_num lh"
proof -
  let ?up = "\<lambda>lh. if lh_callback_depth lh < UINT_MAX then lh\<lparr>lh_callback_depth := lh_callback_depth lh + 1\<rparr> else lh"
  let ?down = "\<lambda>lh. if lh_callback_depth lh < UINT_MAX then lh\<lparr>lh_callback_depth := lh_callback_depth lh - 1\<rparr> else lh"
  let ?t = "?down (?up lh)"
  have wf: "lh_wf (chash (lh_hash lh)) key ?t" using lh_okD(1) [OF assms(1)] by (simp add: lh_wf_def lh_items_def)
  have same: "lh_items ?t = lh_items lh" "lh_num ?t = lh_num lh" "lh_comp ?t = lh_comp lh" "lh_hash ?t = lh_hash lh"
    by (simp_all add: lh_items_def)
  have len: "length (lh_buckets lh) = lh_num_buckets lh" using lh_okD(1) [OF assms(1)] by (simp add: lh_wf_def placed_def)
  obtain u where u: "lh_maybe_resize malloc ?t = (Ok (), u)" "lh_wf (chash (lh_hash lh)) key u" "lh_view key u = lh_view key ?t"
    "lh_num u = lh_num ?t" "lh_comp u = lh_comp ?t" "lh_hash u = lh_hash ?t"
    by (rule resized [OF wf assms(2)])
  have "lh_doall_arg malloc func arg lh = (Ok (fold func (map it_data (lh_items lh)) arg), u)"
    unfolding lh_doall_arg_def seq_basic by (rule seq_step, rule u(1)) (simp add: act_run fold_chains lh_items_def len)
  moreover have "lh_view key ?t = lh_view key lh" unfolding lh_view_def same(1) ..
  ultimately show ?thesis using u same(2-4) assms(1) by (auto simp: lh_ok_def)
qed

lemma lh_new_run:
  assumes "lh_new malloc h c = Some lh" "hash_laws chash ccmp key h c"
  shows "lh_ok chash ccmp key lh" "lh_view key lh = Map.empty" "lh_num lh = 0" "lh_hash lh = h" "lh_comp lh = c"
    "lh_callback_depth lh = 0" "lh_num lh < 3 * lh_num_buckets lh"
proof -
  have lh: "lh = \<lparr>lh_num = 0, lh_buckets = replicate 16 [], lh_num_buckets = 16, lh_callback_depth = 0, lh_comp = c, lh_hash = h\<rparr>"
    using assms(1) by (simp add: lh_new_def split: if_splits)
  have items: "lh_items lh = []" by (simp add: lh lh_items_def)
  show "lh_view key lh = Map.empty" by (simp add: lh_view_def items)
  show "lh_ok chash ccmp key lh" unfolding lh_ok_def lh_wf_def items using assms(2) by (simp add: lh)
  show "lh_num lh = 0" "lh_hash lh = h" "lh_comp lh = c" "lh_callback_depth lh = 0" "lh_num lh < 3 * lh_num_buckets lh" by (simp_all add: lh)
qed

text \<open>The number of items is the number of keys.\<close>

lemma lh_num_card:
  assumes "lh_wf hash key lh"
  shows "finite (dom (lh_view key lh))" "lh_num lh = card (dom (lh_view key lh))"
proof -
  let ?ks = "map (\<lambda>it. key (it_data it)) (lh_items lh)"
  have "dom (lh_view key lh) = set ?ks" by (auto simp: dom_def lh_view_None image_iff)
  moreover have "card (set ?ks) = length (lh_items lh)" using distinct_card [OF lh_wf_distinct [OF assms]] by simp
  ultimately show "finite (dom (lh_view key lh))" "lh_num lh = card (dom (lh_view key lh))"
    using assms by (simp_all add: lh_wf_def)
qed

section \<open>Dictionaries\<close>

text \<open>What a client of the table relies on.\<close>

datatype 'v command = Get 'v | Put 'v | Del 'v

text \<open>A result is \<open>None\<close> when the call failed.\<close>

primrec run_command :: "('v \<Rightarrow> ('v option, 's) act) \<Rightarrow> ('v \<Rightarrow> ('v option, 's) act) \<Rightarrow> ('v \<Rightarrow> ('v option, 's) act) \<Rightarrow>
    'v command \<Rightarrow> ('v option, 's) act" where
  "run_command get put del (Get v) = get v"
| "run_command get put del (Put v) = put v"
| "run_command get put del (Del v) = del v"

primrec run_commands :: "('v command \<Rightarrow> ('v option, 's) act) \<Rightarrow> 'v command list \<Rightarrow> ('v option option list, 's) act" where
  "run_commands run [] = ret []"
| "run_commands run (c # cs) = (\<lambda>s. case run c s of
     (Ok r, t) \<Rightarrow> seq (run_commands run cs) (\<lambda>rs. ret (Some r # rs)) t
   | (Fail, t) \<Rightarrow> seq (run_commands run cs) (\<lambda>rs. ret (None # rs)) t
   | (Ub, t) \<Rightarrow> (Ub, t)
   | (NoFuel, t) \<Rightarrow> (NoFuel, t))"

text \<open>The answers a finite map gives to the same commands; only the insertion of a new key may fail.\<close>

fun answers :: "('v \<Rightarrow> 'k) \<Rightarrow> 'v command list \<Rightarrow> 'v option option list \<Rightarrow> ('k \<Rightarrow> 'v option) \<Rightarrow> ('k \<Rightarrow> 'v option) \<Rightarrow> bool" where
  "answers key [] rs m n \<longleftrightarrow> rs = [] \<and> n = m"
| "answers key (c # cs) [] m n \<longleftrightarrow> False"
| "answers key (Get v # cs) (r # rs) m n \<longleftrightarrow> r = Some (m (key v)) \<and> answers key cs rs m n"
| "answers key (Put v # cs) (r # rs) m n \<longleftrightarrow>
     (if r = None then m (key v) = None \<and> answers key cs rs m n
      else r = Some (m (key v)) \<and> answers key cs rs (m(key v \<mapsto> v)) n)"
| "answers key (Del v # cs) (r # rs) m n \<longleftrightarrow> r = Some (m (key v)) \<and> answers key cs rs (m(key v := None)) n"

locale dictionary =
  fixes ok :: "'s \<Rightarrow> bool" and view :: "'s \<Rightarrow> 'k \<Rightarrow> 'v option" and key :: "'v \<Rightarrow> 'k"
    and get :: "'v \<Rightarrow> ('v option, 's) act" and put :: "'v \<Rightarrow> ('v option, 's) act" and del :: "'v \<Rightarrow> ('v option, 's) act"
  assumes get_law: "ok s \<Longrightarrow> get v s = (Ok (view s (key v)), s)"
    and put_law: "ok s \<Longrightarrow> (\<exists>t. put v s = (Ok (view s (key v)), t) \<and> ok t \<and> view t = (view s)(key v \<mapsto> v)) \<or>
      (put v s = (Fail, s) \<and> view s (key v) = None)"
    and del_law: "ok s \<Longrightarrow> \<exists>t. del v s = (Ok (view s (key v)), t) \<and> ok t \<and> view t = (view s)(key v := None)"
begin

lemma run_answers:
  assumes "ok s"
  shows "\<exists>rs t. run_commands (run_command get put del) cs s = (Ok rs, t) \<and> ok t \<and> answers key cs rs (view s) (view t)"
  using assms
proof (induction cs arbitrary: s)
  case Nil
  then show ?case by (simp add: act_run)
next
  case (Cons c cs)
  have step: "?case" if run: "run_command get put del c s = (Ok r, t)" "ok t"
    and replay: "\<And>rs n. answers key cs rs (view t) n \<Longrightarrow> answers key (c # cs) (Some r # rs) (view s) n" for r t
  proof -
    obtain rs u where u: "run_commands (run_command get put del) cs t = (Ok rs, u)" "ok u" "answers key cs rs (view t) (view u)"
      using Cons.IH [OF run(2)] by blast
    have "run_commands (run_command get put del) (c # cs) s = (Ok (Some r # rs), u)"
      using run(1) u(1) by (simp add: seq_def act_run)
    then show ?thesis using u(2) replay [OF u(3)] by blast
  qed
  show ?case
  proof (cases c)
    case (Get v)
    then show ?thesis using get_law [OF Cons.prems] Cons.prems by (intro step) auto
  next
    case (Del v)
    obtain t where t: "del v s = (Ok (view s (key v)), t)" "ok t" "view t = (view s)(key v := None)" using del_law [OF Cons.prems] by blast
    then show ?thesis using Del by (intro step [of "view s (key v)" t]) auto
  next
    case (Put v)
    from put_law [OF Cons.prems, of v] show ?thesis
    proof
      assume "\<exists>t. put v s = (Ok (view s (key v)), t) \<and> ok t \<and> view t = (view s)(key v \<mapsto> v)"
      then obtain t where "put v s = (Ok (view s (key v)), t)" "ok t" "view t = (view s)(key v \<mapsto> v)" by blast
      then show ?thesis using Put by (intro step [of "view s (key v)" t]) auto
    next
      assume fails: "put v s = (Fail, s) \<and> view s (key v) = None"
      obtain rs u where u: "run_commands (run_command get put del) cs s = (Ok rs, u)" "ok u" "answers key cs rs (view s) (view u)"
        using Cons.IH [OF Cons.prems] by blast
      have "run_commands (run_command get put del) (c # cs) s = (Ok (None # rs), u)"
        using fails u(1) Put by (simp add: seq_def act_run)
      then show ?thesis using u(2,3) fails Put by auto
    qed
  qed
qed

end

interpretation lh: dictionary "\<lambda>lh. malloc_ok malloc \<and> lh_ok chash ccmp key lh" "lh_view key" key
  "lh_retrieve chash ccmp" "lh_insert malloc chash ccmp" "lh_delete malloc chash ccmp"
proof unfold_locales
  fix lh v
  assume ok: "malloc_ok malloc \<and> lh_ok chash ccmp key lh"
  then show "lh_retrieve chash ccmp v lh = (Ok (lh_view key lh (key v)), lh)" by (simp add: lh_retrieve_run)
  show "(\<exists>t. lh_insert malloc chash ccmp v lh = (Ok (lh_view key lh (key v)), t) \<and> (malloc_ok malloc \<and> lh_ok chash ccmp key t) \<and>
      lh_view key t = (lh_view key lh)(key v \<mapsto> v)) \<or> (lh_insert malloc chash ccmp v lh = (Fail, lh) \<and> lh_view key lh (key v) = None)"
    by (rule lh_insert_run [of chash ccmp key lh malloc v]) (use ok in auto)
  show "\<exists>t. lh_delete malloc chash ccmp v lh = (Ok (lh_view key lh (key v)), t) \<and> (malloc_ok malloc \<and> lh_ok chash ccmp key t) \<and>
      lh_view key t = (lh_view key lh)(key v := None)"
    by (rule lh_delete_run [of chash ccmp key lh malloc v]) (use ok in auto)
qed

end
