(* ===== verification/Lhash_Props.thy ===== *)
theory Lhash_Props
  imports Lhash_Map
begin

text \<open>
  The properties of the hash table.
\<close>

text \<open>
  C32. A hash table whose functions decide equality of keys is a finite map: looking up, inserting, deleting
  and visiting the items return what the map determines and change it as they should, through any resize;
  an insertion fails only when a new item finds no memory, and then changes nothing; and with memory for
  the resize, chains keep fewer than three items on average.
\<close>

theorem lhash_is_map:
  assumes "lh_ok chash ccmp key lh" "malloc_ok malloc"
  shows "lh_retrieve chash ccmp d lh = (Ok (lh_view key lh (key d)), lh) \<and>
    (\<exists>t. lh_insert malloc chash ccmp d lh = (if lh_view key lh (key d) = None \<and> \<not> malloc (lh_num lh) 24 then (Fail, lh)
        else (Ok (lh_view key lh (key d)), t)) \<and>
      lh_ok chash ccmp key t \<and> lh_view key t = (lh_view key lh)(key d := if fst (lh_insert malloc chash ccmp d lh) = Fail
        then lh_view key lh (key d) else Some d) \<and> keeps_setting malloc lh t) \<and>
    (\<exists>t. lh_delete malloc chash ccmp d lh = (Ok (lh_view key lh (key d)), t) \<and>
      lh_ok chash ccmp key t \<and> lh_view key t = (lh_view key lh)(key d := None) \<and> keeps_setting malloc lh t) \<and>
    (\<exists>t xs. lh_doall_arg malloc func arg lh = (Ok (fold func xs arg), t) \<and> distinct (map key xs) \<and> set xs = ran (lh_view key lh) \<and>
      lh_ok chash ccmp key t \<and> lh_view key t = lh_view key lh)"
proof (intro conjI)
  show "lh_retrieve chash ccmp d lh = (Ok (lh_view key lh (key d)), lh)" by (rule lh_retrieve_run [OF assms(1)])
  show "\<exists>t. lh_insert malloc chash ccmp d lh = (if lh_view key lh (key d) = None \<and> \<not> malloc (lh_num lh) 24 then (Fail, lh)
        else (Ok (lh_view key lh (key d)), t)) \<and>
      lh_ok chash ccmp key t \<and> lh_view key t = (lh_view key lh)(key d := if fst (lh_insert malloc chash ccmp d lh) = Fail
        then lh_view key lh (key d) else Some d) \<and> keeps_setting malloc lh t"
  proof (rule lh_insert_run [OF assms, where data = d], goal_cases)
    case (1 t)
    then show ?case by (intro exI [of _ t]) auto
  next
    case 2
    then show ?case using assms(1) by (intro exI [of _ lh]) (auto simp: keeps_setting_def)
  qed
  show "\<exists>t. lh_delete malloc chash ccmp d lh = (Ok (lh_view key lh (key d)), t) \<and>
      lh_ok chash ccmp key t \<and> lh_view key t = (lh_view key lh)(key d := None) \<and> keeps_setting malloc lh t"
    by (rule lh_delete_run [OF assms, where data = d]) blast
  have wf: "lh_wf (chash (lh_hash lh)) key lh" by (rule lh_okD(1) [OF assms(1)])
  have "distinct (map key (map it_data (lh_items lh)))" using lh_wf_distinct [OF wf] by (simp add: comp_def)
  moreover have "set (map it_data (lh_items lh)) = ran (lh_view key lh)"
    by (auto simp: ran_def lh_view_Some [OF lh_wf_distinct [OF wf]])
  ultimately show "\<exists>t xs. lh_doall_arg malloc func arg lh = (Ok (fold func xs arg), t) \<and> distinct (map key xs) \<and>
      set xs = ran (lh_view key lh) \<and> lh_ok chash ccmp key t \<and> lh_view key t = lh_view key lh"
    using lh_doall_run [OF assms, of func arg] by blast
qed

text \<open>A table of words hashed to their parity, which puts them into two chains.\<close>

definition parity_hash :: "unit \<Rightarrow> nat \<Rightarrow> u32" where
  "parity_hash h a = of_nat (a mod 2)"

definition nat_cmp :: "unit \<Rightarrow> nat \<Rightarrow> nat \<Rightarrow> int" where
  "nat_cmp c a b = int a - int b"

definition small_malloc :: "nat \<Rightarrow> nat \<Rightarrow> bool" where
  "small_malloc live n \<longleftrightarrow> live < 100 \<and> n < 10000"

definition sample_table :: "(nat, unit, unit) lhash_st" where
  "sample_table = \<lparr>lh_num = 2, lh_buckets = [[\<lparr>it_data = 6, it_hash = 0\<rparr>, \<lparr>it_data = 4, it_hash = 0\<rparr>]] @ replicate 15 [],
     lh_num_buckets = 16, lh_callback_depth = 0, lh_comp = (), lh_hash = ()\<rparr>"

lemma sample_laws: "hash_laws parity_hash nat_cmp id () ()" "malloc_ok small_malloc"
  by (auto simp: hash_laws_def nat_cmp_def malloc_ok_def small_malloc_def)

lemma sample_table_ok: "lh_ok parity_hash nat_cmp id sample_table"
proof -
  have items: "lh_items sample_table = [\<lparr>it_data = 6, it_hash = 0\<rparr>, \<lparr>it_data = 4, it_hash = 0\<rparr>]"
    by (simp add: sample_table_def lh_items_def)
  have "placed 16 (lh_buckets sample_table)"
    by (auto simp: sample_table_def placed_def nth_Cons split: nat.splits)
  then show ?thesis
    unfolding lh_ok_def lh_wf_def items using sample_laws(1) by (simp add: sample_table_def parity_hash_def)
qed

lemma sample_view: "lh_view id sample_table = [4 \<mapsto> 4, 6 \<mapsto> 6]"
  by (auto simp: lh_view_def lh_items_def sample_table_def)

lemma sample_num: "lh_num sample_table = 2"
  by (simp add: sample_table_def)

theorem lhash_is_map_witness:
  "lh_retrieve parity_hash nat_cmp 4 sample_table = (Ok (Some 4), sample_table) \<and>
   fst (lh_delete small_malloc parity_hash nat_cmp 6 sample_table) = Ok (Some 6) \<and>
   fst (lh_insert small_malloc parity_hash nat_cmp 8 sample_table) = Ok None"
proof (intro conjI)
  note facts = lhash_is_map [OF sample_table_ok sample_laws(2), where func = "\<lambda>a b. b" and arg = "()"]
  show "lh_retrieve parity_hash nat_cmp 4 sample_table = (Ok (Some 4), sample_table)"
    using facts [where d = 4] by (simp add: sample_view)
  show "fst (lh_delete small_malloc parity_hash nat_cmp 6 sample_table) = Ok (Some 6)"
    using facts [where d = 6] by (auto simp: sample_view)
  show "fst (lh_insert small_malloc parity_hash nat_cmp 8 sample_table) = Ok None"
    using facts [where d = 8] by (auto simp: sample_view small_malloc_def sample_num)
qed

text \<open>
  C33. Well-formedness: a new table, after any sequence of insertions, deletions and look-ups, of which
  some insertions may have found no memory, keeps every item in the bucket of its hash value, under one key
  only, and counts them; and all answers are those of a finite map.
\<close>

theorem lhash_well_formed:
  assumes "lh_new malloc h c = Some lh" "hash_laws chash ccmp key h c" "malloc_ok malloc"
  shows "\<exists>rs t. run_commands (run_command (lh_retrieve chash ccmp) (lh_insert malloc chash ccmp) (lh_delete malloc chash ccmp)) cs lh = (Ok rs, t) \<and>
    answers key cs rs Map.empty (lh_view key t) \<and> lh_num_items t = (Ok (card (dom (lh_view key t))), t) \<and>
    length (lh_buckets t) = lh_num_buckets t \<and> 16 \<le> lh_num_buckets t \<and>
    (\<forall>i < lh_num_buckets t. \<forall>it \<in> set (lh_buckets t ! i). it_hash it = chash (lh_hash t) (it_data it) \<and>
      unat (it_hash it) mod lh_num_buckets t = i) \<and>
    distinct (map (\<lambda>it. key (it_data it)) (concat (lh_buckets t)))"
proof -
  have new: "lh_ok chash ccmp key lh" "lh_view key lh = Map.empty" using lh_new_run [OF assms(1,2)] by blast+
  obtain rs t where t: "run_commands (run_command (lh_retrieve chash ccmp) (lh_insert malloc chash ccmp) (lh_delete malloc chash ccmp)) cs lh = (Ok rs, t)"
    "lh_ok chash ccmp key t" "answers key cs rs Map.empty (lh_view key t)"
    using lh.run_answers [of malloc chash ccmp key lh cs] new assms(3) by auto
  have wf: "lh_wf (chash (lh_hash t)) key t" by (rule lh_okD(1) [OF t(2)])
  have "lh_num_items t = (Ok (card (dom (lh_view key t))), t)"
    using lh_num_card(2) [OF wf] by (simp add: lh_num_items_def act_run)
  moreover have "it_hash it = chash (lh_hash t) (it_data it) \<and> unat (it_hash it) mod lh_num_buckets t = i"
    if "i < lh_num_buckets t" "it \<in> set (lh_buckets t ! i)" for i it
  proof -
    have "it \<in> set (lh_items t)" using that wf by (auto simp: lh_items_def lh_wf_def placed_def)
    then have "it_hash it = chash (lh_hash t) (it_data it)" using wf unfolding lh_wf_def by blast
    moreover have "placed (lh_num_buckets t) (lh_buckets t)" using wf unfolding lh_wf_def by blast
    ultimately show ?thesis using that placedD by blast
  qed
  moreover have "length (lh_buckets t) = lh_num_buckets t" "16 \<le> lh_num_buckets t"
    "distinct (map (\<lambda>it. key (it_data it)) (concat (lh_buckets t)))"
    using wf by (simp_all add: lh_wf_def placed_def lh_items_def)
  ultimately show ?thesis using t(1,3) by blast
qed

theorem lhash_well_formed_witness:
  "\<exists>lh rs t. lh_new small_malloc () () = Some lh \<and>
    run_commands (run_command (lh_retrieve parity_hash nat_cmp) (lh_insert small_malloc parity_hash nat_cmp)
      (lh_delete small_malloc parity_hash nat_cmp)) [Put 4, Put 6, Get 4, Del 4, Get 4] lh = (Ok rs, t) \<and>
    answers id [Put 4, Put 6, Get 4, Del 4, Get 4] rs Map.empty (lh_view id t)"
proof -
  obtain lh :: "(nat, unit, unit) lhash_st" where "lh_new small_malloc () () = Some lh" by (simp add: lh_new_def small_malloc_def)
  then show ?thesis using lhash_well_formed [OF _ sample_laws] by blast
qed

end
