(* ===== verification/Pool.thy ===== *)
theory Pool
  imports Refcount Lhash Cbb
begin

text \<open>
  Pools of shared buffers (crypto/pool/pool.c): a buffer is immutable, counts its references and, when it
  belongs to a pool, is the only buffer of the pool with its contents; the pool finds it in a hash table.

  Buffers live in a heap and are named by their index; a freed one is \<open>None\<close>.  There is one pool, and a
  buffer records whether it belongs to it.  The length of a buffer is the length of its data.  The table
  holds pointers, so its hash and comparison functions read the heap; an access of the table while it holds
  a dangling pointer is undefined.  The parts of \<open>CRYPTO_BUFFER_new\<close> between which the lock of the pool is
  released are definitions of their own.
\<close>

section \<open>Data\<close>

record crypto_buffer_st =
  cb_pooled :: bool
  cb_data :: "byte list"
  cb_references :: nat

type_synonym buffer_heap = "crypto_buffer_st option list"

type_synonym buffer_table = "(nat, buffer_heap \<Rightarrow> nat \<Rightarrow> u32, buffer_heap \<Rightarrow> nat \<Rightarrow> nat \<Rightarrow> int) lhash_st"

record pool_store =
  pool_heap :: buffer_heap
  pool_bufs :: buffer_table
  pool_malloc :: "nat \<Rightarrow> nat \<Rightarrow> bool"
  pool_fresh :: "nat \<Rightarrow> byte"

abbreviation (input) crypto_buffer_size :: nat where "crypto_buffer_size \<equiv> 32"
abbreviation (input) crypto_buffer_pool_size :: nat where "crypto_buffer_pool_size \<equiv> 64"

definition buf_at :: "buffer_heap \<Rightarrow> nat \<Rightarrow> crypto_buffer_st option" where
  "buf_at heap p = (if p < length heap then heap ! p else None)"

definition data_at :: "buffer_heap \<Rightarrow> nat \<Rightarrow> byte list" where
  "data_at heap p = (case buf_at heap p of None \<Rightarrow> [] | Some b \<Rightarrow> cb_data b)"

definition CRYPTO_BUFFER_hash :: "buffer_heap \<Rightarrow> nat \<Rightarrow> u32" where
  "CRYPTO_BUFFER_hash heap buf = OPENSSL_hash32 (data_at heap buf)"

definition CRYPTO_BUFFER_cmp :: "buffer_heap \<Rightarrow> nat \<Rightarrow> nat \<Rightarrow> int" where
  "CRYPTO_BUFFER_cmp heap a b =
     (if length (data_at heap a) \<noteq> length (data_at heap b) then 1 else OPENSSL_memcmp (data_at heap a) (data_at heap b))"

section \<open>Access\<close>

definition call_hash :: "buffer_heap \<Rightarrow> (buffer_heap \<Rightarrow> nat \<Rightarrow> u32) \<Rightarrow> nat \<Rightarrow> u32" where
  "call_hash heap hash a = hash heap a"

definition call_cmp :: "buffer_heap \<Rightarrow> (buffer_heap \<Rightarrow> nat \<Rightarrow> nat \<Rightarrow> int) \<Rightarrow> nat \<Rightarrow> nat \<Rightarrow> int" where
  "call_cmp heap cmp a b = cmp heap a b"

definition on_bufs :: "(buffer_heap \<Rightarrow> ('r, buffer_table) act) \<Rightarrow> ('r, pool_store) act" where
  "on_bufs f = (\<lambda>s.
     if list_all (list_all (\<lambda>it. buf_at (pool_heap s) (it_data it) \<noteq> None)) (lh_buckets (pool_bufs s))
     then (case f (pool_heap s) (pool_bufs s) of (r, t) \<Rightarrow> (r, s\<lparr>pool_bufs := t\<rparr>))
     else (Ub, s))"

definition with_buf :: "nat \<Rightarrow> (crypto_buffer_st \<Rightarrow> ('r, pool_store) act) \<Rightarrow> ('r, pool_store) act" where
  "with_buf p f = (\<lambda>s. case buf_at (pool_heap s) p of None \<Rightarrow> (Ub, s) | Some b \<Rightarrow> f b s)"

definition put_references :: "nat \<Rightarrow> nat \<Rightarrow> (unit, pool_store) act" where
  "put_references p n = with_buf p (\<lambda>b. update (\<lambda>s. s\<lparr>pool_heap := (pool_heap s)[p := Some (b\<lparr>cb_references := n\<rparr>)]\<rparr>))"

definition free_buf :: "nat \<Rightarrow> (unit, pool_store) act" where
  "free_buf p = with_buf p (\<lambda>b. update (\<lambda>s. s\<lparr>pool_heap := (pool_heap s)[p := None]\<rparr>))"

section \<open>The pool\<close>

text \<open>A new pool has an empty heap around it; the result is \<open>None\<close> without memory.\<close>

definition CRYPTO_BUFFER_POOL_new :: "(nat \<Rightarrow> nat \<Rightarrow> bool) \<Rightarrow> (nat \<Rightarrow> byte) \<Rightarrow> pool_store option" where
  "CRYPTO_BUFFER_POOL_new malloc fresh =
     (if \<not> malloc 0 crypto_buffer_pool_size then None
      else case lh_new malloc CRYPTO_BUFFER_hash CRYPTO_BUFFER_cmp of
          None \<Rightarrow> None
        | Some bufs \<Rightarrow> Some \<lparr>pool_heap = [], pool_bufs = bufs, pool_malloc = malloc, pool_fresh = fresh\<rparr>)"

text \<open>Freeing a pool that still has buffers is a failed assertion.\<close>

definition CRYPTO_BUFFER_POOL_free :: "(unit, pool_store) act" where
  "CRYPTO_BUFFER_POOL_free = seq (on_bufs (\<lambda>heap. lh_num_items)) (\<lambda>n. if n \<noteq> 0 then undef else ret ())"

text \<open>Under the read lock: a buffer with the same contents gets another reference.\<close>

definition buffer_lookup :: "byte list \<Rightarrow> (nat option, pool_store) act" where
  "buffer_lookup data =
     seq (on_bufs (\<lambda>heap.
       let tmp = heap @ [Some \<lparr>cb_pooled = False, cb_data = data, cb_references = 0\<rparr>]
       in lh_retrieve (call_hash tmp) (call_cmp tmp) (length heap))) (\<lambda>duplicate.
     case duplicate of
       None \<Rightarrow> ret None
     | Some p \<Rightarrow> seq (with_buf p (\<lambda>b. put_references p (CRYPTO_refcount_inc (cb_references b)))) (\<lambda>_. ret (Some p)))"

text \<open>Without the lock: the new buffer.\<close>

definition buffer_make :: "byte list \<Rightarrow> bool \<Rightarrow> (nat, pool_store) act" where
  "buffer_make data pooled = seq (query id) (\<lambda>s.
     if \<not> pool_malloc s (lh_num (pool_bufs s)) crypto_buffer_size then fail
     else if data \<noteq> [] \<and> \<not> pool_malloc s (lh_num (pool_bufs s)) (length data) then fail
     else seq (update (\<lambda>s. s\<lparr>pool_heap := pool_heap s @ [Some \<lparr>cb_pooled = pooled, cb_data = data, cb_references = 1\<rparr>]\<rparr>))
       (\<lambda>_. ret (length (pool_heap s))))"

text \<open>Under the write lock: the buffer goes into the pool unless another thread was faster or there is no memory.\<close>

definition buffer_insert :: "nat \<Rightarrow> (nat, pool_store) act" where
  "buffer_insert buf = with_buf buf (\<lambda>_.
     seq (on_bufs (\<lambda>heap. lh_retrieve (call_hash heap) (call_cmp heap) buf)) (\<lambda>duplicate. seq (query pool_malloc) (\<lambda>malloc.
     case duplicate of
       None \<Rightarrow> (\<lambda>s. case on_bufs (\<lambda>heap. lh_insert malloc (call_hash heap) (call_cmp heap) buf) s of
           (Ok old, t) \<Rightarrow> if old \<noteq> None then (Ub, t) else (Ok buf, t)
         | (Fail, t) \<Rightarrow> seq (free_buf buf) (\<lambda>_. fail) t
         | (Ub, t) \<Rightarrow> (Ub, t)
         | (NoFuel, t) \<Rightarrow> (NoFuel, t))
     | Some p \<Rightarrow> seq (with_buf p (\<lambda>b. put_references p (CRYPTO_refcount_inc (cb_references b)))) (\<lambda>_.
         seq (free_buf buf) (\<lambda>_. ret p)))))"

definition CRYPTO_BUFFER_new :: "byte list \<Rightarrow> bool \<Rightarrow> (nat, pool_store) act" where
  "CRYPTO_BUFFER_new data pool =
     (if pool then seq (buffer_lookup data) (\<lambda>duplicate.
        case duplicate of Some p \<Rightarrow> ret p | None \<Rightarrow> seq (buffer_make data True) buffer_insert)
      else buffer_make data False)"

text \<open>A buffer whose bytes the caller fills in.\<close>

definition CRYPTO_BUFFER_alloc :: "nat \<Rightarrow> (nat, pool_store) act" where
  "CRYPTO_BUFFER_alloc len = seq (query id) (\<lambda>s.
     if \<not> pool_malloc s (lh_num (pool_bufs s)) crypto_buffer_size then fail
     else if len \<noteq> 0 \<and> \<not> pool_malloc s (lh_num (pool_bufs s)) len then fail
     else seq (update (\<lambda>s. s\<lparr>pool_heap := pool_heap s @ [Some \<lparr>cb_pooled = False, cb_data = map (pool_fresh s) [0..<len], cb_references = 1\<rparr>]\<rparr>))
       (\<lambda>_. ret (length (pool_heap s))))"

definition CRYPTO_BUFFER_new_from_CBS :: "CBS \<Rightarrow> bool \<Rightarrow> (nat, pool_store) act" where
  "CRYPTO_BUFFER_new_from_CBS cbs pool = seq (deref (CBS_data cbs) (CBS_len cbs)) (\<lambda>data. CRYPTO_BUFFER_new data pool)"

definition CRYPTO_BUFFER_free :: "nat \<Rightarrow> (unit, pool_store) act" where
  "CRYPTO_BUFFER_free buf = with_buf buf (\<lambda>b.
     case CRYPTO_refcount_dec_and_test_zero (cb_references b) of
       None \<Rightarrow> undef
     | Some (zero, count) \<Rightarrow> seq (put_references buf count) (\<lambda>_.
         if \<not> zero then ret ()
         else if \<not> cb_pooled b then free_buf buf
         else seq (query pool_malloc) (\<lambda>malloc.
           seq (on_bufs (\<lambda>heap. lh_delete malloc (call_hash heap) (call_cmp heap) buf)) (\<lambda>found.
           if found \<noteq> Some buf then undef else free_buf buf))))"

definition CRYPTO_BUFFER_up_ref :: "nat \<Rightarrow> (unit, pool_store) act" where
  "CRYPTO_BUFFER_up_ref buf = with_buf buf (\<lambda>b. put_references buf (CRYPTO_refcount_inc (cb_references b)))"

definition CRYPTO_BUFFER_data :: "nat \<Rightarrow> (byte list, pool_store) act" where
  "CRYPTO_BUFFER_data buf = with_buf buf (\<lambda>b. ret (cb_data b))"

definition CRYPTO_BUFFER_len :: "nat \<Rightarrow> (nat, pool_store) act" where
  "CRYPTO_BUFFER_len buf = with_buf buf (\<lambda>b. ret (length (cb_data b)))"

definition CRYPTO_BUFFER_init_CBS :: "nat \<Rightarrow> (CBS, pool_store) act" where
  "CRYPTO_BUFFER_init_CBS buf = with_buf buf (\<lambda>b. ret (CBS_init (cb_data b) (length (cb_data b))))"

end
