(* ===== verification/Pool_Shared.thy ===== *)
theory Pool_Shared
  imports Pool Lhash_Map
begin

text \<open>
  Buffers of a pool are shared: in every interleaving of threads that create, copy and free references,
  equal contents are one buffer, and a buffer lives exactly as long as somebody holds it.
\<close>

section \<open>The table of a pool\<close>

lemma memcmp_0: "length as = length bs \<Longrightarrow> OPENSSL_memcmp as bs = 0 \<longleftrightarrow> as = bs"
  by (induction as bs rule: list_induct2) (auto simp: OPENSSL_memcmp_def)

lemma buffer_laws: "hash_laws (call_hash heap) (call_cmp heap) (data_at heap) CRYPTO_BUFFER_hash CRYPTO_BUFFER_cmp"
  by (auto simp: hash_laws_def call_hash_def call_cmp_def CRYPTO_BUFFER_hash_def CRYPTO_BUFFER_cmp_def memcmp_0)

definition hash_at :: "buffer_heap \<Rightarrow> nat \<Rightarrow> u32" where
  "hash_at heap p = OPENSSL_hash32 (data_at heap p)"

lemma call_hash_at: "call_hash heap CRYPTO_BUFFER_hash = hash_at heap"
  by (rule ext) (simp add: call_hash_def CRYPTO_BUFFER_hash_def hash_at_def)

text \<open>
  The table is well formed over a heap, and holds exactly the live buffers of the pool that are published,
  that is, not among those a thread is still about to insert.
\<close>

definition bufs_ok :: "buffer_heap \<Rightarrow> buffer_table \<Rightarrow> bool" where
  "bufs_ok heap bufs \<longleftrightarrow> lh_hash bufs = CRYPTO_BUFFER_hash \<and> lh_comp bufs = CRYPTO_BUFFER_cmp \<and>
     lh_wf (hash_at heap) (data_at heap) bufs \<and> (\<forall>it \<in> set (lh_items bufs). buf_at heap (it_data it) \<noteq> None)"

definition published :: "nat set \<Rightarrow> buffer_heap \<Rightarrow> nat \<Rightarrow> byte list \<Rightarrow> bool" where
  "published made heap p d \<longleftrightarrow> p \<notin> made \<and> (\<exists>b. buf_at heap p = Some b \<and> cb_pooled b \<and> cb_data b = d)"

definition pool_ok :: "nat set \<Rightarrow> pool_store \<Rightarrow> bool" where
  "pool_ok made s \<longleftrightarrow> malloc_ok (pool_malloc s) \<and> bufs_ok (pool_heap s) (pool_bufs s) \<and>
     (\<forall>d p. lh_view (data_at (pool_heap s)) (pool_bufs s) d = Some p \<longleftrightarrow> published made (pool_heap s) p d)"

lemma bufs_okD:
  assumes "bufs_ok heap bufs"
  shows "lh_ok (call_hash heap) (call_cmp heap) (data_at heap) bufs"
  using assms buffer_laws by (simp add: bufs_ok_def lh_ok_def call_hash_at)

lemma bufs_okI:
  assumes "lh_ok (call_hash heap) (call_cmp heap) (data_at heap) bufs" "lh_hash bufs = CRYPTO_BUFFER_hash" "lh_comp bufs = CRYPTO_BUFFER_cmp"
    "\<And>d p. lh_view (data_at heap) bufs d = Some p \<Longrightarrow> buf_at heap p \<noteq> None"
  shows "bufs_ok heap bufs"
proof -
  have wf: "lh_wf (hash_at heap) (data_at heap) bufs"
    using assms(1,2) by (simp add: lh_ok_def call_hash_at)
  have "buf_at heap (it_data it) \<noteq> None" if "it \<in> set (lh_items bufs)" for it
    using assms(4) [of "data_at heap (it_data it)" "it_data it"] that lh_view_Some [OF lh_wf_distinct [OF wf]] by blast
  then show ?thesis using wf assms(2,3) by (simp add: bufs_ok_def)
qed

text \<open>A heap that gives the pointers in the table the same contents gives the same table.\<close>

lemma rekeyed:
  assumes "bufs_ok heap bufs" "\<And>it. it \<in> set (lh_items bufs) \<Longrightarrow> data_at heap' (it_data it) = data_at heap (it_data it)"
  shows "lh_wf (hash_at heap') (data_at heap') bufs" "lh_view (data_at heap') bufs = lh_view (data_at heap) bufs"
proof -
  have keys: "map (\<lambda>it. data_at heap' (it_data it)) (lh_items bufs) = map (\<lambda>it. data_at heap (it_data it)) (lh_items bufs)"
    using assms(2) by simp
  show "lh_wf (hash_at heap') (data_at heap') bufs"
    using assms unfolding bufs_ok_def lh_wf_def keys by (simp add: hash_at_def)
  have "map (\<lambda>it. (data_at heap' (it_data it), it_data it)) (lh_items bufs) = map (\<lambda>it. (data_at heap (it_data it), it_data it)) (lh_items bufs)"
    using assms(2) by simp
  then show "lh_view (data_at heap') bufs = lh_view (data_at heap) bufs" unfolding lh_view_def by (rule arg_cong)
qed

lemma on_bufs_run:
  assumes "bufs_ok (pool_heap s) (pool_bufs s)"
  shows "on_bufs f s = (case f (pool_heap s) (pool_bufs s) of (r, t) \<Rightarrow> (r, s\<lparr>pool_bufs := t\<rparr>))"
  using assms by (auto simp: on_bufs_def bufs_ok_def lh_items_def list_all_iff)

lemma buf_at_update: "p < length heap \<Longrightarrow> buf_at (heap[p := x]) q = (if q = p then x else buf_at heap q)"
  by (auto simp: buf_at_def)

lemma buf_at_append: "buf_at (heap @ [x]) q = (if q = length heap then x else buf_at heap q)"
  by (auto simp: buf_at_def nth_append)

lemma buf_at_live: "buf_at heap p = Some b \<Longrightarrow> p < length heap"
  by (simp add: buf_at_def split: if_splits)

text \<open>Changes of the heap that the table does not see.\<close>

lemma heap_change:
  assumes "pool_ok made s" "\<And>q d. published made' heap' q d \<longleftrightarrow> published made (pool_heap s) q d"
  shows "pool_ok made' (s\<lparr>pool_heap := heap'\<rparr>)"
proof -
  have s: "bufs_ok (pool_heap s) (pool_bufs s)" "malloc_ok (pool_malloc s)"
    "\<And>d p. lh_view (data_at (pool_heap s)) (pool_bufs s) d = Some p \<longleftrightarrow> published made (pool_heap s) p d"
    using assms(1) by (auto simp: pool_ok_def)
  have wf: "lh_wf (hash_at (pool_heap s)) (data_at (pool_heap s)) (pool_bufs s)" using s(1) by (simp add: bufs_ok_def)
  have old: "published made (pool_heap s) (it_data it) (data_at (pool_heap s) (it_data it))" if "it \<in> set (lh_items (pool_bufs s))" for it
    using s(3) that lh_view_Some [OF lh_wf_distinct [OF wf]] by blast
  then have new: "published made' heap' (it_data it) (data_at (pool_heap s) (it_data it))" if "it \<in> set (lh_items (pool_bufs s))" for it
    using that assms(2) by blast
  have same: "data_at heap' (it_data it) = data_at (pool_heap s) (it_data it)" if "it \<in> set (lh_items (pool_bufs s))" for it
    using new [OF that] by (auto simp: published_def data_at_def)
  have "\<forall>it \<in> set (lh_items (pool_bufs s)). buf_at heap' (it_data it) \<noteq> None" using new by (auto simp: published_def)
  then have "bufs_ok heap' (pool_bufs s)" using rekeyed(1) [OF s(1) same] s(1) by (simp add: bufs_ok_def)
  then show ?thesis using s(2,3) rekeyed(2) [OF s(1) same] assms(2) by (simp add: pool_ok_def)
qed

lemma published_unique:
  assumes "pool_ok made s" "published made (pool_heap s) p d" "published made (pool_heap s) q d"
  shows "p = q"
  using assms unfolding pool_ok_def by (metis option.inject)

section \<open>The operations\<close>

definition set_refs :: "nat \<Rightarrow> nat \<Rightarrow> pool_store \<Rightarrow> pool_store" where
  "set_refs p n s = s\<lparr>pool_heap := (pool_heap s)[p := map_option (\<lambda>b. b\<lparr>cb_references := n\<rparr>) (pool_heap s ! p)]\<rparr>"

lemma buf_at_set_refs: "buf_at (pool_heap (set_refs p n s)) q =
    (if q = p then map_option (\<lambda>b. b\<lparr>cb_references := n\<rparr>) (buf_at (pool_heap s) p) else buf_at (pool_heap s) q)"
  by (auto simp: buf_at_def set_refs_def)

lemma set_refs_other [simp]: "pool_bufs (set_refs p n s) = pool_bufs s" "pool_malloc (set_refs p n s) = pool_malloc s"
  by (simp_all add: set_refs_def)

lemma put_references_run: "buf_at (pool_heap s) p = Some b \<Longrightarrow> put_references p n s = (Ok (), set_refs p n s)"
  by (auto simp: put_references_def with_buf_def act_run set_refs_def buf_at_def split: if_splits)

lemma set_refs_ok:
  assumes "pool_ok made s"
  shows "pool_ok made (set_refs p n s)"
proof -
  have "published made (pool_heap (set_refs p n s)) q d \<longleftrightarrow> published made (pool_heap s) q d" for q d
    by (auto simp: published_def buf_at_set_refs)
  from heap_change [OF assms this] show ?thesis by (simp add: set_refs_def)
qed

lemma with_buf_run: "buf_at (pool_heap s) p = Some b \<Longrightarrow> with_buf p f s = f b s"
  by (simp add: with_buf_def)

definition gone :: "nat \<Rightarrow> pool_store \<Rightarrow> pool_store" where
  "gone p s = s\<lparr>pool_heap := (pool_heap s)[p := None]\<rparr>"

lemma gone_other [simp]: "pool_bufs (gone p s) = pool_bufs s" "pool_malloc (gone p s) = pool_malloc s"
  "buf_at (pool_heap (gone p s)) q = (if q = p then None else buf_at (pool_heap s) q)"
  by (auto simp: gone_def buf_at_def)

lemma free_buf_run: "buf_at (pool_heap s) p = Some b \<Longrightarrow> free_buf p s = (Ok (), gone p s)"
  by (simp add: free_buf_def with_buf_def act_run gone_def)

text \<open>Looking up.\<close>

lemma buffer_lookup_run:
  assumes "pool_ok made s"
  obtains (Hit) p b where "published made (pool_heap s) p d" "buf_at (pool_heap s) p = Some b"
      "buffer_lookup d s = (Ok (Some p), set_refs p (CRYPTO_refcount_inc (cb_references b)) s)"
  | (Miss) "\<And>p. \<not> published made (pool_heap s) p d" "buffer_lookup d s = (Ok None, s)"
proof -
  let ?heap = "pool_heap s" and ?bufs = "pool_bufs s"
  let ?tmp = "?heap @ [Some \<lparr>cb_pooled = False, cb_data = d, cb_references = 0\<rparr>]"
  have s: "bufs_ok ?heap ?bufs" "\<And>d p. lh_view (data_at ?heap) ?bufs d = Some p \<longleftrightarrow> published made ?heap p d"
    using assms by (auto simp: pool_ok_def)
  have live: "it_data it < length ?heap" if "it \<in> set (lh_items ?bufs)" for it
    using s(1) that buf_at_live by (fastforce simp: bufs_ok_def)
  have same: "data_at ?tmp (it_data it) = data_at ?heap (it_data it)" if "it \<in> set (lh_items ?bufs)" for it
    using live [OF that] by (simp add: data_at_def buf_at_append)
  have "bufs_ok ?tmp ?bufs"
    using s(1) rekeyed(1) [OF s(1) same] by (auto simp: bufs_ok_def buf_at_append)
  from lh_retrieve_run [OF bufs_okD [OF this], of "length ?heap"]
  have found: "lh_retrieve (call_hash ?tmp) (call_cmp ?tmp) (length ?heap) ?bufs = (Ok (lh_view (data_at ?heap) ?bufs d), ?bufs)"
    by (simp add: rekeyed(2) [OF s(1) same] data_at_def buf_at_append)
  have run: "on_bufs (\<lambda>heap. let tmp = heap @ [Some \<lparr>cb_pooled = False, cb_data = d, cb_references = 0\<rparr>]
       in lh_retrieve (call_hash tmp) (call_cmp tmp) (length heap)) s = (Ok (lh_view (data_at ?heap) ?bufs d), s)"
    using found by (simp add: on_bufs_run [OF s(1)] Let_def)
  show thesis
  proof (cases "lh_view (data_at ?heap) ?bufs d")
    case None
    have "buffer_lookup d s = (Ok None, s)" unfolding buffer_lookup_def by (rule seq_step, rule run, simp add: None act_run)
    then show thesis using None s(2) by (intro Miss) (metis option.distinct(1))
  next
    case (Some p)
    then have pub: "published made ?heap p d" using s(2) by blast
    then obtain b where b: "buf_at ?heap p = Some b" by (auto simp: published_def)
    have "buffer_lookup d s = (Ok (Some p), set_refs p (CRYPTO_refcount_inc (cb_references b)) s)"
      unfolding buffer_lookup_def
      by (rule seq_step, rule run) (simp add: Some seq_def with_buf_run [OF b] put_references_run [OF b] act_run)
    then show thesis by (rule Hit [OF pub b])
  qed
qed

text \<open>Making a buffer.\<close>

definition added :: "bool \<Rightarrow> byte list \<Rightarrow> pool_store \<Rightarrow> pool_store" where
  "added pooled d s = s\<lparr>pool_heap := pool_heap s @ [Some \<lparr>cb_pooled = pooled, cb_data = d, cb_references = 1\<rparr>]\<rparr>"

lemma buf_at_added: "buf_at (pool_heap (added pooled d s)) q =
    (if q = length (pool_heap s) then Some \<lparr>cb_pooled = pooled, cb_data = d, cb_references = 1\<rparr> else buf_at (pool_heap s) q)"
  by (simp add: added_def buf_at_append)

lemma added_ok:
  assumes "pool_ok made s"
  shows "pool_ok (if pooled then insert (length (pool_heap s)) made else made) (added pooled d s)"
proof -
  have "published (if pooled then insert (length (pool_heap s)) made else made) (pool_heap (added pooled d s)) q e \<longleftrightarrow>
      published made (pool_heap s) q e" for q e
    using buf_at_live [of "pool_heap s" q] by (auto simp: published_def buf_at_added)
  from heap_change [OF assms this] show ?thesis by (simp add: added_def)
qed

lemma buffer_make_run:
  obtains (Made) "buffer_make d pooled s = (Ok (length (pool_heap s)), added pooled d s)"
  | (Fail) "buffer_make d pooled s = (Fail, s)"
  by (cases "buffer_make d pooled s") (auto simp: buffer_make_def seq_basic act_run added_def split: if_splits)

lemma buffer_alloc_run:
  obtains (Made) "CRYPTO_BUFFER_alloc n s = (Ok (length (pool_heap s)), added False (map (pool_fresh s) [0..<n]) s)"
  | (Fail) "CRYPTO_BUFFER_alloc n s = (Fail, s)"
  by (cases "CRYPTO_BUFFER_alloc n s") (auto simp: CRYPTO_BUFFER_alloc_def seq_basic act_run added_def split: if_splits)

text \<open>Freeing a buffer that is not published does not concern the table.\<close>

lemma gone_ok:
  assumes "pool_ok made s" "\<And>d. \<not> published made (pool_heap s) p d"
  shows "pool_ok (made - {p}) (gone p s)"
proof -
  have "published (made - {p}) (pool_heap (gone p s)) q d \<longleftrightarrow> published made (pool_heap s) q d" for q d
    using assms(2) by (auto simp: published_def)
  from heap_change [OF assms(1) this] show ?thesis by (simp add: gone_def)
qed

text \<open>Publishing.\<close>

lemma table_insert:
  assumes "pool_ok made s" "p \<in> made" "buf_at (pool_heap s) p = Some b" "cb_pooled b" "\<And>q. \<not> published made (pool_heap s) q (cb_data b)"
  obtains (Ok) t where "on_bufs (\<lambda>heap. lh_insert (pool_malloc s) (call_hash heap) (call_cmp heap) p) s = (Ok None, s\<lparr>pool_bufs := t\<rparr>)"
      "pool_ok (made - {p}) (s\<lparr>pool_bufs := t\<rparr>)"
  | (Fail) "on_bufs (\<lambda>heap. lh_insert (pool_malloc s) (call_hash heap) (call_cmp heap) p) s = (Fail, s)"
proof -
  let ?heap = "pool_heap s" and ?bufs = "pool_bufs s" and ?d = "cb_data b"
  have s: "bufs_ok ?heap ?bufs" "malloc_ok (pool_malloc s)" "\<And>d p. lh_view (data_at ?heap) ?bufs d = Some p \<longleftrightarrow> published made ?heap p d"
    using assms(1) by (auto simp: pool_ok_def)
  have d: "data_at ?heap p = ?d" using assms(3) by (simp add: data_at_def)
  have none: "lh_view (data_at ?heap) ?bufs ?d = None" using s(3) assms(5) by (cases "lh_view (data_at ?heap) ?bufs ?d") auto
  show thesis
  proof (rule lh_insert_run [OF bufs_okD [OF s(1)] s(2), where data = p])
    fix t
    assume t: "lh_insert (pool_malloc s) (call_hash ?heap) (call_cmp ?heap) p ?bufs = (Ok (lh_view (data_at ?heap) ?bufs (data_at ?heap p)), t)"
      "lh_ok (call_hash ?heap) (call_cmp ?heap) (data_at ?heap) t"
      "lh_view (data_at ?heap) t = (lh_view (data_at ?heap) ?bufs)(data_at ?heap p \<mapsto> p)" "keeps_setting (pool_malloc s) ?bufs t"
    have view: "lh_view (data_at ?heap) t e = Some q \<longleftrightarrow> published (made - {p}) ?heap q e" for e q
      using s(3) assms(2,3,4,5) by (auto simp: t(3) d published_def)
    have "bufs_ok ?heap t"
      using t(2,4) s(1) by (intro bufs_okI) (auto simp: keeps_setting_def bufs_ok_def view published_def)
    then have "pool_ok (made - {p}) (s\<lparr>pool_bufs := t\<rparr>)" using s(2) view by (simp add: pool_ok_def)
    then show thesis using t(1) none by (intro Ok [of t]) (simp_all add: on_bufs_run [OF s(1)] d)
  next
    assume "lh_insert (pool_malloc s) (call_hash ?heap) (call_cmp ?heap) p ?bufs = (Fail, ?bufs)"
    then show thesis by (intro Fail) (simp add: on_bufs_run [OF s(1)])
  qed
qed

lemma buffer_insert_run:
  assumes "pool_ok made s" "p \<in> made" "buf_at (pool_heap s) p = Some b" "cb_pooled b"
  obtains (Published) t where "buffer_insert p s = (Ok p, s\<lparr>pool_bufs := t\<rparr>)" "pool_ok (made - {p}) (s\<lparr>pool_bufs := t\<rparr>)"
      "\<And>q. \<not> published made (pool_heap s) q (cb_data b)"
  | (Fail) "buffer_insert p s = (Fail, gone p s)" "pool_ok (made - {p}) (gone p s)"
  | (Lost) q c where "published made (pool_heap s) q (cb_data b)" "buf_at (pool_heap s) q = Some c"
      "buffer_insert p s = (Ok q, gone p (set_refs q (CRYPTO_refcount_inc (cb_references c)) s))"
      "pool_ok (made - {p}) (gone p (set_refs q (CRYPTO_refcount_inc (cb_references c)) s))"
proof -
  let ?heap = "pool_heap s" and ?bufs = "pool_bufs s" and ?d = "cb_data b"
  have s: "bufs_ok ?heap ?bufs" "\<And>d p. lh_view (data_at ?heap) ?bufs d = Some p \<longleftrightarrow> published made ?heap p d"
    using assms(1) by (auto simp: pool_ok_def)
  have d: "data_at ?heap p = ?d" using assms(3) by (simp add: data_at_def)
  have not_pub: "\<not> published made ?heap p e" for e using assms(2) by (simp add: published_def)
  have found: "on_bufs (\<lambda>heap. lh_retrieve (call_hash heap) (call_cmp heap) p) s = (Ok (lh_view (data_at ?heap) ?bufs ?d), s)"
    by (simp add: on_bufs_run [OF s(1)] lh_retrieve_run [OF bufs_okD [OF s(1)]] d)
  have start: "buffer_insert p s = (case lh_view (data_at ?heap) ?bufs ?d of
       None \<Rightarrow> (\<lambda>s'. case on_bufs (\<lambda>heap. lh_insert (pool_malloc s) (call_hash heap) (call_cmp heap) p) s' of
           (Ok old, t) \<Rightarrow> if old \<noteq> None then (Ub, t) else (Ok p, t)
         | (Fail, t) \<Rightarrow> seq (free_buf p) (\<lambda>_. fail) t
         | (Ub, t) \<Rightarrow> (Ub, t)
         | (NoFuel, t) \<Rightarrow> (NoFuel, t))
     | Some q \<Rightarrow> seq (with_buf q (\<lambda>b. put_references q (CRYPTO_refcount_inc (cb_references b)))) (\<lambda>_.
         seq (free_buf p) (\<lambda>_. ret q))) s"
    unfolding buffer_insert_def with_buf_run [OF assms(3)] by (rule seq_step, rule found) (simp add: seq_basic)
  show thesis
  proof (cases "lh_view (data_at ?heap) ?bufs ?d")
    case None
    then have none: "\<And>q. \<not> published made ?heap q ?d" using s(2) by (metis option.distinct(1))
    show thesis
    proof (rule table_insert [OF assms none])
      fix t
      assume t: "on_bufs (\<lambda>heap. lh_insert (pool_malloc s) (call_hash heap) (call_cmp heap) p) s = (Ok None, s\<lparr>pool_bufs := t\<rparr>)"
        "pool_ok (made - {p}) (s\<lparr>pool_bufs := t\<rparr>)"
      then show thesis using None none by (intro Published [of t]) (simp_all add: start)
    next
      assume "on_bufs (\<lambda>heap. lh_insert (pool_malloc s) (call_hash heap) (call_cmp heap) p) s = (Fail, s)"
      then have "buffer_insert p s = (Fail, gone p s)" using None by (simp add: start seq_def free_buf_run [OF assms(3)] act_run)
      then show thesis using gone_ok [OF assms(1) not_pub] by (rule Fail)
    qed
  next
    case (Some q)
    then have pub: "published made ?heap q ?d" using s(2) by blast
    then obtain c where c: "buf_at ?heap q = Some c" by (auto simp: published_def)
    let ?s = "set_refs q (CRYPTO_refcount_inc (cb_references c)) s"
    have ne: "q \<noteq> p" using pub assms(2) by (auto simp: published_def)
    have live: "buf_at (pool_heap ?s) p = Some b" using assms(3) ne by (simp add: buf_at_set_refs)
    have "buffer_insert p s = (Ok q, gone p ?s)"
      using Some by (simp add: start seq_def with_buf_run [OF c] put_references_run [OF c] free_buf_run [OF live] act_run)
    moreover have "\<not> published made (pool_heap ?s) p e" for e using assms(2) by (simp add: published_def)
    ultimately show thesis using pub c gone_ok [OF set_refs_ok [OF assms(1)]] by (intro Lost) blast+
  qed
qed

text \<open>Giving up a reference.\<close>

lemma buffer_free_run:
  assumes "pool_ok made s" "p \<notin> made" "buf_at (pool_heap s) p = Some b" "0 < cb_references b"
  obtains (Kept) "1 < cb_references b \<or> cb_references b = CRYPTO_REFCOUNT_MAX"
      "CRYPTO_BUFFER_free p s = (Ok (), set_refs p (if cb_references b < CRYPTO_REFCOUNT_MAX then cb_references b - 1 else cb_references b) s)"
  | (Freed) t where "cb_references b = 1" "CRYPTO_BUFFER_free p s = (Ok (), t)" "pool_ok made t"
      "\<And>q. buf_at (pool_heap t) q = (if q = p then None else buf_at (pool_heap s) q)"
proof -
  let ?n = "if cb_references b < CRYPTO_REFCOUNT_MAX then cb_references b - 1 else cb_references b"
  let ?s = "set_refs p ?n s" and ?b = "b\<lparr>cb_references := ?n\<rparr>"
  have b: "buf_at (pool_heap ?s) p = Some ?b" using assms(3) by (simp add: buf_at_set_refs)
  have ok: "pool_ok made ?s" by (rule set_refs_ok [OF assms(1)])
  have start: "CRYPTO_BUFFER_free p s = (if cb_references b \<noteq> 1 then ret () else if \<not> cb_pooled b then free_buf p
       else seq (query pool_malloc) (\<lambda>malloc. seq (on_bufs (\<lambda>heap. lh_delete malloc (call_hash heap) (call_cmp heap) p)) (\<lambda>found.
           if found \<noteq> Some p then undef else free_buf p))) ?s"
    unfolding CRYPTO_BUFFER_free_def with_buf_run [OF assms(3)] refcount_dec [OF assms(4)]
    by (simp add: seq_def put_references_run [OF assms(3)])
  consider (kept) "cb_references b \<noteq> 1" | (plain) "cb_references b = 1" "\<not> cb_pooled b" | (pooled) "cb_references b = 1" "cb_pooled b" by blast
  then show thesis
  proof cases
    case kept
    then show thesis using assms(4) start by (intro Kept) (auto simp: act_run)
  next
    case plain
    have "pool_ok (made - {p}) (gone p ?s)" by (rule gone_ok [OF ok]) (use b plain in \<open>simp add: published_def\<close>)
    then show thesis using plain start assms(2) free_buf_run [OF b] by (intro Freed [of "gone p ?s"]) (simp_all add: buf_at_set_refs)
  next
    case pooled
    let ?heap = "pool_heap ?s" and ?bufs = "pool_bufs ?s"
    have s: "bufs_ok ?heap ?bufs" "malloc_ok (pool_malloc ?s)" "\<And>d p. lh_view (data_at ?heap) ?bufs d = Some p \<longleftrightarrow> published made ?heap p d"
      using ok by (auto simp: pool_ok_def)
    have d: "data_at ?heap p = cb_data b" using b by (simp add: data_at_def)
    have pub: "published made ?heap p (cb_data b)" using b pooled(2) assms(2) by (simp add: published_def)
    obtain t where t: "lh_delete (pool_malloc ?s) (call_hash ?heap) (call_cmp ?heap) p ?bufs = (Ok (Some p), t)"
      "lh_ok (call_hash ?heap) (call_cmp ?heap) (data_at ?heap) t"
      "lh_view (data_at ?heap) t = (lh_view (data_at ?heap) ?bufs)(cb_data b := None)" "keeps_setting (pool_malloc ?s) ?bufs t"
      by (rule lh_delete_run [OF bufs_okD [OF s(1)] s(2), where data = p]) (use pub s(3) d in auto)
    let ?t = "?s\<lparr>pool_bufs := t\<rparr>"
    have only: "published made ?heap p e \<longleftrightarrow> e = cb_data b" for e using pub b by (auto simp: published_def)
    have "published (insert p made) ?heap q e \<longleftrightarrow> published made ?heap q e \<and> q \<noteq> p" for e q by (auto simp: published_def)
    then have view: "lh_view (data_at ?heap) t e = Some q \<longleftrightarrow> published (insert p made) ?heap q e" for e q
      using s(3) only published_unique [OF ok pub, symmetric] by (auto simp: t(3))
    have "bufs_ok ?heap t"
      using t(2,4) s(1) by (intro bufs_okI) (auto simp: keeps_setting_def bufs_ok_def view published_def)
    then have "pool_ok (insert p made) ?t" using s(2) view by (simp add: pool_ok_def)
    then have "pool_ok (insert p made - {p}) (gone p ?t)" by (rule gone_ok) (simp add: published_def)
    moreover have "on_bufs (\<lambda>heap. lh_delete (pool_malloc ?s) (call_hash heap) (call_cmp heap) p) ?s = (Ok (Some p), ?t)"
      unfolding on_bufs_run [OF s(1)] t(1) by simp
    then have "seq (on_bufs (\<lambda>heap. lh_delete (pool_malloc ?s) (call_hash heap) (call_cmp heap) p))
        (\<lambda>found. if found \<noteq> Some p then undef else free_buf p) ?s = (Ok (), gone p ?t)"
      using free_buf_run [of ?t p] b by (intro seq_step) (assumption, simp)
    then have "CRYPTO_BUFFER_free p s = (Ok (), gone p ?t)" using pooled by (simp add: start seq_basic)
    ultimately show thesis using pooled assms(2) by (intro Freed [of "gone p ?t"]) (simp_all add: buf_at_set_refs)
  qed
qed

section \<open>Threads\<close>

text \<open>
  A thread in the middle of \<open>CRYPTO_BUFFER_new\<close> has missed the look-up, or has made a buffer that it is about
  to insert.  A client holds references: the pointers it got, with the contents it asked for.
\<close>

datatype thread = Idle | Missed "byte list" | Made nat "byte list"

record pool_system =
  store_of :: pool_store
  thread :: "nat \<Rightarrow> thread"
  held :: "(nat \<times> byte list) multiset"

definition made_by :: "pool_system \<Rightarrow> nat set" where
  "made_by c = {p. \<exists>i d. thread c i = Made p d}"

definition refs_held :: "pool_system \<Rightarrow> nat \<Rightarrow> nat" where
  "refs_held c p = count (image_mset fst (held c)) p"

text \<open>The steps are the critical sections; any thread may take the next one.\<close>

inductive pool_step :: "pool_system \<Rightarrow> pool_system \<Rightarrow> bool" where
  Hit: "thread c i = Idle \<Longrightarrow> buffer_lookup d (store_of c) = (Ok (Some p), s) \<Longrightarrow>
    pool_step c (c\<lparr>store_of := s, held := add_mset (p, d) (held c)\<rparr>)"
| Miss: "thread c i = Idle \<Longrightarrow> buffer_lookup d (store_of c) = (Ok None, s) \<Longrightarrow>
    pool_step c (c\<lparr>store_of := s, thread := (thread c)(i := Missed d)\<rparr>)"
| Make: "thread c i = Missed d \<Longrightarrow> buffer_make d True (store_of c) = (Ok p, s) \<Longrightarrow>
    pool_step c (c\<lparr>store_of := s, thread := (thread c)(i := Made p d)\<rparr>)"
| Make_fails: "thread c i = Missed d \<Longrightarrow> buffer_make d True (store_of c) = (Fail, s) \<Longrightarrow>
    pool_step c (c\<lparr>store_of := s, thread := (thread c)(i := Idle)\<rparr>)"
| Insert: "thread c i = Made p d \<Longrightarrow> buffer_insert p (store_of c) = (Ok q, s) \<Longrightarrow>
    pool_step c (c\<lparr>store_of := s, thread := (thread c)(i := Idle), held := add_mset (q, d) (held c)\<rparr>)"
| Insert_fails: "thread c i = Made p d \<Longrightarrow> buffer_insert p (store_of c) = (Fail, s) \<Longrightarrow>
    pool_step c (c\<lparr>store_of := s, thread := (thread c)(i := Idle)\<rparr>)"
| Plain: "CRYPTO_BUFFER_new d False (store_of c) = (Ok p, s) \<Longrightarrow>
    pool_step c (c\<lparr>store_of := s, held := add_mset (p, d) (held c)\<rparr>)"
| Up_ref: "(p, d) \<in># held c \<Longrightarrow> CRYPTO_BUFFER_up_ref p (store_of c) = (Ok (), s) \<Longrightarrow>
    pool_step c (c\<lparr>store_of := s, held := add_mset (p, d) (held c)\<rparr>)"
| Free: "(p, d) \<in># held c \<Longrightarrow> CRYPTO_BUFFER_free p (store_of c) = (Ok (), s) \<Longrightarrow>
    pool_step c (c\<lparr>store_of := s, held := held c - {#(p, d)#}\<rparr>)"

inductive_cases pool_stepE: "pool_step c c'"

text \<open>
  Every live buffer is either about to be inserted, by one thread and with one reference, or has as many
  references as are held, unless the count is stuck at its largest value.
\<close>

definition counted :: "bool \<Rightarrow> nat \<Rightarrow> crypto_buffer_st \<Rightarrow> bool" where
  "counted making n b \<longleftrightarrow> cb_references b \<le> CRYPTO_REFCOUNT_MAX \<and>
     (if making then cb_references b = 1 \<and> n = 0
      else 0 < cb_references b \<and> (cb_references b = CRYPTO_REFCOUNT_MAX \<or> cb_references b = n))"

lemma counted_inc: "counted False n b \<Longrightarrow> counted False (n + 1) (b\<lparr>cb_references := CRYPTO_refcount_inc (cb_references b)\<rparr>)"
  by (auto simp: counted_def CRYPTO_refcount_inc_def)

lemma counted_dec:
  "counted False n b \<Longrightarrow> 1 < cb_references b \<or> cb_references b = CRYPTO_REFCOUNT_MAX \<Longrightarrow>
    counted False (n - 1) (b\<lparr>cb_references := if cb_references b < CRYPTO_REFCOUNT_MAX then cb_references b - 1 else cb_references b\<rparr>)"
  by (auto simp: counted_def)

definition pool_inv :: "pool_system \<Rightarrow> bool" where
  "pool_inv c \<longleftrightarrow> pool_ok (made_by c) (store_of c) \<and>
     (\<forall>p b. buf_at (pool_heap (store_of c)) p = Some b \<longrightarrow> counted (p \<in> made_by c) (refs_held c p) b) \<and>
     (\<forall>i p d. thread c i = Made p d \<longrightarrow> (\<exists>b. buf_at (pool_heap (store_of c)) p = Some b \<and> cb_pooled b \<and> cb_data b = d)) \<and>
     (\<forall>i j p d e. thread c i = Made p d \<and> thread c j = Made p e \<longrightarrow> i = j) \<and>
     (\<forall>(p, d) \<in># held c. \<exists>b. buf_at (pool_heap (store_of c)) p = Some b \<and> cb_data b = d)"

lemma pool_invD:
  assumes "pool_inv c"
  shows "pool_ok (made_by c) (store_of c)" "buf_at (pool_heap (store_of c)) p = Some b \<Longrightarrow> counted (p \<in> made_by c) (refs_held c p) b"
    "thread c i = Made p d \<Longrightarrow> \<exists>b. buf_at (pool_heap (store_of c)) p = Some b \<and> cb_pooled b \<and> cb_data b = d"
    "thread c i = Made p d \<Longrightarrow> thread c j = Made p e \<Longrightarrow> i = j"
    "(p, d) \<in># held c \<Longrightarrow> \<exists>b. buf_at (pool_heap (store_of c)) p = Some b \<and> cb_data b = d"
  using assms unfolding pool_inv_def by (blast, blast, blast, blast, fastforce)

lemma made_byI: "thread c i = Made p d \<Longrightarrow> p \<in> made_by c"
  by (auto simp: made_by_def)

lemma held_refs: "(p, d) \<in># held c \<Longrightarrow> 0 < refs_held c p"
  unfolding refs_held_def count_greater_zero_iff by force

text \<open>A held buffer is published or of no pool, and has a reference to give up.\<close>

lemma held_buffer:
  assumes "pool_inv c" "(p, d) \<in># held c"
  obtains b where "buf_at (pool_heap (store_of c)) p = Some b" "cb_data b = d" "p \<notin> made_by c" "0 < cb_references b"
    "cb_references b \<le> CRYPTO_REFCOUNT_MAX" "cb_references b = CRYPTO_REFCOUNT_MAX \<or> cb_references b = refs_held c p"
proof -
  obtain b where b: "buf_at (pool_heap (store_of c)) p = Some b" "cb_data b = d" using pool_invD(5) [OF assms] by blast
  then have "counted (p \<in> made_by c) (refs_held c p) b" using pool_invD(2) [OF assms(1)] by blast
  then show thesis using b held_refs [OF assms(2)] that by (auto simp: counted_def split: if_splits)
qed

text \<open>The invariant, step by step: what changes is one buffer, one thread and one held reference.\<close>

lemma refs_held_add: "refs_held (c\<lparr>held := add_mset (p, d) (held c)\<rparr>) q = (if q = p then refs_held c q + 1 else refs_held c q)"
  by (simp add: refs_held_def)

lemma refs_held_remove: "(p, d) \<in># held c \<Longrightarrow>
    refs_held (c\<lparr>held := held c - {#(p, d)#}\<rparr>) q = (if q = p then refs_held c q - 1 else refs_held c q)"
  by (simp add: refs_held_def image_mset_Diff)

lemma pool_invI:
  assumes "pool_ok (made_by c') (store_of c')"
    "\<And>p b. buf_at (pool_heap (store_of c')) p = Some b \<Longrightarrow> counted (p \<in> made_by c') (refs_held c' p) b"
    "\<And>i p d. thread c' i = Made p d \<Longrightarrow> \<exists>b. buf_at (pool_heap (store_of c')) p = Some b \<and> cb_pooled b \<and> cb_data b = d"
    "\<And>i j p d e. thread c' i = Made p d \<Longrightarrow> thread c' j = Made p e \<Longrightarrow> i = j"
    "\<And>p d. (p, d) \<in># held c' \<Longrightarrow> \<exists>b. buf_at (pool_heap (store_of c')) p = Some b \<and> cb_data b = d"
  shows "pool_inv c'"
  using assms unfolding pool_inv_def by blast

text \<open>One more reference to a buffer that is not about to be inserted.\<close>

lemma inv_take:
  assumes "pool_inv c" "buf_at (pool_heap (store_of c)) p = Some b" "cb_data b = d" "p \<notin> made_by c"
  shows "pool_inv (c\<lparr>store_of := set_refs p (CRYPTO_refcount_inc (cb_references b)) (store_of c), held := add_mset (p, d) (held c)\<rparr>)"
    (is "pool_inv ?c")
proof (rule pool_invI)
  have made: "made_by ?c = made_by c" by (simp add: made_by_def)
  show "pool_ok (made_by ?c) (store_of ?c)" unfolding made using set_refs_ok [OF pool_invD(1) [OF assms(1)]] by simp
  have refs: "refs_held ?c q = (if q = p then refs_held c q + 1 else refs_held c q)" for q by (simp add: refs_held_def)
  have b: "counted False (refs_held c p) b" using pool_invD(2) [OF assms(1,2)] assms(4) by simp
  show "counted (q \<in> made_by ?c) (refs_held ?c q) b'" if "buf_at (pool_heap (store_of ?c)) q = Some b'" for q b'
  proof (cases "q = p")
    case True
    then have "b' = b\<lparr>cb_references := CRYPTO_refcount_inc (cb_references b)\<rparr>" using that assms(2) by (simp add: buf_at_set_refs)
    then show ?thesis using counted_inc [OF b] assms(4) True by (simp only: made refs if_True) simp
  next
    case False
    then show ?thesis using that pool_invD(2) [OF assms(1), of q b'] by (simp add: buf_at_set_refs made refs)
  qed
  show "\<exists>b. buf_at (pool_heap (store_of ?c)) q = Some b \<and> cb_pooled b \<and> cb_data b = e" if "thread ?c i = Made q e" for i q e
    using pool_invD(3) [OF assms(1), of i q e] that by (auto simp: buf_at_set_refs)
  show "i = j" if "thread ?c i = Made q e" "thread ?c j = Made q e'" for i j q e e'
    using pool_invD(4) [OF assms(1)] that by simp
  show "\<exists>b. buf_at (pool_heap (store_of ?c)) q = Some b \<and> cb_data b = e" if "(q, e) \<in># held ?c" for q e
    using pool_invD(5) [OF assms(1), of q e] that assms(2,3) by (auto simp: buf_at_set_refs)
qed

text \<open>A thread without a buffer moves to another such state.\<close>

lemma inv_thread:
  assumes "pool_inv c" "\<And>p d. thread c i \<noteq> Made p d" "\<And>p d. x \<noteq> Made p d"
  shows "pool_inv (c\<lparr>thread := (thread c)(i := x)\<rparr>)" (is "pool_inv ?c")
proof (rule pool_invI)
  have made: "made_by ?c = made_by c" using assms(2,3) by (fastforce simp: made_by_def split: if_splits)
  have refs: "refs_held ?c = refs_held c" by (simp add: refs_held_def fun_eq_iff)
  show "pool_ok (made_by ?c) (store_of ?c)" using pool_invD(1) [OF assms(1)] by (simp add: made)
  show "counted (q \<in> made_by ?c) (refs_held ?c q) b" if "buf_at (pool_heap (store_of ?c)) q = Some b" for q b
    using pool_invD(2) [OF assms(1), of q b] that by (simp add: made refs)
  show "\<exists>b. buf_at (pool_heap (store_of ?c)) q = Some b \<and> cb_pooled b \<and> cb_data b = e" if "thread ?c j = Made q e" for j q e
    using pool_invD(3) [OF assms(1), of j q e] that assms(3) [of q e] by (auto split: if_splits)
  show "j = k" if "thread ?c j = Made q e" "thread ?c k = Made q e'" for j k q e e'
    using pool_invD(4) [OF assms(1), of j q e k e'] that assms(3) [of q e] assms(3) [of q e'] by (auto split: if_splits)
  show "\<exists>b. buf_at (pool_heap (store_of ?c)) q = Some b \<and> cb_data b = e" if "(q, e) \<in># held ?c" for q e
    using pool_invD(5) [OF assms(1), of q e] that by simp
qed

text \<open>A new buffer, in the hands of a thread or of a client.\<close>

lemma fresh_buffer:
  assumes "pool_inv c"
  shows "buf_at (pool_heap (store_of c)) (length (pool_heap (store_of c))) = None" "length (pool_heap (store_of c)) \<notin> made_by c"
    "refs_held c (length (pool_heap (store_of c))) = 0"
proof -
  let ?n = "length (pool_heap (store_of c))"
  show none: "buf_at (pool_heap (store_of c)) ?n = None" by (simp add: buf_at_def)
  show "?n \<notin> made_by c" using pool_invD(3) [OF assms] none by (fastforce simp: made_by_def)
  have "?n \<notin># image_mset fst (held c)" using pool_invD(5) [OF assms] none by fastforce
  then show "refs_held c ?n = 0" unfolding refs_held_def count_eq_zero_iff .
qed

lemma inv_make:
  assumes "pool_inv c" "\<And>p d. thread c i \<noteq> Made p d"
  shows "pool_inv (c\<lparr>store_of := added True d (store_of c), thread := (thread c)(i := Made (length (pool_heap (store_of c))) d)\<rparr>)"
    (is "pool_inv ?c")
proof (rule pool_invI)
  let ?n = "length (pool_heap (store_of c))"
  note fresh = fresh_buffer [OF assms(1)]
  have made: "made_by ?c = insert ?n (made_by c)" using assms(2) by (fastforce simp: made_by_def split: if_splits)
  have refs: "refs_held ?c = refs_held c" by (simp add: refs_held_def fun_eq_iff)
  show "pool_ok (made_by ?c) (store_of ?c)"
    using added_ok [OF pool_invD(1) [OF assms(1)], of True d] by (simp add: made)
  show "counted (q \<in> made_by ?c) (refs_held ?c q) b" if "buf_at (pool_heap (store_of ?c)) q = Some b" for q b
    using pool_invD(2) [OF assms(1), of q b] that fresh by (auto simp: made refs buf_at_added counted_def split: if_splits)
  show "\<exists>b. buf_at (pool_heap (store_of ?c)) q = Some b \<and> cb_pooled b \<and> cb_data b = e" if "thread ?c j = Made q e" for j q e
    using pool_invD(3) [OF assms(1), of j q e] that fresh(1) by (auto simp: buf_at_added split: if_splits)
  show "j = k" if "thread ?c j = Made q e" "thread ?c k = Made q e'" for j k q e e'
    using pool_invD(4) [OF assms(1), of j q e k e'] that fresh(2) made_byI [of c] by (auto split: if_splits)
  show "\<exists>b. buf_at (pool_heap (store_of ?c)) q = Some b \<and> cb_data b = e" if "(q, e) \<in># held ?c" for q e
    using pool_invD(5) [OF assms(1), of q e] that fresh(1) by (auto simp: buf_at_added)
qed

lemma inv_plain:
  assumes "pool_inv c"
  shows "pool_inv (c\<lparr>store_of := added False d (store_of c), held := add_mset (length (pool_heap (store_of c)), d) (held c)\<rparr>)"
    (is "pool_inv ?c")
proof (rule pool_invI)
  let ?n = "length (pool_heap (store_of c))"
  note fresh = fresh_buffer [OF assms]
  have made: "made_by ?c = made_by c" by (simp add: made_by_def)
  have refs: "refs_held ?c q = (if q = ?n then 1 else refs_held c q)" for q using fresh(3) by (simp add: refs_held_def)
  show "pool_ok (made_by ?c) (store_of ?c)"
    using added_ok [OF pool_invD(1) [OF assms], of False d] by (simp add: made)
  show "counted (q \<in> made_by ?c) (refs_held ?c q) b" if "buf_at (pool_heap (store_of ?c)) q = Some b" for q b
    using pool_invD(2) [OF assms, of q b] that fresh by (auto simp: made refs buf_at_added counted_def split: if_splits)
  show "\<exists>b. buf_at (pool_heap (store_of ?c)) q = Some b \<and> cb_pooled b \<and> cb_data b = e" if "thread ?c j = Made q e" for j q e
    using pool_invD(3) [OF assms, of j q e] that fresh(1) by (auto simp: buf_at_added split: if_splits)
  show "j = k" if "thread ?c j = Made q e" "thread ?c k = Made q e'" for j k q e e'
    using pool_invD(4) [OF assms, of j q e k e'] that by simp
  show "\<exists>b. buf_at (pool_heap (store_of ?c)) q = Some b \<and> cb_data b = e" if "(q, e) \<in># held ?c" for q e
    using pool_invD(5) [OF assms, of q e] that fresh(1) by (auto simp: buf_at_added)
qed

text \<open>A thread lets go of the buffer it made.\<close>

lemma unmade:
  assumes "pool_inv c" "thread c i = Made p d" "\<And>q e. x \<noteq> Made q e"
  shows "{q. \<exists>j e. ((thread c)(i := x)) j = Made q e} = made_by c - {p}"
proof -
  have other: "q \<noteq> p" if "j \<noteq> i" "thread c j = Made q e" for j q e using pool_invD(4) [OF assms(1,2)] that by blast
  have "((thread c)(i := x)) j = Made q e \<longleftrightarrow> j \<noteq> i \<and> thread c j = Made q e" for j q e
    using assms(3) [of q e] by simp
  then have one: "(\<exists>j e. ((thread c)(i := x)) j = Made q e) \<longleftrightarrow> (\<exists>j e. j \<noteq> i \<and> thread c j = Made q e)" for q by simp
  have two: "(\<exists>j e. j \<noteq> i \<and> thread c j = Made q e) \<longleftrightarrow> q \<in> made_by c - {p}" for q
  proof
    assume "q \<in> made_by c - {p}"
    then obtain j e where j: "thread c j = Made q e" "q \<noteq> p" by (auto simp: made_by_def)
    then have "j \<noteq> i" using assms(2) by auto
    then show "\<exists>j e. j \<noteq> i \<and> thread c j = Made q e" using j(1) by blast
  next
    assume "\<exists>j e. j \<noteq> i \<and> thread c j = Made q e"
    then show "q \<in> made_by c - {p}" by (blast intro: made_byI dest: other)
  qed
  show ?thesis by (rule set_eqI) (simp only: mem_Collect_eq one two)
qed

lemma inv_publish:
  assumes "pool_inv c" "thread c i = Made p d" "pool_heap s = pool_heap (store_of c)" "pool_ok (made_by c - {p}) s"
  shows "pool_inv (c\<lparr>store_of := s, thread := (thread c)(i := Idle), held := add_mset (p, d) (held c)\<rparr>)" (is "pool_inv ?c")
proof (rule pool_invI)
  have made: "made_by ?c = made_by c - {p}" using unmade [OF assms(1,2), of Idle] by (simp add: made_by_def)
  have refs: "refs_held ?c q = (if q = p then refs_held c q + 1 else refs_held c q)" for q by (simp add: refs_held_def)
  have p: "p \<in> made_by c" by (rule made_byI [OF assms(2)])
  show "pool_ok (made_by ?c) (store_of ?c)" using assms(4) by (simp add: made)
  show "counted (q \<in> made_by ?c) (refs_held ?c q) b" if "buf_at (pool_heap (store_of ?c)) q = Some b" for q b
    using pool_invD(2) [OF assms(1), of q b] that p assms(3) by (auto simp: made refs counted_def split: if_splits)
  show "\<exists>b. buf_at (pool_heap (store_of ?c)) q = Some b \<and> cb_pooled b \<and> cb_data b = e" if "thread ?c j = Made q e" for j q e
    using pool_invD(3) [OF assms(1), of j q e] that assms(3) by (simp split: if_splits)
  show "j = k" if "thread ?c j = Made q e" "thread ?c k = Made q e'" for j k q e e'
    using pool_invD(4) [OF assms(1), of j q e k e'] that by (simp split: if_splits)
  show "\<exists>b. buf_at (pool_heap (store_of ?c)) q = Some b \<and> cb_data b = e" if "(q, e) \<in># held ?c" for q e
    using pool_invD(5) [OF assms(1), of q e] pool_invD(3) [OF assms(1,2)] that assms(3) by auto
qed

lemma inv_drop:
  assumes "pool_inv c" "thread c i = Made p d" "pool_ok (made_by c - {p}) (gone p (store_of c))"
  shows "pool_inv (c\<lparr>store_of := gone p (store_of c), thread := (thread c)(i := Idle)\<rparr>)" (is "pool_inv ?c")
proof (rule pool_invI)
  have made: "made_by ?c = made_by c - {p}" using unmade [OF assms(1,2), of Idle] by (simp add: made_by_def)
  have refs: "refs_held ?c = refs_held c" by (simp add: refs_held_def fun_eq_iff)
  have p: "p \<in> made_by c" by (rule made_byI [OF assms(2)])
  have "refs_held c p = 0" using pool_invD(3) [OF assms(1,2)] pool_invD(2) [OF assms(1), of p] p by (auto simp: counted_def)
  then have not_held: "(p, e) \<notin># held c" for e using held_refs by fastforce
  show "pool_ok (made_by ?c) (store_of ?c)" using assms(3) by (simp add: made)
  show "counted (q \<in> made_by ?c) (refs_held ?c q) b" if "buf_at (pool_heap (store_of ?c)) q = Some b" for q b
    using pool_invD(2) [OF assms(1), of q b] that by (auto simp: made refs split: if_splits)
  show "\<exists>b. buf_at (pool_heap (store_of ?c)) q = Some b \<and> cb_pooled b \<and> cb_data b = e" if "thread ?c j = Made q e" for j q e
    using pool_invD(3) [OF assms(1), of j q e] pool_invD(4) [OF assms(1), of j q e i d] that assms(2) by (auto split: if_splits)
  show "j = k" if "thread ?c j = Made q e" "thread ?c k = Made q e'" for j k q e e'
    using pool_invD(4) [OF assms(1), of j q e k e'] that by (simp split: if_splits)
  show "\<exists>b. buf_at (pool_heap (store_of ?c)) q = Some b \<and> cb_data b = e" if "(q, e) \<in># held ?c" for q e
    using pool_invD(5) [OF assms(1), of q e] that not_held by auto
qed

text \<open>A client gives up a reference.\<close>

lemma inv_release:
  assumes "pool_inv c" "(p, d) \<in># held c" "CRYPTO_BUFFER_free p (store_of c) = (r, s)"
  shows "r = Ok ()" "pool_inv (c\<lparr>store_of := s, held := held c - {#(p, d)#}\<rparr>)" (is "pool_inv ?c")
proof -
  obtain b where b: "buf_at (pool_heap (store_of c)) p = Some b" "cb_data b = d" "p \<notin> made_by c" "0 < cb_references b"
    "cb_references b \<le> CRYPTO_REFCOUNT_MAX" "cb_references b = CRYPTO_REFCOUNT_MAX \<or> cb_references b = refs_held c p"
    using held_buffer [OF assms(1,2)] .
  have made: "made_by (c\<lparr>store_of := u, held := m\<rparr>) = made_by c" for u m by (simp add: made_by_def)
  have refs: "refs_held (c\<lparr>store_of := u, held := held c - {#(p, d)#}\<rparr>) q = (if q = p then refs_held c q - 1 else refs_held c q)" for q u
    using assms(2) by (simp add: refs_held_def image_mset_Diff)
  have count: "counted False (refs_held c p) b" using pool_invD(2) [OF assms(1) b(1)] b(3) by simp
  have others: "j = k" if "thread ?c j = Made q e" "thread ?c k = Made q e'" for j k q e e'
    using pool_invD(4) [OF assms(1), of j q e k e'] that by simp
  have still: "(q, e) \<in># held c" if "(q, e) \<in># held ?c" for q e using that by (auto dest: in_diffD)
  show "r = Ok ()" "pool_inv ?c"
  proof (rule_tac [!] buffer_free_run [OF pool_invD(1) [OF assms(1)] b(3,1,4)])
    let ?n = "if cb_references b < CRYPTO_REFCOUNT_MAX then cb_references b - 1 else cb_references b"
    assume kept: "1 < cb_references b \<or> cb_references b = CRYPTO_REFCOUNT_MAX"
      and run: "CRYPTO_BUFFER_free p (store_of c) = (Ok (), set_refs p ?n (store_of c))"
    show "r = Ok ()" using run assms(3) by simp
    have s: "s = set_refs p ?n (store_of c)" using run assms(3) by simp
    show "pool_inv ?c"
    proof (rule pool_invI)
      show "pool_ok (made_by ?c) (store_of ?c)" using set_refs_ok [OF pool_invD(1) [OF assms(1)]] by (simp add: made s)
      show "counted (q \<in> made_by ?c) (refs_held ?c q) b'" if "buf_at (pool_heap (store_of ?c)) q = Some b'" for q b'
        using that counted_dec [OF count kept] pool_invD(2) [OF assms(1), of q b'] b(1,3)
        by (auto simp: made refs s buf_at_set_refs split: if_splits)
      show "\<exists>b. buf_at (pool_heap (store_of ?c)) q = Some b \<and> cb_pooled b \<and> cb_data b = e" if "thread ?c j = Made q e" for j q e
        using pool_invD(3) [OF assms(1), of j q e] that by (auto simp: s buf_at_set_refs)
      show "\<exists>b. buf_at (pool_heap (store_of ?c)) q = Some b \<and> cb_data b = e" if "(q, e) \<in># held ?c" for q e
        using pool_invD(5) [OF assms(1) still [OF that]] by (auto simp: s buf_at_set_refs)
    qed (rule others)
  next
    fix t
    assume one: "cb_references b = 1" and run: "CRYPTO_BUFFER_free p (store_of c) = (Ok (), t)" and ok: "pool_ok (made_by c) t"
      and heap: "\<And>q. buf_at (pool_heap t) q = (if q = p then None else buf_at (pool_heap (store_of c)) q)"
    show "r = Ok ()" using run assms(3) by simp
    have s: "s = t" using run assms(3) by simp
    have "refs_held c p = 1" using one b(6) by simp
    then have last: "refs_held ?c p = 0" by (simp add: refs)
    have not_held: "q \<noteq> p" if "(q, e) \<in># held ?c" for q e using held_refs [OF that] last by auto
    show "pool_inv ?c"
    proof (rule pool_invI)
      show "pool_ok (made_by ?c) (store_of ?c)" using ok by (simp add: made s)
      show "counted (q \<in> made_by ?c) (refs_held ?c q) b'" if "buf_at (pool_heap (store_of ?c)) q = Some b'" for q b'
        using that pool_invD(2) [OF assms(1), of q b'] by (auto simp: made refs s heap split: if_splits)
      show "\<exists>b. buf_at (pool_heap (store_of ?c)) q = Some b \<and> cb_pooled b \<and> cb_data b = e" if "thread ?c j = Made q e" for j q e
        using pool_invD(3) [OF assms(1), of j q e] that b(3) made_byI [of c j q e] by (auto simp: s heap)
      show "\<exists>b. buf_at (pool_heap (store_of ?c)) q = Some b \<and> cb_data b = e" if "(q, e) \<in># held ?c" for q e
        using pool_invD(5) [OF assms(1) still [OF that]] not_held [OF that] by (auto simp: s heap)
    qed (rule others)
  qed
qed

section \<open>Every step\<close>

lemma pool_step_inv:
  assumes "pool_step c c'" "pool_inv c"
  shows "pool_inv c'"
  using assms(1)
proof cases
  case (Hit i d p s)
  note ok = pool_invD(1) [OF assms(2)]
  show ?thesis
  proof (rule buffer_lookup_run [OF ok, of d])
    fix q b
    assume q: "published (made_by c) (pool_heap (store_of c)) q d" "buf_at (pool_heap (store_of c)) q = Some b"
      "buffer_lookup d (store_of c) = (Ok (Some q), set_refs q (CRYPTO_refcount_inc (cb_references b)) (store_of c))"
    then show ?thesis using inv_take [OF assms(2) q(2), of d] Hit by (auto simp: published_def)
  qed (use Hit in simp)
next
  case (Miss i d s)
  then have "s = store_of c" by (rule_tac buffer_lookup_run [OF pool_invD(1) [OF assms(2)], of d]) auto
  then show ?thesis using inv_thread [OF assms(2), of i "Missed d"] Miss by simp
next
  case (Make i d p s)
  then show ?thesis using inv_make [OF assms(2), of i d] by (rule_tac buffer_make_run [of d True "store_of c"]) auto
next
  case (Make_fails i d s)
  then have "s = store_of c" by (rule_tac buffer_make_run [of d True "store_of c"]) auto
  then show ?thesis using inv_thread [OF assms(2), of i Idle] Make_fails by simp
next
  case (Insert i p d q s)
  note ok = pool_invD(1) [OF assms(2)] and p = made_byI [OF Insert(2)]
  obtain b where b: "buf_at (pool_heap (store_of c)) p = Some b" "cb_pooled b" "cb_data b = d" using pool_invD(3) [OF assms(2) Insert(2)] by blast
  show ?thesis
  proof (rule buffer_insert_run [OF ok p b(1,2)])
    fix t
    assume "buffer_insert p (store_of c) = (Ok p, store_of c\<lparr>pool_bufs := t\<rparr>)" "pool_ok (made_by c - {p}) (store_of c\<lparr>pool_bufs := t\<rparr>)"
    then show ?thesis using inv_publish [OF assms(2) Insert(2), of "store_of c\<lparr>pool_bufs := t\<rparr>"] Insert by simp
  next
    fix r and e :: crypto_buffer_st
    let ?s = "set_refs r (CRYPTO_refcount_inc (cb_references e)) (store_of c)"
    let ?c = "c\<lparr>store_of := ?s, held := add_mset (r, d) (held c)\<rparr>"
    assume r: "published (made_by c) (pool_heap (store_of c)) r (cb_data b)" "buf_at (pool_heap (store_of c)) r = Some e"
      "buffer_insert p (store_of c) = (Ok r, gone p ?s)" "pool_ok (made_by c - {p}) (gone p ?s)"
    have "pool_inv ?c" by (rule inv_take [OF assms(2) r(2)]) (use r(1,2) b(3) in \<open>auto simp: published_def\<close>)
    from inv_drop [OF this, of i p d] have "pool_inv (?c\<lparr>store_of := gone p ?s, thread := (thread c)(i := Idle)\<rparr>)"
      using r(4) Insert(2) by (simp add: made_by_def)
    moreover have "c' = ?c\<lparr>store_of := gone p ?s, thread := (thread c)(i := Idle)\<rparr>"
      using r(3) Insert(1,3) by (intro pool_system.equality) simp_all
    ultimately show ?thesis by simp
  qed (use Insert in simp)
next
  case (Insert_fails i p d s)
  note ok = pool_invD(1) [OF assms(2)] and p = made_byI [OF Insert_fails(2)]
  obtain b where b: "buf_at (pool_heap (store_of c)) p = Some b" "cb_pooled b" "cb_data b = d" using pool_invD(3) [OF assms(2) Insert_fails(2)] by blast
  show ?thesis
    by (rule buffer_insert_run [OF ok p b(1,2)]) (use Insert_fails inv_drop [OF assms(2) Insert_fails(2)] in auto)
next
  case (Plain d p s)
  then show ?thesis using inv_plain [OF assms(2), of d] by (rule_tac buffer_make_run [of d False "store_of c"]) (auto simp: CRYPTO_BUFFER_new_def)
next
  case (Up_ref p d s)
  obtain b where b: "buf_at (pool_heap (store_of c)) p = Some b" "cb_data b = d" "p \<notin> made_by c" using held_buffer [OF assms(2) Up_ref(2)] .
  have "s = set_refs p (CRYPTO_refcount_inc (cb_references b)) (store_of c)"
    using Up_ref(3) by (simp add: CRYPTO_BUFFER_up_ref_def with_buf_run [OF b(1)] put_references_run [OF b(1)])
  then show ?thesis using inv_take [OF assms(2) b] Up_ref(1) by simp
next
  case (Free p d s)
  then show ?thesis using inv_release(2) [OF assms(2) Free(2,3)] by simp
qed

lemma new_pool_inv:
  assumes "CRYPTO_BUFFER_POOL_new malloc fresh = Some s" "malloc_ok malloc"
  shows "pool_inv \<lparr>store_of = s, thread = (\<lambda>i. Idle), held = {#}\<rparr>"
proof -
  obtain bufs where bufs: "lh_new malloc CRYPTO_BUFFER_hash CRYPTO_BUFFER_cmp = Some bufs"
    "s = \<lparr>pool_heap = [], pool_bufs = bufs, pool_malloc = malloc, pool_fresh = fresh\<rparr>"
    using assms(1) by (auto simp: CRYPTO_BUFFER_POOL_new_def split: if_splits option.splits)
  note new = lh_new_run [OF bufs(1) buffer_laws [of "[]"]]
  have "bufs_ok [] bufs" by (rule bufs_okI [OF new(1,4,5)]) (simp add: new(2))
  then have "pool_ok {} s" using assms(2) bufs(2) new(2) by (simp add: pool_ok_def published_def buf_at_def)
  then show ?thesis using bufs(2) by (simp add: pool_inv_def made_by_def buf_at_def)
qed

lemma held_shared:
  assumes "pool_inv c" "(p, d) \<in># held c" "(q, e) \<in># held c" "buf_at (pool_heap (store_of c)) p = Some b" "cb_pooled b"
    "buf_at (pool_heap (store_of c)) q = Some b'" "cb_pooled b'"
  shows "p = q \<longleftrightarrow> d = e"
proof -
  have "published (made_by c) (pool_heap (store_of c)) p d" "published (made_by c) (pool_heap (store_of c)) q e"
    using held_buffer [OF assms(1,2)] held_buffer [OF assms(1,3)] assms(4-7) by (auto simp: published_def)
  then show ?thesis using published_unique [OF pool_invD(1) [OF assms(1)]] by (auto simp: published_def)
qed

lemma insert_defined:
  assumes "pool_inv c" "thread c i = Made p d"
  shows "fst (buffer_insert p (store_of c)) \<noteq> Ub"
proof -
  obtain b where b: "buf_at (pool_heap (store_of c)) p = Some b" "cb_pooled b" using pool_invD(3) [OF assms] by blast
  show ?thesis by (rule buffer_insert_run [OF pool_invD(1) [OF assms(1)] made_byI [OF assms(2)] b]) simp_all
qed

lemma empty_pool:
  assumes "pool_inv c" "held c = {#}" "\<forall>i p d. thread c i \<noteq> Made p d"
    "\<forall>p b. buf_at (pool_heap (store_of c)) p = Some b \<longrightarrow> cb_references b \<noteq> CRYPTO_REFCOUNT_MAX"
  shows "CRYPTO_BUFFER_POOL_free (store_of c) = (Ok (), store_of c)" "buf_at (pool_heap (store_of c)) p = None"
proof -
  let ?s = "store_of c"
  have made: "made_by c = {}" using assms(3) by (simp add: made_by_def)
  have none: "buf_at (pool_heap ?s) p = None" for p
  proof (rule ccontr)
    assume "buf_at (pool_heap ?s) p \<noteq> None"
    then obtain b where b: "buf_at (pool_heap ?s) p = Some b" by blast
    then have "0 < refs_held c p" using pool_invD(2) [OF assms(1) b] assms(4) made by (auto simp: counted_def)
    then show False using assms(2) by (simp add: refs_held_def)
  qed
  then show "buf_at (pool_heap ?s) p = None" .
  have s: "bufs_ok (pool_heap ?s) (pool_bufs ?s)" using pool_invD(1) [OF assms(1)] by (simp add: pool_ok_def)
  then have "lh_items (pool_bufs ?s) = []" using none by (cases "lh_items (pool_bufs ?s)") (auto simp: bufs_ok_def)
  then have "lh_num (pool_bufs ?s) = 0" using s by (simp add: bufs_ok_def lh_wf_def)
  then show "CRYPTO_BUFFER_POOL_free ?s = (Ok (), ?s)"
    by (simp add: CRYPTO_BUFFER_POOL_free_def seq_def on_bufs_run [OF s] lh_num_items_def act_run)
qed

end
