(* ===== verification/Pool_Props.thy ===== *)
theory Pool_Props
  imports Pool_Shared
begin

text \<open>
  The property of buffer pools.
\<close>

text \<open>
  C31. From a new pool, after any interleaving of threads that create, copy and free references: every held
  reference points to a live buffer with the contents asked for; within the pool, equal contents are the same
  buffer; a reference count is the number of references held, unless it has reached its largest value; no
  further call is undefined; and once nothing is held the pool can be freed and no buffer is left.
\<close>

theorem pool_shares:
  assumes "CRYPTO_BUFFER_POOL_new malloc fresh = Some s" "malloc_ok malloc"
    "pool_step\<^sup>*\<^sup>* \<lparr>store_of = s, thread = (\<lambda>i. Idle), held = {#}\<rparr> c"
  shows "(\<forall>(p, d) \<in># held c. CRYPTO_BUFFER_data p (store_of c) = (Ok d, store_of c)) \<and>
    (\<forall>(p, d) \<in># held c. \<forall>(q, e) \<in># held c. \<forall>b b'. buf_at (pool_heap (store_of c)) p = Some b \<and> cb_pooled b \<and>
      buf_at (pool_heap (store_of c)) q = Some b' \<and> cb_pooled b' \<longrightarrow> (p = q \<longleftrightarrow> d = e)) \<and>
    (\<forall>p b. buf_at (pool_heap (store_of c)) p = Some b \<and> p \<notin> made_by c \<and> cb_references b \<noteq> CRYPTO_REFCOUNT_MAX \<longrightarrow>
      cb_references b = refs_held c p) \<and>
    (\<forall>d. fst (buffer_lookup d (store_of c)) \<noteq> Ub) \<and> (\<forall>i p d. thread c i = Made p d \<longrightarrow> fst (buffer_insert p (store_of c)) \<noteq> Ub) \<and>
    (\<forall>(p, d) \<in># held c. fst (CRYPTO_BUFFER_free p (store_of c)) = Ok () \<and> fst (CRYPTO_BUFFER_up_ref p (store_of c)) = Ok ()) \<and>
    (held c = {#} \<and> (\<forall>i p d. thread c i \<noteq> Made p d) \<and>
      (\<forall>p b. buf_at (pool_heap (store_of c)) p = Some b \<longrightarrow> cb_references b \<noteq> CRYPTO_REFCOUNT_MAX) \<longrightarrow>
      CRYPTO_BUFFER_POOL_free (store_of c) = (Ok (), store_of c) \<and> (\<forall>p. buf_at (pool_heap (store_of c)) p = None))"
proof -
  have inv: "pool_inv c" using assms(3) new_pool_inv [OF assms(1,2)] by (induction rule: rtranclp_induct) (auto intro: pool_step_inv)
  have data: "CRYPTO_BUFFER_data p (store_of c) = (Ok d, store_of c)" if "(p, d) \<in># held c" for p d
    using pool_invD(5) [OF inv that] by (auto simp: CRYPTO_BUFFER_data_def with_buf_run act_run)
  have shared: "p = q \<longleftrightarrow> d = e" if "(p, d) \<in># held c" "(q, e) \<in># held c" "buf_at (pool_heap (store_of c)) p = Some b" "cb_pooled b"
      "buf_at (pool_heap (store_of c)) q = Some b'" "cb_pooled b'" for p d q e b b'
    using held_shared [OF inv that] .
  have counts: "cb_references b = refs_held c p"
    if "buf_at (pool_heap (store_of c)) p = Some b" "p \<notin> made_by c" "cb_references b \<noteq> CRYPTO_REFCOUNT_MAX" for p b
    using pool_invD(2) [OF inv that(1)] that(2,3) by (simp add: counted_def)
  have lookup: "fst (buffer_lookup d (store_of c)) \<noteq> Ub" for d
    by (rule buffer_lookup_run [OF pool_invD(1) [OF inv], of d]) simp_all
  have free: "fst (CRYPTO_BUFFER_free p (store_of c)) = Ok ()" if "(p, d) \<in># held c" for p d
    using inv_release(1) [OF inv that prod.collapse [symmetric]] .
  have up_ref: "fst (CRYPTO_BUFFER_up_ref p (store_of c)) = Ok ()" if "(p, d) \<in># held c" for p d
    using pool_invD(5) [OF inv that] by (auto simp: CRYPTO_BUFFER_up_ref_def with_buf_run put_references_run)
  show ?thesis
  proof (intro conjI)
    show "\<forall>(p, d) \<in># held c. CRYPTO_BUFFER_data p (store_of c) = (Ok d, store_of c)" using data by blast
    show "\<forall>(p, d) \<in># held c. \<forall>(q, e) \<in># held c. \<forall>b b'. buf_at (pool_heap (store_of c)) p = Some b \<and> cb_pooled b \<and>
      buf_at (pool_heap (store_of c)) q = Some b' \<and> cb_pooled b' \<longrightarrow> (p = q \<longleftrightarrow> d = e)" using shared by blast
    show "\<forall>p b. buf_at (pool_heap (store_of c)) p = Some b \<and> p \<notin> made_by c \<and> cb_references b \<noteq> CRYPTO_REFCOUNT_MAX \<longrightarrow>
      cb_references b = refs_held c p" using counts by blast
    show "\<forall>d. fst (buffer_lookup d (store_of c)) \<noteq> Ub" using lookup by blast
    show "\<forall>i p d. thread c i = Made p d \<longrightarrow> fst (buffer_insert p (store_of c)) \<noteq> Ub" using insert_defined [OF inv] by blast
    show "\<forall>(p, d) \<in># held c. fst (CRYPTO_BUFFER_free p (store_of c)) = Ok () \<and> fst (CRYPTO_BUFFER_up_ref p (store_of c)) = Ok ()"
      using free up_ref by blast
  qed (use empty_pool [OF inv] in blast)
qed

text \<open>Two references to one buffer, taken one after the other.\<close>

definition some_malloc :: "nat \<Rightarrow> nat \<Rightarrow> bool" where
  "some_malloc live n \<longleftrightarrow> live < 100 \<and> n < 10000"

lemma some_malloc_ok: "malloc_ok some_malloc"
  by (simp add: malloc_ok_def some_malloc_def)

lemma sample_insert:
  assumes "CRYPTO_BUFFER_POOL_new some_malloc (\<lambda>n. 0) = Some s"
  shows "\<exists>t. buffer_insert 0 (added True [1, 2] s) = (Ok 0, t) \<and> pool_heap t = pool_heap (added True [1, 2] s)"
proof -
  let ?s = "added True [1, 2] s"
  have s: "pool_heap s = []" "lh_num (pool_bufs s) = 0" "pool_malloc s = some_malloc" "lh_num_buckets (pool_bufs s) = 16"
    "lh_buckets (pool_bufs s) = replicate 16 []" "lh_hash (pool_bufs s) = CRYPTO_BUFFER_hash"
    "lh_callback_depth (pool_bufs s) = 0"
    using assms by (auto simp: CRYPTO_BUFFER_POOL_new_def lh_new_def some_malloc_def)
  have heap: "pool_heap ?s = [Some \<lparr>cb_pooled = True, cb_data = [1, 2], cb_references = 1\<rparr>]" "pool_bufs ?s = pool_bufs s"
    "pool_malloc ?s = some_malloc" by (simp_all add: added_def s)
  define h where "h = OPENSSL_hash32 [1, 2]"
  have hash: "call_hash (pool_heap ?s) CRYPTO_BUFFER_hash 0 = h"
    by (simp add: call_hash_def CRYPTO_BUFFER_hash_def heap data_at_def buf_at_def h_def)
  have i: "unat h mod 16 < 16" by simp
  have find: "get_next_ptr_and_hash (call_hash (pool_heap ?s)) (call_cmp (pool_heap ?s)) 0 (pool_bufs s) = (Ok (h, unat h mod 16, 0), pool_bufs s)"
    using i by (simp add: get_next_ptr_and_hash_def bucket_find_def seq_def hash s Let_def act_run del: mod_less_divisor)
  have buf: "with_buf 0 f ?s = f \<lparr>cb_pooled = True, cb_data = [1, 2], cb_references = 1\<rparr> ?s" for f
    by (simp add: with_buf_def heap buf_at_def)
  have live: "list_all (list_all (\<lambda>it. buf_at (pool_heap ?s) (it_data it) \<noteq> None)) (lh_buckets (pool_bufs s))"
    by (simp add: s list_all_iff)
  have on: "on_bufs f ?s = (case f (pool_heap ?s) (pool_bufs s) of (r, t) \<Rightarrow> (r, ?s\<lparr>pool_bufs := t\<rparr>))" for f :: "buffer_heap \<Rightarrow> ('r, buffer_table) act"
    using live by (simp add: on_bufs_def heap)
  have same: "?s\<lparr>pool_bufs := pool_bufs s\<rparr> = ?s" by (simp add: added_def)
  have none: "item_at (unat h mod 16, 0) (pool_bufs s) = None" using i by (simp add: item_at_def s del: mod_less_divisor)
  have "lh_retrieve (call_hash (pool_heap ?s)) (call_cmp (pool_heap ?s)) 0 (pool_bufs s) = (Ok None, pool_bufs s)"
    by (simp add: lh_retrieve_def seq_def find act_run none)
  moreover have "\<exists>t. lh_insert some_malloc (call_hash (pool_heap ?s)) (call_cmp (pool_heap ?s)) 0 (pool_bufs s) = (Ok None, t)"
    by (simp add: lh_insert_def seq_def find act_run none s put_chain_def lh_maybe_resize_def some_malloc_def)
  ultimately show ?thesis
    by (auto simp: buffer_insert_def buf seq_def on heap(3) act_run same)
qed

text \<open>A thread creates a buffer with two bytes in the pool; then another asks for the same bytes and gets the same buffer.\<close>

lemma sample_run:
  assumes "CRYPTO_BUFFER_POOL_new some_malloc (\<lambda>n. 0) = Some s"
  obtains c q where "pool_step\<^sup>*\<^sup>* \<lparr>store_of = s, thread = (\<lambda>i. Idle), held = {#}\<rparr> c" "held c = {#(q, [1, 2]), (0, [1, 2])#}"
    "\<exists>b. buf_at (pool_heap (store_of c)) 0 = Some b \<and> cb_pooled b" "\<exists>b. buf_at (pool_heap (store_of c)) q = Some b \<and> cb_pooled b"
proof -
  let ?d = "[1, 2] :: byte list"
  let ?c = "\<lparr>store_of = s, thread = (\<lambda>i. Idle), held = {#}\<rparr>"
  let ?c1 = "?c\<lparr>store_of := s, thread := (thread ?c)(0 := Missed ?d)\<rparr>"
  let ?s = "added True ?d s"
  let ?c2 = "?c1\<lparr>store_of := ?s, thread := (thread ?c1)(0 := Made 0 ?d)\<rparr>"
  have s: "pool_heap s = []" "lh_num (pool_bufs s) = 0" "pool_malloc s = some_malloc"
    using assms by (auto simp: CRYPTO_BUFFER_POOL_new_def lh_new_def some_malloc_def)
  obtain t where t: "buffer_insert 0 ?s = (Ok 0, t)" and heap: "pool_heap t = pool_heap ?s" using sample_insert [OF assms] by blast
  let ?c3 = "?c2\<lparr>store_of := t, thread := (thread ?c2)(0 := Idle), held := add_mset (0, ?d) (held ?c2)\<rparr>"
  have inv: "pool_inv ?c" by (rule new_pool_inv [OF assms some_malloc_ok])
  have "buffer_lookup ?d s = (Ok None, s)"
    using buffer_lookup_run [OF pool_invD(1) [OF inv], of ?d] s(1) by (auto simp: published_def buf_at_def)
  then have one: "pool_step ?c ?c1" using pool_step.Miss [of ?c 0 ?d s] by simp
  have "buffer_make ?d True s = (Ok 0, ?s)"
    using s by (simp add: buffer_make_def seq_basic act_run some_malloc_def added_def)
  then have two: "pool_step ?c1 ?c2" using pool_step.Make [of ?c1 0 ?d 0 ?s] by simp
  have three: "pool_step ?c2 ?c3" using pool_step.Insert [of ?c2 0 0 ?d 0 t] t by simp
  have inv3: "pool_inv ?c3" by (rule pool_step_inv [OF three pool_step_inv [OF two pool_step_inv [OF one inv]]])
  have at: "\<exists>b. buf_at (pool_heap t) 0 = Some b \<and> cb_pooled b \<and> cb_data b = ?d" unfolding heap using s(1) by (simp add: buf_at_added)
  have pub: "published (made_by ?c3) (pool_heap t) 0 ?d" using at by (simp add: published_def made_by_def)
  show thesis
  proof (rule buffer_lookup_run [OF pool_invD(1) [OF inv3], of ?d])
    fix q b
    assume q: "published (made_by ?c3) (pool_heap (store_of ?c3)) q ?d"
      "buffer_lookup ?d (store_of ?c3) = (Ok (Some q), set_refs q (CRYPTO_refcount_inc (cb_references b)) (store_of ?c3))"
    let ?u = "set_refs q (CRYPTO_refcount_inc (cb_references b)) t"
    let ?c4 = "?c3\<lparr>store_of := ?u, held := add_mset (q, ?d) (held ?c3)\<rparr>"
    have "pool_step ?c3 ?c4" using pool_step.Hit [of ?c3 1 ?d q ?u] q(2) by simp
    then have steps: "pool_step\<^sup>*\<^sup>* ?c ?c4" using one two three by (meson rtranclp.rtrancl_into_rtrancl rtranclp.rtrancl_refl)
    show thesis
      by (rule that [OF steps]) (use q(1) at in \<open>auto simp: buf_at_set_refs published_def\<close>)
  qed (use pub in simp)
qed

theorem pool_shares_witness:
  "\<exists>s c. CRYPTO_BUFFER_POOL_new some_malloc (\<lambda>n. 0) = Some s \<and>
    pool_step\<^sup>*\<^sup>* \<lparr>store_of = s, thread = (\<lambda>i. Idle), held = {#}\<rparr> c \<and> held c = {#(0, [1, 2]), (0, [1, 2])#} \<and>
    CRYPTO_BUFFER_data 0 (store_of c) = (Ok [1, 2], store_of c) \<and> fst (CRYPTO_BUFFER_free 0 (store_of c)) = Ok ()"
proof -
  obtain s where s: "CRYPTO_BUFFER_POOL_new some_malloc (\<lambda>n. 0) = Some s"
    by (auto simp: CRYPTO_BUFFER_POOL_new_def lh_new_def some_malloc_def)
  obtain c q where c: "pool_step\<^sup>*\<^sup>* \<lparr>store_of = s, thread = (\<lambda>i. Idle), held = {#}\<rparr> c" "held c = {#(q, [1, 2]), (0, [1, 2])#}"
    "\<exists>b. buf_at (pool_heap (store_of c)) 0 = Some b \<and> cb_pooled b" "\<exists>b. buf_at (pool_heap (store_of c)) q = Some b \<and> cb_pooled b"
    by (rule sample_run [OF s])
  note facts = pool_shares [OF s some_malloc_ok c(1)]
  have "q = 0" using facts c(2-4) by auto
  then show ?thesis using s c(1,2) facts by (intro exI [of _ s] exI [of _ c]) simp
qed

end
