(* ===== verification/Stack.thy ===== *)
theory Stack
  imports Prelude
begin

text \<open>
  Stacks of pointers (crypto/stack/stack.c): arrays that grow, with an optional comparison function for
  sorting and searching.

  A pointer is of type \<open>'a option\<close>, and \<open>None\<close> is the null pointer; so is a null stack, which every
  function accepts.  The array has as many entries as are allocated.  A comparison function is of type \<open>'c\<close>
  and called through the helper the caller passes.  \<open>malloc n\<close> says whether \<open>n\<close> bytes are allocated, and
  \<open>fresh\<close> is what new memory holds.
\<close>

section \<open>Data\<close>

record ('a, 'c) stack_st =
  sk_count :: nat
  sk_data :: "'a option list"
  sk_sorted :: bool
  sk_num_alloc :: nat
  sk_comp :: "'c option"

type_synonym ('r, 'a, 'c) sk_act = "('r, ('a, 'c) stack_st option) act"

abbreviation (input) kMinSize :: nat where "kMinSize \<equiv> 4"
abbreviation (input) stack_size :: nat where "stack_size \<equiv> 40"
abbreviation (input) ptr_size :: nat where "ptr_size \<equiv> 8"

text \<open>A function on a stack, with its result for a null stack.\<close>

definition with_sk :: "'r \<Rightarrow> (('a, 'c) stack_st \<Rightarrow> ('r, 'a, 'c) sk_act) \<Rightarrow> ('r, 'a, 'c) sk_act" where
  "with_sk null f = (\<lambda>s. case s of None \<Rightarrow> (Ok null, s) | Some sk \<Rightarrow> f sk s)"

definition put_sk :: "('a, 'c) stack_st \<Rightarrow> (unit, 'a, 'c) sk_act" where
  "put_sk sk = update (\<lambda>_. Some sk)"

text \<open>Moving \<open>n\<close> entries inside an array, which must contain them.\<close>

definition memmove :: "'a list \<Rightarrow> nat \<Rightarrow> nat \<Rightarrow> nat \<Rightarrow> 'a list option" where
  "memmove xs dst src n =
     (if src + n \<le> length xs \<and> dst + n \<le> length xs then Some (take dst xs @ take n (drop src xs) @ drop (dst + n) xs) else None)"

section \<open>Making and freeing\<close>

definition sk_new :: "(nat \<Rightarrow> bool) \<Rightarrow> 'c option \<Rightarrow> ('a, 'c) stack_st option" where
  "sk_new malloc cmp =
     (if \<not> malloc stack_size \<or> \<not> malloc (ptr_size * kMinSize) then None
      else Some \<lparr>sk_count = 0, sk_data = replicate kMinSize None, sk_sorted = False, sk_num_alloc = kMinSize, sk_comp = cmp\<rparr>)"

definition sk_new_null :: "(nat \<Rightarrow> bool) \<Rightarrow> ('a, 'c) stack_st option" where
  "sk_new_null malloc = sk_new malloc None"

definition sk_free :: "(unit, 'a, 'c) sk_act" where
  "sk_free = update (\<lambda>_. None)"

text \<open>Freeing the elements works on the state \<open>u\<close> of the caller, which is the result.\<close>

primrec free_elements :: "('a \<Rightarrow> 'u \<Rightarrow> 'u) \<Rightarrow> 'a option list \<Rightarrow> 'u \<Rightarrow> 'u" where
  "free_elements free [] u = u"
| "free_elements free (x # xs) u = free_elements free xs (case x of None \<Rightarrow> u | Some p \<Rightarrow> free p u)"

definition sk_pop_free_ex :: "('f \<Rightarrow> 'a \<Rightarrow> 'u \<Rightarrow> 'u) \<Rightarrow> 'f \<Rightarrow> 'u \<Rightarrow> ('u, 'a, 'c) sk_act" where
  "sk_pop_free_ex call_free_func free_func u = with_sk u (\<lambda>sk.
     if sk_count sk > length (sk_data sk) then undef
     else seq sk_free (\<lambda>_. ret (free_elements (call_free_func free_func) (take (sk_count sk) (sk_data sk)) u)))"

definition sk_pop_free :: "('a \<Rightarrow> 'u \<Rightarrow> 'u) \<Rightarrow> 'u \<Rightarrow> ('u, 'a, 'c) sk_act" where
  "sk_pop_free free_func u = sk_pop_free_ex (\<lambda>func ptr. func ptr) free_func u"

section \<open>Entries\<close>

definition sk_num :: "(nat, 'a, 'c) sk_act" where
  "sk_num = with_sk 0 (\<lambda>sk. ret (sk_count sk))"

definition sk_zero :: "(unit, 'a, 'c) sk_act" where
  "sk_zero = with_sk () (\<lambda>sk.
     if sk_count sk = 0 then ret ()
     else if sk_count sk > length (sk_data sk) then undef
     else put_sk (sk\<lparr>sk_data := replicate (sk_count sk) None @ drop (sk_count sk) (sk_data sk), sk_count := 0, sk_sorted := False\<rparr>))"

definition sk_value :: "nat \<Rightarrow> ('a option, 'a, 'c) sk_act" where
  "sk_value i = with_sk None (\<lambda>sk.
     if i \<ge> sk_count sk then ret None else if i \<ge> length (sk_data sk) then undef else ret (sk_data sk ! i))"

definition sk_set :: "nat \<Rightarrow> 'a option \<Rightarrow> ('a option, 'a, 'c) sk_act" where
  "sk_set i p = with_sk None (\<lambda>sk.
     if i \<ge> sk_count sk then ret None
     else if i \<ge> length (sk_data sk) then undef
     else seq (put_sk (sk\<lparr>sk_data := (sk_data sk)[i := p]\<rparr>)) (\<lambda>_. ret p))"

text \<open>The array is doubled, or grows by one entry where doubling overflows.\<close>

definition grown_alloc :: "nat \<Rightarrow> nat option" where
  "grown_alloc num_alloc =
     (let overflows = (\<lambda>new_alloc. new_alloc < num_alloc \<or> (new_alloc * ptr_size mod 2 ^ 64) div ptr_size \<noteq> new_alloc);
          new_alloc = num_alloc * 2 mod 2 ^ 64;
          new_alloc = (if overflows new_alloc then (num_alloc + 1) mod 2 ^ 64 else new_alloc)
      in if overflows new_alloc then None else Some new_alloc)"

definition sk_grow :: "(nat \<Rightarrow> bool) \<Rightarrow> (nat \<Rightarrow> 'a option) \<Rightarrow> ('a, 'c) stack_st \<Rightarrow> ('a, 'c) stack_st option" where
  "sk_grow malloc fresh sk =
     (if sk_num_alloc sk \<le> (sk_count sk + 1) mod 2 ^ 64 then
        case grown_alloc (sk_num_alloc sk) of
          None \<Rightarrow> None
        | Some new_alloc \<Rightarrow>
            if \<not> malloc (new_alloc * ptr_size) then None
            else Some (sk\<lparr>sk_data := take new_alloc (sk_data sk) @ map fresh [length (sk_data sk)..<new_alloc], sk_num_alloc := new_alloc\<rparr>)
      else Some sk)"

definition sk_insert :: "(nat \<Rightarrow> bool) \<Rightarrow> (nat \<Rightarrow> 'a option) \<Rightarrow> 'a option \<Rightarrow> nat \<Rightarrow> (nat, 'a, 'c) sk_act" where
  "sk_insert malloc fresh p where' = with_sk 0 (\<lambda>sk. case sk_grow malloc fresh sk of
       None \<Rightarrow> ret 0
     | Some sk \<Rightarrow>
         let n = sk_count sk;
             data = (if where' \<ge> n then (if n \<ge> length (sk_data sk) then None else Some ((sk_data sk)[n := p]))
                     else map_option (\<lambda>d. d[where' := p]) (memmove (sk_data sk) (where' + 1) where' (n - where')))
         in case data of
              None \<Rightarrow> undef
            | Some d \<Rightarrow> seq (put_sk (sk\<lparr>sk_data := d, sk_count := (n + 1) mod 2 ^ 64, sk_sorted := False\<rparr>)) (\<lambda>_. ret ((n + 1) mod 2 ^ 64)))"

definition sk_delete :: "nat \<Rightarrow> ('a option, 'a, 'c) sk_act" where
  "sk_delete where' = with_sk None (\<lambda>sk.
     let n = sk_count sk
     in if where' \<ge> n then ret None
        else if where' \<ge> length (sk_data sk) then undef
        else case (if where' \<noteq> n - 1 then memmove (sk_data sk) where' (where' + 1) (n - where' - 1) else Some (sk_data sk)) of
            None \<Rightarrow> undef
          | Some d \<Rightarrow> seq (put_sk (sk\<lparr>sk_data := d, sk_count := n - 1\<rparr>)) (\<lambda>_. ret (sk_data sk ! where')))"

text \<open>The first index at which a test holds.\<close>

primrec first_index :: "('p \<Rightarrow> bool) \<Rightarrow> 'p list \<Rightarrow> nat option" where
  "first_index found [] = None"
| "first_index found (x # xs) = (if found x then Some 0 else map_option Suc (first_index found xs))"

text \<open>The loops over the entries; the array must contain them.\<close>

definition scan :: "('a option \<Rightarrow> bool) \<Rightarrow> ('a, 'c) stack_st \<Rightarrow> (nat option, 'a, 'c) sk_act" where
  "scan found sk = (if sk_count sk > length (sk_data sk) then undef else ret (first_index found (take (sk_count sk) (sk_data sk))))"

definition sk_delete_ptr :: "'a option \<Rightarrow> ('a option, 'a, 'c) sk_act" where
  "sk_delete_ptr p = with_sk None (\<lambda>sk. seq (scan (\<lambda>x. x = p) sk) (\<lambda>r. case r of None \<Rightarrow> ret None | Some i \<Rightarrow> sk_delete i))"

section \<open>Searching\<close>

text \<open>The binary search between \<open>lo\<close> and \<open>hi\<close>; a failed assertion is \<open>Ub\<close>.\<close>

function search_loop :: "('a option \<Rightarrow> int) \<Rightarrow> 'a option list \<Rightarrow> nat \<Rightarrow> nat \<Rightarrow> nat option outcome" where
  "search_loop cmp data lo hi =
     (if \<not> lo < hi then (if lo = hi then Ok None else Ub)
      else
        let mid = lo + (hi - lo - 1) div 2
        in if \<not> (lo \<le> mid \<and> mid < hi) \<or> mid \<ge> length data then Ub
           else
             let r = cmp (data ! mid)
             in if r > 0 then search_loop cmp data (mid + 1) hi
                else if r < 0 then search_loop cmp data lo mid
                else if hi - lo = 1 then Ok (Some mid)
                else if \<not> mid + 1 < hi then Ub
                else search_loop cmp data lo (mid + 1))"
  by pat_completeness auto

termination
  by (relation "measure (\<lambda>(cmp, data, lo, hi). hi - lo)") (auto, linarith+)

declare search_loop.simps [simp del]

definition sk_is_sorted :: "(bool, 'a, 'c) sk_act" where
  "sk_is_sorted = with_sk True (\<lambda>sk. ret (sk_sorted sk))"

text \<open>The result is the index found.\<close>

definition sk_find :: "('c \<Rightarrow> 'a option \<Rightarrow> 'a option \<Rightarrow> int) \<Rightarrow> 'a option \<Rightarrow> (nat option, 'a, 'c) sk_act" where
  "sk_find call_cmp_func p = with_sk None (\<lambda>sk. case sk_comp sk of
       None \<Rightarrow> scan (\<lambda>x. x = p) sk
     | Some cmp \<Rightarrow>
         if p = None then ret None
         else seq sk_is_sorted (\<lambda>sorted.
           if \<not> sorted then scan (\<lambda>elem. call_cmp_func cmp p elem = 0) sk
           else (\<lambda>s. (search_loop (call_cmp_func cmp p) (sk_data sk) 0 (sk_count sk), s))))"

section \<open>The rest\<close>

definition sk_shift :: "('a option, 'a, 'c) sk_act" where
  "sk_shift = with_sk None (\<lambda>sk. if sk_count sk = 0 then ret None else sk_delete 0)"

definition sk_push :: "(nat \<Rightarrow> bool) \<Rightarrow> (nat \<Rightarrow> 'a option) \<Rightarrow> 'a option \<Rightarrow> (nat, 'a, 'c) sk_act" where
  "sk_push malloc fresh p = with_sk 0 (\<lambda>sk. sk_insert malloc fresh p (sk_count sk))"

definition sk_pop :: "('a option, 'a, 'c) sk_act" where
  "sk_pop = with_sk None (\<lambda>sk. if sk_count sk = 0 then ret None else sk_delete (sk_count sk - 1))"

text \<open>A copy of the stack, which is the result.\<close>

definition sk_dup :: "(nat \<Rightarrow> bool) \<Rightarrow> (nat \<Rightarrow> 'a option) \<Rightarrow> (('a, 'c) stack_st option, 'a, 'c) sk_act" where
  "sk_dup malloc fresh = with_sk None (\<lambda>sk. case sk_new malloc (sk_comp sk) of
       None \<Rightarrow> ret None
     | Some r \<Rightarrow>
         if \<not> malloc (ptr_size * sk_num_alloc sk mod 2 ^ 64) then ret None
         else
           let s = take (sk_num_alloc sk) (sk_data r) @ map fresh [length (sk_data r)..<sk_num_alloc sk]
           in if sk_count sk > length (sk_data sk) \<or> sk_count sk > length s then undef
              else ret (Some (r\<lparr>sk_count := sk_count sk, sk_data := take (sk_count sk) (sk_data sk) @ drop (sk_count sk) s,
                sk_sorted := sk_sorted sk, sk_num_alloc := sk_num_alloc sk, sk_comp := sk_comp sk\<rparr>)))"

definition sk_sort :: "('c \<Rightarrow> 'a option \<Rightarrow> 'a option \<Rightarrow> int) \<Rightarrow> (unit, 'a, 'c) sk_act" where
  "sk_sort call = with_sk () (\<lambda>sk. case sk_comp sk of
       None \<Rightarrow> ret ()
     | Some cmp \<Rightarrow>
         if sk_sorted sk then ret ()
         else if sk_count sk \<ge> 2 then
           if sk_count sk > length (sk_data sk) then undef
           else put_sk (sk\<lparr>sk_data := qsort (call cmp) (take (sk_count sk) (sk_data sk)) @ drop (sk_count sk) (sk_data sk), sk_sorted := True\<rparr>)
         else put_sk (sk\<lparr>sk_sorted := True\<rparr>))"

text \<open>The result is the comparison function before; a null stack is not accepted.\<close>

definition sk_set_cmp_func :: "'c option \<Rightarrow> ('c option, 'a, 'c) sk_act" where
  "sk_set_cmp_func cmp = (\<lambda>s. case s of
       None \<Rightarrow> (Ub, s)
     | Some sk \<Rightarrow> (Ok (sk_comp sk),
         Some (sk\<lparr>sk_sorted := (if sk_comp sk \<noteq> cmp then False else sk_sorted sk), sk_comp := cmp\<rparr>)))"

text \<open>
  Copying the elements: the copy function works on the state of the caller and may fail; then the copies
  made so far are freed.
\<close>

primrec copy_elements :: "('a \<Rightarrow> 'u \<Rightarrow> 'a option \<times> 'u) \<Rightarrow> ('a \<Rightarrow> 'u \<Rightarrow> 'u) \<Rightarrow> 'a option list \<Rightarrow> 'a option list \<Rightarrow> 'u \<Rightarrow>
    'a option list option \<times> 'u" where
  "copy_elements copy free copied [] u = (Some copied, u)"
| "copy_elements copy free copied (x # xs) u = (case x of
     None \<Rightarrow> copy_elements copy free (copied @ [None]) xs u
   | Some p \<Rightarrow> (case copy p u of
       (None, v) \<Rightarrow> (None, free_elements free copied v)
     | (Some q, v) \<Rightarrow> copy_elements copy free (copied @ [Some q]) xs v))"

definition sk_deep_copy :: "(nat \<Rightarrow> bool) \<Rightarrow> (nat \<Rightarrow> 'a option) \<Rightarrow> ('a \<Rightarrow> 'u \<Rightarrow> 'a option \<times> 'u) \<Rightarrow> ('a \<Rightarrow> 'u \<Rightarrow> 'u) \<Rightarrow> 'u \<Rightarrow>
    (('a, 'c) stack_st option \<times> 'u, 'a, 'c) sk_act" where
  "sk_deep_copy malloc fresh copy free u = seq (sk_dup malloc fresh) (\<lambda>r. case r of
       None \<Rightarrow> ret (None, u)
     | Some sk \<Rightarrow> (case copy_elements copy free [] (take (sk_count sk) (sk_data sk)) u of
           (None, v) \<Rightarrow> ret (None, v)
         | (Some xs, v) \<Rightarrow> ret (Some (sk\<lparr>sk_data := xs @ drop (sk_count sk) (sk_data sk)\<rparr>), v)))"

end
