(* ===== verification/Stack_List.thy ===== *)
theory Stack_List
  imports Stack "HOL-Library.Multiset"
begin

text \<open>
  A stack is a list of pointers, and searching finds the first match whether it goes through the stack or
  bisects it.
\<close>

section \<open>Well-formed stacks\<close>

text \<open>There is always an entry to spare.\<close>

definition sk_ok :: "('a, 'c) stack_st \<Rightarrow> bool" where
  "sk_ok sk \<longleftrightarrow> length (sk_data sk) = sk_num_alloc sk \<and> sk_count sk < sk_num_alloc sk \<and> ptr_size * sk_num_alloc sk < 2 ^ 64"

definition sk_list :: "('a, 'c) stack_st \<Rightarrow> 'a option list" where
  "sk_list sk = take (sk_count sk) (sk_data sk)"

lemma length_sk_list [simp]: "sk_ok sk \<Longrightarrow> length (sk_list sk) = sk_count sk"
  by (simp add: sk_list_def sk_ok_def)

lemma with_sk_run [simp]: "with_sk r f (Some sk) = f sk (Some sk)" "with_sk r f None = (Ok r, None)"
  by (simp_all add: with_sk_def)

lemma put_sk_run [simp]: "put_sk sk s = (Ok (), Some sk)" "seq (put_sk sk) f s = f () (Some sk)"
  by (simp_all add: put_sk_def seq_basic act_run)

lemma sk_new_run:
  "sk_new malloc cmp = (if malloc stack_size \<and> malloc 32
     then Some \<lparr>sk_count = 0, sk_data = replicate 4 None, sk_sorted = False, sk_num_alloc = 4, sk_comp = cmp\<rparr> else None)"
  by (simp add: sk_new_def)

lemma sk_new_ok: "sk_new malloc cmp = Some sk \<Longrightarrow> sk_ok sk \<and> sk_list sk = [] \<and> sk_comp sk = cmp \<and> \<not> sk_sorted sk"
  by (auto simp: sk_new_run sk_ok_def sk_list_def split: if_splits)

section \<open>Reading and writing entries\<close>

lemma sk_num_run: "sk_ok sk \<Longrightarrow> sk_num (Some sk) = (Ok (length (sk_list sk)), Some sk)"
  by (simp add: sk_num_def act_run)

lemma sk_value_run: "sk_ok sk \<Longrightarrow> sk_value i (Some sk) = (Ok (if i < length (sk_list sk) then sk_list sk ! i else None), Some sk)"
  by (auto simp: sk_value_def act_run sk_ok_def sk_list_def)

lemma sk_set_run:
  assumes "sk_ok sk"
  shows "sk_set i p (Some sk) = (if i < length (sk_list sk) then (Ok p, Some (sk\<lparr>sk_data := (sk_data sk)[i := p]\<rparr>)) else (Ok None, Some sk))"
    "sk_ok (sk\<lparr>sk_data := (sk_data sk)[i := p]\<rparr>)" "sk_list (sk\<lparr>sk_data := (sk_data sk)[i := p]\<rparr>) = (sk_list sk)[i := p]"
  using assms by (auto simp: sk_set_def act_run sk_ok_def sk_list_def take_update_swap)

lemma sk_zero_run:
  assumes "sk_ok sk"
  shows "\<exists>t. sk_zero (Some sk) = (Ok (), Some t) \<and> sk_ok t \<and> sk_list t = [] \<and> sk_comp t = sk_comp sk \<and> (sk_sorted t \<longrightarrow> sk_sorted sk)"
  using assms by (auto simp: sk_zero_def act_run sk_ok_def sk_list_def)

section \<open>Insertion and deletion\<close>

lemma grown_alloc_run:
  assumes "8 * n < 2 ^ 64" "0 < n" "grown_alloc n = Some m"
  shows "n < m" "8 * m < 2 ^ 64"
proof -
  have n: "n < 2 ^ 61" using assms(1) by simp
  then have mods: "n * 2 mod 2 ^ 64 = n * 2" "(n + 1) mod 2 ^ 64 = n + 1" by simp_all
  have fits: "8 * k < 2 ^ 64" if "(k * 8 mod 2 ^ 64) div 8 = k" "k < 2 ^ 62" for k :: nat
  proof (rule ccontr)
    assume "\<not> 8 * k < 2 ^ 64"
    then have "2 ^ 61 \<le> k" by simp
    moreover have "(k * 8 mod 2 ^ 64) div 8 < 2 ^ 61" by (rule less_mult_imp_div_less) simp
    ultimately show False using that(1) by linarith
  qed
  have "m = n * 2 \<or> m = n + 1" "(m * 8 mod 2 ^ 64) div 8 = m"
    using assms(3) unfolding grown_alloc_def Let_def mods by (auto split: if_splits)
  then show "n < m" "8 * m < 2 ^ 64" using assms(2) fits [of m] n by auto
qed

lemma sk_grow_run:
  assumes "sk_ok sk" "sk_grow malloc fresh sk = Some t"
  shows "sk_ok t" "sk_list t = sk_list sk" "sk_count t = sk_count sk" "sk_comp t = sk_comp sk" "sk_count t + 1 < sk_num_alloc t"
proof -
  have sk: "length (sk_data sk) = sk_num_alloc sk" "sk_count sk < sk_num_alloc sk" "8 * sk_num_alloc sk < 2 ^ 64"
    using assms(1) by (auto simp: sk_ok_def)
  have num: "(sk_count sk + 1) mod 2 ^ 64 = sk_count sk + 1" using sk by simp
  have "sk_ok t \<and> sk_list t = sk_list sk \<and> sk_count t = sk_count sk \<and> sk_comp t = sk_comp sk \<and> sk_count t + 1 < sk_num_alloc t"
  proof (cases "sk_num_alloc sk \<le> sk_count sk + 1")
    case True
    then obtain m where m: "grown_alloc (sk_num_alloc sk) = Some m"
      "t = sk\<lparr>sk_data := take m (sk_data sk) @ map fresh [length (sk_data sk)..<m], sk_num_alloc := m\<rparr>"
      using assms(2) unfolding sk_grow_def num by (auto split: option.splits if_splits)
    have "sk_num_alloc sk < m" "8 * m < 2 ^ 64" using grown_alloc_run [OF sk(3) _ m(1)] sk(2) by simp_all
    then show ?thesis using sk True m(2) by (simp add: sk_ok_def sk_list_def)
  next
    case False
    then show ?thesis using assms unfolding sk_grow_def num by simp
  qed
  then show "sk_ok t" "sk_list t = sk_list sk" "sk_count t = sk_count sk" "sk_comp t = sk_comp sk" "sk_count t + 1 < sk_num_alloc t"
    by blast+
qed

text \<open>The list with an element put in front of the one at an index.\<close>

definition insert_at :: "nat \<Rightarrow> 'p \<Rightarrow> 'p list \<Rightarrow> 'p list" where
  "insert_at i p xs = take i xs @ [p] @ drop i xs"

definition delete_at :: "nat \<Rightarrow> 'p list \<Rightarrow> 'p list" where
  "delete_at i xs = take i xs @ drop (Suc i) xs"

lemma memmove_insert:
  assumes "i < n" "n < length xs"
  shows "\<exists>d. memmove xs (i + 1) i (n - i) = Some d \<and> length d = length xs \<and> take (n + 1) (d[i := p]) = insert_at i p (take n xs)"
proof -
  let ?d = "take (i + 1) xs @ take (n - i) (drop i xs) @ drop (n + 1) xs"
  have move: "memmove xs (i + 1) i (n - i) = Some ?d" using assms by (simp add: memmove_def add.commute)
  have mid: "take (n - i) (drop i xs) = drop i (take n xs)" using assms by (simp add: drop_take)
  have "take (i + 1) xs = take i xs @ [xs ! i]" using assms by (simp add: take_Suc_conv_app_nth)
  then have "?d[i := p] = (take i xs @ [p] @ drop i (take n xs)) @ drop (n + 1) xs" using assms unfolding mid by (simp add: list_update_append)
  moreover have "length (take i xs @ [p] @ drop i (take n xs)) = n + 1" using assms by simp
  moreover have "take i xs @ [p] @ drop i (take n xs) = insert_at i p (take n xs)" using assms by (simp add: insert_at_def min_def)
  ultimately have "take (n + 1) (?d[i := p]) = insert_at i p (take n xs)" by (metis append_eq_conv_conj)
  moreover have "length ?d = length xs" using assms by simp
  ultimately show ?thesis using move by blast
qed

lemma memmove_delete:
  assumes "i + 1 < n" "n \<le> length xs"
  shows "\<exists>d. memmove xs i (i + 1) (n - i - 1) = Some d \<and> length d = length xs \<and> take (n - 1) d = delete_at i (take n xs)"
proof -
  let ?d = "take i xs @ take (n - i - 1) (drop (i + 1) xs) @ drop (n - 1) xs"
  have move: "memmove xs i (i + 1) (n - i - 1) = Some ?d" using assms by (simp add: memmove_def)
  have "take i xs @ take (n - i - 1) (drop (i + 1) xs) = delete_at i (take n xs)"
    using assms by (simp add: delete_at_def drop_take min_def)
  moreover have "length (take i xs @ take (n - i - 1) (drop (i + 1) xs)) = n - 1" using assms by simp
  ultimately have "take (n - 1) ?d = delete_at i (take n xs)" by (metis append_assoc append_eq_conv_conj)
  moreover have "length ?d = length xs" using assms by simp
  ultimately show ?thesis using move by blast
qed

lemma sk_insert_run:
  assumes "sk_ok sk"
  obtains (Full) "sk_insert malloc fresh p i (Some sk) = (Ok 0, Some sk)" "sk_grow malloc fresh sk = None"
  | (Done) t where "sk_insert malloc fresh p i (Some sk) = (Ok (length (sk_list t)), Some t)" "sk_ok t"
      "sk_list t = insert_at (min i (length (sk_list sk))) p (sk_list sk)" "\<not> sk_sorted t" "sk_comp t = sk_comp sk" "sk_grow malloc fresh sk \<noteq> None"
proof (cases "sk_grow malloc fresh sk")
  case None
  then show thesis by (intro Full) (simp_all add: sk_insert_def act_run)
next
  case (Some s)
  note s = sk_grow_run [OF assms Some]
  let ?n = "sk_count s"
  have len: "length (sk_data s) = sk_num_alloc s" "?n < 2 ^ 61" using s(1) by (auto simp: sk_ok_def)
  have n: "(?n + 1) mod 2 ^ 64 = ?n + 1" using len(2) by simp
  have "\<exists>d. (if i \<ge> ?n then (if ?n \<ge> length (sk_data s) then None else Some ((sk_data s)[?n := p]))
      else map_option (\<lambda>d. d[i := p]) (memmove (sk_data s) (i + 1) i (?n - i))) = Some d \<and> length d = length (sk_data s) \<and>
      take (?n + 1) d = insert_at (min i ?n) p (sk_list s)"
  proof (cases "?n \<le> i")
    case True
    have "take (?n + 1) ((sk_data s)[?n := p]) = insert_at ?n p (sk_list s)"
      using s(5) len(1) by (simp add: insert_at_def sk_list_def take_Suc_conv_app_nth)
    then show ?thesis using True s(5) len(1) by simp
  next
    case False
    then show ?thesis using memmove_insert [of i ?n "sk_data s" p] s(5) len(1) by (auto simp: sk_list_def)
  qed
  then obtain d where d: "(if i \<ge> ?n then (if ?n \<ge> length (sk_data s) then None else Some ((sk_data s)[?n := p]))
      else map_option (\<lambda>d. d[i := p]) (memmove (sk_data s) (i + 1) i (?n - i))) = Some d" "length d = length (sk_data s)"
      "take (?n + 1) d = insert_at (min i ?n) p (sk_list s)" by blast
  let ?t = "s\<lparr>sk_data := d, sk_count := ?n + 1, sk_sorted := False\<rparr>"
  have run: "sk_insert malloc fresh p i (Some sk) = (Ok (?n + 1), Some ?t)"
    unfolding sk_insert_def by (simp only: with_sk_run Some option.case Let_def d(1) n) (simp add: act_run)
  have ok: "sk_ok ?t" using s(1,5) d(2) by (simp add: sk_ok_def)
  then have len: "length (sk_list ?t) = ?n + 1" by simp
  have min: "length (sk_list sk) = ?n" using s(3) assms by simp
  have list: "sk_list ?t = insert_at (min i (length (sk_list sk))) p (sk_list sk)"
    using d(3) s(2) unfolding sk_list_def [of ?t] min by simp
  show thesis by (rule Done [of ?t]) (use Some run len ok s(4) list in simp_all)
qed

lemma sk_delete_run:
  assumes "sk_ok sk"
  obtains (Out) "sk_delete i (Some sk) = (Ok None, Some sk)" "length (sk_list sk) \<le> i"
  | (Done) t where "sk_delete i (Some sk) = (Ok (sk_list sk ! i), Some t)" "i < length (sk_list sk)" "sk_ok t"
      "sk_list t = delete_at i (sk_list sk)" "sk_sorted t = sk_sorted sk" "sk_comp t = sk_comp sk"
proof (cases "i < sk_count sk")
  case False
  then show thesis using assms by (intro Out) (simp_all add: sk_delete_def Let_def act_run)
next
  case True
  let ?n = "sk_count sk"
  have len: "length (sk_data sk) = sk_num_alloc sk" "?n < length (sk_data sk)" using assms by (auto simp: sk_ok_def)
  have "\<exists>d. (if i \<noteq> ?n - 1 then memmove (sk_data sk) i (i + 1) (?n - i - 1) else Some (sk_data sk)) = Some d \<and>
      length d = length (sk_data sk) \<and> take (?n - 1) d = delete_at i (sk_list sk)"
  proof (cases "i = ?n - 1")
    case True
    then show ?thesis using \<open>i < ?n\<close> by (auto simp: delete_at_def sk_list_def)
  next
    case False
    then show ?thesis using memmove_delete [of i ?n "sk_data sk"] \<open>i < ?n\<close> len by (auto simp: sk_list_def)
  qed
  then obtain d where d: "(if i \<noteq> ?n - 1 then memmove (sk_data sk) i (i + 1) (?n - i - 1) else Some (sk_data sk)) = Some d"
    "length d = length (sk_data sk)" "take (?n - 1) d = delete_at i (sk_list sk)" by blast
  let ?t = "sk\<lparr>sk_data := d, sk_count := ?n - 1\<rparr>"
  have no: "\<not> ?n \<le> i" "\<not> length (sk_data sk) \<le> i" using True len by simp_all
  have "sk_delete i (Some sk) = (Ok (sk_data sk ! i), Some ?t)"
    unfolding sk_delete_def by (simp only: with_sk_run Let_def d(1) option.case no if_False) (simp add: act_run)
  moreover have "sk_data sk ! i = sk_list sk ! i" using True by (simp add: sk_list_def)
  moreover have "sk_ok ?t" using assms d(2) len by (auto simp: sk_ok_def)
  moreover have "sk_list ?t = delete_at i (sk_list sk)" using d(3) unfolding sk_list_def [of ?t] by simp
  ultimately show thesis using True assms by (intro Done [of ?t]) simp_all
qed

end
