(* ===== verification/Stack_Order.thy ===== *)
theory Stack_Order
  imports Stack_List
begin

text \<open>
  Searching and sorting.  A comparison function is required to be what \<open>qsort\<close> asks for, and then a search
  returns the first match whether it goes through the stack or bisects it.
\<close>

section \<open>Comparison functions\<close>

definition total_cmp :: "('p \<Rightarrow> 'p \<Rightarrow> int) \<Rightarrow> bool" where
  "total_cmp cmp \<longleftrightarrow> (\<forall>x y. cmp x y < 0 \<longleftrightarrow> cmp y x > 0) \<and> (\<forall>x y z. cmp x y \<le> 0 \<longrightarrow> cmp y z \<le> 0 \<longrightarrow> cmp x z \<le> 0)"

abbreviation ascending :: "('p \<Rightarrow> 'p \<Rightarrow> int) \<Rightarrow> 'p list \<Rightarrow> bool" where
  "ascending cmp \<equiv> sorted_wrt (\<lambda>x y. cmp x y \<le> 0)"

lemma total_cmp_flip: "total_cmp cmp \<Longrightarrow> cmp x y < 0 \<longleftrightarrow> 0 < cmp y x"
  unfolding total_cmp_def by blast

lemma total_cmp_trans: "total_cmp cmp \<Longrightarrow> cmp x y \<le> 0 \<Longrightarrow> cmp y z \<le> 0 \<Longrightarrow> cmp x z \<le> 0"
  unfolding total_cmp_def by blast

lemma total_cmp_trans_less:
  assumes "total_cmp cmp" "cmp x y < 0" "cmp y z \<le> 0"
  shows "cmp x z < 0"
proof (rule ccontr)
  assume "\<not> cmp x z < 0"
  then have "cmp z x \<le> 0" using total_cmp_flip [OF assms(1), of z x] total_cmp_flip [OF assms(1), of x z] by linarith
  then have "cmp y x \<le> 0" by (rule total_cmp_trans [OF assms(1,3)])
  then show False using total_cmp_flip [OF assms(1), of x y] assms(2) by simp
qed

section \<open>The first match\<close>

lemma first_index_Some: "first_index P xs = Some k \<longleftrightarrow> k < length xs \<and> P (xs ! k) \<and> (\<forall>i < k. \<not> P (xs ! i))"
  by (induction xs arbitrary: k) (auto simp: nth_Cons less_Suc_eq_0_disj split: nat.splits)

lemma first_index_None: "first_index P xs = None \<longleftrightarrow> (\<forall>x \<in> set xs. \<not> P x)"
  by (induction xs) auto

lemma first_index_delete: "first_index (\<lambda>x. x = p) xs = Some i \<Longrightarrow> delete_at i xs = remove1 p xs"
  by (induction xs arbitrary: i) (auto simp: delete_at_def split: if_splits)

text \<open>The first match between two indices.\<close>

definition first_match :: "(nat \<Rightarrow> bool) \<Rightarrow> nat \<Rightarrow> nat \<Rightarrow> nat option \<Rightarrow> bool" where
  "first_match P lo hi res \<longleftrightarrow> (case res of
     None \<Rightarrow> \<forall>i. lo \<le> i \<longrightarrow> i < hi \<longrightarrow> \<not> P i
   | Some k \<Rightarrow> lo \<le> k \<and> k < hi \<and> P k \<and> (\<forall>i. lo \<le> i \<longrightarrow> i < k \<longrightarrow> \<not> P i))"

lemma first_match_index:
  assumes "first_match (\<lambda>i. P (xs ! i)) 0 (length xs) res"
  shows "first_index P xs = res"
proof (cases res)
  case None
  then show ?thesis using assms by (auto simp: first_match_def first_index_None in_set_conv_nth)
next
  case (Some k)
  then show ?thesis using assms by (simp add: first_match_def first_index_Some)
qed

lemma first_match_above: "first_match P (mid + 1) hi res \<Longrightarrow> (\<And>i. i \<le> mid \<Longrightarrow> \<not> P i) \<Longrightarrow> lo \<le> mid \<Longrightarrow> first_match P lo hi res"
  unfolding first_match_def by (cases res) (simp_all, (meson not_less_eq_eq)+)

lemma first_match_below:
  "first_match P lo mid res \<Longrightarrow> (\<And>i. mid \<le> i \<Longrightarrow> i < hi \<Longrightarrow> \<not> P i) \<Longrightarrow> mid \<le> hi \<Longrightarrow> first_match P lo hi res"
  unfolding first_match_def by (cases res) (simp_all, meson not_less)

text \<open>What the search does with the middle.\<close>

definition bisect :: "('a option \<Rightarrow> int) \<Rightarrow> 'a option list \<Rightarrow> nat \<Rightarrow> nat \<Rightarrow> nat \<Rightarrow> nat option outcome" where
  "bisect cmp data lo hi mid =
     (if cmp (data ! mid) > 0 then search_loop cmp data (mid + 1) hi
      else if cmp (data ! mid) < 0 then search_loop cmp data lo mid
      else if hi - lo = 1 then Ok (Some mid) else if \<not> mid + 1 < hi then Ub else search_loop cmp data lo (mid + 1))"

lemma search_loop_step:
  assumes "lo < hi" "hi \<le> length data"
  shows "\<exists>mid. lo \<le> mid \<and> mid < hi \<and> (lo + 1 < hi \<longrightarrow> mid + 1 < hi) \<and> mid < length data \<and>
    search_loop cmp data lo hi = bisect cmp data lo hi mid"
proof -
  define mid where "mid = lo + (hi - lo - 1) div 2"
  have mid: "lo \<le> mid" "mid < hi" "lo + 1 < hi \<longrightarrow> mid + 1 < hi" "mid < length data" using assms unfolding mid_def by linarith+
  have "search_loop cmp data lo hi = bisect cmp data lo hi mid"
    using assms mid unfolding search_loop.simps [of cmp data lo hi] Let_def mid_def [symmetric] bisect_def by simp
  then show ?thesis using mid by blast
qed

text \<open>Where the signs of the comparisons go down along the array, bisecting finds the first match.\<close>

lemma search_loop_first:
  assumes "lo \<le> hi" "hi \<le> length data"
    and down: "\<And>i j. i \<le> j \<Longrightarrow> j < hi \<Longrightarrow> (cmp (data ! i) \<le> 0 \<longrightarrow> cmp (data ! j) \<le> 0) \<and> (cmp (data ! i) < 0 \<longrightarrow> cmp (data ! j) < 0)"
  shows "\<exists>res. search_loop cmp data lo hi = Ok res \<and> first_match (\<lambda>i. cmp (data ! i) = 0) lo hi res"
  using assms
proof (induction "hi - lo" arbitrary: lo hi rule: less_induct)
  case less
  show ?case
  proof (cases "lo < hi")
    case False
    then show ?thesis using less.prems by (subst search_loop.simps) (simp add: first_match_def)
  next
    case True
    obtain mid where mid: "lo \<le> mid" "mid < hi" "lo + 1 < hi \<longrightarrow> mid + 1 < hi" "mid < length data"
      and loop: "search_loop cmp data lo hi = bisect cmp data lo hi mid"
      using search_loop_step [OF True less.prems(2)] by blast
    note loop = loop [unfolded bisect_def]
    let ?r = "cmp (data ! mid)"
    consider (High) "?r > 0" | (Low) "?r < 0" | (One) "?r = 0" "hi = lo + 1" | (More) "?r = 0" "lo + 1 < hi" using True by linarith
    then show ?thesis
    proof cases
      case High
      obtain res where res: "search_loop cmp data (mid + 1) hi = Ok res" "first_match (\<lambda>i. cmp (data ! i) = 0) (mid + 1) hi res"
        using less.hyps [of hi "mid + 1"] less.prems mid diff_less_mono2 [of lo "mid + 1" hi] by auto
      have no: "cmp (data ! i) \<noteq> 0" if "i \<le> mid" for i using less.prems(3) [of i mid] that High mid by auto
      have "first_match (\<lambda>i. cmp (data ! i) = 0) lo hi res" by (rule first_match_above [OF res(2)]) (use no mid in simp_all)
      then show ?thesis using res loop High by simp
    next
      case Low
      obtain res where res: "search_loop cmp data lo mid = Ok res" "first_match (\<lambda>i. cmp (data ! i) = 0) lo mid res"
        using less.hyps [of mid lo] less.prems mid diff_less_mono [of mid hi lo] by auto
      have no: "cmp (data ! i) \<noteq> 0" if "mid \<le> i" "i < hi" for i using less.prems(3) [of mid i] that Low by auto
      have "first_match (\<lambda>i. cmp (data ! i) = 0) lo hi res" by (rule first_match_below [OF res(2)]) (use no mid in simp_all)
      then show ?thesis using res loop Low by simp
    next
      case One
      then show ?thesis using loop mid by (simp add: first_match_def)
    next
      case More
      have up: "mid + 1 < hi" using More(2) mid by simp
      obtain res where res: "search_loop cmp data lo (mid + 1) = Ok res" "first_match (\<lambda>i. cmp (data ! i) = 0) lo (mid + 1) res"
        using less.hyps [of "mid + 1" lo] less.prems mid up diff_less_mono [of "mid + 1" hi lo] by auto
      have "first_match (\<lambda>i. cmp (data ! i) = 0) lo hi res"
        using res(2) mid up More(1) unfolding first_match_def by (auto split: option.splits)
      moreover have "hi - lo \<noteq> 1" using More(2) by linarith
      ultimately show ?thesis using res loop More up by simp
    qed
  qed
qed

text \<open>On any array, bisecting stays inside and ends without a result or at a match.\<close>

lemma search_loop_any:
  assumes "lo \<le> hi" "hi \<le> length data"
  shows "\<exists>res. search_loop cmp data lo hi = Ok res \<and> (\<forall>i. res = Some i \<longrightarrow> lo \<le> i \<and> i < hi \<and> cmp (data ! i) = 0)"
  using assms
proof (induction "hi - lo" arbitrary: lo hi rule: less_induct)
  case less
  show ?case
  proof (cases "lo < hi")
    case False
    then show ?thesis using less.prems by (subst search_loop.simps) simp
  next
    case True
    obtain mid where mid: "lo \<le> mid" "mid < hi" "lo + 1 < hi \<longrightarrow> mid + 1 < hi" "mid < length data"
      and loop: "search_loop cmp data lo hi = bisect cmp data lo hi mid"
      using search_loop_step [OF True less.prems(2)] by blast
    note loop = loop [unfolded bisect_def]
    have within: "\<exists>res. search_loop cmp data lo' hi' = Ok res \<and> (\<forall>i. res = Some i \<longrightarrow> lo \<le> i \<and> i < hi \<and> cmp (data ! i) = 0)"
      if "lo \<le> lo'" "lo' \<le> hi'" "hi' \<le> hi" "hi' - lo' < hi - lo" for lo' hi'
      using less.hyps [OF that(4,2)] that less.prems(2) by fastforce
    consider (High) "cmp (data ! mid) > 0" | (Low) "cmp (data ! mid) < 0" | (One) "cmp (data ! mid) = 0" "hi = lo + 1"
      | (More) "cmp (data ! mid) = 0" "lo + 1 < hi" using True by linarith
    then show ?thesis
    proof cases
      case High
      then show ?thesis using within [of "mid + 1" hi] mid loop by simp
    next
      case Low
      then show ?thesis using within [of lo mid] mid loop by simp
    next
      case One
      then show ?thesis using loop mid by simp
    next
      case More
      moreover from this have "hi - lo \<noteq> 1" by linarith
      ultimately show ?thesis using within [of lo "mid + 1"] mid loop by simp
    qed
  qed
qed

section \<open>Sorting\<close>

lemma qsort_mset: "mset (qsort cmp xs) = mset xs"
proof -
  have insert: "mset (qsort_insert cmp x ys) = add_mset x (mset ys)" for x ys by (induction ys) simp_all
  show ?thesis by (induction xs) (simp_all add: qsort_def insert)
qed

lemma qsort_length [simp]: "length (qsort cmp xs) = length xs"
  using qsort_mset [of cmp xs] by (metis size_mset)

lemma qsort_ascending:
  assumes "total_cmp cmp"
  shows "ascending cmp (qsort cmp xs)"
proof -
  have set: "set (qsort_insert cmp x ys) = insert x (set ys)" for x ys by (induction ys) auto
  have insert: "ascending cmp (qsort_insert cmp x ys)" if "ascending cmp ys" for x ys
    using that
  proof (induction ys)
    case Nil
    then show ?case by simp
  next
    case (Cons y ys)
    show ?case
    proof (cases "cmp x y \<le> 0")
      case True
      then show ?thesis using Cons.prems total_cmp_trans [OF assms True] by auto
    next
      case False
      then have "cmp y x \<le> 0" using total_cmp_flip [OF assms, of y x] by linarith
      then show ?thesis using False Cons by (simp add: set)
    qed
  qed
  show ?thesis by (induction xs) (simp_all add: qsort_def insert)
qed

lemma sk_sort_run:
  assumes "sk_ok sk"
  obtains t where "sk_sort call (Some sk) = (Ok (), Some t)" "sk_ok t" "mset (sk_list t) = mset (sk_list sk)" "sk_comp t = sk_comp sk"
    "sk_comp sk = None \<and> t = sk \<or> sk_sorted sk \<and> t = sk \<or>
       (\<exists>cmp. sk_comp sk = Some cmp \<and> sk_sorted t \<and> (total_cmp (call cmp) \<longrightarrow> ascending (call cmp) (sk_list t)))"
proof (cases "sk_comp sk = None \<or> sk_sorted sk")
  case True
  then show thesis using assms by (intro that [of sk]) (auto simp: sk_sort_def act_run split: option.splits)
next
  case False
  then obtain cmp where cmp: "sk_comp sk = Some cmp" "\<not> sk_sorted sk" by auto
  have len: "length (sk_data sk) = sk_num_alloc sk" "sk_count sk < sk_num_alloc sk" using assms by (auto simp: sk_ok_def)
  show thesis
  proof (cases "sk_count sk \<ge> 2")
    case True
    let ?t = "sk\<lparr>sk_data := qsort (call cmp) (take (sk_count sk) (sk_data sk)) @ drop (sk_count sk) (sk_data sk), sk_sorted := True\<rparr>"
    have list: "sk_list ?t = qsort (call cmp) (sk_list sk)" using len by (simp add: sk_list_def)
    have run: "sk_sort call (Some sk) = (Ok (), Some ?t)" using True cmp len by (simp add: sk_sort_def)
    have ok: "sk_ok ?t" using assms len by (simp add: sk_ok_def)
    have m: "mset (sk_list ?t) = mset (sk_list sk)" unfolding list by (rule qsort_mset)
    have "total_cmp (call cmp) \<Longrightarrow> ascending (call cmp) (sk_list ?t)" unfolding list by (rule qsort_ascending)
    then show thesis using cmp by (intro that [OF run ok m]) simp_all
  next
    case False
    let ?t = "sk\<lparr>sk_sorted := True\<rparr>"
    have "length (sk_list sk) < 2" using False assms by simp
    then have "ascending (call cmp) (sk_list sk)" by (cases "sk_list sk") auto
    then have "ascending (call cmp) (sk_list ?t)" by (simp add: sk_list_def)
    then show thesis using assms cmp False by (intro that [of ?t]) (auto simp: sk_sort_def sk_ok_def sk_list_def)
  qed
qed

section \<open>Finding\<close>

text \<open>The invariant: a stack marked as sorted has a comparison function and is in ascending order.\<close>

definition sk_inv :: "('c \<Rightarrow> 'a option \<Rightarrow> 'a option \<Rightarrow> int) \<Rightarrow> ('a, 'c) stack_st \<Rightarrow> bool" where
  "sk_inv call sk \<longleftrightarrow> sk_ok sk \<and> (sk_sorted sk \<longrightarrow> (\<exists>cmp. sk_comp sk = Some cmp \<and> ascending (call cmp) (sk_list sk)))"

definition found_in :: "('c \<Rightarrow> 'a option \<Rightarrow> 'a option \<Rightarrow> int) \<Rightarrow> 'a option list \<Rightarrow> 'c option \<Rightarrow> 'a option \<Rightarrow> nat option" where
  "found_in call xs c p = (case c of
     None \<Rightarrow> first_index (\<lambda>x. x = p) xs
   | Some cmp \<Rightarrow> if p = None then None else first_index (\<lambda>x. call cmp p x = 0) xs)"

lemma scan_run: "sk_ok sk \<Longrightarrow> scan P sk s = (Ok (first_index P (sk_list sk)), s)"
  by (simp add: scan_def sk_ok_def sk_list_def act_run)

lemma sk_is_sorted_run:
  "sk_is_sorted (Some sk) = (Ok (sk_sorted sk), Some sk)" "seq sk_is_sorted f (Some sk) = f (sk_sorted sk) (Some sk)"
  by (simp_all add: sk_is_sorted_def act_run seq_def)

lemma sk_find_run:
  assumes "sk_inv call sk" and total: "\<And>cmp. total_cmp (call cmp)"
  shows "sk_find call p (Some sk) = (Ok (found_in call (sk_list sk) (sk_comp sk) p), Some sk)"
proof (cases "sk_comp sk = None \<or> p = None \<or> \<not> sk_sorted sk")
  case True
  have "sk_ok sk" using assms(1) by (simp add: sk_inv_def)
  then show ?thesis using True
    by (auto simp: sk_find_def found_in_def scan_run sk_is_sorted_run act_run split: option.splits)
next
  case False
  then obtain cmp where cmp: "sk_comp sk = Some cmp" "ascending (call cmp) (sk_list sk)" "p \<noteq> None" "sk_sorted sk"
    using assms(1) by (auto simp: sk_inv_def)
  have ok: "sk_ok sk" using assms(1) by (simp add: sk_inv_def)
  have at: "sk_data sk ! i = sk_list sk ! i" if "i < sk_count sk" for i using that by (simp add: sk_list_def)
  have "(call cmp p (sk_data sk ! i) \<le> 0 \<longrightarrow> call cmp p (sk_data sk ! j) \<le> 0) \<and> (call cmp p (sk_data sk ! i) < 0 \<longrightarrow> call cmp p (sk_data sk ! j) < 0)"
    if "i \<le> j" "j < sk_count sk" for i j
  proof (cases "i = j")
    case False
    then have "call cmp (sk_data sk ! i) (sk_data sk ! j) \<le> 0"
      using sorted_wrt_nth_less [OF cmp(2), of i j] that ok at [of i] at [of j] by simp
    then show ?thesis using total_cmp_trans [OF total] total_cmp_trans_less [OF total] by blast
  qed simp
  then obtain res where res: "search_loop (call cmp p) (sk_data sk) 0 (sk_count sk) = Ok res"
      "first_match (\<lambda>i. call cmp p (sk_data sk ! i) = 0) 0 (sk_count sk) res"
    using search_loop_first [of 0 "sk_count sk" "sk_data sk" "call cmp p"] ok by (auto simp: sk_ok_def)
  have "first_match (\<lambda>i. call cmp p (sk_list sk ! i) = 0) 0 (length (sk_list sk)) res"
    using res(2) ok at by (auto simp: first_match_def split: option.splits)
  then have "first_index (\<lambda>x. call cmp p x = 0) (sk_list sk) = res" by (rule first_match_index)
  moreover obtain q where "p = Some q" using cmp(3) by blast
  ultimately show ?thesis using cmp res(1) by (simp add: sk_find_def found_in_def sk_is_sorted_run)
qed

end
