(* ===== verification/Stack_Props.thy ===== *)
theory Stack_Props
  imports Stack_Order
begin

text \<open>
  The properties of stacks.  Any sequence of calls on a new stack does what it does on a list, with searches
  that return the first match; and a deep copy owns its elements or leaves none behind.
\<close>

section \<open>Calls\<close>

datatype ('a, 'c) sk_call =
    Sk_num | Sk_value nat | Sk_set nat "'a option" | Sk_zero | Sk_insert "'a option" nat | Sk_delete nat | Sk_delete_ptr "'a option"
  | Sk_find "'a option" | Sk_shift | Sk_push "'a option" | Sk_pop | Sk_sort | Sk_is_sorted | Sk_set_cmp_func "'c option"

datatype ('a, 'c) sk_result = Nothing | Size nat | Pointer "'a option" | Index "nat option" | Flag bool | Cmp "'c option"

fun sk_do :: "(nat \<Rightarrow> bool) \<Rightarrow> (nat \<Rightarrow> 'a option) \<Rightarrow> ('c \<Rightarrow> 'a option \<Rightarrow> 'a option \<Rightarrow> int) \<Rightarrow> ('a, 'c) sk_call \<Rightarrow>
    (('a, 'c) sk_result, 'a, 'c) sk_act" where
  "sk_do malloc fresh call Sk_num = seq sk_num (\<lambda>n. ret (Size n))"
| "sk_do malloc fresh call (Sk_value i) = seq (sk_value i) (\<lambda>p. ret (Pointer p))"
| "sk_do malloc fresh call (Sk_set i p) = seq (sk_set i p) (\<lambda>q. ret (Pointer q))"
| "sk_do malloc fresh call Sk_zero = seq sk_zero (\<lambda>_. ret Nothing)"
| "sk_do malloc fresh call (Sk_insert p i) = seq (sk_insert malloc fresh p i) (\<lambda>n. ret (Size n))"
| "sk_do malloc fresh call (Sk_delete i) = seq (sk_delete i) (\<lambda>p. ret (Pointer p))"
| "sk_do malloc fresh call (Sk_delete_ptr p) = seq (sk_delete_ptr p) (\<lambda>q. ret (Pointer q))"
| "sk_do malloc fresh call (Sk_find p) = seq (sk_find call p) (\<lambda>i. ret (Index i))"
| "sk_do malloc fresh call Sk_shift = seq sk_shift (\<lambda>p. ret (Pointer p))"
| "sk_do malloc fresh call (Sk_push p) = seq (sk_push malloc fresh p) (\<lambda>n. ret (Size n))"
| "sk_do malloc fresh call Sk_pop = seq sk_pop (\<lambda>p. ret (Pointer p))"
| "sk_do malloc fresh call Sk_sort = seq (sk_sort call) (\<lambda>_. ret Nothing)"
| "sk_do malloc fresh call Sk_is_sorted = seq sk_is_sorted (\<lambda>b. ret (Flag b))"
| "sk_do malloc fresh call (Sk_set_cmp_func c) = seq (sk_set_cmp_func c) (\<lambda>d. ret (Cmp d))"

text \<open>Memory may be there for one call and not for another.\<close>

primrec sk_run :: "(nat \<Rightarrow> 'a option) \<Rightarrow> ('c \<Rightarrow> 'a option \<Rightarrow> 'a option \<Rightarrow> int) \<Rightarrow> ((nat \<Rightarrow> bool) \<times> ('a, 'c) sk_call) list \<Rightarrow>
    (('a, 'c) sk_result list, 'a, 'c) sk_act" where
  "sk_run fresh call [] = ret []"
| "sk_run fresh call (c # cs) = seq (sk_do (fst c) fresh call (snd c)) (\<lambda>r. seq (sk_run fresh call cs) (\<lambda>rs. ret (r # rs)))"




section \<open>One call\<close>

















section \<open>Any sequence of calls\<close>













section \<open>Stacks are lists\<close>


text \<open>Numbers compared by their value, null pointers first.\<close>

definition number_cmp :: "unit \<Rightarrow> int option \<Rightarrow> int option \<Rightarrow> int" where
  "number_cmp u x y = (let rank = (\<lambda>x. case x of None \<Rightarrow> 0 | Some i \<Rightarrow> max 0 i + 1) in rank x - rank y)"



lemmas sk_defs = sk_push_def sk_insert_def sk_set_def sk_value_def sk_find_def sk_sort_def sk_is_sorted_def sk_grow_def memmove_def
  qsort_def scan_def search_loop.simps act_run seq_def Let_def number_cmp_def


lemma replicate_4: "replicate 4 x = [x, x, x, x]"
  by (simp add: numeral_eq_Suc)

text \<open>
  The condition on \<open>sk_set\<close> is needed: it leaves a stack marked as sorted that is not in ascending order,
  and an element that is there is not found.
\<close>

lemma sk_set_sorted_misses:
  "(case sk_run (\<lambda>_. None) number_cmp (map (Pair (\<lambda>_. True)) [Sk_push (Some 1), Sk_push (Some 2), Sk_push (Some 3), Sk_sort,
       Sk_set 0 (Some 9), Sk_value 0, Sk_is_sorted, Sk_find (Some 9)]) (sk_new (\<lambda>_. True) (Some ())) of
     (Ok rs, _) \<Rightarrow> drop 5 rs = [Pointer (Some 9), Flag True, Index None]
   | _ \<Rightarrow> False)"
  by (simp add: sk_new_run replicate_4 sk_defs)

section \<open>Deep copies\<close>

text \<open>The pointers in a list, and what a copy has to look like.\<close>

definition pointers :: "'a option list \<Rightarrow> 'a multiset" where
  "pointers xs = mset (concat (map (\<lambda>x. case x of None \<Rightarrow> [] | Some p \<Rightarrow> [p]) xs))"

lemma pointers_simps [simp]:
  "pointers [] = {#}" "pointers (None # xs) = pointers xs" "pointers (Some p # xs) = add_mset p (pointers xs)"
  "pointers (xs @ ys) = pointers xs + pointers ys"
  by (simp_all add: pointers_def)

definition same_nulls :: "'a option list \<Rightarrow> 'a option list \<Rightarrow> bool" where
  "same_nulls xs ys \<longleftrightarrow> list_all2 (\<lambda>x y. x = None \<longleftrightarrow> y = None) xs ys"

text \<open>
  Ownership: copying adds the copy to what is owned, or nothing when it fails, and freeing takes away one.
\<close>

definition owning :: "('u \<Rightarrow> 'a multiset) \<Rightarrow> ('a \<Rightarrow> 'u \<Rightarrow> 'a option \<times> 'u) \<Rightarrow> ('a \<Rightarrow> 'u \<Rightarrow> 'u) \<Rightarrow> bool" where
  "owning owned copy free \<longleftrightarrow>
     (\<forall>p u. owned (snd (copy p u)) = owned u + (case fst (copy p u) of None \<Rightarrow> {#} | Some q \<Rightarrow> {#q#})) \<and>
     (\<forall>p u. owned (free p u) = owned u - {#p#})"

lemma owning_copy: "owning owned copy free \<Longrightarrow> copy p u = (None, v) \<Longrightarrow> owned v = owned u"
    "owning owned copy free \<Longrightarrow> copy p u = (Some q, v) \<Longrightarrow> owned v = add_mset q (owned u)"
  unfolding owning_def by (metis add.right_neutral fst_conv option.simps(4) snd_conv)
    (metis add_mset_add_single fst_conv option.simps(5) snd_conv)

lemma free_elements_owned:
  assumes "owning owned copy free"
  shows "owned (free_elements free xs u) = owned u - pointers xs"
  using assms by (induction xs arbitrary: u) (auto simp: owning_def split: option.splits)

lemma copy_elements_owned:
  assumes own: "owning owned copy free"
  shows "case copy_elements copy free copied xs u of
      (None, v) \<Rightarrow> owned v = owned u - pointers copied
    | (Some ys, v) \<Rightarrow> (\<exists>zs. ys = copied @ zs \<and> same_nulls xs zs \<and> owned v = owned u + pointers zs)"
proof (induction xs arbitrary: copied u)
  case Nil
  then show ?case by (simp add: same_nulls_def)
next
  case (Cons x xs)
  show ?case
  proof (cases x)
    case None
    then show ?thesis using Cons [where copied = "copied @ [None]" and u = u] by (fastforce simp: same_nulls_def split: option.splits)
  next
    case (Some p)
    obtain q v where q: "copy p u = (q, v)" by fastforce
    show ?thesis
    proof (cases q)
      case None
      then show ?thesis using Some q owning_copy(1) [OF own] free_elements_owned [OF own] by fastforce
    next
      fix z
      assume "q = Some z"
      then show ?thesis using Some q owning_copy(2) [OF own, of p u z v] Cons [where copied = "copied @ [Some z]" and u = v]
        by (fastforce simp: same_nulls_def split: option.splits)
    qed
  qed
qed

lemma sk_dup_run:
  assumes "sk_ok sk"
  shows "\<exists>r. sk_dup malloc fresh (Some sk) = (Ok r, Some sk) \<and>
    (case r of None \<Rightarrow> True | Some t \<Rightarrow> sk_ok t \<and> sk_list t = sk_list sk \<and> sk_sorted t = sk_sorted sk \<and> sk_comp t = sk_comp sk)"
proof -
  have sk: "length (sk_data sk) = sk_num_alloc sk" "sk_count sk < sk_num_alloc sk" "8 * sk_num_alloc sk < 2 ^ 64"
    using assms by (auto simp: sk_ok_def)
  have len: "length (take (sk_num_alloc sk) (replicate 4 None) @ map fresh [4..<sk_num_alloc sk]) = sk_num_alloc sk" by simp
  show ?thesis
  proof (cases "malloc stack_size \<and> malloc 32 \<and> malloc (8 * sk_num_alloc sk mod 2 ^ 64)")
    case True
    let ?t = "\<lparr>sk_count = sk_count sk, sk_data = take (sk_count sk) (sk_data sk) @
        drop (sk_count sk) (take (sk_num_alloc sk) (replicate 4 None) @ map fresh [4..<sk_num_alloc sk]),
        sk_sorted = sk_sorted sk, sk_num_alloc = sk_num_alloc sk, sk_comp = sk_comp sk\<rparr>"
    have "sk_dup malloc fresh (Some sk) = (Ok (Some ?t), Some sk)"
      using True sk unfolding sk_dup_def sk_new_run by (simp add: act_run Let_def)
    moreover have "sk_ok ?t" "sk_list ?t = sk_list sk" using sk by (auto simp: sk_ok_def sk_list_def)
    ultimately show ?thesis by (intro exI [of _ "Some ?t"]) simp
  next
    case False
    then have "sk_dup malloc fresh (Some sk) = (Ok None, Some sk)" unfolding sk_dup_def sk_new_run by (auto simp: act_run Let_def)
    then show ?thesis by (intro exI [of _ None]) simp
  qed
qed

lemma sk_pop_free_run:
  assumes "sk_ok sk"
  shows "sk_pop_free free u (Some sk) = (Ok (free_elements free (sk_list sk) u), None)"
  using assms by (auto simp: sk_pop_free_def sk_pop_free_ex_def sk_free_def sk_ok_def sk_list_def seq_def act_run)

text \<open>
  C35. A deep copy of a stack leaves the stack as it is.  When it succeeds, the new stack has a copy of every
  element, and a null pointer where there was one, and owns exactly the copies, so that freeing it with its
  elements leaves nothing behind; when it fails, for lack of memory or because an element is not copied, the
  copies made before have been freed.
\<close>

theorem stack_deep_copy_owns:
  assumes "owning owned copy free" "sk_ok sk"
  shows "\<exists>r v. sk_deep_copy malloc fresh copy free u (Some sk) = (Ok (r, v), Some sk) \<and>
    (case r of
       None \<Rightarrow> owned v = owned u
     | Some t \<Rightarrow> sk_ok t \<and> same_nulls (sk_list sk) (sk_list t) \<and> owned v = owned u + pointers (sk_list t) \<and>
         (\<exists>w. sk_pop_free free v (Some t) = (Ok w, None) \<and> owned w = owned u))"
proof -
  obtain r where r: "sk_dup malloc fresh (Some sk) = (Ok r, Some sk)"
    "case r of None \<Rightarrow> True | Some t \<Rightarrow> sk_ok t \<and> sk_list t = sk_list sk \<and> sk_sorted t = sk_sorted sk \<and> sk_comp t = sk_comp sk"
    using sk_dup_run [OF assms(2)] by blast
  show ?thesis
  proof (cases r)
    case None
    then show ?thesis using r(1) by (intro exI [of _ None] exI [of _ u]) (simp add: sk_deep_copy_def seq_def act_run)
  next
    case (Some t)
    have t: "sk_ok t" "sk_list t = sk_list sk" using r(2) Some by simp_all
    obtain ys v where copies: "copy_elements copy free [] (sk_list t) u = (ys, v)" by fastforce
    note owned = copy_elements_owned [OF assms(1), where copied = "[]" and xs = "sk_list t" and u = u, unfolded copies prod.case]
    show ?thesis
    proof (cases ys)
      case None
      then show ?thesis using r(1) Some copies owned
        by (intro exI [of _ None] exI [of _ v]) (simp add: sk_deep_copy_def seq_def act_run sk_list_def)
    next
      fix zs assume zs: "ys = Some zs"
      let ?t = "t\<lparr>sk_data := zs @ drop (sk_count t) (sk_data t)\<rparr>"
      have own: "same_nulls (sk_list t) zs" "owned v = owned u + pointers zs" using owned zs by auto
      then have len: "length zs = sk_count t" using length_sk_list [OF t(1)] by (simp add: same_nulls_def list_all2_lengthD)
      have ok: "sk_ok ?t" "sk_list ?t = zs" using t(1) len by (simp_all add: sk_ok_def sk_list_def)
      have "sk_deep_copy malloc fresh copy free u (Some sk) = (Ok (Some ?t, v), Some sk)"
        using r(1) Some copies zs by (simp add: sk_deep_copy_def seq_def act_run sk_list_def)
      moreover have "sk_pop_free free v (Some ?t) = (Ok (free_elements free zs v), None)" using sk_pop_free_run [OF ok(1)] ok(2) by simp
      moreover have "owned (free_elements free zs v) = owned u" using free_elements_owned [OF assms(1)] own(2) by simp
      ultimately show ?thesis using ok own t(2) by (intro exI [of _ "Some ?t"] exI [of _ v]) simp
    qed
  qed
qed

text \<open>Numbers are copied to numbers ten higher, and zero is not copied.\<close>

definition copy_number :: "nat \<Rightarrow> nat multiset \<Rightarrow> nat option \<times> nat multiset" where
  "copy_number p u = (if p = 0 then (None, u) else (Some (p + 10), add_mset (p + 10) u))"

definition free_number :: "nat \<Rightarrow> nat multiset \<Rightarrow> nat multiset" where
  "free_number p u = u - {#p#}"

definition number_stack :: "nat \<Rightarrow> (nat, unit) stack_st" where
  "number_stack n = \<lparr>sk_count = 3, sk_data = [Some 1, None, Some n, None], sk_sorted = False, sk_num_alloc = 4, sk_comp = None\<rparr>"

lemma stack_deep_copy_owns_witness:
  "\<exists>r v. sk_deep_copy (\<lambda>_. True) (\<lambda>_. None) copy_number free_number {#} (Some (number_stack 2)) = (Ok (r, v), Some (number_stack 2)) \<and>
    (case r of
       None \<Rightarrow> v = {#}
     | Some t \<Rightarrow> sk_ok t \<and> same_nulls (sk_list (number_stack 2)) (sk_list t) \<and> v = {#} + pointers (sk_list t) \<and>
         (\<exists>w. sk_pop_free free_number v (Some t) = (Ok w, None) \<and> w = {#}))"
proof -
  have "owning (\<lambda>u. u) copy_number free_number" by (simp add: owning_def copy_number_def free_number_def)
  moreover have "sk_ok (number_stack 2)" by (simp add: sk_ok_def number_stack_def)
  ultimately show ?thesis by (rule stack_deep_copy_owns)
qed

end
