(* ===== verification/Consttime.thy ===== *)
theory Consttime
  imports Prelude
begin

text \<open>
  The constant-time helpers of crypto/internal.h: comparisons that give a mask of all ones or of all zeros,
  and selection by a mask, without a branch.  Each is shown to decide what its name says, for all values.
\<close>

type_synonym crypto_word = "64 word"

section \<open>The helpers\<close>

definition constant_time_msb_w :: "crypto_word \<Rightarrow> crypto_word" where
  "constant_time_msb_w a = 0 - drop_bit 63 a"

definition constant_time_lt_w :: "crypto_word \<Rightarrow> crypto_word \<Rightarrow> crypto_word" where
  "constant_time_lt_w a b = constant_time_msb_w (a XOR ((a XOR b) OR ((a - b) XOR a)))"

definition constant_time_lt_8 :: "crypto_word \<Rightarrow> crypto_word \<Rightarrow> byte" where
  "constant_time_lt_8 a b = ucast (constant_time_lt_w a b)"

definition constant_time_ge_w :: "crypto_word \<Rightarrow> crypto_word \<Rightarrow> crypto_word" where
  "constant_time_ge_w a b = NOT (constant_time_lt_w a b)"

definition constant_time_ge_8 :: "crypto_word \<Rightarrow> crypto_word \<Rightarrow> byte" where
  "constant_time_ge_8 a b = ucast (constant_time_ge_w a b)"

definition constant_time_is_zero_w :: "crypto_word \<Rightarrow> crypto_word" where
  "constant_time_is_zero_w a = constant_time_msb_w (NOT a AND (a - 1))"

definition constant_time_is_zero_8 :: "crypto_word \<Rightarrow> byte" where
  "constant_time_is_zero_8 a = ucast (constant_time_is_zero_w a)"

definition constant_time_eq_w :: "crypto_word \<Rightarrow> crypto_word \<Rightarrow> crypto_word" where
  "constant_time_eq_w a b = constant_time_is_zero_w (a XOR b)"

definition constant_time_eq_8 :: "crypto_word \<Rightarrow> crypto_word \<Rightarrow> byte" where
  "constant_time_eq_8 a b = ucast (constant_time_eq_w a b)"

definition constant_time_eq_int :: "32 word \<Rightarrow> 32 word \<Rightarrow> crypto_word" where
  "constant_time_eq_int a b = constant_time_eq_w (scast a) (scast b)"

definition constant_time_eq_int_8 :: "32 word \<Rightarrow> 32 word \<Rightarrow> byte" where
  "constant_time_eq_int_8 a b = constant_time_eq_8 (scast a) (scast b)"

definition value_barrier_w :: "crypto_word \<Rightarrow> crypto_word" where
  "value_barrier_w a = a"

definition constant_time_select_w :: "crypto_word \<Rightarrow> crypto_word \<Rightarrow> crypto_word \<Rightarrow> crypto_word" where
  "constant_time_select_w m a b = (value_barrier_w m AND a) OR (value_barrier_w (NOT m) AND b)"

definition constant_time_select_8 :: "byte \<Rightarrow> byte \<Rightarrow> byte \<Rightarrow> byte" where
  "constant_time_select_8 m a b = ucast (constant_time_select_w (ucast m) (ucast a) (ucast b))"

definition constant_time_select_int :: "crypto_word \<Rightarrow> 32 word \<Rightarrow> 32 word \<Rightarrow> 32 word" where
  "constant_time_select_int m a b = ucast (constant_time_select_w m (scast a) (scast b))"

section \<open>What they decide\<close>

lemma msb_mask: "constant_time_msb_w a = (if bit a 63 then - 1 else 0)"
proof -
  have "drop_bit 63 a = (if bit a 63 then 1 else 0)"
  proof (rule bit_word_eqI)
    fix n assume "n < LENGTH(64)"
    have "bit a (63 + n) \<Longrightarrow> n = 0" by (drule bit_imp_le_length) simp
    then show "bit (drop_bit 63 a) n \<longleftrightarrow> bit (if bit a 63 then 1 else 0 :: 64 word) n" by (auto simp: bit_simps)
  qed
  then show ?thesis by (simp add: constant_time_msb_w_def)
qed

lemma bit_63: "bit a 63 \<longleftrightarrow> 2 ^ 63 \<le> unat (a :: 64 word)"
proof -
  have lt: "unat a < 2 ^ 64" using unsigned_less [of a, where 'a = nat] by simp
  have "bit a 63 \<longleftrightarrow> bit (unat a) 63" by (simp add: bit_unsigned_iff)
  also have "\<dots> \<longleftrightarrow> odd (unat a div 2 ^ 63)" by (rule bit_iff_odd)
  also have "\<dots> \<longleftrightarrow> 2 ^ 63 \<le> unat a"
  proof (cases "2 ^ 63 \<le> unat a")
    case True
    then have "unat a div 2 ^ 63 = 1" using lt by (intro div_nat_eqI) simp_all
    then show ?thesis using True by simp
  next
    case False
    then show ?thesis by simp
  qed
  finally show ?thesis .
qed

lemma unat_minus_cases: "unat (a - b :: 64 word) = (if unat b \<le> unat a then unat a - unat b else unat a + 2 ^ 64 - unat b)"
  using unat_sub_if_size [of a b] by (auto simp: word_size)

lemma constant_time_lt: "constant_time_lt_w a b = (if a < b then - 1 else 0)"
proof -
  have bounds: "unat a < 2 ^ 64" "unat b < 2 ^ 64" using unsigned_less [of a, where 'a = nat] unsigned_less [of b, where 'a = nat] by simp_all
  have "bit (a XOR ((a XOR b) OR ((a - b) XOR a))) 63 \<longleftrightarrow> (if bit a 63 = bit b 63 then bit (a - b) 63 else bit b 63)"
    by (simp add: bit_simps) blast
  also have "\<dots> \<longleftrightarrow> a < b"
    unfolding bit_63 unat_minus_cases word_less_nat_alt using bounds by (auto split: if_splits)
  finally show ?thesis by (simp add: constant_time_lt_w_def msb_mask)
qed

lemma constant_time_is_zero: "constant_time_is_zero_w a = (if a = 0 then - 1 else 0)"
proof -
  have "bit (NOT a AND (a - 1)) 63 \<longleftrightarrow> \<not> bit a 63 \<and> bit (a - 1) 63" by (simp add: bit_simps)
  also have "\<dots> \<longleftrightarrow> a = 0"
    unfolding bit_63 unat_minus_cases using unat_eq_0 [of a] by (auto split: if_splits)
  finally show ?thesis by (simp add: constant_time_is_zero_w_def msb_mask)
qed

lemma constant_time_eq: "constant_time_eq_w a b = (if a = b then - 1 else 0)"
proof -
  have "a XOR b = 0 \<longleftrightarrow> a = b" by (metis bit.xor_self xor.assoc xor.right_neutral)
  then show ?thesis by (simp add: constant_time_eq_w_def constant_time_is_zero)
qed

lemma constant_time_ge: "constant_time_ge_w a b = (if b \<le> a then - 1 else 0)"
  by (simp add: constant_time_ge_w_def constant_time_lt not_less [symmetric])

lemma ucast_mask: "ucast (- 1 :: 64 word) = (0xff :: byte)"
  by code_simp

lemma constant_time_8:
  "constant_time_lt_8 a b = (if a < b then 0xff else 0)" "constant_time_ge_8 a b = (if b \<le> a then 0xff else 0)"
  "constant_time_is_zero_8 a = (if a = 0 then 0xff else 0)" "constant_time_eq_8 a b = (if a = b then 0xff else 0)"
  by (simp_all add: constant_time_lt_8_def constant_time_ge_8_def constant_time_is_zero_8_def constant_time_eq_8_def constant_time_lt
      constant_time_ge constant_time_is_zero constant_time_eq ucast_mask)

lemma ucast_scast: "ucast (scast a :: 64 word) = (a :: 32 word)"
proof (rule bit_word_eqI)
  fix n assume "n < LENGTH(32)"
  then have "n < 31 \<or> n = 31" by auto
  then show "bit (ucast (scast a :: 64 word) :: 32 word) n \<longleftrightarrow> bit a n" by (auto simp: bit_simps)
qed

lemma ucast_ucast_byte: "ucast (ucast a :: 64 word) = (a :: byte)"
  by (rule bit_word_eqI) (simp add: bit_simps)

lemma scast_inj_64: "scast (a :: 32 word) = (scast b :: 64 word) \<longleftrightarrow> a = b"
  by (metis ucast_scast)

lemma constant_time_int:
  "constant_time_eq_int a b = (if a = b then - 1 else 0)" "constant_time_eq_int_8 a b = (if a = b then 0xff else 0)"
  by (simp_all add: constant_time_eq_int_def constant_time_eq_int_8_def constant_time_eq constant_time_8 scast_inj_64)

lemma constant_time_select:
  "constant_time_select_w (- 1) a b = a" "constant_time_select_w 0 a b = b"
  "constant_time_select_8 0xff c d = c" "constant_time_select_8 0 c d = d"
  "constant_time_select_int (- 1) i j = i" "constant_time_select_int 0 i j = j"
proof -
  have "ucast ((ucast (0xff :: byte) AND ucast c) OR (NOT (ucast (0xff :: byte)) AND ucast d) :: 64 word) = c"
    by (rule bit_word_eqI) (auto simp: bit_simps)
  then show "constant_time_select_8 0xff c d = c" by (simp add: constant_time_select_8_def constant_time_select_w_def value_barrier_w_def)
qed (simp_all add: constant_time_select_w_def value_barrier_w_def constant_time_select_8_def constant_time_select_int_def ucast_scast ucast_ucast_byte)

text \<open>A mask made of a condition selects by the condition.\<close>

lemma constant_time_select_if:
  "constant_time_select_w (if P then - 1 else 0) a b = (if P then a else b)"
  "constant_time_select_8 (if P then 0xff else 0) c d = (if P then c else d)"
  by (cases P, simp_all only: if_True if_False constant_time_select)+

end
