(* ===== verification/Base64.thy ===== *)
theory Base64
  imports Consttime
begin

text \<open>
  Base64 (crypto/base64/base64.c): whole blocks, and streams with lines of 64 characters.

  An input is the list of its bytes.  What a function writes to its output pointer is a result, the bytes from
  the pointer on; a terminating zero is one of them and the next write goes over it.
\<close>

abbreviation (input) INT_MAX :: nat where "INT_MAX \<equiv> 2147483647"
abbreviation (input) ctx_size :: nat where "ctx_size \<equiv> 48"

record EVP_ENCODE_CTX =
  ec_data_used :: nat
  ec_data :: "byte list"
  ec_eof_seen :: bool
  ec_error_encountered :: bool

section \<open>Encoding\<close>

definition constant_time_lt_args_8 :: "byte \<Rightarrow> byte \<Rightarrow> byte" where
  "constant_time_lt_args_8 a b = ucast (constant_time_msb_w (ucast a - ucast b))"

definition constant_time_in_range_8 :: "byte \<Rightarrow> byte \<Rightarrow> byte \<Rightarrow> byte" where
  "constant_time_in_range_8 a min' max' = constant_time_lt_args_8 (a - min') (max' - min' + 1)"

abbreviation (input) chr :: "char \<Rightarrow> byte" where "chr c \<equiv> of_char c"

definition conv_bin2ascii :: "byte \<Rightarrow> byte" where
  "conv_bin2ascii b =
     (let a = b AND 0x3f;
          ret = constant_time_select_8 (constant_time_eq_8 (ucast a) 62) (chr CHR ''+'') (chr CHR ''/'');
          ret = constant_time_select_8 (constant_time_lt_args_8 a 62) (a - 52 + chr CHR ''0'') ret;
          ret = constant_time_select_8 (constant_time_lt_args_8 a 52) (a - 26 + chr CHR ''a'') ret
      in constant_time_select_8 (constant_time_lt_args_8 a 26) (a + chr CHR ''A'') ret)"

definition EVP_EncodedLength :: "size_t \<Rightarrow> size_t option" where
  "EVP_EncodedLength len =
     (if len + 2 < len then None
      else let len = (len + 2) div 3
           in if drop_bit 2 (push_bit 2 len) \<noteq> len then None
              else let len = push_bit 2 len
                   in if len + 1 < len then None else Some (len + 1))"

definition EVP_EncodeInit :: EVP_ENCODE_CTX where
  "EVP_EncodeInit = \<lparr>ec_data_used = 0, ec_data = replicate ctx_size 0, ec_eof_seen = False, ec_error_encountered = False\<rparr>"

text \<open>The characters of a block.\<close>

function encode_loop :: "byte list \<Rightarrow> byte list" where
  "encode_loop src =
     (if src = [] then []
      else if length src \<ge> 3 then
        let l = push_bit 16 (ucast (src ! 0)) OR push_bit 8 (ucast (src ! 1)) OR ucast (src ! 2) :: u32
        in [conv_bin2ascii (ucast (drop_bit 18 l)), conv_bin2ascii (ucast (drop_bit 12 l)),
            conv_bin2ascii (ucast (drop_bit 6 l)), conv_bin2ascii (ucast l)] @ encode_loop (drop 3 src)
      else
        let l = push_bit 16 (ucast (src ! 0)) :: u32;
            l = (if length src = 2 then l OR push_bit 8 (ucast (src ! 1)) else l)
        in [conv_bin2ascii (ucast (drop_bit 18 l)), conv_bin2ascii (ucast (drop_bit 12 l)),
            if length src = 1 then chr CHR ''='' else conv_bin2ascii (ucast (drop_bit 6 l)), chr CHR ''=''])"
  by pat_completeness auto

termination by (relation "measure length") auto

declare encode_loop.simps [simp del]

definition EVP_EncodeBlock :: "byte list \<Rightarrow> byte list \<times> nat" where
  "EVP_EncodeBlock src = (encode_loop src @ [0], length (encode_loop src) mod 2 ^ 64)"

text \<open>Copying into the buffer of the context.\<close>

definition store_at :: "nat \<Rightarrow> byte list \<Rightarrow> byte list \<Rightarrow> byte list" where
  "store_at i xs d = take i d @ xs @ drop (i + length xs) d"

text \<open>
  The lines that lie in the input; \<open>out\<close> is what has been written and \<open>tot\<close> its length, and the rest of the
  input is a result.  No total is an overflow.
\<close>

function encode_lines :: "byte list \<Rightarrow> nat \<Rightarrow> byte list \<Rightarrow> byte list \<times> nat option \<times> byte list" where
  "encode_lines out tot inp =
     (if length inp \<ge> ctx_size then
        let (block, encoded) = EVP_EncodeBlock (take ctx_size inp);
            out = out @ take encoded block @ [10];
            next_tot = (tot + encoded + 1) mod 2 ^ 64
        in if next_tot < tot then (out, None, drop ctx_size inp) else encode_lines out next_tot (drop ctx_size inp)
      else (out, Some tot, inp))"
  by pat_completeness auto

termination by (relation "measure (\<lambda>(out, tot, inp). length inp)") auto

declare encode_lines.simps [simp del]

definition EVP_EncodeUpdate :: "byte list \<Rightarrow> (byte list \<times> nat, EVP_ENCODE_CTX) act" where
  "EVP_EncodeUpdate inp = (\<lambda>ctx.
     let used = ec_data_used ctx
     in if inp = [] then (Ok ([], 0), ctx)
        else if \<not> used < ctx_size then (Ub, ctx)
        else if ctx_size - used > length inp then
          (Ok ([], 0), ctx\<lparr>ec_data := store_at used inp (ec_data ctx), ec_data_used := used + length inp\<rparr>)
        else
          let (out, tot, inp, ctx) =
                (if used \<noteq> 0 then
                   let todo = ctx_size - used;
                       data = store_at used (take todo inp) (ec_data ctx);
                       (block, encoded) = EVP_EncodeBlock (take ctx_size data)
                   in (take encoded block @ [10], encoded + 1, drop todo inp, ctx\<lparr>ec_data := data, ec_data_used := 0\<rparr>)
                 else ([], 0, inp, ctx))
          in case encode_lines out tot inp of
               (out, None, _) \<Rightarrow> (Ok (out @ [0], 0), ctx)
             | (out, Some tot, inp) \<Rightarrow>
                 let ctx = (if inp \<noteq> [] then ctx\<lparr>ec_data := store_at 0 inp (ec_data ctx)\<rparr> else ctx)
                 in (Ok (out @ [0], if tot > INT_MAX then 0 else tot), ctx\<lparr>ec_data_used := length inp\<rparr>))"

definition EVP_EncodeFinal :: "(byte list \<times> nat, EVP_ENCODE_CTX) act" where
  "EVP_EncodeFinal = (\<lambda>ctx.
     if ec_data_used ctx = 0 then (Ok ([], 0), ctx)
     else
       let (block, encoded) = EVP_EncodeBlock (take (ec_data_used ctx) (ec_data ctx));
           out = take encoded block @ [10, 0];
           encoded = encoded + 1
       in if \<not> encoded \<le> INT_MAX then (Ub, ctx\<lparr>ec_data_used := 0\<rparr>) else (Ok (out, encoded), ctx\<lparr>ec_data_used := 0\<rparr>))"

section \<open>Decoding\<close>

definition EVP_DecodedLength :: "nat \<Rightarrow> nat option" where
  "EVP_DecodedLength len = (if len mod 4 \<noteq> 0 then None else Some (len div 4 * 3))"

definition EVP_DecodeInit :: EVP_ENCODE_CTX where
  "EVP_DecodeInit = \<lparr>ec_data_used = 0, ec_data = replicate ctx_size 0, ec_eof_seen = False, ec_error_encountered = False\<rparr>"

definition base64_ascii_to_bin :: "byte \<Rightarrow> byte" where
  "base64_ascii_to_bin a =
     (let is_upper = constant_time_in_range_8 a (chr CHR ''A'') (chr CHR ''Z'');
          is_lower = constant_time_in_range_8 a (chr CHR ''a'') (chr CHR ''z'');
          is_digit = constant_time_in_range_8 a (chr CHR ''0'') (chr CHR ''9'');
          is_plus = constant_time_eq_8 (ucast a) (ucast (chr CHR ''+''));
          is_slash = constant_time_eq_8 (ucast a) (ucast (chr CHR ''/''));
          is_equals = constant_time_eq_8 (ucast a) (ucast (chr CHR ''=''));
          ret = 0xff;
          ret = constant_time_select_8 is_upper (a - chr CHR ''A'') ret;
          ret = constant_time_select_8 is_lower (a - chr CHR ''a'' + 26) ret;
          ret = constant_time_select_8 is_digit (a - chr CHR ''0'' + 52) ret;
          ret = constant_time_select_8 is_plus 62 ret;
          ret = constant_time_select_8 is_slash 63 ret
      in constant_time_select_8 is_equals 0 ret)"

text \<open>The bytes of a quad, fewer than three where it ends with padding.\<close>

definition base64_decode_quad :: "byte \<Rightarrow> byte \<Rightarrow> byte \<Rightarrow> byte \<Rightarrow> byte list option" where
  "base64_decode_quad in0 in1 in2 in3 =
     (let a = base64_ascii_to_bin in0;
          b = base64_ascii_to_bin in1;
          c = base64_ascii_to_bin in2;
          d = base64_ascii_to_bin in3
      in if a = 0xff \<or> b = 0xff \<or> c = 0xff \<or> d = 0xff then None
         else
           let v = push_bit 18 (ucast a) OR push_bit 12 (ucast b) OR push_bit 6 (ucast c) OR ucast d :: u32;
               eq = (\<lambda>x. if x = chr CHR ''='' then 1 else 0 :: nat);
               padding_pattern = 8 * eq in0 + 4 * eq in1 + 2 * eq in2 + eq in3
           in if padding_pattern = 0 then Some [ucast (drop_bit 16 v), ucast (drop_bit 8 v), ucast v]
              else if padding_pattern = 1 then Some [ucast (drop_bit 16 v), ucast (drop_bit 8 v)]
              else if padding_pattern = 3 then Some [ucast (drop_bit 16 v)]
              else None)"

text \<open>The loop over the characters; the result is what was written and whether there was no error.\<close>

primrec decode_chars :: "byte list \<Rightarrow> byte list \<Rightarrow> (byte list \<times> bool, EVP_ENCODE_CTX) act" where
  "decode_chars [] out = ret (out, True)"
| "decode_chars (c # cs) out = (\<lambda>ctx.
     if c = chr CHR '' '' \<or> c = 9 \<or> c = 13 \<or> c = 10 then decode_chars cs out ctx
     else if ec_eof_seen ctx then (Ok (out, False), ctx\<lparr>ec_error_encountered := True\<rparr>)
     else if \<not> ec_data_used ctx < length (ec_data ctx) then (Ub, ctx)
     else
       let ctx = ctx\<lparr>ec_data := (ec_data ctx)[ec_data_used ctx := c], ec_data_used := ec_data_used ctx + 1\<rparr>
       in if ec_data_used ctx = 4 then
            (case base64_decode_quad (ec_data ctx ! 0) (ec_data ctx ! 1) (ec_data ctx ! 2) (ec_data ctx ! 3) of
               None \<Rightarrow> (Ok (out, False), ctx\<lparr>ec_error_encountered := True\<rparr>)
             | Some bytes \<Rightarrow>
                 decode_chars cs (out @ bytes)
                   (ctx\<lparr>ec_data_used := 0, ec_eof_seen := (if length bytes < 3 then True else ec_eof_seen ctx)\<rparr>))
          else decode_chars cs out ctx)"

text \<open>The results are what was written, its length and the value returned.\<close>

definition EVP_DecodeUpdate :: "byte list \<Rightarrow> (byte list \<times> nat \<times> int, EVP_ENCODE_CTX) act" where
  "EVP_DecodeUpdate inp = (\<lambda>ctx.
     if ec_error_encountered ctx then (Ok ([], 0, - 1), ctx)
     else seq (decode_chars inp []) (\<lambda>(out, fine).
       if \<not> fine then ret (out, 0, - 1)
       else if length out > INT_MAX then seq (update (\<lambda>ctx. ctx\<lparr>ec_error_encountered := True\<rparr>)) (\<lambda>_. ret (out, 0, - 1))
       else seq (query ec_eof_seen) (\<lambda>eof. ret (out, length out, if eof then 0 else 1))) ctx)"

definition EVP_DecodeFinal :: "(nat \<times> int, EVP_ENCODE_CTX) act" where
  "EVP_DecodeFinal = (\<lambda>ctx. (Ok (0, if ec_error_encountered ctx \<or> ec_data_used ctx \<noteq> 0 then - 1 else 1), ctx))"

text \<open>The quads of a block; the result is what was written and its length, if there was no error.\<close>

fun decode_quads :: "byte list \<Rightarrow> byte list \<Rightarrow> byte list \<times> nat option" where
  "decode_quads (i0 # i1 # i2 # i3 # rest) out = (case base64_decode_quad i0 i1 i2 i3 of
     None \<Rightarrow> (out, None)
   | Some bytes \<Rightarrow> if length bytes \<noteq> 3 \<and> rest \<noteq> [] then (out @ bytes, None) else decode_quads rest (out @ bytes))"
| "decode_quads _ out = (out, Some (length out))"

definition EVP_DecodeBase64 :: "nat \<Rightarrow> byte list \<Rightarrow> byte list \<times> nat option" where
  "EVP_DecodeBase64 max_out inp =
     (if length inp mod 4 \<noteq> 0 then ([], None)
      else case EVP_DecodedLength (length inp) of
          None \<Rightarrow> ([], None)
        | Some max_len \<Rightarrow> if max_out < max_len then ([], None) else decode_quads inp [])"

text \<open>Zeros up to a multiple of three.\<close>

function pad_three :: "byte list \<Rightarrow> byte list" where
  "pad_three dst = (if length dst mod 3 \<noteq> 0 then pad_three (dst @ [0]) else dst)"
  by pat_completeness auto

termination by (relation "measure (\<lambda>dst. if length dst mod 3 = 0 then 0 else 3 - length dst mod 3)") (auto simp: mod_Suc)

declare pad_three.simps [simp del]

definition EVP_DecodeBlock :: "byte list \<Rightarrow> byte list \<times> int" where
  "EVP_DecodeBlock src =
     (let src = dropWhile (\<lambda>c. c = chr CHR '' '' \<or> c = 9) src;
          src = rev (dropWhile (\<lambda>c. c = chr CHR '' '' \<or> c = 9 \<or> c = 13 \<or> c = 10) (rev src))
      in case EVP_DecodedLength (length src) of
           None \<Rightarrow> ([], - 1)
         | Some dst_len \<Rightarrow>
             if dst_len > INT_MAX then ([], - 1)
             else (case EVP_DecodeBase64 dst_len src of
                 (out, None) \<Rightarrow> (out, - 1)
               | (out, Some _) \<Rightarrow> (pad_three out, int (length (pad_three out)))))"

end
