(* ===== verification/Base64_Stream.thy ===== *)
theory Base64_Stream
  imports Base64
begin

text \<open>
  What base64 coding does: the alphabet, the quads, and streams cut into pieces.
\<close>

section \<open>The alphabet\<close>

lemma lt_args_8: "constant_time_lt_args_8 a b = (if a < b then 0xff else 0)"
proof -
  have bounds: "unat a < 2 ^ 8" "unat b < 2 ^ 8"
    using unsigned_less [of a, where 'a = nat] unsigned_less [of b, where 'a = nat] by simp_all
  have "unat (ucast a :: 64 word) = unat a" "unat (ucast b :: 64 word) = unat b" 
    using bounds by (simp_all add: unsigned_ucast_eq take_bit_nat_eq_self)
  then have "bit (ucast a - ucast b :: 64 word) 63 \<longleftrightarrow> a < b"
    unfolding bit_63 unat_minus_cases word_less_nat_alt using bounds by (auto split: if_splits)
  then show ?thesis by (simp add: constant_time_lt_args_8_def msb_mask ucast_mask)
qed

lemma in_range_8:
  assumes "lo \<le> hi" "hi - lo < 0xff"
  shows "constant_time_in_range_8 a lo hi = (if lo \<le> a \<and> a \<le> hi then 0xff else 0)"
proof -
  have bounds: "unat a < 256" "unat lo < 256" "unat hi < 256"
    using unsigned_less [of a, where 'a = nat] unsigned_less [of lo, where 'a = nat] unsigned_less [of hi, where 'a = nat] by simp_all
  have le: "unat lo \<le> unat hi" using assms(1) by (simp add: word_le_nat_alt)
  have d: "unat (hi - lo) = unat hi - unat lo" using le unat_sub_if_size [of hi lo] by simp
  moreover have "unat (hi - lo) < 255" using assms(2) by (simp add: word_less_nat_alt)
  ultimately have s: "unat (hi - lo + 1) = unat hi - unat lo + 1" by (simp add: unat_word_ariths)
  have "unat (a - lo) = (if unat lo \<le> unat a then unat a - unat lo else unat a + 256 - unat lo)"
    using unat_sub_if_size [of a lo] by (auto simp: word_size)
  then have "a - lo < hi - lo + 1 \<longleftrightarrow> lo \<le> a \<and> a \<le> hi"
    unfolding word_less_nat_alt word_le_nat_alt s using bounds le by (auto split: if_splits)
  then show ?thesis by (simp add: constant_time_in_range_8_def lt_args_8 Let_def)
qed

lemma eq_8: "constant_time_eq_8 (ucast a) (ucast b) = (if a = b then 0xff else 0)" for a b :: byte
proof -
  have "(ucast a :: 64 word) = ucast b \<longleftrightarrow> a = b" by (metis ucast_ucast_byte)
  then show ?thesis by (simp add: constant_time_8)
qed

lemmas mask_select = lt_args_8 in_range_8 eq_8 constant_time_select_if

definition base64_alphabet :: "byte list" where
  "base64_alphabet = map of_char ''ABCDEFGHIJKLMNOPQRSTUVWXYZabcdefghijklmnopqrstuvwxyz0123456789+/''"

lemma conv_bin2ascii_cases:
  "conv_bin2ascii b = (let a = b AND 0x3f
     in if a < 26 then a + 65 else if a < 52 then a - 26 + 97 else if a < 62 then a - 52 + 48 else if a = 62 then 43 else 47)"
proof -
  have "constant_time_eq_8 (ucast a) 62 = (if a = 62 then 0xff else 0)" for a :: byte using eq_8 [of a 62] by simp
  then show ?thesis unfolding conv_bin2ascii_def Let_def lt_args_8 by (simp only: constant_time_select_if) simp
qed

lemma base64_ascii_to_bin_cases:
  "base64_ascii_to_bin a =
     (if a = 61 then 0 else if a = 47 then 63 else if a = 43 then 62 else if 48 \<le> a \<and> a \<le> 57 then a - 48 + 52
      else if 97 \<le> a \<and> a \<le> 122 then a - 97 + 26 else if 65 \<le> a \<and> a \<le> 90 then a - 65 else 0xff)"
proof -
  have "constant_time_in_range_8 a 65 90 = (if 65 \<le> a \<and> a \<le> 90 then 0xff else 0)"
    "constant_time_in_range_8 a 97 122 = (if 97 \<le> a \<and> a \<le> 122 then 0xff else 0)"
    "constant_time_in_range_8 a 48 57 = (if 48 \<le> a \<and> a \<le> 57 then 0xff else 0)"
    by (rule in_range_8; simp)+
  moreover have "(chr CHR ''A'' :: byte) = 65" "(chr CHR ''Z'' :: byte) = 90" "(chr CHR ''a'' :: byte) = 97" "(chr CHR ''z'' :: byte) = 122"
    "(chr CHR ''0'' :: byte) = 48" "(chr CHR ''9'' :: byte) = 57" "(chr CHR ''+'' :: byte) = 43" "(chr CHR ''/'' :: byte) = 47" "(chr CHR ''='' :: byte) = 61"
    by simp_all
  ultimately show ?thesis unfolding base64_ascii_to_bin_def Let_def by (simp only: eq_8 constant_time_select_if)
qed

text \<open>Six bits, their character and back.\<close>

definition whitespace :: "byte \<Rightarrow> bool" where
  "whitespace c \<longleftrightarrow> c = 32 \<or> c = 9 \<or> c = 13 \<or> c = 10"

definition codes :: "byte \<Rightarrow> byte \<Rightarrow> bool" where
  "codes a c \<longleftrightarrow> c = base64_alphabet ! unat a \<and> base64_ascii_to_bin c = a \<and> a \<noteq> 0xff \<and> c \<noteq> 61 \<and> \<not> whitespace c"

lemma base64_alphabet_bytes:
  "base64_alphabet =
    [65, 66, 67, 68, 69, 70, 71, 72, 73, 74, 75, 76, 77, 78, 79, 80, 81, 82, 83, 84, 85, 86, 87, 88, 89,
     90, 97, 98, 99, 100, 101, 102, 103, 104, 105, 106, 107, 108, 109, 110, 111, 112, 113, 114, 115,
     116, 117, 118, 119, 120, 121, 122, 48, 49, 50, 51, 52, 53, 54, 55, 56, 57, 43, 47]"
  by (simp add: base64_alphabet_def)

lemma sextet_list:
  "map word_of_nat [0..<64] =
    [0 :: byte, 1, 2, 3, 4, 5, 6, 7, 8, 9, 10, 11, 12, 13, 14, 15, 16, 17, 18, 19, 20, 21, 22, 23, 24,
     25, 26, 27, 28, 29, 30, 31, 32, 33, 34, 35, 36, 37, 38, 39, 40, 41, 42, 43, 44, 45, 46, 47, 48, 49,
     50, 51, 52, 53, 54, 55, 56, 57, 58, 59, 60, 61, 62, 63]"
  by (simp add: upt_conv_Cons)

lemma codes_all: "list_all (\<lambda>a. codes a (conv_bin2ascii a)) (map word_of_nat [0..<64])"
  unfolding sextet_list
  by (simp add: codes_def conv_bin2ascii_cases base64_ascii_to_bin_cases base64_alphabet_bytes whitespace_def Let_def)

lemma and_63: "unat (b AND 0x3f :: byte) < 64"
proof -
  have "b AND 0x3f = take_bit 6 b" by (simp add: take_bit_eq_mask mask_eq_decr_exp)
  then show ?thesis using take_bit_nat_less_exp [of 6 "unat b"] by (simp add: unsigned_take_bit_eq)
qed

lemma conv_codes: "codes (b AND 0x3f) (conv_bin2ascii b)"
proof -
  have "codes (word_of_nat n) (conv_bin2ascii (word_of_nat n))" if "n < 64" for n
    using codes_all that by (auto simp: list_all_iff)
  then have "codes (word_of_nat (unat (b AND 0x3f))) (conv_bin2ascii (word_of_nat (unat (b AND 0x3f))))" using and_63 by blast
  moreover have "conv_bin2ascii (b AND 0x3f) = conv_bin2ascii b" by (simp add: conv_bin2ascii_def and.assoc)
  ultimately show ?thesis by simp
qed

section \<open>Quads\<close>

text \<open>The 24 bits of a quad.\<close>

definition bits_24 :: "byte \<Rightarrow> byte \<Rightarrow> byte \<Rightarrow> u32" where
  "bits_24 x y z = push_bit 16 (ucast x) OR push_bit 8 (ucast y) OR ucast z"

definition sextet :: "nat \<Rightarrow> u32 \<Rightarrow> byte" where
  "sextet k l = ucast (drop_bit k l) AND 0x3f"

lemma bit_63_byte: "bit (0x3f :: byte) n \<longleftrightarrow> n < 6"
proof -
  have "(0x3f :: byte) = mask 6" by (simp add: mask_eq_decr_exp)
  then have "bit (0x3f :: byte) n \<longleftrightarrow> n < 8 \<and> n < 6" by (simp only: bit_mask_iff possible_bit_word) simp
  then show ?thesis by auto
qed

lemma sextets_join:
  assumes "drop_bit 24 l = 0"
  shows "push_bit 18 (ucast (sextet 18 l)) OR push_bit 12 (ucast (sextet 12 l)) OR push_bit 6 (ucast (sextet 6 l)) OR ucast (sextet 0 l) = l"
proof (rule bit_word_eqI)
  fix n assume n: "n < LENGTH(32)"
  have high: "\<not> bit l n" if "24 \<le> n"
  proof -
    have "bit (drop_bit 24 l) (n - 24) = bit l n" using that by (simp add: bit_drop_bit_eq)
    then show ?thesis using assms by simp
  qed
  consider "n < 6" | "6 \<le> n" "n < 12" | "12 \<le> n" "n < 18" | "18 \<le> n" "n < 24" | "24 \<le> n" by linarith
  then show "bit (push_bit 18 (ucast (sextet 18 l)) OR push_bit 12 (ucast (sextet 12 l)) OR push_bit 6 (ucast (sextet 6 l)) OR ucast (sextet 0 l) :: u32) n \<longleftrightarrow> bit l n"
    by cases (use n high in \<open>auto simp: sextet_def bit_simps bit_63_byte\<close>)
qed

lemma bits_24_high: "drop_bit 24 (bits_24 x y z) = 0"
  by (rule bit_word_eqI) (auto simp: bits_24_def bit_simps dest: bit_imp_le_length)

lemma bits_24_bytes:
  "ucast (drop_bit 16 (bits_24 x y z)) = x" "ucast (drop_bit 8 (bits_24 x y z)) = y" "ucast (bits_24 x y z) = z"
  by (rule bit_word_eqI, auto simp: bits_24_def bit_simps dest: bit_imp_le_length)+

text \<open>The code of a byte string, by the alphabet and arithmetic.\<close>

definition digits :: "byte \<Rightarrow> byte \<Rightarrow> byte \<Rightarrow> byte list" where
  "digits x y z = (let n = unat x * 2 ^ 16 + unat y * 2 ^ 8 + unat z
     in map (\<lambda>k. base64_alphabet ! (n div 2 ^ k mod 64)) [18, 12, 6, 0])"

fun base64 :: "byte list \<Rightarrow> byte list" where
  "base64 [] = []"
| "base64 [x] = take 2 (digits x 0 0) @ [61, 61]"
| "base64 [x, y] = take 3 (digits x y 0) @ [61]"
| "base64 (x # y # z # xs) = digits x y z @ base64 xs"

lemma unat_bits_24: "unat (bits_24 x y z) = unat x * 2 ^ 16 + unat y * 2 ^ 8 + unat z"
proof -
  have bounds: "unat x < 256" "unat y < 256" "unat z < 256"
    using unsigned_less [of x, where 'a = nat] unsigned_less [of y, where 'a = nat] unsigned_less [of z, where 'a = nat] by simp_all
  have "word_of_nat (unat x * 2 ^ 16 + unat y * 2 ^ 8 + unat z) = (push_bit 16 (ucast x) + push_bit 8 (ucast y) + ucast z :: u32)"
    by (simp add: push_bit_eq_mult)
  also have "\<dots> = bits_24 x y z"
  proof -
    have "push_bit 16 (ucast x) + push_bit 8 (ucast y) = (push_bit 16 (ucast x) OR push_bit 8 (ucast y) :: u32)"
      by (rule disjunctive_add) (auto simp: bit_simps dest: bit_imp_le_length)
    moreover have "(push_bit 16 (ucast x) OR push_bit 8 (ucast y)) + ucast z = (bits_24 x y z :: u32)"
      unfolding bits_24_def or.assoc [symmetric] by (rule disjunctive_add) (auto simp: bit_simps dest: bit_imp_le_length)
    ultimately show ?thesis by simp
  qed
  finally have "bits_24 x y z = word_of_nat (unat x * 2 ^ 16 + unat y * 2 ^ 8 + unat z)" ..
  then have "unat (bits_24 x y z) = (unat x * 2 ^ 16 + unat y * 2 ^ 8 + unat z) mod 2 ^ 32" by (simp only: unat_of_nat) simp
  then show ?thesis using bounds by simp
qed

lemma unat_sextet: "unat (sextet k l) = unat l div 2 ^ k mod 64"
proof -
  have "sextet k l = take_bit 6 (ucast (drop_bit k l))" by (simp add: sextet_def take_bit_eq_mask mask_eq_decr_exp)
  then have "unat (sextet k l) = take_bit 6 (take_bit 8 (drop_bit k (unat l)))"
    using take_bit_nat_eq_self [of "unat l" 32] unsigned_less [of l, where 'a = nat]
    by (simp add: unsigned_take_bit_eq unsigned_ucast_eq unsigned_drop_bit_eq)
  then show ?thesis by (simp add: take_bit_eq_mod drop_bit_eq_div mod_mod_cancel)
qed

lemma conv_sextet: "codes (sextet k l) (conv_bin2ascii (ucast (drop_bit k l)))"
  unfolding sextet_def by (rule conv_codes)

lemma digits_conv:
  "digits x y z = [conv_bin2ascii (ucast (drop_bit 18 (bits_24 x y z))), conv_bin2ascii (ucast (drop_bit 12 (bits_24 x y z))),
     conv_bin2ascii (ucast (drop_bit 6 (bits_24 x y z))), conv_bin2ascii (ucast (bits_24 x y z))]"
  using conv_sextet [of _ "bits_24 x y z"] conv_sextet [of 0 "bits_24 x y z"]
  by (simp add: digits_def codes_def unat_sextet unat_bits_24 Let_def)

lemma encode_loop_base64: "encode_loop xs = base64 xs"
proof (induction xs rule: base64.induct)
  case 1
  then show ?case by (simp add: encode_loop.simps [of "[]"])
next
  case (2 x)
  show ?case by (simp add: encode_loop.simps [of "[x]"] Let_def digits_conv bits_24_def)
next
  case (3 x y)
  show ?case by (simp add: encode_loop.simps [of "[x, y]"] Let_def digits_conv bits_24_def)
next
  case (4 x y z xs)
  then show ?case by (simp add: encode_loop.simps [of "x # y # z # xs"] Let_def digits_conv bits_24_def)
qed

lemma length_base64: "length (base64 xs) = 4 * ((length xs + 2) div 3)"
proof (induction xs rule: base64.induct)
  case (4 x y z xs)
  have "(length xs + 3 + 2) div 3 = (length xs + 2) div 3 + 1" by presburger
  then show ?case using 4 by (simp add: digits_conv)
qed (simp_all add: digits_conv)

text \<open>The quads that come out are decoded to what went in.\<close>

lemma base64_ascii_to_bin_61: "base64_ascii_to_bin 61 = 0"
  by (simp add: base64_ascii_to_bin_cases)

lemma decode_digits:
  "digits x y z = [a, b, c, d] \<Longrightarrow> base64_decode_quad a b c d = Some [x, y, z]"
  "digits x y 0 = [a, b, c, d] \<Longrightarrow> base64_decode_quad a b c 61 = Some [x, y]"
  "digits x 0 0 = [a, b, c, d] \<Longrightarrow> base64_decode_quad a b 61 61 = Some [x]"
proof -
  have conv: "base64_ascii_to_bin (conv_bin2ascii (ucast (drop_bit k l))) = sextet k l \<and> sextet k l \<noteq> 0xff \<and>
    conv_bin2ascii (ucast (drop_bit k l)) \<noteq> 61" for k l
    using conv_sextet [of k l] unfolding codes_def by blast
  note facts = conv [of 18] conv [of 12] conv [of 6] conv [of 0, simplified]
  have zero: "sextet 0 (bits_24 x y 0) = 0" "sextet 6 (bits_24 x 0 0) = 0" "sextet 0 (bits_24 x 0 0) = 0" for x y
    by (rule unat_eq_0 [THEN iffD1], simp add: unat_sextet unat_bits_24)+
  have join: "push_bit 18 (ucast (sextet 18 l)) OR push_bit 12 (ucast (sextet 12 l)) OR push_bit 6 (ucast (sextet 6 l)) OR ucast (sextet 0 l) = l"
    if "l = bits_24 x y z" for l x y z using sextets_join [of l] bits_24_high that by simp
  show "digits x y z = [a, b, c, d] \<Longrightarrow> base64_decode_quad a b c d = Some [x, y, z]"
    using facts [of "bits_24 x y z"] join [OF refl, of x y z]
    by (simp add: digits_conv base64_decode_quad_def Let_def bits_24_bytes)
  show "digits x y 0 = [a, b, c, d] \<Longrightarrow> base64_decode_quad a b c 61 = Some [x, y]"
    using facts [of "bits_24 x y 0"] join [OF refl, of x y 0] zero(1) [of x y]
    by (simp add: digits_conv base64_decode_quad_def Let_def bits_24_bytes base64_ascii_to_bin_61)
  show "digits x 0 0 = [a, b, c, d] \<Longrightarrow> base64_decode_quad a b 61 61 = Some [x]"
    using facts [of "bits_24 x 0 0"] join [OF refl, of x 0 0] zero(2,3) [of x]
    by (simp add: digits_conv base64_decode_quad_def Let_def bits_24_bytes base64_ascii_to_bin_61)
qed

end
