(* ===== verification/Base64_Props.thy ===== *)
theory Base64_Props
  imports Base64_Stream
begin

text \<open>
  The properties of base64 coding: blocks and streams, cut into any pieces, are coded and decoded back.
\<close>

section \<open>Decoding characters\<close>

lemma decode_chars_append:
  "decode_chars (xs @ ys) out ctx = (case decode_chars xs out ctx of
     (Ok (o1, True), c) \<Rightarrow> decode_chars ys o1 c
   | r \<Rightarrow> r)"
  by (induction xs arbitrary: out ctx) (auto simp: act_run Let_def split: option.splits)

lemma decode_chars_out:
  "decode_chars xs (pre @ out) ctx = (case decode_chars xs out ctx of
     (Ok (o1, b), c) \<Rightarrow> (Ok (pre @ o1, b), c)
   | r \<Rightarrow> r)"
  by (induction xs arbitrary: out ctx) (auto simp: act_run Let_def split: option.splits)

lemma decode_chars_filter: "decode_chars (filter (\<lambda>c. \<not> whitespace c) xs) out ctx = decode_chars xs out ctx"
  by (induction xs arbitrary: out ctx) (auto simp: whitespace_def Let_def split: option.splits)

declare decode_chars.simps [simp del]

text \<open>A context between two quads.\<close>

definition at_quad :: "bool \<Rightarrow> EVP_ENCODE_CTX \<Rightarrow> bool" where
  "at_quad eof ctx \<longleftrightarrow> ec_data_used ctx = 0 \<and> length (ec_data ctx) = ctx_size \<and> ec_eof_seen ctx = eof \<and> \<not> ec_error_encountered ctx"

lemma decode_chars_quad:
  assumes "at_quad False ctx" "\<not> whitespace a" "\<not> whitespace b" "\<not> whitespace c" "\<not> whitespace d" "base64_decode_quad a b c d = Some xs"
  shows "\<exists>ctx'. decode_chars ([a, b, c, d] @ rest) out ctx = decode_chars rest (out @ xs) ctx' \<and> at_quad (length xs < 3) ctx'"
proof -
  let ?data = "(ec_data ctx)[0 := a, 1 := b, 2 := c, 3 := d]"
  let ?ctx = "ctx\<lparr>ec_data := ?data, ec_data_used := 0, ec_eof_seen := length xs < 3\<rparr>"
  have "decode_chars ([a, b, c, d] @ rest) out ctx = decode_chars rest (out @ xs) ?ctx"
    using assms by (simp add: decode_chars.simps at_quad_def whitespace_def Let_def numeral_eq_Suc)
  moreover have "at_quad (length xs < 3) ?ctx" using assms(1) by (simp add: at_quad_def)
  ultimately show ?thesis by blast
qed

lemma digits_chars:
  assumes "digits x y z = [a, b, c, d]"
  shows "\<not> whitespace a" "\<not> whitespace b" "\<not> whitespace c" "\<not> whitespace d"
  using assms conv_sextet [of 18 "bits_24 x y z"] conv_sextet [of 12 "bits_24 x y z"] conv_sextet [of 6 "bits_24 x y z"]
    conv_sextet [of 0 "bits_24 x y z"]
  by (auto simp: digits_conv codes_def)

lemma digits_obtain: obtains a b c d where "digits x y z = [a, b, c, d]"
  by (rule that [OF digits_conv])

lemma base64_no_whitespace: "\<forall>c \<in> set (base64 xs). \<not> whitespace c"
proof (induction xs rule: base64.induct)
  case (2 x)
  obtain a b c d where d: "digits x 0 0 = [a, b, c, d]" by (rule digits_obtain)
  show ?case using digits_chars [OF d] by (simp add: d) (simp add: whitespace_def)
next
  case (3 x y)
  obtain a b c d where d: "digits x y 0 = [a, b, c, d]" by (rule digits_obtain)
  show ?case using digits_chars [OF d] by (simp add: d) (simp add: whitespace_def)
next
  case (4 x y z xs)
  obtain a b c d where d: "digits x y z = [a, b, c, d]" by (rule digits_obtain)
  show ?case using digits_chars [OF d] 4 by (simp add: d)
qed simp

lemma decode_chars_base64:
  assumes "at_quad False ctx"
  shows "\<exists>ctx'. decode_chars (base64 xs @ rest) out ctx = decode_chars rest (out @ xs) ctx' \<and> at_quad (length xs mod 3 \<noteq> 0) ctx'"
  using assms
proof (induction xs arbitrary: out ctx rule: base64.induct)
  case 1
  then show ?case by (auto simp: at_quad_def)
next
  case (2 x)
  obtain a b c d where d: "digits x 0 0 = [a, b, c, d]" by (rule digits_obtain)
  show ?case using decode_chars_quad [OF 2 digits_chars(1,2) [OF d] _ _ decode_digits(3) [OF d], of rest out]
    by (simp add: d) (simp add: whitespace_def)
next
  case (3 x y)
  obtain a b c d where d: "digits x y 0 = [a, b, c, d]" by (rule digits_obtain)
  show ?case using decode_chars_quad [OF 3 digits_chars(1,2,3) [OF d] _ decode_digits(2) [OF d], of rest out]
    by (simp add: d) (simp add: whitespace_def)
next
  case (4 x y z xs)
  obtain a b c d where d: "digits x y z = [a, b, c, d]" by (rule digits_obtain)
  obtain ctx1 where 1: "decode_chars ([a, b, c, d] @ base64 xs @ rest) out ctx = decode_chars (base64 xs @ rest) (out @ [x, y, z]) ctx1" "at_quad False ctx1"
    using decode_chars_quad [OF 4(2) digits_chars [OF d] decode_digits(1) [OF d], of "base64 xs @ rest" out] by auto
  have "length (x # y # z # xs) mod 3 = length xs mod 3" by simp
  then show ?case using 4(1) [OF 1(2), of "out @ [x, y, z]"] 1(1) by (simp add: d)
qed

lemma decode_chars_text:
  assumes "at_quad False ctx" "filter (\<lambda>c. \<not> whitespace c) cs = base64 xs"
  shows "\<exists>ctx'. decode_chars cs out ctx = (Ok (out @ xs, True), ctx') \<and> at_quad (length xs mod 3 \<noteq> 0) ctx'"
  using decode_chars_base64 [OF assms(1), of xs "[]" out] decode_chars_filter [of cs out ctx] assms(2)
  by (simp add: decode_chars.simps act_run)

section \<open>Decoding a stream\<close>

text \<open>A stream is a sequence of inputs; every result has to be good.\<close>

primrec decode_updates :: "byte list list \<Rightarrow> (byte list, EVP_ENCODE_CTX) act" where
  "decode_updates [] = ret []"
| "decode_updates (inp # inps) = seq (EVP_DecodeUpdate inp) (\<lambda>(out, out_len, r).
     if r < 0 then fail else seq (decode_updates inps) (\<lambda>rest. ret (take out_len out @ rest)))"

definition decode_stream :: "byte list list \<Rightarrow> byte list outcome" where
  "decode_stream inps = fst (seq (decode_updates inps) (\<lambda>out.
     seq EVP_DecodeFinal (\<lambda>(out_len, r). if r < 0 then fail else ret out)) EVP_DecodeInit)"

lemma decode_chars_keeps_error: "decode_chars xs out ctx = (Ok (o1, True), c) \<Longrightarrow> ec_error_encountered c = ec_error_encountered ctx"
proof (induction xs arbitrary: out ctx)
  case Nil
  then show ?case by (simp add: decode_chars.simps act_run)
next
  case (Cons x xs)
  from Cons.prems show ?case by (auto simp: decode_chars.simps Let_def split: if_splits option.splits dest: Cons.IH)
qed

lemma decode_updates_text:
  assumes "decode_chars (concat inps) [] ctx = (Ok (out, True), c)" "\<not> ec_error_encountered ctx" "length out \<le> INT_MAX"
  shows "decode_updates inps ctx = (Ok out, c)"
  using assms
proof (induction inps arbitrary: ctx out)
  case Nil
  then show ?case by (simp add: decode_chars.simps act_run)
next
  case (Cons inp inps)
  have app: "(case decode_chars inp [] ctx of (Ok (o1, True), c) \<Rightarrow> decode_chars (concat inps) o1 c | r \<Rightarrow> r) = (Ok (out, True), c)"
    using Cons.prems(1) decode_chars_append [of inp "concat inps" "[]" ctx] by simp
  then obtain o1 c1 where 1: "decode_chars inp [] ctx = (Ok (o1, True), c1)" "decode_chars (concat inps) o1 c1 = (Ok (out, True), c)"
    by (auto split: prod.splits outcome.splits bool.splits)
  have "decode_chars (concat inps) (o1 @ []) c1 = (Ok (out, True), c)" using 1(2) by simp
  then obtain o2 where 2: "decode_chars (concat inps) [] c1 = (Ok (o2, True), c)" "out = o1 @ o2"
    unfolding decode_chars_out [of "concat inps" o1 "[]" c1] by (auto split: prod.splits outcome.splits)
  have err: "\<not> ec_error_encountered c1" using decode_chars_keeps_error [OF 1(1)] Cons.prems(2) by simp
  have "decode_updates inps c1 = (Ok o2, c)" using Cons.IH [OF 2(1) err] Cons.prems(3) 2(2) by simp
  moreover have "EVP_DecodeUpdate inp ctx = (Ok (o1, length o1, if ec_eof_seen c1 then 0 else 1), c1)"
    using 1(1) Cons.prems(2,3) 2(2) by (simp add: EVP_DecodeUpdate_def seq_def act_run)
  ultimately show ?case using 2(2) by (simp add: seq_def act_run)
qed

lemma decode_stream_text:
  assumes "filter (\<lambda>c. \<not> whitespace c) (concat inps) = base64 xs" "length xs \<le> INT_MAX"
  shows "decode_stream inps = Ok xs"
proof -
  have init: "at_quad False EVP_DecodeInit" by (simp add: at_quad_def EVP_DecodeInit_def)
  obtain c where c: "decode_chars (concat inps) [] EVP_DecodeInit = (Ok (xs, True), c)" "at_quad (length xs mod 3 \<noteq> 0) c"
    using decode_chars_text [OF init assms(1), of "[]"] by auto
  have "decode_updates inps EVP_DecodeInit = (Ok xs, c)"
    using decode_updates_text [OF c(1) _ assms(2)] init by (simp add: at_quad_def)
  then show ?thesis using c(2) by (simp add: decode_stream_def seq_def EVP_DecodeFinal_def at_quad_def act_run)
qed

section \<open>Encoding a stream\<close>

text \<open>The lines that are full, and what is left for the next one.\<close>

fun full_lines :: "byte list \<Rightarrow> byte list" where
  "full_lines xs = (if length xs < ctx_size then [] else base64 (take ctx_size xs) @ [10] @ full_lines (drop ctx_size xs))"

fun leftover :: "byte list \<Rightarrow> byte list" where
  "leftover xs = (if length xs < ctx_size then xs else leftover (drop ctx_size xs))"

declare full_lines.simps [simp del] leftover.simps [simp del]

lemma full_lines_short: "length xs < ctx_size \<Longrightarrow> full_lines xs = [] \<and> leftover xs = xs"
  by (simp add: full_lines.simps [of xs] leftover.simps [of xs])

lemma full_lines_long:
  "length xs = ctx_size \<Longrightarrow> full_lines (xs @ ys) = base64 xs @ [10] @ full_lines ys \<and> leftover (xs @ ys) = leftover ys"
  by (simp add: full_lines.simps [of "xs @ ys"] leftover.simps [of "xs @ ys"])

lemma split_48:
  obtains "length xs < ctx_size" | l ys where "xs = l @ ys" "length l = ctx_size"
proof (cases "length xs < ctx_size")
  case False
  then show thesis by (intro that(2) [of "take ctx_size xs" "drop ctx_size xs"]) simp_all
qed (rule that(1))

lemma leftover_length: "length (leftover xs) < ctx_size"
proof (induction xs rule: leftover.induct)
  case (1 xs)
  then show ?case by (cases "length xs < ctx_size") (simp_all add: leftover.simps [of xs])
qed

lemma leftover_length_le: "length (leftover xs) \<le> length xs"
proof (induction xs rule: leftover.induct)
  case (1 xs)
  then show ?case by (cases "length xs < ctx_size") (simp_all add: leftover.simps [of xs])
qed

lemma full_lines_append: "full_lines (xs @ ys) = full_lines xs @ full_lines (leftover xs @ ys) \<and> leftover (xs @ ys) = leftover (leftover xs @ ys)"
proof (induction "length xs" arbitrary: xs rule: less_induct)
  case less
  show ?case
  proof (cases rule: split_48 [of xs])
    case 1
    then show ?thesis by (simp add: full_lines_short)
  next
    case (2 l zs)
    then show ?thesis using less [of zs] full_lines_long [of l "zs @ ys"] full_lines_long [of l zs] by simp
  qed
qed

lemma full_lines_filter: "filter (\<lambda>c. \<not> whitespace c) (full_lines xs) @ base64 (leftover xs) = base64 xs"
proof -
  have clean: "filter (\<lambda>c. \<not> whitespace c) (base64 l) = base64 l" for l using base64_no_whitespace [of l] by (simp add: filter_id_conv)
  have join: "base64 (l @ ys) = base64 l @ base64 ys" if "length l mod 3 = 0" for l ys
    using that by (induction l rule: base64.induct) auto
  show ?thesis
  proof (induction "length xs" arbitrary: xs rule: less_induct)
    case less
    show ?case
    proof (cases rule: split_48 [of xs])
      case 1
      then show ?thesis by (simp add: full_lines_short)
    next
      case (2 l zs)
      then show ?thesis using less [of zs] full_lines_long [of l zs] join [of l zs] by (simp add: clean) (simp add: whitespace_def)
    qed
  qed
qed

lemma full_lines_length: "length (full_lines xs) \<le> 2 * length xs"
proof (induction "length xs" arbitrary: xs rule: less_induct)
  case less
  show ?case
  proof (cases rule: split_48 [of xs])
    case 1
    then show ?thesis by (simp add: full_lines_short)
  next
    case (2 l zs)
    then show ?thesis using less [of zs] full_lines_long [of l zs] by (simp add: length_base64)
  qed
qed

lemma encode_block_48: "length l = ctx_size \<Longrightarrow> EVP_EncodeBlock l = (base64 l @ [0], 64) \<and> length (base64 l) = 64"
  by (simp add: EVP_EncodeBlock_def encode_loop_base64 length_base64)

lemma encode_lines_full:
  "tot + 2 * length inp < 2 ^ 64 \<Longrightarrow>
   encode_lines out tot inp = (out @ full_lines inp, Some (tot + length (full_lines inp)), leftover inp)"
proof (induction "length inp" arbitrary: inp out tot rule: less_induct)
  case less
  show ?case
  proof (cases rule: split_48 [of inp])
    case 1
    then show ?thesis by (simp add: full_lines_short encode_lines.simps [of out tot inp])
  next
    case (2 l zs)
    have small: "(tot + 64 + 1) mod 2 ^ 64 = tot + 65" using less.prems 2 by simp
    have "encode_lines out tot inp = encode_lines (out @ base64 l @ [10]) (tot + 65) zs"
      unfolding encode_lines.simps [of out tot inp] using 2 encode_block_48 [OF 2(2)] small by (simp add: Let_def)
    then show ?thesis using less.hyps [of zs "tot + 65" "out @ base64 l @ [10]"] less.prems 2 full_lines_long [OF 2(2), of zs]
        encode_block_48 [OF 2(2)] by simp
  qed
qed

text \<open>The bytes that wait in the context.\<close>

definition pending :: "byte list \<Rightarrow> EVP_ENCODE_CTX \<Rightarrow> bool" where
  "pending p ctx \<longleftrightarrow> ec_data_used ctx = length p \<and> length p < ctx_size \<and> length (ec_data ctx) = ctx_size \<and> take (length p) (ec_data ctx) = p"

lemma pending_stored:
  "pending p ctx \<Longrightarrow> length (p @ xs) \<le> ctx_size \<Longrightarrow> length (store_at (length p) xs (ec_data ctx)) = ctx_size \<and>
   take (length (p @ xs)) (store_at (length p) xs (ec_data ctx)) = p @ xs"
  by (auto simp: pending_def store_at_def)

lemma encode_update_long:
  assumes "pending p ctx" "inp \<noteq> []" "ctx_size \<le> length (p @ inp)" "2 * length (p @ inp) \<le> INT_MAX"
  shows "\<exists>ctx'. EVP_EncodeUpdate inp ctx = (Ok (full_lines (p @ inp) @ [0], length (full_lines (p @ inp))), ctx') \<and> pending (leftover (p @ inp)) ctx'"
proof -
  define todo where "todo = ctx_size - length p"
  have used: "ec_data_used ctx = length p" "length p < ctx_size" "length (ec_data ctx) = ctx_size" using assms(1) by (auto simp: pending_def)
  define ctx1 where "ctx1 = (if p \<noteq> [] then ctx\<lparr>ec_data := store_at (length p) (take todo inp) (ec_data ctx), ec_data_used := 0\<rparr> else ctx)"
  define first where "first = (if p \<noteq> [] then base64 (p @ take todo inp) @ [10] else [])"
  define rest where "rest = (if p \<noteq> [] then drop todo inp else inp)"
  have len: "length (p @ take todo inp) = ctx_size" using assms(3) used(2) by (simp add: todo_def)
  have whole: "full_lines (p @ inp) = first @ full_lines rest" "leftover (p @ inp) = leftover rest"
    using full_lines_long [OF len, of "drop todo inp"] by (auto simp: first_def rest_def)
  have data: "take ctx_size (store_at (length p) (take todo inp) (ec_data ctx)) = p @ take todo inp" "length (ec_data ctx1) = ctx_size"
    using pending_stored [OF assms(1), of "take todo inp"] len used(3) by (auto simp: ctx1_def)
  have start: "(if ec_data_used ctx \<noteq> 0 then
       let todo = ctx_size - ec_data_used ctx; data = store_at (ec_data_used ctx) (take todo inp) (ec_data ctx);
           (block, encoded) = EVP_EncodeBlock (take ctx_size data)
       in (take encoded block @ [10], encoded + 1, drop todo inp, ctx\<lparr>ec_data := data, ec_data_used := 0\<rparr>)
     else ([], 0, inp, ctx)) = (first, length first, rest, ctx1)"
    using data(1) encode_block_48 [OF len] used(1)
    by (simp add: first_def rest_def ctx1_def todo_def [symmetric] Let_def split: prod.splits)
  have lines: "encode_lines first (length first) rest = (first @ full_lines rest, Some (length first + length (full_lines rest)), leftover rest)"
    using assms(4) encode_block_48 [OF len] by (intro encode_lines_full) (auto simp: first_def rest_def)
  have enough: "\<not> length inp < ctx_size - length p" using assms(3) by simp
  have bound: "length first + length (full_lines rest) \<le> INT_MAX" using full_lines_length [of "p @ inp"] assms(4) whole(1) by simp
  have "EVP_EncodeUpdate inp ctx = (Ok (full_lines (p @ inp) @ [0], length (full_lines (p @ inp))),
      (if leftover rest \<noteq> [] then ctx1\<lparr>ec_data := store_at 0 (leftover rest) (ec_data ctx1)\<rparr> else ctx1)\<lparr>ec_data_used := length (leftover rest)\<rparr>)"
    unfolding EVP_EncodeUpdate_def Let_def [of "ec_data_used ctx"] start prod.case lines option.case
    using assms(2) used bound whole(1) enough by (simp add: lines Let_def)
  moreover have "pending (leftover rest) ((if leftover rest \<noteq> [] then ctx1\<lparr>ec_data := store_at 0 (leftover rest) (ec_data ctx1)\<rparr> else ctx1)
      \<lparr>ec_data_used := length (leftover rest)\<rparr>)"
    using data(2) leftover_length [of rest] by (auto simp: pending_def store_at_def)
  ultimately show ?thesis unfolding whole(2) by blast
qed

lemma encode_update:
  assumes "pending p ctx" "2 * length (p @ inp) \<le> INT_MAX"
  shows "\<exists>out ctx'. EVP_EncodeUpdate inp ctx = (Ok (out, length (full_lines (p @ inp))), ctx') \<and>
    take (length (full_lines (p @ inp))) out = full_lines (p @ inp) \<and> pending (leftover (p @ inp)) ctx'"
proof -
  have used: "ec_data_used ctx = length p" "length p < ctx_size" using assms(1) by (auto simp: pending_def)
  consider "inp = []" | "inp \<noteq> []" "length (p @ inp) < ctx_size" | "inp \<noteq> []" "ctx_size \<le> length (p @ inp)" by linarith
  then show ?thesis
  proof cases
    case 1
    then show ?thesis using assms used full_lines_short [of p]
      by (intro exI [of _ "[]"] exI [of _ ctx]) (simp add: EVP_EncodeUpdate_def Let_def)
  next
    case 2
    let ?ctx = "ctx\<lparr>ec_data := store_at (length p) inp (ec_data ctx), ec_data_used := length p + length inp\<rparr>"
    have "pending (p @ inp) ?ctx" using pending_stored [OF assms(1), of inp] 2 by (simp add: pending_def)
    moreover have "length inp < ctx_size - length p" using 2(2) by simp
    ultimately show ?thesis using 2 used full_lines_short [of "p @ inp"]
      by (intro exI [of _ "[]"] exI [of _ ?ctx]) (simp add: EVP_EncodeUpdate_def Let_def)
  next
    case 3
    then show ?thesis using encode_update_long [OF assms(1) 3(1,2) assms(2)] by fastforce
  qed
qed

primrec encode_updates :: "byte list list \<Rightarrow> (byte list, EVP_ENCODE_CTX) act" where
  "encode_updates [] = ret []"
| "encode_updates (inp # inps) = seq (EVP_EncodeUpdate inp) (\<lambda>(out, out_len).
     seq (encode_updates inps) (\<lambda>rest. ret (take out_len out @ rest)))"

definition encode_stream :: "byte list list \<Rightarrow> byte list outcome" where
  "encode_stream inps = fst (seq (encode_updates inps) (\<lambda>text.
     seq EVP_EncodeFinal (\<lambda>(out, out_len). ret (text @ take out_len out))) EVP_EncodeInit)"

text \<open>The code in lines of 64 characters.\<close>

definition base64_lines :: "byte list \<Rightarrow> byte list" where
  "base64_lines xs = full_lines xs @ (if leftover xs = [] then [] else base64 (leftover xs) @ [10])"

lemma base64_lines_filter: "filter (\<lambda>c. \<not> whitespace c) (base64_lines xs) = base64 xs"
proof -
  have "filter (\<lambda>c. \<not> whitespace c) (base64 l) = base64 l" for l using base64_no_whitespace [of l] by (simp add: filter_id_conv)
  moreover have "\<not> \<not> whitespace 10" by (simp add: whitespace_def)
  ultimately show ?thesis using full_lines_filter [of xs] by (auto simp: base64_lines_def)
qed

lemma encode_updates_lines:
  assumes "pending p ctx" "2 * length (p @ concat inps) \<le> INT_MAX"
  shows "\<exists>ctx'. encode_updates inps ctx = (Ok (full_lines (p @ concat inps)), ctx') \<and> pending (leftover (p @ concat inps)) ctx'"
  using assms
proof (induction inps arbitrary: p ctx)
  case Nil
  then show ?case using full_lines_short [of p] by (auto simp: act_run pending_def)
next
  case (Cons inp inps)
  obtain out c where 1: "EVP_EncodeUpdate inp ctx = (Ok (out, length (full_lines (p @ inp))), c)"
      "take (length (full_lines (p @ inp))) out = full_lines (p @ inp)" "pending (leftover (p @ inp)) c"
    using encode_update [OF Cons.prems(1), of inp] Cons.prems(2) by auto
  have "2 * length (leftover (p @ inp) @ concat inps) \<le> INT_MAX" using Cons.prems(2) leftover_length_le [of "p @ inp"] by simp
  then obtain c' where 2: "encode_updates inps c = (Ok (full_lines (leftover (p @ inp) @ concat inps)), c')"
      "pending (leftover (leftover (p @ inp) @ concat inps)) c'"
    using Cons.IH [OF 1(3)] by blast
  show ?case using 1 2 full_lines_append [of "p @ inp" "concat inps"] by (auto simp: seq_def act_run)
qed

lemma encode_stream_lines:
  assumes "2 * length (concat inps) \<le> INT_MAX"
  shows "encode_stream inps = Ok (base64_lines (concat inps))"
proof -
  let ?p = "leftover (concat inps)"
  have init: "pending [] EVP_EncodeInit" by (simp add: pending_def EVP_EncodeInit_def)
  then obtain c where c: "encode_updates inps EVP_EncodeInit = (Ok (full_lines (concat inps)), c)" "pending ?p c"
    using encode_updates_lines [OF init, of inps] assms by auto
  have len: "length (base64 ?p) \<le> 64" using leftover_length [of "concat inps"] by (simp add: length_base64)
  have "\<exists>out n. fst (EVP_EncodeFinal c) = Ok (out, n) \<and> take n out = (if ?p = [] then [] else base64 ?p @ [10])"
    using c(2) len by (simp add: EVP_EncodeFinal_def pending_def EVP_EncodeBlock_def encode_loop_base64)
  then obtain out n c' where "EVP_EncodeFinal c = (Ok (out, n), c')" "take n out = (if ?p = [] then [] else base64 ?p @ [10])"
    by (metis prod.collapse)
  then show ?thesis using c(1) by (simp add: encode_stream_def base64_lines_def seq_def act_run)
qed

text \<open>The same text seen from outside: the code, a newline after every 64 characters and after the rest.\<close>

fun broken :: "byte list \<Rightarrow> byte list" where
  "broken cs = (if cs = [] then [] else take 64 cs @ [10] @ broken (drop 64 cs))"

declare broken.simps [simp del]

lemma broken_last: "length cs \<le> 64 \<Longrightarrow> broken cs = (if cs = [] then [] else cs @ [10])"
  by (simp add: broken.simps [of cs] broken.simps [of "[]"])

lemma broken_line: "length l = 64 \<Longrightarrow> broken (l @ cs) = l @ [10] @ broken cs"
  by (simp add: broken.simps [of "l @ cs"]) auto

lemma base64_lines_broken: "base64_lines xs = broken (base64 xs)"
proof (induction "length xs" arbitrary: xs rule: less_induct)
  case less
  have join: "base64 (l @ ys) = base64 l @ base64 ys" if "length l mod 3 = 0" for l ys
    using that by (induction l rule: base64.induct) auto
  show ?case
  proof (cases rule: split_48 [of xs])
    case 1
    then have "length (base64 xs) \<le> 64" by (simp add: length_base64)
    moreover have "base64 xs = [] \<longleftrightarrow> xs = []" by (cases xs rule: base64.cases) (simp_all add: digits_def Let_def)
    ultimately show ?thesis using 1 by (simp add: base64_lines_def full_lines_short broken_last)
  next
    case (2 l zs)
    have "length (base64 l) = 64" using 2(2) by (simp add: length_base64)
    then show ?thesis using 2 less [of zs] full_lines_long [of l zs] join [of l zs] broken_line [of "base64 l" "base64 zs"]
      by (cases "leftover zs = []") (simp_all add: base64_lines_def)
  qed
qed

section \<open>Blocks\<close>

lemma decode_quads_base64: "decode_quads (base64 xs) out = (out @ xs, Some (length (out @ xs)))"
proof (induction xs arbitrary: out rule: base64.induct)
  case (2 x)
  obtain a b c d where d: "digits x 0 0 = [a, b, c, d]" by (rule digits_obtain)
  show ?case using decode_digits(3) [OF d] by (simp add: d)
next
  case (3 x y)
  obtain a b c d where d: "digits x y 0 = [a, b, c, d]" by (rule digits_obtain)
  show ?case using decode_digits(2) [OF d] by (simp add: d)
next
  case (4 x y z xs)
  obtain a b c d where d: "digits x y z = [a, b, c, d]" by (rule digits_obtain)
  show ?case using decode_digits(1) [OF d] 4 by (simp add: d)
qed simp

lemma decode_block_base64:
  assumes "length (base64 xs) div 4 * 3 \<le> max_out"
  shows "EVP_DecodeBase64 max_out (base64 xs) = (xs, Some (length xs))"
  using assms decode_quads_base64 [of xs "[]"] by (simp add: EVP_DecodeBase64_def EVP_DecodedLength_def length_base64)

text \<open>The length asked for is exactly the length written, and there is none when it does not fit a \<open>size_t\<close>.\<close>

lemma unat_push_2: "unat (push_bit 2 w :: 64 word) = unat w * 4 mod 2 ^ 64"
  by (simp add: push_bit_eq_mult unat_word_ariths)

lemma unat_drop_2: "unat (drop_bit 2 w :: 64 word) = unat w div 4"
  by (simp add: drop_bit_eq_div unat_div)

lemma encoded_length_exact:
  "EVP_EncodedLength len = (let n = 4 * ((unat len + 2) div 3) + 1 in if n < 2 ^ 64 then Some (word_of_nat n) else None)"
proof -
  let ?m = "(unat len + 2) div 3"
  have len: "unat len < 2 ^ 64" using unsigned_less [of len, where 'a = nat] by simp
  have sum: "unat (len + 2) = (if unat len + 2 < 2 ^ 64 then unat len + 2 else unat len + 2 - 2 ^ 64)"
    using len by (simp add: unat_word_ariths mod_if)
  show ?thesis
  proof (cases "unat len + 2 < 2 ^ 64")
    case False
    then have "len + 2 < len" unfolding word_less_nat_alt sum using len by simp
    moreover have "\<not> 4 * ?m + 1 < 2 ^ 64" using False by simp
    ultimately show ?thesis by (simp add: EVP_EncodedLength_def Let_def)
  next
    case True
    then have no: "\<not> len + 2 < len" unfolding word_less_nat_alt sum by simp
    have m: "unat ((len + 2) div 3) = ?m" using True sum by (simp add: unat_div)
    have shift: "drop_bit 2 (push_bit 2 ((len + 2) div 3)) = (len + 2) div 3 \<longleftrightarrow> ?m < 2 ^ 62"
    proof -
      have "unat (drop_bit 2 (push_bit 2 ((len + 2) div 3))) = ?m * 4 mod 2 ^ 64 div 4"
        unfolding unat_drop_2 unat_push_2 m ..
      moreover have "?m * 4 mod 2 ^ 64 div 4 = ?m \<longleftrightarrow> ?m < 2 ^ 62"
      proof
        have "?m * 4 mod 2 ^ 64 div 4 < 2 ^ 62" by (rule less_mult_imp_div_less) simp
        then show "?m * 4 mod 2 ^ 64 div 4 = ?m \<Longrightarrow> ?m < 2 ^ 62" by linarith
      qed simp
      ultimately show ?thesis using m by (metis word_unat_eq_iff)
    qed
    have "word_of_nat (4 * ?m + 1) = push_bit 2 ((len + 2) div 3) + 1"
      using m by (simp add: push_bit_eq_mult) (metis mult.commute of_nat_unat ucast_id)
    moreover have "\<not> push_bit 2 ((len + 2) div 3) + 1 < push_bit 2 ((len + 2) div 3)" if "?m < 2 ^ 62"
    proof -
      have "unat (push_bit 2 ((len + 2) div 3)) = 4 * ?m" unfolding unat_push_2 m using that by simp
      then show ?thesis using that unfolding word_less_nat_alt by (simp add: unat_word_ariths)
    qed
    ultimately show ?thesis using no shift by (auto simp: EVP_EncodedLength_def Let_def)
  qed
qed

text \<open>The older block decoder trims its input and pads its output with zeros.\<close>

lemma pad_three_run: "\<exists>k. pad_three dst = dst @ replicate k 0 \<and> length (pad_three dst) = 3 * ((length dst + 2) div 3)"
proof (induction dst rule: pad_three.induct)
  case (1 dst)
  show ?case
  proof (cases "length dst mod 3 = 0")
    case True
    then have "3 * ((length dst + 2) div 3) = length dst" by presburger
    then show ?thesis using True by (intro exI [of _ 0]) (simp add: pad_three.simps [of dst])
  next
    case False
    then obtain k where "pad_three (dst @ [0]) = (dst @ [0]) @ replicate k 0"
        "length (pad_three (dst @ [0])) = 3 * ((length (dst @ [0]) + 2) div 3)"
      using 1 by blast
    moreover have "(length (dst @ [0]) + 2) div 3 = (length dst + 2) div 3" using False by simp presburger
    ultimately show ?thesis using False by (intro exI [of _ "Suc k"]) (simp add: pad_three.simps [of dst])
  qed
qed

lemma trim_text:
  assumes "\<forall>c \<in> set pre. P c" "\<forall>c \<in> set post. Q c" "\<forall>c \<in> set mid. \<not> Q c" "\<And>c. P c \<Longrightarrow> Q c"
  shows "rev (dropWhile Q (rev (dropWhile P (pre @ mid @ post)))) = mid"
proof -
  have "dropWhile P (pre @ mid @ post) = dropWhile P (mid @ post)" using assms(1) by (simp add: dropWhile_append2)
  moreover have "\<exists>rest. dropWhile P (mid @ post) = mid @ rest \<and> (\<forall>c \<in> set rest. Q c)"
  proof (cases mid)
    case Nil
    then show ?thesis using assms(2) by (auto dest: set_dropWhileD)
  next
    case (Cons c cs)
    then show ?thesis using assms by (intro exI [of _ post]) auto
  qed
  ultimately obtain rest where "dropWhile P (pre @ mid @ post) = mid @ rest" "\<forall>c \<in> set rest. Q c" by metis
  moreover have "dropWhile Q (rev mid) = rev mid" using assms(3) by (cases "rev mid") (auto simp: dropWhile_eq_Nil_conv dest: arg_cong [of _ _ set])
  moreover have "dropWhile Q (rev rest @ rev mid) = dropWhile Q (rev mid)" by (rule dropWhile_append2) (use calculation(2) in simp)
  ultimately show ?thesis by simp
qed

lemma decode_block_trims:
  assumes "\<forall>c \<in> set pre. c = 32 \<or> c = 9" "\<forall>c \<in> set post. whitespace c" "length (base64 xs) div 4 * 3 \<le> INT_MAX"
  shows "EVP_DecodeBlock (pre @ base64 xs @ post) = (pad_three xs, int (3 * ((length xs + 2) div 3)))"
proof -
  have trim: "rev (dropWhile (\<lambda>c. c = 32 \<or> c = 9 \<or> c = 13 \<or> c = 10) (rev (dropWhile (\<lambda>c. c = 32 \<or> c = 9) (pre @ base64 xs @ post)))) = base64 xs"
    using assms(1,2) base64_no_whitespace [of xs] by (intro trim_text) (auto simp: whitespace_def)
  have "EVP_DecodedLength (length (base64 xs)) = Some (length (base64 xs) div 4 * 3)" by (simp add: EVP_DecodedLength_def length_base64)
  moreover have "(chr CHR '' '' :: byte) = 32" by simp
  ultimately have "EVP_DecodeBlock (pre @ base64 xs @ post) = (pad_three xs, int (length (pad_three xs)))"
    unfolding EVP_DecodeBlock_def Let_def by (simp only: trim) (use assms(3) decode_block_base64 [OF order_refl] in simp)
  then show ?thesis using pad_three_run [of xs] by auto
qed

text \<open>A minus at the end is an error, although base64.h says that it is stripped.\<close>

lemma decode_block_minus: "EVP_DecodeBlock (base64 [1, 2, 3] @ [chr CHR ''-'']) = ([], - 1)"
  by (simp add: EVP_DecodeBlock_def EVP_DecodedLength_def Let_def digits_conv conv_bin2ascii_cases bits_24_def)

text \<open>The bits that padding leaves over are not looked at: two texts stand for the same byte.\<close>

lemma decode_lenient:
  "EVP_DecodeBase64 3 (map of_char ''QQ=='') = ([65], Some 1)" "EVP_DecodeBase64 3 (map of_char ''QR=='') = ([65], Some 1)"
  by (simp_all add: EVP_DecodeBase64_def EVP_DecodedLength_def base64_decode_quad_def base64_ascii_to_bin_cases Let_def)

section \<open>Round trips\<close>

text \<open>
  C36. Base64, for strings of fewer than 2 to the 30 bytes, so that no text is too long for the int in which a
  call counts it.  Whatever pieces a byte string is given to the encoder in, the stream is the string's code by
  the alphabet, cut into lines of 64 characters, a last one of what remains, each with a newline behind it, and
  nothing for no bytes; and whatever pieces that code, with any white space put in or left out, is given to the
  decoder in, the string comes back without an error.  A block is encoded to the same code, with a zero behind
  it, and decoded back within the room that \<open>EVP_DecodedLength\<close> asks for.
\<close>

theorem base64_round_trip:
  assumes "2 * length (concat ins) \<le> INT_MAX"
  shows "encode_stream ins = Ok (broken (base64 (concat ins))) \<and>
    filter (\<lambda>c. \<not> whitespace c) (broken (base64 (concat ins))) = base64 (concat ins) \<and>
    (\<forall>outs. filter (\<lambda>c. \<not> whitespace c) (concat outs) = base64 (concat ins) \<longrightarrow> decode_stream outs = Ok (concat ins)) \<and>
    EVP_EncodeBlock (concat ins) = (base64 (concat ins) @ [0], length (base64 (concat ins))) \<and>
    (\<exists>room. EVP_DecodedLength (length (base64 (concat ins))) = Some room \<and>
      EVP_DecodeBase64 room (base64 (concat ins)) = (concat ins, Some (length (concat ins))))"
proof (intro exI conjI)
  show "encode_stream ins = Ok (broken (base64 (concat ins)))"
    using encode_stream_lines [OF assms] by (simp add: base64_lines_broken)
  show "filter (\<lambda>c. \<not> whitespace c) (broken (base64 (concat ins))) = base64 (concat ins)"
    using base64_lines_filter [of "concat ins"] by (simp add: base64_lines_broken)
  show "\<forall>outs. filter (\<lambda>c. \<not> whitespace c) (concat outs) = base64 (concat ins) \<longrightarrow> decode_stream outs = Ok (concat ins)"
    using decode_stream_text assms by auto
  show "EVP_EncodeBlock (concat ins) = (base64 (concat ins) @ [0], length (base64 (concat ins)))"
    using assms by (simp add: EVP_EncodeBlock_def encode_loop_base64 length_base64)
  show "EVP_DecodedLength (length (base64 (concat ins))) = Some (length (base64 (concat ins)) div 4 * 3)"
    by (simp add: EVP_DecodedLength_def length_base64)
  show "EVP_DecodeBase64 (length (base64 (concat ins)) div 4 * 3) (base64 (concat ins)) = (concat ins, Some (length (concat ins)))"
    by (rule decode_block_base64) simp
qed

lemma base64_round_trip_witness:
  "encode_stream [[72, 105], [33, 10]] = Ok (map of_char ''SGkhCg=='' @ [10]) \<and>
    decode_stream [map of_char ''SGkh'', [10, 32], map of_char ''Cg==''] = Ok [72, 105, 33, 10] \<and>
    (\<exists>room. EVP_DecodedLength 8 = Some room \<and>
      EVP_DecodeBase64 room (map of_char ''SGkhCg=='') = ([72, 105, 33, 10], Some 4))"
proof -
  have code: "base64 [72, 105, 33, 10] = map of_char ''SGkhCg==''"
    by (simp add: digits_conv conv_bin2ascii_cases bits_24_def Let_def)
  have len: "length (map of_char ''SGkhCg=='' :: byte list) = 8" "length [72, 105, 33, 10 :: byte] = 4" by simp_all
  have "broken (base64 [72, 105, 33, 10]) = map of_char ''SGkhCg=='' @ [10]"
    unfolding code by (simp add: broken_last)
  then show ?thesis using base64_round_trip [of "[[72, 105], [33, 10]]"] unfolding code concat.simps append.simps len
    by (auto simp: whitespace_def)
qed

end
