(* ===== verification/Unicode.thy ===== *)
theory Unicode
  imports Cbb
begin

text \<open>
  Reading and writing one character in the encodings of ASN.1 strings (crypto/bytestring/unicode.c): UTF-8,
  Latin-1, UCS-2 and UTF-32.
\<close>

definition is_valid_code_point :: "u32 \<Rightarrow> bool" where
  "is_valid_code_point v \<longleftrightarrow>
     \<not> (v > 0x10ffff \<or> v AND 0xfffe = 0xfffe \<or> (v \<ge> 0xfdd0 \<and> v \<le> 0xfdef) \<or> (v \<ge> 0xd800 \<and> v \<le> 0xdfff))"

definition BOTTOM_BITS :: "nat \<Rightarrow> byte" where
  "BOTTOM_BITS n = ucast (push_bit n (1 :: u32) - 1)"

definition TOP_BITS :: "nat \<Rightarrow> byte" where
  "TOP_BITS n = NOT (BOTTOM_BITS (8 - n))"

text \<open>The loop over the bytes that follow the first.\<close>

primrec utf8_tail :: "nat \<Rightarrow> u32 \<Rightarrow> (u32, CBS) act" where
  "utf8_tail 0 v = ret v"
| "utf8_tail (Suc len) v = seq CBS_get_u8 (\<lambda>c.
     if c AND TOP_BITS 2 \<noteq> TOP_BITS 1 then fail
     else utf8_tail len (push_bit 6 v OR ucast (c AND BOTTOM_BITS 6)))"

definition cbs_get_utf8 :: "(u32, CBS) act" where
  "cbs_get_utf8 = seq CBS_get_u8 (\<lambda>c.
     if c \<le> 0x7f then ret (ucast c)
     else
       case (if c AND TOP_BITS 3 = TOP_BITS 2 then Some (c AND BOTTOM_BITS 5, 1, 0x80)
             else if c AND TOP_BITS 4 = TOP_BITS 3 then Some (c AND BOTTOM_BITS 4, 2, 0x800)
             else if c AND TOP_BITS 5 = TOP_BITS 4 then Some (c AND BOTTOM_BITS 3, 3, 0x10000)
             else None) of
         None \<Rightarrow> fail
       | Some (v, len, lower_bound) \<Rightarrow> seq (utf8_tail len (ucast v)) (\<lambda>v.
           if \<not> is_valid_code_point v \<or> v < lower_bound then fail else ret v))"

definition cbs_get_latin1 :: "(u32, CBS) act" where
  "cbs_get_latin1 = seq CBS_get_u8 (\<lambda>c. ret (ucast c))"

definition cbs_get_ucs2_be :: "(u32, CBS) act" where
  "cbs_get_ucs2_be = seq CBS_get_u16 (\<lambda>c. if \<not> is_valid_code_point (ucast c) then fail else ret (ucast c))"

definition cbs_get_utf32_be :: "(u32, CBS) act" where
  "cbs_get_utf32_be = seq CBS_get_u32 (\<lambda>out. if is_valid_code_point out then ret out else fail)"

definition cbb_get_utf8_len :: "u32 \<Rightarrow> nat" where
  "cbb_get_utf8_len u = (if u \<le> 0x7f then 1 else if u \<le> 0x7ff then 2 else if u \<le> 0xffff then 3 else 4)"

definition cbb_add_utf8 :: "nat \<Rightarrow> u32 \<Rightarrow> (unit, CBB) act" where
  "cbb_add_utf8 d u =
     (let tail = (\<lambda>k. TOP_BITS 1 OR (ucast (drop_bit k u) AND BOTTOM_BITS 6))
      in if \<not> is_valid_code_point u then fail
         else if u \<le> 0x7f then CBB_add_u8 d (ucast u)
         else if u \<le> 0x7ff then
           seq (CBB_add_u8 d (TOP_BITS 2 OR ucast (drop_bit 6 u))) (\<lambda>_. CBB_add_u8 d (tail 0))
         else if u \<le> 0xffff then
           seq (CBB_add_u8 d (TOP_BITS 3 OR ucast (drop_bit 12 u))) (\<lambda>_.
           seq (CBB_add_u8 d (tail 6)) (\<lambda>_. CBB_add_u8 d (tail 0)))
         else if u \<le> 0x10ffff then
           seq (CBB_add_u8 d (TOP_BITS 4 OR ucast (drop_bit 18 u))) (\<lambda>_.
           seq (CBB_add_u8 d (tail 12)) (\<lambda>_.
           seq (CBB_add_u8 d (tail 6)) (\<lambda>_. CBB_add_u8 d (tail 0))))
         else fail)"

definition cbb_add_latin1 :: "nat \<Rightarrow> u32 \<Rightarrow> (unit, CBB) act" where
  "cbb_add_latin1 d u = (if u \<le> 0xff then CBB_add_u8 d (ucast u) else fail)"

definition cbb_add_ucs2_be :: "nat \<Rightarrow> u32 \<Rightarrow> (unit, CBB) act" where
  "cbb_add_ucs2_be d u = (if u \<le> 0xffff \<and> is_valid_code_point u then CBB_add_u16 d (ucast u) else fail)"

definition cbb_add_utf32_be :: "nat \<Rightarrow> u32 \<Rightarrow> (unit, CBB) act" where
  "cbb_add_utf32_be d u = (if is_valid_code_point u then CBB_add_u32 d u else fail)"

end
