(* ===== verification/Unicode_Props.thy ===== *)
theory Unicode_Props
  imports Unicode Cbs_Values Cbb_Ops
begin

text \<open>
  The properties of the character encodings: the readers accept exactly the codes of valid characters, and the
  writers append them.
\<close>

section \<open>Bits of a byte\<close>

lemma bottom_bits: "BOTTOM_BITS 6 = 0x3f" "BOTTOM_BITS 5 = 0x1f" "BOTTOM_BITS 4 = 0xf" "BOTTOM_BITS 3 = 7"
  by (simp_all add: BOTTOM_BITS_def push_bit_eq_mult)

lemma top_bits: "TOP_BITS (Suc 0) = 0x80" "TOP_BITS 2 = 0xC0" "TOP_BITS 3 = 0xE0" "TOP_BITS 4 = 0xF0" "TOP_BITS 5 = 0xF8"
  by (simp_all add: TOP_BITS_def BOTTOM_BITS_def push_bit_eq_mult)

lemma unat_byte_unit: "unat (c :: byte) < 256"
  using unsigned_less [of c, where 'a = nat] by simp

lemma unat_and_mask: "unat (c AND mask k :: byte) = unat c mod 2 ^ k"
proof -
  have "unat (take_bit k c) = take_bit k (unat c)" by (rule unsigned_take_bit_eq)
  then show ?thesis by (simp only: take_bit_eq_mask) (simp only: take_bit_eq_mask [symmetric] take_bit_eq_mod)
qed

lemma unat_and_top:
  assumes "k \<le> 8"
  shows "unat (c AND NOT (mask k) :: byte) = unat c div 2 ^ k * 2 ^ k"
proof -
  have "(c AND NOT (mask k)) + (c AND mask k) = c"
  proof -
    have "(c AND NOT (mask k)) + (c AND mask k) = (c AND NOT (mask k)) OR (c AND mask k)"
      by (rule disjunctive_add) (simp add: bit_simps)
    then show ?thesis by (simp add: bit.conj_disj_distrib [symmetric])
  qed
  moreover have "c AND mask k \<le> c" by (simp add: word_le_nat_alt unat_and_mask)
  ultimately have "c AND NOT (mask k) = c - (c AND mask k)" by (metis add_diff_cancel_right')
  then have "unat (c AND NOT (mask k)) = unat c - unat c mod 2 ^ k"
    using \<open>c AND mask k \<le> c\<close> by (simp add: unat_sub unat_and_mask)
  then show ?thesis by (simp add: minus_mod_eq_div_mult)
qed

lemma head_bits:
  "c AND 0xC0 = (0x80 :: byte) \<longleftrightarrow> unat c div 64 = 2" "c AND 0xE0 = (0xC0 :: byte) \<longleftrightarrow> unat c div 32 = 6"
  "c AND 0xF0 = (0xE0 :: byte) \<longleftrightarrow> unat c div 16 = 14" "c AND 0xF8 = (0xF0 :: byte) \<longleftrightarrow> unat c div 8 = 30"
proof -
  have masks: "(0xC0 :: byte) = NOT (mask 6)" "(0xE0 :: byte) = NOT (mask 5)" "(0xF0 :: byte) = NOT (mask 4)" "(0xF8 :: byte) = NOT (mask 3)"
    by (simp_all add: mask_eq_decr_exp)
  have *: "c AND NOT (mask k) = b \<longleftrightarrow> unat c div 2 ^ k * 2 ^ k = unat b" if "k \<le> 8" for k and b :: byte
    unfolding word_unat_eq_iff unat_and_top [OF that] ..
  show "c AND 0xC0 = (0x80 :: byte) \<longleftrightarrow> unat c div 64 = 2" using * [of 6 "0x80"] masks(1) by (simp; linarith?)
  show "c AND 0xE0 = (0xC0 :: byte) \<longleftrightarrow> unat c div 32 = 6" using * [of 5 "0xC0"] masks(2) by (simp; linarith?)
  show "c AND 0xF0 = (0xE0 :: byte) \<longleftrightarrow> unat c div 16 = 14" using * [of 4 "0xE0"] masks(3) by (simp; linarith?)
  show "c AND 0xF8 = (0xF0 :: byte) \<longleftrightarrow> unat c div 8 = 30" using * [of 3 "0xF0"] masks(4) by (simp; linarith?)
qed

lemma low_bits:
  "unat (c AND 0x3f :: byte) = unat c mod 64" "unat (c AND 0x1f :: byte) = unat c mod 32"
  "unat (c AND 0xf :: byte) = unat c mod 16" "unat (c AND 7 :: byte) = unat c mod 8"
proof -
  have masks: "(0x3f :: byte) = mask 6" "(0x1f :: byte) = mask 5" "(0xf :: byte) = mask 4" "(7 :: byte) = mask 3"
    by (simp_all add: mask_eq_decr_exp)
  show "unat (c AND 0x3f :: byte) = unat c mod 64" "unat (c AND 0x1f :: byte) = unat c mod 32"
    "unat (c AND 0xf :: byte) = unat c mod 16" "unat (c AND 7 :: byte) = unat c mod 8"
    unfolding masks unat_and_mask by simp_all
qed

section \<open>The bytes that follow the first\<close>

fun conts :: "nat \<Rightarrow> nat \<Rightarrow> byte list" where
  "conts 0 m = []"
| "conts (Suc k) m = word_of_nat (0x80 + m div 64 ^ k) # conts k (m mod 64 ^ k)"

lemma length_conts [simp]: "length (conts k m) = k"
  by (induction k arbitrary: m) simp_all

lemma tail_value:
  assumes "unat (v :: u32) * 64 < 2 ^ 32"
  shows "unat (push_bit 6 v OR ucast (c AND 0x3f :: byte)) = unat v * 64 + unat c mod 64"
proof -
  have "push_bit 6 v OR ucast (c AND 0x3f) = push_bit 6 v + ucast (c AND 0x3f)"
  proof (rule disjunctive_add [symmetric])
    fix n
    have "(0x3f :: byte) = mask 6" by (simp add: mask_eq_decr_exp)
    then have "bit (0x3f :: byte) n \<Longrightarrow> n < 6" by (metis bit_mask_iff)
    then show "\<not> bit (push_bit 6 v) n \<or> \<not> bit (ucast (c AND 0x3f) :: u32) n" by (auto simp: bit_simps)
  qed
  moreover have "unat (ucast (c AND 0x3f) :: u32) = unat c mod 64" using unat_widen [of "c AND 0x3f", where 'b = 32] low_bits(1) [of c] by simp
  moreover have "unat (push_bit 6 v) = unat v * 64" using assms by (simp add: push_bit_eq_mult unat_word_ariths)
  moreover have "unat v * 64 + unat c mod 64 < 2 ^ 32" using assms by simp
  ultimately show ?thesis by (simp add: unat_word_ariths)
qed

lemma utf8_tail_cons:
  assumes "cbs_ok c" "bytes_of c = b # rest" "unat v * 64 < 2 ^ 32"
  shows "\<exists>w. utf8_tail (Suc k) v c = (if unat b div 64 = 2 then utf8_tail k w (after 1 c) else (Fail, after 1 c)) \<and>
    unat w = unat v * 64 + unat b mod 64"
  using CBS_get_u8_cons(1) [OF assms(1,2)] tail_value [OF assms(3), of b]
  by (intro exI [of _ "push_bit 6 v OR ucast (b AND 0x3f)"]) (simp add: seq_run act_run top_bits bottom_bits head_bits)

lemma utf8_tail_in_order: "cbs_ok c \<Longrightarrow> in_order c (\<lambda>_ _. True) (utf8_tail k v c)"
proof (induction k arbitrary: v c)
  case 0
  then show ?case by (simp add: in_order_basic)
next
  case (Suc k)
  show ?case unfolding utf8_tail.simps
    by (rule u8.seq_in_order [OF Suc.prems]) (auto intro: in_order_basic in_order_mono [OF Suc.IH])
qed

lemma word_byte: "n < 256 \<Longrightarrow> unat (word_of_nat n :: byte) = n"
  by (simp add: unat_of_nat)

lemma byte_of_unat: "unat b = n \<Longrightarrow> b = word_of_nat n"
  by auto

lemma cont_byte:
  assumes "d < 64"
  shows "unat (word_of_nat (0x80 + d) :: byte) div 64 = 2" "unat (word_of_nat (0x80 + d) :: byte) mod 64 = d"
proof -
  have u: "unat (word_of_nat (0x80 + d) :: byte) = d + 2 * 64" using word_byte [of "0x80 + d"] assms by (simp add: add.commute)
  show "unat (word_of_nat (0x80 + d) :: byte) div 64 = 2" "unat (word_of_nat (0x80 + d) :: byte) mod 64 = d"
    unfolding u div_mult_self1 mod_mult_self1 using assms by simp_all
qed

lemma word_u32: "n < 2 ^ 32 \<Longrightarrow> unat (word_of_nat n :: u32) = n"
  by (simp add: unat_of_nat)

text \<open>There is room for the bits of the bytes that follow.\<close>

definition room_for :: "nat \<Rightarrow> u32 \<Rightarrow> bool" where
  "room_for k v \<longleftrightarrow> Suc (unat v) * 64 ^ k \<le> 2 ^ 32"

lemma room_for_Suc:
  assumes "room_for (Suc k) v"
  shows "unat v * 64 < 2 ^ 32" "d < 64 \<Longrightarrow> unat w = unat v * 64 + d \<Longrightarrow> room_for k w"
proof -
  have "Suc (unat v) * 64 * 64 ^ k \<le> 2 ^ 32" using assms by (simp add: room_for_def algebra_simps)
  moreover have "d < 64 \<Longrightarrow> unat w = unat v * 64 + d \<Longrightarrow> Suc (unat w) * 64 ^ k \<le> Suc (unat v) * 64 * 64 ^ k"
    by (intro mult_le_mono1) simp
  ultimately show "d < 64 \<Longrightarrow> unat w = unat v * 64 + d \<Longrightarrow> room_for k w" by (auto simp: room_for_def)
  have "Suc (unat v) * 64 * 1 \<le> Suc (unat v) * 64 * 64 ^ k" by (intro mult_le_mono2) simp
  then have "Suc (unat v) * 64 \<le> 2 ^ 32" using \<open>Suc (unat v) * 64 * 64 ^ k \<le> 2 ^ 32\<close> by (simp only: mult_1_right le_trans)
  then show "unat v * 64 < 2 ^ 32" by simp
qed

lemma join_digits: "(v * 64 + m div 64 ^ k) * 64 ^ k + m mod 64 ^ k = v * 64 ^ Suc k + (m :: nat)"
  by (simp add: algebra_simps)

lemma utf8_tail_accepts:
  assumes "cbs_ok c" "bytes_of c = conts k m @ rest" "m < 64 ^ k" "room_for k v"
  shows "\<exists>w. utf8_tail k v c = (Ok w, after k c) \<and> unat w = unat v * 64 ^ k + m"
  using assms
proof (induction k arbitrary: m v c)
  case 0
  have "after 0 c = c" by (simp add: window_def)
  then show ?case using 0 by (simp add: act_run)
next
  case (Suc k)
  let ?b = "word_of_nat (0x80 + m div 64 ^ k) :: byte"
  have bytes: "bytes_of c = ?b # conts k (m mod 64 ^ k) @ rest" using Suc.prems(2) by simp
  have d: "m div 64 ^ k < 64" using Suc.prems(3) by (simp add: div_less_iff_less_mult)
  have b: "unat ?b div 64 = 2" "unat ?b mod 64 = m div 64 ^ k" by (rule cont_byte [OF d])+
  obtain w where w: "utf8_tail (Suc k) v c = utf8_tail k w (after 1 c)" "unat w = unat v * 64 + m div 64 ^ k"
    using utf8_tail_cons [OF Suc.prems(1) bytes room_for_Suc(1) [OF Suc.prems(4)], of k] b by auto
  note at = CBS_get_u8_cons [OF Suc.prems(1) bytes]
  obtain x where "utf8_tail k w (after 1 c) = (Ok x, after k (after 1 c))" "unat x = unat w * 64 ^ k + m mod 64 ^ k"
    using Suc.IH [OF at(2,3) _ room_for_Suc(2) [OF Suc.prems(4) d w(2)]] by auto
  then show ?case using w join_digits [of "unat v" m k] by (simp add: after_after)
qed

lemma utf8_tail_exact:
  assumes "cbs_ok c" "utf8_tail k v c = (Ok w, c')" "room_for k v"
  shows "\<exists>m < 64 ^ k. unat w = unat v * 64 ^ k + m \<and> bytes_of c = conts k m @ bytes_of c' \<and> k \<le> cbs_len c \<and> c' = after k c"
  using assms
proof (induction k arbitrary: v c)
  case 0
  have "after 0 c = c" by (simp add: window_def)
  then show ?case using 0 by (auto simp: act_run)
next
  case (Suc k)
  show ?case
  proof (cases "bytes_of c")
    case Nil
    then have "cbs_len c = 0" using Suc.prems(1) by (metis length_bytes_of list.size(3))
    then show ?thesis using Suc.prems(2) by (simp add: CBS_get_u8_ok [OF Suc.prems(1)] seq_run)
  next
    case (Cons b rest)
    note at = CBS_get_u8_cons [OF Suc.prems(1) Cons]
    let ?d = "unat b mod 64"
    obtain x where x: "utf8_tail (Suc k) v c = (if unat b div 64 = 2 then utf8_tail k x (after 1 c) else (Fail, after 1 c))"
        "unat x = unat v * 64 + ?d"
      using utf8_tail_cons [OF Suc.prems(1) Cons room_for_Suc(1) [OF Suc.prems(3)], of k] by blast
    have b: "unat b div 64 = 2" "utf8_tail k x (after 1 c) = (Ok w, c')" using Suc.prems(2) x(1) by (auto split: if_splits)
    have room: "room_for k x" by (rule room_for_Suc(2) [OF Suc.prems(3) _ x(2)]) simp
    obtain m where m: "m < 64 ^ k" "unat w = unat x * 64 ^ k + m" "bytes_of (after 1 c) = conts k m @ bytes_of c'"
        "k \<le> cbs_len (after 1 c)" "c' = after k (after 1 c)"
      using Suc.IH [OF at(2) b(2) room] by blast
    let ?m = "?d * 64 ^ k + m"
    have digits: "?m div 64 ^ k = ?d" "?m mod 64 ^ k = m" "m mod 64 ^ k = m" using m(1) by simp_all
    have "unat b = 0x80 + ?d" using b(1) div_mult_mod_eq [of "unat b" 64] by linarith
    then have "b = word_of_nat (0x80 + ?d)" by (rule byte_of_unat)
    then have "bytes_of c = conts (Suc k) ?m @ bytes_of c'" using m(3) at(3) Cons by (simp add: digits)
    moreover have "?m < 64 ^ Suc k"
    proof -
      have "?d * 64 ^ k + m < Suc ?d * 64 ^ k" using m(1) by simp
      also have "\<dots> \<le> 64 * 64 ^ k" by (intro mult_le_mono1) (simp add: Suc_le_eq)
      finally show ?thesis by simp
    qed
    moreover have "unat w = unat v * 64 ^ Suc k + ?m" using m(2) x(2) by (simp add: algebra_simps)
    moreover have "c' = after (Suc k) c" using m(5) unfolding after_after by simp
    moreover have "Suc k \<le> cbs_len c" using m(4) at(4) by (simp add: cbs_len_window)
    ultimately show ?thesis by blast
  qed
qed

section \<open>UTF-8\<close>

text \<open>A code of more than one byte: how many follow, the bits that mark the first, and the least number.\<close>

definition long_code :: "nat \<Rightarrow> nat \<Rightarrow> nat \<Rightarrow> byte list" where
  "long_code k mark n = word_of_nat (mark + n div 64 ^ k) # conts k (n mod 64 ^ k)"

definition utf8_code :: "u32 \<Rightarrow> byte list" where
  "utf8_code v = (let n = unat v
     in if n < 0x80 then [word_of_nat n]
        else if n < 0x800 then long_code 1 0xC0 n
        else if n < 0x10000 then long_code 2 0xE0 n
        else long_code 3 0xF0 n)"

definition utf8_rest :: "nat \<Rightarrow> nat \<Rightarrow> u32 \<Rightarrow> (u32, CBS) act" where
  "utf8_rest k d low = seq (utf8_tail k (word_of_nat d)) (\<lambda>v. if \<not> is_valid_code_point v \<or> v < low then fail else ret v)"

definition utf8_first :: "byte \<Rightarrow> (u32, CBS) act" where
  "utf8_first b = (if unat b < 0x80 then ret (ucast b)
     else if unat b div 32 = 6 then utf8_rest 1 (unat b mod 32) 0x80
     else if unat b div 16 = 14 then utf8_rest 2 (unat b mod 16) 0x800
     else if unat b div 8 = 30 then utf8_rest 3 (unat b mod 8) 0x10000
     else fail)"

lemma cbs_get_utf8_first: "cbs_get_utf8 = seq CBS_get_u8 utf8_first"
proof -
  have low: "ucast (b AND 0x1f) = (word_of_nat (unat b mod 32) :: u32)" "ucast (b AND 0xf) = (word_of_nat (unat b mod 16) :: u32)"
    "ucast (b AND 7) = (word_of_nat (unat b mod 8) :: u32)" for b :: byte
    unfolding low_bits [symmetric] by simp_all
  have "b \<le> 0x7f \<longleftrightarrow> unat b < 0x80" for b :: byte by (auto simp: word_le_nat_alt)
  then show ?thesis
    unfolding cbs_get_utf8_def by (intro arg_cong [of _ _ "seq CBS_get_u8"] ext)
      (simp add: utf8_first_def utf8_rest_def top_bits bottom_bits head_bits low)
qed

lemma utf8_rest_iff:
  assumes "cbs_ok c" "Suc d * 64 ^ k \<le> 2 ^ 32"
  shows "utf8_rest k d low c = (Ok w, c') \<longleftrightarrow> is_valid_code_point w \<and> low \<le> w \<and>
    (\<exists>m < 64 ^ k. unat w = d * 64 ^ k + m \<and> bytes_of c = conts k m @ bytes_of c' \<and> c' = after k c)"
proof -
  have "d < 2 ^ 32"
  proof -
    have "Suc d * 1 \<le> Suc d * 64 ^ k" by (intro mult_le_mono2) simp
    then have "Suc d \<le> 2 ^ 32" using assms(2) by (metis le_trans mult_1_right)
    then show ?thesis by simp
  qed
  then have d: "unat (word_of_nat d :: u32) = d" by (rule word_u32)
  then have room: "room_for k (word_of_nat d)" using assms(2) by (simp add: room_for_def)
  show ?thesis
  proof
    assume "utf8_rest k d low c = (Ok w, c')"
    then have "utf8_tail k (word_of_nat d) c = (Ok w, c')" "is_valid_code_point w" "low \<le> w"
      by (auto simp: utf8_rest_def seq_def act_run split: prod.splits outcome.splits if_splits)
    then show "is_valid_code_point w \<and> low \<le> w \<and>
        (\<exists>m < 64 ^ k. unat w = d * 64 ^ k + m \<and> bytes_of c = conts k m @ bytes_of c' \<and> c' = after k c)"
      using utf8_tail_exact [OF assms(1) _ room] d by metis
  next
    assume w: "is_valid_code_point w \<and> low \<le> w \<and>
        (\<exists>m < 64 ^ k. unat w = d * 64 ^ k + m \<and> bytes_of c = conts k m @ bytes_of c' \<and> c' = after k c)"
    then obtain m where m: "m < 64 ^ k" "unat w = d * 64 ^ k + m" "bytes_of c = conts k m @ bytes_of c'" "c' = after k c" by blast
    obtain x where "utf8_tail k (word_of_nat d) c = (Ok x, after k c)" "unat x = d * 64 ^ k + m"
      using utf8_tail_accepts [OF assms(1) m(3,1) room] d by auto
    moreover from this have "x = w" using m(2) by (simp add: word_unat_eq_iff)
    ultimately show "utf8_rest k d low c = (Ok w, c')" using w m(4) by (simp add: utf8_rest_def seq_def act_run not_less)
  qed
qed

text \<open>The codes whose first byte has a mark above a number of bits.\<close>

lemma long_code_first:
  assumes "n < 2 ^ j * 64 ^ k" "mark = 2 ^ j * a" "mark + 2 ^ j \<le> 256"
  shows "unat (hd (long_code k mark n)) div 2 ^ j = a" "unat (hd (long_code k mark n)) mod 2 ^ j = n div 64 ^ k"
proof -
  have "n div 64 ^ k < 2 ^ j" using assms(1) by (simp add: div_less_iff_less_mult)
  then have "unat (hd (long_code k mark n)) = n div 64 ^ k + a * 2 ^ j" using assms(2,3) word_byte [of "mark + n div 64 ^ k"]
    by (simp add: long_code_def mult.commute add.commute)
  then show "unat (hd (long_code k mark n)) div 2 ^ j = a" "unat (hd (long_code k mark n)) mod 2 ^ j = n div 64 ^ k"
    using \<open>n div 64 ^ k < 2 ^ j\<close> by simp_all
qed

lemma long_code_of:
  assumes "unat (b :: byte) div 2 ^ j = a" "mark = 2 ^ j * a" "m < 64 ^ k" "n = unat b mod 2 ^ j * 64 ^ k + m"
  shows "b # conts k m = long_code k mark n"
proof -
  have "n div 64 ^ k = unat b mod 2 ^ j" "n mod 64 ^ k = m" using assms(3,4) by simp_all
  moreover have "unat b = mark + unat b mod 2 ^ j" using assms(1,2) div_mult_mod_eq [of "unat b" "2 ^ j"] by (simp add: mult.commute)
  then have "b = word_of_nat (mark + unat b mod 2 ^ j)" by (rule byte_of_unat)
  ultimately show ?thesis by (simp add: long_code_def)
qed

lemma utf8_first_class:
  "unat b < 0x80 \<Longrightarrow> utf8_first b = ret (ucast b)"
  "unat b div 2 ^ 5 = 6 \<Longrightarrow> utf8_first b = utf8_rest 1 (unat b mod 2 ^ 5) 0x80"
  "unat b div 2 ^ 4 = 14 \<Longrightarrow> utf8_first b = utf8_rest 2 (unat b mod 2 ^ 4) 0x800"
  "unat b div 2 ^ 3 = 30 \<Longrightarrow> utf8_first b = utf8_rest 3 (unat b mod 2 ^ 3) 0x10000"
proof -
  define n where "n = unat b"
  have "\<not> n < 0x80" if "n div 32 = 6" using that by linarith
  moreover have "\<not> n < 0x80 \<and> n div 32 \<noteq> 6" if "n div 16 = 14" using that by linarith
  moreover have "\<not> n < 0x80 \<and> n div 32 \<noteq> 6 \<and> n div 16 \<noteq> 14" if "n div 8 = 30" using that by linarith
  ultimately show "unat b < 0x80 \<Longrightarrow> utf8_first b = ret (ucast b)"
    "unat b div 2 ^ 5 = 6 \<Longrightarrow> utf8_first b = utf8_rest 1 (unat b mod 2 ^ 5) 0x80"
    "unat b div 2 ^ 4 = 14 \<Longrightarrow> utf8_first b = utf8_rest 2 (unat b mod 2 ^ 4) 0x800"
    "unat b div 2 ^ 3 = 30 \<Longrightarrow> utf8_first b = utf8_rest 3 (unat b mod 2 ^ 3) 0x10000"
    unfolding utf8_first_def n_def by simp_all
qed

lemma utf8_accepts_long:
  assumes "cbs_ok c" "bytes_of c = long_code k mark (unat x) @ rest" "is_valid_code_point x" "low \<le> x"
    and "unat x < 2 ^ j * 64 ^ k" "2 ^ j * 64 ^ k \<le> (2 ^ 32 :: nat)" "mark = 2 ^ j * a" "mark + 2 ^ j \<le> 256"
    and first: "\<And>b. unat b div 2 ^ j = a \<Longrightarrow> utf8_first b = utf8_rest k (unat b mod 2 ^ j) low"
  shows "cbs_get_utf8 c = (Ok x, after (Suc k) c)"
proof -
  let ?b = "hd (long_code k mark (unat x))" and ?tail = "conts k (unat x mod 64 ^ k)"
  have bytes: "bytes_of c = ?b # ?tail @ rest" using assms(2) by (simp add: long_code_def)
  note at = CBS_get_u8_cons [OF assms(1) bytes]
  note b = long_code_first [OF assms(5,7,8)]
  have "unat x div 64 ^ k < 2 ^ j" using assms(5) by (simp add: div_less_iff_less_mult)
  then have "Suc (unat x div 64 ^ k) * 64 ^ k \<le> 2 ^ j * 64 ^ k" by (intro mult_le_mono1) simp
  then have room: "Suc (unat x div 64 ^ k) * 64 ^ k \<le> 2 ^ 32" using assms(6) by linarith
  have "k \<le> cbs_len (after 1 c)" "bytes_of (after k (after 1 c)) = rest"
    using bytes_of_append [OF at(2), of ?tail rest] at(3) by simp_all
  then have "utf8_rest k (unat x div 64 ^ k) low (after 1 c) = (Ok x, after k (after 1 c))"
    unfolding utf8_rest_iff [OF at(2) room] using assms(3,4) at(3) by (intro conjI exI [of _ "unat x mod 64 ^ k"]) (simp_all add: div_mult_mod_eq)
  then show ?thesis unfolding cbs_get_utf8_first
    by (simp add: seq_def at(1) [unfolded One_nat_def] first [OF b(1)] b(2) after_after [of k 1 c, unfolded One_nat_def])
qed

lemma utf8_exact_long:
  assumes "cbs_ok c" "bytes_of c = b # rest" "utf8_rest k (unat b mod 2 ^ j) low (after 1 c) = (Ok w, c')"
    and "unat b div 2 ^ j = a" "2 ^ j * 64 ^ k \<le> (2 ^ 32 :: nat)" "mark = 2 ^ j * a"
  shows "is_valid_code_point w" "low \<le> w" "unat w < 2 ^ j * 64 ^ k" "bytes_of c = long_code k mark (unat w) @ bytes_of c'" "c' = after (Suc k) c"
proof -
  note at = CBS_get_u8_cons [OF assms(1,2)]
  let ?d = "unat b mod 2 ^ j"
  have le: "Suc ?d * 64 ^ k \<le> 2 ^ j * 64 ^ k" by (intro mult_le_mono1) (simp add: Suc_le_eq)
  then have room: "Suc ?d * 64 ^ k \<le> 2 ^ 32" using assms(5) by linarith
  obtain m where m: "m < 64 ^ k" "unat w = ?d * 64 ^ k + m" "rest = conts k m @ bytes_of c'" "c' = after k (after 1 c)"
    and w: "is_valid_code_point w" "low \<le> w"
    using assms(3) unfolding utf8_rest_iff [OF at(2) room] at(3) by blast
  show "is_valid_code_point w" "low \<le> w" by (rule w)+
  show "unat w < 2 ^ j * 64 ^ k" using m(1,2) le by simp
  show "bytes_of c = long_code k mark (unat w) @ bytes_of c'" using long_code_of [OF assms(4,6) m(1,2)] assms(2) m(3) by simp
  show "c' = after (Suc k) c" using m(4) unfolding after_after by simp
qed

lemma valid_bound: "is_valid_code_point v \<Longrightarrow> unat v \<le> 0x10ffff"
  by (auto simp: is_valid_code_point_def word_less_nat_alt)

lemma utf8_code_cases:
  "unat v < 0x80 \<Longrightarrow> utf8_code v = [word_of_nat (unat v)]"
  "0x80 \<le> v \<Longrightarrow> unat v < 2 ^ 5 * 64 ^ 1 \<Longrightarrow> utf8_code v = long_code 1 0xC0 (unat v)"
  "0x800 \<le> v \<Longrightarrow> unat v < 2 ^ 4 * 64 ^ 2 \<Longrightarrow> utf8_code v = long_code 2 0xE0 (unat v)"
  "0x10000 \<le> v \<Longrightarrow> utf8_code v = long_code 3 0xF0 (unat v)"
  by (simp_all add: utf8_code_def word_le_nat_alt Let_def)

lemma length_utf8_code: "length (utf8_code v) = (if unat v < 0x80 then 1 else if unat v < 0x800 then 2 else if unat v < 0x10000 then 3 else 4)"
  by (simp add: utf8_code_def long_code_def Let_def)

lemma utf8_in_order: "cbs_ok c \<Longrightarrow> in_order c (\<lambda>_ _. True) (cbs_get_utf8 c)"
proof -
  have rest: "in_order c (\<lambda>_ _. True) (utf8_rest k d low e)" if "sub_of e c" "cbs_ok e" for k d low c e
    unfolding utf8_rest_def
    by (rule in_order_seq [where Q = "\<lambda>_ _. True"], rule in_order_mono [OF utf8_tail_in_order [OF that(2)] that(1)]) (auto intro: in_order_basic)
  show "cbs_ok c \<Longrightarrow> in_order c (\<lambda>_ _. True) (cbs_get_utf8 c)"
    unfolding cbs_get_utf8_first by (rule u8.seq_in_order) (auto simp: utf8_first_def intro: rest in_order_basic)
qed

lemma utf8_accepts:
  assumes "cbs_ok c" "is_valid_code_point x" "bytes_of c = utf8_code x @ rest"
  shows "cbs_get_utf8 c = (Ok x, after (length (utf8_code x)) c)"
proof -
  consider (One) "unat x < 0x80" | (Two) "0x80 \<le> x" "unat x < 2 ^ 5 * 64 ^ 1" | (Three) "0x800 \<le> x" "unat x < 2 ^ 4 * 64 ^ 2"
    | (Four) "0x10000 \<le> x"
    unfolding word_le_nat_alt by fastforce
  then show ?thesis
  proof cases
    case One
    have b: "unat (word_of_nat (unat x) :: byte) = unat x" using One by (intro word_byte) simp
    have bytes: "bytes_of c = word_of_nat (unat x) # rest" using assms(3) utf8_code_cases(1) [OF One] by simp
    have "ucast (word_of_nat (unat x) :: byte) = x" using b by (metis of_nat_unat ucast_id)
    then show ?thesis unfolding cbs_get_utf8_first utf8_code_cases(1) [OF One]
      using CBS_get_u8_cons(1) [OF assms(1) bytes] utf8_first_class(1) [of "word_of_nat (unat x)"] b One by (simp add: seq_def act_run)
  next
    case Two
    note code = utf8_code_cases(2) [OF Two]
    have "cbs_get_utf8 c = (Ok x, after (Suc 1) c)"
      by (rule utf8_accepts_long [OF assms(1) _ assms(2) Two, where mark = "0xC0" and a = 6]) (use assms(3) code utf8_first_class(2) in simp_all)
    then show ?thesis using code by (simp add: long_code_def)
  next
    case Three
    note code = utf8_code_cases(3) [OF Three]
    have "cbs_get_utf8 c = (Ok x, after (Suc 2) c)"
      by (rule utf8_accepts_long [OF assms(1) _ assms(2) Three, where mark = "0xE0" and a = 14]) (use assms(3) code utf8_first_class(3) in simp_all)
    then show ?thesis using code by (simp add: long_code_def)
  next
    case Four
    note code = utf8_code_cases(4) [OF Four]
    have "unat x < 2 ^ 3 * 64 ^ 3" using valid_bound [OF assms(2)] by simp
    then have "cbs_get_utf8 c = (Ok x, after (Suc 3) c)"
      by (intro utf8_accepts_long [OF assms(1) _ assms(2) Four, where mark = "0xF0" and a = 30 and j = 3]) (use assms(3) code utf8_first_class(4) in simp_all)
    then show ?thesis using code by (simp add: long_code_def)
  qed
qed

lemma utf8_exact:
  assumes "cbs_ok c" "cbs_get_utf8 c = (Ok w, c')"
  shows "is_valid_code_point w \<and> bytes_of c = utf8_code w @ bytes_of c' \<and> c' = after (length (utf8_code w)) c"
proof (cases "bytes_of c")
  case Nil
  then have "cbs_len c = 0" using assms(1) by (metis length_bytes_of list.size(3))
  then show ?thesis using assms(2) by (simp add: CBS_get_u8_ok [OF assms(1)] cbs_get_utf8_first seq_run)
next
  case (Cons b rest)
  note at = CBS_get_u8_cons [OF assms(1) Cons]
  have first: "utf8_first b (after 1 c) = (Ok w, c')" using assms(2) at(1) by (simp add: cbs_get_utf8_first seq_run)
  consider (One) "unat b < 0x80" | (Two) "unat b div 2 ^ 5 = 6" | (Three) "unat b div 2 ^ 4 = 14" | (Four) "unat b div 2 ^ 3 = 30"
    using first by (auto simp: utf8_first_def act_run split: if_splits)
  then show ?thesis
  proof cases
    case One
    then have w: "w = ucast b" "c' = after 1 c" using first by (simp_all add: utf8_first_class(1) act_run)
    have u: "unat w = unat b" using w(1) by (simp add: unat_widen)
    then have "\<not> (0x10ffff < w \<or> 0xfdd0 \<le> w \<or> 0xd800 \<le> w)" using One by (simp add: word_less_nat_alt word_le_nat_alt)
    moreover have "w AND 0xfffe \<noteq> 0xfffe"
    proof
      assume "w AND 0xfffe = 0xfffe"
      then have "(0xfffe :: u32) \<le> w" by (metis word_and_le2)
      then show False using u One by (simp add: word_le_nat_alt)
    qed
    ultimately have "is_valid_code_point w" by (auto simp: is_valid_code_point_def)
    then show ?thesis using One u w(2) at(3) Cons by (simp add: utf8_code_cases(1))
  next
    case Two
    note w = utf8_exact_long [OF assms(1) Cons first [unfolded utf8_first_class(2) [OF Two]] Two, where mark = "0xC0", simplified]
    show ?thesis using w utf8_code_cases(2) [of w] by (simp add: long_code_def)
  next
    case Three
    note w = utf8_exact_long [OF assms(1) Cons first [unfolded utf8_first_class(3) [OF Three]] Three, where mark = "0xE0", simplified]
    show ?thesis using w utf8_code_cases(3) [of w] by (simp add: long_code_def)
  next
    case Four
    note w = utf8_exact_long [OF assms(1) Cons first [unfolded utf8_first_class(4) [OF Four]] Four, where mark = "0xF0", simplified]
    show ?thesis using w utf8_code_cases(4) [of w] by (simp add: long_code_def)
  qed
qed

interpretation utf8: exact_reader cbs_get_utf8 "\<lambda>_ _. True" id utf8_code is_valid_code_point
proof
  fix c assume c: "cbs_ok c"
  show "in_order c (\<lambda>v _. True) (cbs_get_utf8 c)" by (rule utf8_in_order [OF c])
  show "\<exists>v. cbs_get_utf8 c = (Ok v, after (length (utf8_code x)) c) \<and> id v = x"
    if "is_valid_code_point x" "bytes_of c = utf8_code x @ rest" for x rest
    using utf8_accepts [OF c that] by simp
  show "is_valid_code_point (id v) \<and> (\<exists>k. k \<le> cbs_len c \<and> c' = after k c \<and> take k (bytes_of c) = utf8_code (id v))"
    if "cbs_get_utf8 c = (Ok v, c')" for v c'
  proof -
    note v = utf8_exact [OF c that]
    then have "bytes_of c = utf8_code v @ bytes_of c'" by blast
    then have "length (utf8_code v) \<le> cbs_len c" by (rule bytes_of_append(1) [OF c])
    then show ?thesis using v by (intro conjI exI [of _ "length (utf8_code v)"]) simp_all
  qed
qed

section \<open>The other encodings\<close>

interpretation latin1: exact_reader cbs_get_latin1 "\<lambda>_ _. True" id "(\<lambda>b. [b]) \<circ> ucast" "\<lambda>v. unat v < 256"
  unfolding cbs_get_latin1_def
proof (rule u8.mapped [where dec = "Some \<circ> ucast"])
  show "True \<and> (Some \<circ> ucast) y = Some x \<longleftrightarrow> unat x < 256 \<and> y = ucast x" for y :: byte and x :: u32
    using narrow_small [where 'a = 8 and 'b = 32, of x y] unat_byte_unit [of y] by (auto simp: narrow_widen unat_widen)
qed (auto simp: act_run)

interpretation ucs2: exact_reader cbs_get_ucs2_be "\<lambda>_ _. True" id "be_bytes 2 \<circ> (ucast :: u32 \<Rightarrow> u16)" "\<lambda>v. unat v < 2 ^ 16 \<and> is_valid_code_point v"
  unfolding cbs_get_ucs2_be_def
proof (rule u16.mapped [where dec = "\<lambda>c. if is_valid_code_point (ucast c) then Some (ucast c) else None"])
  show "True \<and> (if is_valid_code_point (ucast y) then Some (ucast y) else None) = Some x \<longleftrightarrow> (unat x < 2 ^ 16 \<and> is_valid_code_point x) \<and> y = ucast x"
    for y :: u16 and x
    using narrow_small [where 'a = 16 and 'b = 32, of x y] unat_less [of y] by (auto simp: narrow_widen unat_widen)
qed (auto simp: act_run)

interpretation utf32: exact_reader cbs_get_utf32_be "\<lambda>_ _. True" id "be_bytes 4 \<circ> (id :: u32 \<Rightarrow> u32)" is_valid_code_point
  unfolding cbs_get_utf32_be_def
  by (rule u32.mapped [where dec = "\<lambda>c. if is_valid_code_point c then Some c else None"]) (auto simp: act_run)

section \<open>Writing\<close>

lemma mark_or:
  assumes "unat (x :: byte) < 2 ^ j"
  shows "push_bit j a OR x = word_of_nat (unat (push_bit j a) + unat x)"
proof -
  have "take_bit j x = x" using assms by (simp only: word_unat_eq_iff unsigned_take_bit_eq take_bit_nat_eq_self)
  then have low: "bit x n \<Longrightarrow> n < j" for n by (metis bit_take_bit_iff)
  then have "push_bit j a OR x = push_bit j a + x" by (intro disjunctive_add [symmetric]) (auto simp: bit_simps dest: low)
  then show ?thesis by simp
qed

lemma marked_bytes:
  "unat x < 64 \<Longrightarrow> TOP_BITS 1 OR x = word_of_nat (0x80 + unat x)" "unat x < 32 \<Longrightarrow> TOP_BITS 2 OR x = word_of_nat (0xC0 + unat x)"
  "unat x < 16 \<Longrightarrow> TOP_BITS 3 OR x = word_of_nat (0xE0 + unat x)" "unat x < 8 \<Longrightarrow> TOP_BITS 4 OR x = word_of_nat (0xF0 + unat x)"
  using mark_or [of x 6 2] mark_or [of x 5 6] mark_or [of x 4 14] mark_or [of x 3 30]
  by (simp_all add: top_bits push_bit_eq_mult)

lemma unat_narrow: "unat (ucast (drop_bit k u :: u32) :: byte) = unat u div 2 ^ k mod 256"
proof -
  have "unat (drop_bit k u) = unat u div 2 ^ k" by (simp add: unat_drop_bit)
  then show ?thesis by (simp add: unsigned_ucast_eq take_bit_eq_mod)
qed

lemma tail_byte: "TOP_BITS 1 OR (ucast (drop_bit k u :: u32) AND BOTTOM_BITS 6) = word_of_nat (0x80 + unat u div 2 ^ k mod 64)"
proof -
  have "unat (ucast (drop_bit k u) AND 0x3f :: byte) = unat u div 2 ^ k mod 64" by (simp add: low_bits unat_narrow mod_mod_cancel)
  then show ?thesis using marked_bytes(1) [of "ucast (drop_bit k u) AND 0x3f"] by (simp add: bottom_bits)
qed

lemma conts_mod: "conts (Suc k) (n mod 64 ^ Suc k) = word_of_nat (0x80 + n div 64 ^ k mod 64) # conts k (n mod 64 ^ k)"
proof -
  have "n mod (64 ^ k * 64) = 64 ^ k * (n div 64 ^ k mod 64) + n mod 64 ^ k" by (rule mod_mult2_eq)
  then have "n mod 64 ^ Suc k div 64 ^ k = n div 64 ^ k mod 64" by (simp add: mult.commute)
  moreover have "n mod 64 ^ Suc k mod 64 ^ k = n mod 64 ^ k" by (rule mod_mod_cancel) simp
  ultimately show ?thesis by simp
qed

lemma long_codes:
  "long_code 1 mark n = [word_of_nat (mark + n div 2 ^ 6), word_of_nat (0x80 + n div 2 ^ 0 mod 64)]"
  "long_code 2 mark n = [word_of_nat (mark + n div 2 ^ 12), word_of_nat (0x80 + n div 2 ^ 6 mod 64), word_of_nat (0x80 + n div 2 ^ 0 mod 64)]"
  "long_code 3 mark n = [word_of_nat (mark + n div 2 ^ 18), word_of_nat (0x80 + n div 2 ^ 12 mod 64),
     word_of_nat (0x80 + n div 2 ^ 6 mod 64), word_of_nat (0x80 + n div 2 ^ 0 mod 64)]"
proof -
  have c: "conts 1 = conts (Suc 0)" "conts 2 = conts (Suc (Suc 0))" "conts 3 = conts (Suc (Suc (Suc 0)))"
    by (simp_all add: numeral_2_eq_2 numeral_3_eq_3)
  have p: "(64 :: nat) ^ 1 = 64 ^ Suc 0" "(64 :: nat) ^ 2 = 64 ^ Suc (Suc 0)" "(64 :: nat) ^ 3 = 64 ^ Suc (Suc (Suc 0))" by simp_all
  show "long_code 1 mark n = [word_of_nat (mark + n div 2 ^ 6), word_of_nat (0x80 + n div 2 ^ 0 mod 64)]"
    unfolding long_code_def c p conts_mod by simp
  show "long_code 2 mark n = [word_of_nat (mark + n div 2 ^ 12), word_of_nat (0x80 + n div 2 ^ 6 mod 64), word_of_nat (0x80 + n div 2 ^ 0 mod 64)]"
    unfolding long_code_def c p conts_mod by simp
  show "long_code 3 mark n = [word_of_nat (mark + n div 2 ^ 18), word_of_nat (0x80 + n div 2 ^ 12 mod 64),
     word_of_nat (0x80 + n div 2 ^ 6 mod 64), word_of_nat (0x80 + n div 2 ^ 0 mod 64)]"
    unfolding long_code_def c p conts_mod by simp
qed

lemma cbb_add_utf8_adds:
  assumes "is_valid_code_point u"
  shows "adds d (cbb_add_utf8 d u) (utf8_code u)"
proof -
  have le: "u \<le> 0x7f \<longleftrightarrow> unat u < 0x80" "u \<le> 0x7ff \<longleftrightarrow> unat u < 0x800" "u \<le> 0xffff \<longleftrightarrow> unat u < 0x10000" "u \<le> 0x10ffff \<longleftrightarrow> unat u \<le> 0x10ffff"
    by (auto simp: word_le_nat_alt)
  note bound = valid_bound [OF assms]
  consider (One) "unat u < 0x80" | (Two) "\<not> unat u < 0x80" "unat u < 0x800" | (Three) "\<not> unat u < 0x800" "unat u < 0x10000"
    | (Four) "\<not> unat u < 0x10000" by linarith
  then show ?thesis
  proof cases
    case One
    then show ?thesis using assms adds_u8 [of d "ucast u"] by (simp add: cbb_add_utf8_def le utf8_code_def)
  next
    case Two
    then have "unat u div 64 < 32" by linarith
    then have lead: "TOP_BITS 2 OR ucast (drop_bit 6 u) = word_of_nat (0xC0 + unat u div 2 ^ 6)"
      using marked_bytes(2) [of "ucast (drop_bit 6 u)"] by (simp add: unat_narrow)
    show ?thesis using Two assms adds_seq [OF adds_u8 adds_u8, of d] unfolding utf8_code_def Let_def long_codes
      by (simp add: cbb_add_utf8_def le lead tail_byte del: One_nat_def)
  next
    case Three
    then have "unat u div 4096 < 16" by linarith
    then have lead: "TOP_BITS 3 OR ucast (drop_bit 12 u) = word_of_nat (0xE0 + unat u div 2 ^ 12)"
      using marked_bytes(3) [of "ucast (drop_bit 12 u)"] by (simp add: unat_narrow)
    show ?thesis using Three assms adds_seq [OF adds_u8 adds_seq [OF adds_u8 adds_u8], of d] unfolding utf8_code_def Let_def long_codes
      by (simp add: cbb_add_utf8_def le lead tail_byte del: One_nat_def)
  next
    case Four
    then have "unat u div 262144 < 8" using bound by linarith
    then have lead: "TOP_BITS 4 OR ucast (drop_bit 18 u) = word_of_nat (0xF0 + unat u div 2 ^ 18)"
      using marked_bytes(4) [of "ucast (drop_bit 18 u)"] by (simp add: unat_narrow)
    show ?thesis using Four bound assms adds_seq [OF adds_u8 adds_seq [OF adds_u8 adds_seq [OF adds_u8 adds_u8]], of d]
      unfolding utf8_code_def Let_def long_codes by (simp add: cbb_add_utf8_def le lead tail_byte del: One_nat_def)
  qed
qed

lemma cbb_add_others:
  "unat u < 256 \<Longrightarrow> adds d (cbb_add_latin1 d u) [ucast u]"
  "unat u < 2 ^ 16 \<Longrightarrow> is_valid_code_point u \<Longrightarrow> adds d (cbb_add_ucs2_be d u) (be_bytes 2 (ucast u :: u16))"
  "is_valid_code_point u \<Longrightarrow> adds d (cbb_add_utf32_be d u) (be_bytes 4 u)"
  using adds_u8 [of d "ucast u"] adds_of_appended [OF CBB_add_u16_implements [of d "ucast u"]] adds_of_appended [OF CBB_add_u32_implements [of d u]]
  by (simp_all add: cbb_add_latin1_def cbb_add_ucs2_be_def cbb_add_utf32_be_def word_le_nat_alt)

lemma cbb_add_refuses:
  "\<not> is_valid_code_point u \<Longrightarrow> cbb_add_utf8 d u s = (Fail, s)" "\<not> unat u < 256 \<Longrightarrow> cbb_add_latin1 d u s = (Fail, s)"
  "\<not> (unat u < 2 ^ 16 \<and> is_valid_code_point u) \<Longrightarrow> cbb_add_ucs2_be d u s = (Fail, s)"
  "\<not> is_valid_code_point u \<Longrightarrow> cbb_add_utf32_be d u s = (Fail, s)"
  by (auto simp: cbb_add_utf8_def cbb_add_latin1_def cbb_add_ucs2_be_def cbb_add_utf32_be_def act_run Let_def word_le_nat_alt)

lemma cbb_get_utf8_len_exact: "cbb_get_utf8_len u = length (utf8_code u)"
  by (simp add: length_utf8_code cbb_get_utf8_len_def word_le_nat_alt)

section \<open>Characters\<close>

text \<open>
  C37. Characters.  Each reader succeeds exactly when the input starts with the code of a character it allows,
  in the shortest form, returns that character and moves behind it; each writer appends the same code, and fails
  without touching the builder for any other value; the length foretold for UTF-8 is the length of the code.
\<close>

theorem unicode_exact:
  assumes "cbs_ok c"
  shows "(cbs_get_utf8 c = (Ok v, c') \<longleftrightarrow>
      is_valid_code_point v \<and> bytes_of c = utf8_code v @ bytes_of c' \<and> c' = after (length (utf8_code v)) c) \<and>
    (cbs_get_latin1 c = (Ok v, c') \<longleftrightarrow> unat v < 256 \<and> bytes_of c = ucast v # bytes_of c' \<and> c' = after 1 c) \<and>
    (cbs_get_ucs2_be c = (Ok v, c') \<longleftrightarrow>
      unat v < 2 ^ 16 \<and> is_valid_code_point v \<and> bytes_of c = be_bytes 2 (ucast v :: u16) @ bytes_of c' \<and> c' = after 2 c) \<and>
    (cbs_get_utf32_be c = (Ok v, c') \<longleftrightarrow> is_valid_code_point v \<and> bytes_of c = be_bytes 4 v @ bytes_of c' \<and> c' = after 4 c) \<and>
    (if is_valid_code_point v then adds d (cbb_add_utf8 d v) (utf8_code v) \<and> cbb_get_utf8_len v = length (utf8_code v)
     else cbb_add_utf8 d v s = (Fail, s)) \<and>
    (if unat v < 256 then adds d (cbb_add_latin1 d v) [ucast v] else cbb_add_latin1 d v s = (Fail, s)) \<and>
    (if unat v < 2 ^ 16 \<and> is_valid_code_point v then adds d (cbb_add_ucs2_be d v) (be_bytes 2 (ucast v :: u16))
     else cbb_add_ucs2_be d v s = (Fail, s)) \<and>
    (if is_valid_code_point v then adds d (cbb_add_utf32_be d v) (be_bytes 4 v) else cbb_add_utf32_be d v s = (Fail, s))"
  using utf8.reads_iff [OF assms, of c' v] latin1.reads_iff [OF assms, of c' v] ucs2.reads_iff [OF assms, of c' v] utf32.reads_iff [OF assms, of c' v]
    cbb_add_utf8_adds [of v d] cbb_add_others [of v d] cbb_add_refuses [of v d s] cbb_get_utf8_len_exact [of v]
  by simp

lemma unicode_exact_witness: "cbs_get_utf8 (CBS_init [0xE2, 0x82, 0xAC, 0x21] 4) = (Ok 0x20AC, CBS_init [0x21] 1)"
proof -
  let ?c = "CBS_init [0xE2, 0x82, 0xAC, 0x21] 4"
  have ok: "cbs_ok ?c" by (simp add: cbs_ok_def CBS_init_def)
  have code: "utf8_code 0x20AC = [0xE2, 0x82, 0xAC]" by (simp add: utf8_code_def long_codes)
  have "is_valid_code_point 0x20AC" by (simp add: is_valid_code_point_def)
  moreover have "bytes_of ?c = utf8_code 0x20AC @ bytes_of (CBS_init [0x21] 1)" "CBS_init [0x21] 1 = after (length (utf8_code 0x20AC)) ?c"
    by (simp_all add: code bytes_of_def CBS_init_def window_def)
  ultimately show ?thesis using unicode_exact [OF ok, of "0x20AC" "CBS_init [0x21] 1"] by blast
qed

end
