(* ===== verification/Ber.thy ===== *)
theory Ber
  imports Cbb
begin

text \<open>
  BER input of BoringSSL (crypto/bytestring/ber.c): finding indefinite lengths and constructed strings,
  converting them to DER with the reader of cbs.c and the builder of cbb.c, and implicitly tagged strings.
\<close>

section \<open>Elements\<close>

abbreviation (input) kMaxDepth :: nat where "kMaxDepth \<equiv> 2048"

definition is_string_type :: "u32 \<Rightarrow> bool" where
  "is_string_type tag = List.member
     [0x3, CBS_ASN1_OCTETSTRING, 0xc, 0x12, 0x13, 0x14, 0x15, 0x16, 0x19, 0x1a, 0x1b, 0x1c, 0x1e]
     (tag AND NOT CBS_ASN1_CONSTRUCTED)"

text \<open>The test for an element of indefinite length, whose header is all of \<open>contents\<close>.\<close>

definition is_indefinite :: "CBS \<Rightarrow> nat \<Rightarrow> (bool, 's) act" where
  "is_indefinite contents header_len =
     (if cbs_len contents = header_len \<and> header_len > 0
      then seq (byte_at (cbs_data contents) (header_len - 1)) (\<lambda>b. ret (b = 0x80))
      else ret False)"

definition is_eoc :: "nat \<Rightarrow> CBS \<Rightarrow> (bool, 's) act" where
  "is_eoc header_len contents =
     (if header_len = 2 \<and> cbs_len contents = 2
      then seq (deref (cbs_data contents) 2) (\<lambda>bs. ret (OPENSSL_memcmp bs [0, 0] = 0))
      else ret False)"

section \<open>Finding BER\<close>

text \<open>
  The state is the local \<open>in\<close>.  \<open>k\<close> is fuel: a round of the loop takes at least two bytes off the window, so
  its length and one more are enough.  \<open>ber_found\<close> is what the last recursive call has stored.
\<close>

fun cbs_find_ber :: "nat \<Rightarrow> nat \<Rightarrow> (bool, CBS) act" and find_ber_loop :: "nat \<Rightarrow> bool \<Rightarrow> nat \<Rightarrow> (bool, CBS) act" where
  "cbs_find_ber k depth = (if depth > kMaxDepth then fail else find_ber_loop k False depth)"
| "find_ber_loop 0 ber_found depth = (\<lambda>c. (NoFuel, c))"
| "find_ber_loop (Suc k) ber_found depth = seq (query cbs_len) (\<lambda>n.
     if n = 0 then ret ber_found
     else seq CBS_get_any_ber_asn1_element (\<lambda>(contents, tag, header_len).
       seq (is_indefinite contents header_len) (\<lambda>indefinite.
       if indefinite then ret True
       else if tag AND CBS_ASN1_CONSTRUCTED \<noteq> 0 then
         if is_string_type tag then ret True
         else seq (on_child contents (CBS_skip header_len)) (\<lambda>(_, contents).
           seq (on_child contents (cbs_find_ber k (depth + 1))) (\<lambda>(ber_found, _).
           find_ber_loop k ber_found depth))
       else find_ber_loop k ber_found depth)))"

section \<open>Converting\<close>

text \<open>
  The state of \<open>cbs_convert_ber\<close> is \<open>*in\<close> and the chain of builders \<open>out\<close> belongs to.  A step on either,
  and a recursive call on \<open>contents\<close>, which is a local variable.
\<close>

definition reading :: "('a, CBS) act \<Rightarrow> ('a, CBS \<times> CBB) act" where
  "reading m = (\<lambda>(c, s). case m c of (r, c') \<Rightarrow> (r, c', s))"

definition building :: "('a, CBB) act \<Rightarrow> ('a, CBS \<times> CBB) act" where
  "building m = (\<lambda>(c, s). case m s of (r, s') \<Rightarrow> (r, c, s'))"

definition with_contents :: "CBS \<Rightarrow> ('a, CBS \<times> CBB) act \<Rightarrow> ('a, CBS \<times> CBB) act" where
  "with_contents contents m = (\<lambda>(c, s). case m (contents, s) of (r, _, s') \<Rightarrow> (r, c, s'))"

text \<open>
  \<open>d\<close> is the depth of \<open>out\<close> in its chain (\<open>out_contents_storage\<close> is one deeper), \<open>k\<close> fuel as above, and
  the result of \<open>out_for\<close> is \<open>out_contents\<close> with \<open>child_string_tag\<close>.
\<close>

definition out_for :: "nat \<Rightarrow> u32 \<Rightarrow> u32 \<Rightarrow> (nat \<times> u32, CBB) act" where
  "out_for d string_tag tag =
     (if string_tag \<noteq> 0 then
        if tag AND NOT CBS_ASN1_CONSTRUCTED \<noteq> string_tag then fail else ret (d, string_tag)
      else
        let constructed_string = (tag AND CBS_ASN1_CONSTRUCTED \<noteq> 0 \<and> is_string_type tag);
            out_tag = (if constructed_string then tag AND NOT CBS_ASN1_CONSTRUCTED else tag);
            child_string_tag = (if constructed_string then out_tag else string_tag)
        in seq (CBB_add_asn1 d out_tag) (\<lambda>_. ret (Suc d, child_string_tag)))"

fun cbs_convert_ber :: "nat \<Rightarrow> nat \<Rightarrow> u32 \<Rightarrow> bool \<Rightarrow> nat \<Rightarrow> (unit, CBS \<times> CBB) act"
  and convert_ber_loop :: "nat \<Rightarrow> nat \<Rightarrow> u32 \<Rightarrow> bool \<Rightarrow> nat \<Rightarrow> (unit, CBS \<times> CBB) act" where
  "cbs_convert_ber k d string_tag looking_for_eoc depth =
     (if string_tag AND CBS_ASN1_CONSTRUCTED \<noteq> 0 then undef
      else if depth > kMaxDepth then fail
      else convert_ber_loop k d string_tag looking_for_eoc depth)"
| "convert_ber_loop 0 d string_tag looking_for_eoc depth = (\<lambda>s. (NoFuel, s))"
| "convert_ber_loop (Suc k) d string_tag looking_for_eoc depth = seq (reading (query cbs_len)) (\<lambda>n.
     if n = 0 then (if looking_for_eoc then fail else ret ())
     else seq (reading CBS_get_any_ber_asn1_element) (\<lambda>(contents, tag, header_len).
       seq (is_eoc header_len contents) (\<lambda>eoc.
       if eoc then (if looking_for_eoc then ret () else fail)
       else seq (building (out_for d string_tag tag)) (\<lambda>(out_contents, child_string_tag).
         seq (is_indefinite contents header_len) (\<lambda>indefinite.
         if indefinite then
           seq (cbs_convert_ber k out_contents child_string_tag True (depth + 1)) (\<lambda>_.
           seq (building (CBB_flush d)) (\<lambda>_. convert_ber_loop k d string_tag looking_for_eoc depth))
         else seq (reading (on_child contents (CBS_skip header_len))) (\<lambda>(_, contents).
           seq (if tag AND CBS_ASN1_CONSTRUCTED \<noteq> 0
                then with_contents contents (cbs_convert_ber k out_contents child_string_tag False (depth + 1))
                else seq (deref (cbs_data contents) (cbs_len contents)) (\<lambda>bs. building (CBB_add_bytes out_contents bs))) (\<lambda>_.
           seq (building (CBB_flush d)) (\<lambda>_. convert_ber_loop k d string_tag looking_for_eoc depth))))))))"

text \<open>
  The local \<open>cbb\<close> starts as \<open>env\<close>, which also says what memory there is.  The result is \<open>*out\<close> and
  \<open>*out_storage\<close>, where \<open>None\<close> is the null pointer.
\<close>

definition CBS_asn1_ber_to_der :: "CBB \<Rightarrow> (CBS \<times> byte list option, CBS) act" where
  "CBS_asn1_ber_to_der env = seq (query id) (\<lambda>orig.
     seq (on_child orig (cbs_find_ber (Suc (cbs_len orig)) 0)) (\<lambda>(conversion_needed, _).
     if \<not> conversion_needed then seq CBS_get_any_asn1_element (\<lambda>(out, _). ret (out, None))
     else (\<lambda>c. case seq (building (CBB_init (cbs_len c))) (\<lambda>_.
             seq (cbs_convert_ber (Suc (cbs_len c)) 0 0 False 0) (\<lambda>_.
             building (CBB_finish 0 True True))) (c, env) of
         (Ok (data, len), c', _) \<Rightarrow> (Ok (CBS_init (the data) (the len), data), c')
       | (Fail, c', s) \<Rightarrow> (case CBB_cleanup 0 s of (Ok _, _) \<Rightarrow> (Fail, c') | _ \<Rightarrow> (Ub, c'))
       | (Ub, c', _) \<Rightarrow> (Ub, c')
       | (NoFuel, c', _) \<Rightarrow> (NoFuel, c'))))"

section \<open>Implicitly tagged strings\<close>

fun implicit_chunks :: "nat \<Rightarrow> u32 \<Rightarrow> CBS \<Rightarrow> (unit, CBB) act" where
  "implicit_chunks k inner_tag child = (if cbs_len child = 0 then ret () else case k of
       0 \<Rightarrow> (\<lambda>s. (NoFuel, s))
     | Suc k \<Rightarrow> seq (on_cbs child (CBS_get_asn1 inner_tag)) (\<lambda>(chunk, child).
         seq (deref (cbs_data chunk) (cbs_len chunk)) (\<lambda>bs.
         seq (CBB_add_bytes 0 bs) (\<lambda>_. implicit_chunks k inner_tag child))))"

declare implicit_chunks.simps [simp del]

definition CBS_get_asn1_implicit_string :: "CBB \<Rightarrow> u32 \<Rightarrow> u32 \<Rightarrow> (CBS \<times> byte list option, CBS) act" where
  "CBS_get_asn1_implicit_string env outer_tag inner_tag =
     (if outer_tag AND CBS_ASN1_CONSTRUCTED \<noteq> 0 \<or> inner_tag AND CBS_ASN1_CONSTRUCTED \<noteq> 0 \<or> \<not> is_string_type inner_tag then undef
      else seq (CBS_peek_asn1_tag outer_tag) (\<lambda>present.
        if present then seq (CBS_get_asn1 outer_tag) (\<lambda>out. ret (out, None))
        else (\<lambda>c. case seq (building (CBB_init (cbs_len c))) (\<lambda>_.
               seq (reading (CBS_get_asn1 (outer_tag OR CBS_ASN1_CONSTRUCTED))) (\<lambda>child.
               seq (building (implicit_chunks (cbs_len child) inner_tag child)) (\<lambda>_.
               building (CBB_finish 0 True True)))) (c, env) of
            (Ok (data, len), c', _) \<Rightarrow> (Ok (CBS_init (the data) (the len), data), c')
          | (Fail, c', s) \<Rightarrow> (case CBB_cleanup 0 s of (Ok _, _) \<Rightarrow> (Fail, c') | _ \<Rightarrow> (Ub, c'))
          | (Ub, c', _) \<Rightarrow> (Ub, c')
          | (NoFuel, c', _) \<Rightarrow> (NoFuel, c'))))"

end
