(* ===== verification/Ber_Read.thy ===== *)
theory Ber_Read
  imports Ber Cbb_Set
begin

text \<open>
  The next element of an input in BER as cbs.c reads it, and what ber.c finds out about it from its header.
\<close>

section \<open>Elements in BER\<close>

lemma ber_reader:
  assumes "cbs_ok c"
  obtains (indefinite) t rest where "bytes_of c = der_tag t @ 0x80 # rest" "t AND CBS_ASN1_CONSTRUCTED \<noteq> 0"
      "CBS_get_any_ber_asn1_element c = (Ok (window 0 (Suc (length (der_tag t))) c, t, Suc (length (der_tag t))), after (Suc (length (der_tag t))) c)"
  | (definite) "CBS_get_any_ber_asn1_element c = CBS_get_any_asn1_element c"
      "\<nexists>t rest. bytes_of c = der_tag t @ 0x80 # rest \<and> t AND CBS_ASN1_CONSTRUCTED \<noteq> 0"
proof (cases "\<exists>t rest. bytes_of c = der_tag t @ 0x80 # rest \<and> t AND CBS_ASN1_CONSTRUCTED \<noteq> 0")
  case True
  then obtain t rest where bs: "bytes_of c = der_tag t @ 0x80 # rest" and t: "t AND CBS_ASN1_CONSTRUCTED \<noteq> 0" by blast
  let ?k = "length (der_tag t)"
  note at = bytes_of_append [OF assms bs]
  note u8 = CBS_get_u8_cons [OF at(4,2)]
  have hl: "cbs_len c - cbs_len (after 1 (after ?k c)) = Suc ?k" using u8(4) at(1) by (simp add: window_def)
  have fits: "\<not> cbs_len c < Suc ?k" using u8(4) at(1) by (simp add: window_def)
  have "CBS_get_any_ber_asn1_element c = (Ok (window 0 (Suc ?k) c, t, Suc ?k), after (Suc ?k) c)"
    unfolding CBS_get_any_ber_asn1_element_def cbs_get_any_asn1_element_def
      seq_on_copy(1) [where m = parse_asn1_tag, OF parse_asn1_tag_accepts [OF assms bs]] prod.case
      seq_on_child(1) [where m = CBS_get_u8, OF u8(1)] seq_basic hl
    using t fits by (simp add: Let_def seq_CBS_get_bytes [OF assms] act_run)
  then show thesis by (rule indefinite [OF bs t])
next
  case False
  have "CBS_get_any_ber_asn1_element c = CBS_get_any_asn1_element c"
  proof (rule in_order_cases [OF parse_asn1_tag_in_order [OF assms]])
    fix t d assume tag: "parse_asn1_tag c = (Ok t, d)" and d: "cbs_ok d"
    have reads: "bytes_of c = der_tag t @ bytes_of d" using tag.reads [OF assms tag] by simp
    show ?thesis
    proof (cases "bytes_of d")
      case Nil
      then have "CBS_get_u8 d = (Fail, d)" using CBS_get_u8_ok [OF d] length_bytes_of [OF d] by simp
      then show ?thesis
        unfolding CBS_get_any_ber_asn1_element_def CBS_get_any_asn1_element_def cbs_get_any_asn1_element_def
          seq_on_copy(1) [where m = parse_asn1_tag, OF tag] prod.case
        by (simp add: seq_on_child(2))
    next
      case (Cons b rest)
      have not: "\<not> (b = 0x80 \<and> t AND CBS_ASN1_CONSTRUCTED \<noteq> 0)" using False reads Cons by auto
      have "\<not> (b AND 0x80 \<noteq> 0 \<and> t AND CBS_ASN1_CONSTRUCTED \<noteq> 0 \<and> unat (b AND 0x7F) = 0)"
      proof
        assume a: "b AND 0x80 \<noteq> 0 \<and> t AND CBS_ASN1_CONSTRUCTED \<noteq> 0 \<and> unat (b AND 0x7F) = 0"
        then have "0x80 OR of_nat 0 = b" using long_form_of_byte [of b] by simp
        then show False using not a by simp
      qed
      then show ?thesis
        unfolding CBS_get_any_ber_asn1_element_def CBS_get_any_asn1_element_def cbs_get_any_asn1_element_def
          seq_on_copy(1) [where m = parse_asn1_tag, OF tag] prod.case
          seq_on_child(1) [where m = CBS_get_u8, OF CBS_get_u8_cons(1) [OF d Cons]] seq_basic Let_def
        by (cases "b AND 0x80 = 0") (auto simp: not)
    qed
  next
    fix d assume tag: "parse_asn1_tag c = (Fail, d)"
    show ?thesis
      unfolding CBS_get_any_ber_asn1_element_def CBS_get_any_asn1_element_def cbs_get_any_asn1_element_def
        seq_on_copy(2) [where m = parse_asn1_tag, OF tag] ..
  qed
  then show thesis using definite False by blast
qed

text \<open>The next element of a window: its header and its contents, or a header of indefinite length.\<close>

lemma ber_element_cases:
  assumes "cbs_ok c"
  obtains (stop) "CBS_get_any_ber_asn1_element c = (Fail, c)"
  | (element) t n h where "n < 2 ^ 32" "h + n \<le> cbs_len c" "h = length (der_tag t) + length (der_length n)"
      "take h (bytes_of c) = der_tag t @ der_length n"
      "CBS_get_any_ber_asn1_element c = (Ok (window 0 (h + n) c, t, h), after (h + n) c)"
  | (indefinite) t rest where "bytes_of c = der_tag t @ 0x80 # rest" "t AND CBS_ASN1_CONSTRUCTED \<noteq> 0"
      "CBS_get_any_ber_asn1_element c = (Ok (window 0 (Suc (length (der_tag t))) c, t, Suc (length (der_tag t))), after (Suc (length (der_tag t))) c)"
  using assms
proof (cases rule: ber_reader)
  case (indefinite t rest)
  then show thesis by (rule that(3))
next
  case definite
  show thesis using assms by (cases rule: element_cases) (use definite(1) that(1,2) in auto)
qed

lemma der_length_no_mark: "n < 2 ^ 32 \<Longrightarrow> der_length n \<noteq> 0x80 # rest"
proof
  assume n: "n < 2 ^ 32" and eq: "der_length n = 0x80 # rest"
  show False
  proof (cases "n < 128")
    case True
    then have "(of_nat n :: byte) = 0x80" using eq by (simp add: der_length_def)
    then have "unat (of_nat n :: byte) = 128" by simp
    then show False using True by (simp add: unat_of_nat)
  next
    case False
    note m = length_min_be_length [OF n False]
    have "unat ((0x80 OR of_nat (length (min_be n)) :: byte) AND 0x7F) = length (min_be n)" using m(1) by (intro long_form_byte) simp
    moreover have "(0x80 OR of_nat (length (min_be n)) :: byte) = 0x80" using eq False by (metis der_length_def list.inject)
    ultimately show False using m(2) by simp
  qed
qed

lemma ber_element_of_code:
  assumes "cbs_ok c" "bytes_of c = der_tag t @ der_length n @ rest" "n < 2 ^ 32"
  shows "CBS_get_any_ber_asn1_element c = element_outcome c t (length (der_tag t) + length (der_length n)) n"
  using assms(1)
proof (cases rule: ber_reader)
  case (indefinite u rest')
  have "der_tag t @ der_length n @ rest = der_tag u @ 0x80 # rest'" using assms(2) indefinite(1) by simp
  then have "der_length n @ rest = 0x80 # rest'" using tag.prefix_free by blast
  then show ?thesis using der_length_no_mark [OF assms(3)] by (cases "der_length n") (auto simp: der_length_def split: if_splits)
next
  case definite
  then show ?thesis using element_of_code [OF assms] by simp
qed

lemma ber_indefinite_of_code:
  assumes "cbs_ok c" "bytes_of c = der_tag t @ 0x80 # rest" "t AND CBS_ASN1_CONSTRUCTED \<noteq> 0"
  shows "CBS_get_any_ber_asn1_element c =
    (Ok (window 0 (Suc (length (der_tag t))) c, t, Suc (length (der_tag t))), after (Suc (length (der_tag t))) c)"
  using assms(1)
proof (cases rule: ber_reader)
  case (indefinite u rest')
  have "der_tag t @ 0x80 # rest = der_tag u @ 0x80 # rest'" using assms(2) indefinite(1) by simp
  then have "t = u" using tag.prefix_free by blast
  then show ?thesis using indefinite(3) by simp
next
  case definite
  then show ?thesis using assms(2,3) by blast
qed

text \<open>What the code finds out about an element from its header.\<close>

lemma memcmp_zeros: "OPENSSL_memcmp [a, b] [0, 0] = 0 \<longleftrightarrow> a = 0 \<and> b = 0"
  by (simp add: memcmp_simps)

lemma der_tag_nonempty: "der_tag t \<noteq> []"
  by (simp add: der_tag_def Let_def)

lemma der_tag_eoc: "der_tag t = [0] \<longleftrightarrow> t = 0"
proof -
  have zero: "der_tag 0 = [0]" by (simp add: der_tag_def tag_bits_def)
  show ?thesis
  proof
    assume "der_tag t = [0]"
    then have "der_tag t @ [] = der_tag 0 @ []" using zero by simp
    then show "t = 0" using tag.prefix_free by blast
  qed (use zero in simp)
qed

lemma der_length_0: "der_length n = 0 # bs \<longleftrightarrow> n = 0 \<and> bs = []" if "n < 2 ^ 32"
proof (cases "n < 128")
  case True
  then have "unat (of_nat n :: byte) = n" by (simp add: unat_of_nat)
  then have "(of_nat n :: byte) = 0 \<longleftrightarrow> n = 0" by (metis unat_eq_0)
  then show ?thesis using True by (auto simp: der_length_def)
next
  case False
  then have "(0x80 OR of_nat (length (min_be n)) :: byte) AND 0x80 \<noteq> 0"
    using length_min_be_length [OF that] by (intro long_form_byte) simp
  then have "(0x80 OR of_nat (length (min_be n)) :: byte) \<noteq> 0" by (metis and_zero_eq zero_and_eq)
  then show ?thesis using False by (simp add: der_length_def)
qed

lemma header_bytes:
  assumes "cbs_ok c" "h \<le> cbs_len c" "take h (bytes_of c) = hs"
  shows "take h (cbs_data c) = hs" "h \<le> length (cbs_data c)" "length hs = h"
  using assms by (auto simp: bytes_of_def cbs_ok_def min_absorb1)

lemma is_eoc_window:
  assumes "cbs_ok c" "m \<le> cbs_len c" "take h (bytes_of c) = hs" "h \<le> m"
  shows "is_eoc h (window 0 m c) = ret (m = 2 \<and> hs = [0, 0])"
proof (cases "h = 2 \<and> m = 2")
  case True
  note hd = header_bytes [OF assms(1) order_trans [OF assms(4,2)] assms(3)]
  obtain a b where hs: "hs = [a, b]" using hd(3) True by (metis One_nat_def Suc_1 length_0_conv length_Suc_conv)
  show ?thesis using True hd by (simp add: is_eoc_def window_def deref_def seq_basic hs memcmp_zeros)
next
  case False
  moreover have "length hs = h" by (rule header_bytes(3) [OF assms(1) order_trans [OF assms(4,2)] assms(3)])
  ultimately show ?thesis using assms(4) by (cases "hs = [0, 0]") (auto simp: is_eoc_def window_def)
qed

lemma is_indefinite_window:
  assumes "cbs_ok c" "m \<le> cbs_len c" "take h (bytes_of c) = hs @ [b]" "h \<le> m"
  shows "is_indefinite (window 0 m c) h = ret (m = h \<and> b = 0x80)"
proof (cases "m = h")
  case True
  note hd = header_bytes [OF assms(1) order_trans [OF assms(4,2)] assms(3)]
  have h: "h = Suc (length hs)" using hd(3) by simp
  have "cbs_data c ! (h - 1) = (hs @ [b]) ! (h - 1)" using hd(1) h by (metis diff_Suc_1 lessI nth_take)
  then have "cbs_data c ! length hs = b" using h by simp
  then show ?thesis using True hd(2) h by (simp add: is_indefinite_def window_def byte_at_def seq_basic)
qed (simp add: is_indefinite_def window_def)

lemma skip_child:
  assumes "cbs_ok c" "h + n \<le> cbs_len c"
  shows "seq (on_child (window 0 (h + n) c) (CBS_skip h)) f = f ((), window h n c)"
proof -
  have "cbs_ok (window 0 (h + n) c)" using sub_of_ok [OF assms(1) sub_of_window [of 0 "h + n" c]] assms(2) by simp
  then have "CBS_skip h (window 0 (h + n) c) = (Ok (), window h n c)" by (simp add: CBS_skip_ok window_def)
  then show ?thesis by (intro ext) (simp add: seq_def on_child_def)
qed

lemma header_last: "n < 2 ^ 32 \<Longrightarrow> \<exists>hs b. der_tag t @ der_length n = hs @ [b] \<and> (n = 0 \<longrightarrow> b = 0)"
  by (cases "der_length n" rule: rev_cases) (auto simp: der_length_def split: if_splits)

end
