(* ===== verification/Ber_Tree.thy ===== *)
theory Ber_Tree
  imports Ber_Read
begin

text \<open>
  BER as trees of values and groups, their code, and a reader of trees that goes through its input as
  \<open>cbs_convert_ber\<close> does and accepts exactly the codes.
\<close>

section \<open>Trees\<close>

text \<open>A group has its contents between its header and its end, or the two zero bytes that end an indefinite one.\<close>

datatype ber = Ber_Value u32 "byte list" | Ber_Group u32 bool "ber list"

abbreviation constructed :: "u32 \<Rightarrow> bool" where "constructed t \<equiv> t AND CBS_ASN1_CONSTRUCTED \<noteq> 0"

definition end_mark :: "bool \<Rightarrow> byte list" where
  "end_mark indefinite = (if indefinite then [0, 0] else [])"

fun ber_code :: "ber \<Rightarrow> byte list" and ber_codes :: "ber list \<Rightarrow> byte list" where
  "ber_code (Ber_Value t bs) = der_element (t, bs)"
| "ber_code (Ber_Group t indefinite xs) = (if indefinite then der_tag t @ [0x80] @ ber_codes xs @ end_mark True else der_element (t, ber_codes xs))"
| "ber_codes [] = []"
| "ber_codes (x # xs) = ber_code x @ ber_codes xs"

text \<open>
  The trees the reader can meet: the tag says whether a tree is a group, no value looks like the end of
  an indefinite group, contents of a definite length have at most \<open>0xffffffff\<close> bytes, and at most \<open>m\<close>
  groups are nested.
\<close>

fun ber_fits :: "nat \<Rightarrow> ber \<Rightarrow> bool" and bers_fit :: "nat \<Rightarrow> ber list \<Rightarrow> bool" where
  "ber_fits m (Ber_Value t bs) \<longleftrightarrow> \<not> constructed t \<and> length bs < 2 ^ 32 \<and> \<not> (t = 0 \<and> bs = [])"
| "ber_fits m (Ber_Group t indefinite xs) \<longleftrightarrow> constructed t \<and> m > 0 \<and> bers_fit (m - 1) xs \<and> (indefinite \<or> length (ber_codes xs) < 2 ^ 32)"
| "bers_fit m [] \<longleftrightarrow> True"
| "bers_fit m (x # xs) \<longleftrightarrow> ber_fits m x \<and> bers_fit m xs"

fun read_ber :: "nat \<Rightarrow> nat \<Rightarrow> bool \<Rightarrow> (ber list, CBS) act" where
  "read_ber 0 m looking = (\<lambda>c. (NoFuel, c))"
| "read_ber (Suc k) m looking = seq (query cbs_len) (\<lambda>n.
     if n = 0 then (if looking then fail else ret [])
     else seq CBS_get_any_ber_asn1_element (\<lambda>(contents, tag, header_len).
       seq (is_eoc header_len contents) (\<lambda>eoc.
       if eoc then (if looking then ret [] else fail)
       else seq (is_indefinite contents header_len) (\<lambda>indefinite.
         if indefinite then
           if m = 0 then fail
           else seq (read_ber k (m - 1) True) (\<lambda>xs. seq (read_ber k m looking) (\<lambda>ys. ret (Ber_Group tag True xs # ys)))
         else seq (on_child contents (CBS_skip header_len)) (\<lambda>(_, contents).
           if constructed tag then
             if m = 0 then fail
             else seq (on_child contents (read_ber k (m - 1) False)) (\<lambda>(xs, _). seq (read_ber k m looking) (\<lambda>ys. ret (Ber_Group tag False xs # ys)))
           else seq (read_ber k m looking) (\<lambda>ys. ret (Ber_Value tag (bytes_of contents) # ys)))))))"

declare read_ber.simps [simp del]

text \<open>One round of the reader.\<close>

lemma read_ber_end: "cbs_len c = 0 \<Longrightarrow> read_ber (Suc k) m looking c = (if looking then (Fail, c) else (Ok [], c))"
  by (simp add: read_ber.simps(2) seq_basic act_run)

lemma read_ber_stop:
  assumes "cbs_len c \<noteq> 0" "CBS_get_any_ber_asn1_element c = (Fail, c)"
  shows "read_ber (Suc k) m looking c = (Fail, c)"
  using assms by (simp add: read_ber.simps(2) seq_basic seq_run(2))

lemma element_facts:
  assumes "cbs_ok c" "n < 2 ^ 32" "h + n \<le> cbs_len c" "h = length (der_tag t) + length (der_length n)"
    "take h (bytes_of c) = der_tag t @ der_length n"
  shows "is_eoc h (window 0 (h + n) c) = ret (t = 0 \<and> n = 0)" "is_indefinite (window 0 (h + n) c) h = ret False"
    "seq (on_child (window 0 (h + n) c) (CBS_skip h)) f = f ((), window h n c)"
proof -
  have "h \<le> h + n" by simp
  note window = assms(1,3,5) this
  have "h + n = 2 \<and> der_tag t @ der_length n = [0, 0] \<longleftrightarrow> t = 0 \<and> n = 0"
  proof
    assume a: "h + n = 2 \<and> der_tag t @ der_length n = [0, 0]"
    moreover have "length (der_length n) \<noteq> 0" "length (der_tag t) \<noteq> 0" using der_tag_nonempty by (simp_all add: der_length_def)
    ultimately have "length (der_tag t) = 1" "n = 0" using assms(4) by linarith+
    then obtain b where "der_tag t = [b]" by (cases "der_tag t") auto
    then show "t = 0 \<and> n = 0" using a \<open>n = 0\<close> der_tag_eoc [of t] by simp
  next
    assume "t = 0 \<and> n = 0"
    moreover have "der_tag 0 = [0]" "der_length 0 = [0]" using der_tag_eoc [of 0] by (simp_all add: der_length_def)
    ultimately show "h + n = 2 \<and> der_tag t @ der_length n = [0, 0]" using assms(4) by simp
  qed
  then show "is_eoc h (window 0 (h + n) c) = ret (t = 0 \<and> n = 0)"
    by (simp only: is_eoc_window [OF window])
  obtain hs b where hs: "der_tag t @ der_length n = hs @ [b]" "n = 0 \<longrightarrow> b = 0" using header_last [OF assms(2)] by blast
  have "is_indefinite (window 0 (h + n) c) h = ret (h + n = h \<and> b = 0x80)"
    by (rule is_indefinite_window [OF assms(1,3) assms(5) [unfolded hs(1)]]) simp
  then show "is_indefinite (window 0 (h + n) c) h = ret False" using hs(2) by (cases "n = 0") simp_all
  show "seq (on_child (window 0 (h + n) c) (CBS_skip h)) f = f ((), window h n c)" by (rule skip_child [OF assms(1,3)])
qed

lemma indefinite_facts:
  assumes "cbs_ok c" "bytes_of c = der_tag t @ 0x80 # rest" "h = Suc (length (der_tag t))"
  shows "is_eoc h (window 0 h c) = ret False" "is_indefinite (window 0 h c) h = ret True"
    "cbs_ok (after h c)" "bytes_of (after h c) = rest" "h \<le> cbs_len c"
proof -
  have bs: "bytes_of c = (der_tag t @ [0x80]) @ rest" using assms(2) by simp
  note at = bytes_of_append [OF assms(1) bs]
  show le: "h \<le> cbs_len c" and "cbs_ok (after h c)" and "bytes_of (after h c) = rest"
    using at by (simp_all add: assms(3))
  have "take h (bytes_of c) = der_tag t @ [0x80]" by (simp add: bs assms(3))
  note window = assms(1) le this order_refl
  show "is_eoc h (window 0 h c) = ret False" "is_indefinite (window 0 h c) h = ret True"
    unfolding is_eoc_window [OF window] is_indefinite_window [OF window] by simp_all
qed

text \<open>The rounds, in terms of what the header says.\<close>

definition one_tree :: "ber \<Rightarrow> (ber list, CBS) act \<Rightarrow> (ber list, CBS) act" where
  "one_tree x m = seq m (\<lambda>ys. ret (x # ys))"

lemma read_ber_element:
  assumes "cbs_ok c" "n < 2 ^ 32" "h + n \<le> cbs_len c" "h = length (der_tag t) + length (der_length n)"
    "take h (bytes_of c) = der_tag t @ der_length n"
    "CBS_get_any_ber_asn1_element c = (Ok (window 0 (h + n) c, t, h), after (h + n) c)"
  shows "read_ber (Suc k) m looking c =
    (if t = 0 \<and> n = 0 then ((if looking then Ok [] else Fail), after (h + n) c)
     else if \<not> constructed t then one_tree (Ber_Value t (bytes_of (window h n c))) (read_ber k m looking) (after (h + n) c)
     else if m = 0 then (Fail, after (h + n) c)
     else seq (on_child (window h n c) (read_ber k (m - 1) False)) (\<lambda>(xs, _). one_tree (Ber_Group t False xs) (read_ber k m looking)) (after (h + n) c))"
proof -
  note facts = element_facts [OF assms(1-5)]
  have "length (der_tag t) > 0" using der_tag_nonempty by simp
  then have "cbs_len c \<noteq> 0" using assms(3,4) by linarith
  then show ?thesis
    unfolding read_ber.simps(2) seq_basic one_tree_def
    by (simp add: seq_run(1) [where m = CBS_get_any_ber_asn1_element, OF assms(6)] facts(1,2) seq_basic facts(3) act_run)
qed

lemma read_ber_indefinite:
  assumes "cbs_ok c" "bytes_of c = der_tag t @ 0x80 # rest" "constructed t"
    "CBS_get_any_ber_asn1_element c = (Ok (window 0 (Suc (length (der_tag t))) c, t, Suc (length (der_tag t))), after (Suc (length (der_tag t))) c)"
  shows "read_ber (Suc k) m looking c =
    (if m = 0 then (Fail, after (Suc (length (der_tag t))) c)
     else seq (read_ber k (m - 1) True) (\<lambda>xs. one_tree (Ber_Group t True xs) (read_ber k m looking)) (after (Suc (length (der_tag t))) c))"
proof -
  note facts = indefinite_facts [OF assms(1,2) refl]
  have "cbs_len c \<noteq> 0" using facts(5) by auto
  then show ?thesis
    unfolding read_ber.simps(2) seq_basic one_tree_def
    by (simp add: seq_run(1) [where m = CBS_get_any_ber_asn1_element, OF assms(4)] facts(1,2) seq_basic act_run)
qed

section \<open>The reader accepts exactly the codes\<close>

definition parsed :: "bool \<Rightarrow> nat \<Rightarrow> CBS \<Rightarrow> ber list \<Rightarrow> CBS \<Rightarrow> bool" where
  "parsed looking m c xs c' \<longleftrightarrow> bers_fit m xs \<and> bytes_of c = ber_codes xs @ end_mark looking @ bytes_of c' \<and>
     c' = after (length (ber_codes xs @ end_mark looking)) c \<and> (\<not> looking \<longrightarrow> cbs_len c' = 0)"

lemma one_tree_in_order:
  assumes c: "cbs_ok c" and x: "bytes_of c = ber_code x @ bytes_of (after j c)" "j \<le> cbs_len c" "ber_fits m x"
    and rest: "in_order (after j c) (parsed looking m (after j c)) (m' (after j c))"
  shows "in_order c (parsed looking m c) (one_tree x m' (after j c))"
proof -
  have d: "cbs_ok (after j c)" "sub_of (after j c) c" using after_facts [OF c x(2)] by simp_all
  have "length (bytes_of c) = length (ber_code x) + length (bytes_of (after j c))" using arg_cong [OF x(1), of length] by simp
  then have j: "length (ber_code x) = j" using c d(1) x(2) by (simp add: window_def)
  have rest': "in_order c (parsed looking m (after j c)) (m' (after j c))"
    by (rule in_order_mono [OF rest d(2)])
  show ?thesis
    unfolding one_tree_def
  proof (rule in_order_seq, rule rest')
    fix ys e assume ys: "parsed looking m (after j c) ys e" and e: "cbs_ok e" "sub_of e c"
    then have "parsed looking m c (x # ys) e" using x(1,3) j by (cases looking) (auto simp: parsed_def after_after add.assoc)
    then show "in_order c (parsed looking m c) (ret (x # ys) e)" by (rule in_order_basic(1) [OF e])
  qed
qed

lemma failed_after: "cbs_ok c \<Longrightarrow> j \<le> cbs_len c \<Longrightarrow> in_order c Q (Fail, after j c)"
  using after_facts [of c j] by (simp add: in_order_def)

text \<open>The rounds are in order when the recursive calls are.\<close>

definition reads_trees :: "nat \<Rightarrow> bool" where
  "reads_trees k \<longleftrightarrow> (\<forall>m looking c. cbs_ok c \<longrightarrow> cbs_len c < k \<longrightarrow> in_order c (parsed looking m c) (read_ber k m looking c))"

lemma reads_treesD: "reads_trees k \<Longrightarrow> cbs_ok c \<Longrightarrow> cbs_len c < k \<Longrightarrow> in_order c (parsed looking m c) (read_ber k m looking c)"
  by (simp add: reads_trees_def)

lemma after_shorter: "cbs_ok c \<Longrightarrow> cbs_len c < Suc k \<Longrightarrow> 0 < j \<Longrightarrow> j \<le> cbs_len c \<Longrightarrow> cbs_ok (after j c) \<and> cbs_len (after j c) < k"
  using after_facts [of c j] by (auto simp: window_def)

lemma element_contents:
  assumes "cbs_ok c" "h + n \<le> cbs_len c" "take h (bytes_of c) = der_tag t @ der_length n"
  shows "bytes_of c = der_tag t @ der_length n @ bytes_of (window h n c) @ bytes_of (after (h + n) c)"
    "length (bytes_of (window h n c)) = n"
proof -
  have "bytes_of c = take h (bytes_of c) @ take n (drop h (bytes_of c)) @ drop (h + n) (bytes_of c)" by (metis add.commute append_take_drop_id drop_drop)
  then have "bytes_of c = (der_tag t @ der_length n) @ bytes_of (window h n c) @ bytes_of (after (h + n) c)"
    unfolding assms(3) bytes_of_window [OF assms(2)] bytes_of_after [OF assms(2)] .
  then show "bytes_of c = der_tag t @ der_length n @ bytes_of (window h n c) @ bytes_of (after (h + n) c)" by simp
  show "length (bytes_of (window h n c)) = n" using assms(1,2) by (simp add: bytes_of_window)
qed

lemma value_in_order:
  assumes "reads_trees k" "cbs_ok c" "cbs_len c < Suc k"
    and element: "n < 2 ^ 32" "h + n \<le> cbs_len c" "h = length (der_tag t) + length (der_length n)" "take h (bytes_of c) = der_tag t @ der_length n"
    and t: "\<not> constructed t" "\<not> (t = 0 \<and> n = 0)"
  shows "in_order c (parsed looking m c) (one_tree (Ber_Value t (bytes_of (window h n c))) (read_ber k m looking) (after (h + n) c))"
proof (rule one_tree_in_order [OF assms(2)])
  note contents = element_contents [OF assms(2) element(2,4)]
  show "bytes_of c = ber_code (Ber_Value t (bytes_of (window h n c))) @ bytes_of (after (h + n) c)"
    using contents by (simp add: der_element_def)
  show "ber_fits m (Ber_Value t (bytes_of (window h n c)))" using t contents(2) element(1) by auto
  have "0 < h + n" using element(3) der_tag_nonempty [of t] by simp
  then show "in_order (after (h + n) c) (parsed looking m (after (h + n) c)) (read_ber k m looking (after (h + n) c))"
    using reads_treesD [OF assms(1)] after_shorter [OF assms(2,3) _ element(2)] by blast
qed (rule element(2))

lemma group_in_order:
  assumes "reads_trees k" "cbs_ok c" "cbs_len c < Suc k"
    and element: "n < 2 ^ 32" "h + n \<le> cbs_len c" "h = length (der_tag t) + length (der_length n)" "take h (bytes_of c) = der_tag t @ der_length n"
    and t: "constructed t" "m \<noteq> 0"
  shows "in_order c (parsed looking m c)
    (seq (on_child (window h n c) (read_ber k (m - 1) False)) (\<lambda>(xs, _). one_tree (Ber_Group t False xs) (read_ber k m looking)) (after (h + n) c))"
proof -
  note contents = element_contents [OF assms(2) element(2,4)]
  have pos: "0 < h" using element(3) der_tag_nonempty [of t] by simp
  have child: "cbs_ok (window h n c)" "cbs_len (window h n c) < k"
    using child_of_window [OF assms(2) element(2)] assms(3) element(2) pos by (auto simp: child_of_def window_def)
  show ?thesis
    using reads_treesD [OF assms(1) child, of False "m - 1"]
  proof (cases rule: in_orderE)
    case (Ok xs e)
    have "cbs_len e = 0" using Ok(2) unfolding parsed_def by blast
    then have "bytes_of e = []" by (simp add: bytes_of_def)
    then have xs: "bytes_of (window h n c) = ber_codes xs" "bers_fit (m - 1) xs"
      using Ok(2) unfolding parsed_def by (auto simp: end_mark_def)
    have "in_order c (parsed looking m c) (one_tree (Ber_Group t False xs) (read_ber k m looking) (after (h + n) c))"
    proof (rule one_tree_in_order [OF assms(2)])
      show "bytes_of c = ber_code (Ber_Group t False xs) @ bytes_of (after (h + n) c)"
        using contents xs(1) by (simp add: der_element_def)
      show "ber_fits m (Ber_Group t False xs)" using t contents(2) element(1) xs by simp
      show "in_order (after (h + n) c) (parsed looking m (after (h + n) c)) (read_ber k m looking (after (h + n) c))"
        using reads_treesD [OF assms(1)] after_shorter [OF assms(2,3) _ element(2)] pos by simp
    qed (rule element(2))
    then show ?thesis unfolding seq_on_child(1) [where m = "read_ber k (m - 1) False", OF Ok(1)] prod.case .
  next
    case (Fail e)
    then show ?thesis using failed_after [OF assms(2) element(2)] by (simp add: seq_on_child(2))
  qed
qed

lemma indefinite_in_order:
  assumes "reads_trees k" "cbs_ok c" "cbs_len c < Suc k"
    and bs: "bytes_of c = der_tag t @ 0x80 # rest" and t: "constructed t" "m \<noteq> 0" and h: "h = Suc (length (der_tag t))"
  shows "in_order c (parsed looking m c)
    (seq (read_ber k (m - 1) True) (\<lambda>xs. one_tree (Ber_Group t True xs) (read_ber k m looking)) (after h c))"
proof (rule in_order_seq)
  note facts = indefinite_facts [OF assms(2) bs h]
  have short: "cbs_ok (after h c)" "cbs_len (after h c) < k" using after_shorter [OF assms(2,3) _ facts(5)] h by simp_all
  have sub: "sub_of (after h c) c" using after_facts [OF assms(2) facts(5)] by simp
  show "in_order c (parsed True (m - 1) (after h c)) (read_ber k (m - 1) True (after h c))"
    by (rule in_order_mono [OF reads_treesD [OF assms(1) short] sub])
  fix xs e assume xs: "parsed True (m - 1) (after h c) xs e" and e: "sub_of e c" "cbs_ok e"
  let ?j = "h + length (ber_codes xs @ end_mark True)"
  have e_at: "e = after ?j c" using xs by (simp add: parsed_def after_after)
  have "bytes_of c = ber_code (Ber_Group t True xs) @ bytes_of e"
    using xs bs facts(4) by (simp add: parsed_def)
  note bs' = this [unfolded e_at]
  have "length (bytes_of c) = ?j + length (bytes_of (after ?j c))" using arg_cong [OF bs', of length] h by simp
  then have j: "?j \<le> cbs_len c" using assms(2) by simp
  have rest: "in_order (after ?j c) (parsed looking m (after ?j c)) (read_ber k m looking (after ?j c))"
    using reads_treesD [OF assms(1)] after_shorter [OF assms(2,3) _ j] h by simp
  show "in_order c (parsed looking m c) (one_tree (Ber_Group t True xs) (read_ber k m looking) e)"
    unfolding e_at by (rule one_tree_in_order [where m' = "read_ber k m looking", OF assms(2) bs' j _ rest]) (use xs t in \<open>auto simp: parsed_def\<close>)
qed

lemma read_ber_round: "reads_trees k \<Longrightarrow> reads_trees (Suc k)"
  unfolding reads_trees_def [of "Suc k"]
proof (intro allI impI)
  fix m looking c
  assume k: "reads_trees k" and c: "cbs_ok c" "cbs_len c < Suc k"
  show "in_order c (parsed looking m c) (read_ber (Suc k) m looking c)"
  proof (cases "cbs_len c = 0")
    case True
    have "bytes_of c = []" using True length_bytes_of [OF c(1)] by simp
    moreover have "window 0 0 c = c" using True by (simp add: window_def)
    ultimately show ?thesis using True c(1)
      by (cases looking) (auto simp: read_ber_end in_order_def parsed_def end_mark_def)
  next
    case False
    show ?thesis
      using c(1)
    proof (cases rule: ber_element_cases)
      case stop
      then show ?thesis using False c(1) by (simp add: read_ber_stop in_order_def)
    next
      case (element t n h)
      have eoc: "parsed True m c [] (after (h + n) c)" if "t = 0" "n = 0"
      proof -
        have "h = 2" "der_tag 0 = [0]" "der_length 0 = [0]" using element(3) that der_tag_eoc [of 0] by (simp_all add: der_length_def)
        then show ?thesis
          using that element_contents [OF c(1) element(2,4)] by (simp add: parsed_def end_mark_def numeral_2_eq_2)
      qed
      note run = read_ber_element [OF c(1) element, of k m looking]
      show ?thesis
      proof (cases "t = 0 \<and> n = 0")
        case True
        then show ?thesis
          unfolding run if_P [OF True] using eoc after_facts [OF c(1) element(2)] by (cases looking) (auto simp: in_order_def)
      next
        case not_eoc: False
        show ?thesis
          unfolding run if_not_P [OF not_eoc]
          using value_in_order [OF k c element(1-4) _ not_eoc] group_in_order [OF k c element(1-4)] failed_after [OF c(1) element(2)]
          by (cases "constructed t"; cases "m = 0") simp_all
      qed
    next
      case (indefinite t rest)
      show ?thesis
        unfolding read_ber_indefinite [OF c(1) indefinite]
        using indefinite_in_order [OF k c indefinite(1,2) _ refl]
          failed_after [where Q = "parsed looking m c", OF c(1) indefinite_facts(5) [OF c(1) indefinite(1) refl]]
        by (cases "m = 0") simp_all
    qed
  qed
qed

lemma read_ber_in_order: "cbs_ok c \<Longrightarrow> cbs_len c < k \<Longrightarrow> in_order c (parsed looking m c) (read_ber k m looking c)"
proof -
  have "reads_trees k" for k
    by (induction k) (simp add: reads_trees_def, rule read_ber_round)
  then show "cbs_ok c \<Longrightarrow> cbs_len c < k \<Longrightarrow> in_order c (parsed looking m c) (read_ber k m looking c)" by (rule reads_treesD)
qed

text \<open>An element in front of a window.\<close>

lemma element_at:
  assumes c: "cbs_ok c" and bs: "bytes_of c = der_element (t, bs) @ rest" "length bs < 2 ^ 32"
    and h: "h = length (der_tag t) + length (der_length (length bs))"
  shows "h + length bs \<le> cbs_len c" "take h (bytes_of c) = der_tag t @ der_length (length bs)"
    "CBS_get_any_ber_asn1_element c = (Ok (window 0 (h + length bs) c, t, h), after (h + length bs) c)"
    "bytes_of (window h (length bs) c) = bs" "bytes_of (after (h + length bs) c) = rest"
    "cbs_ok (window h (length bs) c)" "cbs_ok (after (h + length bs) c)" "length (der_element (t, bs)) = h + length bs" "0 < h"
proof -
  have len: "length (der_element (t, bs)) = h + length bs" by (simp add: der_element_def h)
  note at = bytes_of_append [OF c bs(1), unfolded len]
  have code: "bytes_of c = der_tag t @ der_length (length bs) @ bs @ rest" using bs(1) by (simp add: der_element_def)
  show "h + length bs \<le> cbs_len c" "bytes_of (after (h + length bs) c) = rest" "cbs_ok (after (h + length bs) c)"
    "length (der_element (t, bs)) = h + length bs"
    using at len by simp_all
  show "take h (bytes_of c) = der_tag t @ der_length (length bs)" by (simp add: code h)
  show "CBS_get_any_ber_asn1_element c = (Ok (window 0 (h + length bs) c, t, h), after (h + length bs) c)"
    using ber_element_of_code [OF c code bs(2)] at(1) by (simp add: element_outcome_def h)
  show "bytes_of (window h (length bs) c) = bs" using at(1) by (simp add: bytes_of_window code h)
  show "cbs_ok (window h (length bs) c)" using child_of_window [OF c at(1)] by (simp add: child_of_def)
  show "0 < h" using der_tag_nonempty by (simp add: h)
qed

definition accepts_trees :: "nat \<Rightarrow> bool" where
  "accepts_trees k \<longleftrightarrow> (\<forall>m looking c xs rest. cbs_ok c \<longrightarrow> bers_fit m xs \<longrightarrow>
     bytes_of c = ber_codes xs @ end_mark looking @ rest \<longrightarrow> (\<not> looking \<longrightarrow> rest = []) \<longrightarrow> cbs_len c < k \<longrightarrow>
     read_ber k m looking c = (Ok xs, after (length (ber_codes xs @ end_mark looking)) c))"

lemma accepts_treesD:
  "accepts_trees k \<Longrightarrow> cbs_ok c \<Longrightarrow> bers_fit m xs \<Longrightarrow> bytes_of c = ber_codes xs @ end_mark looking @ rest \<Longrightarrow>
     (\<not> looking \<Longrightarrow> rest = []) \<Longrightarrow> cbs_len c < k \<Longrightarrow>
     read_ber k m looking c = (Ok xs, after (length (ber_codes xs @ end_mark looking)) c)"
  unfolding accepts_trees_def by blast

lemma tail_accepted:
  assumes "accepts_trees k" "cbs_ok c" "cbs_len c < Suc k" "bers_fit m (x # xs)"
    and bs: "bytes_of c = ber_codes (x # xs) @ end_mark looking @ rest" "\<not> looking \<Longrightarrow> rest = []"
    and j: "j = length (ber_code x)" "0 < j"
  shows "one_tree x (read_ber k m looking) (after j c) = (Ok (x # xs), after (length (ber_codes (x # xs) @ end_mark looking)) c)"
proof -
  have code: "bytes_of c = ber_code x @ ber_codes xs @ end_mark looking @ rest" using bs(1) by simp
  note at = bytes_of_append [OF assms(2) code, folded j(1)]
  have "cbs_len (after j c) < k" using after_shorter [OF assms(2,3) j(2) at(1)] by simp
  then have "read_ber k m looking (after j c) = (Ok xs, after (length (ber_codes xs @ end_mark looking)) (after j c))"
    using accepts_treesD [OF assms(1) at(4) _ at(2) bs(2)] assms(4) by simp
  then show ?thesis using j(1) by (simp add: one_tree_def seq_run(1) act_run after_after add.assoc)
qed

lemma end_accepted:
  assumes "cbs_ok c" "bytes_of c = end_mark looking @ rest" "\<not> looking \<Longrightarrow> rest = []"
  shows "read_ber (Suc k) m looking c = (Ok [], after (length (end_mark looking)) c)"
proof (cases looking)
  case True
  have zero: "der_element (0, []) = [0, 0]" using der_tag_eoc [of 0] by (simp add: der_element_def der_length_def)
  have "bytes_of c = der_element (0, []) @ rest" using assms(2) by (simp add: True end_mark_def zero)
  note at = element_at [OF assms(1) this _ refl]
  have "length (der_tag 0) + length (der_length (length [])) = 2" using arg_cong [OF zero, of length] by (simp add: der_element_def)
  then show ?thesis
    using read_ber_element [OF assms(1) _ _ refl, of 0 0 k m looking] at by (simp add: True end_mark_def numeral_2_eq_2)
next
  case False
  then have "cbs_len c = 0" using assms length_bytes_of [OF assms(1)] by (simp add: end_mark_def)
  moreover have "window 0 (cbs_len c) c = c" by (simp add: window_def)
  ultimately show ?thesis using False by (simp add: read_ber_end end_mark_def)
qed

lemma group_accepted:
  assumes k: "accepts_trees k" and c: "cbs_ok c" "cbs_len c < Suc k"
    and xs: "bers_fit m (Ber_Group t indefinite zs # xs)"
    and bs: "bytes_of c = ber_codes (Ber_Group t indefinite zs # xs) @ end_mark looking @ rest" "\<not> looking \<Longrightarrow> rest = []"
  shows "read_ber (Suc k) m looking c = (Ok (Ber_Group t indefinite zs # xs),
    after (length (ber_codes (Ber_Group t indefinite zs # xs) @ end_mark looking)) c)"
proof (cases indefinite)
  case True
  let ?h = "Suc (length (der_tag t))"
  have code: "bytes_of c = der_tag t @ 0x80 # (ber_codes zs @ end_mark True @ ber_codes xs @ end_mark looking @ rest)"
    and t: "constructed t" "m > 0" "bers_fit (m - 1) zs"
    using xs bs(1) True by simp_all
  note facts = indefinite_facts [OF c(1) code refl]
  have "cbs_len (after ?h c) < k" using facts(5) c(2) by (simp add: window_def)
  then have "read_ber k (m - 1) True (after ?h c) = (Ok zs, after (length (ber_codes zs @ end_mark True)) (after ?h c))"
    using accepts_treesD [OF k facts(3) t(3) facts(4)] by simp
  moreover have "length (ber_code (Ber_Group t True zs)) = ?h + length (ber_codes zs @ end_mark True)" by simp
  ultimately show ?thesis
    using read_ber_indefinite [OF c(1) code t(1) ber_indefinite_of_code [OF c(1) code t(1)], of k m looking] t(2)
      tail_accepted [OF k c xs bs] by (simp add: seq_run(1) after_after True)
next
  case False
  have code: "bytes_of c = der_element (t, ber_codes zs) @ (ber_codes xs @ end_mark looking @ rest)" "length (ber_codes zs) < 2 ^ 32"
    and t: "constructed t" "m > 0" "bers_fit (m - 1) zs"
    using xs bs(1) False by simp_all
  note at = element_at [OF c(1) code refl]
  let ?h = "length (der_tag t) + length (der_length (length (ber_codes zs)))"
  let ?child = "window ?h (length (ber_codes zs)) c"
  have "cbs_len ?child < k" using at(1,9) c(2) unfolding cbs_len_window by linarith
  then have "read_ber k (m - 1) False ?child = (Ok zs, after (length (ber_codes zs @ end_mark False)) ?child)"
    using accepts_treesD [OF k at(6) t(3), of False "[]"] at(4) by (simp add: end_mark_def)
  moreover have "\<not> (t = 0 \<and> length (ber_codes zs) = 0)" using t(1) by auto
  ultimately show ?thesis
    using read_ber_element [OF c(1) code(2) at(1) refl at(2,3), of k m looking] t(1,2) tail_accepted [OF k c xs bs] at(8,9)
    by (simp add: seq_on_child(1) False)
qed

lemma accepts_round: "accepts_trees k \<Longrightarrow> accepts_trees (Suc k)"
  unfolding accepts_trees_def [of "Suc k"]
proof (intro allI impI)
  fix m looking c xs rest
  assume k: "accepts_trees k" and c: "cbs_ok c" "cbs_len c < Suc k" and xs: "bers_fit m xs"
    and bs: "bytes_of c = ber_codes xs @ end_mark looking @ rest" and rest: "\<not> looking \<longrightarrow> rest = []"
  then have r: "\<not> looking \<Longrightarrow> rest = []" by simp
  show "read_ber (Suc k) m looking c = (Ok xs, after (length (ber_codes xs @ end_mark looking)) c)"
  proof (cases xs)
    case Nil
    then show ?thesis using end_accepted [OF c(1) _ r] bs by simp
  next
    case (Cons x ys)
    show ?thesis
    proof (cases x)
      case (Ber_Value t bs')
      have code: "bytes_of c = der_element (t, bs') @ (ber_codes ys @ end_mark looking @ rest)" "length bs' < 2 ^ 32"
        and t: "\<not> constructed t" "\<not> (t = 0 \<and> bs' = [])"
        using xs bs Cons Ber_Value by simp_all
      note at = element_at [OF c(1) code refl]
      show ?thesis
        using read_ber_element [OF c(1) code(2) at(1) refl at(2,3), of k m looking] t
          tail_accepted [OF k c xs [unfolded Cons] bs [unfolded Cons] r] at(4,8,9)
        by (simp add: Ber_Value Cons)
    next
      case (Ber_Group t indefinite zs)
      show ?thesis using group_accepted [OF k c, of m t indefinite zs ys] xs bs r unfolding Cons Ber_Group by blast
    qed
  qed
qed

lemma read_ber_accepts:
  assumes "cbs_ok c" "bers_fit m xs" "bytes_of c = ber_codes xs @ end_mark looking @ rest" "\<not> looking \<Longrightarrow> rest = []" "cbs_len c < k"
  shows "read_ber k m looking c = (Ok xs, after (length (ber_codes xs @ end_mark looking)) c)"
proof -
  have "accepts_trees k" by (induction k) (simp add: accepts_trees_def, rule accepts_round)
  then show ?thesis using assms by (rule accepts_treesD)
qed

end
