(* ===== verification/Ber_Convert.thy ===== *)
theory Ber_Convert
  imports Ber_Tree
begin

text \<open>
  \<open>cbs_convert_ber\<close> builds the DER form of the trees it reads: a refinement of reading the trees first and
  adding the code of their DER form to the builder then.
\<close>

section \<open>The DER form of a tree\<close>

abbreviation primitive :: "u32 \<Rightarrow> u32" where "primitive t \<equiv> t AND NOT CBS_ASN1_CONSTRUCTED"

text \<open>The contents of a constructed string are those of its pieces, which all have its tag.\<close>

fun piece_bytes :: "u32 \<Rightarrow> ber \<Rightarrow> byte list option" and pieces_bytes :: "u32 \<Rightarrow> ber list \<Rightarrow> byte list option" where
  "piece_bytes st (Ber_Value t bs) = (if primitive t = st then Some bs else None)"
| "piece_bytes st (Ber_Group t indefinite xs) = (if primitive t = st then pieces_bytes st xs else None)"
| "pieces_bytes st [] = Some []"
| "pieces_bytes st (x # xs) = Option.bind (piece_bytes st x) (\<lambda>as. map_option (\<lambda>bs. as @ bs) (pieces_bytes st xs))"

definition short_enough :: "ber \<Rightarrow> byte list \<Rightarrow> ber option" where
  "short_enough x bs = (if length bs \<le> 0xfffffffe then Some x else None)"

fun der_form :: "ber \<Rightarrow> ber option" and der_forms :: "ber list \<Rightarrow> ber list option" where
  "der_form (Ber_Value t bs) = short_enough (Ber_Value t bs) bs"
| "der_form (Ber_Group t indefinite xs) =
     (if is_string_type t then Option.bind (pieces_bytes (primitive t) xs) (\<lambda>bs. short_enough (Ber_Value (primitive t) bs) bs)
      else Option.bind (der_forms xs) (\<lambda>ys. short_enough (Ber_Group t False ys) (ber_codes ys)))"
| "der_forms [] = Some []"
| "der_forms (x # xs) = Option.bind (der_form x) (\<lambda>y. map_option (\<lambda>ys. y # ys) (der_forms xs))"

section \<open>Steps on a builder\<close>

text \<open>
  What a step adds to the last string of a builder, and its result; without a value it fails.
\<close>

definition yields :: "nat \<Rightarrow> ('a, CBB) act \<Rightarrow> ('a \<times> byte list) option \<Rightarrow> bool" where
  "yields d m r \<longleftrightarrow> (\<forall>fs s. length fs = Suc d \<longrightarrow> builds fs s \<longrightarrow> (case m s of
      (Ok x, t) \<Rightarrow> \<exists>bs. r = Some (x, bs) \<and> builds (add_last bs fs) t \<and> keeps s t
    | (Fail, t) \<Rightarrow> \<forall>x bs. r = Some (x, bs) \<longrightarrow> \<not> fits (length (render fs) + length bs) s
    | _ \<Rightarrow> False))"

lemma yieldsD:
  assumes "yields d m r" "length fs = Suc d" "builds fs s"
  obtains (Ok) x t bs where "m s = (Ok x, t)" "r = Some (x, bs)" "builds (add_last bs fs) t" "keeps s t"
  | (Fail) t where "m s = (Fail, t)" "\<And>x bs. r = Some (x, bs) \<Longrightarrow> \<not> fits (length (render fs) + length bs) s"
proof -
  obtain q t where m: "m s = (q, t)" by (cases "m s")
  then show thesis using assms that unfolding yields_def by (cases q) (force split: prod.splits)+
qed

lemma yieldsI:
  assumes "\<And>fs s. length fs = Suc d \<Longrightarrow> fs \<noteq> [] \<Longrightarrow> builds fs s \<Longrightarrow>
    (\<exists>x t bs. m s = (Ok x, t) \<and> r = Some (x, bs) \<and> builds (add_last bs fs) t \<and> keeps s t) \<or>
    (\<exists>t. m s = (Fail, t) \<and> (\<forall>x bs. r = Some (x, bs) \<longrightarrow> \<not> fits (length (render fs) + length bs) s))"
  shows "yields d m r"
  unfolding yields_def
proof (intro allI impI)
  fix fs s assume fs: "length fs = Suc d" "builds fs s"
  then have "fs \<noteq> []" by auto
  from assms [OF fs(1) this fs(2)] show "case m s of
      (Ok x, t) \<Rightarrow> \<exists>bs. r = Some (x, bs) \<and> builds (add_last bs fs) t \<and> keeps s t
    | (Fail, t) \<Rightarrow> \<forall>x bs. r = Some (x, bs) \<longrightarrow> \<not> fits (length (render fs) + length bs) s
    | _ \<Rightarrow> False" by auto
qed

lemma yields_ret: "yields d (ret x) (Some (x, []))"
  by (rule yieldsI) (simp add: act_run)

lemma yields_fail: "yields d fail None"
  by (rule yieldsI) (simp add: act_run)

lemma yields_adds: "adds d m bs \<Longrightarrow> yields d m (Some ((), bs))"
proof (rule yieldsI)
  fix fs :: frames and s
  assume m: "adds d m bs" and fs: "length fs = Suc d" "fs \<noteq> []" "builds fs s"
  show "(\<exists>x t cs. m s = (Ok x, t) \<and> Some ((), bs) = Some (x, cs) \<and> builds (add_last cs fs) t \<and> keeps s t) \<or>
    (\<exists>t. m s = (Fail, t) \<and> (\<forall>x cs. Some ((), bs) = Some (x, cs) \<longrightarrow> \<not> fits (length (render fs) + length cs) s))"
    using m [unfolded adds_def] fs(1,3)
  proof (cases rule: implementsD)
    case (Fail t)
    then show ?thesis using Fail(3) [OF refl] fs(2) by simp
  qed auto
qed

lemma yields_seq:
  assumes "yields d m r" "\<And>x bs. r = Some (x, bs) \<Longrightarrow> yields d (f x) (q x)"
  shows "yields d (seq m f) (Option.bind r (\<lambda>(x, as). map_option (\<lambda>(y, bs). (y, as @ bs)) (q x)))" (is "yields d _ ?r")
proof (rule yieldsI)
  fix fs s assume fs: "length fs = Suc d" "fs \<noteq> []" "builds fs s"
  show "(\<exists>x t bs. seq m f s = (Ok x, t) \<and> ?r = Some (x, bs) \<and> builds (add_last bs fs) t \<and> keeps s t) \<or>
    (\<exists>t. seq m f s = (Fail, t) \<and> (\<forall>x bs. ?r = Some (x, bs) \<longrightarrow> \<not> fits (length (render fs) + length bs) s))"
    using assms(1) fs(1,3)
  proof (cases rule: yieldsD)
    case (Ok x t as)
    have len: "length (add_last as fs) = Suc d" using fs(1,2) by simp
    show ?thesis
      using assms(2) [OF Ok(2)] len Ok(3)
    proof (cases rule: yieldsD)
      case (Ok y u bs)
      then show ?thesis
        using \<open>m s = (Ok x, t)\<close> \<open>r = Some (x, as)\<close> keeps_trans [OF \<open>keeps s t\<close>] by (simp add: seq_run(1) add_last_append)
    next
      case (Fail u)
      then show ?thesis
        using \<open>m s = (Ok x, t)\<close> \<open>r = Some (x, as)\<close> fits_keeps [OF \<open>keeps s t\<close>] fs(2) by (auto simp: seq_run(1) add.assoc)
    qed
  next
    case (Fail t)
    have "\<not> fits (length (render fs) + (length as + n)) s" if "r = Some (x, as)" for x as n
      using Fail(2) [OF that] fits_mono by (metis add.assoc le_add1)
    then show ?thesis using Fail(1) by (auto simp: seq_run(2) bind_eq_Some_conv)
  qed
qed

lemma yields_flush: "yields d (CBB_flush d) (Some ((), []))"
proof (rule yields_adds)
  show "adds d (CBB_flush d) []"
    unfolding adds_def
    by (rule implements_weaken [OF flush_implements]) (auto simp: flush_frames_last dest: frames_nonempty)
qed

text \<open>A child that is filled and closed, and one that is opened before.\<close>

definition closed_bytes :: "('a \<times> byte list) option \<Rightarrow> ('a \<times> byte list) option" where
  "closed_bytes r = Option.bind r (\<lambda>(x, bs). map_option (Pair x) (close_code Asn1 bs))"

lemma child_close_cases:
  assumes "yields (Suc d) body r" "length hs = Suc d" "builds (hs @ [(Asn1, [])]) s"
  obtains (Ok) x t bs where "seq body (\<lambda>x. seq (CBB_flush d) (\<lambda>_. ret x)) s = (Ok x, t)" "closed_bytes r = Some (x, bs)"
      "builds (add_last bs hs) t" "keeps s t"
  | (Fail) t where "seq body (\<lambda>x. seq (CBB_flush d) (\<lambda>_. ret x)) s = (Fail, t)"
      "\<And>x bs. closed_bytes r = Some (x, bs) \<Longrightarrow> \<not> fits (length (render hs) + length bs) s"
proof -
  have ne: "hs \<noteq> []" using assms(2) by auto
  have len: "length (hs @ [(Asn1, [])]) = Suc (Suc d)" using assms(2) by simp
  show thesis
    using assms(1) len assms(3)
  proof (cases rule: yieldsD)
    case (Ok x t bs)
    note one = Ok
    have closed: "flush_frames d (add_last bs (hs @ [(Asn1, [])])) = map_option (\<lambda>c. add_last c hs) (close_code Asn1 bs)"
      using assms(2) by (simp add: flush_child)
    have d: "d < length (add_last bs (hs @ [(Asn1, [])]))" using assms(2) by simp
    show thesis
      using flush_implements [of d] d Ok(3)
    proof (cases rule: implementsD)
      case (Ok y u ks)
      then obtain c where "close_code Asn1 bs = Some c" "ks = add_last c hs" using closed by (cases "close_code Asn1 bs") auto
      then show thesis
        using Ok one by (intro that(1) [of x u c]) (auto simp: seq_run(1) act_run closed_bytes_def intro: keeps_trans)
    next
      case (Fail u)
      have "\<not> fits (length (render hs) + length c) s" if "close_code Asn1 bs = Some c" for c
        using Fail(3) closed that ne fits_keeps [OF one(4)] by auto
      then show thesis
        using Fail one by (intro that(2) [of u]) (auto simp: seq_run closed_bytes_def)
    qed
  next
    case (Fail t)
    have "\<not> fits (length (render hs) + length c) s" if "r = Some (x, bs)" "close_code Asn1 bs = Some c" for x bs c
      using Fail(2) [OF that(1)] close_code_length [OF that(2)] fits_mono ne by auto
    then show thesis using Fail(1) by (intro that(2) [of t]) (auto simp: seq_run closed_bytes_def bind_eq_Some_conv)
  qed
qed

definition element_bytes :: "u32 \<Rightarrow> ('a \<times> byte list) option \<Rightarrow> ('a \<times> byte list) option" where
  "element_bytes tag r = Option.bind r (\<lambda>(x, bs). if length bs \<le> 0xfffffffe then Some (x, der_element (tag, bs)) else None)"

lemma element_bytes_closed: "element_bytes tag r = map_option (\<lambda>(x, bs). (x, der_tag tag @ bs)) (closed_bytes r)"
  by (cases r) (auto simp: element_bytes_def closed_bytes_def close_code_def der_element_def)

lemma yields_element:
  assumes "yields (Suc d) body r"
  shows "yields d (seq (CBB_add_asn1 d tag) (\<lambda>_. seq body (\<lambda>x. seq (CBB_flush d) (\<lambda>_. ret x)))) (element_bytes tag r)"
proof (rule yieldsI)
  fix fs s assume fs: "length fs = Suc d" "fs \<noteq> []" "builds fs s"
  let ?hs = "add_last (der_tag tag) fs" and ?m = "seq (CBB_add_asn1 d tag) (\<lambda>_. seq body (\<lambda>x. seq (CBB_flush d) (\<lambda>_. ret x)))"
  have start: "opened d (der_tag tag) Asn1 fs = Some ((), ?hs @ [(Asn1, [])])" using fs(1) by (simp add: after_flush_def flush_frames_last)
  have hs: "length ?hs = Suc d" "?hs \<noteq> []" using fs(1,2) by simp_all
  have d: "d < length fs" using fs(1) by simp
  show "(\<exists>x t bs. ?m s = (Ok x, t) \<and> element_bytes tag r = Some (x, bs) \<and> builds (add_last bs fs) t \<and> keeps s t) \<or>
    (\<exists>t. ?m s = (Fail, t) \<and> (\<forall>x bs. element_bytes tag r = Some (x, bs) \<longrightarrow> \<not> fits (length (render fs) + length bs) s))"
    using CBB_add_asn1_implements [of d tag] d fs(3)
  proof (cases rule: implementsD)
    case (Ok z t gs)
    note one = Ok
    have t: "builds (?hs @ [(Asn1, [])]) t" using Ok(2,3) start by simp
    show ?thesis
      using assms hs(1) t
    proof (cases rule: child_close_cases)
      case (Ok x u bs)
      then show ?thesis using one(1) keeps_trans [OF one(4)] by (auto simp: seq_run(1) element_bytes_closed add_last_append)
    next
      case (Fail u)
      then show ?thesis using one(1) fits_keeps [OF one(4)] fs(2) by (auto simp: seq_run(1) element_bytes_closed add.assoc)
    qed
  next
    case (Fail t)
    have "1 \<le> length c" if "closed_bytes r = Some (x, c)" for x c
      using that close_code_length [of Asn1] by (cases r) (force simp: closed_bytes_def)+
    then have "\<not> fits (length (render fs) + length (der_tag tag @ c)) s" if "closed_bytes r = Some (x, c)" for x c
      using Fail(3) [OF start] fits_mono [of _ s] that hs(2) fs(2) by (force simp: add.assoc)
    then show ?thesis using Fail(1) by (auto simp: seq_run(2) element_bytes_closed)
  qed
qed

section \<open>Running a conversion on a local window\<close>

definition running :: "CBS \<Rightarrow> ('a, CBS \<times> CBB) act \<Rightarrow> ('a \<times> CBS, CBB) act" where
  "running c m = (\<lambda>s. case m (c, s) of
      (Ok x, c', t) \<Rightarrow> (Ok (x, c'), t)
    | (Fail, _, t) \<Rightarrow> (Fail, t)
    | (Ub, _, t) \<Rightarrow> (Ub, t)
    | (NoFuel, _, t) \<Rightarrow> (NoFuel, t))"

lemma running_seq: "running c (seq m f) = seq (running c m) (\<lambda>(x, c'). running c' (f x))"
  by (rule ext) (simp add: running_def seq_def split: prod.split outcome.split)

lemma running_basic [simp]:
  "running c (ret x) = ret (x, c)" "running c fail = fail"
  "running c (building m') = seq m' (\<lambda>x. ret (x, c))"
  "running c (with_contents b m) = seq (running b m) (\<lambda>(x, _). ret (x, c))"
  by (rule ext, simp add: running_def building_def with_contents_def seq_def act_run split: prod.split outcome.split)+

lemma running_reading:
  "m c = (Ok x, c') \<Longrightarrow> running c (seq (reading m) f) = running c' (f x)"
  "m c = (Fail, c') \<Longrightarrow> running c (seq (reading m) f) = fail"
  by (rule ext, simp add: running_seq running_def reading_def seq_def act_run)+

lemma running_skip:
  assumes "cbs_ok c" "h + n \<le> cbs_len c"
  shows "running e (seq (reading (on_child (window 0 (h + n) c) (CBS_skip h))) f) = running e (f ((), window h n c))"
proof (rule running_reading(1))
  have "seq (on_child (window 0 (h + n) c) (CBS_skip h)) ret = ret ((), window h n c)" by (rule skip_child [OF assms])
  then show "on_child (window 0 (h + n) c) (CBS_skip h) e = (Ok ((), window h n c), e)" by (simp add: ret_def)
qed

section \<open>Items of the output\<close>

definition out_bytes :: "u32 \<Rightarrow> ber list \<Rightarrow> byte list option" where
  "out_bytes st xs = (if st \<noteq> 0 then pieces_bytes st xs else map_option ber_codes (der_forms xs))"

definition out_one :: "u32 \<Rightarrow> ber \<Rightarrow> byte list option" where
  "out_one st x = (if st \<noteq> 0 then piece_bytes st x else map_option ber_code (der_form x))"

lemma out_bytes_simps:
  "out_bytes st [] = Some []"
  "out_bytes st (x # xs) = Option.bind (out_one st x) (\<lambda>as. map_option (\<lambda>bs. as @ bs) (out_bytes st xs))"
  by (auto simp: out_bytes_def out_one_def bind_eq_Some_conv map_option_case split: option.split)

text \<open>Where the contents of an item go, and what becomes of them.\<close>

definition inner_tag :: "u32 \<Rightarrow> u32 \<Rightarrow> u32" where
  "inner_tag st t = (if st \<noteq> 0 then st else if constructed t \<and> is_string_type t then primitive t else 0)"

definition item_bytes :: "u32 \<Rightarrow> u32 \<Rightarrow> ('a \<times> byte list) option \<Rightarrow> ('a \<times> byte list) option" where
  "item_bytes st t r =
     (if st \<noteq> 0 then if primitive t = st then r else None
      else element_bytes (if constructed t \<and> is_string_type t then primitive t else t) r)"

lemma yields_item:
  assumes body: "\<And>e. yields e (body e (inner_tag st t)) r"
  shows "yields d (seq (out_for d st t) (\<lambda>(e, st'). seq (body e st') (\<lambda>x. seq (CBB_flush d) (\<lambda>_. ret x)))) (item_bytes st t r)"
proof (cases "st = 0")
  case True
  let ?tag = "if constructed t \<and> is_string_type t then primitive t else t"
  have "out_for d st t = seq (CBB_add_asn1 d ?tag) (\<lambda>_. ret (Suc d, inner_tag st t))"
    by (simp add: out_for_def inner_tag_def True Let_def)
  then show ?thesis
    using yields_element [OF body, of d ?tag] by (simp add: seq_assoc seq_basic item_bytes_def True)
next
  case False
  show ?thesis
  proof (cases "primitive t = st")
    case True
    have one: "Option.bind r (\<lambda>(x, as). map_option (\<lambda>(y, bs). (y, as @ bs)) (Some (x, []))) = r" by (cases r) auto
    have b: "yields d (body d st) r" using body [of d] False by (simp add: inner_tag_def)
    have "yields d (seq (body d st) (\<lambda>x. seq (CBB_flush d) (\<lambda>_. ret x))) (Option.bind r (\<lambda>(x, as). map_option (\<lambda>(y, bs). (y, as @ bs)) (Some (x, []))))"
    proof (rule yields_seq [OF b])
      show "yields d (seq (CBB_flush d) (\<lambda>_. ret x)) (Some (x, []))" for x
        using yields_seq [OF yields_flush, of d "\<lambda>_. ret x" "\<lambda>_. Some (x, [])"] yields_ret [of d x] by simp
    qed
    note this [unfolded one]
    then show ?thesis using True False by (simp add: out_for_def seq_basic item_bytes_def)
  next
    case no: False
    then show ?thesis using False yields_fail by (simp add: out_for_def seq_basic item_bytes_def)
  qed
qed

text \<open>An item and what follows it.\<close>

lemma yields_items:
  assumes "\<And>e. yields e (body e (inner_tag st t)) r" "\<And>x bs. r = Some (x, bs) \<Longrightarrow> yields d (rest x) (q x)"
  shows "yields d (seq (out_for d st t) (\<lambda>(e, st'). seq (body e st') (\<lambda>x. seq (CBB_flush d) (\<lambda>_. rest x))))
    (Option.bind (item_bytes st t r) (\<lambda>(x, as). map_option (\<lambda>(y, bs). (y, as @ bs)) (q x)))"
proof -
  have split: "seq (out_for d st t) (\<lambda>(e, st'). seq (body e st') (\<lambda>x. seq (CBB_flush d) (\<lambda>_. rest x))) =
      seq (seq (out_for d st t) (\<lambda>(e, st'). seq (body e st') (\<lambda>x. seq (CBB_flush d) (\<lambda>_. ret x)))) rest"
    by (simp add: seq_assoc seq_basic case_prod_unfold)
  have "yields d (rest x) (q x)" if "item_bytes st t r = Some (x, bs)" for x bs
    using that assms(2) by (cases r) (auto simp: item_bytes_def element_bytes_def split: if_splits)
  then show ?thesis unfolding split by (intro yields_seq yields_item assms(1))
qed

text \<open>The items of values and groups.\<close>

lemma item_none [simp]: "item_bytes st t None = None"
  by (simp add: item_bytes_def element_bytes_def)

lemma string_tag_nonzero: "is_string_type t \<Longrightarrow> primitive t \<noteq> 0"
  by (auto simp: is_string_type_def)

lemma item_value: "\<not> constructed t \<Longrightarrow> item_bytes st t (Some (x, bs)) = map_option (Pair x) (out_one st (Ber_Value t bs))"
  by (simp add: item_bytes_def element_bytes_def out_one_def short_enough_def)

lemma item_group:
  assumes "constructed t"
  shows "item_bytes st t (map_option (Pair x) (out_bytes (inner_tag st t) xs)) = map_option (Pair x) (out_one st (Ber_Group t i xs))"
proof (cases "st = 0")
  case True
  show ?thesis
  proof (cases "is_string_type t")
    case s: True
    have "inner_tag st t = primitive t" using assms s True by (simp add: inner_tag_def)
    then show ?thesis
      using assms s True string_tag_nonzero [OF s]
      by (cases "pieces_bytes (primitive t) xs") (simp_all add: item_bytes_def element_bytes_def out_bytes_def out_one_def short_enough_def)
  next
    case False
    then have "inner_tag st t = 0" using True by (simp add: inner_tag_def)
    then show ?thesis
      using False True by (cases "der_forms xs") (simp_all add: item_bytes_def element_bytes_def out_bytes_def out_one_def short_enough_def)
  qed
next
  case False
  then show ?thesis by (simp add: item_bytes_def inner_tag_def out_bytes_def out_one_def)
qed

section \<open>Conversion\<close>

definition converted :: "u32 \<Rightarrow> ber list outcome \<times> CBS \<Rightarrow> ((unit \<times> CBS) \<times> byte list) option" where
  "converted st = (\<lambda>(r, c'). case r of Ok xs \<Rightarrow> map_option (Pair ((), c')) (out_bytes st xs) | _ \<Rightarrow> None)"

lemma converted_simps [simp]:
  "converted st (Ok xs, c') = map_option (Pair ((), c')) (out_bytes st xs)" "converted st (Fail, c') = None"
  "converted st (Ub, c') = None" "converted st (NoFuel, c') = None"
  by (simp_all add: converted_def)

lemma converted_one:
  "converted st (one_tree x m c) = Option.bind (out_one st x) (\<lambda>as. map_option (\<lambda>(y, bs). (y, as @ bs)) (converted st (m c)))"
proof (cases "m c")
  case (Pair r c')
  then show ?thesis
    by (cases r; cases "out_one st x"; cases "case r of Ok xs \<Rightarrow> out_bytes st xs | _ \<Rightarrow> None")
      (auto simp: one_tree_def seq_run act_run out_bytes_simps)
qed

definition converts :: "nat \<Rightarrow> bool" where
  "converts k \<longleftrightarrow> (\<forall>d st m looking depth c. cbs_ok c \<longrightarrow> cbs_len c < k \<longrightarrow> \<not> constructed st \<longrightarrow> depth + m = kMaxDepth \<longrightarrow>
     yields d (running c (convert_ber_loop k d st looking depth)) (converted st (read_ber k m looking c)))"

definition inner_result :: "nat \<Rightarrow> nat \<Rightarrow> bool \<Rightarrow> u32 \<Rightarrow> CBS \<Rightarrow> ((unit \<times> CBS) \<times> byte list) option" where
  "inner_result k m looking st c = (if m = 0 then None else converted st (read_ber k (m - 1) looking c))"

lemma inner_call:
  assumes "converts k" "cbs_ok c" "cbs_len c < k" "\<not> constructed st" "depth + m = kMaxDepth"
  shows "yields d (running c (cbs_convert_ber k d st looking (Suc depth))) (inner_result k m looking st c)"
proof (cases "m = 0")
  case True
  then show ?thesis using assms(4,5) by (simp add: yields_fail inner_result_def)
next
  case False
  then have "Suc depth + (m - 1) = kMaxDepth" using assms(5) by simp
  then have "yields d (running c (convert_ber_loop k d st looking (Suc depth))) (converted st (read_ber k (m - 1) looking c))"
    using assms(1-4) unfolding converts_def by blast
  then show ?thesis using assms(4,5) False by (simp add: inner_result_def)
qed

lemma inner_tag_primitive: "\<not> constructed st \<Longrightarrow> \<not> constructed (inner_tag st t)"
  by (auto simp: inner_tag_def and.assoc)

text \<open>The rounds of the loop, as those of the reader.\<close>

lemma running_len: "running c (seq (reading (query cbs_len)) f) = running c (f (cbs_len c))"
  by (rule running_reading(1)) (simp add: act_run)

lemma convert_end: "cbs_len c = 0 \<Longrightarrow> running c (convert_ber_loop (Suc k) d st looking depth) = (if looking then fail else ret ((), c))"
  by (simp add: running_len)

lemma convert_start:
  assumes "cbs_len c \<noteq> 0"
  shows "CBS_get_any_ber_asn1_element c = (Fail, c) \<Longrightarrow> running c (convert_ber_loop (Suc k) d st looking depth) = fail"
    "CBS_get_any_ber_asn1_element c = (Ok (contents, tag, h), c') \<Longrightarrow> is_eoc h contents = (ret eoc :: (bool, CBS \<times> CBB) act) \<Longrightarrow>
      is_indefinite contents h = (ret ind :: (bool, CBS \<times> CBB) act) \<Longrightarrow>
      running c (convert_ber_loop (Suc k) d st looking depth) = running c' (if eoc then (if looking then ret () else fail)
       else seq (building (out_for d st tag)) (\<lambda>(out_contents, child_string_tag).
         if ind then
           seq (cbs_convert_ber k out_contents child_string_tag True (depth + 1)) (\<lambda>_.
           seq (building (CBB_flush d)) (\<lambda>_. convert_ber_loop k d st looking depth))
         else seq (reading (on_child contents (CBS_skip h))) (\<lambda>(_, contents).
           seq (if constructed tag
                then with_contents contents (cbs_convert_ber k out_contents child_string_tag False (depth + 1))
                else seq (deref (cbs_data contents) (cbs_len contents)) (\<lambda>bs. building (CBB_add_bytes out_contents bs))) (\<lambda>_.
           seq (building (CBB_flush d)) (\<lambda>_. convert_ber_loop k d st looking depth)))))"
  using assms by (simp_all add: running_len running_reading [where m = CBS_get_any_ber_asn1_element] seq_basic)

declare convert_ber_loop.simps [simp del]

lemma running_building: "running c (seq (building m) f) = seq m (\<lambda>x. running c (f x))"
  by (simp add: running_seq seq_assoc seq_basic)

lemma running_with: "running c (seq (with_contents b m) f) = seq (running b m) (\<lambda>(x, _). running c (f x))"
  by (simp add: running_seq seq_assoc seq_basic case_prod_unfold)

definition contents_added :: "nat \<Rightarrow> u32 \<Rightarrow> nat \<Rightarrow> CBS \<Rightarrow> nat \<Rightarrow> u32 \<Rightarrow> (unit, CBB) act" where
  "contents_added k t depth w e st =
     (if constructed t then seq (running w (cbs_convert_ber k e st False (Suc depth))) (\<lambda>_. ret ()) else CBB_add_bytes e (bytes_of w))"

lemma convert_element:
  assumes "cbs_ok c" "n < 2 ^ 32" "h + n \<le> cbs_len c" "h = length (der_tag t) + length (der_length n)"
    "take h (bytes_of c) = der_tag t @ der_length n"
    "CBS_get_any_ber_asn1_element c = (Ok (window 0 (h + n) c, t, h), after (h + n) c)"
  shows "running c (convert_ber_loop (Suc k) d st looking depth) =
    (if t = 0 \<and> n = 0 then (if looking then ret ((), after (h + n) c) else fail)
     else seq (out_for d st t) (\<lambda>(e, st'). seq (contents_added k t depth (window h n c) e st') (\<lambda>_.
       seq (CBB_flush d) (\<lambda>_. running (after (h + n) c) (convert_ber_loop k d st looking depth)))))"
proof -
  have "cbs_len c \<noteq> 0" using assms(3,4) der_tag_nonempty [of t] by (cases "der_tag t") auto
  note start = convert_start(2) [OF this assms(6) element_facts(1) [OF assms(1-5)] element_facts(2) [OF assms(1-5)]]
  have ok: "cbs_ok (window h n c)" using child_of_window [OF assms(1,3)] by (simp add: child_of_def)
  show ?thesis
    unfolding start
    by (cases "constructed t")
      (simp_all add: running_building running_skip [OF assms(1,3)] running_with deref_child [OF ok] seq_basic contents_added_def seq_assoc case_prod_unfold)
qed

lemma convert_indefinite:
  assumes "cbs_ok c" "bytes_of c = der_tag t @ 0x80 # rest" "constructed t" "h = Suc (length (der_tag t))"
  shows "running c (convert_ber_loop (Suc k) d st looking depth) =
    seq (out_for d st t) (\<lambda>(e, st'). seq (running (after h c) (cbs_convert_ber k e st' True (Suc depth))) (\<lambda>x.
      seq (CBB_flush d) (\<lambda>_. running (snd x) (convert_ber_loop k d st looking depth))))"
proof -
  have "cbs_len c \<noteq> 0" using indefinite_facts(5) [OF assms(1,2,4)] assms(4) by auto
  note start = convert_start(2) [OF this ber_indefinite_of_code [OF assms(1-3), folded assms(4)]
      indefinite_facts(1) [OF assms(1,2,4)] indefinite_facts(2) [OF assms(1,2,4)]]
  show ?thesis
    unfolding start by (simp add: running_building running_seq [of _ "cbs_convert_ber k _ _ _ _"] case_prod_unfold del: cbs_convert_ber.simps)
qed

text \<open>One round converts what the reader reads in it.\<close>

lemma rest_converted:
  "converts k \<Longrightarrow> cbs_ok c \<Longrightarrow> cbs_len c < k \<Longrightarrow> \<not> constructed st \<Longrightarrow> depth + m = kMaxDepth \<Longrightarrow>
     yields d (running c (convert_ber_loop k d st looking depth)) (converted st (read_ber k m looking c))"
  unfolding converts_def by blast

lemma value_converted:
  assumes "converts k" "cbs_ok c" "cbs_len c < k" "\<not> constructed st" "depth + m = kMaxDepth" "cbs_ok w" "cbs_len w < 2 ^ 64" "\<not> constructed t"
  shows "yields d (seq (out_for d st t) (\<lambda>(e, st'). seq (contents_added k t depth w e st') (\<lambda>_.
      seq (CBB_flush d) (\<lambda>_. running c (convert_ber_loop k d st looking depth)))))
    (converted st (one_tree (Ber_Value t (bytes_of w)) (read_ber k m looking) c))"
proof -
  have bytes: "yields e (contents_added k t depth w e (inner_tag st t)) (Some ((), bytes_of w))" for e
    using yields_adds [OF adds_of_appended [OF CBB_add_bytes_implements]] assms(6-8) by (simp add: contents_added_def)
  show ?thesis
    using yields_items [where body = "contents_added k t depth w", OF bytes, of d "\<lambda>_. running c (convert_ber_loop k d st looking depth)" "\<lambda>_. converted st (read_ber k m looking c)"]
      rest_converted [OF assms(1-5)] assms(8)
    by (simp add: item_value converted_one bind_map_option comp_def)
qed

lemma group_converted:
  assumes k: "converts k" and c: "cbs_ok c" "cbs_len c < k" and st: "\<not> constructed st" and m: "depth + m = kMaxDepth"
    and w: "cbs_ok w" "cbs_len w < k" and t: "constructed t"
  shows "yields d (seq (out_for d st t) (\<lambda>(e, st'). seq (contents_added k t depth w e st') (\<lambda>_.
      seq (CBB_flush d) (\<lambda>_. running c (convert_ber_loop k d st looking depth)))))
    (converted st (if m = 0 then (Fail, c)
      else seq (on_child w (read_ber k (m - 1) False)) (\<lambda>(xs, _). one_tree (Ber_Group t False xs) (read_ber k m looking)) c))"
proof -
  let ?r = "map_option (\<lambda>(_, bs). ((), bs)) (inner_result k m False (inner_tag st t) w)"
  have contents: "yields e (contents_added k t depth w e (inner_tag st t)) ?r" for e
  proof -
    have "Option.bind p (\<lambda>(x, as). map_option (\<lambda>(y, bs). (y, as @ bs)) (Some ((), []))) = map_option (\<lambda>(_, bs). ((), bs)) p"
      for p :: "((unit \<times> CBS) \<times> byte list) option" by (cases p) auto
    then show ?thesis
      using yields_seq [OF inner_call [OF k w inner_tag_primitive [OF st] m], where f = "\<lambda>_. ret ()" and q = "\<lambda>_. Some ((), [])"] t
      by (simp add: contents_added_def yields_ret del: cbs_convert_ber.simps)
  qed
  have "Option.bind (item_bytes st t ?r) (\<lambda>(x, as). map_option (\<lambda>(y, bs). (y, as @ bs)) (converted st (read_ber k m looking c))) =
      converted st (if m = 0 then (Fail, c)
      else seq (on_child w (read_ber k (m - 1) False)) (\<lambda>(xs, _). one_tree (Ber_Group t False xs) (read_ber k m looking)) c)"
  proof (cases "m = 0")
    case False
    show ?thesis
    proof (cases "read_ber k (m - 1) False w")
      case (Pair q w')
      show ?thesis
      proof (cases q)
        case (Ok xs)
        have "?r = map_option (Pair ()) (out_bytes (inner_tag st t) xs)"
          using Pair Ok False by (simp add: inner_result_def option.map_comp comp_def)
        then show ?thesis
          using Pair Ok False item_group [OF t, of st "()" xs False]
          by (simp add: seq_on_child(1) converted_one bind_map_option comp_def)
      qed (use Pair False in \<open>simp_all add: inner_result_def seq_def on_child_def\<close>)
    qed
  qed (simp add: inner_result_def)
  then show ?thesis
    using yields_items [where body = "contents_added k t depth w", OF contents, of d "\<lambda>_. running c (convert_ber_loop k d st looking depth)" "\<lambda>_. converted st (read_ber k m looking c)"]
      rest_converted [OF k c st m] by simp
qed

lemma indefinite_converted:
  assumes k: "converts k" and c: "cbs_ok c" "cbs_len c < k" and st: "\<not> constructed st" and m: "depth + m = kMaxDepth" and t: "constructed t"
  shows "yields d (seq (out_for d st t) (\<lambda>(e, st'). seq (running c (cbs_convert_ber k e st' True (Suc depth))) (\<lambda>x.
      seq (CBB_flush d) (\<lambda>_. running (snd x) (convert_ber_loop k d st looking depth)))))
    (converted st (if m = 0 then (Fail, c)
      else seq (read_ber k (m - 1) True) (\<lambda>xs. one_tree (Ber_Group t True xs) (read_ber k m looking)) c))"
proof -
  let ?r = "inner_result k m True (inner_tag st t) c"
  have rest: "yields d (running (snd x) (convert_ber_loop k d st looking depth)) (converted st (read_ber k m looking (snd x)))"
    if x: "?r = Some (x, bs)" for x bs
  proof -
    obtain xs c' where xs: "read_ber k (m - 1) True c = (Ok xs, c')" "snd x = c'"
      using x by (auto simp: inner_result_def converted_def split: if_splits prod.splits outcome.splits)
    have "in_order c (parsed True (m - 1) c) (Ok xs, c')" using read_ber_in_order [OF c, of True "m - 1"] unfolding xs(1) .
    then have "cbs_ok c'" "cbs_len c' < k" using sub_of_len [of c' c] c(2) by (auto simp: in_order_def)
    then show ?thesis using rest_converted [OF k _ _ st m] xs(2) by simp
  qed
  have "Option.bind (item_bytes st t ?r) (\<lambda>(x, as). map_option (\<lambda>(y, bs). (y, as @ bs)) (converted st (read_ber k m looking (snd x)))) =
      converted st (if m = 0 then (Fail, c)
      else seq (read_ber k (m - 1) True) (\<lambda>xs. one_tree (Ber_Group t True xs) (read_ber k m looking)) c)"
  proof (cases "m = 0")
    case False
    show ?thesis
    proof (cases "read_ber k (m - 1) True c")
      case (Pair q c')
      show ?thesis
      proof (cases q)
        case (Ok xs)
        then show ?thesis
          using Pair False item_group [OF t, of st "((), c')" xs True]
          by (simp add: inner_result_def seq_run(1) converted_one bind_map_option comp_def)
      qed (use Pair False in \<open>simp_all add: inner_result_def seq_run\<close>)
    qed
  qed (simp add: inner_result_def)
  note spec = this
  show ?thesis
    unfolding spec [symmetric]
    by (rule yields_items [where body = "\<lambda>e st'. running c (cbs_convert_ber k e st' True (Suc depth))"
          and rest = "\<lambda>x. running (snd x) (convert_ber_loop k d st looking depth)" and q = "\<lambda>x. converted st (read_ber k m looking (snd x))"])
      (rule inner_call [OF k c inner_tag_primitive [OF st] m], rule rest)
qed

lemma converts_round: "converts k \<Longrightarrow> converts (Suc k)"
  unfolding converts_def [of "Suc k"]
proof (intro allI impI)
  fix d st m looking depth c
  assume k: "converts k" and c: "cbs_ok c" "cbs_len c < Suc k" and st: "\<not> constructed st" and m: "depth + m = kMaxDepth"
  show "yields d (running c (convert_ber_loop (Suc k) d st looking depth)) (converted st (read_ber (Suc k) m looking c))"
  proof (cases "cbs_len c = 0")
    case True
    then show ?thesis by (simp add: convert_end read_ber_end yields_fail yields_ret out_bytes_simps)
  next
    case False
    show ?thesis
      using c(1)
    proof (cases rule: ber_element_cases)
      case stop
      then show ?thesis using convert_start(1) [OF False stop] read_ber_stop [OF False stop] by (simp add: yields_fail)
    next
      case (element t n h)
      note run = convert_element [OF c(1) element] read_ber_element [OF c(1) element]
      have pos: "0 < h" using element(3) der_tag_nonempty [of t] by simp
      have d': "cbs_ok (after (h + n) c)" "cbs_len (after (h + n) c) < k" using after_shorter [OF c _ element(2)] pos by simp_all
      have w: "cbs_ok (window h n c)" "cbs_len (window h n c) < k"
        using child_of_window [OF c(1) element(2)] c(2) element(2) pos by (auto simp: child_of_def cbs_len_window)
      have n64: "cbs_len (window h n c) < 2 ^ 64" using element(1) by (simp add: cbs_len_window)
      show ?thesis
      proof (cases "t = 0 \<and> n = 0")
        case True
        then show ?thesis unfolding run if_P [OF True] by (cases looking) (simp_all add: yields_fail yields_ret out_bytes_simps)
      next
        case not_eoc: False
        show ?thesis
          unfolding run if_not_P [OF not_eoc]
          using value_converted [OF k d' st m w(1) n64] group_converted [OF k d' st m w]
          by (cases "constructed t") simp_all
      qed
    next
      case (indefinite t rest)
      note facts = indefinite_facts [OF c(1) indefinite(1) refl]
      have d': "cbs_ok (after (Suc (length (der_tag t))) c)" "cbs_len (after (Suc (length (der_tag t))) c) < k"
        using after_shorter [OF c _ facts(5)] by simp_all
      show ?thesis
        unfolding convert_indefinite [OF c(1) indefinite(1,2) refl] read_ber_indefinite [OF c(1) indefinite]
        by (rule indefinite_converted [OF k d' st m indefinite(2)])
    qed
  qed
qed

text \<open>The refinement: reading the trees, and adding the code of their DER form.\<close>

lemma convert_ber_yields:
  assumes "cbs_ok c" "cbs_len c < k" "\<not> constructed st" "depth + m = kMaxDepth"
  shows "yields d (running c (cbs_convert_ber k d st looking depth)) (converted st (read_ber k m looking c))"
proof -
  have "converts k" for k
    by (induction k) (simp add: converts_def, rule converts_round)
  then show ?thesis using rest_converted [OF _ assms] assms(3,4) by simp
qed

end
