(* ===== verification/Ber_Props.thy ===== *)
theory Ber_Props
  imports Ber_Convert
begin

text \<open>
  The properties of ber.c: what \<open>CBS_asn1_ber_to_der\<close> makes of any input, that it converts every
  well-formed BER it notices, what it overlooks, and the implicitly tagged strings.
\<close>

section \<open>Finding BER\<close>

text \<open>What the walk reports for a list of trees: a group that is not DER ends it, but the answer for the
  contents of a group is forgotten when another group follows.\<close>

fun ber_seen :: "bool \<Rightarrow> ber list \<Rightarrow> bool" where
  "ber_seen found [] = found"
| "ber_seen found (Ber_Value t bs # xs) = ber_seen found xs"
| "ber_seen found (Ber_Group t indefinite ys # xs) = (indefinite \<or> is_string_type t \<or> ber_seen (ber_seen False ys) xs)"

lemma find_end: "cbs_len c = 0 \<Longrightarrow> find_ber_loop (Suc k) found depth c = (Ok found, c)"
  by (simp add: seq_basic act_run)

lemma find_stop: "cbs_len c \<noteq> 0 \<Longrightarrow> CBS_get_any_ber_asn1_element c = (Fail, c) \<Longrightarrow> find_ber_loop (Suc k) found depth c = (Fail, c)"
  by (simp add: seq_basic seq_run(2))

lemma find_element:
  assumes "cbs_ok c" "n < 2 ^ 32" "h + n \<le> cbs_len c" "h = length (der_tag t) + length (der_length n)"
    "take h (bytes_of c) = der_tag t @ der_length n"
    "CBS_get_any_ber_asn1_element c = (Ok (window 0 (h + n) c, t, h), after (h + n) c)"
  shows "find_ber_loop (Suc k) found depth c =
    (if \<not> constructed t then find_ber_loop k found depth (after (h + n) c)
     else if is_string_type t then (Ok True, after (h + n) c)
     else seq (on_child (window h n c) (cbs_find_ber k (depth + 1))) (\<lambda>(found, _). find_ber_loop k found depth) (after (h + n) c))"
proof -
  note facts = element_facts [OF assms(1-5)]
  have "cbs_len c \<noteq> 0" using assms(3,4) der_tag_nonempty [of t] by (cases "der_tag t") auto
  then show ?thesis
    by (simp add: seq_basic seq_run(1) [where m = CBS_get_any_ber_asn1_element, OF assms(6)] facts(2,3) act_run del: cbs_find_ber.simps)
qed

lemma find_indefinite:
  assumes "cbs_ok c" "bytes_of c = der_tag t @ 0x80 # rest" "constructed t" "h = Suc (length (der_tag t))"
  shows "find_ber_loop (Suc k) found depth c = (Ok True, after h c)"
proof -
  note facts = indefinite_facts [OF assms(1,2,4)]
  have "cbs_len c \<noteq> 0" using facts(5) assms(4) by auto
  then show ?thesis
    by (simp add: seq_basic seq_run(1) [where m = CBS_get_any_ber_asn1_element, OF ber_indefinite_of_code [OF assms(1-3), folded assms(4)]] facts(2) act_run)
qed

declare find_ber_loop.simps [simp del]

lemma find_in_order:
  assumes "cbs_ok c" "cbs_len c < k"
  shows "in_order c (\<lambda>_ _. True) (find_ber_loop k found depth c)"
  using assms
proof (induction k arbitrary: c found depth)
  case (Suc k)
  note c = Suc.prems
  show ?case
  proof (cases "cbs_len c = 0")
    case True
    then show ?thesis using c by (simp add: find_end in_order_def)
  next
    case False
    show ?thesis
      using c(1)
    proof (cases rule: ber_element_cases)
      case stop
      then show ?thesis using c False by (simp add: find_stop in_order_def)
    next
      case (element t n h)
      let ?d = "after (h + n) c" and ?w = "window h n c"
      have pos: "0 < h" using element(3) der_tag_nonempty [of t] by simp
      have d: "cbs_ok ?d" "cbs_len ?d < k" "sub_of ?d c"
        using after_shorter [OF c _ element(2)] after_facts [OF c(1) element(2)] pos by simp_all
      have w: "cbs_ok ?w" "cbs_len ?w < k"
        using child_of_window [OF c(1) element(2)] c(2) element(2) pos by (auto simp: child_of_def cbs_len_window)
      have rest: "in_order c (\<lambda>_ _. True) (find_ber_loop k f depth ?d)" for f
        by (rule in_order_mono [OF Suc.IH [OF d(1,2)] d(3)])
      have "in_order ?w (\<lambda>_ _. True) (cbs_find_ber k (depth + 1) ?w)"
        using Suc.IH [OF w] w(1) by (simp add: in_order_basic(2))
      then have "in_order c (\<lambda>_ _. True) (seq (on_child ?w (cbs_find_ber k (depth + 1))) (\<lambda>(found, _). find_ber_loop k found depth) ?d)"
      proof (cases rule: in_orderE)
        case (Ok f e)
        then show ?thesis using rest by (simp add: seq_on_child(1) del: cbs_find_ber.simps)
      next
        case (Fail e)
        then show ?thesis using d by (simp add: seq_on_child(2) in_order_def del: cbs_find_ber.simps)
      qed
      then show ?thesis
        unfolding find_element [OF c(1) element] using rest d by (simp add: in_order_def [of _ _ "(Ok True, _)"])
    next
      case (indefinite t rest)
      note facts = indefinite_facts [OF c(1) indefinite(1) refl]
      show ?thesis
        unfolding find_indefinite [OF c(1) indefinite(1,2) refl]
        using after_facts [OF c(1) facts(5)] by (simp add: in_order_def)
    qed
  qed
qed simp

lemma find_trees:
  assumes "cbs_ok c" "bers_fit m xs" "bytes_of c = ber_codes xs" "cbs_len c < k" "depth + m = kMaxDepth"
  shows "\<exists>d. find_ber_loop k found depth c = (Ok (ber_seen found xs), d)"
  using assms
proof (induction k arbitrary: c m xs found depth)
  case (Suc k)
  note c = Suc.prems(1,4)
  show ?case
  proof (cases xs)
    case Nil
    then have "cbs_len c = 0" using Suc.prems(3) length_bytes_of [OF c(1)] by simp
    then show ?thesis by (simp add: Nil find_end)
  next
    case (Cons x ys)
    have rest: "\<exists>d. find_ber_loop k f depth (after j c) = (Ok (ber_seen f ys), d)"
      if "j = length (ber_code x)" "0 < j" for f j
    proof -
      have code: "bytes_of c = ber_code x @ ber_codes ys" using Suc.prems(3) Cons by simp
      note at = bytes_of_append [OF c(1) code, folded that(1)]
      show ?thesis
        using Suc.IH [OF at(4) _ at(2) _ Suc.prems(5)] after_shorter [OF c that(2) at(1)] Suc.prems(2) Cons by simp
    qed
    show ?thesis
    proof (cases x)
      case (Ber_Value t bs)
      have code: "bytes_of c = der_element (t, bs) @ ber_codes ys" "length bs < 2 ^ 32" "\<not> constructed t"
        using Suc.prems(2,3) Cons Ber_Value by simp_all
      note at = element_at [OF c(1) code(1,2) refl]
      show ?thesis
        using find_element [OF c(1) code(2) at(1) refl at(2,3)] code(3) rest at(8,9) by (simp add: Cons Ber_Value)
    next
      case (Ber_Group t indefinite zs)
      show ?thesis
      proof (cases indefinite)
        case True
        then show ?thesis
          using find_indefinite [OF c(1) _ _ refl] Suc.prems(2,3) by (simp add: Cons Ber_Group)
      next
        case False
        have code: "bytes_of c = der_element (t, ber_codes zs) @ ber_codes ys" "length (ber_codes zs) < 2 ^ 32"
          and t: "constructed t" "m > 0" "bers_fit (m - 1) zs"
          using Suc.prems(2,3) Cons Ber_Group False by simp_all
        note at = element_at [OF c(1) code refl]
        let ?h = "length (der_tag t) + length (der_length (length (ber_codes zs)))"
        let ?w = "window ?h (length (ber_codes zs)) c"
        have "cbs_len ?w < k" using at(1,9) c(2) unfolding cbs_len_window by linarith
        moreover have "(depth + 1) + (m - 1) = kMaxDepth" using Suc.prems(5) t(2) by simp
        ultimately obtain e where e: "find_ber_loop k False (depth + 1) ?w = (Ok (ber_seen False zs), e)"
          using Suc.IH [OF at(6) t(3) at(4)] by blast
        then have "cbs_find_ber k (depth + 1) ?w = (Ok (ber_seen False zs), e)" using Suc.prems(5) t(2) by simp
        note child = seq_on_child(1) [where m = "cbs_find_ber k (depth + 1)", OF this]
        show ?thesis
          unfolding find_element [OF c(1) code(2) at(1) refl at(2,3)] child prod.case
          using t(1) rest at(8,9) by (simp add: Cons Ber_Group False)
      qed
    qed
  qed
qed simp

text \<open>DER is BER without the forms that are converted; the DER form is DER, and DER has nothing to be seen.\<close>

fun is_der :: "ber \<Rightarrow> bool" and all_der :: "ber list \<Rightarrow> bool" where
  "is_der (Ber_Value t bs) \<longleftrightarrow> True"
| "is_der (Ber_Group t indefinite xs) \<longleftrightarrow> \<not> indefinite \<and> \<not> is_string_type t \<and> all_der xs"
| "all_der [] \<longleftrightarrow> True"
| "all_der (x # xs) \<longleftrightarrow> is_der x \<and> all_der xs"

lemma short_enough_Some: "short_enough x bs = Some y \<longleftrightarrow> y = x \<and> length bs \<le> 0xfffffffe"
  by (auto simp: short_enough_def)

lemma der_form_fits:
  "ber_fits m x \<Longrightarrow> der_form x = Some y \<Longrightarrow> ber_fits m y \<and> is_der y"
  "bers_fit m xs \<Longrightarrow> der_forms xs = Some ys \<Longrightarrow> bers_fit m ys \<and> all_der ys"
proof (induction m x and m xs arbitrary: y and ys rule: ber_fits_bers_fit.induct)
  case (1 m t bs)
  then show ?case by (auto simp: short_enough_Some)
next
  case (2 m t indefinite xs)
  have prim: "\<not> constructed (primitive t)" by (simp add: and.assoc)
  show ?case
  proof (cases "is_string_type t")
    case True
    then show ?thesis
      using 2 prim string_tag_nonzero [OF True] by (auto simp: short_enough_Some bind_eq_Some_conv)
  next
    case False
    then show ?thesis using 2 by (auto simp: short_enough_Some bind_eq_Some_conv)
  qed
next
  case (4 m x xs)
  then show ?case by (auto simp: bind_eq_Some_conv)
qed auto

lemma der_not_seen: "all_der xs \<Longrightarrow> \<not> found \<Longrightarrow> \<not> ber_seen found xs"
  by (induction found xs rule: ber_seen.induct) auto

section \<open>Running a conversion\<close>

lemma yields_finish:
  assumes "yields 0 m r" "builds [(Fixed 0, [])] s"
  obtains (Ok) x bs buf t where "seq m (\<lambda>x. seq (CBB_finish 0 True True) (\<lambda>y. ret (y, x))) s = (Ok ((Some buf, Some (length bs)), x), t)"
      "r = Some (x, bs)" "take (length bs) buf = bs"
  | (Fail) t where "seq m (\<lambda>x. seq (CBB_finish 0 True True) (\<lambda>y. ret (y, x))) s = (Fail, t)"
      "\<And>x bs. r = Some (x, bs) \<Longrightarrow> \<not> fits (length bs) s"
proof -
  have one: "length [(Fixed 0, [])] = Suc 0" by simp
  show thesis
    using assms(1) one assms(2)
  proof (cases rule: yieldsD)
    case (Ok x t bs)
    note m = Ok
    have gs: "add_last bs [(Fixed 0, [])] = [(Fixed 0, bs)]" by (simp add: add_last_def)
    have flushed: "flush_frames 0 [(Fixed 0, bs)] = Some [(Fixed 0, bs)]" by (simp add: flush_frames_def)
    show thesis
      using Ok(3) [unfolded gs]
    proof (cases rule: finish_run)
      case (Ok buf cs u)
      then have "cs = bs" using flushed by simp
      then show thesis using Ok m by (intro that(1) [of buf bs x u]) (simp_all add: seq_run(1) act_run)
    next
      case (Fail u)
      have "\<not> fits (length bs) s" using Fail(3) [OF flushed] fits_keeps [OF m(4)] by auto
      then show thesis using Fail m by (intro that(2) [of u]) (auto simp: seq_run)
    qed
  next
    case (Fail t)
    then show thesis by (intro that(2) [of t]) (simp_all add: seq_run(2))
  qed
qed

lemma init_cases:
  assumes "n < 2 ^ 64"
  obtains (Ok) t where "CBB_init n s = (Ok (), t)" "builds [(Fixed 0, [])] t" "\<And>k. \<forall>k. cbb_alloc s k \<Longrightarrow> k < 2 ^ 64 \<Longrightarrow> fits k t"
  | (Fail) t where "CBB_init n s = (Fail, t)" "\<not> (\<forall>k. cbb_alloc s k)"
proof (cases "cbb_alloc s buffer_size \<and> (n = 0 \<or> cbb_alloc s n)")
  case True
  then obtain t where t: "CBB_init n s = (Ok (), t)" "builds [(Fixed 0, [])] t" "cbb_alloc t = cbb_alloc s"
    "\<exists>b. cbb_base t = Some b \<and> b_can_resize b"
    using init_builds [OF assms] by blast
  then show thesis by (intro that(1) [of t]) (auto simp: fits_def)
next
  case False
  have "\<exists>t. CBB_init n s = (Fail, t)"
    using False by (auto simp: CBB_init_def CBB_zero_def cbb_init_def seq_basic act_run)
  then show thesis using False that(2) by blast
qed

abbreviation conversion :: "nat \<Rightarrow> (byte list option \<times> nat option, CBS \<times> CBB) act" where
  "conversion n \<equiv> seq (building (CBB_init n)) (\<lambda>_. seq (cbs_convert_ber (Suc n) 0 0 False 0) (\<lambda>_. building (CBB_finish 0 True True)))"

lemma running_conversion:
  "running c (conversion n) = seq (CBB_init n) (\<lambda>_. seq (running c (cbs_convert_ber (Suc n) 0 0 False 0))
     (\<lambda>x. seq (CBB_finish 0 True True) (\<lambda>y. ret (y, snd x))))"
  by (simp add: running_building running_seq [of _ "cbs_convert_ber _ _ _ _ _"] case_prod_unfold del: cbs_convert_ber.simps)

text \<open>The trees of an input, and what becomes of them.\<close>

definition ber_input :: "CBS \<Rightarrow> ber list \<Rightarrow> bool" where
  "ber_input c xs \<longleftrightarrow> bers_fit kMaxDepth xs \<and> bytes_of c = ber_codes xs"

lemma conversion_cases:
  assumes "cbs_ok c" "cbs_len c < 2 ^ 64"
  obtains (Ok) xs ys buf c' t where "running c (conversion (cbs_len c)) env = (Ok ((Some buf, Some (length (ber_codes ys))), c'), t)"
      "ber_input c xs" "der_forms xs = Some ys" "take (length (ber_codes ys)) buf = ber_codes ys" "cbs_len c' = 0"
  | (Fail) t where "running c (conversion (cbs_len c)) env = (Fail, t)"
      "\<And>xs ys. ber_input c xs \<Longrightarrow> der_forms xs = Some ys \<Longrightarrow> length (ber_codes ys) < 2 ^ 64 \<Longrightarrow> \<not> (\<forall>k. cbb_alloc env k)"
  using assms(2)
proof (cases rule: init_cases [where s = env])
  case (Ok s)
  note init = Ok
  let ?k = "Suc (cbs_len c)" and ?go = "running c (cbs_convert_ber (Suc (cbs_len c)) 0 0 False 0)"
  have go: "yields 0 ?go (converted 0 (read_ber ?k kMaxDepth False c))"
    by (rule convert_ber_yields [OF assms(1)]) simp_all
  have swap: "seq ?go (\<lambda>x. seq (CBB_finish 0 True True) (\<lambda>y. ret (y, snd x))) t = (Ok (y, c'), u) \<longleftrightarrow>
      (\<exists>w. seq ?go (\<lambda>x. seq (CBB_finish 0 True True) (\<lambda>y. ret (y, x))) t = (Ok (y, w, c'), u))" 
    "seq ?go (\<lambda>x. seq (CBB_finish 0 True True) (\<lambda>y. ret (y, snd x))) t = (Fail, u) \<longleftrightarrow>
      seq ?go (\<lambda>x. seq (CBB_finish 0 True True) (\<lambda>y. ret (y, x))) t = (Fail, u)" for y c' t u
    by (auto simp: seq_def ret_def split: prod.splits outcome.splits)
  show thesis
    using go Ok(2)
  proof (cases rule: yields_finish)
    case (Ok x bs buf t)
    obtain xs c' where xs: "read_ber ?k kMaxDepth False c = (Ok xs, c')" "x = ((), c')" "out_bytes 0 xs = Some bs"
      using Ok(2) by (auto simp: converted_def split: prod.splits outcome.splits)
    have p: "parsed False kMaxDepth c xs c'"
      using read_ber_in_order [OF assms(1), of ?k False kMaxDepth] by (simp add: xs(1) in_order_def)
    then have z: "cbs_len c' = 0" unfolding parsed_def by blast
    then have "bytes_of c' = []" by (simp add: bytes_of_def)
    then have "ber_input c xs" using p unfolding parsed_def by (simp add: ber_input_def end_mark_def)
    moreover obtain ys where "der_forms xs = Some ys" "bs = ber_codes ys" using xs(3) by (auto simp: out_bytes_def)
    moreover have "running c (conversion (cbs_len c)) env = (Ok ((Some buf, Some (length bs)), c'), t)"
      using Ok(1) swap(1) [of s "(Some buf, Some (length bs))" c' t] init(1) by (simp add: running_conversion seq_run(1) xs(2) del: cbs_convert_ber.simps)
    ultimately show thesis using that(1) Ok(3) z by metis
  next
    case (Fail t)
    have "running c (conversion (cbs_len c)) env = (Fail, t)"
      using Fail(1) swap(2) [of s t] init(1) by (simp add: running_conversion seq_run(1) del: cbs_convert_ber.simps)
    moreover have "\<not> (\<forall>k. cbb_alloc env k)" if "ber_input c xs" "der_forms xs = Some ys" "length (ber_codes ys) < 2 ^ 64" for xs ys
    proof -
      have "read_ber ?k kMaxDepth False c = (Ok xs, after (length (ber_codes xs @ end_mark False)) c)"
        using that(1) by (intro read_ber_accepts [OF assms(1), where rest = "[]"]) (simp_all add: ber_input_def end_mark_def)
      then have "\<not> fits (length (ber_codes ys)) s" using Fail(2) that(2) by (simp add: out_bytes_def)
      then show ?thesis using init(3) that(3) by blast
    qed
    ultimately show thesis by (rule that(2))
  qed
next
  case (Fail t)
  then show thesis by (intro that(2) [of t]) (simp_all add: running_conversion seq_run(2) del: cbs_convert_ber.simps)
qed

lemma of_running:
  "running c m s = (Ok (x, c'), t) \<Longrightarrow> m (c, s) = (Ok x, c', t)" "running c m s = (Fail, t) \<Longrightarrow> \<exists>c'. m (c, s) = (Fail, c', t)"
  by (auto simp: running_def split: prod.splits outcome.splits)

text \<open>The two ways \<open>CBS_asn1_ber_to_der\<close> goes.\<close>

definition found_in :: "CBS \<Rightarrow> bool outcome" where
  "found_in c = fst (cbs_find_ber (Suc (cbs_len c)) 0 c)"

lemma ber_to_der_find:
  "found_in c = Ok b \<Longrightarrow> CBS_asn1_ber_to_der env c = (if \<not> b then seq CBS_get_any_asn1_element (\<lambda>(out, _). ret (out, None))
     else (\<lambda>c. case conversion (cbs_len c) (c, env) of
         (Ok (data, len), c', _) \<Rightarrow> (Ok (CBS_init (the data) (the len), data), c')
       | (Fail, c', s) \<Rightarrow> (case CBB_cleanup 0 s of (Ok _, _) \<Rightarrow> (Fail, c') | _ \<Rightarrow> (Ub, c'))
       | (Ub, c', _) \<Rightarrow> (Ub, c')
       | (NoFuel, c', _) \<Rightarrow> (NoFuel, c'))) c"
  "found_in c = Fail \<Longrightarrow> CBS_asn1_ber_to_der env c = (Fail, c)"
proof -
  let ?find = "cbs_find_ber (Suc (cbs_len c)) 0"
  obtain r d where find: "?find c = (r, d)" by (cases "?find c")
  have "CBS_asn1_ber_to_der env c = (seq (on_child c ?find) (\<lambda>(b, _). if \<not> b then seq CBS_get_any_asn1_element (\<lambda>(out, _). ret (out, None))
     else (\<lambda>c. case conversion (cbs_len c) (c, env) of
         (Ok (data, len), c', _) \<Rightarrow> (Ok (CBS_init (the data) (the len), data), c')
       | (Fail, c', s) \<Rightarrow> (case CBB_cleanup 0 s of (Ok _, _) \<Rightarrow> (Fail, c') | _ \<Rightarrow> (Ub, c'))
       | (Ub, c', _) \<Rightarrow> (Ub, c')
       | (NoFuel, c', _) \<Rightarrow> (NoFuel, c')))) c"
    unfolding CBS_asn1_ber_to_der_def seq_basic id_apply ..
  note run = this
  show "CBS_asn1_ber_to_der env c = (if \<not> b then seq CBS_get_any_asn1_element (\<lambda>(out, _). ret (out, None))
     else (\<lambda>c. case conversion (cbs_len c) (c, env) of
         (Ok (data, len), c', _) \<Rightarrow> (Ok (CBS_init (the data) (the len), data), c')
       | (Fail, c', s) \<Rightarrow> (case CBB_cleanup 0 s of (Ok _, _) \<Rightarrow> (Fail, c') | _ \<Rightarrow> (Ub, c'))
       | (Ub, c', _) \<Rightarrow> (Ub, c')
       | (NoFuel, c', _) \<Rightarrow> (NoFuel, c'))) c" if "found_in c = Ok b"
  proof -
    have "?find c = (Ok b, d)" using that find by (simp only: found_in_def fst_conv)
    note step = seq_on_child(1) [where m = ?find, OF this]
    show ?thesis unfolding run step prod.case ..
  qed
  show "CBS_asn1_ber_to_der env c = (Fail, c)" if "found_in c = Fail"
  proof -
    have "?find c = (Fail, d)" using that find by (simp only: found_in_def fst_conv)
    from seq_on_child(2) [where m = ?find, OF this] show ?thesis unfolding run by blast
  qed
qed

lemma ber_to_der_found: "found_in c = Ok True \<Longrightarrow> CBS_asn1_ber_to_der env c = (case conversion (cbs_len c) (c, env) of
    (Ok (data, len), c', _) \<Rightarrow> (Ok (CBS_init (the data) (the len), data), c')
  | (Fail, c', s) \<Rightarrow> (Fail, c')
  | (Ub, c', _) \<Rightarrow> (Ub, c')
  | (NoFuel, c', _) \<Rightarrow> (NoFuel, c'))"
  by (drule ber_to_der_find(1) [of c True env]) (simp add: CBB_cleanup_def act_run split: prod.split outcome.split del: cbs_convert_ber.simps)

lemma ber_to_der_not_found:
  "found_in c = Ok False \<Longrightarrow> CBS_asn1_ber_to_der env c = seq CBS_get_any_asn1_element (\<lambda>(out, _). ret (out, None)) c"
  by (drule ber_to_der_find(1) [of c False env]) simp

lemma found_cases:
  assumes "cbs_ok c"
  obtains b where "found_in c = Ok b" | "found_in c = Fail"
  using find_in_order [OF assms, of "Suc (cbs_len c)" False 0]
  by (cases "find_ber_loop (Suc (cbs_len c)) False 0 c"; cases "fst (find_ber_loop (Suc (cbs_len c)) False 0 c)")
    (auto simp: found_in_def in_order_def)

lemma found_trees: "cbs_ok c \<Longrightarrow> ber_input c xs \<Longrightarrow> found_in c = Ok (ber_seen False xs)"
  using find_trees [of c kMaxDepth xs "Suc (cbs_len c)" 0 False] by (auto simp: found_in_def ber_input_def)

text \<open>Input in which nothing is noticed.\<close>

lemma not_converted:
  assumes c: "cbs_ok c" and input: "ber_input c (x # zs)" and seen: "\<not> ber_seen False (x # zs)"
  shows "\<exists>out. CBS_asn1_ber_to_der env c = (Ok (out, None), after (length (ber_code x)) c) \<and> bytes_of out = ber_code x"
proof -
  have f: "found_in c = Ok False" using found_trees [OF c input] seen by simp
  obtain t bs where x: "ber_code x = der_element (t, bs)" "length bs < 2 ^ 32"
    using seen input by (cases x) (auto simp: ber_input_def)
  have code: "bytes_of c = der_element (t, bs) @ ber_codes zs" using input x by (simp add: ber_input_def)
  let ?h = "length (der_tag t) + length (der_length (length bs))"
  note at = element_at [OF c code x(2) refl]
  have bs: "bytes_of c = der_tag t @ der_length (length bs) @ (bs @ ber_codes zs)" using code by (simp add: der_element_def)
  have run: "CBS_get_any_asn1_element c = (Ok (window 0 (?h + length bs) c, t, ?h), after (?h + length bs) c)"
    using element_of_code [OF c bs x(2)] at(1) by (simp add: element_outcome_def)
  have "bytes_of (window 0 (?h + length bs) c) = ber_code x" using at(1,8) by (simp add: bytes_of_window [of 0] code x)
  then show ?thesis using x at(8) by (simp add: ber_to_der_not_found [OF f] seq_run(1) run act_run)
qed

section \<open>Conversion to DER\<close>

text \<open>Environments for examples: no memory, and as much as is asked for.\<close>

definition no_memory :: CBB where
  "no_memory = \<lparr>cbb_base = None, cbb_open = [], cbb_alloc = (\<lambda>_. False), cbb_fresh = (\<lambda>_. 0)\<rparr>"

definition all_memory :: CBB where
  "all_memory = no_memory\<lparr>cbb_alloc := (\<lambda>_. True)\<rparr>"

text \<open>Input that is BER, in which something is noticed.\<close>

lemma converted_input:
  assumes "cbs_ok c" "cbs_len c < 2 ^ 64" "ber_input c xs" "der_forms xs = Some ys" "length (ber_codes ys) < 2 ^ 64"
    "\<forall>k. cbb_alloc env k" "ber_seen False xs"
  shows "\<exists>out store c'. CBS_asn1_ber_to_der env c = (Ok (out, Some store), c') \<and> bytes_of out = ber_codes ys \<and> cbs_len c' = 0"
proof -
  have f: "found_in c = Ok True" using found_trees [OF assms(1,3)] assms(7) by simp
  show ?thesis
    using assms(1,2)
  proof (cases rule: conversion_cases [where env = env])
    case (Ok zs us buf c' t)
    have same: "zs = xs"
    proof -
      have "read_ber (Suc (cbs_len c)) kMaxDepth False c = (Ok zs', after (length (ber_codes zs' @ end_mark False)) c)" if "ber_input c zs'" for zs'
        using that by (intro read_ber_accepts [OF assms(1), where rest = "[]"]) (simp_all add: ber_input_def end_mark_def)
      from this [OF Ok(2)] this [OF assms(3)] show ?thesis by simp
    qed
    then have us: "us = ys" using Ok(3) assms(4) by simp
    have "length (ber_codes ys) \<le> length buf" using arg_cong [OF Ok(4), of length] us by simp
    then have "bytes_of (CBS_init buf (length (ber_codes ys))) = ber_codes ys" using Ok(4) us by (simp add: CBS_init_def bytes_of_def)
    then show ?thesis
      using Ok(5) by (simp add: ber_to_der_found [OF f] of_running(1) [OF Ok(1)] us del: cbs_convert_ber.simps)
  next
    case (Fail t)
    then show ?thesis using assms(3-6) by blast
  qed
qed

text \<open>
  The input is taken as a whole: an element of indefinite length and another element behind it are both
  converted and used up.  internal.h speaks of one element that is read and passed over.
\<close>

lemma ber_several_elements:
  "\<exists>out store c'. CBS_asn1_ber_to_der all_memory (CBS_init [0x30, 0x80, 0, 0, 4, 1, 7] 7) = (Ok (out, Some store), c') \<and>
    bytes_of out = [0x30, 0, 4, 1, 7] \<and> cbs_len c' = 0"
proof -
  let ?c = "CBS_init [0x30, 0x80, 0, 0, 4, 1, 7] 7"
  let ?xs = "[Ber_Group 0x20000010 True [], Ber_Value 4 [7]]" and ?ys = "[Ber_Group 0x20000010 False [], Ber_Value 4 [7]]"
  have code: "ber_codes ?xs = [0x30, 0x80, 0, 0, 4, 1, 7]" "ber_codes ?ys = [0x30, 0, 4, 1, 7]" by code_simp+
  then have "ber_input ?c ?xs" by (simp add: ber_input_def CBS_init_def bytes_of_def)
  moreover have "der_forms ?xs = Some ?ys" "ber_seen False ?xs" by (simp_all add: is_string_type_def short_enough_def)
  moreover have "length (ber_codes ?ys) < 2 ^ 64" unfolding code by simp
  moreover have "cbs_ok ?c" "cbs_len ?c < 2 ^ 64" "\<forall>k. cbb_alloc all_memory k"
    by (simp_all add: cbs_ok_def CBS_init_def all_memory_def)
  ultimately show ?thesis using converted_input [of ?c ?xs ?ys all_memory] code(2) by simp
qed

text \<open>
  C38. Any input.  \<open>CBS_asn1_ber_to_der\<close> runs without undefined behaviour on every input.  When it returns a new
  buffer, the whole input was a sequence of BER elements (any number of them, not only one as internal.h has it)
  nested at most 2048 deep, the buffer is exactly the code of their DER form, in which no length is indefinite and
  no string is constructed, and the input is used up.
  When it returns no buffer, the result is the DER element the input starts with and the input is advanced
  over it.  It fails on BER that it has noticed and that has a DER form only when memory runs out.
\<close>

theorem ber_to_der_any_input:
  assumes "cbs_ok c" "cbs_len c < 2 ^ 64"
  shows "case CBS_asn1_ber_to_der env c of
      (Ok (out, Some store), c') \<Rightarrow> \<exists>xs ys. ber_input c xs \<and> ber_seen False xs \<and> der_forms xs = Some ys \<and> all_der ys \<and>
        bers_fit kMaxDepth ys \<and> out = CBS_init store (length (ber_codes ys)) \<and> cbs_ok out \<and> bytes_of out = ber_codes ys \<and> cbs_len c' = 0
    | (Ok (out, None), c') \<Rightarrow> \<exists>t bs. bytes_of c = der_element (t, bs) @ bytes_of c' \<and> bytes_of out = der_element (t, bs) \<and> length bs < 2 ^ 32
    | (Fail, _) \<Rightarrow> \<forall>xs ys. ber_input c xs \<longrightarrow> ber_seen False xs \<longrightarrow> der_forms xs = Some ys \<longrightarrow> length (ber_codes ys) < 2 ^ 64 \<longrightarrow>
        \<not> (\<forall>k. cbb_alloc env k)
    | _ \<Rightarrow> False"
  using assms(1)
proof (cases rule: found_cases)
  case (1 b)
  show ?thesis
  proof (cases b)
    case True
    then have f: "found_in c = Ok True" using 1 by simp
    note run = ber_to_der_found [OF f]
    show ?thesis
      using assms
    proof (cases rule: conversion_cases [where env = env])
      case (Ok xs ys buf c' t)
      have "length (ber_codes ys) \<le> length buf" using arg_cong [OF Ok(4), of length] by simp
      then have "cbs_ok (CBS_init buf (length (ber_codes ys)))" "bytes_of (CBS_init buf (length (ber_codes ys))) = ber_codes ys"
        using Ok(4) by (simp_all add: CBS_init_def cbs_ok_def bytes_of_def)
      moreover have "ber_seen False xs" using found_trees [OF assms(1) Ok(2)] f by simp
      moreover have "all_der ys" "bers_fit kMaxDepth ys" using der_form_fits(2) [of kMaxDepth, OF _ Ok(3)] Ok(2) by (simp_all add: ber_input_def)
      ultimately show ?thesis using Ok(2,3,5) by (simp add: run of_running(1) [OF Ok(1)] del: cbs_convert_ber.simps) blast
    next
      case (Fail t)
      then obtain c' where "conversion (cbs_len c) (c, env) = (Fail, c', t)" using of_running(2) by blast
      then show ?thesis using Fail(2) by (simp add: run del: cbs_convert_ber.simps)
    qed
  next
    case False
    then have f: "found_in c = Ok False" using 1 by simp
    then have no: "\<not> ber_seen False xs" if "ber_input c xs" for xs using found_trees [OF assms(1) that] by simp
    show ?thesis
      using assms(1)
    proof (cases rule: element_cases)
      case stop
      then show ?thesis using no by (simp add: ber_to_der_not_found [OF f] seq_run)
    next
      case (element t n h)
      note contents = element_contents [OF assms(1) element(2,4)]
      have "bytes_of (window 0 (h + n) c) = der_element (t, bytes_of (window h n c))"
        using element(2,3) contents by (simp add: bytes_of_window [of 0] der_element_def)
      moreover have "bytes_of c = der_element (t, bytes_of (window h n c)) @ bytes_of (after (h + n) c)"
        using contents by (simp add: der_element_def)
      moreover have "length (bytes_of (window h n c)) < 2 ^ 32" using contents(2) element(1) by simp
      ultimately show ?thesis
        by (simp add: ber_to_der_not_found [OF f] seq_run(1) element(5) act_run) blast
    qed
  qed
next
  case 2
  then show ?thesis using found_trees [OF assms(1)] by (auto simp: ber_to_der_find(2))
qed

theorem ber_to_der_any_input_witness:
  "\<exists>r c'. CBS_asn1_ber_to_der no_memory (CBS_init [0x30, 0x80, 4, 1, 7, 0] 6) = (r, c') \<and> r \<noteq> Ub \<and> r \<noteq> NoFuel"
  using ber_to_der_any_input [of "CBS_init [0x30, 0x80, 4, 1, 7, 0] 6" no_memory]
  by (auto simp: cbs_ok_def CBS_init_def split: outcome.splits)

text \<open>
  C39. Well-formed BER.  Let the input be the code of one or more BER trees that have a DER form, and let memory
  last.  If the walk notices a form that is not DER, the result is a new buffer with exactly the code of the DER
  form of all the trees and the input is used up; otherwise the result is the first element as it stands and the
  input is advanced over it.  In DER nothing is noticed, so that converting a result again returns its first
  element as it stands.  (For one tree this is what internal.h promises, but for the forms that the walk overlooks.)
\<close>

theorem ber_to_der_exact:
  assumes "cbs_ok c" "cbs_len c < 2 ^ 64" "ber_input c xs" "xs \<noteq> []" "der_forms xs = Some ys" "length (ber_codes ys) < 2 ^ 64"
    "\<forall>k. cbb_alloc env k"
  shows "\<exists>out store c'. CBS_asn1_ber_to_der env c = (Ok (out, store), c') \<and>
    (if ber_seen False xs then store \<noteq> None \<and> bytes_of out = ber_codes ys \<and> cbs_len c' = 0
     else store = None \<and> bytes_of out = ber_code (hd xs) \<and> c' = after (length (ber_code (hd xs))) c) \<and>
    (all_der xs \<longrightarrow> \<not> ber_seen False xs)"
proof (cases "ber_seen False xs")
  case True
  then show ?thesis using converted_input [OF assms(1-3,5-7)] der_not_seen [of xs False] by auto
next
  case False
  obtain x zs where xs: "xs = x # zs" using assms(4) by (cases xs) auto
  then show ?thesis using not_converted [OF assms(1), of x zs env] assms(3) False by auto
qed

theorem ber_to_der_exact_witness:
  "\<exists>out store c'. CBS_asn1_ber_to_der all_memory (CBS_init [0x24, 0x80, 4, 1, 7, 4, 1, 8, 0, 0] 10) = (Ok (out, store), c') \<and>
    store \<noteq> None \<and> bytes_of out = [4, 2, 7, 8] \<and> cbs_len c' = 0"
proof -
  let ?c = "CBS_init [0x24, 0x80, 4, 1, 7, 4, 1, 8, 0, 0] 10" and ?xs = "[Ber_Group 0x20000004 True [Ber_Value 4 [7], Ber_Value 4 [8]]]"
  have code: "ber_codes ?xs = [0x24, 0x80, 4, 1, 7, 4, 1, 8, 0, 0]" "ber_codes [Ber_Value 4 [7, 8]] = [4, 2, 7, 8]" by code_simp+
  then have input: "ber_input ?c ?xs" by (simp add: ber_input_def CBS_init_def bytes_of_def)
  have forms: "der_forms ?xs = Some [Ber_Value 4 [7, 8]]" "ber_seen False ?xs" by (simp_all add: is_string_type_def short_enough_def)
  have "length (ber_codes [Ber_Value 4 [7, 8]]) < 2 ^ 64" "cbs_ok ?c" "cbs_len ?c < 2 ^ 64" "\<forall>k. cbb_alloc all_memory k"
    unfolding code by (simp_all add: cbs_ok_def CBS_init_def all_memory_def)
  then show ?thesis using ber_to_der_exact [OF _ _ input _ forms(1), of all_memory] code(2) forms(2) by auto
qed

text \<open>
  A sequence holds a sequence with an element of indefinite length, followed by an empty sequence.  The
  walk comes back from the first with \<open>*ber_found\<close> set and clears it in the second, so nothing is converted
  and the result is not DER.
\<close>

lemma ber_overlooked:
  "\<exists>out c'. CBS_asn1_ber_to_der env (CBS_init [0x30, 8, 0x30, 4, 0x30, 0x80, 0, 0, 0x30, 0] 10) = (Ok (out, None), c') \<and>
    bytes_of out = [0x30, 8, 0x30, 4, 0x30, 0x80, 0, 0, 0x30, 0]"
proof -
  let ?c = "CBS_init [0x30, 8, 0x30, 4, 0x30, 0x80, 0, 0, 0x30, 0] 10"
  let ?zs = "[Ber_Group 0x20000010 False [Ber_Group 0x20000010 True []], Ber_Group 0x20000010 False []]"
  have code: "ber_codes ?zs = [0x30, 4, 0x30, 0x80, 0, 0, 0x30, 0]" "ber_codes [Ber_Group 0x20000010 True []] = [0x30, 0x80, 0, 0]"
    "ber_code (Ber_Group 0x20000010 False ?zs) = [0x30, 8, 0x30, 4, 0x30, 0x80, 0, 0, 0x30, 0]" by code_simp+
  have "bers_fit kMaxDepth [Ber_Group 0x20000010 False ?zs]"
    unfolding bers_fit.simps ber_fits.simps code by simp
  then have "ber_input ?c [Ber_Group 0x20000010 False ?zs]" unfolding ber_input_def ber_codes.simps code by (simp add: CBS_init_def bytes_of_def)
  moreover have "\<not> ber_seen False [Ber_Group 0x20000010 False ?zs]" by (simp add: is_string_type_def)
  ultimately show ?thesis using not_converted [of ?c "Ber_Group 0x20000010 False ?zs" "[]" env] code(3) by (auto simp: cbs_ok_def CBS_init_def)
qed

section \<open>Implicitly tagged strings\<close>

definition chunk_codes :: "u32 \<Rightarrow> byte list list \<Rightarrow> byte list" where
  "chunk_codes t bss = concat (map (\<lambda>bs. der_element (t, bs)) bss)"

definition chunked :: "u32 \<Rightarrow> byte list list \<Rightarrow> byte list \<Rightarrow> bool" where
  "chunked t bss cs \<longleftrightarrow> (\<forall>bs \<in> set bss. length bs < 2 ^ 32) \<and> cs = chunk_codes t bss"

lemma chunked_simps [simp]:
  "chunked t [] cs \<longleftrightarrow> cs = []"
  "chunked t (bs # bss) cs \<longleftrightarrow> length bs < 2 ^ 32 \<and> (\<exists>ds. cs = der_element (t, bs) @ ds \<and> chunked t bss ds)"
  by (auto simp: chunked_def chunk_codes_def)

lemma chunked_unique: "chunked t bss cs \<Longrightarrow> chunked t bss' cs \<Longrightarrow> bss' = bss"
proof (induction bss arbitrary: bss' cs)
  case Nil
  then show ?case using der_element_nonempty by (cases bss') auto
next
  case (Cons bs bss)
  then obtain ds where ds: "length bs < 2 ^ 32" "cs = der_element (t, bs) @ ds" "chunked t bss ds" by auto
  then obtain bs' rest ds' where ds': "bss' = bs' # rest" "length bs' < 2 ^ 32" "cs = der_element (t, bs') @ ds'" "chunked t rest ds'"
    using Cons.prems(2) der_element_nonempty by (cases bss') auto
  have "der_element (t, bs) @ ds = der_element (t, bs') @ ds'" using ds(2) ds'(3) by simp
  then have "bs = bs' \<and> ds = ds'" using exact_reader.prefix_free [OF get_asn1_exact ds(1) ds'(2)] by blast
  then show ?case using Cons.IH [OF ds(3)] ds' by simp
qed

lemma chunks_end: "cbs_len c = 0 \<Longrightarrow> implicit_chunks k t c = ret ()"
  by (simp add: implicit_chunks.simps [of k])

lemma chunks_yield:
  assumes "cbs_ok c" "cbs_len c \<le> k"
  shows "(\<exists>bss. chunked t bss (bytes_of c) \<and> yields 0 (implicit_chunks k t c) (Some ((), concat bss))) \<or>
    ((\<nexists>bss. chunked t bss (bytes_of c)) \<and> yields 0 (implicit_chunks k t c) None)"
  using assms
proof (induction k arbitrary: c)
  case 0
  then show ?case by (intro disjI1 exI [of _ "[]"]) (simp add: chunks_end yields_ret bytes_of_def)
next
  case (Suc k)
  show ?case
  proof (cases "cbs_len c = 0")
    case True
    then show ?thesis by (intro disjI1 exI [of _ "[]"]) (simp add: chunks_end yields_ret bytes_of_def)
  next
    case False
    then have run: "implicit_chunks (Suc k) t c = seq (on_cbs c (CBS_get_asn1 t)) (\<lambda>(chunk, child).
        seq (deref (cbs_data chunk) (cbs_len chunk)) (\<lambda>bs. seq (CBB_add_bytes 0 bs) (\<lambda>_. implicit_chunks k t child)))"
      by (simp add: implicit_chunks.simps [of "Suc k"])
    have nonempty: "bytes_of c \<noteq> []" using False Suc.prems(1) by (metis length_bytes_of list.size(3))
    have heads: "\<exists>bs bss'. bss = bs # bss'" if "chunked t bss (bytes_of c)" for bss
      using that nonempty by (cases bss) auto
    show ?thesis
      using exact_reader.ordered [OF get_asn1_exact Suc.prems(1), of t]
    proof (cases rule: in_orderE)
      case (Ok w d)
      let ?bs = "bytes_of w"
      have w: "cbs_ok w" using Ok(2) by (simp add: child_of_def)
      obtain j where j: "length ?bs < 2 ^ 32" "j \<le> cbs_len c" "d = after j c" "take j (bytes_of c) = der_element (t, ?bs)"
        using exact_reader.exact [OF get_asn1_exact Suc.prems(1) Ok(1)] by blast
      have reads: "bytes_of c = der_element (t, ?bs) @ bytes_of d" using exact_reader.reads [OF get_asn1_exact Suc.prems(1) Ok(1)] by simp
      have "0 < j" using j(4) der_element_nonempty [of "(t, ?bs)"] by (cases j) auto
      then have "cbs_len d \<le> k" using j(2,3) Suc.prems(2) by (simp add: window_def)
      note IH = Suc.IH [OF Ok(4) this]
      have step: "implicit_chunks (Suc k) t c = seq (CBB_add_bytes 0 ?bs) (\<lambda>_. implicit_chunks k t d)"
        unfolding run seq_on_cbs [where m = "CBS_get_asn1 t", OF Ok(1)] prod.case deref_child [OF w] seq_basic ..
      have "length ?bs < 2 ^ 64" using j(1) by simp
      note first = yields_adds [OF adds_of_appended [OF CBB_add_bytes_implements [OF this]], of 0]
      from IH show ?thesis
      proof (elim disjE exE conjE)
        fix bss assume bss: "chunked t bss (bytes_of d)" "yields 0 (implicit_chunks k t d) (Some ((), concat bss))"
        have "yields 0 (implicit_chunks (Suc k) t c) (Some ((), concat (?bs # bss)))"
          unfolding step using yields_seq [OF first, of "\<lambda>_. implicit_chunks k t d" "\<lambda>_. Some ((), concat bss)"] bss(2) by simp
        moreover have "chunked t (?bs # bss) (bytes_of c)" using reads bss(1) j(1) by auto
        ultimately show ?thesis by blast
      next
        assume none: "\<nexists>bss. chunked t bss (bytes_of d)" "yields 0 (implicit_chunks k t d) None"
        have "yields 0 (implicit_chunks (Suc k) t c) None"
          unfolding step using yields_seq [OF first, of "\<lambda>_. implicit_chunks k t d" "\<lambda>_. None"] none(2) by simp
        moreover have "\<not> chunked t bss (bytes_of c)" for bss
        proof
          assume a: "chunked t bss (bytes_of c)"
          then obtain bs bss' ds where b: "length bs < 2 ^ 32" "bytes_of c = der_element (t, bs) @ ds" "chunked t bss' ds"
            using heads [OF a] by auto
          have "der_element (t, bs) @ ds = der_element (t, ?bs) @ bytes_of d" using b(2) reads by simp
          then have "ds = bytes_of d" using exact_reader.prefix_free [OF get_asn1_exact b(1) j(1)] by blast
          then show False using none(1) b(3) by blast
        qed
        ultimately show ?thesis by blast
      qed
    next
      case (Fail d)
      have "yields 0 (implicit_chunks (Suc k) t c) None"
        unfolding run by (rule yieldsI) (simp add: seq_def on_cbs_def Fail(1))
      moreover have "\<not> chunked t bss (bytes_of c)" for bss
      proof
        assume a: "chunked t bss (bytes_of c)"
        then obtain bs ds where "length bs < 2 ^ 32" "bytes_of c = der_element (t, bs) @ ds" using heads [OF a] by auto
        then show False using exact_reader.accepts [OF get_asn1_exact Suc.prems(1)] Fail(1) by fastforce
      qed
      ultimately show ?thesis by blast
    qed
  qed
qed

text \<open>Building the chunks of a child, and what is left of the input.\<close>

abbreviation implicit_build :: "u32 \<Rightarrow> u32 \<Rightarrow> nat \<Rightarrow> (byte list option \<times> nat option, CBS \<times> CBB) act" where
  "implicit_build outer inner n \<equiv> seq (building (CBB_init n)) (\<lambda>_.
     seq (reading (CBS_get_asn1 (outer OR CBS_ASN1_CONSTRUCTED))) (\<lambda>child.
     seq (building (implicit_chunks (cbs_len child) inner child)) (\<lambda>_. building (CBB_finish 0 True True))))"

lemma implicit_absent:
  assumes "\<not> constructed outer" "\<not> constructed inner" "is_string_type inner" "CBS_peek_asn1_tag outer c = (Ok False, c)"
  shows "CBS_get_asn1_implicit_string env outer inner c = (case implicit_build outer inner (cbs_len c) (c, env) of
      (Ok (data, len), c', _) \<Rightarrow> (Ok (CBS_init (the data) (the len), data), c')
    | (Fail, c', s) \<Rightarrow> (Fail, c')
    | (Ub, c', _) \<Rightarrow> (Ub, c')
    | (NoFuel, c', _) \<Rightarrow> (NoFuel, c'))"
  using assms(1-3)
  by (simp add: CBS_get_asn1_implicit_string_def seq_run(1) [where m = "CBS_peek_asn1_tag outer", OF assms(4)] CBB_cleanup_def act_run
      split: prod.split outcome.split)

lemma chunks_finish:
  assumes "cbs_ok w" "builds [(Fixed 0, [])] s"
  obtains (Ok) bss buf t where "seq (implicit_chunks (cbs_len w) inner w) (\<lambda>x. seq (CBB_finish 0 True True) (\<lambda>y. ret (y, d))) s =
        (Ok ((Some buf, Some (length (concat bss))), d), t)"
      "take (length (concat bss)) buf = concat bss" "chunked inner bss (bytes_of w)"
  | (Fail) t where "seq (implicit_chunks (cbs_len w) inner w) (\<lambda>x. seq (CBB_finish 0 True True) (\<lambda>y. ret (y, d))) s = (Fail, t)"
      "\<And>bss. chunked inner bss (bytes_of w) \<Longrightarrow> \<not> fits (length (concat bss)) s"
proof -
  let ?chunks = "implicit_chunks (cbs_len w) inner w"
  have swap: "seq ?chunks (\<lambda>x. seq (CBB_finish 0 True True) (\<lambda>y. ret (y, x))) s = (q, t) \<Longrightarrow>
      seq ?chunks (\<lambda>x. seq (CBB_finish 0 True True) (\<lambda>y. ret (y, d))) s =
        ((case q of Ok (y, _) \<Rightarrow> Ok (y, d) | Fail \<Rightarrow> Fail | Ub \<Rightarrow> Ub | NoFuel \<Rightarrow> NoFuel), t)" for q t
    by (auto simp: seq_def ret_def split: prod.splits outcome.splits)
  from chunks_yield [OF assms(1) order_refl, of inner] show thesis
  proof (elim disjE exE conjE)
    fix bss assume bss: "chunked inner bss (bytes_of w)" "yields 0 ?chunks (Some ((), concat bss))"
    show thesis
      using bss(2) assms(2)
    proof (cases rule: yields_finish)
      case (Ok x bs buf t)
      then show thesis using that(1) [of buf bss t] swap [OF Ok(1)] bss(1) by simp
    next
      case (Fail t)
      have "\<not> fits (length (concat bss')) s" if "chunked inner bss' (bytes_of w)" for bss'
        using Fail(2) chunked_unique [OF bss(1) that] by blast
      then show thesis using that(2) [of t] swap [OF Fail(1)] by simp
    qed
  next
    assume none: "\<nexists>bss. chunked inner bss (bytes_of w)" "yields 0 ?chunks None"
    show thesis
      using none(2) assms(2)
    proof (cases rule: yields_finish)
      case (Fail t)
      then show thesis using that(2) [of t] swap [OF Fail(1)] none(1) by simp
    qed simp
  qed
qed

lemma implicit_build_cases:
  assumes "cbs_ok c" "cbs_len c < 2 ^ 64"
  obtains (Ok) bss cs buf c' t where "running c (implicit_build outer inner (cbs_len c)) env = (Ok ((Some buf, Some (length (concat bss))), c'), t)"
      "take (length (concat bss)) buf = concat bss"
      "chunked inner bss cs" "length cs < 2 ^ 32" "bytes_of c = der_element (outer OR CBS_ASN1_CONSTRUCTED, cs) @ bytes_of c'"
  | (Fail) t where "running c (implicit_build outer inner (cbs_len c)) env = (Fail, t)"
      "\<And>bss cs rest. chunked inner bss cs \<Longrightarrow> length cs < 2 ^ 32 \<Longrightarrow> bytes_of c = der_element (outer OR CBS_ASN1_CONSTRUCTED, cs) @ rest \<Longrightarrow>
        length (concat bss) < 2 ^ 64 \<Longrightarrow> \<not> (\<forall>k. cbb_alloc env k)"
  using assms(2)
proof (cases rule: init_cases [where s = env])
  case (Ok s)
  note init = Ok
  let ?tag = "outer OR CBS_ASN1_CONSTRUCTED"
  show thesis
    using exact_reader.ordered [OF get_asn1_exact assms(1), of ?tag]
  proof (cases rule: in_orderE)
    case (Ok w d)
    have w: "cbs_ok w" using Ok(2) by (simp add: child_of_def)
    have lw: "length (bytes_of w) < 2 ^ 32" using exact_reader.exact [OF get_asn1_exact assms(1) Ok(1)] by simp
    have reads: "bytes_of c = der_element (?tag, bytes_of w) @ bytes_of d" using exact_reader.reads [OF get_asn1_exact assms(1) Ok(1)] by simp
    have same: "cs = bytes_of w" if "length cs < 2 ^ 32" "bytes_of c = der_element (?tag, cs) @ rest" for cs rest
    proof -
      have "der_element (?tag, cs) @ rest = der_element (?tag, bytes_of w) @ bytes_of d" using that(2) reads by simp
      then show ?thesis using exact_reader.prefix_free [OF get_asn1_exact that(1) lw] by blast
    qed
    have run: "running c (implicit_build outer inner (cbs_len c)) env =
        seq (implicit_chunks (cbs_len w) inner w) (\<lambda>x. seq (CBB_finish 0 True True) (\<lambda>y. ret (y, d))) s"
      using init(1) by (simp add: running_building seq_run(1) running_reading(1) [where m = "CBS_get_asn1 ?tag", OF Ok(1)])
    show thesis
      using w init(2)
    proof (cases rule: chunks_finish [where d = d and inner = inner])
      case (Ok bss buf t)
      then show thesis using that(1) lw reads unfolding run by blast
    next
      case (Fail t)
      have "\<not> (\<forall>k. cbb_alloc env k)"
        if "chunked inner bss cs" "length cs < 2 ^ 32" "bytes_of c = der_element (?tag, cs) @ rest" "length (concat bss) < 2 ^ 64" for bss cs rest
        using Fail(2) [of bss] that(1,4) same [OF that(2,3)] init(3) by blast
      then show thesis using that(2) Fail(1) unfolding run by blast
    qed
  next
    case (Fail d)
    have "running c (implicit_build outer inner (cbs_len c)) env = (Fail, s)"
      using init(1) by (simp add: running_building seq_run(1) running_reading(2) [where m = "CBS_get_asn1 ?tag", OF Fail(1)] act_run)
    moreover have "bytes_of c \<noteq> der_element (?tag, cs) @ rest" if "length cs < 2 ^ 32" for cs rest
      using exact_reader.accepts [OF get_asn1_exact assms(1) that, of ?tag rest] Fail(1) by auto
    ultimately show thesis using that(2) by blast
  qed
next
  case (Fail t)
  then show thesis by (intro that(2) [of t]) (simp_all add: running_building seq_run(2))
qed

text \<open>
  C40. Implicitly tagged strings.  With primitive tags and the tag of a string inside,
  \<open>CBS_get_asn1_implicit_string\<close> runs without undefined behaviour on every input.  It returns the contents of a
  primitive element in place, and for a constructed one a new buffer with the concatenated contents of its
  elements, which all have the inner tag; either way the input is advanced over the element.  It fails
  only when the input starts with neither, or when memory runs out.
\<close>

theorem implicit_string_exact:
  assumes "cbs_ok c" "cbs_len c < 2 ^ 64" "\<not> constructed outer" "\<not> constructed inner" "is_string_type inner"
  shows "case CBS_get_asn1_implicit_string env outer inner c of
      (Ok (out, None), c') \<Rightarrow> bytes_of c = der_element (outer, bytes_of out) @ bytes_of c'
    | (Ok (out, Some store), c') \<Rightarrow> \<exists>bss cs. chunked inner bss cs \<and> bytes_of c = der_element (outer OR CBS_ASN1_CONSTRUCTED, cs) @ bytes_of c' \<and>
        cbs_ok out \<and> bytes_of out = concat bss
    | (Fail, _) \<Rightarrow> (\<nexists>bs rest. length bs < 2 ^ 32 \<and> bytes_of c = der_element (outer, bs) @ rest) \<and>
        ((\<forall>k. cbb_alloc env k) \<longrightarrow> (\<nexists>bss cs rest. chunked inner bss cs \<and> length cs < 2 ^ 32 \<and> length (concat bss) < 2 ^ 64 \<and>
           bytes_of c = der_element (outer OR CBS_ASN1_CONSTRUCTED, cs) @ rest))
    | _ \<Rightarrow> False"
proof (cases "\<exists>rest. bytes_of c = der_tag outer @ rest")
  case True
  then have peek: "CBS_peek_asn1_tag outer c = (Ok True, c)" using peek_tag [OF assms(1), of outer] by simp
  have run: "CBS_get_asn1_implicit_string env outer inner c = seq (CBS_get_asn1 outer) (\<lambda>out. ret (out, None)) c"
    using assms(3-5) by (simp add: CBS_get_asn1_implicit_string_def seq_run(1) [where m = "CBS_peek_asn1_tag outer", OF peek])
  have other: "bytes_of c \<noteq> der_element (outer OR CBS_ASN1_CONSTRUCTED, cs) @ rest" for cs rest
  proof
    assume "bytes_of c = der_element (outer OR CBS_ASN1_CONSTRUCTED, cs) @ rest"
    moreover obtain rest' where "bytes_of c = der_tag outer @ rest'" using True by blast
    ultimately have "der_tag (outer OR CBS_ASN1_CONSTRUCTED) @ der_length (length cs) @ cs @ rest = der_tag outer @ rest'"
      by (simp add: der_element_def)
    then have "outer OR CBS_ASN1_CONSTRUCTED = outer" using tag.prefix_free by blast
    then have "(outer OR CBS_ASN1_CONSTRUCTED) AND CBS_ASN1_CONSTRUCTED = 0" using assms(3) by simp
    moreover have "(outer OR CBS_ASN1_CONSTRUCTED) AND CBS_ASN1_CONSTRUCTED = CBS_ASN1_CONSTRUCTED"
      by (rule bit_word_eqI) (auto simp: bit_simps)
    ultimately show False by simp
  qed
  show ?thesis
    using exact_reader.ordered [OF get_asn1_exact assms(1), of outer]
  proof (cases rule: in_orderE)
    case (Ok w d)
    then show ?thesis using exact_reader.reads [OF get_asn1_exact assms(1) Ok(1)] by (simp add: run seq_run(1) act_run)
  next
    case (Fail d)
    have "bytes_of c \<noteq> der_element (outer, bs) @ rest" if "length bs < 2 ^ 32" for bs rest
      using exact_reader.accepts [OF get_asn1_exact assms(1) that, of outer rest] Fail(1) by auto
    then show ?thesis using Fail(1) other by (auto simp: run seq_run(2))
  qed
next
  case False
  then have peek: "CBS_peek_asn1_tag outer c = (Ok False, c)" using peek_tag [OF assms(1), of outer] by simp
  have no: "bytes_of c \<noteq> der_element (outer, bs) @ rest" for bs rest using False by (auto simp: der_element_def)
  note run = implicit_absent [OF assms(3-5) peek, of env]
  show ?thesis
    using assms(1,2)
  proof (cases rule: implicit_build_cases [where outer = outer and inner = inner and env = env])
    case (Ok bss cs buf c' t)
    have "length (concat bss) \<le> length buf" using arg_cong [OF Ok(2), of length] by simp
    then have "cbs_ok (CBS_init buf (length (concat bss)))" "bytes_of (CBS_init buf (length (concat bss))) = concat bss"
      using Ok(2) by (simp_all add: CBS_init_def cbs_ok_def bytes_of_def)
    then show ?thesis using Ok(3,5) by (auto simp: run of_running(1) [OF Ok(1)])
  next
    case (Fail t)
    then obtain c' where "implicit_build outer inner (cbs_len c) (c, env) = (Fail, c', t)" using of_running(2) by blast
    then show ?thesis using Fail(2) no by (simp add: run) blast
  qed
qed

theorem implicit_string_exact_witness:
  "\<exists>out store c'. CBS_get_asn1_implicit_string all_memory 0x80000001 4 (CBS_init [0xa1, 7, 4, 1, 7, 4, 2, 8, 9] 9) = (Ok (out, store), c')"
proof -
  let ?c = "CBS_init [0xa1, 7, 4, 1, 7, 4, 2, 8, 9] 9"
  have code: "der_element (4, [7]) = [4, 1, 7]" "der_element (4, [8, 9]) = [4, 2, 8, 9]"
    "der_element (0x80000001 OR 0x20000000, [4, 1, 7, 4, 2, 8, 9]) = [0xa1, 7, 4, 1, 7, 4, 2, 8, 9]" by code_simp+
  have bss: "chunked 4 [[7], [8, 9]] [4, 1, 7, 4, 2, 8, 9]" by (simp add: code)
  have bytes: "bytes_of ?c = der_element (0x80000001 OR 0x20000000, [4, 1, 7, 4, 2, 8, 9]) @ []"
    by (simp only: code) (simp add: CBS_init_def bytes_of_def)
  have "\<exists>bss cs rest. chunked 4 bss cs \<and> length cs < 2 ^ 32 \<and> length (concat bss) < 2 ^ 64 \<and>
      bytes_of ?c = der_element (0x80000001 OR 0x20000000, cs) @ rest"
    by (rule exI [of _ "[[7], [8, 9]]"], rule exI [of _ "[4, 1, 7, 4, 2, 8, 9]"], rule exI [of _ "[]"]) (intro conjI bss bytes; simp)
  then show ?thesis
    using implicit_string_exact [of ?c "0x80000001" 4 all_memory]
    by (cases "CBS_get_asn1_implicit_string all_memory 0x80000001 4 ?c"; cases "fst (CBS_get_asn1_implicit_string all_memory 0x80000001 4 ?c)")
      (simp_all add: cbs_ok_def CBS_init_def is_string_type_def all_memory_def split: option.splits)
qed

end
