(* ===== verification/Spec2Isabelle.thy ===== *)
theory Spec2Isabelle
  imports Pb_Codec Pb_Encode_Spec Pb_Static Pb_Faults Cbs_Props Cbb_Props Bio_Props Lhash_Props Pool_Props Stack_Props Base64_Props Unicode_Props Ber_Props
begin

text \<open>
  A verification library for the C code of the chat application: the libraries under
  src/ChatApp/Pods that its data passes through on the way to and from the network and the disk.

  \<^bold>\<open>The program.\<close>  The application is written in Swift; everything in C is in its pods.  Two of them
  carry the core of the wire formats and of the data structures below them; these parts are modelled here
  function by function:

  \<^item> nanopb (Pods/nanopb: pb.h, pb_common.c, pb_encode.c, pb_decode.c), the protocol buffer codec Firestore
    and the Google data transport store and send their records with.  A message type is an array of field
    descriptors; the encoder reads a C structure through it and writes tags and values to an output stream,
    the decoder reads an input stream and stores into a structure.

  \<^item> the byte strings of BoringSSL (Pods/BoringSSL-GRPC/src/crypto/bytestring: cbs.c, cbb.c), with which
    every certificate, key and TLS message is parsed and built: \<open>CBS\<close> is a window that readers cut pieces
    from, \<open>CBB\<close> a growing buffer with nested strings whose length prefixes are filled in when they are closed;

  \<^item> the BIO pairs of BoringSSL (crypto/bio/pair.c, and the part of crypto/bio/bio.c and refcount_lock.c they go
    through), over which gRPC feeds its TLS engine: two BIOs, each with a ring buffer that its owner writes
    and its peer reads;

  \<^item> the hash table of BoringSSL (crypto/lhash/lhash.c, with the hash function of crypto/mem.c), and the pools of
    shared buffers that are built on it (crypto/pool/pool.c), in which certificates are kept;

  \<^item> the stacks of BoringSSL (crypto/stack/stack.c), the growing and sortable arrays of pointers behind every
    list of certificates, extensions or ciphers;

  \<^item> the base64 code of BoringSSL (crypto/base64/base64.c), in which keys and certificates are kept as text, with
    the constant-time helpers of crypto/internal.h it is made of;

  \<^item> the character encodings of BoringSSL (crypto/bytestring/unicode.c), over the byte strings;

  \<^item> the BER input of BoringSSL (crypto/bytestring/ber.c), which turns what older software writes into DER: it
    reads with a \<open>CBS\<close> and writes with a \<open>CBB\<close> at the same time.

  \<^bold>\<open>Conventions.\<close>  A C function that can fail is an action \<open>('a, 's) act\<close> (theory Prelude): a function from
  the state to an outcome and the state after it, where the outcome is \<open>Ok\<close> with a result, \<open>Fail\<close> (the
  function returned false), \<open>Ub\<close> (something the C standard leaves undefined happened: an access outside an
  object, a failed assertion, a null pointer) or \<open>NoFuel\<close>.  \<open>seq\<close> is sequencing with early return.  Machine
  integers are words of their width; \<open>size_t\<close> is a 64-bit word in nanopb and, in the byte strings, a natural
  number below \<open>2 ^ 64\<close> with the reduction written where the code adds.  Definitions carry the names of the C
  functions and constants; a definition for a part of a function (a loop, an error exit) is named after
  what it does.

  \<^bold>\<open>Theories of nanopb.\<close>
  \<^item> Pb_Types (types, constants, stream records of pb.h), Pb_Memory (byte memory addressed by 64-bit words).
  \<^item> Pb_Iter (pb_common.c and the \<open>PB_FIELD\<close> macros): the iterator visits the members of a structure laid out by
    a C compiler at their addresses, and its searches end and are exact (on an array without fields they find
    the number 0, at its terminator).
  \<^item> Pb_Ostream, Pb_Istream, Pb_Varint, Pb_Codec: streams, scalars, tags, skipping and substreams.  The locale
    \<open>stream_codec\<close> of Pb_Codec states what an encoder and a decoder promise each other; it is interpreted
    for every scalar type, which yields the round trips.
  \<^item> Pb_Encode (the message encoder), Pb_Encode_Spec: a pure specification of the encoding of a structure,
    and the proof that the two-pass encoder implements it; the computed size is exact.
  \<^item> Pb_Decode (the message decoder with defaults, release, unions, extensions), Pb_Safety and Pb_Static: on
    message types of static allocation, messages without fields among them, decoding any input returns true
    or false, reads only the input and writes only the structure.  Pb_Faults: two departures from the
    documented behaviour, one of which (arrays of fixed count of fewer than four bytes) writes outside the
    structure and is excluded from the safety of decoding.

  \<^bold>\<open>Theories of the byte strings.\<close>
  \<^item> Cbs (all readers of cbs.c), Cbs_Window (windows; the locale \<open>exact_reader\<close>: a reader that accepts exactly the
    codes of an encoding, returns the value and leaves the rest), Cbs_Der (base-128 numbers, tags, lengths,
    elements), Cbs_Values (integers, booleans, prefixed strings, optional elements), Cbs_Props (the properties,
    and the bounds of every reader).
    Numbers has the facts on words and big-endian byte strings these share.
  \<^item> Cbb (all of cbb.c, and the text form of object identifiers), Cbb_Spec: the abstract builder, a stack of open
    strings with the kind of prefix each will get, and the relation \<open>implements\<close> between an operation and a
    partial function on such stacks, closed under sequencing.  Cbb_Ops shows it for every operation; Cbb_Tree
    composes builder and reader on trees of DER values; Oid and Cbb_Set treat object identifiers and sets;
    Cbb_Props has the properties, among them the bounds of the readers of cbs.c with the one that goes through a
    builder, and what the error flag stops.

  \<^bold>\<open>Theories of the BIO pairs.\<close>
  \<^item> Bio (pair.c and bio.c over a store of BIOs), Bio_Pair: the ring buffers implement bounded queues, for
    every call and for sequences of calls on both ends (the step relation \<open>call\<close>), after which
    every call still returns, Bio_Props (the properties).

  \<^bold>\<open>Theories of the hash table and the buffer pools.\<close>
  \<^item> Lhash (the table; the functions of its user are arguments), Lhash_Map: it is a finite map, through any
    resize; the locale \<open>dictionary\<close> states what a client relies on and is interpreted by the table.
    Lhash_Props has the properties.
  \<^item> Refcount (reference counts), Pool (pool.c over a heap of buffers), Pool_Shared: the critical sections as
    a step relation between threads and its invariant, Pool_Props (the property).

  \<^bold>\<open>Theories of the stacks.\<close>
  \<^item> Stack (the functions of stack.c), Stack_List: a stack is a list, Stack_Order: sorting and searching,
    Stack_Props: sequences of calls refine a list with a comparison function (\<open>sk_spec\<close>) when \<open>sk_set\<close> is not
    called on a stack that is marked as sorted, and without the condition in all but the order (\<open>sk_spec_any\<close>);
    ownership of deep copies.

  \<^bold>\<open>Theories of base64.\<close>
  \<^item> Consttime (the masks and selections, each shown to decide what its name says), Base64 (base64.c),
    Base64_Stream: the alphabet, the quads and a reference encoder \<open>base64\<close> by arithmetic, Base64_Props: streams
    cut into any pieces and their lines, blocks, and the exact length that is asked for.

  \<^bold>\<open>Theories of the characters.\<close>
  \<^item> Unicode (unicode.c), Unicode_Props: its readers are exact readers (the locale of Cbs_Window) of the codes
    that its writers append.

  \<^bold>\<open>Theories of BER.\<close>
  \<^item> Ber (ber.c over the reader and the builder), Ber_Read (the next element of an input), Ber_Tree: trees of values
    and groups, and a reader that accepts exactly their codes; Ber_Convert: the DER form of a tree, and that
    the conversion is reading the trees and adding the code of their DER form; Ber_Props (the properties).

  \<^bold>\<open>Parameters.\<close>  Code outside src/ or without a body there is a parameter: the callbacks of a message type
  and of a stream, custom extension handlers, \<open>realloc\<close> and \<open>free\<close> as functions on an allocator state
  (nanopb), which sizes an allocation serves and what fresh memory holds (byte strings, BIO pairs, hash table,
  pools; \<open>malloc_ok\<close> says that what it serves lies beside the items already in a table).

  \<^bold>\<open>Fuel.\<close>  Loops whose length is bounded by their input are structural or have a termination measure.  The
  decoder of messages recurses over message types of any nesting, and its loops call parameters, so it takes
  fuel: the nesting depth, the number of bytes left for the loop over the input (each round consumes a
  byte), the length of an extension chain.  \<open>static_decode_safe\<close> shows that \<open>NoFuel\<close> does not occur once the
  fuel exceeds the bound it names; the loops over object identifiers and set elements are called with the
  length of their input and never run out (\<open>from_text_implements\<close>, \<open>to_text_run\<close>, \<open>set_of_run\<close>).  The copying
  loops of a BIO pair take the number of bytes to copy, and need two rounds (\<open>read_loop_run\<close>, \<open>write_loop_run\<close>).
  The two walks over BER take one more than the number of bytes, and at most 2048 nested calls as in the code
  (\<open>find_in_order\<close>, \<open>convert_ber_yields\<close>).

  \<^bold>\<open>Not modelled.\<close>  The Swift application (user interface, storage and network glue); the C++ libraries (gRPC,
  Firestore, LevelDB, Abseil, the TLS handshake of BoringSSL); generated tables (message descriptors, upb
  code, object tables, curve tables, the fiat field arithmetic); BoringSSL's cipher and public-key code and its
  template-driven ASN.1 and X.509 objects; the BIO kinds other than pairs, and BIO chains; the error queue; locks
  other than as atomic sections.  Of the modelled files these parts are left out: of pb.h the deprecated callback
  style, the \<open>PB_OPTEXT\<close> macros and the spellings of anonymous unions; of lhash.c \<open>lh_free\<close>, which only frees
  memory; of bio.c the functions that pairs do not go through (chains, \<open>BIO_read_asn1\<close>, indentation, printing of
  errors, methods made by users); of crypto/internal.h, mem.c and refcount_lock.c all but the helpers named above.

  \<^bold>\<open>Simplifications.\<close>  The callback of \<open>lh_doall_arg\<close> works on a state of its caller and cannot change the table
  it visits, so the counter that puts off a resize during a visit has no effect here.  The field of an extension
  is the one entry of its array (\<open>iter_from_extension\<close>), which differs from the code only for an extension in a
  union, and protobuf has none.  \<open>qsort\<close> is an insertion sort.

  \<^bold>\<open>Where comments and code part.\<close>  The array of fixed count and the message without fields (Pb_Faults); values
  over 32 bits that \<open>pb_decode_varint32\<close> accepts (\<open>varint32_overflow_missed\<close>, and the exact set of what it accepts
  among the codes of the encoder in \<open>varint32_of_varint\<close>); tag numbers of 31 and more, which the comment in
  \<open>parse_asn1_tag\<close> calls unsupported and the code reads (\<open>der_element_exact\<close>); a sorted stack after \<open>sk_set\<close>
  (\<open>sk_set_sorted_misses\<close>); a minus at the end of base64 text (\<open>decode_block_minus\<close>); several elements in an input of
  \<open>CBS_asn1_ber_to_der\<close>, of which internal.h mentions one (\<open>ber_several_elements\<close>), and BER that its walk
  overlooks (\<open>ber_overlooked\<close>).
\<close>

end
